(* ===== verification/FreeQueue.thy ===== *)
theory FreeQueue
  imports Prelude
begin

text \<open>
  \<open>FreeKVCacheBlockQueue\<close> of \<open>kv_cache_utils.py\<close>: the doubly linked list of free blocks,
  with a fake head and a fake tail.  The list lives in the \<open>prev_free_block\<close> and
  \<open>next_free_block\<close> attributes of the block objects, which only this class writes, so they
  are a store of their own here: two maps from references to references.  The state
  \<open>queue_of xs\<close> is the one in which the free list is exactly \<open>xs\<close>, and the lemmas show that
  every operation takes \<open>queue_of\<close> of a list to \<open>queue_of\<close> of the list it promises.
\<close>

section \<open>The linked list\<close>

text \<open>A reference to a block object, or to one of the two fake ones.\<close>

datatype bref = Blk nat | FakeHead | FakeTail

record free_queue =
  prev_free_block :: "bref \<Rightarrow> bref option"
  next_free_block :: "bref \<Rightarrow> bref option"
  num_free_blocks :: int

definition set_prev :: "bref \<Rightarrow> bref option \<Rightarrow> free_queue \<Rightarrow> free_queue" where
  "set_prev b v q = q\<lparr>prev_free_block := (prev_free_block q)(b := v)\<rparr>"

definition set_next :: "bref \<Rightarrow> bref option \<Rightarrow> free_queue \<Rightarrow> free_queue" where
  "set_next b v q = q\<lparr>next_free_block := (next_free_block q)(b := v)\<rparr>"

definition add_num_free :: "int \<Rightarrow> free_queue \<Rightarrow> free_queue" where
  "add_num_free n q = q\<lparr>num_free_blocks := num_free_blocks q + n\<rparr>"

definition link_consecutive :: "bref list \<Rightarrow> nat \<Rightarrow> free_queue \<Rightarrow> free_queue" where
  "link_consecutive blocks i q =
     (let q1 = (if i > 0 then set_prev (blocks ! i) (Some (blocks ! (i - 1))) q else q)
      in if i < length blocks - 1 then set_next (blocks ! i) (Some (blocks ! (i + 1))) q1 else q1)"

definition fq_init :: "bref list \<Rightarrow> free_queue" where
  "fq_init blocks =
     (let q0 = \<lparr>prev_free_block = (\<lambda>_. None), next_free_block = (\<lambda>_. None),
                num_free_blocks = int (length blocks)\<rparr>;
          q1 = fold (link_consecutive blocks) [0..<length blocks] q0
      in if length blocks > 0 then
           set_next (last blocks) (Some FakeTail)
             (set_prev FakeTail (Some (last blocks))
               (set_prev (hd blocks) (Some FakeHead)
                 (set_next FakeHead (Some (hd blocks)) q1)))
         else set_prev FakeTail (Some FakeHead) (set_next FakeHead (Some FakeTail) q1))"

definition popleft :: "free_queue \<Rightarrow> (bref \<times> free_queue) res" where
  "popleft q =
     (case next_free_block q FakeHead of
        None \<Rightarrow> if num_free_blocks q = 0 then Inl ValueError else Inl AssertionError
      | Some first \<Rightarrow>
          if first = FakeTail then
            (if num_free_blocks q = 0 then Inl ValueError else Inl AssertionError)
          else (case next_free_block q first of
              None \<Rightarrow> Inl RuntimeError
            | Some second \<Rightarrow>
                Inr (first, add_num_free (- 1)
                  (set_next first None (set_prev first None
                    (set_prev second (Some FakeHead)
                      (set_next FakeHead (Some second) q)))))))"

text \<open>The \<open>for _ in range(n)\<close> loop of \<open>popleft_n\<close>, with \<open>curr_block\<close> and \<open>ret\<close>.\<close>

fun popleft_n_loop ::
  "nat \<Rightarrow> bref option \<Rightarrow> bref list \<Rightarrow> free_queue \<Rightarrow> (bref list \<times> bref option \<times> free_queue) res" where
  "popleft_n_loop 0 cur ret q = Inr (ret, cur, q)"
| "popleft_n_loop (Suc n) None ret q = Inl AssertionError"
| "popleft_n_loop (Suc n) (Some last_block) ret q =
     popleft_n_loop n (next_free_block q last_block) (ret @ [last_block])
       (set_next last_block None (set_prev last_block None q))"

definition popleft_n :: "free_queue \<Rightarrow> int \<Rightarrow> (bref list \<times> free_queue) res" where
  "popleft_n q n =
     (if n = 0 then Inr ([], q)
      else if \<not> num_free_blocks q \<ge> n then Inl AssertionError
      else bind_res
        (popleft_n_loop (nat n) (next_free_block q FakeHead) [] (add_num_free (- n) q))
        (\<lambda>(ret, cur, q1). case cur of
            None \<Rightarrow> Inr (ret, q1)
          | Some c \<Rightarrow>
              Inr (ret, set_prev c (Some FakeHead) (set_next FakeHead (Some c) q1))))"

definition fq_remove :: "free_queue \<Rightarrow> bref \<Rightarrow> free_queue res" where
  "fq_remove q block =
     (case (prev_free_block q block, next_free_block q block) of
        (Some p, Some s) \<Rightarrow>
          Inr (add_num_free (- 1) (set_next block None (set_prev block None
            (set_prev s (Some p) (set_next p (Some s) q)))))
      | _ \<Rightarrow> Inl RuntimeError)"

definition fq_append :: "free_queue \<Rightarrow> bref \<Rightarrow> free_queue res" where
  "fq_append q block =
     (case prev_free_block q FakeTail of
        None \<Rightarrow> Inl RuntimeError
      | Some last_block \<Rightarrow>
          Inr (add_num_free 1 (set_prev FakeTail (Some block)
            (set_next block (Some FakeTail)
              (set_prev block (Some last_block)
                (set_next last_block (Some block) q))))))"

text \<open>The loop shared by \<open>prepend_n\<close> and \<open>append_n\<close>: link each block after the one before.\<close>

fun link_after :: "bref \<Rightarrow> bref list \<Rightarrow> free_queue \<Rightarrow> bref \<times> free_queue" where
  "link_after prev_block [] q = (prev_block, q)"
| "link_after prev_block (block # blocks) q =
     link_after block blocks
       (set_next prev_block (Some block) (set_prev block (Some prev_block) q))"

definition fq_prepend_n :: "free_queue \<Rightarrow> bref list \<Rightarrow> free_queue res" where
  "fq_prepend_n q blocks =
     (if length blocks = 0 then Inr q
      else (case next_free_block q FakeHead of
          None \<Rightarrow> Inl AssertionError
        | Some first_block \<Rightarrow>
            (let (prev_block, q1) = link_after FakeHead blocks q
             in Inr (add_num_free (int (length blocks))
                  (set_prev first_block (Some prev_block)
                    (set_next prev_block (Some first_block) q1))))))"

definition fq_append_n :: "free_queue \<Rightarrow> bref list \<Rightarrow> free_queue res" where
  "fq_append_n q blocks =
     (if length blocks = 0 then Inr q
      else (case prev_free_block q FakeTail of
          None \<Rightarrow> Inl AssertionError
        | Some last_block \<Rightarrow>
            (let (last_block', q1) = link_after last_block blocks q
             in Inr (add_num_free (int (length blocks))
                  (set_prev FakeTail (Some last_block')
                    (set_next last_block' (Some FakeTail) q1))))))"

text \<open>
  The two traversals follow the links until they end; on a corrupted list they may not
  return, which is the value \<^term>\<open>None\<close>.
\<close>

partial_function (option) walk_free ::
  "(bref \<Rightarrow> bref option) \<Rightarrow> bref \<Rightarrow> bref list \<Rightarrow> bref list option" where
  "walk_free nxt cur ret =
     (case nxt cur of
        None \<Rightarrow> Some ret
      | Some cur' \<Rightarrow> walk_free nxt cur' (ret @ [cur]))"

definition get_all_free_blocks :: "free_queue \<Rightarrow> bref list res option" where
  "get_all_free_blocks q =
     (case next_free_block q FakeHead of
        None \<Rightarrow> Some (Inl RuntimeError)
      | Some cur \<Rightarrow> map_option Inr (walk_free (next_free_block q) cur []))"

partial_function (option) walk_after ::
  "(bref \<Rightarrow> bref option) \<Rightarrow> bref option \<Rightarrow> bref list \<Rightarrow> bref list option" where
  "walk_after nxt cur ret =
     (case cur of
        None \<Rightarrow> Some ret
      | Some c \<Rightarrow> if c = FakeTail then Some ret else walk_after nxt (nxt c) (ret @ [c]))"

definition iter_blocks_after :: "free_queue \<Rightarrow> bref option \<Rightarrow> bref list option" where
  "iter_blocks_after q cursor =
     walk_after (next_free_block q)
       (case cursor of None \<Rightarrow> next_free_block q FakeHead | Some c \<Rightarrow> next_free_block q c) []"

section \<open>The state of a list\<close>

text \<open>The successor of each element of a list; the predecessors are those of the reverse.\<close>

definition nxt :: "'a list \<Rightarrow> 'a \<rightharpoonup> 'a" where
  "nxt l = map_of (zip l (tl l))"

definition spine :: "bref list \<Rightarrow> bref list" where
  "spine xs = FakeHead # xs @ [FakeTail]"

definition queue_of :: "bref list \<Rightarrow> free_queue" where
  "queue_of xs = \<lparr>prev_free_block = nxt (rev (spine xs)), next_free_block = nxt (spine xs),
     num_free_blocks = int (length xs)\<rparr>"

text \<open>A state represents a free list when it is the state of that list of distinct blocks.\<close>

definition fq_rel :: "free_queue \<Rightarrow> bref list \<Rightarrow> bool" where
  "fq_rel q xs \<longleftrightarrow> distinct (spine xs) \<and> q = queue_of xs"

lemma nxt_simps [simp]:
  "nxt [] = Map.empty" "nxt [a] = Map.empty" "nxt (a # b # l) = (nxt (b # l))(a \<mapsto> b)"
  by (simp_all add: nxt_def)

lemma nxt_split: "nxt (X @ s # B) = nxt (s # B) ++ nxt (X @ [s])"
  by (induction X rule: induct_list012) (simp_all del: fun_upd_apply)

lemma dom_nxt: "dom (nxt l) = set (butlast l)"
  by (induction l rule: induct_list012) (simp_all del: fun_upd_apply)

lemma nxt_None: "u \<notin> set (butlast l) \<Longrightarrow> nxt l u = None"
  using dom_nxt [of l] by blast

lemma nxt_app:
  assumes "distinct (X @ s # B)"
  shows "nxt (X @ s # B) u = (if u \<in> set X then nxt (X @ [s]) u else nxt (s # B) u)"
proof (cases "u \<in> set X")
  case True
  then obtain v where "nxt (X @ [s]) u = Some v"
    using dom_nxt [of "X @ [s]"] by auto
  with True show ?thesis by (simp add: nxt_split [of X s B])
next
  case False
  then have "nxt (X @ [s]) u = None" by (simp add: nxt_None)
  with False show ?thesis by (simp add: nxt_split [of X s B] map_add_def)
qed

text \<open>Splicing \<open>M\<close> in between two neighbours changes only the links from \<open>p\<close> and \<open>M\<close>.\<close>

lemma nxt_splice:
  assumes "distinct (A @ p # M @ s # B)"
  shows "nxt (A @ p # M @ s # B) u =
    (if u = p \<or> u \<in> set M then nxt (p # M @ [s]) u else nxt (A @ p # s # B) u)"
proof -
  have d: "distinct ((A @ p # M) @ s # B)" "distinct (A @ p # (M @ [s]))"
    "distinct (A @ p # s # B)" "distinct ((p # M) @ s # B)"
    using assms by auto
  show ?thesis
  proof (cases "u \<in> set A")
    case True
    with assms have "u \<noteq> p" "u \<notin> set M" by auto
    moreover from True assms have "nxt (A @ p # M @ s # B) u = nxt (A @ [p]) u"
      by (subst nxt_app) simp_all
    moreover from True d(3) have "nxt (A @ p # s # B) u = nxt (A @ [p]) u"
      by (subst nxt_app) simp_all
    ultimately show ?thesis by simp
  next
    case False
    with assms have "nxt (A @ p # M @ s # B) u = nxt ((p # M) @ s # B) u"
      by (subst nxt_app) simp_all
    also have "\<dots> = (if u \<in> set (p # M) then nxt ((p # M) @ [s]) u else nxt (s # B) u)"
      using d(4) by (rule nxt_app)
    finally have 1: "nxt (A @ p # M @ s # B) u =
      (if u \<in> set (p # M) then nxt ((p # M) @ [s]) u else nxt (s # B) u)" .
    have 2: "nxt (A @ p # s # B) u = nxt (p # s # B) u"
      using False d(3) by (subst nxt_app) simp_all
    show ?thesis unfolding 1 2 by auto
  qed
qed

lemma nxt_neighbour:
  assumes "distinct (A @ p # s # B)"
  shows "nxt (A @ p # s # B) p = Some s"
  using assms by (subst nxt_app) auto

lemma nxt_last: "distinct (l @ [z]) \<Longrightarrow> nxt (l @ [z]) z = None"
  by (simp add: nxt_None)

lemma nxt_Some_iff:
  assumes "distinct l"
  shows "nxt l u = Some v \<longleftrightarrow> (\<exists>A B. l = A @ u # v # B)"
proof
  assume "nxt l u = Some v"
  then show "\<exists>A B. l = A @ u # v # B"
  proof (induction l)
    case Nil
    then show ?case by simp
  next
    case (Cons x l)
    show ?case
    proof (cases "l = [] \<or> x = u")
      case True
      with Cons.prems show ?thesis by (cases l) (auto split: if_splits)
    next
      case False
      with Cons.prems have "nxt l u = Some v" by (cases l) (auto split: if_splits)
      then obtain A B where "l = A @ u # v # B" using Cons.IH by blast
      then have "x # l = (x # A) @ u # v # B" by simp
      then show ?thesis by blast
    qed
  qed
next
  assume "\<exists>A B. l = A @ u # v # B"
  with assms show "nxt l u = Some v" by (auto simp: nxt_neighbour)
qed

section \<open>Paths through the links\<close>

primrec path :: "('a \<Rightarrow> 'a option) \<Rightarrow> 'a option \<Rightarrow> 'a list \<Rightarrow> 'a option \<Rightarrow> bool" where
  "path h x [] y \<longleftrightarrow> x = y"
| "path h x (a # as) y \<longleftrightarrow> x = Some a \<and> path h (h a) as y"

lemma path_upd [simp]: "u \<notin> set as \<Longrightarrow> path (h(u := v)) x as y = path h x as y"
  by (induction as arbitrary: x) auto

lemma path_cong:
  "(\<And>a. a \<in> set as \<Longrightarrow> h a = h' a) \<Longrightarrow> path h x as y = path h' x as y"
  by (induction as arbitrary: x) auto

lemma path_nxt:
  assumes "distinct (A @ xs @ z # B)"
  shows "path (nxt (A @ xs @ z # B)) (Some (hd (xs @ [z]))) xs (Some z)"
  using assms
proof (induction xs arbitrary: A)
  case Nil
  then show ?case by simp
next
  case (Cons x xs)
  have eq: "A @ (x # xs) @ z # B = (A @ [x]) @ xs @ z # B" by simp
  have "path (nxt ((A @ [x]) @ xs @ z # B)) (Some (hd (xs @ [z]))) xs (Some z)"
    using Cons.prems by (intro Cons.IH) simp
  moreover have "nxt (A @ (x # xs) @ z # B) x = Some (hd (xs @ [z]))"
    using Cons.prems nxt_neighbour [of A x "hd (xs @ [z])" "tl (xs @ z # B)"]
    by (cases xs) auto
  ultimately show ?case by (simp only: eq) simp
qed

section \<open>Splicing a segment in or out\<close>

lemma nxt_snoc:
  assumes "l \<noteq> []" and "distinct l"
  shows "nxt (l @ [z]) = (nxt l)(last l \<mapsto> z)"
proof -
  obtain l' x where l: "l = l' @ [x]"
    using assms(1) by (cases l rule: rev_cases) auto
  have "nxt (l @ [z]) = [x \<mapsto> z] ++ nxt l"
    using nxt_split [of l' x "[z]"] by (simp add: l)
  moreover have "x \<notin> dom (nxt l)"
    using assms(2) by (simp add: dom_nxt l)
  ultimately show ?thesis
    by (auto simp: fun_eq_iff map_add_def l split: option.splits)
qed

definition before :: "bref list \<Rightarrow> bref" where
  "before us = last (FakeHead # us)"

definition after :: "bref list \<Rightarrow> bref" where
  "after vs = hd (vs @ [FakeTail])"

lemma before_after_simps [simp]:
  "before [] = FakeHead" "before (us @ [b]) = b" "after [] = FakeTail" "after (b # vs) = b"
  by (simp_all add: before_def after_def)

lemma spine_split:
  "spine (us @ M @ vs) =
    butlast (FakeHead # us) @ before us # M @ after vs # tl (vs @ [FakeTail])"
proof -
  have "FakeHead # us = butlast (FakeHead # us) @ [before us]"
    unfolding before_def by (metis append_butlast_last_id list.distinct(1))
  moreover have "vs @ [FakeTail] = after vs # tl (vs @ [FakeTail])"
    unfolding after_def by (cases vs) simp_all
  ultimately show ?thesis
    unfolding spine_def by (metis append.assoc append_Cons append_Nil)
qed

lemma next_splice:
  assumes "distinct (spine (us @ M @ vs))"
  shows "next_free_block (queue_of (us @ M @ vs)) =
    next_free_block (queue_of (us @ vs)) ++ nxt (before us # M @ [after vs])"
proof (rule ext)
  fix u
  have "spine (us @ vs) =
      butlast (FakeHead # us) @ before us # after vs # tl (vs @ [FakeTail])"
    using spine_split [of us "[]" vs] by simp
  moreover have "nxt (before us # M @ [after vs]) u \<noteq> None \<longleftrightarrow> u = before us \<or> u \<in> set M"
    using dom_nxt [of "before us # M @ [after vs]"]
    by (auto simp: dom_def butlast_append split: if_splits)
  ultimately show "next_free_block (queue_of (us @ M @ vs)) u =
      (next_free_block (queue_of (us @ vs)) ++ nxt (before us # M @ [after vs])) u"
    using nxt_splice [OF assms [unfolded spine_split [of us M vs]], of u]
    by (auto simp: queue_of_def spine_split [of us M vs] map_add_def split: option.splits)
qed

lemma prev_splice:
  assumes "distinct (spine (us @ M @ vs))"
  shows "prev_free_block (queue_of (us @ M @ vs)) =
    prev_free_block (queue_of (us @ vs)) ++ nxt (after vs # rev M @ [before us])"
proof (rule ext)
  fix u
  let ?A = "rev (tl (vs @ [FakeTail]))" and ?B = "rev (butlast (FakeHead # us))"
  have r: "rev (spine (us @ N @ vs)) = ?A @ after vs # rev N @ before us # ?B" for N
    by (simp add: spine_split)
  have "distinct (?A @ after vs # rev M @ before us # ?B)"
    using assms by (metis distinct_rev r)
  note this [THEN nxt_splice, of u]
  moreover have "nxt (after vs # rev M @ [before us]) u \<noteq> None \<longleftrightarrow> u = after vs \<or> u \<in> set M"
    using dom_nxt [of "after vs # rev M @ [before us]"]
    by (auto simp: dom_def butlast_append split: if_splits)
  ultimately show "prev_free_block (queue_of (us @ M @ vs)) u =
      (prev_free_block (queue_of (us @ vs)) ++ nxt (after vs # rev M @ [before us])) u"
    using r [of M] r [of "[]"]
    by (auto simp: queue_of_def map_add_def split: option.splits)
qed

lemma next_before:
  assumes "distinct (spine (us @ vs))"
  shows "next_free_block (queue_of (us @ vs)) (before us) = Some (after vs)"
  using nxt_neighbour [OF assms [unfolded spine_split [of us "[]" vs, simplified]]]
    spine_split [of us "[]" vs]
  by (simp add: queue_of_def)

lemma prev_after:
  assumes "distinct (spine (us @ vs))"
  shows "prev_free_block (queue_of (us @ vs)) (after vs) = Some (before us)"
proof -
  have r: "rev (spine (us @ vs)) =
      rev (tl (vs @ [FakeTail])) @ after vs # before us # rev (butlast (FakeHead # us))"
    using spine_split [of us "[]" vs] by simp
  have "distinct (rev (spine (us @ vs)))" using assms by simp
  then show ?thesis
    using nxt_neighbour by (metis free_queue.select_convs(1) queue_of_def r)
qed

lemma next_outside: "u \<notin> set xs \<Longrightarrow> u \<noteq> FakeHead \<Longrightarrow> next_free_block (queue_of xs) u = None"
  by (simp add: queue_of_def spine_def nxt_None butlast_append)

lemma prev_outside: "u \<notin> set xs \<Longrightarrow> u \<noteq> FakeTail \<Longrightarrow> prev_free_block (queue_of xs) u = None"
  by (simp add: queue_of_def spine_def nxt_None butlast_append)

lemma num_queue_of [simp]: "num_free_blocks (queue_of xs) = int (length xs)"
  by (simp add: queue_of_def)

lemma queue_eqI:
  assumes "prev_free_block q = prev_free_block q'" "next_free_block q = next_free_block q'"
    "num_free_blocks q = num_free_blocks q'"
  shows "q = (q' :: free_queue)"
  using assms by simp

text \<open>Removing the segment of a single block is the inverse of splicing it in.\<close>

lemma distinct_spine_drop:
  "distinct (spine (us @ M @ vs)) \<Longrightarrow> distinct (spine (us @ vs))"
  by (auto simp: spine_def)

lemma unlink_block:
  assumes d: "distinct (spine (us @ b # vs))"
  defines "q \<equiv> queue_of (us @ b # vs)"
  shows "add_num_free (- 1) (set_next b None (set_prev b None
           (set_prev (after vs) (Some (before us)) (set_next (before us) (Some (after vs)) q))))
         = queue_of (us @ vs)"
proof (rule queue_eqI)
  have d': "distinct (spine (us @ vs))" and
    d3: "distinct (spine (us @ [b] @ vs))"
    using d distinct_spine_drop [of us "[b]" vs] by simp_all
  have b: "b \<notin> set (us @ vs)" "b \<noteq> FakeHead" "b \<noteq> FakeTail"
    using d by (auto simp: spine_def)
  have nb: "b \<noteq> before us" "b \<noteq> after vs"
    using d3 spine_split [of us "[b]" vs] by auto
  let ?N = "next_free_block (queue_of (us @ vs))" and ?P = "prev_free_block (queue_of (us @ vs))"
  have "next_free_block q = ?N(b \<mapsto> after vs, before us \<mapsto> b)"
    using next_splice [OF d3] by (simp add: q_def)
  then show "next_free_block (add_num_free (- 1) (set_next b None (set_prev b None
      (set_prev (after vs) (Some (before us)) (set_next (before us) (Some (after vs)) q))))) = ?N"
    using next_before [OF d'] next_outside [of b "us @ vs"] b nb
    by (auto simp: add_num_free_def set_next_def set_prev_def fun_eq_iff)
  have "prev_free_block q = ?P(b \<mapsto> before us, after vs \<mapsto> b)"
    using prev_splice [OF d3] by (simp add: q_def)
  then show "prev_free_block (add_num_free (- 1) (set_next b None (set_prev b None
      (set_prev (after vs) (Some (before us)) (set_next (before us) (Some (after vs)) q))))) = ?P"
    using prev_after [OF d'] prev_outside [of b "us @ vs"] b nb
    by (auto simp: add_num_free_def set_next_def set_prev_def fun_eq_iff)
qed (simp add: q_def add_num_free_def set_next_def set_prev_def)

section \<open>The operations on the state of a list\<close>

lemma fq_remove_mem:
  assumes "distinct (spine xs)" and "b \<in> set xs"
  shows "fq_remove (queue_of xs) b = Inr (queue_of (remove1 b xs))"
proof -
  obtain us vs where xs: "xs = us @ b # vs" and "b \<notin> set us"
    using assms(2) by (meson split_list_first)
  have d: "distinct (spine (us @ b # vs))" "distinct (spine ((us @ [b]) @ vs))"
    using assms(1) xs by simp_all
  have "prev_free_block (queue_of xs) b = Some (before us)"
    using prev_after [OF d(1)] by (simp add: xs)
  moreover have "next_free_block (queue_of xs) b = Some (after vs)"
    using next_before [OF d(2)] by (simp add: xs)
  ultimately show ?thesis
    using unlink_block [OF d(1)] \<open>b \<notin> set us\<close>
    by (simp add: fq_remove_def xs remove1_append)
qed

lemma fq_remove_not_mem:
  assumes "b \<notin> set xs"
  shows "fq_remove (queue_of xs) b = Inl RuntimeError"
  using next_outside [OF assms] prev_outside [OF assms]
  by (cases b) (auto simp: fq_remove_def split: option.splits)

lemma popleft_Nil: "popleft (queue_of []) = Inl ValueError"
  by (simp add: popleft_def queue_of_def spine_def)

lemma popleft_Cons:
  assumes "distinct (spine (x # xs))"
  shows "popleft (queue_of (x # xs)) = Inr (x, queue_of xs)"
proof -
  have d: "distinct (spine ([] @ x # xs))" "distinct (spine ([x] @ xs))"
    using assms by simp_all
  have "next_free_block (queue_of (x # xs)) FakeHead = Some x"
    using next_before [OF d(1)] by simp
  moreover have n: "next_free_block (queue_of (x # xs)) x = Some (after xs)"
    using next_before [of "[x]" xs] assms by (simp add: before_def)
  moreover have "x \<noteq> FakeTail" using assms by (simp add: spine_def)
  moreover have eq: "set_prev (after xs) (Some FakeHead) (set_next FakeHead (Some (after xs)) q) =
      set_prev (after xs) (Some (before [])) (set_next (before []) (Some (after xs)) q)" for q
    by simp
  ultimately show ?thesis
    using unlink_block [OF d(1)] by (simp add: popleft_def)
qed

lemma link_after_eq:
  assumes "distinct (p # bs)"
  shows "link_after p bs q =
    (last (p # bs), q\<lparr>next_free_block := next_free_block q ++ nxt (p # bs),
       prev_free_block := prev_free_block q ++ nxt (rev (p # bs))\<rparr>)"
  using assms
proof (induction bs arbitrary: p q)
  case Nil
  then show ?case by simp
next
  case (Cons b bs)
  have "rev bs @ [b] \<noteq> []" "distinct (rev bs @ [b])" using Cons.prems by auto
  then have r: "nxt ((rev bs @ [b]) @ [p]) = (nxt (rev bs @ [b]))(b \<mapsto> p)"
    by (subst nxt_snoc) simp_all
  have "p \<notin> dom (nxt (b # bs))" "b \<notin> dom (nxt (rev bs @ [b]))"
    using Cons.prems by (auto simp: dom_nxt dest: in_set_butlastD)
  moreover have "m(k \<mapsto> v) ++ f = (m ++ f)(k \<mapsto> v)" if "k \<notin> dom f" for m f :: "bref \<rightharpoonup> bref" and k v
    using that by (auto simp: fun_eq_iff map_add_def split: option.splits)
  ultimately show ?case
    using Cons r by (simp add: set_next_def set_prev_def del: fun_upd_apply)
qed

lemma fq_splice_eq:
  assumes d: "distinct (spine (us @ M @ vs))" and "M \<noteq> []"
  defines "r \<equiv> link_after (before us) M (queue_of (us @ vs))"
  shows "add_num_free (int (length M)) (set_prev (after vs) (Some (fst r))
           (set_next (fst r) (Some (after vs)) (snd r))) = queue_of (us @ M @ vs)"
proof -
  have l: "distinct (before us # M @ [after vs])"
    using d spine_split [of us M vs] by auto
  then have r: "r = (last M, (queue_of (us @ vs))\<lparr>
      next_free_block := next_free_block (queue_of (us @ vs)) ++ nxt (before us # M),
      prev_free_block := prev_free_block (queue_of (us @ vs)) ++ nxt (rev (before us # M))\<rparr>)"
    using assms(2) by (simp add: r_def link_after_eq)
  have N: "(nxt (before us # M))(last M \<mapsto> after vs) = nxt (before us # M @ [after vs])"
    using nxt_snoc [of "before us # M" "after vs"] l assms(2) by simp
  have d2: "distinct (rev M @ [before us])" "rev M @ [before us] \<noteq> []"
    using l by auto
  have hd: "hd (rev M @ [before us]) = last M"
    using assms(2) by (simp add: hd_rev)
  obtain m M' where M: "rev M @ [before us] = m # M'"
    using d2(2) by (cases "rev M @ [before us]") auto
  have P: "(nxt (rev (before us # M)))(after vs \<mapsto> last M) = nxt (after vs # rev M @ [before us])"
    using hd by (simp add: M)
  show ?thesis
    using next_splice [OF d] prev_splice [OF d] N P
    by (intro queue_eqI)
      (simp_all add: r add_num_free_def set_next_def set_prev_def
        map_add_upd [symmetric] del: fun_upd_apply map_add_upd)
qed

lemma fq_prepend_n_eq:
  assumes "distinct (spine (bs @ xs))"
  shows "fq_prepend_n (queue_of xs) bs = Inr (queue_of (bs @ xs))"
proof (cases "bs = []")
  case False
  have d: "distinct (spine ([] @ xs))" "distinct (spine ([] @ bs @ xs))"
    using assms by (auto simp: spine_def)
  have "next_free_block (queue_of xs) FakeHead = Some (after xs)"
    using next_before [OF d(1)] by simp
  then show ?thesis
    using fq_splice_eq [OF d(2) False] False
    by (simp add: fq_prepend_n_def split_beta)
qed (simp add: fq_prepend_n_def)

lemma fq_append_n_eq:
  assumes "distinct (spine (xs @ bs))"
  shows "fq_append_n (queue_of xs) bs = Inr (queue_of (xs @ bs))"
proof (cases "bs = []")
  case False
  have d: "distinct (spine (xs @ []))" "distinct (spine (xs @ bs @ []))"
    using assms by (auto simp: spine_def)
  have "prev_free_block (queue_of xs) FakeTail = Some (before xs)"
    using prev_after [OF d(1)] by simp
  then show ?thesis
    using fq_splice_eq [OF d(2) False] False
    by (simp add: fq_append_n_def split_beta)
qed (simp add: fq_append_n_def)

lemma fq_append_eq:
  assumes "distinct (spine (xs @ [b]))"
  shows "fq_append (queue_of xs) b = Inr (queue_of (xs @ [b]))"
proof -
  have "prev_free_block (queue_of xs) FakeTail = Some (before xs)"
    using prev_after [of xs "[]"] assms by (simp add: spine_def)
  then show ?thesis
    using fq_append_n_eq [OF assms] assms
    by (simp add: fq_append_n_def fq_append_def set_next_def set_prev_def add_num_free_def
        spine_def fun_upd_twist)
qed

definition clear_links :: "bref set \<Rightarrow> free_queue \<Rightarrow> free_queue" where
  "clear_links B q = q\<lparr>
     prev_free_block := (\<lambda>u. if u \<in> B then None else prev_free_block q u),
     next_free_block := (\<lambda>u. if u \<in> B then None else next_free_block q u)\<rparr>"

lemma popleft_n_loop_path:
  assumes "path (next_free_block q) cur ys fin" and "distinct ys"
  shows "popleft_n_loop (length ys) cur ret q = Inr (ret @ ys, fin, clear_links (set ys) q)"
  using assms
proof (induction ys arbitrary: cur ret q)
  case Nil
  then show ?case by (simp add: clear_links_def)
next
  case (Cons y ys)
  let ?q = "set_next y None (set_prev y None q)"
  have "path (next_free_block ?q) (next_free_block q y) ys fin" and "distinct ys"
    using Cons.prems by (simp_all add: set_next_def set_prev_def)
  note Cons.IH [OF this, of "ret @ [y]"]
  moreover have "clear_links (set ys) ?q = clear_links (set (y # ys)) q"
    by (auto simp: clear_links_def set_next_def set_prev_def fun_eq_iff)
  ultimately show ?case using Cons.prems by simp
qed

lemma popleft_n_path:
  assumes "distinct (spine (ys @ vs))"
  shows "path (next_free_block (queue_of (ys @ vs)))
    (next_free_block (queue_of (ys @ vs)) FakeHead) ys (Some (after vs))"
proof -
  have sp: "spine (ys @ vs) = [FakeHead] @ ys @ after vs # tl (vs @ [FakeTail])"
    using spine_split [of "[]" ys vs] by (simp add: before_def)
  have "next_free_block (queue_of (ys @ vs)) FakeHead = Some (after (ys @ vs))"
    using next_before [of "[]" "ys @ vs"] assms by simp
  moreover have "after (ys @ vs) = hd (ys @ [after vs])"
    by (cases ys) (simp_all add: after_def)
  moreover have "path (nxt (spine (ys @ vs))) (Some (hd (ys @ [after vs]))) ys (Some (after vs))"
    using path_nxt [of "[FakeHead]" ys "after vs" "tl (vs @ [FakeTail])"] assms
    unfolding sp by simp
  ultimately show ?thesis by (simp add: queue_of_def)
qed

lemma popleft_n_take:
  assumes d: "distinct (spine (ys @ vs))" and "ys \<noteq> []"
  shows "popleft_n (queue_of (ys @ vs)) (int (length ys)) = Inr (ys, queue_of vs)"
proof -
  let ?q = "add_num_free (- int (length ys)) (queue_of (ys @ vs))"
  have d2: "distinct (spine ([] @ ys @ vs))" "distinct (spine ([] @ vs))" "distinct ys"
    using d distinct_spine_drop [of "[]" ys vs] by (auto simp: spine_def)
  have nf: "next_free_block ?q = next_free_block (queue_of (ys @ vs))"
    by (simp add: add_num_free_def)
  have "popleft_n_loop (length ys) (next_free_block (queue_of (ys @ vs)) FakeHead) [] ?q =
      Inr ([] @ ys, Some (after vs), clear_links (set ys) ?q)"
    using popleft_n_path [OF d] d2(3) by (intro popleft_n_loop_path) (simp_all add: nf)
  moreover have "set_prev (after vs) (Some FakeHead) (set_next FakeHead (Some (after vs))
      (clear_links (set ys) ?q)) = queue_of vs"
  proof (rule queue_eqI)
    have sp: "distinct (FakeHead # ys @ [after vs])"
      using d2(1) spine_split [of "[]" ys vs] by (auto simp: before_def)
    have dom: "dom (nxt (FakeHead # ys @ [after vs])) = insert FakeHead (set ys)"
      "dom (nxt (after vs # rev ys @ [FakeHead])) = insert (after vs) (set ys)"
      by (simp_all add: dom_nxt butlast_append)
    then have un: "nxt (FakeHead # ys @ [after vs]) u = None"
      if "u \<noteq> FakeHead" "u \<notin> set ys" for u
      using that by blast
    from dom have up: "nxt (after vs # rev ys @ [FakeHead]) u = None"
      if "u \<noteq> after vs" "u \<notin> set ys" for u
      using that by blast
    have out: "u \<in> set ys \<Longrightarrow> u \<notin> set vs \<and> u \<noteq> FakeHead \<and> u \<noteq> FakeTail" for u
      using d by (auto simp: spine_def)
    have N: "next_free_block (queue_of (ys @ vs)) u = (case nxt (FakeHead # ys @ [after vs]) u of
        None \<Rightarrow> next_free_block (queue_of vs) u | Some v \<Rightarrow> Some v)" for u
      using next_splice [OF d2(1)] by (simp add: map_add_def)
    have P: "prev_free_block (queue_of (ys @ vs)) u = (case nxt (after vs # rev ys @ [FakeHead]) u of
        None \<Rightarrow> prev_free_block (queue_of vs) u | Some v \<Rightarrow> Some v)" for u
      using prev_splice [OF d2(1)] by (simp add: map_add_def)
    have on: "next_free_block (queue_of vs) u = None" "prev_free_block (queue_of vs) u = None"
      if "u \<in> set ys" for u
      using that out next_outside prev_outside by blast+
    have hd: "next_free_block (queue_of vs) FakeHead = Some (after vs)"
      "prev_free_block (queue_of vs) (after vs) = Some FakeHead"
      using next_before [OF d2(2)] prev_after [OF d2(2)] by simp_all
    have relink: "next_free_block (set_prev b v (set_next c w (clear_links B (add_num_free n q)))) u =
        (if u = c then w else if u \<in> B then None else next_free_block q u)"
      "prev_free_block (set_prev b v (set_next c w (clear_links B (add_num_free n q)))) u =
        (if u = b then v else if u \<in> B then None else prev_free_block q u)" for b v c w B n q u
      by (simp_all add: set_prev_def set_next_def clear_links_def add_num_free_def)
    show "next_free_block (set_prev (after vs) (Some FakeHead) (set_next FakeHead (Some (after vs))
        (clear_links (set ys) ?q))) = next_free_block (queue_of vs)"
      unfolding fun_eq_iff relink N using hd on un by (simp del: nxt_simps)
    show "prev_free_block (set_prev (after vs) (Some FakeHead) (set_next FakeHead (Some (after vs))
        (clear_links (set ys) ?q))) = prev_free_block (queue_of vs)"
      unfolding fun_eq_iff relink P using hd on up by (metis option.case(1))
  qed (simp add: set_next_def set_prev_def clear_links_def add_num_free_def)
  ultimately show ?thesis
    using assms(2) by (simp add: popleft_n_def)
qed

lemma popleft_n_eq:
  assumes "distinct (spine xs)" and "0 \<le> n" and "n \<le> int (length xs)"
  shows "popleft_n (queue_of xs) n = Inr (take (nat n) xs, queue_of (drop (nat n) xs))"
proof (cases "n = 0")
  case False
  with assms have "take (nat n) xs \<noteq> []" "int (length (take (nat n) xs)) = n" by auto
  then show ?thesis
    using popleft_n_take [of "take (nat n) xs" "drop (nat n) xs"] assms(1) by simp
qed (simp add: popleft_n_def)

lemma popleft_n_short:
  "int (length xs) < n \<Longrightarrow> popleft_n (queue_of xs) n = Inl AssertionError"
  by (simp add: popleft_n_def)

text \<open>
  A negative count is not refused: nothing is popped and the counter grows, so the state no
  longer represents any list.
\<close>

lemma popleft_n_negative:
  assumes "n < 0" and "distinct (spine xs)"
  shows "\<exists>q. popleft_n (queue_of xs) n = Inr ([], q) \<and>
    num_free_blocks q = int (length xs) - n \<and> (\<forall>ys. \<not> fq_rel q ys)"
proof -
  let ?q = "set_prev (after xs) (Some FakeHead) (set_next FakeHead (Some (after xs))
              (add_num_free (- n) (queue_of xs)))"
  have h: "next_free_block (queue_of xs) FakeHead = Some (after xs)"
    using next_before [of "[]" xs] assms(2) by simp
  have p: "prev_free_block (queue_of xs) (after xs) = Some FakeHead"
    using prev_after [of "[]" xs] assms(2) by simp
  have nz: "nat n = 0" "n \<noteq> 0" "n \<le> int (length xs)" using assms(1) by simp_all
  then have pop: "popleft_n (queue_of xs) n = Inr ([], ?q)"
    using h by (simp add: popleft_n_def)
  have "\<not> fq_rel ?q ys" for ys
  proof
    assume r: "fq_rel ?q ys"
    then have rd: "distinct (spine ys)" and rq: "?q = queue_of ys"
      by (simp_all add: fq_rel_def)
    have "next_free_block ?q = next_free_block (queue_of xs)"
      using h by (simp add: set_prev_def set_next_def add_num_free_def fun_upd_idem)
    then have eq: "nxt (spine ys) = nxt (spine xs)"
      unfolding rq by (simp add: queue_of_def)
    have "set (butlast (spine ys)) = set (butlast (spine xs))"
      by (metis dom_nxt eq)
    then have "insert FakeHead (set ys) = insert FakeHead (set xs)"
      by (simp add: spine_def butlast_append)
    moreover have "FakeHead \<notin> set xs" "FakeHead \<notin> set ys"
      using assms(2) rd by (auto simp: spine_def)
    ultimately have "set xs = set ys" by (metis insert_ident)
    moreover have "distinct xs" "distinct ys"
      using assms(2) rd by (auto simp: spine_def)
    ultimately have len: "length xs = length ys" by (metis distinct_card)
    have "num_free_blocks ?q = int (length ys)"
      unfolding rq by simp
    moreover have "num_free_blocks ?q = int (length xs) - n"
      by (simp add: set_prev_def set_next_def add_num_free_def)
    ultimately show False using assms(1) len by simp
  qed
  then show ?thesis using pop
    by (auto simp: set_prev_def set_next_def add_num_free_def)
qed

section \<open>Construction and traversal\<close>

lemma link_consecutive_prefix:
  assumes "distinct blocks" and "k \<le> length blocks"
  shows "fold (link_consecutive blocks) [0..<k]
      \<lparr>prev_free_block = (\<lambda>_. None), next_free_block = (\<lambda>_. None), num_free_blocks = n\<rparr> =
    \<lparr>prev_free_block = nxt (rev (take k blocks)), next_free_block = nxt (take (Suc k) blocks),
      num_free_blocks = n\<rparr>"
  using assms(2)
proof (induction k)
  case 0
  then show ?case by (cases blocks) (simp_all add: take_Suc)
next
  case (Suc k)
  let ?q = "\<lparr>prev_free_block = nxt (rev (take k blocks)),
    next_free_block = nxt (take (Suc k) blocks), num_free_blocks = n\<rparr>"
  have k: "k < length blocks" using Suc.prems by simp
  have tk: "take (Suc k) blocks = take k blocks @ [blocks ! k]"
    using k by (rule take_Suc_conv_app_nth)
  have P: "nxt (rev (take (Suc k) blocks)) =
      (if k > 0 then (nxt (rev (take k blocks)))(blocks ! k \<mapsto> blocks ! (k - 1))
       else nxt (rev (take k blocks)))"
  proof (cases k)
    case (Suc j)
    then have "take k blocks = take j blocks @ [blocks ! j]"
      using k by (simp add: take_Suc_conv_app_nth)
    then show ?thesis unfolding tk by (simp add: Suc)
  next
    case 0
    then show ?thesis unfolding tk by simp
  qed
  have N: "nxt (take (Suc (Suc k)) blocks) =
      (if k < length blocks - 1 then (nxt (take (Suc k) blocks))(blocks ! k \<mapsto> blocks ! (k + 1))
       else nxt (take (Suc k) blocks))"
  proof (cases "k < length blocks - 1")
    case True
    then have "take (Suc (Suc k)) blocks = take (Suc k) blocks @ [blocks ! Suc k]"
      by (intro take_Suc_conv_app_nth) simp
    moreover have "take (Suc k) blocks \<noteq> []" "last (take (Suc k) blocks) = blocks ! k"
      unfolding tk by simp_all
    moreover have "distinct (take (Suc k) blocks)"
      using assms(1) by (rule distinct_take)
    ultimately show ?thesis using True nxt_snoc [of "take (Suc k) blocks" "blocks ! Suc k"] by simp
  qed simp
  have "fold (link_consecutive blocks) [0..<Suc k]
      \<lparr>prev_free_block = (\<lambda>_. None), next_free_block = (\<lambda>_. None), num_free_blocks = n\<rparr> =
      link_consecutive blocks k ?q"
    using Suc.IH k by simp
  also have "\<dots> = \<lparr>prev_free_block = nxt (rev (take (Suc k) blocks)),
      next_free_block = nxt (take (Suc (Suc k)) blocks), num_free_blocks = n\<rparr>"
    unfolding P N by (simp add: link_consecutive_def set_prev_def set_next_def Let_def)
  finally show ?case .
qed

lemma fq_init_eq:
  assumes "distinct (spine blocks)"
  shows "fq_init blocks = queue_of blocks"
proof (cases "blocks = []")
  case True
  then show ?thesis
    by (simp add: fq_init_def queue_of_def spine_def set_prev_def set_next_def fun_eq_iff)
next
  case False
  have d: "distinct blocks" "FakeHead \<notin> set blocks" "FakeTail \<notin> set blocks"
    using assms by (auto simp: spine_def)
  obtain b bs where b: "blocks = b # bs" using False by (cases blocks) auto
  have rev: "rev blocks \<noteq> []" "last (rev blocks) = hd blocks" "hd (rev blocks) = last blocks"
    using False by (simp_all add: last_rev hd_rev)
  have lb: "last blocks \<noteq> FakeHead" using d(2) last_in_set [OF False] by metis
  have "nxt (spine blocks) = (nxt (blocks @ [FakeTail]))(FakeHead \<mapsto> hd blocks)"
    by (simp add: spine_def b)
  then have N: "nxt (spine blocks) = (nxt blocks)(FakeHead \<mapsto> hd blocks, last blocks \<mapsto> FakeTail)"
    unfolding nxt_snoc [OF False d(1)] using lb by (simp add: fun_upd_twist)
  have "nxt (rev (spine blocks)) = (nxt (rev blocks @ [FakeHead]))(FakeTail \<mapsto> last blocks)"
    unfolding rev(3) [symmetric] using rev(1) by (cases "rev blocks") (simp_all add: spine_def)
  also have "nxt (rev blocks @ [FakeHead]) = (nxt (rev blocks))(hd blocks \<mapsto> FakeHead)"
    using nxt_snoc [OF rev(1), of FakeHead] d(1) rev(2) by simp
  finally have P: "nxt (rev (spine blocks)) =
      (nxt (rev blocks))(hd blocks \<mapsto> FakeHead, FakeTail \<mapsto> last blocks)" .
  show ?thesis
    using link_consecutive_prefix [OF d(1), of "length blocks" "int (length blocks)"] False
    by (simp add: fq_init_def queue_of_def N P set_prev_def set_next_def)
qed

lemma walk_free_path:
  assumes "path nxt' (Some c) xs (Some z)" and "nxt' z = None"
  shows "walk_free nxt' c ret = Some (ret @ xs)"
  using assms(1)
proof (induction xs arbitrary: c ret)
  case Nil
  then show ?case using assms(2) by (simp add: walk_free.simps)
next
  case (Cons x xs)
  then obtain y where "nxt' x = Some y" "path nxt' (Some y) xs (Some z)"
    by (cases xs) auto
  then show ?case using Cons by (simp add: walk_free.simps [of nxt' x])
qed

lemma walk_after_path:
  assumes "path nxt' cur xs (Some FakeTail)" and "FakeTail \<notin> set xs"
  shows "walk_after nxt' cur ret = Some (ret @ xs)"
  using assms
proof (induction xs arbitrary: cur ret)
  case Nil
  then show ?case by (simp add: walk_after.simps)
next
  case (Cons x xs)
  then show ?case by (auto simp: walk_after.simps [of nxt' "Some x"])
qed

lemma queue_path:
  assumes "distinct (spine (us @ vs))"
  shows "path (next_free_block (queue_of (us @ vs))) (Some (after vs)) vs (Some FakeTail)"
proof -
  have "spine (us @ vs) = (FakeHead # us) @ vs @ FakeTail # []"
    by (simp add: spine_def)
  then show ?thesis
    using path_nxt [of "FakeHead # us" vs FakeTail "[]"] assms
    by (simp add: queue_of_def after_def)
qed

lemma get_all_free_blocks_eq:
  assumes "distinct (spine xs)"
  shows "get_all_free_blocks (queue_of xs) = Some (Inr xs)"
proof -
  have "FakeTail \<notin> set xs" using assms by (simp add: spine_def)
  then have "next_free_block (queue_of xs) FakeTail = None"
    by (simp add: next_outside)
  then show ?thesis
    using walk_free_path [OF queue_path [of "[]" xs]] next_before [of "[]" xs] assms
    by (simp add: get_all_free_blocks_def)
qed

lemma iter_blocks_after_eq:
  assumes "distinct (spine (us @ vs))"
  shows "iter_blocks_after (queue_of (us @ vs)) (if us = [] then None else Some (last us)) = Some vs"
proof -
  have "next_free_block (queue_of (us @ vs)) (before us) = Some (after vs)"
    using assms by (rule next_before)
  moreover have "before us = (if us = [] then FakeHead else last us)"
    by (simp add: before_def)
  moreover have "walk_after (next_free_block (queue_of (us @ vs))) (Some (after vs)) [] = Some ([] @ vs)"
    using assms by (intro walk_after_path queue_path) (simp_all add: spine_def)
  ultimately show ?thesis by (cases "us = []") (simp_all add: iter_blocks_after_def)
qed

section \<open>The interface the block pool relies on\<close>

text \<open>
  \<open>rep q xs\<close> says that the queue \<open>q\<close> holds the list \<open>xs\<close>; the laws are what the pool may
  assume of the operations, and the lemmas of the block are about any such queue.
\<close>

locale free_list =
  fixes rep :: "'q \<Rightarrow> 'b list \<Rightarrow> bool"
    and block :: "'b \<Rightarrow> bool"
    and size_of :: "'q \<Rightarrow> int"
    and pop_n :: "'q \<Rightarrow> int \<Rightarrow> ('b list \<times> 'q) res"
    and unlink :: "'q \<Rightarrow> 'b \<Rightarrow> 'q res"
    and put_front :: "'q \<Rightarrow> 'b list \<Rightarrow> 'q res"
    and put_back :: "'q \<Rightarrow> 'b list \<Rightarrow> 'q res"
  assumes rep_distinct: "rep q xs \<Longrightarrow> distinct xs"
    and rep_block: "rep q xs \<Longrightarrow> x \<in> set xs \<Longrightarrow> block x"
    and size_of: "rep q xs \<Longrightarrow> size_of q = int (length xs)"
    and pop_n_ok: "rep q xs \<Longrightarrow> 0 \<le> n \<Longrightarrow> n \<le> int (length xs) \<Longrightarrow>
      \<exists>q'. pop_n q n = Inr (take (nat n) xs, q') \<and> rep q' (drop (nat n) xs)"
    and pop_n_short: "rep q xs \<Longrightarrow> int (length xs) < n \<Longrightarrow> pop_n q n = Inl AssertionError"
    and unlink_ok: "rep q xs \<Longrightarrow> x \<in> set xs \<Longrightarrow>
      \<exists>q'. unlink q x = Inr q' \<and> rep q' (remove1 x xs)"
    and unlink_absent: "rep q xs \<Longrightarrow> x \<notin> set xs \<Longrightarrow> unlink q x = Inl RuntimeError"
    and put_front_ok: "rep q xs \<Longrightarrow> distinct (bs @ xs) \<Longrightarrow> list_all block bs \<Longrightarrow>
      \<exists>q'. put_front q bs = Inr q' \<and> rep q' (bs @ xs)"
    and put_back_ok: "rep q xs \<Longrightarrow> distinct (xs @ bs) \<Longrightarrow> list_all block bs \<Longrightarrow>
      \<exists>q'. put_back q bs = Inr q' \<and> rep q' (xs @ bs)"
begin

text \<open>Blocks put at the front are the next ones popped; blocks put at the back the last.\<close>

lemma front_pop:
  assumes "rep q xs" "distinct (bs @ xs)" "list_all block bs"
  shows "\<exists>q1 q2. put_front q bs = Inr q1 \<and>
    pop_n q1 (int (length bs)) = Inr (bs, q2) \<and> rep q2 xs"
proof -
  obtain q1 where "put_front q bs = Inr q1" "rep q1 (bs @ xs)"
    using put_front_ok [OF assms] by blast
  moreover from this(2) obtain q2 where "pop_n q1 (int (length bs)) = Inr (bs, q2)" "rep q2 xs"
    using pop_n_ok [of q1 "bs @ xs" "int (length bs)"] by auto
  ultimately show ?thesis by blast
qed

lemma back_pop:
  assumes "rep q xs" "distinct (xs @ bs)" "list_all block bs" "0 \<le> n" "n \<le> int (length xs)"
  shows "\<exists>q1 q2. put_back q bs = Inr q1 \<and>
    pop_n q1 n = Inr (take (nat n) xs, q2) \<and> rep q2 (drop (nat n) xs @ bs)"
proof -
  obtain q1 where "put_back q bs = Inr q1" "rep q1 (xs @ bs)"
    using put_back_ok [OF assms(1-3)] by blast
  moreover from this(2) assms(4,5) obtain q2 where
    "pop_n q1 n = Inr (take (nat n) xs, q2)" "rep q2 (drop (nat n) xs @ bs)"
    using pop_n_ok [of q1 "xs @ bs" n] by (auto simp: nat_le_iff)
  ultimately show ?thesis by blast
qed

text \<open>What freeing a batch does: one part to the front, one to the back.\<close>

lemma put_both:
  assumes "rep q xs" "distinct (fs @ xs @ bs)" "list_all block fs" "list_all block bs"
  shows "\<exists>q1 q2. put_front q fs = Inr q1 \<and> put_back q1 bs = Inr q2 \<and>
    rep q2 (fs @ xs @ bs) \<and> size_of q2 = size_of q + int (length fs) + int (length bs)"
proof -
  obtain q1 where "put_front q fs = Inr q1" and r1: "rep q1 (fs @ xs)"
    using put_front_ok [OF assms(1), of fs] assms(2,3) by auto
  moreover obtain q2 where "put_back q1 bs = Inr q2" and "rep q2 (fs @ xs @ bs)"
    using put_back_ok [OF r1, of bs] assms(2,4) by auto
  ultimately show ?thesis
    using size_of [OF assms(1)] size_of [of q2 "fs @ xs @ bs"] by auto
qed

lemma unlink_all:
  assumes "rep q xs" "distinct bs" "set bs \<subseteq> set xs"
  shows "\<exists>q'. fold_res (\<lambda>b q. unlink q b) bs q = Inr q' \<and> rep q' (filter (\<lambda>x. x \<notin> set bs) xs)"
  using assms
proof (induction bs arbitrary: q xs)
  case Nil
  then show ?case by simp
next
  case (Cons b bs)
  obtain q1 where q1: "unlink q b = Inr q1" "rep q1 (remove1 b xs)"
    using unlink_ok [OF Cons.prems(1)] Cons.prems(3) by auto
  have d: "distinct xs" using Cons.prems(1) by (rule rep_distinct)
  have "set bs \<subseteq> set (remove1 b xs)" using Cons.prems d by auto
  then obtain q' where "fold_res (\<lambda>b q. unlink q b) bs q1 = Inr q'"
    "rep q' (filter (\<lambda>x. x \<notin> set bs) (remove1 b xs))"
    using Cons.IH [OF q1(2)] Cons.prems(2) by auto
  moreover have "filter (\<lambda>x. x \<notin> set bs) (remove1 b xs) = filter (\<lambda>x. x \<notin> set (b # bs)) xs"
    using d by (simp add: distinct_remove1_removeAll removeAll_filter_not_eq filter_filter
        conj_commute eq_commute cong: conj_cong)
  ultimately show ?case using q1(1) by auto
qed

end

abbreviation real_block :: "bref \<Rightarrow> bool" where
  "real_block b \<equiv> b \<noteq> FakeHead \<and> b \<noteq> FakeTail"

lemma distinct_spine: "distinct (spine xs) \<longleftrightarrow> distinct xs \<and> list_all real_block xs"
  by (auto simp: spine_def list_all_iff)

interpretation fq: free_list fq_rel real_block num_free_blocks popleft_n fq_remove
  fq_prepend_n fq_append_n
proof (unfold_locales, goal_cases)
  case (1 q xs)
  then show ?case by (simp add: fq_rel_def distinct_spine)
next
  case (2 q xs x)
  then show ?case by (simp add: fq_rel_def distinct_spine list_all_iff)
next
  case (3 q xs)
  then show ?case by (simp add: fq_rel_def)
next
  case (4 q xs n)
  then have "distinct (spine (drop (nat n) xs))"
    by (auto simp: fq_rel_def distinct_spine list_all_iff dest: in_set_dropD)
  with 4 show ?case by (simp add: fq_rel_def popleft_n_eq)
next
  case (5 q xs n)
  then show ?case by (simp add: fq_rel_def popleft_n_short)
next
  case (6 q xs x)
  then have "distinct (spine (remove1 x xs))"
    by (simp add: fq_rel_def distinct_spine list_all_iff)
  with 6 show ?case by (simp add: fq_rel_def fq_remove_mem)
next
  case (7 q xs x)
  then show ?case by (simp add: fq_rel_def fq_remove_not_mem)
next
  case (8 q xs bs)
  then have "distinct (spine (bs @ xs))" by (simp add: fq_rel_def distinct_spine)
  with 8 show ?case by (simp add: fq_rel_def fq_prepend_n_eq)
next
  case (9 q xs bs)
  then have "distinct (spine (xs @ bs))" by (simp add: fq_rel_def distinct_spine)
  with 9 show ?case by (simp add: fq_rel_def fq_append_n_eq)
qed

section \<open>Sequences of operations\<close>

text \<open>
  The calls a user of the queue makes, what each does to the linked list, and what the
  abstract list of free blocks promises for it.
\<close>

datatype fq_op =
    Popleft
  | PopleftN nat
  | Remove bref
  | Append bref
  | AppendN "bref list"
  | PrependN "bref list"

fun fq_exec :: "fq_op \<Rightarrow> free_queue \<Rightarrow> (bref list \<times> free_queue) res" where
  "fq_exec Popleft q = bind_res (popleft q) (\<lambda>(b, q'). Inr ([b], q'))"
| "fq_exec (PopleftN n) q = popleft_n q (int n)"
| "fq_exec (Remove b) q = bind_res (fq_remove q b) (\<lambda>q'. Inr ([], q'))"
| "fq_exec (Append b) q = bind_res (fq_append q b) (\<lambda>q'. Inr ([], q'))"
| "fq_exec (AppendN bs) q = bind_res (fq_append_n q bs) (\<lambda>q'. Inr ([], q'))"
| "fq_exec (PrependN bs) q = bind_res (fq_prepend_n q bs) (\<lambda>q'. Inr ([], q'))"

fun list_exec :: "fq_op \<Rightarrow> bref list \<Rightarrow> (bref list \<times> bref list) res" where
  "list_exec Popleft xs = (case xs of [] \<Rightarrow> Inl ValueError | x # xs' \<Rightarrow> Inr ([x], xs'))"
| "list_exec (PopleftN n) xs =
     (if n \<le> length xs then Inr (take n xs, drop n xs) else Inl AssertionError)"
| "list_exec (Remove b) xs = (if b \<in> set xs then Inr ([], remove1 b xs) else Inl RuntimeError)"
| "list_exec (Append b) xs = Inr ([], xs @ [b])"
| "list_exec (AppendN bs) xs = Inr ([], xs @ bs)"
| "list_exec (PrependN bs) xs = Inr ([], bs @ xs)"

text \<open>Only blocks that are not free yet are put back, as the class demands of its callers.\<close>

fun fq_legal :: "fq_op \<Rightarrow> bref list \<Rightarrow> bool" where
  "fq_legal (Append b) xs \<longleftrightarrow> distinct (xs @ [b]) \<and> real_block b"
| "fq_legal (AppendN bs) xs \<longleftrightarrow> distinct (xs @ bs) \<and> list_all real_block bs"
| "fq_legal (PrependN bs) xs \<longleftrightarrow> distinct (bs @ xs) \<and> list_all real_block bs"
| "fq_legal _ xs \<longleftrightarrow> True"

fun fq_run :: "fq_op list \<Rightarrow> free_queue \<Rightarrow> (bref list list \<times> free_queue) res" where
  "fq_run [] q = Inr ([], q)"
| "fq_run (x # ops) q = bind_res (fq_exec x q) (\<lambda>(out, q').
     bind_res (fq_run ops q') (\<lambda>(outs, q''). Inr (out # outs, q'')))"

fun list_run :: "fq_op list \<Rightarrow> bref list \<Rightarrow> (bref list list \<times> bref list) res" where
  "list_run [] xs = Inr ([], xs)"
| "list_run (x # ops) xs = bind_res (list_exec x xs) (\<lambda>(out, xs').
     bind_res (list_run ops xs') (\<lambda>(outs, xs''). Inr (out # outs, xs'')))"

fun fq_legal_run :: "fq_op list \<Rightarrow> bref list \<Rightarrow> bool" where
  "fq_legal_run [] xs \<longleftrightarrow> True"
| "fq_legal_run (x # ops) xs \<longleftrightarrow> fq_legal x xs \<and>
     (case list_exec x xs of Inl _ \<Rightarrow> True | Inr (_, xs') \<Rightarrow> fq_legal_run ops xs')"

lemma fq_exec_sim:
  assumes "distinct (spine xs)" and "fq_legal x xs"
  shows "fq_exec x (queue_of xs) =
    bind_res (list_exec x xs) (\<lambda>(out, xs'). Inr (out, queue_of xs'))"
  using assms
  by (cases x)
    (auto simp: popleft_Nil popleft_Cons popleft_n_eq popleft_n_short fq_remove_mem
      fq_remove_not_mem fq_append_eq fq_append_n_eq fq_prepend_n_eq distinct_spine
      split: list.split)

lemma list_exec_spine:
  assumes "distinct (spine xs)" and "fq_legal x xs" and "list_exec x xs = Inr (out, xs')"
  shows "distinct (spine xs')"
  using assms
  by (cases x)
    (auto simp: distinct_spine list_all_iff split: if_splits list.splits
      dest: in_set_dropD notin_set_remove1)

lemma fq_run_sim:
  assumes "distinct (spine xs)" and "fq_legal_run ops xs"
  shows "fq_run ops (queue_of xs) =
      bind_res (list_run ops xs) (\<lambda>(outs, xs'). Inr (outs, queue_of xs'))
    \<and> (\<forall>outs xs'. list_run ops xs = Inr (outs, xs') \<longrightarrow> distinct (spine xs'))"
  using assms
proof (induction ops arbitrary: xs)
  case Nil
  then show ?case by simp
next
  case (Cons x ops)
  then have legal: "fq_legal x xs" by simp
  note sim = fq_exec_sim [OF Cons.prems(1) legal]
  show ?case
  proof (cases "list_exec x xs")
    case (Inl e)
    then show ?thesis by (simp add: sim)
  next
    case (Inr r)
    obtain out xs1 where r: "r = (out, xs1)" by (cases r)
    have sp: "distinct (spine xs1)" and lr: "fq_legal_run ops xs1"
      using list_exec_spine [OF Cons.prems(1) legal] Cons.prems(2) Inr r by auto
    show ?thesis
      using Cons.IH [OF sp lr] by (cases "list_run ops xs1") (auto simp: sim Inr r)
  qed
qed

text \<open>
  C1. Refinement of the free list: after construction from any list of distinct blocks, any
  legal sequence of calls to the queue returns block for block (or raises exception for
  exception) what the abstract list of free blocks returns, and afterwards the traversal
  of the links and the counter give exactly that list and its length.
\<close>

theorem free_queue_refines_list:
  assumes "distinct bs" and "list_all real_block bs" and "fq_legal_run ops bs"
  shows "bind_res (fq_run ops (fq_init bs))
      (\<lambda>(outs, q). Inr (outs, get_all_free_blocks q, num_free_blocks q)) =
    bind_res (list_run ops bs) (\<lambda>(outs, xs). Inr (outs, Some (Inr xs), int (length xs)))"
proof -
  have sp: "distinct (spine bs)" using assms(1,2) by (simp add: distinct_spine)
  show ?thesis
    using fq_run_sim [OF sp assms(3)] sp
    by (cases "list_run ops bs") (auto simp: fq_init_eq get_all_free_blocks_eq)
qed

theorem free_queue_refines_list_witness:
  "bind_res (fq_run [PopleftN 2, Remove (Blk 3), AppendN [Blk 0], PrependN [Blk 1], Popleft]
        (fq_init [Blk 0, Blk 1, Blk 2, Blk 3]))
      (\<lambda>(outs, q). Inr (outs, get_all_free_blocks q, num_free_blocks q)) =
    Inr ([[Blk 0, Blk 1], [], [], [], [Blk 1]], Some (Inr [Blk 2, Blk 0]), 2)"
  by (subst free_queue_refines_list) simp_all

end
