(* ===== verification/BlockHash.thy ===== *)
theory BlockHash
  imports Prelude "HOL-Library.Word"
begin

text \<open>
  Block hashes of \<open>kv_cache_utils.py\<close>: hash keys with a group id, the extra keys of a block
  (multi-modal inputs, LoRA, salt, prompt embeddings), the chained hashes of a request, and
  the views of a hash list at a coarser block size.

  The \<open>Request\<close> class is outside the repository: the record below holds the attributes that
  the code reads.  The hash function, the digest of a slice of prompt embeddings and the
  environment are parameters.
\<close>

unbundle bit_operations_syntax

section \<open>Bytes and Python indexing\<close>

type_synonym byte = "8 word"
type_synonym bytes = "byte list"

text \<open>\<open>n.to_bytes(4, "big", signed=False)\<close> and \<open>int.from_bytes(b, "big")\<close>\<close>

definition to_bytes4 :: "int \<Rightarrow> bytes res" where
  "to_bytes4 n =
     (if n < 0 \<or> n \<ge> 2 ^ 32 then Inl OverflowError
      else Inr [word_of_int (n div 2 ^ 24), word_of_int (n div 2 ^ 16),
                word_of_int (n div 2 ^ 8), word_of_int n])"

definition int_from_bytes :: "bytes \<Rightarrow> int" where
  "int_from_bytes bs = foldl (\<lambda>acc b. acc * 256 + uint b) 0 bs"

text \<open>\<open>xs[i]\<close> and \<open>xs[i:j]\<close> (for indices that are not negative, as the code uses slices)\<close>

definition py_index :: "'a list \<Rightarrow> int \<Rightarrow> 'a res" where
  "py_index xs i =
     (let k = (if i < 0 then i + int (length xs) else i)
      in if k < 0 \<or> int (length xs) \<le> k then Inl IndexError else Inr (xs ! nat k))"

definition py_slice :: "'a list \<Rightarrow> int \<Rightarrow> int \<Rightarrow> 'a list" where
  "py_slice xs i j = take (nat j - nat i) (drop (nat i) xs)"

section \<open>Hash keys with a group id\<close>

type_synonym block_hash = bytes
type_synonym block_hash_gid = bytes

definition make_block_hash_with_group_id :: "block_hash \<Rightarrow> int \<Rightarrow> block_hash_gid res" where
  "make_block_hash_with_group_id h group_id =
     bind_res (to_bytes4 group_id) (\<lambda>b. Inr (h @ b))"

definition get_block_hash :: "block_hash_gid \<Rightarrow> block_hash" where
  "get_block_hash key = take (length key - 4) key"

definition get_group_id :: "block_hash_gid \<Rightarrow> int" where
  "get_group_id key = int_from_bytes (drop (length key - 4) key)"

datatype external_hash = ExtBytes bytes | ExtInt int

text \<open>The flag is \<open>envs.VLLM_KV_EVENTS_USE_INT_BLOCK_HASHES\<close>.\<close>

definition maybe_convert_block_hash :: "bool \<Rightarrow> block_hash \<Rightarrow> external_hash" where
  "maybe_convert_block_hash use_int h =
     (if \<not> use_int then ExtBytes h
      else ExtInt (int_from_bytes h AND (push_bit 64 1 - 1)))"

section \<open>The seed of the first block\<close>

text \<open>
  \<open>hash_seed\<close> is \<open>os.getenv("PYTHONHASHSEED")\<close>, \<open>random_hex\<close> is \<open>os.urandom(32).hex()\<close>, and
  \<open>non_crypto\<close> says whether the hash function is one of \<open>_NON_CRYPTO_HASH_FUNCTIONS\<close>.
\<close>

definition default_none_hash_seed :: string where
  "default_none_hash_seed = ''vllm-none-hash''"

definition resolve_none_hash_seed :: "string option \<Rightarrow> string \<Rightarrow> bool \<Rightarrow> string" where
  "resolve_none_hash_seed hash_seed random_hex non_crypto =
     (case hash_seed of
        Some s \<Rightarrow> s
      | None \<Rightarrow> if non_crypto then random_hex else default_none_hash_seed)"

record none_hash_state =
  none_hash :: "bytes option"
  none_hash_seed :: "string option"

definition get_none_hash_seed :: "none_hash_state \<Rightarrow> string" where
  "get_none_hash_seed st =
     (case none_hash_seed st of None \<Rightarrow> default_none_hash_seed | Some s \<Rightarrow> s)"

definition init_none_hash ::
  "string option \<Rightarrow> string \<Rightarrow> bool \<Rightarrow> (string \<Rightarrow> bytes) \<Rightarrow> none_hash_state \<Rightarrow> none_hash_state" where
  "init_none_hash hash_seed random_hex non_crypto hash_fn st =
     (let seed = resolve_none_hash_seed hash_seed random_hex non_crypto
      in st\<lparr>none_hash_seed := Some seed, none_hash := Some (hash_fn seed)\<rparr>)"

section \<open>Requests\<close>

record mm_feature =
  mm_identifier :: "string option"
  mm_offset :: int
  mm_length :: int

record lora_request =
  lora_name :: string
  lora_adapter_id :: int

record request =
  request_id :: string
  block_hashes :: "block_hash list"
  all_token_ids :: "int list"
  num_tokens :: int
  num_prompt_tokens :: int
  shared_prefix_boundary :: int
  mm_features :: "mm_feature list"
  lora_req :: "lora_request option"
  cache_salt :: "string option"
  prompt_embeds :: "bytes list option"
  prompt_embeds_hashes :: "(int \<times> int, bytes) pydict"

text \<open>
  The entries of an extra-key tuple: strings (LoRA names and salts alike), pairs of an
  identifier and a relative offset, and digests.
\<close>

datatype extra_key = KStr string | KMM string int | KBytes bytes

section \<open>Extra keys\<close>

text \<open>The \<open>while\<close> loop over the features from \<open>curr_mm_idx\<close> on.\<close>

fun gen_mm_loop ::
  "int \<Rightarrow> int \<Rightarrow> mm_feature list \<Rightarrow> int \<Rightarrow> extra_key list \<Rightarrow> (extra_key list \<times> int) res" where
  "gen_mm_loop start_idx end_idx [] curr_mm_idx keys = Inr (keys, curr_mm_idx)"
| "gen_mm_loop start_idx end_idx (f # fs) curr_mm_idx keys =
     (case mm_identifier f of
        None \<Rightarrow> Inl AssertionError
      | Some ident \<Rightarrow>
          if end_idx > mm_offset f then
            (if start_idx \<ge> mm_offset f + mm_length f then
               gen_mm_loop start_idx end_idx fs (curr_mm_idx + 1) keys
             else if end_idx \<ge> mm_offset f + mm_length f then
               gen_mm_loop start_idx end_idx fs (curr_mm_idx + 1)
                 (keys @ [KMM ident (mm_offset f - start_idx)])
             else Inr (keys @ [KMM ident (mm_offset f - start_idx)], curr_mm_idx))
          else Inr (keys, curr_mm_idx))"

definition gen_mm_extra_hash_keys ::
  "mm_feature list \<Rightarrow> int \<Rightarrow> int \<Rightarrow> int \<Rightarrow> (extra_key list \<times> int) res" where
  "gen_mm_extra_hash_keys feats start_idx end_idx start_mm_idx =
     (if feats = [] then Inr ([], start_mm_idx)
      else if mm_offset (last feats) + mm_length (last feats) \<le> start_idx
        then Inr ([], start_mm_idx)
      else if start_mm_idx < 0 \<and> \<not> (- start_mm_idx \<le> int (length feats))
        then Inl AssertionError
      else
        (let idx = (if start_mm_idx < 0 then int (length feats) + start_mm_idx else start_mm_idx)
         in gen_mm_loop start_idx end_idx (drop (nat idx) feats) idx []))"

definition gen_lora_extra_hash_keys :: "request \<Rightarrow> extra_key list" where
  "gen_lora_extra_hash_keys r =
     (case lora_req r of None \<Rightarrow> [] | Some l \<Rightarrow> [KStr (lora_name l)])"

text \<open>\<open>digest\<close> is \<open>hashlib.sha256(tensor_data(_)).digest()\<close>; the result is kept on the request.\<close>

definition gen_prompt_embeds_extra_hash_keys ::
  "(bytes list \<Rightarrow> bytes) \<Rightarrow> request \<Rightarrow> int \<Rightarrow> int \<Rightarrow> request \<times> extra_key list" where
  "gen_prompt_embeds_extra_hash_keys digest r start_idx end_idx =
     (case prompt_embeds r of
        None \<Rightarrow> (r, [])
      | Some e \<Rightarrow>
          (case map_of (prompt_embeds_hashes r) (start_idx, end_idx) of
             Some h \<Rightarrow> (r, [KBytes h])
           | None \<Rightarrow>
               (let h = digest (py_slice e start_idx end_idx)
                in (r\<lparr>prompt_embeds_hashes :=
                      AList.update (start_idx, end_idx) h (prompt_embeds_hashes r)\<rparr>,
                    [KBytes h]))))"

definition salt_keys :: "request \<Rightarrow> int \<Rightarrow> extra_key list" where
  "salt_keys r start_idx =
     (case cache_salt r of
        None \<Rightarrow> []
      | Some s \<Rightarrow> if start_idx = 0 \<and> s \<noteq> [] then [KStr s] else [])"

definition generate_block_hash_extra_keys ::
  "(bytes list \<Rightarrow> bytes) \<Rightarrow> request \<Rightarrow> int \<Rightarrow> int \<Rightarrow> int
     \<Rightarrow> (request \<times> extra_key list option \<times> int) res" where
  "generate_block_hash_extra_keys digest r start_idx end_idx start_mm_idx =
     bind_res (gen_mm_extra_hash_keys (mm_features r) start_idx end_idx start_mm_idx)
       (\<lambda>(mm_keys, new_idx).
          (let (r', embeds_keys) = gen_prompt_embeds_extra_hash_keys digest r start_idx end_idx;
               keys = gen_lora_extra_hash_keys r @ mm_keys @ salt_keys r start_idx @ embeds_keys
           in Inr (r', if keys = [] then None else Some keys, new_idx)))"

section \<open>Chained hashes\<close>

type_synonym hash_fn = "bytes \<times> int list \<times> extra_key list option \<Rightarrow> bytes"

definition hash_block_tokens ::
  "hash_fn \<Rightarrow> bytes \<Rightarrow> block_hash option \<Rightarrow> int list \<Rightarrow> extra_key list option \<Rightarrow> block_hash" where
  "hash_block_tokens hash_function NONE_HASH parent toks extra =
     (let parent' = (case parent of None \<Rightarrow> NONE_HASH | Some p \<Rightarrow> if p = [] then NONE_HASH else p)
      in hash_function (parent', toks, extra))"

text \<open>The \<open>while True\<close> loop of the hasher; it need not end when the block size is not positive.\<close>

partial_function (option) hash_blocks_from ::
  "(bytes list \<Rightarrow> bytes) \<Rightarrow> hash_fn \<Rightarrow> bytes \<Rightarrow> int \<Rightarrow> request \<Rightarrow> int \<Rightarrow> int
     \<Rightarrow> block_hash option \<Rightarrow> block_hash list \<Rightarrow> (request \<times> block_hash list) res option" where
  "hash_blocks_from digest hash_function NONE_HASH hash_block_size r start_idx mm_idx prev acc =
     (let end_idx = start_idx + hash_block_size
      in if end_idx > num_tokens r then Some (Inr (r, acc))
         else (case generate_block_hash_extra_keys digest r start_idx end_idx mm_idx of
             Inl e \<Rightarrow> Some (Inl e)
           | Inr t \<Rightarrow>
               (let h = hash_block_tokens hash_function NONE_HASH prev
                          (py_slice (all_token_ids r) start_idx end_idx) (fst (snd t))
                in hash_blocks_from digest hash_function NONE_HASH hash_block_size (fst t)
                     (start_idx + hash_block_size) (snd (snd t)) (Some h) (acc @ [h]))))"

definition request_block_hasher ::
  "(bytes list \<Rightarrow> bytes) \<Rightarrow> hash_fn \<Rightarrow> bytes \<Rightarrow> int \<Rightarrow> request
     \<Rightarrow> (request \<times> block_hash list) res option" where
  "request_block_hasher digest hash_function NONE_HASH hash_block_size r =
     (let start_idx = int (length (block_hashes r)) * hash_block_size
      in if start_idx + hash_block_size > num_tokens r then Some (Inr (r, []))
         else hash_blocks_from digest hash_function NONE_HASH hash_block_size r start_idx
                (if start_idx > 0 then - 1 else 0)
                (if block_hashes r = [] then None else Some (last (block_hashes r))) [])"

section \<open>Views of a hash list at another block size\<close>

text \<open>
  \<open>BlockHashList\<close> is a plain list or a \<open>BlockHashListWithBlockSize\<close> over one, with its scale
  factor.
\<close>

datatype block_hash_list = RawHashes "block_hash list" | ScaledHashes "block_hash list" int

definition with_block_size :: "block_hash list \<Rightarrow> int \<Rightarrow> int \<Rightarrow> block_hash_list res" where
  "with_block_size hs hash_block_size target_block_size =
     (if hash_block_size = 0 then Inl ZeroDivisionError
      else if target_block_size mod hash_block_size \<noteq> 0 then Inl AssertionError
      else Inr (ScaledHashes hs (target_block_size div hash_block_size)))"

fun bhl_len :: "block_hash_list \<Rightarrow> int" where
  "bhl_len (RawHashes hs) = int (length hs)"
| "bhl_len (ScaledHashes hs scale) = int (length hs) div scale"

fun bhl_get :: "block_hash_list \<Rightarrow> int \<Rightarrow> block_hash res" where
  "bhl_get (RawHashes hs) idx = py_index hs idx"
| "bhl_get (ScaledHashes hs scale) idx = py_index hs ((idx + 1) * scale - 1)"

text \<open>\<open>block_hashes[start:]\<close> and iteration, element by element\<close>

definition bhl_from :: "block_hash_list \<Rightarrow> int \<Rightarrow> block_hash list res" where
  "bhl_from l start = map_res (bhl_get l) [start..bhl_len l - 1]"

definition keeps_fine_hashes :: "bool \<Rightarrow> int \<Rightarrow> int option \<Rightarrow> bool res" where
  "keeps_fine_hashes fine_grained block_size alignment_tokens =
     (case alignment_tokens of
        None \<Rightarrow> Inr False
      | Some a \<Rightarrow>
          if \<not> fine_grained \<or> \<not> a < block_size then Inr False
          else if a = 0 then Inl ZeroDivisionError
          else Inr (block_size mod a = 0))"

definition resolve_block_hashes ::
  "block_hash_list \<Rightarrow> int \<Rightarrow> int \<Rightarrow> bool \<Rightarrow> int option \<Rightarrow> block_hash_list res" where
  "resolve_block_hashes l hash_block_size block_size fine_grained alignment_tokens =
     (if block_size = hash_block_size then Inr l
      else (case l of
          ScaledHashes hs scale \<Rightarrow>
            if hash_block_size = 0 then Inl ZeroDivisionError
            else if scale = block_size div hash_block_size then Inr l
            else Inl AssertionError
        | RawHashes hs \<Rightarrow>
            bind_res (keeps_fine_hashes fine_grained block_size alignment_tokens)
              (\<lambda>fine. if fine then Inr l else with_block_size hs hash_block_size block_size)))"

section \<open>Keys: packing and unpacking\<close>

lemma int_from_bytes_to_bytes4:
  assumes "to_bytes4 n = Inr b"
  shows "length b = 4 \<and> int_from_bytes b = n"
proof -
  have n: "0 \<le> n" "n < 2 ^ 32" and
    b: "b = [word_of_int (n div 2 ^ 24), word_of_int (n div 2 ^ 16),
             word_of_int (n div 2 ^ 8), word_of_int n]"
    using assms by (auto simp: to_bytes4_def split: if_splits)
  define a where "a = n div 256"
  define c where "c = a div 256"
  define d where "d = c div 256"
  have "n div 2 ^ 16 = c" "n div 2 ^ 24 = d"
    by (simp_all add: a_def c_def d_def zdiv_zmult2_eq [symmetric])
  moreover have "d < 256" "0 \<le> d" using n by (simp_all add: a_def c_def d_def)
  ultimately have "int_from_bytes b =
      ((d * 256 + c mod 256) * 256 + a mod 256) * 256 + n mod 256"
    by (simp add: b int_from_bytes_def uint_word_of_int a_def)
  also have "d * 256 + c mod 256 = c" by (simp add: d_def)
  also have "c * 256 + a mod 256 = a" by (simp add: c_def)
  also have "a * 256 + n mod 256 = n" by (simp add: a_def)
  finally show ?thesis by (simp add: b)
qed

lemma to_bytes4_inject: "to_bytes4 n = Inr b \<Longrightarrow> to_bytes4 m = Inr b \<Longrightarrow> n = m"
  using int_from_bytes_to_bytes4 by metis

lemma length_to_bytes4: "to_bytes4 n = Inr b \<Longrightarrow> length b = 4"
  using int_from_bytes_to_bytes4 by blast

text \<open>
  Round trip of hash keys: packing a block hash with a group id succeeds exactly for
  group ids that fit four bytes, and both components are recovered from the key.
\<close>

theorem block_hash_key_roundtrip:
  "case make_block_hash_with_group_id h g of
     Inl e \<Rightarrow> e = OverflowError \<and> (g < 0 \<or> 2 ^ 32 \<le> g)
   | Inr key \<Rightarrow> get_block_hash key = h \<and> get_group_id key = g"
proof (cases "to_bytes4 g")
  case (Inl e)
  then show ?thesis
    by (auto simp: make_block_hash_with_group_id_def to_bytes4_def split: if_splits)
next
  case (Inr b)
  then show ?thesis
    using int_from_bytes_to_bytes4 [OF Inr]
    by (simp add: make_block_hash_with_group_id_def get_block_hash_def get_group_id_def)
qed

lemma make_block_hash_inject:
  assumes "make_block_hash_with_group_id h g = Inr k" "make_block_hash_with_group_id h' g' = Inr k"
  shows "h = h' \<and> g = g'"
proof -
  obtain b b' where b: "to_bytes4 g = Inr b" "to_bytes4 g' = Inr b'" and k: "h @ b = k" "h' @ b' = k"
    using assms by (auto simp: make_block_hash_with_group_id_def res_simps)
  then have "length b = length b'" by (simp add: length_to_bytes4)
  with k have "h = h'" "b = b'" by auto
  with b show ?thesis using to_bytes4_inject by blast
qed

section \<open>Extra keys of a block\<close>

text \<open>
  The features of a request are sorted by position, do not overlap, are not empty and have
  an identifier.  The multi-modal keys of a block are then those of the features that
  overlap it, in order, with their offset relative to the block.
\<close>

definition mm_ok :: "mm_feature list \<Rightarrow> bool" where
  "mm_ok feats \<longleftrightarrow> sorted_wrt (\<lambda>f g. mm_offset f + mm_length f \<le> mm_offset g) feats \<and>
     list_all (\<lambda>f. 0 \<le> mm_offset f \<and> 0 < mm_length f \<and> mm_identifier f \<noteq> None) feats"

definition mm_overlaps :: "int \<Rightarrow> int \<Rightarrow> mm_feature \<Rightarrow> bool" where
  "mm_overlaps s e f \<longleftrightarrow> mm_offset f < e \<and> s < mm_offset f + mm_length f"

definition mm_keys :: "mm_feature list \<Rightarrow> int \<Rightarrow> int \<Rightarrow> extra_key list" where
  "mm_keys feats s e =
     map (\<lambda>f. KMM (the (mm_identifier f)) (mm_offset f - s)) (filter (mm_overlaps s e) feats)"

text \<open>The number of leading features that end at or before a position.\<close>

definition mm_passed :: "mm_feature list \<Rightarrow> int \<Rightarrow> nat" where
  "mm_passed feats s = length (takeWhile (\<lambda>f. mm_offset f + mm_length f \<le> s) feats)"

lemma mm_ok_Cons:
  "mm_ok (f # fs) \<Longrightarrow> mm_ok fs \<and> (\<forall>g\<in>set fs. mm_offset f + mm_length f \<le> mm_offset g)
     \<and> 0 < mm_length f \<and> 0 \<le> mm_offset f \<and> mm_identifier f \<noteq> None"
  by (auto simp: mm_ok_def)

lemma mm_keys_none:
  "\<forall>g\<in>set fs. e \<le> mm_offset g \<Longrightarrow> mm_keys fs s e = []"
  by (auto simp: mm_keys_def mm_overlaps_def filter_empty_conv)

lemma gen_mm_loop_eq:
  assumes "mm_ok fs" and "s < e"
  shows "gen_mm_loop s e fs i ks = Inr (ks @ mm_keys fs s e, i + int (mm_passed fs e))"
  using assms(1)
proof (induction fs arbitrary: i ks)
  case Nil
  then show ?case by (simp add: mm_keys_def mm_passed_def)
next
  case (Cons f fs)
  note f = mm_ok_Cons [OF Cons.prems]
  from f obtain ident where ident: "mm_identifier f = Some ident" by auto
  consider "e \<le> mm_offset f" | "mm_offset f < e" "e < mm_offset f + mm_length f"
    | "mm_offset f < e" "mm_offset f + mm_length f \<le> e" by linarith
  then show ?case
  proof cases
    case 1
    then have "mm_keys (f # fs) s e = []" using f by (intro mm_keys_none) force
    with 1 f ident show ?thesis by (simp add: mm_passed_def)
  next
    case 2
    then have "mm_keys fs s e = []" using f by (intro mm_keys_none) force
    with 2 ident assms(2) show ?thesis by (simp add: mm_keys_def mm_overlaps_def mm_passed_def)
  next
    case 3
    then show ?thesis
      using Cons.IH f ident by (auto simp: mm_keys_def mm_overlaps_def mm_passed_def)
  qed
qed

lemma mm_ok_drop: "mm_ok feats \<Longrightarrow> mm_ok (drop n feats)"
  by (auto simp: mm_ok_def list_all_iff sorted_wrt_drop dest: in_set_dropD)

lemma mm_passed_all:
  assumes "mm_ok feats" and "n < mm_passed feats s"
  shows "mm_offset (feats ! n) + mm_length (feats ! n) \<le> s"
  using assms(2) by (metis mm_passed_def nth_mem set_takeWhileD takeWhile_nth)

lemma mm_keys_drop:
  assumes "mm_ok feats" and "n \<le> mm_passed feats s"
  shows "mm_keys (drop n feats) s e = mm_keys feats s e"
proof -
  have "\<not> mm_overlaps s e f" if f_in: "f \<in> set (take n feats)" for f
  proof -
    obtain j where "j < length (take n feats)" and "take n feats ! j = f"
      using f_in unfolding in_set_conv_nth by blast
    then have f: "f = feats ! j" and "j < n" by simp_all
    from this(2) have "j < mm_passed feats s" using assms(2) by (rule less_le_trans)
    from mm_passed_all [OF assms(1) this] show ?thesis
      unfolding mm_overlaps_def f by (simp only: not_less de_Morgan_conj simp_thms)
  qed
  then have "mm_keys (take n feats) s e = []" by (simp add: mm_keys_def filter_empty_conv)
  moreover have "mm_keys feats s e = mm_keys (take n feats) s e @ mm_keys (drop n feats) s e"
    unfolding mm_keys_def by (metis append_take_drop_id filter_append map_append)
  ultimately show ?thesis by simp
qed

lemma mm_passed_mono: "s \<le> e \<Longrightarrow> mm_passed feats s \<le> mm_passed feats e"
  unfolding mm_passed_def by (induction feats) auto

lemma mm_passed_drop:
  assumes "n \<le> mm_passed feats s"
  shows "n + mm_passed (drop n feats) s = mm_passed feats s"
  using assms
proof (induction n arbitrary: feats)
  case 0
  then show ?case by simp
next
  case (Suc n)
  then show ?case by (cases feats) (auto simp: mm_passed_def split: if_splits)
qed

lemma mm_passed_le: "mm_passed feats s \<le> length feats"
  unfolding mm_passed_def by (rule length_takeWhile_le)

text \<open>
  What the multi-modal index passed from block to block must satisfy, when the hasher looks at
  the features from number \<open>d\<close> on: it does not skip one of those that reaches past the start,
  or it is \<open>-1\<close> and \<open>d\<close> is the last feature.
\<close>

definition mm_idx_ok :: "nat \<Rightarrow> mm_feature list \<Rightarrow> int \<Rightarrow> int \<Rightarrow> bool" where
  "mm_idx_ok d feats s idx \<longleftrightarrow> feats = []
     \<or> (int d \<le> idx \<and> idx \<le> int (d + mm_passed (drop d feats) s))
     \<or> (idx = - 1 \<and> Suc d = length feats)"

lemma mm_keys_after_last:
  assumes "mm_ok feats" and "feats \<noteq> []" and "mm_offset (last feats) + mm_length (last feats) \<le> s"
  shows "mm_keys (drop d feats) s e = []"
proof -
  have "\<not> mm_overlaps s e f" if "f \<in> set (drop d feats)" for f
  proof -
    have "f \<in> set feats" using that by (rule in_set_dropD)
    then have "mm_offset f + mm_length f \<le> mm_offset (last feats) + mm_length (last feats)"
      using assms(1,2) by (cases feats rule: rev_cases) (auto simp: mm_ok_def sorted_wrt_append)
    with assms(3) show ?thesis by (simp add: mm_overlaps_def)
  qed
  then show ?thesis by (simp add: mm_keys_def filter_empty_conv)
qed

lemma gen_mm_extra_eq:
  assumes ok: "mm_ok feats" and "s < e" and idx: "mm_idx_ok d feats s idx"
  shows "\<exists>idx'. gen_mm_extra_hash_keys feats s e idx = Inr (mm_keys (drop d feats) s e, idx')
    \<and> mm_idx_ok d feats e idx'"
proof (cases "feats = []")
  case True
  then show ?thesis by (simp add: gen_mm_extra_hash_keys_def mm_keys_def mm_idx_ok_def)
next
  case nonempty: False
  let ?fs = "drop d feats"
  have mono: "mm_passed ?fs s \<le> mm_passed ?fs e"
    using assms(2) by (intro mm_passed_mono) simp
  show ?thesis
  proof (cases "mm_offset (last feats) + mm_length (last feats) \<le> s")
    case True
    note none = mm_keys_after_last [OF ok nonempty True, of d e]
    with True nonempty idx mono show ?thesis
      by (auto simp: gen_mm_extra_hash_keys_def mm_idx_ok_def)
  next
    case False
    define n where "n = nat (if idx < 0 then int (length feats) + idx else idx)"
    have n: "d \<le> n" "n - d \<le> mm_passed ?fs s" "int n = (if idx < 0 then int (length feats) + idx else idx)"
      using idx nonempty by (auto simp: n_def mm_idx_ok_def)
    have d: "drop n feats = drop (n - d) ?fs" using n(1) by simp
    have "gen_mm_extra_hash_keys feats s e idx = gen_mm_loop s e (drop n feats) (int n) []"
      using False nonempty idx n(3)
      by (auto simp: gen_mm_extra_hash_keys_def n_def mm_idx_ok_def Let_def neq_Nil_conv)
    also have "\<dots> = Inr (mm_keys ?fs s e, int n + int (mm_passed (drop n feats) e))"
      using gen_mm_loop_eq [OF mm_ok_drop [OF ok] assms(2)] mm_keys_drop [OF mm_ok_drop [OF ok] n(2)]
      by (simp add: d)
    also have "int n + int (mm_passed (drop n feats) e) = int (d + mm_passed ?fs e)"
      using mm_passed_drop [of "n - d" ?fs e] n(1,2) mono unfolding d by linarith
    finally show ?thesis by (auto simp: mm_idx_ok_def)
  qed
qed

section \<open>The chain of a request\<close>

text \<open>
  The specification of the hasher.  \<open>block_keys\<close> are the extra keys of the \<open>i\<close>-th block,
  \<open>chain_hash\<close> the hash of the \<open>i\<close>-th block, chained over all blocks before it.
\<close>

definition block_keys ::
  "(bytes list \<Rightarrow> bytes) \<Rightarrow> request \<Rightarrow> int \<Rightarrow> nat \<Rightarrow> extra_key list option" where
  "block_keys digest r hbs i =
     (let s = int i * hbs; e = s + hbs;
          keys = gen_lora_extra_hash_keys r @ mm_keys (mm_features r) s e @ salt_keys r s @
            (case prompt_embeds r of None \<Rightarrow> [] | Some x \<Rightarrow> [KBytes (digest (py_slice x s e))])
      in if keys = [] then None else Some keys)"

definition block_tokens :: "request \<Rightarrow> int \<Rightarrow> nat \<Rightarrow> int list" where
  "block_tokens r hbs i = py_slice (all_token_ids r) (int i * hbs) (int i * hbs + hbs)"

fun chain_hash ::
  "(bytes list \<Rightarrow> bytes) \<Rightarrow> hash_fn \<Rightarrow> bytes \<Rightarrow> int \<Rightarrow> request \<Rightarrow> nat \<Rightarrow> block_hash" where
  "chain_hash digest H none hbs r 0 =
     hash_block_tokens H none None (block_tokens r hbs 0) (block_keys digest r hbs 0)"
| "chain_hash digest H none hbs r (Suc i) =
     hash_block_tokens H none (Some (chain_hash digest H none hbs r i))
       (block_tokens r hbs (Suc i)) (block_keys digest r hbs (Suc i))"

definition chain_prev ::
  "(bytes list \<Rightarrow> bytes) \<Rightarrow> hash_fn \<Rightarrow> bytes \<Rightarrow> int \<Rightarrow> request \<Rightarrow> nat \<Rightarrow> block_hash option" where
  "chain_prev digest H none hbs r k =
     (if k = 0 then None else Some (chain_hash digest H none hbs r (k - 1)))"

text \<open>The digests kept on the request are those of its embeddings.\<close>

definition memo_ok :: "(bytes list \<Rightarrow> bytes) \<Rightarrow> request \<Rightarrow> bool" where
  "memo_ok digest r \<longleftrightarrow> (\<forall>e s t h. prompt_embeds r = Some e \<longrightarrow>
     map_of (prompt_embeds_hashes r) (s, t) = Some h \<longrightarrow> h = digest (py_slice e s t))"

definition same_request :: "request \<Rightarrow> request \<Rightarrow> bool" where
  "same_request r r' \<longleftrightarrow> (\<exists>m. r' = r\<lparr>prompt_embeds_hashes := m\<rparr>)"

lemma same_request_refl [simp]: "same_request r r"
  unfolding same_request_def by (rule exI [of _ "prompt_embeds_hashes r"]) simp

lemma same_request_trans: "same_request r r' \<Longrightarrow> same_request r' r'' \<Longrightarrow> same_request r r''"
  unfolding same_request_def by auto

lemma same_request_fields:
  assumes "same_request r r'"
  shows "num_tokens r' = num_tokens r" "mm_features r' = mm_features r"
    "all_token_ids r' = all_token_ids r" "block_hashes r' = block_hashes r"
    "block_keys digest r' hbs i = block_keys digest r hbs i"
    "block_tokens r' hbs i = block_tokens r hbs i"
  using assms
  by (auto simp: same_request_def block_keys_def block_tokens_def gen_lora_extra_hash_keys_def
      salt_keys_def Let_def)

lemma embeds_keys_eq:
  assumes "memo_ok digest r"
  shows "\<exists>r'. gen_prompt_embeds_extra_hash_keys digest r s e =
      (r', case prompt_embeds r of None \<Rightarrow> [] | Some x \<Rightarrow> [KBytes (digest (py_slice x s e))])
    \<and> same_request r r' \<and> memo_ok digest r'"
proof (cases "prompt_embeds r")
  case None
  then show ?thesis
    using assms by (auto simp: gen_prompt_embeds_extra_hash_keys_def)
next
  case (Some x)
  show ?thesis
  proof (cases "map_of (prompt_embeds_hashes r) (s, e)")
    case None
    have "memo_ok digest (r\<lparr>prompt_embeds_hashes :=
        AList.update (s, e) (digest (py_slice x s e)) (prompt_embeds_hashes r)\<rparr>)"
      using assms Some by (auto simp: memo_ok_def dict_simps)
    then show ?thesis
      using Some None
      by (auto simp: gen_prompt_embeds_extra_hash_keys_def same_request_def Let_def)
  next
    case h: (Some h)
    then have "h = digest (py_slice x s e)" using assms Some by (simp add: memo_ok_def)
    then show ?thesis
      using assms Some h by (simp add: gen_prompt_embeds_extra_hash_keys_def)
  qed
qed

text \<open>The request as the hasher sees it when it looks at the features from number \<open>d\<close> on\<close>

definition features_from :: "nat \<Rightarrow> request \<Rightarrow> request" where
  "features_from d r = r\<lparr>mm_features := drop d (mm_features r)\<rparr>"

lemma features_from_0 [simp]: "features_from 0 r = r"
  by (simp add: features_from_def)

lemma features_from_tokens [simp]: "block_tokens (features_from d r) hbs i = block_tokens r hbs i"
  by (simp add: features_from_def block_tokens_def)

lemma generate_keys_eq:
  assumes "memo_ok digest r" and "mm_ok (mm_features r)" and "0 < hbs"
    and "mm_idx_ok d (mm_features r) (int k * hbs) idx"
  shows "\<exists>r' idx'. generate_block_hash_extra_keys digest r (int k * hbs) (int k * hbs + hbs) idx =
      Inr (r', block_keys digest (features_from d r) hbs k, idx')
    \<and> same_request r r' \<and> memo_ok digest r' \<and>
      mm_idx_ok d (mm_features r) (int (Suc k) * hbs) idx'"
proof -
  obtain idx' where
    "gen_mm_extra_hash_keys (mm_features r) (int k * hbs) (int k * hbs + hbs) idx =
       Inr (mm_keys (drop d (mm_features r)) (int k * hbs) (int k * hbs + hbs), idx')"
    "mm_idx_ok d (mm_features r) (int k * hbs + hbs) idx'"
    using gen_mm_extra_eq [OF assms(2) _ assms(4), of "int k * hbs + hbs"] assms(3) by auto
  moreover have "int (Suc k) * hbs = int k * hbs + hbs" by (simp add: algebra_simps)
  moreover obtain r' where
    "gen_prompt_embeds_extra_hash_keys digest r (int k * hbs) (int k * hbs + hbs) =
      (r', case prompt_embeds r of None \<Rightarrow> []
         | Some x \<Rightarrow> [KBytes (digest (py_slice x (int k * hbs) (int k * hbs + hbs)))])"
    "same_request r r'" "memo_ok digest r'"
    using embeds_keys_eq [OF assms(1)] by blast
  ultimately show ?thesis
    by (auto simp: generate_block_hash_extra_keys_def block_keys_def features_from_def
        gen_lora_extra_hash_keys_def salt_keys_def Let_def)
qed

lemma chain_hash_step:
  "hash_block_tokens H none (chain_prev digest H none hbs r k) (block_tokens r hbs k)
     (block_keys digest r hbs k) = chain_hash digest H none hbs r k"
  by (cases k) (simp_all add: chain_prev_def)

lemma same_request_chain:
  assumes "same_request r r'"
  shows "chain_hash digest H none hbs r' i = chain_hash digest H none hbs r i"
  using same_request_fields [OF assms] by (induction i) simp_all

lemma div_le_imp_less:
  fixes n :: int
  assumes "n div b \<le> k" and "0 < b"
  shows "n < k * b + b"
proof -
  have "n = n div b * b + n mod b" by simp
  moreover have "n div b * b \<le> k * b" using assms by (intro mult_right_mono) simp_all
  moreover have "n mod b < b" using assms(2) by (rule pos_mod_bound)
  ultimately show ?thesis by linarith
qed

lemma less_div_imp_le:
  fixes n :: int
  assumes "k < n div b" and "0 < b"
  shows "k * b + b \<le> n"
proof -
  have "n = n div b * b + n mod b" by simp
  moreover have "(k + 1) * b \<le> n div b * b" using assms by (intro mult_right_mono) simp_all
  moreover have "0 \<le> n mod b" using assms(2) by (rule pos_mod_sign)
  moreover have "(k + 1) * b = k * b + b" by (simp add: algebra_simps)
  ultimately show ?thesis by linarith
qed

text \<open>
  A list of hashes that continues a chain: each element is the hash of the element before it
  (\<open>parent\<close> for the first), the tokens of its block and the extra keys of its block.
\<close>

fun linked ::
  "(bytes list \<Rightarrow> bytes) \<Rightarrow> hash_fn \<Rightarrow> bytes \<Rightarrow> int \<Rightarrow> request \<Rightarrow> nat \<Rightarrow> block_hash option
     \<Rightarrow> block_hash list \<Rightarrow> bool" where
  "linked digest H none hbs r k parent [] = True"
| "linked digest H none hbs r k parent (h # hs) =
     (h = hash_block_tokens H none parent (block_tokens r hbs k) (block_keys digest r hbs k)
      \<and> linked digest H none hbs r (Suc k) (Some h) hs)"

lemma linked_cong:
  assumes "\<And>i. k \<le> i \<Longrightarrow> i < k + length hs \<Longrightarrow>
      block_tokens r' hbs i = block_tokens r hbs i \<and> block_keys digest r' hbs i = block_keys digest r hbs i"
  shows "linked digest H none hbs r' k parent hs = linked digest H none hbs r k parent hs"
  using assms by (induction hs arbitrary: k parent) auto

lemma linked_chain:
  "linked digest H none hbs r k (chain_prev digest H none hbs r k) hs \<longleftrightarrow>
     hs = map (chain_hash digest H none hbs r) [k..<k + length hs]"
proof (induction hs arbitrary: k)
  case (Cons h hs)
  have "Some (chain_hash digest H none hbs r k) = chain_prev digest H none hbs r (Suc k)"
    by (simp add: chain_prev_def)
  moreover have "[k..<k + length (h # hs)] = k # [Suc k..<Suc k + length hs]"
    by (simp add: upt_conv_Cons del: upt_Suc)
  ultimately show ?case
    using Cons.IH [of "Suc k"] by (simp only: linked.simps chain_hash_step list.map list.inject) auto
qed simp

text \<open>
  The loop, from block \<open>k\<close> on: it returns, and appends a chain of the hashes of the full blocks,
  with the keys of the features it looks at.
\<close>

lemma hash_blocks_from_eq:
  assumes "0 < hbs" and "memo_ok digest r" and "mm_ok (mm_features r)"
    and "mm_idx_ok d (mm_features r) (int k * hbs) idx"
    and "n = nat (num_tokens r div hbs)" and "0 \<le> num_tokens r"
  shows "\<exists>r' hs. hash_blocks_from digest H none hbs r (int k * hbs) idx parent acc =
      Some (Inr (r', acc @ hs)) \<and> same_request r r' \<and> memo_ok digest r' \<and> length hs = n - k
    \<and> linked digest H none hbs (features_from d r) k parent hs"
  using assms
proof (induction "n - k" arbitrary: k r idx parent acc)
  case 0
  then have "num_tokens r div hbs \<le> int k" by simp
  with 0 have "num_tokens r < int k * hbs + hbs" using div_le_imp_less by blast
  with 0 show ?case by (subst hash_blocks_from.simps) (simp add: Let_def)
next
  case (Suc m)
  then have "int k < num_tokens r div hbs" by linarith
  then have le: "int k * hbs + hbs \<le> num_tokens r"
    using Suc.prems(1) by (rule less_div_imp_le)
  obtain r' idx' where g: "generate_block_hash_extra_keys digest r (int k * hbs)
      (int k * hbs + hbs) idx = Inr (r', block_keys digest (features_from d r) hbs k, idx')"
    and r': "same_request r r'" "memo_ok digest r'"
      "mm_idx_ok d (mm_features r) (int (Suc k) * hbs) idx'"
    using generate_keys_eq [OF Suc.prems(2,3,1,4)] by blast
  define h where "h = hash_block_tokens H none parent (block_tokens r hbs k)
      (block_keys digest (features_from d r) hbs k)"
  obtain r'' hs where rec: "hash_blocks_from digest H none hbs r' (int (Suc k) * hbs) idx' (Some h) (acc @ [h]) =
      Some (Inr (r'', (acc @ [h]) @ hs))" and r'': "same_request r' r''" "memo_ok digest r''" "length hs = n - Suc k"
      "linked digest H none hbs (features_from d r') (Suc k) (Some h) hs"
  proof -
    note IH = Suc.hyps(1) [of "Suc k" r' idx' "Some h" "acc @ [h]"]
    have "m = n - Suc k" using Suc.hyps(2) by simp
    from IH [OF this Suc.prems(1) r'(2)] Suc.prems(3,5,6) r'(3) show thesis
      by (auto simp: same_request_fields [OF r'(1)] intro: that)
  qed
  obtain mem where "r' = r\<lparr>prompt_embeds_hashes := mem\<rparr>" using r'(1) by (auto simp: same_request_def)
  then have "features_from d r' = features_from d r\<lparr>prompt_embeds_hashes := mem\<rparr>" by (simp add: features_from_def)
  then have same: "same_request (features_from d r) (features_from d r')" unfolding same_request_def by blast
  have links: "linked digest H none hbs (features_from d r) k parent (h # hs)"
    using r''(4) linked_cong [of "Suc k" hs "features_from d r'" hbs "features_from d r" digest H none "Some h"]
    by (simp add: h_def same_request_fields [OF same] same_request_fields [OF r'(1)])
  have start: "int (Suc k) * hbs = int k * hbs + hbs" by (simp add: algebra_simps)
  have "hash_blocks_from digest H none hbs r (int k * hbs) idx parent acc = Some (Inr (r'', acc @ h # hs))"
    using rec le h_def unfolding start
    by (subst hash_blocks_from.simps) (simp add: Let_def g block_tokens_def)
  with links show ?case
    using same_request_trans [OF r'(1) r''(1)] r''(2,3) Suc.hyps(2) by (intro exI [of _ r''] exI [of _ "h # hs"]) auto
qed

text \<open>
  What a call sees: a request without hashes with all its multi-modal inputs, one that already
  has hashes with the last input only.
\<close>

definition first_seen_feature :: "request \<Rightarrow> nat" where
  "first_seen_feature r = (if block_hashes r = [] then 0 else length (mm_features r) - 1)"

definition parent_hash :: "request \<Rightarrow> block_hash option" where
  "parent_hash r = (if block_hashes r = [] then None else Some (last (block_hashes r)))"

text \<open>All inputs but the last end before the blocks that are still to be hashed.\<close>

definition resumes_well :: "int \<Rightarrow> request \<Rightarrow> bool" where
  "resumes_well hbs r \<longleftrightarrow> block_hashes r = [] \<or>
     (\<forall>f\<in>set (butlast (mm_features r)). mm_offset f + mm_length f \<le> int (length (block_hashes r)) * hbs)"

lemma hasher_links:
  assumes "0 < hbs" and "0 \<le> num_tokens r" and "mm_ok (mm_features r)" and "memo_ok digest r"
  shows "\<exists>r' hs. request_block_hasher digest H none hbs r = Some (Inr (r', hs)) \<and> same_request r r'
    \<and> memo_ok digest r' \<and> length hs = nat (num_tokens r div hbs) - length (block_hashes r)
    \<and> linked digest H none hbs (features_from (first_seen_feature r) r) (length (block_hashes r)) (parent_hash r) hs"
proof (cases "int (length (block_hashes r)) * hbs + hbs > num_tokens r")
  case True
  have "nat (num_tokens r div hbs) \<le> length (block_hashes r)"
    using less_div_imp_le [of "int (length (block_hashes r))" "num_tokens r" hbs] assms(1) True by linarith
  with True assms(4) show ?thesis by (simp add: request_block_hasher_def)
next
  case False
  have "mm_idx_ok (first_seen_feature r) (mm_features r) (int (length (block_hashes r)) * hbs)
      (if int (length (block_hashes r)) * hbs > 0 then - 1 else 0)"
    using assms(1) by (cases "mm_features r") (auto simp: mm_idx_ok_def first_seen_feature_def)
  from hash_blocks_from_eq [OF assms(1,4,3) this refl assms(2), of H none "parent_hash r" "[]"] False
  show ?thesis by (simp add: request_block_hasher_def Let_def parent_hash_def)
qed

lemma resumed_keys:
  assumes "mm_ok (mm_features r)" and "resumes_well hbs r" and "0 < hbs" and "length (block_hashes r) \<le> i"
  shows "block_keys digest (features_from (first_seen_feature r) r) hbs i = block_keys digest r hbs i"
proof (cases "block_hashes r = [] \<or> mm_features r = []")
  case False
  let ?f = "mm_features r" and ?s = "int i * hbs"
  have le: "int (length (block_hashes r)) * hbs \<le> ?s" using assms(3,4) by (intro mult_right_mono) auto
  have "length (butlast ?f) \<le> mm_passed (butlast ?f @ [last ?f]) ?s"
    using assms(2) False le
    unfolding mm_passed_def resumes_well_def by (subst takeWhile_append2) fastforce+
  then have "length ?f - 1 \<le> mm_passed ?f ?s" using False by simp
  from mm_keys_drop [OF assms(1) this] False show ?thesis
    by (simp add: block_keys_def features_from_def first_seen_feature_def gen_lora_extra_hash_keys_def
        salt_keys_def Let_def)
qed (auto simp: first_seen_feature_def features_from_def block_keys_def gen_lora_extra_hash_keys_def
  salt_keys_def Let_def)

lemma hasher_continues_chain:
  assumes "0 < hbs" and "0 \<le> num_tokens r" and "mm_ok (mm_features r)" and "memo_ok digest r"
    and "block_hashes r = map (chain_hash digest H none hbs r) [0..<length (block_hashes r)]" and "resumes_well hbs r"
  shows "\<exists>r'. request_block_hasher digest H none hbs r =
      Some (Inr (r', map (chain_hash digest H none hbs r) [length (block_hashes r)..<nat (num_tokens r div hbs)]))
    \<and> same_request r r' \<and> memo_ok digest r'"
proof -
  let ?k = "length (block_hashes r)"
  obtain r' hs where run: "request_block_hasher digest H none hbs r = Some (Inr (r', hs))" "same_request r r'" "memo_ok digest r'"
    and len: "length hs = nat (num_tokens r div hbs) - ?k"
    and seen: "linked digest H none hbs (features_from (first_seen_feature r) r) ?k (parent_hash r) hs"
    using hasher_links [OF assms(1-4)] by blast
  have "parent_hash r = chain_prev digest H none hbs r ?k"
  proof (cases "block_hashes r = []")
    case False
    then have "last (block_hashes r) = chain_hash digest H none hbs r (?k - 1)"
      by (subst (1) assms(5)) (simp add: last_map)
    with False show ?thesis by (simp add: parent_hash_def chain_prev_def)
  qed (simp add: parent_hash_def chain_prev_def)
  moreover have "linked digest H none hbs r ?k (parent_hash r) hs"
    using seen by (subst (asm) linked_cong) (use resumed_keys [OF assms(3,6,1)] in auto)
  ultimately have "hs = map (chain_hash digest H none hbs r) [?k..<?k + length hs]"
    using linked_chain by metis
  then have "hs = map (chain_hash digest H none hbs r) [?k..<nat (num_tokens r div hbs)]"
    by (cases "?k \<le> nat (num_tokens r div hbs)") (simp_all add: len)
  with run show ?thesis by blast
qed

text \<open>
  C2. The hasher, on any request whose inputs are in order and whose memo of digests is right:
  it returns, with as many hashes as there are full blocks without one, chained from the last
  hash the request has; it changes nothing of the request but the memo.  A call on a request
  without hashes gives every block the keys of all multi-modal inputs it overlaps; a call on
  a request that has hashes looks at the last input only.  So where all other inputs end before
  the blocks still to be hashed, hashing in several steps, as tokens arrive, gives the same
  list as hashing all at once; where one does not, its key is missing
  (\<open>incremental_hash_drops_features\<close> below).
\<close>

theorem request_block_hasher_correct:
  assumes "0 < hbs" and "0 \<le> num_tokens r" and "mm_ok (mm_features r)" and "memo_ok digest r"
  shows "\<exists>r' hs. request_block_hasher digest H none hbs r = Some (Inr (r', hs)) \<and> same_request r r'
    \<and> length hs = nat (num_tokens r div hbs) - length (block_hashes r)
    \<and> linked digest H none hbs
        (r\<lparr>mm_features := (if block_hashes r = [] then mm_features r
                            else drop (length (mm_features r) - 1) (mm_features r))\<rparr>)
        (length (block_hashes r)) (if block_hashes r = [] then None else Some (last (block_hashes r))) hs
    \<and> (block_hashes r = map (chain_hash digest H none hbs r) [0..<length (block_hashes r)] \<and> resumes_well hbs r \<longrightarrow>
         hs = map (chain_hash digest H none hbs r) [length (block_hashes r)..<nat (num_tokens r div hbs)])"
proof -
  have "features_from (first_seen_feature r) r = r\<lparr>mm_features := (if block_hashes r = [] then mm_features r
      else drop (length (mm_features r) - 1) (mm_features r))\<rparr>"
    by (simp add: features_from_def first_seen_feature_def)
  with hasher_links [OF assms, of H none] hasher_continues_chain [OF assms, of H none] show ?thesis
    unfolding parent_hash_def by fastforce
qed

definition sample_request :: "int list \<Rightarrow> block_hash list \<Rightarrow> mm_feature list \<Rightarrow> request" where
  "sample_request toks hs feats =
     \<lparr>request_id = ''r'', block_hashes = hs, all_token_ids = toks, num_tokens = int (length toks),
      num_prompt_tokens = int (length toks), shared_prefix_boundary = 0, mm_features = feats,
      lora_req = None, cache_salt = None, prompt_embeds = None, prompt_embeds_hashes = []\<rparr>"

definition sample_hash :: hash_fn where
  "sample_hash x = (case x of (p, toks, keys) \<Rightarrow> 1 # map word_of_int toks @ p)"

theorem request_block_hasher_correct_witness:
  "\<exists>r'. request_block_hasher concat sample_hash [] 2
      (sample_request [7, 8, 9, 4, 5] [[1, 7, 8]] []) = Some (Inr (r', [[1, 9, 4, 1, 7, 8]]))"
proof -
  let ?r = "sample_request [7, 8, 9, 4, 5] [[1, 7, 8]] []"
  have fields: "block_hashes ?r = [[1, 7, 8]]" "num_tokens ?r = 5" "mm_features ?r = []"
    by (simp_all add: sample_request_def)
  have c: "chain_hash concat sample_hash [] 2 ?r 0 = [1, 7, 8]"
    by (simp add: hash_block_tokens_def block_tokens_def py_slice_def sample_request_def sample_hash_def)
  then have c1: "chain_hash concat sample_hash [] 2 ?r 1 = [1, 9, 4, 1, 7, 8]"
    by (simp add: hash_block_tokens_def block_tokens_def py_slice_def sample_request_def sample_hash_def)
  have "mm_ok (mm_features ?r)" "memo_ok concat ?r" "resumes_well 2 ?r"
    by (simp_all add: fields mm_ok_def resumes_well_def) (simp add: memo_ok_def sample_request_def)
  moreover have "block_hashes ?r = map (chain_hash concat sample_hash [] 2 ?r) [0..<length (block_hashes ?r)]"
    using c by (simp add: fields)
  moreover have "[length (block_hashes ?r)..<nat (num_tokens ?r div 2)] = [1]" by (simp add: fields upt_rec)
  ultimately show ?thesis
    using request_block_hasher_correct [of 2 ?r concat sample_hash "[]"] c1 by (auto simp: fields)
qed

section \<open>A hash identifies its prefix\<close>

definition hash_input ::
  "(bytes list \<Rightarrow> bytes) \<Rightarrow> hash_fn \<Rightarrow> bytes \<Rightarrow> int \<Rightarrow> request \<Rightarrow> nat
     \<Rightarrow> bytes \<times> int list \<times> extra_key list option" where
  "hash_input digest H none hbs r i =
     (case i of 0 \<Rightarrow> none | Suc j \<Rightarrow> chain_hash digest H none hbs r j,
      block_tokens r hbs i, block_keys digest r hbs i)"

lemma chain_hash_input:
  assumes "\<And>x. H x \<noteq> []"
  shows "chain_hash digest H none hbs r i = H (hash_input digest H none hbs r i)"
  by (induction i) (simp_all add: hash_input_def hash_block_tokens_def assms)

text \<open>
  Where the hash function does not collide on the blocks of two requests (and yields neither
  the empty string nor the seed of the first block), equal chain hashes sit at the same block
  index, and all blocks up to it have equal tokens and equal extra keys.
\<close>

lemma chain_hash_inject:
  assumes "inj_on H (hash_input digest H none hbs r ` {..i} \<union> hash_input digest H none hbs r' ` {..j})"
    and "\<And>x. H x \<noteq> []" and "\<And>x. H x \<noteq> none"
    and "chain_hash digest H none hbs r i = chain_hash digest H none hbs r' j"
  shows "i = j \<and> (\<forall>m\<le>i. block_tokens r hbs m = block_tokens r' hbs m \<and>
    block_keys digest r hbs m = block_keys digest r' hbs m)"
  using assms(1,4)
proof (induction i arbitrary: j)
  case 0
  then have "hash_input digest H none hbs r 0 = hash_input digest H none hbs r' j"
    by (simp add: chain_hash_input [OF assms(2)] inj_on_def)
  then show ?case
    using assms(3) [THEN not_sym]
    by (cases j) (auto simp: hash_input_def chain_hash_input [OF assms(2)])
next
  case (Suc i)
  then have eq: "hash_input digest H none hbs r (Suc i) = hash_input digest H none hbs r' j"
    by (auto simp: chain_hash_input [OF assms(2)] dest: inj_onD)
  show ?case
  proof (cases j)
    case 0
    with eq assms(3) show ?thesis
      by (auto simp: hash_input_def chain_hash_input [OF assms(2)])
  next
    case (Suc j')
    have "inj_on H (hash_input digest H none hbs r ` {..i} \<union> hash_input digest H none hbs r' ` {..j'})"
      using Suc.prems(1) by (rule inj_on_subset) (auto simp: Suc)
    moreover have "chain_hash digest H none hbs r i = chain_hash digest H none hbs r' j'"
      using eq by (simp add: hash_input_def Suc)
    ultimately have "i = j' \<and> (\<forall>m\<le>i. block_tokens r hbs m = block_tokens r' hbs m \<and>
        block_keys digest r hbs m = block_keys digest r' hbs m)"
      by (rule Suc.IH)
    moreover have "block_tokens r hbs (Suc i) = block_tokens r' hbs (Suc j')"
      "block_keys digest r hbs (Suc i) = block_keys digest r' hbs (Suc j')"
      using eq by (simp_all add: hash_input_def Suc)
    ultimately show ?thesis unfolding Suc le_Suc_eq by metis
  qed
qed

lemma chain_hash_prefix:
  assumes "\<forall>m\<le>i. block_tokens r hbs m = block_tokens r' hbs m \<and> block_keys digest r hbs m = block_keys digest r' hbs m"
  shows "chain_hash digest H none hbs r i = chain_hash digest H none hbs r' i"
  using assms by (induction i) simp_all

lemma block_tokens_prefix:
  assumes "0 < hbs"
  shows "(\<forall>m\<le>i. block_tokens r hbs m = block_tokens r' hbs m) \<longleftrightarrow>
    take (nat (int (Suc i) * hbs)) (all_token_ids r) = take (nat (int (Suc i) * hbs)) (all_token_ids r')"
proof -
  define h where "h = nat hbs"
  have slice: "block_tokens q hbs m = take h (drop (m * h) (all_token_ids q))" for q m
    using assms by (simp add: block_tokens_def py_slice_def h_def nat_mult_distrib nat_add_distrib)
  have split: "take (n + h) xs = take (n + h) ys \<longleftrightarrow> take n xs = take n ys \<and> take h (drop n xs) = take h (drop n ys)"
    for n and xs ys :: "int list"
  proof
    assume eq: "take (n + h) xs = take (n + h) ys"
    then have "take n (take (n + h) xs) = take n (take (n + h) ys)"
      "drop n (take (n + h) xs) = drop n (take (n + h) ys)" by simp_all
    then show "take n xs = take n ys \<and> take h (drop n xs) = take h (drop n ys)" by (simp add: take_drop add.commute)
  qed (simp add: take_add)
  have "(\<forall>m\<le>i. take h (drop (m * h) xs) = take h (drop (m * h) ys)) \<longleftrightarrow> take (Suc i * h) xs = take (Suc i * h) ys"
    for xs ys :: "int list"
  proof (induction i)
    case (Suc i)
    have "(\<forall>m\<le>Suc i. take h (drop (m * h) xs) = take h (drop (m * h) ys)) \<longleftrightarrow>
        take (Suc i * h) xs = take (Suc i * h) ys \<and> take h (drop (Suc i * h) xs) = take h (drop (Suc i * h) ys)"
      unfolding Suc.IH [symmetric] by (metis le_Suc_eq)
    also have "\<dots> \<longleftrightarrow> take (Suc i * h + h) xs = take (Suc i * h + h) ys" by (rule split [symmetric])
    also have "Suc i * h + h = Suc (Suc i) * h" by simp
    finally show ?case .
  qed simp
  moreover have "nat (int (Suc i) * hbs) = Suc i * h" by (simp add: h_def nat_mult_distrib del: of_nat_Suc)
  ultimately show ?thesis by (simp only: slice)
qed

section \<open>A request that is hashed while its tokens arrive\<close>

definition more_tokens :: "int list \<Rightarrow> request \<Rightarrow> request" where
  "more_tokens toks r = r\<lparr>all_token_ids := all_token_ids r @ toks, num_tokens := num_tokens r + int (length toks)\<rparr>"

text \<open>
  The requests whose hashes come from the hasher: a first call on a request without hashes, and
  later calls when tokens have been appended, each of which adds its hashes to the list.  A later
  call must find all inputs but the last ended.
\<close>

inductive hashed :: "(bytes list \<Rightarrow> bytes) \<Rightarrow> hash_fn \<Rightarrow> bytes \<Rightarrow> int \<Rightarrow> request \<Rightarrow> bool"
  for digest H none hbs where
  First_call: "block_hashes r = [] \<Longrightarrow> num_tokens r = int (length (all_token_ids r)) \<Longrightarrow> mm_ok (mm_features r)
    \<Longrightarrow> memo_ok digest r \<Longrightarrow> request_block_hasher digest H none hbs r = Some (Inr (r', hs))
    \<Longrightarrow> hashed digest H none hbs (r'\<lparr>block_hashes := hs\<rparr>)"
| Later_call: "hashed digest H none hbs r \<Longrightarrow> resumes_well hbs r
    \<Longrightarrow> request_block_hasher digest H none hbs (more_tokens toks r) = Some (Inr (r', hs))
    \<Longrightarrow> hashed digest H none hbs (r'\<lparr>block_hashes := block_hashes r' @ hs\<rparr>)"

definition chain_complete :: "(bytes list \<Rightarrow> bytes) \<Rightarrow> hash_fn \<Rightarrow> bytes \<Rightarrow> int \<Rightarrow> request \<Rightarrow> bool" where
  "chain_complete digest H none hbs r \<longleftrightarrow> num_tokens r = int (length (all_token_ids r)) \<and> mm_ok (mm_features r)
     \<and> memo_ok digest r \<and> block_hashes r = map (chain_hash digest H none hbs r) [0..<nat (num_tokens r div hbs)]"

lemma more_tokens_fields [simp]:
  "mm_features (more_tokens toks r) = mm_features r" "block_hashes (more_tokens toks r) = block_hashes r"
  "all_token_ids (more_tokens toks r) = all_token_ids r @ toks"
  "num_tokens (more_tokens toks r) = num_tokens r + int (length toks)"
  "block_keys digest (more_tokens toks r) hbs i = block_keys digest r hbs i"
  "memo_ok digest (more_tokens toks r) = memo_ok digest r"
  "resumes_well hbs (more_tokens toks r) = resumes_well hbs r"
  by (simp_all add: more_tokens_def block_keys_def memo_ok_def resumes_well_def gen_lora_extra_hash_keys_def
      salt_keys_def Let_def)

lemma more_tokens_chain:
  assumes "0 < hbs" and "i < nat (num_tokens r div hbs)" and "num_tokens r = int (length (all_token_ids r))"
  shows "chain_hash digest H none hbs (more_tokens toks r) i = chain_hash digest H none hbs r i"
proof -
  have "int i * hbs + hbs \<le> num_tokens r" using assms(1,2) by (intro less_div_imp_le) linarith+
  then have "nat (int (Suc i) * hbs) \<le> length (all_token_ids r)" using assms(1,3) by (simp add: algebra_simps)
  then have "\<forall>m\<le>i. block_tokens (more_tokens toks r) hbs m = block_tokens r hbs m"
    by (subst block_tokens_prefix [OF assms(1)]) simp
  then show ?thesis by (intro chain_hash_prefix) simp
qed

lemma chain_complete_store:
  assumes "num_tokens r = int (length (all_token_ids r))" and "mm_ok (mm_features r)"
    and "same_request r r'" and "memo_ok digest r'"
    and "hs = map (chain_hash digest H none hbs r) [0..<nat (num_tokens r div hbs)]"
  shows "chain_complete digest H none hbs (r'\<lparr>block_hashes := hs\<rparr>)"
proof -
  obtain mem where r': "r' = r\<lparr>prompt_embeds_hashes := mem\<rparr>" using assms(3) by (auto simp: same_request_def)
  have "chain_hash digest H none hbs (r'\<lparr>block_hashes := hs\<rparr>) i = chain_hash digest H none hbs r i" for i
    by (rule chain_hash_prefix)
      (simp add: r' block_tokens_def block_keys_def gen_lora_extra_hash_keys_def salt_keys_def Let_def)
  then show ?thesis using assms(1,2,4,5) by (simp add: chain_complete_def r' memo_ok_def)
qed

lemma hashed_complete:
  assumes "hashed digest H none hbs r" and "0 < hbs"
  shows "chain_complete digest H none hbs r"
  using assms(1)
proof induction
  case (First_call r r' hs)
  have nonneg: "0 \<le> num_tokens r" using First_call(2) by simp
  from hasher_continues_chain [OF assms(2) nonneg First_call(3,4), of H none] First_call(1,5)
  have "hs = map (chain_hash digest H none hbs r) [0..<nat (num_tokens r div hbs)]"
    "same_request r r'" "memo_ok digest r'" by (auto simp: resumes_well_def)
  then show ?case by (intro chain_complete_store [OF First_call(2,3)])
next
  case (Later_call r toks r' hs)
  let ?q = "more_tokens toks r" and ?n = "nat (num_tokens r div hbs)"
  note r = Later_call.IH [unfolded chain_complete_def]
  have old: "block_hashes r = map (chain_hash digest H none hbs ?q) [0..<?n]"
    using r more_tokens_chain [OF assms(2), of _ r digest H none toks] by simp
  then have len: "length (block_hashes r) = ?n" by simp
  have le: "?n \<le> nat (num_tokens ?q div hbs)"
    using assms(2) by (intro nat_mono zdiv_mono1) simp_all
  have nonneg: "0 \<le> num_tokens ?q" using r by simp
  have ok: "mm_ok (mm_features ?q)" "memo_ok digest ?q" "resumes_well hbs ?q" using r Later_call.hyps(2) by simp_all
  have chain: "block_hashes ?q = map (chain_hash digest H none hbs ?q) [0..<length (block_hashes ?q)]"
    unfolding more_tokens_fields len by (rule old)
  from hasher_continues_chain [OF assms(2) nonneg ok(1,2) chain ok(3)] Later_call.hyps(3)
  have hs: "hs = map (chain_hash digest H none hbs ?q) [?n..<nat (num_tokens ?q div hbs)]"
    and q: "same_request ?q r'" "memo_ok digest r'" by (auto simp: len)
  have "block_hashes r' @ hs = map (chain_hash digest H none hbs ?q) [0..<nat (num_tokens ?q div hbs)]"
  proof -
    have "[0..<nat (num_tokens ?q div hbs)] = [0..<?n] @ [?n..<nat (num_tokens ?q div hbs)]"
      using le upt_add_eq_append [of 0 ?n "nat (num_tokens ?q div hbs) - ?n"] by simp
    then show ?thesis using old hs by (simp only: map_append same_request_fields [OF q(1)] more_tokens_fields)
  qed
  then show ?case using r q by (intro chain_complete_store [of ?q]) simp_all
qed

lemma hashed_hashes_separate:
  assumes "0 < hbs" and "hashed digest H none hbs r" and "hashed digest H none hbs r'"
    and "\<And>x. H x \<noteq> []" and "\<And>x. H x \<noteq> none"
    and "inj_on H (hash_input digest H none hbs r ` {..i} \<union> hash_input digest H none hbs r' ` {..j})"
    and "i < length (block_hashes r)" and "j < length (block_hashes r')"
  shows "block_hashes r ! i = block_hashes r' ! j \<longleftrightarrow>
    i = j \<and> take (nat (int (Suc i) * hbs)) (all_token_ids r) = take (nat (int (Suc i) * hbs)) (all_token_ids r')
    \<and> (\<forall>m\<le>i. block_keys digest r hbs m = block_keys digest r' hbs m)"
proof -
  have nth: "block_hashes q ! m = chain_hash digest H none hbs q m"
    if "hashed digest H none hbs q" "m < length (block_hashes q)" for q m
  proof -
    have "block_hashes q = map (chain_hash digest H none hbs q) [0..<nat (num_tokens q div hbs)]"
      using hashed_complete [OF that(1) assms(1)] unfolding chain_complete_def by blast
    then show ?thesis using that(2) by (metis add.left_neutral diff_zero length_map length_upt nth_map_upt)
  qed
  have "chain_hash digest H none hbs r i = chain_hash digest H none hbs r' j \<longleftrightarrow>
    i = j \<and> (\<forall>m\<le>i. block_tokens r hbs m = block_tokens r' hbs m \<and> block_keys digest r hbs m = block_keys digest r' hbs m)"
    using chain_hash_inject [OF assms(6,4,5)] chain_hash_prefix by metis
  then show ?thesis
    using block_tokens_prefix [OF assms(1), of i r r'] nth assms(2,3,7,8) by auto
qed

text \<open>
  C3. The hashes that the hasher gives a request, as its tokens arrive, fingerprint its prefixes:
  for two requests hashed so (each later call finding all multi-modal inputs but the last ended),
  and a hash function that does not collide on their blocks and yields neither the empty string
  nor the seed of the first block, two hashes are equal just when they stand at the same block
  index and the requests agree on all tokens up to the end of that block and on the extra keys
  of every block up to it.
\<close>

theorem block_hash_identifies_prefix:
  assumes "0 < hbs" and "hashed digest H none hbs r" and "hashed digest H none hbs r'"
    and "\<And>x. H x \<noteq> []" and "\<And>x. H x \<noteq> none"
    and "inj_on H (hash_input digest H none hbs r ` {..i} \<union> hash_input digest H none hbs r' ` {..j})"
    and "i < length (block_hashes r)" and "j < length (block_hashes r')"
  shows "block_hashes r ! i = block_hashes r' ! j \<longleftrightarrow>
    i = j \<and> take (nat (int (Suc i) * hbs)) (all_token_ids r) = take (nat (int (Suc i) * hbs)) (all_token_ids r')
    \<and> (\<forall>m\<le>i. block_keys digest r hbs m = block_keys digest r' hbs m)"
  using assms by (rule hashed_hashes_separate)

text \<open>A request hashed in two steps and one hashed in one step\<close>

lemma sample_hash_nonempty: "sample_hash x \<noteq> []"
  by (simp add: sample_hash_def split: prod.splits)

definition two_step_request :: request where
  "two_step_request = sample_request [7, 8, 9, 4] [[1, 7, 8], [1, 9, 4, 1, 7, 8]] []\<lparr>num_prompt_tokens := 2\<rparr>"

definition one_step_request :: request where
  "one_step_request = sample_request [7, 8, 9, 4, 5] [[1, 7, 8], [1, 9, 4, 1, 7, 8]] []"

lemma sample_hashed:
  "hashed concat sample_hash [] 2 two_step_request" "hashed concat sample_hash [] 2 one_step_request"
proof -
  note run = request_block_hasher_def sample_request_def hash_blocks_from.simps generate_block_hash_extra_keys_def
    gen_mm_extra_hash_keys_def gen_prompt_embeds_extra_hash_keys_def gen_lora_extra_hash_keys_def salt_keys_def
    py_slice_def hash_block_tokens_def sample_hash_def more_tokens_def Let_def
  let ?r1 = "sample_request [7, 8] [] []" and ?r2 = "sample_request [7, 8] [[1, 7, 8]] []"
  have "hashed concat sample_hash [] 2 (?r1\<lparr>block_hashes := [[1, 7, 8]]\<rparr>)"
    by (rule First_call [of ?r1]) (simp_all add: run mm_ok_def memo_ok_def)
  then have "hashed concat sample_hash [] 2 ?r2" by (simp add: sample_request_def)
  moreover have "resumes_well 2 ?r2" by (simp add: resumes_well_def sample_request_def)
  moreover have "request_block_hasher concat sample_hash [] 2 (more_tokens [9, 4] ?r2)
      = Some (Inr (sample_request [7, 8, 9, 4] [[1, 7, 8]] []\<lparr>num_prompt_tokens := 2\<rparr>, [[1, 9, 4, 1, 7, 8]]))"
    by (simp add: run)
  ultimately have "hashed concat sample_hash [] 2
     (sample_request [7, 8, 9, 4] [[1, 7, 8]] []\<lparr>num_prompt_tokens := 2\<rparr>\<lparr>block_hashes :=
        block_hashes (sample_request [7, 8, 9, 4] [[1, 7, 8]] []\<lparr>num_prompt_tokens := 2\<rparr>) @ [[1, 9, 4, 1, 7, 8]]\<rparr>)"
    by (rule Later_call)
  then show "hashed concat sample_hash [] 2 two_step_request"
    by (simp add: sample_request_def two_step_request_def)
  let ?q = "sample_request [7, 8, 9, 4, 5] [] []"
  have "hashed concat sample_hash [] 2 (?q\<lparr>block_hashes := [[1, 7, 8], [1, 9, 4, 1, 7, 8]]\<rparr>)"
    by (rule First_call [of ?q]) (simp_all add: run mm_ok_def memo_ok_def)
  then show "hashed concat sample_hash [] 2 one_step_request"
    by (simp add: sample_request_def one_step_request_def)
qed

lemma sample_hash_inputs:
  assumes "r = two_step_request \<or> r = one_step_request"
  shows "hash_input concat sample_hash [] 2 r ` {..<2} = {([], [7, 8], None), ([1, 7, 8], [9, 4], None)}"
proof -
  have "hash_input concat sample_hash [] 2 r 0 = ([], [7, 8], None)"
    "hash_input concat sample_hash [] 2 r 1 = ([1, 7, 8], [9, 4], None)"
    using assms
    by (auto simp: hash_input_def block_tokens_def block_keys_def py_slice_def two_step_request_def
        one_step_request_def sample_request_def hash_block_tokens_def sample_hash_def
        gen_lora_extra_hash_keys_def mm_keys_def salt_keys_def Let_def)
  moreover have "{..<2} = {0, 1::nat}" by auto
  ultimately show ?thesis by (simp only: image_insert image_empty)
qed

lemma sample_hash_separates:
  "inj_on sample_hash (hash_input concat sample_hash [] 2 two_step_request ` {..<2}
     \<union> hash_input concat sample_hash [] 2 one_step_request ` {..<2})"
  by (simp add: sample_hash_inputs sample_hash_def)

theorem block_hash_identifies_prefix_witness:
  "take 4 (all_token_ids two_step_request) = take 4 (all_token_ids one_step_request)
   \<and> block_hashes two_step_request ! 1 \<noteq> block_hashes one_step_request ! 0"
proof -
  have len: "length (block_hashes two_step_request) = 2" "length (block_hashes one_step_request) = 2"
    by (simp_all add: two_step_request_def one_step_request_def sample_request_def)
  have inj: "inj_on sample_hash (hash_input concat sample_hash [] 2 two_step_request ` {..1}
     \<union> hash_input concat sample_hash [] 2 one_step_request ` {..j})" if "j < 2" for j
    using sample_hash_separates by (rule inj_on_subset) (use that in auto)
  have sep: "block_hashes two_step_request ! 1 = block_hashes one_step_request ! j \<longleftrightarrow>
      1 = j \<and> take (nat (int (Suc 1) * 2)) (all_token_ids two_step_request) = take (nat (int (Suc 1) * 2)) (all_token_ids one_step_request)
      \<and> (\<forall>m\<le>1. block_keys concat two_step_request 2 m = block_keys concat one_step_request 2 m)" if "j < 2" for j
    by (rule block_hash_identifies_prefix [OF _ sample_hashed sample_hash_nonempty sample_hash_nonempty inj])
      (use that len in simp_all)
  moreover have "block_hashes two_step_request ! 1 = block_hashes one_step_request ! 1"
    by (simp add: two_step_request_def one_step_request_def sample_request_def)
  ultimately show ?thesis using sep [of 0] sep [of 1] by simp
qed

section \<open>Where hashes do not separate requests\<close>

text \<open>
  LoRA names and cache salts enter the extra keys as plain strings, so on the first
  block a request for the adapter named \<open>s\<close> without a salt and a request for the base model
  with the salt \<open>s\<close> have the same extra keys.
\<close>

theorem lora_and_salt_keys_collide:
  "bind_res (generate_block_hash_extra_keys digest
       (r\<lparr>mm_features := [], lora_req := Some \<lparr>lora_name = c # cs, lora_adapter_id = a\<rparr>,
         cache_salt := None\<rparr>) 0 e 0) (\<lambda>(_, keys, idx). Inr (keys, idx)) =
   bind_res (generate_block_hash_extra_keys digest
       (r\<lparr>mm_features := [], lora_req := None, cache_salt := Some (c # cs)\<rparr>) 0 e 0)
       (\<lambda>(_, keys, idx). Inr (keys, idx))"
  by (auto simp: generate_block_hash_extra_keys_def gen_mm_extra_hash_keys_def
      gen_lora_extra_hash_keys_def salt_keys_def gen_prompt_embeds_extra_hash_keys_def Let_def
      split: option.splits prod.splits)

text \<open>
  Two multi-modal inputs that lie wholly in the last, still partial block of the prompt: when
  generated tokens complete the block, the hasher starts at the last input.
\<close>

definition two_image_request :: "string \<Rightarrow> bytes \<Rightarrow> int list \<Rightarrow> request" where
  "two_image_request ident h0 toks =
     sample_request toks [h0]
       [\<lparr>mm_identifier = Some ident, mm_offset = 4, mm_length = 1\<rparr>,
        \<lparr>mm_identifier = Some ''b'', mm_offset = 5, mm_length = 1\<rparr>]"

text \<open>
  Hashing in steps can lose multi-modal inputs: for a request with the hash of its first
  block and two inputs in its second, the hash of the second block covers the last input
  only, whatever the first one is, although the block contains both.
\<close>

theorem incremental_hash_drops_features:
  "request_block_hasher digest H none 4 (two_image_request ident h0 [t0, t1, t2, t3, t4, t5, t6, t7]) =
     Some (Inr (two_image_request ident h0 [t0, t1, t2, t3, t4, t5, t6, t7],
       [hash_block_tokens H none (Some h0) [t4, t5, t6, t7] (Some [KMM ''b'' 1])]))
   \<and> block_keys digest (two_image_request ident h0 [t0, t1, t2, t3, t4, t5, t6, t7]) 4 1 =
       Some [KMM ident 0, KMM ''b'' 1]"
  by (simp add: request_block_hasher_def two_image_request_def sample_request_def
      hash_blocks_from.simps generate_block_hash_extra_keys_def gen_mm_extra_hash_keys_def
      gen_prompt_embeds_extra_hash_keys_def gen_lora_extra_hash_keys_def salt_keys_def
      py_slice_def block_keys_def mm_keys_def mm_overlaps_def Let_def)

section \<open>Views\<close>

lemma bhl_get_scaled:
  assumes "0 < scale" and "0 \<le> i" and "i < bhl_len (ScaledHashes hs scale)"
  shows "bhl_get (ScaledHashes hs scale) i = Inr (hs ! nat ((i + 1) * scale - 1))"
proof -
  have le: "i * scale + scale \<le> int (length hs)"
    using less_div_imp_le [of i "int (length hs)" scale] assms by simp
  moreover have "0 \<le> i * scale" using assms by simp
  ultimately show ?thesis
    using assms(1) by (simp add: py_index_def Let_def algebra_simps)
qed

lemma bhl_from_scaled:
  assumes "0 < scale" and "0 \<le> start"
  shows "bhl_from (ScaledHashes hs scale) start =
    Inr (map (\<lambda>i. hs ! nat ((i + 1) * scale - 1)) [start..int (length hs) div scale - 1])"
  using assms bhl_get_scaled [of scale _ hs]
  by (auto simp: bhl_from_def intro!: map_res_Inr)

text \<open>
  C4. The coarser view of the hashes of a request, at \<open>scale\<close> times the size its hashes were
  computed at.  For requests hashed as their tokens arrive, the view has one hash per full coarse
  block of the tokens, iterating it from a start gives the hashes from there on, and its hashes
  fingerprint coarse prefixes: those of two requests are equal just when they stand at the same
  coarse index and the requests agree on all tokens up to the end of that coarse block and on
  the extra keys of all blocks inside it and before it.
\<close>

theorem block_hash_view_correct:
  assumes "0 < hbs" and "1 < scale" and "hashed digest H none hbs r" and "hashed digest H none hbs r'"
    and "\<And>x. H x \<noteq> []" and "\<And>x. H x \<noteq> none"
    and "inj_on H (hash_input digest H none hbs r ` {..<length (block_hashes r)}
      \<union> hash_input digest H none hbs r' ` {..<length (block_hashes r')})"
  shows "\<exists>v v'. resolve_block_hashes (RawHashes (block_hashes r)) hbs (scale * hbs) False None = Inr v
    \<and> resolve_block_hashes (RawHashes (block_hashes r')) hbs (scale * hbs) False None = Inr v'
    \<and> bhl_len v = num_tokens r div (scale * hbs)
    \<and> (\<forall>start. 0 \<le> start \<longrightarrow> (\<exists>hs. bhl_from v start = Inr hs \<and> int (length hs) = max 0 (bhl_len v - start)
         \<and> (\<forall>t<length hs. bhl_get v (start + int t) = Inr (hs ! t))))
    \<and> (\<forall>i j. 0 \<le> i \<and> i < bhl_len v \<and> 0 \<le> j \<and> j < bhl_len v' \<longrightarrow>
         (\<exists>h h'. bhl_get v i = Inr h \<and> bhl_get v' j = Inr h' \<and> (h = h' \<longleftrightarrow> i = j
            \<and> take (nat ((i + 1) * (scale * hbs))) (all_token_ids r) = take (nat ((i + 1) * (scale * hbs))) (all_token_ids r')
            \<and> (\<forall>m. int m < (i + 1) * scale \<longrightarrow> block_keys digest r hbs m = block_keys digest r' hbs m))))"
proof -
  let ?v = "ScaledHashes (block_hashes r) scale" and ?v' = "ScaledHashes (block_hashes r') scale"
  have size: "int (length (block_hashes q)) div scale = num_tokens q div (scale * hbs)"
    if "hashed digest H none hbs q" for q
  proof -
    have "num_tokens q = int (length (all_token_ids q))"
      "block_hashes q = map (chain_hash digest H none hbs q) [0..<nat (num_tokens q div hbs)]"
      using hashed_complete [OF that assms(1)] unfolding chain_complete_def by blast+
    then have "int (length (block_hashes q)) = num_tokens q div hbs"
      using assms(1) by (metis diff_zero div_int_pos_iff int_nat_eq length_map length_upt of_nat_0_le_iff less_imp_le)
    then show ?thesis using assms(1,2) by (simp add: zdiv_zmult2_eq mult.commute [of scale])
  qed
  have res: "resolve_block_hashes (RawHashes hs) hbs (scale * hbs) False None = Inr (ScaledHashes hs scale)" for hs
    using assms(1,2) by (simp add: resolve_block_hashes_def keeps_fine_hashes_def with_block_size_def)
  have fine: "nat ((i + 1) * scale - 1) < length hs" "int (Suc (nat ((i + 1) * scale - 1))) = (i + 1) * scale"
    if "0 \<le> i" "i < int (length hs) div scale" for i and hs :: "block_hash list"
  proof -
    have "i * scale + scale \<le> int (length hs)" using that(2) assms(2) by (intro less_div_imp_le) auto
    moreover have "0 \<le> i * scale" using that(1) assms(2) by simp
    ultimately show "nat ((i + 1) * scale - 1) < length hs" "int (Suc (nat ((i + 1) * scale - 1))) = (i + 1) * scale"
      using assms(2) by (simp_all add: algebra_simps)
  qed
  have get: "bhl_get (ScaledHashes hs scale) i = Inr (hs ! nat ((i + 1) * scale - 1))"
    if "0 \<le> i" "i < int (length hs) div scale" for i hs
    using bhl_get_scaled [of scale i hs] that assms(2) by simp
  have iter: "\<exists>hs. bhl_from ?v start = Inr hs \<and> int (length hs) = max 0 (bhl_len ?v - start)
      \<and> (\<forall>t<length hs. bhl_get ?v (start + int t) = Inr (hs ! t))" if "0 \<le> start" for start
    using bhl_from_scaled [of scale start "block_hashes r"] get [of _ "block_hashes r"] that assms(2) by auto
  have sep: "block_hashes r ! nat ((i + 1) * scale - 1) = block_hashes r' ! nat ((j + 1) * scale - 1) \<longleftrightarrow> i = j
      \<and> take (nat ((i + 1) * (scale * hbs))) (all_token_ids r) = take (nat ((i + 1) * (scale * hbs))) (all_token_ids r')
      \<and> (\<forall>m. int m < (i + 1) * scale \<longrightarrow> block_keys digest r hbs m = block_keys digest r' hbs m)"
    if i: "0 \<le> i" "i < bhl_len ?v" and j: "0 \<le> j" "j < bhl_len ?v'" for i j
  proof -
    let ?i = "nat ((i + 1) * scale - 1)" and ?j = "nat ((j + 1) * scale - 1)"
    note fi = fine [OF i(1) i(2) [unfolded bhl_len.simps]] and fj = fine [OF j(1) j(2) [unfolded bhl_len.simps]]
    have "inj_on H (hash_input digest H none hbs r ` {..?i} \<union> hash_input digest H none hbs r' ` {..?j})"
      using assms(7) by (rule inj_on_subset) (use fi(1) fj(1) in auto)
    note separate = hashed_hashes_separate [OF assms(1,3-6) this fi(1) fj(1), unfolded fi(2)]
    have "?i = ?j \<Longrightarrow> (i + 1) * scale = (j + 1) * scale" using fi(2) fj(2) by metis
    then have "?i = ?j \<longleftrightarrow> i = j" using assms(2) by auto
    moreover have "(\<forall>m\<le>?i. P m) \<longleftrightarrow> (\<forall>m. int m < (i + 1) * scale \<longrightarrow> P m)" for P
      using fi(2) by (metis less_Suc_eq_le of_nat_less_iff)
    ultimately show ?thesis using separate by (simp only: mult.assoc)
  qed
  show ?thesis
    using size [OF assms(3)] iter sep get
    by (intro exI [of _ ?v] exI [of _ ?v'] conjI res) (auto simp del: bhl_get.simps)
qed

theorem block_hash_view_correct_witness:
  "\<exists>v h. resolve_block_hashes (RawHashes (block_hashes two_step_request)) 2 (2 * 2) False None = Inr v
    \<and> bhl_len v = 1 \<and> bhl_get v 0 = Inr h \<and> bhl_from v 0 = Inr [h]"
proof -
  have len: "length (block_hashes two_step_request) = 2" "length (block_hashes one_step_request) = 2"
    "num_tokens two_step_request = 4"
    by (simp_all add: two_step_request_def one_step_request_def sample_request_def)
  obtain v hs where v: "resolve_block_hashes (RawHashes (block_hashes two_step_request)) 2 (2 * 2) False None = Inr v"
      "bhl_len v = num_tokens two_step_request div (2 * 2)"
      "bhl_from v 0 = Inr hs" "int (length hs) = max 0 (bhl_len v - 0)"
      "\<forall>t<length hs. bhl_get v (0 + int t) = Inr (hs ! t)"
    using block_hash_view_correct [OF _ _ sample_hashed sample_hash_nonempty sample_hash_nonempty, of 2]
      sample_hash_separates by (auto simp: len)
  then show ?thesis by (cases hs) (auto simp: len)
qed

end
