(* ===== verification/HashMap.thy ===== *)
theory HashMap
  imports Prelude
begin

text \<open>
  \<open>BlockHashToBlockMap\<close> of \<open>block_pool.py\<close>: the table from block hash keys to cached blocks.
  A key holds one block, or a dictionary of blocks by id once a second block is cached under
  the same key.  Block objects are constructed once, with consecutive ids that are never
  reassigned, so a reference to a block is its id.  The lemmas read the table as the set of
  blocks held by each key; the locale \<open>block_index\<close> states what its clients rely on.
\<close>

section \<open>The operations\<close>

datatype cached_blocks = OneBlock nat | ManyBlocks "(nat, nat) pydict"

type_synonym 'k block_map = "('k, cached_blocks) pydict"

definition get_one_block :: "'k block_map \<Rightarrow> 'k \<Rightarrow> nat option res" where
  "get_one_block m key =
     (case map_of m key of
        None \<Rightarrow> Inr None
      | Some (OneBlock b) \<Rightarrow> Inr (Some b)
      | Some (ManyBlocks d) \<Rightarrow> (case d of [] \<Rightarrow> Inl StopIteration | e # _ \<Rightarrow> Inr (Some (snd e))))"

definition contain_block :: "'k block_map \<Rightarrow> 'k \<Rightarrow> nat \<Rightarrow> bool" where
  "contain_block m key block_id =
     (case map_of m key of
        None \<Rightarrow> False
      | Some (OneBlock b) \<Rightarrow> b = block_id
      | Some (ManyBlocks d) \<Rightarrow> map_of d block_id \<noteq> None)"

definition insert_block :: "'k block_map \<Rightarrow> 'k \<Rightarrow> nat \<Rightarrow> 'k block_map" where
  "insert_block m key b =
     (case map_of m key of
        None \<Rightarrow> AList.update key (OneBlock b) m
      | Some (OneBlock b0) \<Rightarrow> AList.update key (ManyBlocks (AList.update b b [(b0, b0)])) m
      | Some (ManyBlocks d) \<Rightarrow> AList.update key (ManyBlocks (AList.update b b d)) m)"

definition pop_block :: "'k block_map \<Rightarrow> 'k \<Rightarrow> nat \<Rightarrow> nat option \<times> 'k block_map" where
  "pop_block m key block_id =
     (case map_of m key of
        None \<Rightarrow> (None, m)
      | Some (OneBlock b) \<Rightarrow>
          (if b = block_id then (Some b, AList.delete key m)
           else (None, AList.update key (OneBlock b) (AList.delete key m)))
      | Some (ManyBlocks d) \<Rightarrow>
          (let d' = AList.delete block_id d
           in (map_of d block_id,
               if length d' > 0 then AList.update key (ManyBlocks d') (AList.delete key m)
               else AList.delete key m)))"

definition map_len :: "'k block_map \<Rightarrow> nat" where
  "map_len m = length m"

section \<open>The table as the blocks held by each key\<close>

fun blocks_in :: "cached_blocks \<Rightarrow> nat set" where
  "blocks_in (OneBlock b) = {b}"
| "blocks_in (ManyBlocks d) = dom (map_of d)"

fun entry_ok :: "cached_blocks \<Rightarrow> bool" where
  "entry_ok (OneBlock b) = True"
| "entry_ok (ManyBlocks d) \<longleftrightarrow> d \<noteq> [] \<and> dict_wf d \<and> (\<forall>e \<in> set d. fst e = snd e)"

definition holders :: "'k block_map \<Rightarrow> 'k \<Rightarrow> nat set" where
  "holders m key = (case map_of m key of None \<Rightarrow> {} | Some v \<Rightarrow> blocks_in v)"

definition table_ok :: "'k block_map \<Rightarrow> bool" where
  "table_ok m \<longleftrightarrow> dict_wf m \<and> (\<forall>key v. map_of m key = Some v \<longrightarrow> entry_ok v)"

lemma table_ok_Nil [simp]: "table_ok []"
  by (simp add: table_ok_def)

lemma holders_Nil [simp]: "holders [] key = {}"
  by (simp add: holders_def)

lemma entry_ok_nonempty: "entry_ok v \<Longrightarrow> blocks_in v \<noteq> {}"
  by (cases v) (auto simp: dom_map_of_conv_image_fst)

lemma table_ok_entry: "table_ok m \<Longrightarrow> map_of m key = Some v \<Longrightarrow> entry_ok v"
  by (simp add: table_ok_def)

lemma table_ok_update:
  "table_ok m \<Longrightarrow> entry_ok v \<Longrightarrow> table_ok (AList.update key v m)"
  by (auto simp: table_ok_def dict_simps)

lemma table_ok_delete: "table_ok m \<Longrightarrow> table_ok (AList.delete key m)"
  by (auto simp: table_ok_def dict_simps split: if_splits)

lemma holders_update:
  "holders (AList.update key v m) = (holders m)(key := blocks_in v)"
  by (rule ext) (simp add: holders_def dict_simps)

lemma holders_delete: "holders (AList.delete key m) = (holders m)(key := {})"
  by (rule ext) (simp add: holders_def dict_simps)

lemma holders_empty_iff:
  assumes "table_ok m"
  shows "holders m key = {} \<longleftrightarrow> map_of m key = None"
  using table_ok_entry [OF assms] entry_ok_nonempty
  by (cases "map_of m key") (auto simp: holders_def)

lemma entry_ok_add:
  assumes "entry_ok (ManyBlocks d)"
  shows "entry_ok (ManyBlocks (AList.update b b d))"
proof -
  have "fst e = snd e" if "e \<in> set (AList.update b b d)" for e
  proof -
    have "distinct (map fst (AList.update b b d))"
      using assms by (simp add: dict_wf_def distinct_update)
    then have "map_of (AList.update b b d) (fst e) = Some (snd e)"
      using that by (simp add: map_of_is_SomeI)
    then show ?thesis
      using assms by (auto simp: dict_simps split: if_splits dest: map_of_SomeD)
  qed
  moreover have "AList.update b b d \<noteq> []"
    by (cases d) auto
  ultimately show ?thesis using assms by simp
qed

lemma entry_ok_drop:
  assumes "entry_ok (ManyBlocks d)" and "AList.delete b d \<noteq> []"
  shows "entry_ok (ManyBlocks (AList.delete b d))"
  using assms by (auto simp: AList.delete_eq dict_wf_def distinct_map_filter)

lemma entry_ok_lookup:
  assumes "entry_ok (ManyBlocks d)"
  shows "map_of d b = (if b \<in> blocks_in (ManyBlocks d) then Some b else None)"
proof (cases "map_of d b")
  case None
  then show ?thesis by (simp add: domIff)
next
  case (Some c)
  then show ?thesis using assms map_of_SomeD [OF Some] by auto
qed

text \<open>How each operation changes the blocks held, and that it keeps the table well-formed.\<close>

lemma get_one_block_none:
  "table_ok m \<Longrightarrow> get_one_block m key = Inr None \<longleftrightarrow> holders m key = {}"
  using table_ok_entry [of m key] entry_ok_nonempty [of "the (map_of m key)"]
  by (auto simp: get_one_block_def holders_def
      split: option.splits cached_blocks.splits list.splits simp del: blocks_in.simps(2))

lemma get_one_block_some:
  assumes "table_ok m" and "holders m key \<noteq> {}"
  shows "\<exists>b \<in> holders m key. get_one_block m key = Inr (Some b)"
proof -
  obtain v where v: "map_of m key = Some v"
    using assms holders_empty_iff [OF assms(1)] by (cases "map_of m key") auto
  have ok: "entry_ok v" by (rule table_ok_entry [OF assms(1) v])
  show ?thesis
  proof (cases v)
    case (OneBlock b)
    then show ?thesis by (simp add: get_one_block_def holders_def v)
  next
    case (ManyBlocks d)
    then show ?thesis using ok by (cases d) (auto simp: get_one_block_def holders_def v)
  qed
qed

lemma contain_block_iff:
  "contain_block m key b \<longleftrightarrow> b \<in> holders m key"
  by (auto simp: contain_block_def holders_def split: option.splits cached_blocks.splits)

lemma insert_block_ok:
  assumes "table_ok m"
  shows "table_ok (insert_block m key b)"
proof (cases "map_of m key")
  case None
  then show ?thesis using assms by (simp add: insert_block_def table_ok_update)
next
  case (Some v)
  have ok: "entry_ok v" by (rule table_ok_entry [OF assms Some])
  show ?thesis
  proof (cases v)
    case (OneBlock c)
    then show ?thesis using assms Some by (simp add: insert_block_def table_ok_update dict_wf_def)
  next
    case (ManyBlocks d)
    then show ?thesis
      using assms Some ok entry_ok_add [of d b]
      by (simp add: insert_block_def table_ok_update del: entry_ok.simps)
  qed
qed

lemma insert_block_holders:
  "holders (insert_block m key b) = (holders m)(key := insert b (holders m key))"
  by (auto simp: insert_block_def holders_update insert_commute holders_def dict_simps
      split: option.splits cached_blocks.splits)

lemma pop_block_ok:
  assumes "table_ok m"
  shows "table_ok (snd (pop_block m key b))"
  using assms table_ok_entry [OF assms, of key]
  by (auto simp: pop_block_def Let_def intro!: table_ok_update table_ok_delete entry_ok_drop
      split: option.split cached_blocks.split simp del: entry_ok.simps(2))

lemma delete_Nil_lookup:
  assumes "AList.delete b d = []" and "map_of d x = Some y"
  shows "x = b"
  using assms map_of_delete [of b d] by (auto simp: fun_eq_iff split: if_splits)

lemma pop_block_holders:
  "holders (snd (pop_block m key b)) = (holders m)(key := holders m key - {b})"
proof (rule ext)
  fix k
  show "holders (snd (pop_block m key b)) k = ((holders m)(key := holders m key - {b})) k"
    by (cases "map_of m key"; cases "the (map_of m key)")
      (auto simp: pop_block_def Let_def holders_update holders_delete dict_simps holders_def
        split: if_splits dest: delete_Nil_lookup)
qed

lemma pop_block_result:
  assumes "table_ok m"
  shows "fst (pop_block m key b) = (if b \<in> holders m key then Some b else None)"
  using table_ok_entry [OF assms, of key]
  by (auto simp: pop_block_def Let_def holders_def entry_ok_lookup
      split: option.split cached_blocks.split simp del: entry_ok.simps(2))


section \<open>What the clients of the table rely on\<close>

locale block_index =
  fixes ok :: "'m \<Rightarrow> bool"
    and held :: "'m \<Rightarrow> 'k \<Rightarrow> nat set"
    and look :: "'m \<Rightarrow> 'k \<Rightarrow> nat option res"
    and has :: "'m \<Rightarrow> 'k \<Rightarrow> nat \<Rightarrow> bool"
    and put :: "'m \<Rightarrow> 'k \<Rightarrow> nat \<Rightarrow> 'm"
    and take_out :: "'m \<Rightarrow> 'k \<Rightarrow> nat \<Rightarrow> nat option \<times> 'm"
  assumes look_none: "ok m \<Longrightarrow> look m k = Inr None \<longleftrightarrow> held m k = {}"
    and look_some: "ok m \<Longrightarrow> held m k \<noteq> {} \<Longrightarrow> \<exists>b \<in> held m k. look m k = Inr (Some b)"
    and has_iff: "has m k b \<longleftrightarrow> b \<in> held m k"
    and put_ok: "ok m \<Longrightarrow> ok (put m k b)"
    and held_put: "held (put m k b) = (held m)(k := insert b (held m k))"
    and take_ok: "ok m \<Longrightarrow> ok (snd (take_out m k b))"
    and held_take: "held (snd (take_out m k b)) = (held m)(k := held m k - {b})"
    and take_result: "ok m \<Longrightarrow> fst (take_out m k b) = (if b \<in> held m k then Some b else None)"
begin

lemma look_total:
  assumes "ok m"
  shows "\<exists>r. look m k = Inr r \<and> (case r of None \<Rightarrow> held m k = {} | Some b \<Rightarrow> b \<in> held m k)"
  using look_none [OF assms, of k] look_some [OF assms, of k] by force

lemma look_sound: "ok m \<Longrightarrow> look m k = Inr (Some b) \<Longrightarrow> b \<in> held m k"
  using look_total [of m k] by auto

lemma look_after_put: "ok m \<Longrightarrow> \<exists>c. look (put m k b) k = Inr (Some c)"
  using look_some [of "put m k b" k] put_ok [of m k b] by (auto simp: held_put)

lemma has_put: "has (put m k b) k' c \<longleftrightarrow> has m k' c \<or> (k' = k \<and> c = b)"
  by (auto simp: has_iff held_put)

lemma has_take: "has (snd (take_out m k b)) k' c \<longleftrightarrow> has m k' c \<and> \<not> (k' = k \<and> c = b)"
  by (auto simp: has_iff held_take)

lemma put_take_away:
  "ok m \<Longrightarrow> \<not> has m k b \<Longrightarrow> held (snd (take_out (put m k b) k b)) = held m"
  by (auto simp: has_iff held_take held_put fun_eq_iff)

text \<open>A sweep that takes one block out under each of a list of keys.\<close>

lemma held_sweep:
  "held (fold (\<lambda>k m. snd (take_out m k b)) ks m) k' =
     held m k' - (if k' \<in> set ks then {b} else {})"
  by (induction ks arbitrary: m) (auto simp: held_take)

lemma sweep_ok: "ok m \<Longrightarrow> ok (fold (\<lambda>k m. snd (take_out m k b)) ks m)"
  by (induction ks arbitrary: m) (auto simp: take_ok)

lemma sweep_forgets:
  "(\<And>k. has m k b \<Longrightarrow> k \<in> set ks) \<Longrightarrow>
   \<not> has (fold (\<lambda>k m. snd (take_out m k b)) ks m) k' b"
  by (auto simp: has_iff held_sweep)

end

interpretation idx: block_index table_ok holders get_one_block contain_block insert_block pop_block
  by unfold_locales
    (simp_all add: get_one_block_none get_one_block_some contain_block_iff insert_block_ok
      insert_block_holders pop_block_ok pop_block_holders pop_block_result)

section \<open>The oldest block of a key\<close>

text \<open>
  The stronger reading of the table: the blocks of a key in the order in which they were
  cached, of which the lookup returns the first.
\<close>

fun listed :: "cached_blocks \<Rightarrow> nat list" where
  "listed (OneBlock b) = [b]"
| "listed (ManyBlocks d) = map fst d"

definition queue_at :: "'k block_map \<Rightarrow> 'k \<Rightarrow> nat list" where
  "queue_at m key = (case map_of m key of None \<Rightarrow> [] | Some v \<Rightarrow> listed v)"

datatype 'k map_op = InsertOp 'k nat | PopOp 'k nat

fun map_exec :: "'k map_op \<Rightarrow> 'k block_map \<Rightarrow> 'k block_map" where
  "map_exec (InsertOp key b) m = insert_block m key b"
| "map_exec (PopOp key b) m = snd (pop_block m key b)"

fun queue_exec :: "'k map_op \<Rightarrow> ('k \<Rightarrow> nat list) \<Rightarrow> 'k \<Rightarrow> nat list" where
  "queue_exec (InsertOp key b) f = (if b \<in> set (f key) then f else f(key := f key @ [b]))"
| "queue_exec (PopOp key b) f = f(key := filter (\<lambda>c. c \<noteq> b) (f key))"

lemma queue_at_Nil: "queue_at [] = (\<lambda>_. [])"
  by (simp add: queue_at_def fun_eq_iff)

lemma queue_at_update:
  "queue_at (AList.update key v m) = (queue_at m)(key := listed v)"
  by (rule ext) (simp add: queue_at_def dict_simps)

lemma queue_at_delete: "queue_at (AList.delete key m) = (queue_at m)(key := [])"
  by (rule ext) (simp add: queue_at_def dict_simps)

lemma queue_at_insert:
  "queue_at (insert_block m key b) = queue_exec (InsertOp key b) (queue_at m)"
proof (cases "map_of m key")
  case None
  then have "queue_at m key = []" by (simp add: queue_at_def)
  with None show ?thesis by (simp add: insert_block_def queue_at_update)
next
  case (Some v)
  then have "queue_at m key = listed v" by (simp add: queue_at_def)
  with Some show ?thesis
    by (cases v) (auto simp: insert_block_def queue_at_update update_keys)
qed

lemma queue_at_pop:
  "queue_at (snd (pop_block m key b)) = queue_exec (PopOp key b) (queue_at m)"
proof (cases "map_of m key")
  case None
  then have "queue_at m key = []" by (simp add: queue_at_def)
  with None show ?thesis by (simp add: pop_block_def fun_upd_idem)
next
  case (Some v)
  then have v: "queue_at m key = listed v" by (simp add: queue_at_def)
  show ?thesis
  proof (cases v)
    case (OneBlock c)
    then show ?thesis
      using Some v by (auto simp: pop_block_def queue_at_update queue_at_delete)
  next
    case (ManyBlocks d)
    have "map fst (AList.delete b d) = filter (\<lambda>c. c \<noteq> b) (map fst d)"
      by (auto simp: delete_keys removeAll_filter_not_eq intro: filter_cong)
    moreover from this have "AList.delete b d = [] \<longleftrightarrow> filter (\<lambda>c. c \<noteq> b) (map fst d) = []"
      by (metis Nil_is_map_conv)
    ultimately show ?thesis
      using Some v ManyBlocks
      by (auto simp: pop_block_def Let_def queue_at_update queue_at_delete)
  qed
qed

lemma queue_at_exec: "queue_at (map_exec x m) = queue_exec x (queue_at m)"
  by (cases x) (simp_all only: map_exec.simps queue_at_insert queue_at_pop)

lemma queue_at_run: "queue_at (fold map_exec ops m) = fold queue_exec ops (queue_at m)"
  by (induction ops arbitrary: m) (simp_all add: queue_at_exec)

lemma map_exec_ok: "table_ok m \<Longrightarrow> table_ok (map_exec x m)"
  by (cases x) (simp_all add: idx.put_ok idx.take_ok)

lemma map_run_ok: "table_ok m \<Longrightarrow> table_ok (fold map_exec ops m)"
  by (induction ops arbitrary: m) (simp_all add: map_exec_ok)

lemma queue_at_lookup:
  assumes "table_ok m"
  shows "get_one_block m key = Inr (case queue_at m key of [] \<Rightarrow> None | b # _ \<Rightarrow> Some b)"
  using table_ok_entry [OF assms, of key]
  by (auto simp: get_one_block_def queue_at_def
      split: option.split cached_blocks.split list.split)

lemma queue_at_holders: "set (queue_at m key) = holders m key"
proof -
  have "set (listed v) = blocks_in v" for v
    by (cases v) (simp_all add: dom_map_of_conv_image_fst)
  then show ?thesis by (simp add: queue_at_def holders_def split: option.split)
qed

text \<open>
  C5. The table of cached blocks behaves as a queue of blocks per key: after any sequence of
  insertions and removals from the empty table, a lookup never raises and returns the block
  cached earliest among those still held by the key (none when there is none), the
  membership test and the result of a removal agree with that queue, and the table has an
  entry for a key exactly when its queue is not empty.
\<close>

theorem block_map_is_queue_per_key:
  "let m = fold map_exec ops []; f = fold queue_exec ops (\<lambda>_. [])
   in get_one_block m key = Inr (case f key of [] \<Rightarrow> None | b # _ \<Rightarrow> Some b)
    \<and> contain_block m key b = (b \<in> set (f key))
    \<and> fst (pop_block m key b) = (if b \<in> set (f key) then Some b else None)
    \<and> map_len m = card {k. f k \<noteq> []}"
proof -
  define m where "m = fold map_exec ops []"
  have ok: "table_ok m" by (simp add: m_def map_run_ok)
  have f: "fold queue_exec ops (\<lambda>_. []) = queue_at m"
    by (simp add: m_def queue_at_run queue_at_Nil)
  have "map_len m = card (set (map fst m))"
    using ok by (metis distinct_card dict_wf_def length_map map_len_def table_ok_def)
  moreover have "k \<in> set (map fst m) \<longleftrightarrow> queue_at m k \<noteq> []" for k
    using holders_empty_iff [OF ok, of k] queue_at_holders [of m k]
    by (metis image_set map_of_eq_None_iff set_empty)
  then have "set (map fst m) = {k. queue_at m k \<noteq> []}" by blast
  ultimately show ?thesis
    using queue_at_lookup [OF ok] idx.take_result [OF ok]
    by (simp add: f m_def [symmetric] idx.has_iff queue_at_holders)
qed

end
