(* ===== verification/BlockPool.thy ===== *)
theory BlockPool
  imports Complex_Main FreeQueue BlockHash HashMap
begin

text \<open>
  \<open>BlockPool\<close> of \<open>block_pool.py\<close> and \<open>KVCacheBlock\<close> of \<open>kv_cache_utils.py\<close>: the pool of KV
  cache blocks with reference counts, the free list in eviction order, the prefix cache and
  the KV cache events.

  A reference to a block object is its \<open>block_id\<close>: the objects are constructed once, with
  ids from 0, and no id is reassigned.  The links of the free list are the state of the queue
  in FreeQueue.  Operations that may raise return a sum; the calls to the
  metrics collector, whose class is outside the repository and whose results are not used,
  are left out.
\<close>

section \<open>Blocks, events and the pool\<close>

record kv_block =
  ref_cnt :: int
  blk_hash :: "block_hash_gid option"
  blk_hash_num_tokens :: "int option"
  is_null :: bool

definition new_kv_block :: kv_block where
  "new_kv_block = \<lparr>ref_cnt = 0, blk_hash = None, blk_hash_num_tokens = None, is_null = False\<rparr>"

definition set_block_hash :: "block_hash_gid \<Rightarrow> int option \<Rightarrow> kv_block \<Rightarrow> kv_block res" where
  "set_block_hash h ntok kb =
     (if blk_hash kb = None \<and> blk_hash_num_tokens kb = None
      then Inr (kb\<lparr>blk_hash := Some h, blk_hash_num_tokens := ntok\<rparr>)
      else Inl AssertionError)"

definition reset_hash :: "kv_block \<Rightarrow> kv_block" where
  "reset_hash kb = kb\<lparr>blk_hash := None, blk_hash_num_tokens := None\<rparr>"

datatype event_medium = MEDIUM_GPU

record block_stored =
  ev_block_hashes :: "external_hash list option"
  ev_parent_block_hash :: "external_hash option"
  ev_token_ids :: "int list"
  ev_block_size :: int
  ev_lora_id :: "int option"
  ev_medium :: event_medium
  ev_lora_name :: "string option"
  ev_extra_keys :: "extra_key list option list option"
  ev_group_idx :: int

datatype kv_event =
    BlockStored block_stored
  | BlockRemoved "external_hash list" event_medium int
  | AllBlocksCleared

record block_pool =
  num_gpu_blocks :: int
  enable_caching :: bool
  hash_block_size :: int
  blk :: "nat \<Rightarrow> kv_block"
  free_block_queue :: free_queue
  cached_block_hash_to_block :: "block_hash_gid block_map"
  cached_block_hashes_by_block :: "(nat, block_hash_gid list) pydict"
  null_block :: nat
  enable_kv_cache_events :: bool
  kv_event_queue :: "kv_event list"

text \<open>
  What the environment decides: the flag of \<open>maybe_convert_block_hash\<close>, the order in which a
  Python set of hashes is iterated (from the order of insertion), and the digest of prompt
  embeddings.
\<close>

record pool_env =
  use_int_hashes :: bool
  set_order :: "block_hash_gid list \<Rightarrow> block_hash_gid list"
  embeds_digest :: "bytes list \<Rightarrow> bytes"

text \<open>The fake head and tail never leave the queue.\<close>

fun block_ref :: "bref \<Rightarrow> nat" where
  "block_ref (Blk b) = b"
| "block_ref _ = 0"

definition upd_block :: "nat \<Rightarrow> (kv_block \<Rightarrow> kv_block) \<Rightarrow> block_pool \<Rightarrow> block_pool" where
  "upd_block b f p = p\<lparr>blk := (blk p)(b := f (blk p b))\<rparr>"

definition pool_init :: "int \<Rightarrow> bool \<Rightarrow> int \<Rightarrow> bool \<Rightarrow> block_pool res" where
  "pool_init n caching hbs events =
     (if \<not> n > 0 then Inl AssertionError
      else bind_res (popleft (fq_init (map Blk [0..<nat n])))
        (\<lambda>(nb, q). Inr (upd_block (block_ref nb) (is_null_update (\<lambda>_. True))
           \<lparr>num_gpu_blocks = n, enable_caching = caching, hash_block_size = hbs,
            blk = (\<lambda>_. new_kv_block), free_block_queue = q,
            cached_block_hash_to_block = [], cached_block_hashes_by_block = [],
            null_block = block_ref nb, enable_kv_cache_events = events,
            kv_event_queue = []\<rparr>)))"

definition get_num_free_blocks :: "block_pool \<Rightarrow> int" where
  "get_num_free_blocks p = num_free_blocks (free_block_queue p)"

text \<open>\<open>fl\<close> rounds to a float, as the division and the subtraction do.\<close>

definition get_usage :: "(rat \<Rightarrow> rat) \<Rightarrow> block_pool \<Rightarrow> rat" where
  "get_usage fl p =
     (let total = num_gpu_blocks p - 1
      in if total = 0 then 0
         else fl (1 - fl (of_int (get_num_free_blocks p) / of_int total)))"

definition add_event :: "kv_event \<Rightarrow> block_pool \<Rightarrow> block_pool" where
  "add_event e p = p\<lparr>kv_event_queue := kv_event_queue p @ [e]\<rparr>"

definition take_events :: "block_pool \<Rightarrow> kv_event list \<times> block_pool" where
  "take_events p =
     (if \<not> enable_kv_cache_events p then ([], p)
      else (kv_event_queue p, p\<lparr>kv_event_queue := []\<rparr>))"

section \<open>Looking up, inserting and removing hashes\<close>

fun get_cached_block :: "block_pool \<Rightarrow> block_hash \<Rightarrow> int list \<Rightarrow> nat list option res" where
  "get_cached_block p h [] = Inr (Some [])"
| "get_cached_block p h (g # gs) =
     bind_res (make_block_hash_with_group_id h g) (\<lambda>key.
     bind_res (get_one_block (cached_block_hash_to_block p) key) (\<lambda>r.
       case r of
         None \<Rightarrow> Inr None
       | Some b \<Rightarrow> bind_res (get_cached_block p h gs) (\<lambda>rest. Inr (map_option ((#) b) rest))))"

definition insert_block_hash ::
  "block_hash_gid \<Rightarrow> nat \<Rightarrow> int option \<Rightarrow> block_pool \<Rightarrow> block_pool res" where
  "insert_block_hash key b ntok p =
     (if blk_hash (blk p b) = Some key then Inr p
      else if contain_block (cached_block_hash_to_block p) key b then Inr p
      else (let m = insert_block (cached_block_hash_to_block p) key b
            in case blk_hash (blk p b) of
                 None \<Rightarrow> bind_res (set_block_hash key ntok (blk p b)) (\<lambda>kb.
                   Inr (upd_block b (\<lambda>_. kb) (p\<lparr>cached_block_hash_to_block := m\<rparr>)))
               | Some _ \<Rightarrow>
                   (let hs = dict_get (cached_block_hashes_by_block p) b []
                    in Inr (p\<lparr>cached_block_hash_to_block := m,
                         cached_block_hashes_by_block :=
                           AList.update b (if key \<in> set hs then hs else hs @ [key])
                             (cached_block_hashes_by_block p)\<rparr>))))"

text \<open>The loop that pops a block under each of its hashes and collects those found.\<close>

fun pop_hashes :: "'k list \<Rightarrow> nat \<Rightarrow> 'k block_map \<Rightarrow> 'k list \<times> 'k block_map" where
  "pop_hashes [] b m = ([], m)"
| "pop_hashes (key # keys) b m =
     (let (r, m1) = pop_block m key b; (rest, m2) = pop_hashes keys b m1
      in (case r of None \<Rightarrow> rest | Some _ \<Rightarrow> key # rest, m2))"

definition remove_cached_block_hashes ::
  "pool_env \<Rightarrow> nat \<Rightarrow> block_pool \<Rightarrow> block_hash_gid list \<times> block_pool" where
  "remove_cached_block_hashes env b p =
     (let hs = (case blk_hash (blk p b) of None \<Rightarrow> [] | Some h \<Rightarrow> [h])
             @ set_order env (dict_get (cached_block_hashes_by_block p) b []);
          p1 = p\<lparr>cached_block_hashes_by_block := AList.delete b (cached_block_hashes_by_block p)\<rparr>
      in if hs = [] then ([], p1)
         else (let (removed, m) = pop_hashes hs b (cached_block_hash_to_block p1)
               in (removed, upd_block b reset_hash (p1\<lparr>cached_block_hash_to_block := m\<rparr>))))"

definition emit_block_removed_events ::
  "pool_env \<Rightarrow> block_hash_gid list \<Rightarrow> block_pool \<Rightarrow> block_pool" where
  "emit_block_removed_events env hs p =
     (if \<not> enable_kv_cache_events p then p
      else fold (\<lambda>h. add_event (BlockRemoved
             [maybe_convert_block_hash (use_int_hashes env) (get_block_hash h)]
             MEDIUM_GPU (get_group_id h))) hs p)"

definition maybe_evict_cached_block ::
  "pool_env \<Rightarrow> nat \<Rightarrow> block_pool \<Rightarrow> bool \<times> block_pool" where
  "maybe_evict_cached_block env b p =
     (let (evicted, p1) = remove_cached_block_hashes env b p
      in if evicted = [] then (False, p1)
         else (True, emit_block_removed_events env evicted p1))"

definition move_block_hashes ::
  "pool_env \<Rightarrow> nat \<Rightarrow> nat \<Rightarrow> block_pool \<Rightarrow> block_pool res" where
  "move_block_hashes env src dst p =
     (if \<not> blk_hash (blk p dst) = None then Inl AssertionError
      else if map_of (cached_block_hashes_by_block p) dst \<noteq> None then Inl AssertionError
      else (let ntok = blk_hash_num_tokens (blk p src);
                (removed, p1) = remove_cached_block_hashes env src p
            in fold_res (\<lambda>h. insert_block_hash h dst ntok) removed p1))"

section \<open>Allocation, reference counts and eviction\<close>

definition allocate_block :: "pool_env \<Rightarrow> nat \<Rightarrow> block_pool \<Rightarrow> block_pool res" where
  "allocate_block env b p =
     (let p1 = (if enable_caching p then snd (maybe_evict_cached_block env b p) else p)
      in if \<not> ref_cnt (blk p1 b) = 0 then Inl AssertionError
         else Inr (upd_block b (ref_cnt_update (\<lambda>r. r + 1)) p1))"

definition get_new_blocks :: "pool_env \<Rightarrow> int \<Rightarrow> block_pool \<Rightarrow> (nat list \<times> block_pool) res" where
  "get_new_blocks env num_blocks p =
     (if num_blocks > get_num_free_blocks p then Inl ValueError
      else bind_res (popleft_n (free_block_queue p) num_blocks) (\<lambda>(ret, q).
        (let bs = map block_ref ret
         in bind_res (fold_res (allocate_block env) bs (p\<lparr>free_block_queue := q\<rparr>))
              (\<lambda>p1. Inr (bs, p1)))))"

definition touch_block :: "nat \<Rightarrow> block_pool \<Rightarrow> block_pool res" where
  "touch_block b p =
     bind_res
       (if ref_cnt (blk p b) = 0 \<and> \<not> is_null (blk p b) then
          bind_res (fq_remove (free_block_queue p) (Blk b)) (\<lambda>q. Inr (p\<lparr>free_block_queue := q\<rparr>))
        else Inr p)
       (\<lambda>p1. Inr (upd_block b (ref_cnt_update (\<lambda>r. r + 1)) p1))"

definition touch :: "nat list \<Rightarrow> block_pool \<Rightarrow> block_pool res" where
  "touch blocks p = fold_res touch_block blocks p"

text \<open>The loop of \<open>free_blocks\<close>, with the blocks to evict first and the blocks to evict last.\<close>

fun free_loop ::
  "nat list \<Rightarrow> nat list \<Rightarrow> nat list \<Rightarrow> block_pool \<Rightarrow> nat list \<times> nat list \<times> block_pool" where
  "free_loop [] evict_first evict_last p = (evict_first, evict_last, p)"
| "free_loop (b # bs) evict_first evict_last p =
     (let p1 = upd_block b (ref_cnt_update (\<lambda>r. r - 1)) p; kb = blk p1 b
      in if ref_cnt kb = 0 \<and> \<not> is_null kb then
           (if blk_hash kb = None \<or> \<not> enable_caching p
            then free_loop bs (evict_first @ [b]) evict_last p1
            else free_loop bs evict_first (evict_last @ [b]) p1)
         else free_loop bs evict_first evict_last p1)"

definition free_blocks :: "nat list \<Rightarrow> block_pool \<Rightarrow> block_pool res" where
  "free_blocks ordered_blocks p =
     (let (evict_first, evict_last, p1) = free_loop ordered_blocks [] [] p
      in bind_res (fq_prepend_n (free_block_queue p1) (map Blk evict_first)) (\<lambda>q1.
         bind_res (fq_append_n q1 (map Blk evict_last)) (\<lambda>q2.
           Inr (p1\<lparr>free_block_queue := q2\<rparr>))))"

text \<open>The set of block ids in the order in which it is iterated.\<close>

definition evict_blocks :: "pool_env \<Rightarrow> int list \<Rightarrow> block_pool \<Rightarrow> block_pool res" where
  "evict_blocks env block_ids p =
     fold_res (\<lambda>i q.
       if \<not> i < num_gpu_blocks q then Inl AssertionError
       else bind_res (py_index [0..<nat (num_gpu_blocks q)] i)
              (\<lambda>b. Inr (snd (maybe_evict_cached_block env b q))))
       block_ids p"

definition reset_prefix_cache :: "block_pool \<Rightarrow> bool \<times> block_pool" where
  "reset_prefix_cache p =
     (let num_used_blocks = num_gpu_blocks p - get_num_free_blocks p
      in if num_used_blocks \<noteq> 1 then (False, p)
         else (let p1 = fold (\<lambda>b. upd_block b reset_hash) [0..<nat (num_gpu_blocks p)]
                     (p\<lparr>cached_block_hash_to_block := [], cached_block_hashes_by_block := []\<rparr>)
               in (True, if enable_kv_cache_events p1 then add_event AllBlocksCleared p1 else p1)))"

section \<open>Caching full and partial blocks\<close>

definition build_block_stored_event ::
  "request \<Rightarrow> external_hash list option \<Rightarrow> external_hash option \<Rightarrow> int \<Rightarrow> int \<Rightarrow> int \<Rightarrow> int
     \<Rightarrow> extra_key list option list \<Rightarrow> kv_event" where
  "build_block_stored_event r hs parent start_token_idx end_token_idx block_size gid extra_list =
     BlockStored \<lparr>ev_block_hashes = hs, ev_parent_block_hash = parent,
       ev_token_ids = py_slice (all_token_ids r) start_token_idx end_token_idx,
       ev_block_size = block_size, ev_lora_id = map_option lora_adapter_id (lora_req r),
       ev_medium = MEDIUM_GPU, ev_lora_name = map_option lora_name (lora_req r),
       ev_extra_keys = (if extra_list = [] then None else Some extra_list),
       ev_group_idx = gid\<rparr>"

text \<open>\<open>skipped\<close> is the test that passes over null and masked blocks, \<open>i\<close> counts from 0.\<close>

definition skipped :: "block_pool \<Rightarrow> bool list option \<Rightarrow> nat \<Rightarrow> nat \<Rightarrow> bool" where
  "skipped p block_mask i b \<longleftrightarrow>
     is_null (blk p b) \<or> (case block_mask of None \<Rightarrow> False | Some msk \<Rightarrow> \<not> msk ! i)"

definition cache_one_block ::
  "pool_env \<Rightarrow> block_hash_gid \<Rightarrow> nat \<Rightarrow> int \<Rightarrow> block_pool \<Rightarrow> block_pool res" where
  "cache_one_block env key b num_hash_tokens p =
     bind_res
       (if blk_hash (blk p b) \<noteq> None then
          (case blk_hash_num_tokens (blk p b) of
             None \<Rightarrow> Inl AssertionError
           | Some t \<Rightarrow>
               if \<not> t < num_hash_tokens then Inl AssertionError
               else (let (removed, p1) = remove_cached_block_hashes env b p
                     in Inr (emit_block_removed_events env removed p1)))
        else Inr p)
       (insert_block_hash key b (Some num_hash_tokens))"

fun cache_full_loop ::
  "pool_env \<Rightarrow> block_hash list \<Rightarrow> bool list option \<Rightarrow> int \<Rightarrow> int \<Rightarrow> int \<Rightarrow> nat \<Rightarrow> nat list
     \<Rightarrow> external_hash list \<Rightarrow> block_pool \<Rightarrow> (external_hash list \<times> block_pool) res" where
  "cache_full_loop env hs msk num_cached block_size gid i [] new_hashes p = Inr (new_hashes, p)"
| "cache_full_loop env hs msk num_cached block_size gid i (b # bs) new_hashes p =
     (if skipped p msk i b then
        cache_full_loop env hs msk num_cached block_size gid (Suc i) bs new_hashes p
      else bind_res (py_index hs (int i)) (\<lambda>h.
        bind_res (make_block_hash_with_group_id h gid) (\<lambda>key.
        bind_res (cache_one_block env key b ((num_cached + int i + 1) * block_size) p) (\<lambda>p1.
          cache_full_loop env hs msk num_cached block_size gid (Suc i) bs
            (new_hashes @ [maybe_convert_block_hash (use_int_hashes env) h]) p1))))"

fun event_keys_loop ::
  "pool_env \<Rightarrow> block_pool \<Rightarrow> bool list option \<Rightarrow> int \<Rightarrow> int \<Rightarrow> nat list \<Rightarrow> int list \<Rightarrow> request
     \<Rightarrow> int \<Rightarrow> extra_key list option list \<Rightarrow> (request \<times> extra_key list option list) res" where
  "event_keys_loop env p msk num_cached block_size blocks [] r mm_idx acc = Inr (r, acc)"
| "event_keys_loop env p msk num_cached block_size blocks (i # is) r mm_idx acc =
     bind_res (py_index blocks i) (\<lambda>b.
       if skipped p msk (nat (i - num_cached)) b then
         event_keys_loop env p msk num_cached block_size blocks is r mm_idx acc
       else bind_res (generate_block_hash_extra_keys (embeds_digest env) r (i * block_size)
                        (i * block_size + block_size) mm_idx)
              (\<lambda>(r1, keys, mm_idx1).
                 event_keys_loop env p msk num_cached block_size blocks is r1 mm_idx1
                   (acc @ [keys])))"

text \<open>The part that builds and queues the event of \<open>cache_full_blocks\<close>.\<close>

definition full_blocks_event ::
  "pool_env \<Rightarrow> request \<Rightarrow> nat list \<Rightarrow> int \<Rightarrow> int \<Rightarrow> int \<Rightarrow> int \<Rightarrow> bool list option
     \<Rightarrow> block_hash_list \<Rightarrow> external_hash list \<Rightarrow> block_pool \<Rightarrow> (request \<times> block_pool) res" where
  "full_blocks_event env r blocks num_cached num_full block_size gid msk hl new_hashes p =
     bind_res (if num_cached = 0 then Inr None
        else bind_res (bhl_get hl (num_cached - 1)) (\<lambda>h.
          Inr (Some (maybe_convert_block_hash (use_int_hashes env) h)))) (\<lambda>parent.
     bind_res (event_keys_loop env p msk num_cached block_size blocks
        [num_cached..num_full - 1] r 0 []) (\<lambda>(r1, extra_list).
     Inr (r1, add_event (build_block_stored_event r1 (Some new_hashes) parent
       (num_cached * block_size) (num_full * block_size) block_size gid extra_list) p)))"

definition cache_new_full_blocks ::
  "pool_env \<Rightarrow> request \<Rightarrow> nat list \<Rightarrow> int \<Rightarrow> int \<Rightarrow> int \<Rightarrow> int \<Rightarrow> bool list option
     \<Rightarrow> block_hash_list \<Rightarrow> block_pool \<Rightarrow> (request \<times> block_pool) res" where
  "cache_new_full_blocks env r blocks num_cached num_full block_size gid msk hl p =
     bind_res (bhl_from hl num_cached) (\<lambda>new_block_hashes.
     bind_res (cache_full_loop env new_block_hashes msk num_cached block_size gid 0
        (py_slice blocks num_cached num_full) [] p) (\<lambda>(new_hashes, p1).
     if \<not> enable_kv_cache_events p1 then Inr (r, p1)
     else full_blocks_event env r blocks num_cached num_full block_size gid msk hl new_hashes p1))"

definition cache_full_blocks ::
  "pool_env \<Rightarrow> request \<Rightarrow> nat list \<Rightarrow> int \<Rightarrow> int \<Rightarrow> int \<Rightarrow> int \<Rightarrow> bool list option \<Rightarrow> block_pool
     \<Rightarrow> (request \<times> block_pool) res" where
  "cache_full_blocks env r blocks num_cached num_full block_size gid msk p =
     (if num_cached \<ge> num_full then Inr (r, p)
      else if \<not> (case msk of None \<Rightarrow> True
                 | Some ms \<Rightarrow> length ms = length (py_slice blocks num_cached num_full))
        then Inl AssertionError
      else bind_res (resolve_block_hashes (RawHashes (block_hashes r)) (hash_block_size p)
             block_size False None)
        (\<lambda>hl. cache_new_full_blocks env r blocks num_cached num_full block_size gid msk hl p))"

text \<open>The loop of \<open>emit_cached_block_events\<close> over the block indices.\<close>

fun emit_cached_loop ::
  "pool_env \<Rightarrow> block_hash_list \<Rightarrow> int \<Rightarrow> int list \<Rightarrow> request \<Rightarrow> int \<Rightarrow> external_hash list
     \<Rightarrow> extra_key list option list
     \<Rightarrow> (request \<times> external_hash list \<times> extra_key list option list) res" where
  "emit_cached_loop env hl block_size [] r mm_idx hs keys = Inr (r, hs, keys)"
| "emit_cached_loop env hl block_size (i # is) r mm_idx hs keys =
     bind_res (bhl_get hl i) (\<lambda>h.
     bind_res (generate_block_hash_extra_keys (embeds_digest env) r (i * block_size)
                 (i * block_size + block_size) mm_idx) (\<lambda>(r1, k, mm_idx1).
       emit_cached_loop env hl block_size is r1 mm_idx1
         (hs @ [maybe_convert_block_hash (use_int_hashes env) h]) (keys @ [k])))"

definition emit_cached_block_events ::
  "pool_env \<Rightarrow> request \<Rightarrow> int \<Rightarrow> int \<Rightarrow> int \<Rightarrow> block_pool \<Rightarrow> (request \<times> block_pool) res" where
  "emit_cached_block_events env r num_cached block_size gid p =
     (if \<not> enable_kv_cache_events p \<or> num_cached = 0 then Inr (r, p)
      else bind_res (resolve_block_hashes (RawHashes (block_hashes r)) (hash_block_size p)
             block_size False None) (\<lambda>hl.
        bind_res (emit_cached_loop env hl block_size [0..num_cached - 1] r 0 [] [])
          (\<lambda>(r1, cached_hashes, extra_list).
             if cached_hashes = [] then Inr (r1, p)
             else Inr (r1, add_event (build_block_stored_event r1 (Some cached_hashes) None 0
                    (num_cached * block_size) block_size gid extra_list) p))))"

definition get_partial_block_hash :: "request \<Rightarrow> int \<Rightarrow> block_pool \<Rightarrow> block_hash res" where
  "get_partial_block_hash r ntok p =
     bind_res (py_mod ntok (hash_block_size p)) (\<lambda>m.
       if m \<noteq> 0 then Inl AssertionError
       else (let num_hash_blocks = ntok div hash_block_size p
             in if \<not> (0 < num_hash_blocks \<and> num_hash_blocks \<le> int (length (block_hashes r)))
                then Inl AssertionError
                else py_index (block_hashes r) (num_hash_blocks - 1)))"

definition get_partial_block_parent_hash_and_start ::
  "request \<Rightarrow> int \<Rightarrow> block_pool \<Rightarrow> (block_hash option \<times> int) res" where
  "get_partial_block_parent_hash_and_start r ntok p =
     bind_res (py_floordiv ntok (hash_block_size p)) (\<lambda>num_hash_blocks.
     bind_res (if num_hash_blocks > 1
               then bind_res (py_index (block_hashes r) (num_hash_blocks - 2)) (\<lambda>h. Inr (Some h))
               else Inr None) (\<lambda>parent_hash.
       Inr (parent_hash, (num_hash_blocks - 1) * hash_block_size p)))"

definition partial_block_event ::
  "pool_env \<Rightarrow> request \<Rightarrow> block_hash \<Rightarrow> int \<Rightarrow> int \<Rightarrow> block_pool \<Rightarrow> (request \<times> block_pool) res" where
  "partial_block_event env r h ntok gid p =
     bind_res (get_partial_block_parent_hash_and_start r ntok p) (\<lambda>(parent_hash, block_start).
     bind_res (generate_block_hash_extra_keys (embeds_digest env) r block_start ntok
                 (if block_start > 0 then - 1 else 0)) (\<lambda>(r1, keys, _).
       Inr (r1, add_event (BlockStored
         \<lparr>ev_block_hashes = Some [maybe_convert_block_hash (use_int_hashes env) h],
          ev_parent_block_hash =
            map_option (maybe_convert_block_hash (use_int_hashes env)) parent_hash,
          ev_token_ids = py_slice (all_token_ids r1) block_start ntok,
          ev_block_size = ntok - block_start, ev_lora_id = map_option lora_adapter_id (lora_req r1),
          ev_medium = MEDIUM_GPU, ev_lora_name = map_option lora_name (lora_req r1),
          ev_extra_keys = Some [keys], ev_group_idx = gid\<rparr>) p)))"

definition already_cached :: "block_pool \<Rightarrow> nat \<Rightarrow> block_hash_gid \<Rightarrow> bool" where
  "already_cached p b key \<longleftrightarrow>
     blk_hash (blk p b) = Some key \<or> contain_block (cached_block_hash_to_block p) key b"

definition drop_outdated_hashes ::
  "pool_env \<Rightarrow> nat \<Rightarrow> block_hash_gid \<Rightarrow> int \<Rightarrow> block_pool \<Rightarrow> block_pool" where
  "drop_outdated_hashes env b key covered p =
     (if \<not> already_cached p b key \<and> blk_hash (blk p b) \<noteq> None
         \<and> (case blk_hash_num_tokens (blk p b) of None \<Rightarrow> False | Some t \<Rightarrow> t < covered)
      then (let (removed, q) = remove_cached_block_hashes env b p
            in emit_block_removed_events env removed q)
      else p)"

definition register_partial_block ::
  "pool_env \<Rightarrow> request \<Rightarrow> nat \<Rightarrow> int \<Rightarrow> int \<Rightarrow> block_hash \<Rightarrow> block_hash_gid \<Rightarrow> block_pool
     \<Rightarrow> (block_hash_gid option \<times> request \<times> block_pool) res" where
  "register_partial_block env r b ntok gid h key p =
     (let covered = ntok div hash_block_size p * hash_block_size p
      in bind_res (insert_block_hash key b (Some covered) (drop_outdated_hashes env b key covered p))
           (\<lambda>p2. if enable_kv_cache_events p2 \<and> \<not> already_cached p b key
                  then bind_res (partial_block_event env r h ntok gid p2)
                         (\<lambda>(r1, p3). Inr (Some key, r1, p3))
                  else Inr (Some key, r, p2)))"

definition cache_partial_block ::
  "pool_env \<Rightarrow> request \<Rightarrow> nat \<Rightarrow> int \<Rightarrow> int \<Rightarrow> int \<Rightarrow> block_pool
     \<Rightarrow> (block_hash_gid option \<times> request \<times> block_pool) res" where
  "cache_partial_block env r b ntok gid block_size p =
     (if is_null (blk p b) then Inr (None, r, p)
      else if \<not> block_size > hash_block_size p then Inl AssertionError
      else bind_res (py_mod block_size (hash_block_size p)) (\<lambda>m.
        if m \<noteq> 0 then Inl AssertionError
        else bind_res (py_mod ntok block_size) (\<lambda>m2.
          if m2 = 0 then Inl AssertionError
          else bind_res (get_partial_block_hash r ntok p) (\<lambda>h.
            bind_res (make_block_hash_with_group_id h gid) (\<lambda>key.
              register_partial_block env r b ntok gid h key p)))))"

section \<open>The prefix cache: each block under exactly its hashes\<close>

text \<open>The further hashes of a block, and all keys under which it should be found.\<close>

abbreviation further :: "block_pool \<Rightarrow> nat \<Rightarrow> block_hash_gid list" where
  "further p b \<equiv> dict_get (cached_block_hashes_by_block p) b []"

definition hashes_of :: "block_pool \<Rightarrow> nat \<Rightarrow> block_hash_gid set" where
  "hashes_of p b = set_option (blk_hash (blk p b)) \<union> set (further p b)"

definition pool_block :: "block_pool \<Rightarrow> nat \<Rightarrow> bool" where
  "pool_block p b \<longleftrightarrow> 0 < b \<and> int b < num_gpu_blocks p"

definition block_ok :: "block_pool \<Rightarrow> nat \<Rightarrow> bool" where
  "block_ok p b \<longleftrightarrow>
     distinct (further p b) \<and> set_option (blk_hash (blk p b)) \<inter> set (further p b) = {}
     \<and> map_of (cached_block_hashes_by_block p) b \<noteq> Some []
     \<and> (blk_hash (blk p b) = None \<longrightarrow> further p b = [] \<and> blk_hash_num_tokens (blk p b) = None)
     \<and> (blk_hash (blk p b) \<noteq> None \<longrightarrow> pool_block p b)
     \<and> (is_null (blk p b) \<longleftrightarrow> b = 0)"

definition cache_inv :: "block_pool \<Rightarrow> bool" where
  "cache_inv p \<longleftrightarrow>
     table_ok (cached_block_hash_to_block p) \<and> dict_wf (cached_block_hashes_by_block p)
     \<and> (\<forall>key. holders (cached_block_hash_to_block p) key = {b. key \<in> hashes_of p b})
     \<and> (\<forall>b. block_ok p b)"

definition env_ok :: "pool_env \<Rightarrow> bool" where
  "env_ok env \<longleftrightarrow> (\<forall>xs. set (set_order env xs) = set xs \<and> (distinct xs \<longrightarrow> distinct (set_order env xs)))"

text \<open>What no operation changes, and what the operations on hashes leave alone as well.\<close>

definition same_static :: "block_pool \<Rightarrow> block_pool \<Rightarrow> bool" where
  "same_static p p' \<longleftrightarrow>
     num_gpu_blocks p' = num_gpu_blocks p \<and> enable_caching p' = enable_caching p
     \<and> hash_block_size p' = hash_block_size p \<and> null_block p' = null_block p
     \<and> enable_kv_cache_events p' = enable_kv_cache_events p
     \<and> (\<forall>b. is_null (blk p' b) = is_null (blk p b))"

definition same_blocks :: "block_pool \<Rightarrow> block_pool \<Rightarrow> bool" where
  "same_blocks p p' \<longleftrightarrow> same_static p p' \<and> free_block_queue p' = free_block_queue p
     \<and> (\<forall>b. ref_cnt (blk p' b) = ref_cnt (blk p b))"

lemma same_static_refl [simp]: "same_static p p"
  by (simp add: same_static_def)

lemma same_static_trans [trans]: "same_static p q \<Longrightarrow> same_static q r \<Longrightarrow> same_static p r"
  by (simp add: same_static_def)

lemma same_static_pool_block: "same_static p p' \<Longrightarrow> pool_block p' b = pool_block p b"
  by (simp add: same_static_def pool_block_def)

lemma same_blocks_static: "same_blocks p p' \<Longrightarrow> same_static p p'"
  by (simp add: same_blocks_def)

lemma same_static_queue [simp]: "same_static p (q\<lparr>free_block_queue := u\<rparr>) = same_static p q"
  "same_static (q\<lparr>free_block_queue := u\<rparr>) p = same_static q p"
  by (simp_all add: same_static_def)

lemma same_static_upd_ref [simp]:
  "same_static p (upd_block b (ref_cnt_update f) q) = same_static p q"
proof -
  have "is_null (blk (upd_block b (ref_cnt_update f) q) c) = is_null (blk q c)" for c
    by (simp add: upd_block_def)
  then show ?thesis by (simp add: same_static_def) (simp add: upd_block_def)
qed

lemma same_blocks_pool_block: "same_blocks p p' \<Longrightarrow> pool_block p' b = pool_block p b"
  by (rule same_static_pool_block) (rule same_blocks_static)

lemma same_blocks_refl [simp]: "same_blocks p p"
  by (simp add: same_blocks_def)

lemma same_blocks_trans [trans]: "same_blocks p q \<Longrightarrow> same_blocks q r \<Longrightarrow> same_blocks p r"
  by (auto simp: same_blocks_def intro: same_static_trans)

lemma pop_hashes_table:
  "snd (pop_hashes ks b m) = fold (\<lambda>k m. snd (pop_block m k b)) ks m"
  by (induction ks arbitrary: m) (simp_all add: split_beta Let_def)

lemma pop_hashes_result:
  "table_ok m \<Longrightarrow> distinct ks \<Longrightarrow>
   fst (pop_hashes ks b m) = filter (\<lambda>k. b \<in> holders m k) ks"
proof (induction ks arbitrary: m)
  case Nil
  then show ?case by simp
next
  case (Cons k ks)
  have "filter (\<lambda>k'. b \<in> holders (snd (pop_block m k b)) k') ks = filter (\<lambda>k'. b \<in> holders m k') ks"
    using Cons.prems by (intro filter_cong) (auto simp: idx.held_take)
  then show ?case
    using Cons.IH [of "snd (pop_block m k b)"] Cons.prems idx.take_result [of m k b]
    by (simp add: split_beta Let_def idx.take_ok)
qed

lemma cache_invD:
  assumes "cache_inv p"
  shows "table_ok (cached_block_hash_to_block p)" "dict_wf (cached_block_hashes_by_block p)"
    "holders (cached_block_hash_to_block p) key = {b. key \<in> hashes_of p b}" "block_ok p b"
  using assms by (auto simp: cache_inv_def)

text \<open>Inserting a hash.\<close>

lemma insert_block_hash_ok:
  assumes inv: "cache_inv p" and b: "pool_block p b"
  shows "\<exists>p'. insert_block_hash key b ntok p = Inr p' \<and> cache_inv p' \<and> same_blocks p p'
    \<and> hashes_of p' = (hashes_of p)(b := insert key (hashes_of p b))
    \<and> kv_event_queue p' = kv_event_queue p \<and> blk_hash (blk p' b) \<noteq> None"
proof (cases "key \<in> hashes_of p b")
  case True
  have "blk_hash (blk p b) \<noteq> None"
    using True cache_invD(4) [OF inv, of b] by (auto simp: hashes_of_def block_ok_def)
  moreover have "insert_block_hash key b ntok p = Inr p"
    using True cache_invD(3) [OF inv, of key] by (simp add: insert_block_hash_def idx.has_iff)
  ultimately show ?thesis using True inv by (simp add: insert_absorb)
next
  case False
  then have new: "\<not> contain_block (cached_block_hash_to_block p) key b"
    "blk_hash (blk p b) \<noteq> Some key" "key \<notin> set (further p b)"
    using cache_invD(3) [OF inv, of key] by (auto simp: idx.has_iff hashes_of_def)
  note bo = cache_invD(4) [OF inv, of b]
  let ?m = "insert_block (cached_block_hash_to_block p) key b"
  show ?thesis
  proof (cases "blk_hash (blk p b)")
    case None
    define p' where "p' = upd_block b
      (\<lambda>_. (blk p b)\<lparr>blk_hash := Some key, blk_hash_num_tokens := ntok\<rparr>)
      (p\<lparr>cached_block_hash_to_block := ?m\<rparr>)"
    have "insert_block_hash key b ntok p = Inr p'"
      using new None bo by (simp add: insert_block_hash_def p'_def set_block_hash_def block_ok_def)
    moreover have h: "hashes_of p' = (hashes_of p)(b := insert key (hashes_of p b))"
      using None by (auto simp: p'_def hashes_of_def upd_block_def fun_eq_iff)
    moreover have "block_ok p' c" for c
      using cache_invD(4) [OF inv, of c] bo b None
      by (auto simp: p'_def block_ok_def upd_block_def pool_block_def)
    then have "cache_inv p'"
      using inv h cache_invD(3) [OF inv]
      by (auto simp: cache_inv_def p'_def upd_block_def idx.put_ok idx.held_put)
    ultimately show ?thesis
      by (auto simp: same_blocks_def same_static_def p'_def upd_block_def)
  next
    case (Some h0)
    define p' where "p' = p\<lparr>cached_block_hash_to_block := ?m,
      cached_block_hashes_by_block :=
        AList.update b (further p b @ [key]) (cached_block_hashes_by_block p)\<rparr>"
    have "insert_block_hash key b ntok p = Inr p'"
      using new Some by (simp add: insert_block_hash_def p'_def)
    moreover have h: "hashes_of p' = (hashes_of p)(b := insert key (hashes_of p b))"
      by (auto simp: p'_def hashes_of_def dict_simps fun_eq_iff)
    moreover have "block_ok p' c" for c
      using cache_invD(4) [OF inv, of c] bo b Some new
      by (auto simp: p'_def block_ok_def pool_block_def dict_simps)
    then have "cache_inv p'"
      using inv h cache_invD(3) [OF inv]
      by (auto simp: cache_inv_def p'_def idx.put_ok idx.held_put)
    ultimately show ?thesis
      using Some by (auto simp: same_blocks_def same_static_def p'_def)
  qed
qed

text \<open>Removing all hashes of a block.\<close>

lemma remove_cached_block_hashes_ok:
  assumes inv: "cache_inv p" and env: "env_ok env"
  shows "\<exists>removed p'. remove_cached_block_hashes env b p = (removed, p')
    \<and> distinct removed \<and> set removed = hashes_of p b
    \<and> cache_inv p' \<and> same_blocks p p' \<and> hashes_of p' = (hashes_of p)(b := {})
    \<and> blk_hash (blk p' b) = None \<and> (\<forall>c. c \<noteq> b \<longrightarrow> blk p' c = blk p c)
    \<and> kv_event_queue p' = kv_event_queue p"
proof -
  define hs where "hs = (case blk_hash (blk p b) of None \<Rightarrow> [] | Some h \<Rightarrow> [h])
    @ set_order env (further p b)"
  note bo = cache_invD(4) [OF inv, of b]
  have set_hs: "set hs = hashes_of p b"
    using env by (auto simp: hs_def hashes_of_def env_ok_def split: option.splits)
  have dist: "distinct hs"
    using bo env by (auto simp: hs_def block_ok_def env_ok_def split: option.splits)
  have held: "filter (\<lambda>k. b \<in> holders (cached_block_hash_to_block p) k) hs = hs"
    using cache_invD(3) [OF inv] set_hs by (simp add: filter_id_conv)
  define p' where "p' = upd_block b reset_hash (p\<lparr>
    cached_block_hashes_by_block := AList.delete b (cached_block_hashes_by_block p),
    cached_block_hash_to_block := snd (pop_hashes hs b (cached_block_hash_to_block p))\<rparr>)"
  have h: "hashes_of p' = (hashes_of p)(b := {})"
    by (auto simp: p'_def hashes_of_def upd_block_def reset_hash_def dict_simps fun_eq_iff)
  have bo': "block_ok p' c" for c
    using cache_invD(4) [OF inv, of c]
    by (auto simp: p'_def block_ok_def upd_block_def reset_hash_def pool_block_def dict_simps)
  have m: "cached_block_hash_to_block p' =
      fold (\<lambda>k m. snd (pop_block m k b)) hs (cached_block_hash_to_block p)"
    by (simp add: p'_def upd_block_def pop_hashes_table)
  have "holders (cached_block_hash_to_block p') key = {c. key \<in> hashes_of p' c}" for key
    using cache_invD(3) [OF inv] set_hs by (auto simp: m idx.held_sweep h)
  then have inv': "cache_inv p'"
    using bo' cache_invD(1,2) [OF inv]
    by (simp add: cache_inv_def) (simp add: p'_def upd_block_def pop_hashes_table idx.sweep_ok)
  have "remove_cached_block_hashes env b p = (hs, p')"
  proof (cases "hs = []")
    case True
    then have "blk_hash (blk p b) = None" by (auto simp: hs_def split: option.splits)
    then have "reset_hash (blk p b) = blk p b"
      using bo by (simp add: reset_hash_def block_ok_def)
    then show ?thesis
      using True by (simp add: remove_cached_block_hashes_def hs_def [symmetric] p'_def upd_block_def)
  next
    case False
    then show ?thesis
      using pop_hashes_result [OF cache_invD(1) [OF inv] dist, of b] held
      by (simp add: remove_cached_block_hashes_def hs_def [symmetric] p'_def split_beta Let_def)
  qed
  then show ?thesis
    using dist set_hs h inv'
    by (auto simp: same_blocks_def same_static_def p'_def upd_block_def reset_hash_def)
qed

lemma emit_block_removed_events_eq:
  "emit_block_removed_events env hs p =
     (if \<not> enable_kv_cache_events p then p
      else p\<lparr>kv_event_queue := kv_event_queue p @ map (\<lambda>h. BlockRemoved
             [maybe_convert_block_hash (use_int_hashes env) (get_block_hash h)]
             MEDIUM_GPU (get_group_id h)) hs\<rparr>)"
proof -
  have "fold (\<lambda>h. add_event (f h)) hs p = p\<lparr>kv_event_queue := kv_event_queue p @ map f hs\<rparr>" for f
    by (induction hs arbitrary: p) (simp_all add: add_event_def)
  then show ?thesis by (simp add: emit_block_removed_events_def)
qed

text \<open>Adding events leaves everything else alone.\<close>

lemma hashes_of_events [simp]:
  "hashes_of (p\<lparr>kv_event_queue := es\<rparr>) = hashes_of p"
  by (simp add: hashes_of_def fun_eq_iff)

lemma cache_inv_events [simp]: "cache_inv (p\<lparr>kv_event_queue := es\<rparr>) = cache_inv p"
  by (simp add: cache_inv_def block_ok_def pool_block_def)

lemma same_blocks_events [simp]:
  "same_blocks p (q\<lparr>kv_event_queue := es\<rparr>) = same_blocks p q"
  by (simp add: same_blocks_def same_static_def)

lemma emit_keeps [simp]:
  "hashes_of (emit_block_removed_events env hs p) = hashes_of p"
  "cache_inv (emit_block_removed_events env hs p) = cache_inv p"
  "same_blocks q (emit_block_removed_events env hs p) = same_blocks q p"
  "blk (emit_block_removed_events env hs p) = blk p"
  by (simp_all add: emit_block_removed_events_eq)

lemma maybe_evict_ok:
  assumes "cache_inv p" and "env_ok env"
  shows "\<exists>p'. maybe_evict_cached_block env b p = (hashes_of p b \<noteq> {}, p')
    \<and> cache_inv p' \<and> same_blocks p p' \<and> hashes_of p' = (hashes_of p)(b := {})
    \<and> blk_hash (blk p' b) = None \<and> (\<forall>c. c \<noteq> b \<longrightarrow> blk p' c = blk p c)"
proof -
  obtain removed p' where "remove_cached_block_hashes env b p = (removed, p')"
    "set removed = hashes_of p b" "cache_inv p'" "same_blocks p p'"
    "hashes_of p' = (hashes_of p)(b := {})" "blk_hash (blk p' b) = None"
    "\<forall>c. c \<noteq> b \<longrightarrow> blk p' c = blk p c"
    using remove_cached_block_hashes_ok [OF assms] by metis
  then show ?thesis
    by (cases "removed = []") (auto simp: maybe_evict_cached_block_def)
qed

section \<open>The free list and the reference counts\<close>

text \<open>
  \<open>xs\<close> is the free list in eviction order: the blocks other than the null block that nobody
  refers to.
\<close>

definition pool_inv :: "block_pool \<Rightarrow> nat list \<Rightarrow> bool" where
  "pool_inv p xs \<longleftrightarrow>
     cache_inv p \<and> fq_rel (free_block_queue p) (map Blk xs)
     \<and> num_gpu_blocks p > 0 \<and> null_block p = 0
     \<and> set xs = {b. pool_block p b \<and> ref_cnt (blk p b) = 0}
     \<and> (\<forall>b. pool_block p b \<longrightarrow> ref_cnt (blk p b) \<ge> 0)"

lemma hashes_of_queue [simp]: "hashes_of (p\<lparr>free_block_queue := q\<rparr>) = hashes_of p"
  by (simp add: hashes_of_def fun_eq_iff)

lemma cache_inv_queue [simp]: "cache_inv (p\<lparr>free_block_queue := q\<rparr>) = cache_inv p"
  by (simp add: cache_inv_def block_ok_def pool_block_def)

lemma hashes_of_upd_ref [simp]: "hashes_of (upd_block b (ref_cnt_update f) p) = hashes_of p"
  by (simp add: hashes_of_def upd_block_def fun_eq_iff)

lemma upd_ref_simps [simp]:
  "ref_cnt (blk (upd_block b (ref_cnt_update f) p) c) =
     (if c = b then f (ref_cnt (blk p c)) else ref_cnt (blk p c))"
  "blk_hash (blk (upd_block b (ref_cnt_update f) p) c) = blk_hash (blk p c)"
  "is_null (blk (upd_block b (ref_cnt_update f) p) c) = is_null (blk p c)"
  "free_block_queue (upd_block b g p) = free_block_queue p"
  "num_gpu_blocks (upd_block b g p) = num_gpu_blocks p"
  "enable_caching (upd_block b g p) = enable_caching p"
  "null_block (upd_block b g p) = null_block p"
  by (simp_all add: upd_block_def)

lemma cache_inv_upd_ref [simp]: "cache_inv (upd_block b (ref_cnt_update f) p) = cache_inv p"
proof -
  let ?p = "upd_block b (ref_cnt_update f) p"
  have "block_ok ?p c = block_ok p c" for c
    by (simp add: block_ok_def pool_block_def) (simp add: upd_block_def)
  moreover have "cached_block_hash_to_block ?p = cached_block_hash_to_block p"
    "cached_block_hashes_by_block ?p = cached_block_hashes_by_block p"
    by (simp_all add: upd_block_def)
  ultimately show ?thesis by (simp add: cache_inv_def)
qed

lemma pool_inv_distinct: "pool_inv p xs \<Longrightarrow> distinct xs"
  by (auto simp: pool_inv_def fq_rel_def distinct_spine distinct_map)

lemma pool_inv_is_null: "pool_inv p xs \<Longrightarrow> is_null (blk p b) \<longleftrightarrow> b = 0"
  by (simp add: pool_inv_def cache_inv_def block_ok_def)

lemma pool_inv_num_free: "pool_inv p xs \<Longrightarrow> get_num_free_blocks p = int (length xs)"
  using fq.size_of [of "free_block_queue p" "map Blk xs"]
  by (simp add: pool_inv_def get_num_free_blocks_def)

lemma real_blocks_Blk [simp]: "list_all real_block (map Blk xs)"
  by (simp add: list_all_iff)

text \<open>Construction: every block but the null block is free, in the order of the ids.\<close>

lemma pool_init_ok:
  assumes "n > 0"
  shows "\<exists>p. pool_init n caching hbs events = Inr p \<and> pool_inv p [1..<nat n]
    \<and> hashes_of p = (\<lambda>_. {}) \<and> kv_event_queue p = []
    \<and> num_gpu_blocks p = n \<and> enable_caching p = caching \<and> hash_block_size p = hbs
    \<and> enable_kv_cache_events p = events"
proof -
  have up: "[0..<nat n] = 0 # [1..<nat n]" using assms by (simp add: upt_conv_Cons)
  have sp: "distinct (spine (map Blk [0..<nat n]))"
    by (simp add: distinct_spine distinct_map inj_on_def)
  then have sp': "distinct (spine (map Blk [1..<nat n]))"
    by (simp add: distinct_spine distinct_map inj_on_def)
  have pl: "popleft (fq_init (map Blk [0..<nat n])) = Inr (Blk 0, queue_of (map Blk [1..<nat n]))"
    using sp by (simp add: fq_init_eq up popleft_Cons)
  show ?thesis
    unfolding pool_init_def
    using assms pl sp'
    by (auto simp: pool_inv_def cache_inv_def block_ok_def hashes_of_def pool_block_def
        upd_block_def new_kv_block_def dict_get_def fq_rel_def fun_eq_iff)
qed

text \<open>Allocation: each block is taken out of the prefix cache and gets its first reference.\<close>

lemma allocate_block_ok:
  assumes "cache_inv p" and "env_ok env" and "ref_cnt (blk p b) = 0"
  shows "\<exists>p'. allocate_block env b p = Inr p' \<and> cache_inv p' \<and> same_static p p'
    \<and> free_block_queue p' = free_block_queue p
    \<and> hashes_of p' = (if enable_caching p then (hashes_of p)(b := {}) else hashes_of p)
    \<and> (\<forall>c. ref_cnt (blk p' c) = (if c = b then 1 else ref_cnt (blk p c)))"
proof (cases "enable_caching p")
  case True
  obtain p1 where "maybe_evict_cached_block env b p = (hashes_of p b \<noteq> {}, p1)"
    "cache_inv p1" "same_blocks p p1" "hashes_of p1 = (hashes_of p)(b := {})"
    using maybe_evict_ok [OF assms(1,2), of b] by blast
  then show ?thesis
    using True assms(3) by (simp add: allocate_block_def same_blocks_def)
next
  case False
  then show ?thesis using assms(1,3) by (simp add: allocate_block_def)
qed

lemma allocate_all_ok:
  assumes "cache_inv p" and "env_ok env" and "distinct bs" and "\<forall>b \<in> set bs. ref_cnt (blk p b) = 0"
  shows "\<exists>p'. fold_res (allocate_block env) bs p = Inr p' \<and> cache_inv p' \<and> same_static p p'
    \<and> free_block_queue p' = free_block_queue p
    \<and> hashes_of p' = (\<lambda>c. if enable_caching p \<and> c \<in> set bs then {} else hashes_of p c)
    \<and> (\<forall>c. ref_cnt (blk p' c) = (if c \<in> set bs then 1 else ref_cnt (blk p c)))"
  using assms
proof (induction bs arbitrary: p)
  case Nil
  then show ?case by simp
next
  case (Cons b bs)
  obtain p1 where p1: "allocate_block env b p = Inr p1" "cache_inv p1" "same_static p p1"
    "free_block_queue p1 = free_block_queue p"
    "hashes_of p1 = (if enable_caching p then (hashes_of p)(b := {}) else hashes_of p)"
    "\<forall>c. ref_cnt (blk p1 c) = (if c = b then 1 else ref_cnt (blk p c))"
    using allocate_block_ok [of p env b] Cons.prems by auto
  moreover have "\<forall>c \<in> set bs. ref_cnt (blk p1 c) = 0" using p1(6) Cons.prems by auto
  ultimately obtain p2 where "fold_res (allocate_block env) bs p1 = Inr p2" "cache_inv p2"
    "same_static p1 p2" "free_block_queue p2 = free_block_queue p1"
    "hashes_of p2 = (\<lambda>c. if enable_caching p1 \<and> c \<in> set bs then {} else hashes_of p1 c)"
    "\<forall>c. ref_cnt (blk p2 c) = (if c \<in> set bs then 1 else ref_cnt (blk p1 c))"
    using Cons.IH [of p1] Cons.prems by auto
  then show ?case
    using p1 by (auto simp: fun_eq_iff same_static_def)
qed

lemma get_new_blocks_ok:
  assumes inv: "pool_inv p xs" and env: "env_ok env" and n: "0 \<le> n" "n \<le> int (length xs)"
  shows "\<exists>p'. get_new_blocks env n p = Inr (take (nat n) xs, p') \<and> pool_inv p' (drop (nat n) xs)
    \<and> same_static p p'
    \<and> hashes_of p' =
        (\<lambda>c. if enable_caching p \<and> c \<in> set (take (nat n) xs) then {} else hashes_of p c)
    \<and> (\<forall>c. ref_cnt (blk p' c) = (if c \<in> set (take (nat n) xs) then 1 else ref_cnt (blk p c)))"
proof -
  let ?bs = "take (nat n) xs"
  have d: "distinct xs" using inv by (rule pool_inv_distinct)
  obtain q where q: "popleft_n (free_block_queue p) n = Inr (map Blk ?bs, q)"
    "fq_rel q (map Blk (drop (nat n) xs))"
    using fq.pop_n_ok [of "free_block_queue p" "map Blk xs" n] inv n
    by (auto simp: pool_inv_def take_map drop_map)
  have xs: "set xs = {b. pool_block p b \<and> ref_cnt (blk p b) = 0}"
    using inv by (simp add: pool_inv_def)
  have "\<forall>b \<in> set ?bs. ref_cnt (blk p b) = 0"
    using xs by (auto dest: in_set_takeD)
  then have "\<forall>b \<in> set ?bs. ref_cnt (blk (p\<lparr>free_block_queue := q\<rparr>) b) = 0" by simp
  moreover have "cache_inv (p\<lparr>free_block_queue := q\<rparr>)" "distinct ?bs"
    using inv d by (simp_all add: pool_inv_def)
  ultimately have "\<exists>p'. fold_res (allocate_block env) ?bs (p\<lparr>free_block_queue := q\<rparr>) = Inr p'
    \<and> cache_inv p' \<and> same_static p p' \<and> free_block_queue p' = q
    \<and> hashes_of p' = (\<lambda>c. if enable_caching p \<and> c \<in> set ?bs then {} else hashes_of p c)
    \<and> (\<forall>c. ref_cnt (blk p' c) = (if c \<in> set ?bs then 1 else ref_cnt (blk p c)))"
    using allocate_all_ok [of "p\<lparr>free_block_queue := q\<rparr>" env ?bs] env
    by (simp cong: if_cong)
  then obtain p' where p': "fold_res (allocate_block env) ?bs (p\<lparr>free_block_queue := q\<rparr>) = Inr p'"
    "cache_inv p'" "same_static p p'" "free_block_queue p' = q"
    "hashes_of p' = (\<lambda>c. if enable_caching p \<and> c \<in> set ?bs then {} else hashes_of p c)"
    "\<forall>c. ref_cnt (blk p' c) = (if c \<in> set ?bs then 1 else ref_cnt (blk p c))"
    by blast
  have "set (drop (nat n) xs) = set xs - set ?bs"
    using d distinct_set_take_drop_disjoint [OF d, of "nat n"]
    by (metis Diff_cancel Diff_triv Un_Diff append_take_drop_id inf_commute set_append sup_bot_left)
  then have "pool_inv p' (drop (nat n) xs)"
    using p' q inv xs
    by (auto simp: pool_inv_def same_static_pool_block [OF p'(3)] same_static_def)
  moreover have "map (block_ref \<circ> Blk) ?bs = ?bs" by (simp add: map_idI)
  moreover have "num_free_blocks (free_block_queue p) \<ge> n"
    using pool_inv_num_free [OF inv] n by (simp add: get_num_free_blocks_def)
  ultimately show ?thesis
    using q p' by (simp add: get_new_blocks_def get_num_free_blocks_def)
qed

lemma get_new_blocks_short:
  assumes "pool_inv p xs" and "int (length xs) < n"
  shows "get_new_blocks env n p = Inl ValueError"
  using assms pool_inv_num_free by (simp add: get_new_blocks_def)

text \<open>Touching: one more reference, and a free block leaves the free list.\<close>

lemma touch_block_ok:
  assumes inv: "pool_inv p xs" and b: "int b < num_gpu_blocks p"
  shows "\<exists>p'. touch_block b p = Inr p' \<and> pool_inv p' (remove1 b xs) \<and> same_static p p'
    \<and> hashes_of p' = hashes_of p
    \<and> (\<forall>c. ref_cnt (blk p' c) = ref_cnt (blk p c) + (if c = b then 1 else 0))"
proof -
  have xs: "set xs = {b. pool_block p b \<and> ref_cnt (blk p b) = 0}"
    and pos: "\<And>b. pool_block p b \<Longrightarrow> ref_cnt (blk p b) \<ge> 0"
    and q: "fq_rel (free_block_queue p) (map Blk xs)"
    using inv by (auto simp: pool_inv_def)
  have free: "ref_cnt (blk p b) = 0 \<and> \<not> is_null (blk p b) \<longleftrightarrow> b \<in> set xs"
    using xs b pool_inv_is_null [OF inv] by (auto simp: pool_block_def)
  show ?thesis
  proof (cases "b \<in> set xs")
    case True
    then obtain u where u: "fq_remove (free_block_queue p) (Blk b) = Inr u"
      "fq_rel u (remove1 (Blk b) (map Blk xs))"
      using fq.unlink_ok [OF q, of "Blk b"] by auto
    have "remove1 (Blk b) (map Blk xs) = map Blk (remove1 b xs)"
      by (induction xs) auto
    define p' where "p' = upd_block b (ref_cnt_update (\<lambda>r. r + 1)) (p\<lparr>free_block_queue := u\<rparr>)"
    have "touch_block b p = Inr p'"
      using True u free by (simp add: touch_block_def p'_def)
    moreover have ref: "ref_cnt (blk p' c) = ref_cnt (blk p c) + (if c = b then 1 else 0)" for c
      by (simp add: p'_def)
    moreover have st: "same_static p p'" "hashes_of p' = hashes_of p" by (simp_all add: p'_def)
    moreover have "set (remove1 b xs) = {c. pool_block p' c \<and> ref_cnt (blk p' c) = 0}"
      using True xs pool_inv_distinct [OF inv] pos
      by (auto simp: same_static_pool_block [OF st(1)] ref)
    then have "pool_inv p' (remove1 b xs)"
      using u inv pos \<open>remove1 (Blk b) (map Blk xs) = map Blk (remove1 b xs)\<close>
        same_static_pool_block [OF st(1)]
      by (auto simp: pool_inv_def ref) (auto simp: p'_def)
    ultimately show ?thesis by blast
  next
    case False
    define p' where "p' = upd_block b (ref_cnt_update (\<lambda>r. r + 1)) p"
    have "touch_block b p = Inr p'"
      using False free by (auto simp: touch_block_def p'_def)
    moreover have ref: "ref_cnt (blk p' c) = ref_cnt (blk p c) + (if c = b then 1 else 0)" for c
      by (simp add: p'_def)
    moreover have st: "same_static p p'" "hashes_of p' = hashes_of p" by (simp_all add: p'_def)
    moreover have "pool_block p b \<Longrightarrow> ref_cnt (blk p b) + 1 \<noteq> 0" using pos [of b] by linarith
    then have "c \<in> set xs \<longleftrightarrow> pool_block p' c \<and> ref_cnt (blk p' c) = 0" for c
      using False by (cases "c = b") (auto simp: same_static_pool_block [OF st(1)] ref xs)
    then have "set xs = {c. pool_block p' c \<and> ref_cnt (blk p' c) = 0}" by blast
    then have "pool_inv p' (remove1 b xs)"
      using inv pos False same_static_pool_block [OF st(1)]
      by (auto simp: pool_inv_def ref remove1_idem) (auto simp: p'_def)
    ultimately show ?thesis by blast
  qed
qed

lemma touch_ok:
  assumes "pool_inv p xs" and "\<forall>b \<in> set bs. int b < num_gpu_blocks p"
  shows "\<exists>p'. touch bs p = Inr p' \<and> pool_inv p' (filter (\<lambda>b. b \<notin> set bs) xs) \<and> same_static p p'
    \<and> hashes_of p' = hashes_of p
    \<and> (\<forall>c. ref_cnt (blk p' c) = ref_cnt (blk p c) + int (count_list bs c))"
  using assms
proof (induction bs arbitrary: p xs)
  case Nil
  then show ?case by (simp add: touch_def)
next
  case (Cons b bs)
  obtain p1 where p1: "touch_block b p = Inr p1" "pool_inv p1 (remove1 b xs)" "same_static p p1"
    "hashes_of p1 = hashes_of p"
    "\<forall>c. ref_cnt (blk p1 c) = ref_cnt (blk p c) + (if c = b then 1 else 0)"
    using touch_block_ok [OF Cons.prems(1), of b] Cons.prems(2) by auto
  then have "\<forall>b \<in> set bs. int b < num_gpu_blocks p1"
    using Cons.prems(2) by (simp add: same_static_def)
  from Cons.IH [OF p1(2) this] obtain p2 where "touch bs p1 = Inr p2"
    "pool_inv p2 (filter (\<lambda>b. b \<notin> set bs) (remove1 b xs))" "same_static p1 p2"
    "hashes_of p2 = hashes_of p1"
    "\<forall>c. ref_cnt (blk p2 c) = ref_cnt (blk p1 c) + int (count_list bs c)"
    by blast
  moreover have "filter (\<lambda>x. x \<notin> set bs) (remove1 b xs) = filter (\<lambda>x. x \<notin> set (b # bs)) xs"
    using pool_inv_distinct [OF Cons.prems(1)]
    by (auto simp: distinct_remove1_removeAll removeAll_filter_not_eq intro: filter_cong)
  ultimately show ?case
    using p1(1,4,5) same_static_trans [OF p1(3), of p2] by (simp add: touch_def)
qed

text \<open>Freeing: \<open>released\<close> lists the blocks whose last reference goes away, in order.\<close>

fun released :: "(nat \<Rightarrow> int) \<Rightarrow> nat list \<Rightarrow> nat list" where
  "released r [] = []"
| "released r (b # bs) =
     (if r b = 1 \<and> b \<noteq> 0 then [b] else []) @ released (r(b := r b - 1)) bs"

lemma count_after_release:
  fixes r :: "nat \<Rightarrow> int"
  assumes "\<forall>b \<in> set (a # bs). b \<noteq> 0 \<longrightarrow> int (count_list (a # bs) b) \<le> r b"
  shows "\<forall>b \<in> set bs. b \<noteq> 0 \<longrightarrow> int (count_list bs b) \<le> (r(a := r a - 1)) b"
proof (intro ballI impI)
  fix b :: nat
  assume "b \<in> set bs" "b \<noteq> 0"
  then have "int (count_list (a # bs) b) \<le> r b"
    using assms [rule_format, of b] by (metis list.set_intros(2))
  then show "int (count_list bs b) \<le> (r(a := r a - 1)) b" by (cases "b = a") simp_all
qed

lemma set_released:
  "\<forall>b \<in> set bs. b \<noteq> 0 \<longrightarrow> int (count_list bs b) \<le> r b \<Longrightarrow>
   set (released r bs) = {b \<in> set bs. b \<noteq> 0 \<and> r b = int (count_list bs b)}"
proof (induction bs arbitrary: r)
  case Nil
  then show ?case by simp
next
  case (Cons a bs)
  note IH = Cons.IH [OF count_after_release [OF Cons.prems]]
  have zero: "a \<notin> set bs \<longleftrightarrow> count_list bs a = 0" by (simp add: count_list_0_iff)
  have "b \<in> set (released r (a # bs)) \<longleftrightarrow>
      b \<in> set (a # bs) \<and> b \<noteq> 0 \<and> r b = int (count_list (a # bs) b)" for b
  proof (cases "b = a")
    case True
    have "b \<in> set (released r (a # bs)) \<longleftrightarrow>
        (r a = 1 \<and> a \<noteq> 0) \<or> (a \<in> set bs \<and> a \<noteq> 0 \<and> r a - 1 = int (count_list bs a))"
      using True by (simp add: IH)
    moreover have "a \<noteq> 0 \<Longrightarrow> int (count_list bs a) + 1 \<le> r a"
      using Cons.prems [rule_format, of a] by simp
    ultimately show ?thesis using True zero by auto
  next
    case False
    then show ?thesis by (simp add: IH)
  qed
  then show ?case by blast
qed

lemma distinct_released:
  "\<forall>b \<in> set bs. b \<noteq> 0 \<longrightarrow> int (count_list bs b) \<le> r b \<Longrightarrow> distinct (released r bs)"
proof (induction bs arbitrary: r)
  case Nil
  then show ?case by simp
next
  case (Cons a bs)
  note * = count_after_release [OF Cons.prems]
  have "a \<notin> set (released (r(a := r a - 1)) bs)" if "r a = 1" "a \<noteq> 0"
    unfolding set_released [OF *] using that count_list_0_iff [of bs a] by auto
  then show ?case using Cons.IH [OF *] by (auto simp del: fun_upd_apply)
qed

lemma free_loop_eq:
  assumes "\<And>b. is_null (blk p b) \<longleftrightarrow> b = 0" and "\<And>b. ref_cnt (blk p b) = r b"
  shows "free_loop bs f l p =
    (f @ filter (\<lambda>b. blk_hash (blk p b) = None \<or> \<not> enable_caching p) (released r bs),
     l @ filter (\<lambda>b. \<not> (blk_hash (blk p b) = None \<or> \<not> enable_caching p)) (released r bs),
     fold (\<lambda>b. upd_block b (ref_cnt_update (\<lambda>r. r - 1))) bs p)"
  using assms
proof (induction bs arbitrary: f l p r)
  case Nil
  then show ?case by simp
next
  case (Cons b bs)
  let ?p = "upd_block b (ref_cnt_update (\<lambda>r. r - 1)) p"
  have "\<And>c. is_null (blk ?p c) \<longleftrightarrow> c = 0" "\<And>c. ref_cnt (blk ?p c) = (r(b := r b - 1)) c"
    using Cons.prems by simp_all
  note IH = Cons.IH [OF this]
  show ?case
    using Cons.prems by (auto simp: Let_def IH simp del: fun_upd_apply)
qed

lemma fold_release:
  defines "dec \<equiv> fold (\<lambda>b. upd_block b (ref_cnt_update (\<lambda>r. r - 1)))"
  shows "ref_cnt (blk (dec bs p) c) = ref_cnt (blk p c) - int (count_list bs c)"
    and "same_static p (dec bs p)" and "hashes_of (dec bs p) = hashes_of p"
    and "cache_inv (dec bs p) = cache_inv p"
    and "free_block_queue (dec bs p) = free_block_queue p"
proof -
  have "ref_cnt (blk (dec bs p) c) = ref_cnt (blk p c) - int (count_list bs c)
    \<and> same_static p (dec bs p) \<and> hashes_of (dec bs p) = hashes_of p
    \<and> cache_inv (dec bs p) = cache_inv p \<and> free_block_queue (dec bs p) = free_block_queue p"
    unfolding dec_def
  proof (induction bs arbitrary: p)
    case (Cons b bs)
    let ?p = "upd_block b (ref_cnt_update (\<lambda>r. r - 1)) p"
    have "same_static p ?p" by simp
    from same_static_trans [OF this] show ?case
      using Cons.IH [of ?p] by auto
  qed simp
  then show "ref_cnt (blk (dec bs p) c) = ref_cnt (blk p c) - int (count_list bs c)"
    "same_static p (dec bs p)" "hashes_of (dec bs p) = hashes_of p"
    "cache_inv (dec bs p) = cache_inv p" "free_block_queue (dec bs p) = free_block_queue p"
    by simp_all
qed

lemma cache_inv_unhashed: "cache_inv p \<Longrightarrow> blk_hash (blk p b) = None \<longleftrightarrow> hashes_of p b = {}"
  by (auto simp: cache_inv_def block_ok_def hashes_of_def)

lemma free_blocks_ok:
  assumes inv: "pool_inv p xs"
    and refs: "\<forall>b \<in> set bs. b \<noteq> 0 \<longrightarrow> int (count_list bs b) \<le> ref_cnt (blk p b)"
    and range: "\<forall>b \<in> set bs. int b < num_gpu_blocks p"
  defines "rel \<equiv> released (\<lambda>b. ref_cnt (blk p b)) bs"
    and "first \<equiv> \<lambda>b. hashes_of p b = {} \<or> \<not> enable_caching p"
  shows "\<exists>p'. free_blocks bs p = Inr p'
    \<and> pool_inv p' (filter first rel @ xs @ filter (\<lambda>b. \<not> first b) rel)
    \<and> same_static p p' \<and> hashes_of p' = hashes_of p
    \<and> (\<forall>c. ref_cnt (blk p' c) = ref_cnt (blk p c) - int (count_list bs c))"
proof -
  define p1 where "p1 = fold (\<lambda>b. upd_block b (ref_cnt_update (\<lambda>r. r - 1))) bs p"
  note p1 = fold_release [where bs = bs and p = p, folded p1_def]
  have ci: "cache_inv p" and xs: "set xs = {b. pool_block p b \<and> ref_cnt (blk p b) = 0}"
    and q: "fq_rel (free_block_queue p1) (map Blk xs)"
    using inv p1(5) by (auto simp: pool_inv_def)
  have set_rel: "set rel = {b \<in> set bs. b \<noteq> 0 \<and> ref_cnt (blk p b) = int (count_list bs b)}"
    unfolding rel_def by (rule set_released [OF refs])
  have d_rel: "distinct rel" unfolding rel_def by (rule distinct_released [OF refs])
  have pos: "b \<in> set bs \<Longrightarrow> count_list bs b > 0" for b
    by (metis count_list_0_iff gr0I)
  have disj: "set rel \<inter> set xs = {}"
    using xs set_rel pos by force
  have pb: "pool_block p1 b \<longleftrightarrow> 0 < b \<and> int b < num_gpu_blocks p" for b
    unfolding same_static_pool_block [OF p1(2)] by (rule pool_block_def)
  have "free_loop bs [] [] p = (filter first rel, filter (\<lambda>b. \<not> first b) rel, p1)"
    using free_loop_eq [of p "\<lambda>b. ref_cnt (blk p b)" bs "[]" "[]"] pool_inv_is_null [OF inv]
      cache_inv_unhashed [OF ci]
    by (simp add: rel_def first_def p1_def)
  moreover obtain q1 where q1: "fq_prepend_n (free_block_queue p1) (map Blk (filter first rel)) = Inr q1"
    "fq_rel q1 (map Blk (filter first rel) @ map Blk xs)"
    using fq.put_front_ok [OF q, of "map Blk (filter first rel)"] d_rel disj
      pool_inv_distinct [OF inv]
    by (auto simp: distinct_map inj_on_def)
  moreover obtain q2 where q2: "fq_append_n q1 (map Blk (filter (\<lambda>b. \<not> first b) rel)) = Inr q2"
    "fq_rel q2 (map Blk (filter first rel @ xs @ filter (\<lambda>b. \<not> first b) rel))"
    using fq.put_back_ok [OF q1(2), of "map Blk (filter (\<lambda>b. \<not> first b) rel)"] d_rel disj
      pool_inv_distinct [OF inv]
    by (auto simp: distinct_map inj_on_def)
  ultimately have "free_blocks bs p = Inr (p1\<lparr>free_block_queue := q2\<rparr>)"
    by (simp add: free_blocks_def)
  moreover have "b \<in> set rel \<union> set xs \<longleftrightarrow> pool_block p1 b \<and> ref_cnt (blk p1 b) = 0" for b
    using refs [rule_format, of b] range xs [unfolded pool_block_def] set_rel
      count_list_0_iff [of bs b]
    by (cases "b \<in> set bs") (auto simp: pb p1(1))
  then have "set (filter first rel @ xs @ filter (\<lambda>b. \<not> first b) rel) =
      {b. pool_block p1 b \<and> ref_cnt (blk p1 b) = 0}"
    by auto
  moreover have "pool_block p1 b \<Longrightarrow> ref_cnt (blk p1 b) \<ge> 0" for b
    using refs [rule_format, of b] inv count_list_0_iff [of bs b]
    by (cases "b \<in> set bs") (auto simp: pb p1(1) pool_inv_def pool_block_def [of p])
  ultimately show ?thesis
    using q2 inv p1 by (auto simp: pool_inv_def pool_block_def same_static_def)
qed

section \<open>Eviction, reset and the moves of hashes\<close>

lemma pool_inv_same_blocks:
  assumes "pool_inv p xs" and "same_blocks p p'" and "cache_inv p'"
  shows "pool_inv p' xs"
proof -
  have "pool_block p' b = pool_block p b" for b
    by (rule same_blocks_pool_block [OF assms(2)])
  then show ?thesis
    using assms by (simp add: pool_inv_def same_blocks_def same_static_def)
qed

lemma evict_blocks_ok:
  assumes "cache_inv p" and "env_ok env"
    and "\<forall>i \<in> set ids. 0 \<le> i \<and> i < num_gpu_blocks p"
  shows "\<exists>p'. evict_blocks env ids p = Inr p' \<and> cache_inv p' \<and> same_blocks p p'
    \<and> hashes_of p' = (\<lambda>b. if int b \<in> set ids then {} else hashes_of p b)"
  using assms
proof (induction ids arbitrary: p)
  case Nil
  then show ?case by (simp add: evict_blocks_def)
next
  case (Cons i ids)
  have i: "0 \<le> i" "i < num_gpu_blocks p" using Cons.prems(3) by auto
  obtain p1 where p1: "maybe_evict_cached_block env (nat i) p = (hashes_of p (nat i) \<noteq> {}, p1)"
    "cache_inv p1" "same_blocks p p1" "hashes_of p1 = (hashes_of p)(nat i := {})"
    using maybe_evict_ok [OF Cons.prems(1,2)] by metis
  then have "\<forall>i \<in> set ids. 0 \<le> i \<and> i < num_gpu_blocks p1"
    using Cons.prems(3) by (simp add: same_blocks_def same_static_def)
  from Cons.IH [OF p1(2) Cons.prems(2) this] obtain p2 where
    p2: "evict_blocks env ids p1 = Inr p2" "cache_inv p2" "same_blocks p1 p2"
    "hashes_of p2 = (\<lambda>b. if int b \<in> set ids then {} else hashes_of p1 b)"
    by blast
  moreover have "py_index [0..<nat (num_gpu_blocks p)] i = Inr (nat i)"
    using i by (simp add: py_index_def)
  ultimately have "evict_blocks env (i # ids) p = Inr p2"
    using i p1(1) by (simp add: evict_blocks_def)
  moreover have "hashes_of p2 = (\<lambda>b. if int b \<in> set (i # ids) then {} else hashes_of p b)"
    using i(1) by (auto simp: p2(4) p1(4) fun_eq_iff)
  ultimately show ?case
    using p2 same_blocks_trans [OF p1(3) p2(3)] by blast
qed

lemma fold_reset:
  "fold (\<lambda>b. upd_block b reset_hash) bs p =
     p\<lparr>blk := (\<lambda>c. if c \<in> set bs then reset_hash (blk p c) else blk p c)\<rparr>"
  by (induction bs arbitrary: p) (auto simp: upd_block_def fun_eq_iff reset_hash_def)

lemma reset_prefix_cache_ok:
  assumes inv: "pool_inv p xs"
  defines "unused \<equiv> \<forall>b. pool_block p b \<longrightarrow> ref_cnt (blk p b) = 0"
  shows "\<exists>p'. reset_prefix_cache p = (unused, p') \<and> pool_inv p' xs \<and> same_blocks p p'
    \<and> hashes_of p' = (if unused then (\<lambda>_. {}) else hashes_of p)"
proof -
  let ?n = "num_gpu_blocks p"
  have pos: "?n > 0" and xs: "set xs = {b. pool_block p b \<and> ref_cnt (blk p b) = 0}"
    and ci: "cache_inv p"
    using inv by (auto simp: pool_inv_def)
  have "{b. pool_block p b} = {1..<nat ?n}" by (auto simp: pool_block_def)
  then have fin: "finite {b. pool_block p b}" "int (card {b. pool_block p b}) = ?n - 1"
    using pos by simp_all
  have "unused \<longleftrightarrow> set xs = {b. pool_block p b}" using xs by (auto simp: unused_def)
  also have "\<dots> \<longleftrightarrow> card (set xs) = card {b. pool_block p b}"
    using card_subset_eq [OF fin(1), of "set xs"] xs by auto
  also have "\<dots> \<longleftrightarrow> int (length xs) = ?n - 1"
    using fin(2) distinct_card [OF pool_inv_distinct [OF inv]] by linarith
  finally have u: "?n - get_num_free_blocks p = 1 \<longleftrightarrow> unused"
    using pool_inv_num_free [OF inv] by auto
  show ?thesis
  proof (cases unused)
    case False
    then show ?thesis using u inv by (simp add: reset_prefix_cache_def)
  next
    case True
    define p1 where "p1 = p\<lparr>cached_block_hash_to_block := [], cached_block_hashes_by_block := [],
      blk := (\<lambda>c. if int c < ?n then reset_hash (blk p c) else blk p c)\<rparr>"
    have "set [0..<nat ?n] = {c. int c < ?n}" by auto
    then have r: "reset_prefix_cache p =
        (True, if enable_kv_cache_events p then add_event AllBlocksCleared p1 else p1)"
      using True u by (simp add: reset_prefix_cache_def fold_reset p1_def cong: if_cong)
    have bo: "block_ok p c" for c using ci by (simp add: cache_inv_def)
    have none: "blk_hash (blk p1 c) = None" for c
      using bo [of c] by (auto simp: p1_def block_ok_def pool_block_def reset_hash_def)
    have h: "hashes_of p1 = (\<lambda>_. {})"
      using none by (simp add: hashes_of_def fun_eq_iff) (simp add: p1_def dict_get_def)
    have "block_ok p1 c" for c
      using bo [of c] none [of c]
      by (auto simp: block_ok_def p1_def dict_get_def reset_hash_def)
    then have ci1: "cache_inv p1"
      using h by (simp add: cache_inv_def) (simp add: p1_def)
    have sb: "same_blocks p p1"
      by (simp add: same_blocks_def same_static_def p1_def reset_hash_def)
    show ?thesis
      using True r h ci1 sb pool_inv_same_blocks [OF inv, of p1]
        pool_inv_same_blocks [OF inv, of "add_event AllBlocksCleared p1"]
      by (auto simp: add_event_def)
  qed
qed

lemma insert_all_ok:
  assumes "cache_inv p" and "pool_block p b"
  shows "\<exists>p'. fold_res (\<lambda>h. insert_block_hash h b ntok) hs p = Inr p' \<and> cache_inv p'
    \<and> same_blocks p p' \<and> hashes_of p' = (hashes_of p)(b := hashes_of p b \<union> set hs)
    \<and> kv_event_queue p' = kv_event_queue p"
  using assms
proof (induction hs arbitrary: p)
  case Nil
  then show ?case by simp
next
  case (Cons h hs)
  obtain p1 where p1: "insert_block_hash h b ntok p = Inr p1" "cache_inv p1" "same_blocks p p1"
    "hashes_of p1 = (hashes_of p)(b := insert h (hashes_of p b))"
    "kv_event_queue p1 = kv_event_queue p"
    using insert_block_hash_ok [OF Cons.prems] by metis
  moreover have "pool_block p1 b"
    using Cons.prems(2) same_blocks_pool_block [OF p1(3)] by simp
  ultimately obtain p2 where "fold_res (\<lambda>h. insert_block_hash h b ntok) hs p1 = Inr p2"
    "cache_inv p2" "same_blocks p1 p2" "hashes_of p2 = (hashes_of p1)(b := hashes_of p1 b \<union> set hs)"
    "kv_event_queue p2 = kv_event_queue p1"
    using Cons.IH [of p1] by blast
  then show ?case
    using p1 same_blocks_trans [of p p1 p2] by (auto simp: fun_eq_iff)
qed

text \<open>Moving re-points every key of the source to the destination and sends no event.\<close>

lemma move_block_hashes_ok:
  assumes "cache_inv p" and "env_ok env" and "pool_block p dst" and "src \<noteq> dst"
    and "hashes_of p dst = {}"
  shows "\<exists>p'. move_block_hashes env src dst p = Inr p' \<and> cache_inv p' \<and> same_blocks p p'
    \<and> hashes_of p' = (hashes_of p)(src := {}, dst := hashes_of p src)
    \<and> kv_event_queue p' = kv_event_queue p"
proof -
  obtain removed p1 where p1: "remove_cached_block_hashes env src p = (removed, p1)"
    "set removed = hashes_of p src" "cache_inv p1" "same_blocks p p1"
    "hashes_of p1 = (hashes_of p)(src := {})" "kv_event_queue p1 = kv_event_queue p"
    using remove_cached_block_hashes_ok [OF assms(1,2), of src] by metis
  have "pool_block p1 dst"
    using assms(3) same_blocks_pool_block [OF p1(4)] by simp
  from insert_all_ok [OF p1(3) this, of "blk_hash_num_tokens (blk p src)" removed]
  obtain p2 where p2: "fold_res (\<lambda>h. insert_block_hash h dst (blk_hash_num_tokens (blk p src)))
      removed p1 = Inr p2" "cache_inv p2" "same_blocks p1 p2"
    "hashes_of p2 = (hashes_of p1)(dst := hashes_of p1 dst \<union> set removed)"
    "kv_event_queue p2 = kv_event_queue p1"
    by blast
  have "blk_hash (blk p dst) = None \<and> map_of (cached_block_hashes_by_block p) dst = None"
    using assms(5) cache_invD(4) [OF assms(1), of dst]
    by (cases "map_of (cached_block_hashes_by_block p) dst")
      (auto simp: block_ok_def hashes_of_def dict_get_def)
  then have "move_block_hashes env src dst p = Inr p2"
    using p1 p2 by (simp add: move_block_hashes_def)
  then show ?thesis
    using p1 p2 assms(4,5) same_blocks_trans [OF p1(4) p2(3)] by (auto simp: fun_eq_iff)
qed

section \<open>Caching: what the pool finds afterwards\<close>

lemma cache_one_block_ok:
  assumes "cache_inv p" and "env_ok env" and "pool_block p b"
    and "cache_one_block env key b ntok p = Inr p'"
  shows "cache_inv p' \<and> same_blocks p p' \<and> hashes_of p' = (hashes_of p)(b := {key})"
proof (cases "blk_hash (blk p b)")
  case None
  then have "hashes_of p b = {}" using cache_inv_unhashed [OF assms(1)] by simp
  with None show ?thesis
    using insert_block_hash_ok [OF assms(1,3), of key "Some ntok"] assms(4)
    by (auto simp: cache_one_block_def)
next
  case (Some h)
  obtain removed p1 where p1: "remove_cached_block_hashes env b p = (removed, p1)"
    "cache_inv p1" "same_blocks p p1" "hashes_of p1 = (hashes_of p)(b := {})"
    using remove_cached_block_hashes_ok [OF assms(1,2), of b] by metis
  let ?p2 = "emit_block_removed_events env removed p1"
  have "insert_block_hash key b (Some ntok) ?p2 = Inr p'"
    using assms(4) Some p1(1)
    by (auto simp: cache_one_block_def split: option.splits if_splits)
  moreover have "same_blocks p ?p2" using p1(3) by simp
  moreover have "pool_block ?p2 b"
    using assms(3) same_blocks_pool_block [OF \<open>same_blocks p ?p2\<close>] by simp
  ultimately show ?thesis
    using insert_block_hash_ok [of ?p2 b key "Some ntok"] p1
      same_blocks_trans [of p ?p2 p']
    by auto
qed

lemma skipped_same:
  "same_blocks p p' \<Longrightarrow> skipped p' block_mask i b = skipped p block_mask i b"
  by (simp add: skipped_def same_blocks_def same_static_def)

text \<open>
  The loop leaves every block it does not cache alone, and gives each block it caches exactly
  the key of its own hash.
\<close>

lemma cache_full_loop_ok:
  assumes "cache_full_loop env hs msk num_cached bsize gid i bs nh p = Inr (nh', p')"
    and "cache_inv p" and "env_ok env" and "\<forall>b \<in> set bs. int b < num_gpu_blocks p"
  shows "cache_inv p' \<and> same_blocks p p'
    \<and> (\<forall>c. c \<notin> set bs \<longrightarrow> hashes_of p' c = hashes_of p c)
    \<and> (\<forall>j < length bs. skipped p msk (i + j) (bs ! j) \<longrightarrow> distinct bs \<longrightarrow>
         hashes_of p' (bs ! j) = hashes_of p (bs ! j))
    \<and> (\<forall>j < length bs. \<not> skipped p msk (i + j) (bs ! j) \<longrightarrow>
         bs ! j \<notin> set (drop (Suc j) bs) \<longrightarrow>
         (\<exists>h key. py_index hs (int (i + j)) = Inr h \<and> make_block_hash_with_group_id h gid = Inr key
            \<and> hashes_of p' (bs ! j) = {key}))"
  using assms
proof (induction bs arbitrary: i nh p)
  case Nil
  then show ?case by simp
next
  case (Cons b bs)
  show ?case
  proof (cases "skipped p msk i b")
    case True
    then have "cache_full_loop env hs msk num_cached bsize gid (Suc i) bs nh p = Inr (nh', p')"
      using Cons.prems(1) by simp
    note IH = Cons.IH [OF this Cons.prems(2,3)]
    show ?thesis
      using IH Cons.prems(4) True by (auto simp: nth_Cons ac_simps split: nat.split)
  next
    case False
    then obtain h key p1 where s: "py_index hs (int i) = Inr h"
      "make_block_hash_with_group_id h gid = Inr key"
      "cache_one_block env key b ((num_cached + int i + 1) * bsize) p = Inr p1"
      "cache_full_loop env hs msk num_cached bsize gid (Suc i) bs
        (nh @ [maybe_convert_block_hash (use_int_hashes env) h]) p1 = Inr (nh', p')"
      using Cons.prems(1) by (auto simp: res_simps)
    have "b \<noteq> 0"
      using False Cons.prems(2) by (auto simp: skipped_def cache_inv_def block_ok_def)
    then have "pool_block p b" using Cons.prems(4) by (simp add: pool_block_def)
    note p1 = cache_one_block_ok [OF Cons.prems(2,3) this s(3)]
    have "\<forall>b \<in> set bs. int b < num_gpu_blocks p1"
      using p1 Cons.prems(4) by (simp add: same_blocks_def same_static_def)
    note IH = Cons.IH [OF s(4) _ Cons.prems(3) this]
    have sk: "skipped p1 msk k c = skipped p msk k c" for k c
      using p1 skipped_same by blast
    show ?thesis
      using IH p1 s False same_blocks_trans [of p p1 p']
      by (auto simp: nth_Cons sk ac_simps split: nat.split)
  qed
qed

lemma add_event_keeps [simp]:
  "hashes_of (add_event e p) = hashes_of p" "cache_inv (add_event e p) = cache_inv p"
  "same_blocks q (add_event e p) = same_blocks q p" "blk (add_event e p) = blk p"
  by (simp_all add: add_event_def)

lemma full_blocks_event_keeps:
  assumes "full_blocks_event env r blocks num_cached num_full bsize gid msk hl nh p = Inr (r', p')"
  shows "\<exists>e. p' = add_event e p"
  using assms unfolding full_blocks_event_def by (auto simp: res_simps)

lemma cache_full_blocks_loop:
  assumes "cache_full_blocks env r blocks num_cached num_full bsize gid msk p = Inr (r', p')"
    and "num_cached < num_full"
  shows "\<exists>hl hs nh p1. resolve_block_hashes (RawHashes (block_hashes r)) (hash_block_size p) bsize
      False None = Inr hl \<and> bhl_from hl num_cached = Inr hs
    \<and> cache_full_loop env hs msk num_cached bsize gid 0 (py_slice blocks num_cached num_full) [] p
        = Inr (nh, p1)
    \<and> (p' = p1 \<or> (\<exists>e. p' = add_event e p1))"
proof -
  obtain hl where hl: "resolve_block_hashes (RawHashes (block_hashes r)) (hash_block_size p) bsize
      False None = Inr hl"
    "cache_new_full_blocks env r blocks num_cached num_full bsize gid msk hl p = Inr (r', p')"
    using assms by (auto simp: cache_full_blocks_def bind_res_eq_Inr split: if_split_asm)
  then obtain hs t where t: "bhl_from hl num_cached = Inr hs"
    "cache_full_loop env hs msk num_cached bsize gid 0 (py_slice blocks num_cached num_full) [] p
        = Inr t"
    "(if \<not> enable_kv_cache_events (snd t) then Inr (r, snd t)
      else full_blocks_event env r blocks num_cached num_full bsize gid msk hl (fst t) (snd t))
        = Inr (r', p')"
    unfolding cache_new_full_blocks_def bind_res_eq_Inr split_beta by blast
  then have "p' = snd t \<or> (\<exists>e. p' = add_event e (snd t))"
    using full_blocks_event_keeps by (auto split: if_split_asm)
  with hl t show ?thesis by (metis prod.collapse)
qed

lemma in_set_py_slice: "b \<in> set (py_slice xs i j) \<Longrightarrow> b \<in> set xs"
  by (auto simp: py_slice_def dest: in_set_takeD in_set_dropD)

lemma cache_full_blocks_keeps:
  assumes "cache_full_blocks env r blocks num_cached num_full bsize gid msk p = Inr (r', p')"
    and "cache_inv p" and "env_ok env" and "\<forall>b \<in> set blocks. int b < num_gpu_blocks p"
  shows "cache_inv p' \<and> same_blocks p p'
    \<and> (\<forall>c. c \<notin> set (py_slice blocks num_cached num_full) \<longrightarrow> hashes_of p' c = hashes_of p c)"
proof (cases "num_cached < num_full")
  case False
  then show ?thesis using assms(1,2) by (simp add: cache_full_blocks_def)
next
  case True
  from cache_full_blocks_loop [OF assms(1) this] obtain hs nh p1 where
    l: "cache_full_loop env hs msk num_cached bsize gid 0 (py_slice blocks num_cached num_full) [] p
        = Inr (nh, p1)" and p': "p' = p1 \<or> (\<exists>e. p' = add_event e p1)"
    by blast
  have "\<forall>b \<in> set (py_slice blocks num_cached num_full). int b < num_gpu_blocks p"
    using assms(4) by (auto dest: in_set_py_slice)
  from cache_full_loop_ok [OF l assms(2,3) this]
  have "cache_inv p1 \<and> same_blocks p p1
    \<and> (\<forall>c. c \<notin> set (py_slice blocks num_cached num_full) \<longrightarrow> hashes_of p1 c = hashes_of p c)"
    by blast
  with p' show ?thesis by (elim disjE exE) simp_all
qed

lemma emit_cached_block_events_keeps:
  assumes "emit_cached_block_events env r num_cached bsize gid p = Inr (r', p')"
  shows "p' = p \<or> (\<exists>e. p' = add_event e p)"
  using assms
  by (auto simp: emit_cached_block_events_def res_simps split: if_splits)

lemma partial_block_event_keeps:
  assumes "partial_block_event env r h ntok gid p = Inr (r', p')"
  shows "\<exists>e. p' = add_event e p"
  using assms by (auto simp: partial_block_event_def res_simps)

text \<open>
  A partial entry: afterwards the block is found under the hash of the prefix of \<open>ntok\<close>
  tokens; its former hashes stay, unless they cover fewer tokens and the key is new.
\<close>

lemma cache_partial_block_ok:
  assumes run: "cache_partial_block env r b ntok gid bsize p = Inr (k, r', p')"
    and inv: "cache_inv p" and env: "env_ok env" and b: "pool_block p b"
  shows "\<exists>h key. get_partial_block_hash r ntok p = Inr h
    \<and> make_block_hash_with_group_id h gid = Inr key \<and> k = Some key
    \<and> cache_inv p' \<and> same_blocks p p'
    \<and> (hashes_of p' = (hashes_of p)(b := insert key (hashes_of p b))
       \<or> hashes_of p' = (hashes_of p)(b := {key}))"
proof -
  have nn: "\<not> is_null (blk p b)"
    using inv b by (simp add: cache_inv_def block_ok_def pool_block_def)
  then obtain h key where hk: "get_partial_block_hash r ntok p = Inr h"
    "make_block_hash_with_group_id h gid = Inr key"
    "register_partial_block env r b ntok gid h key p = Inr (k, r', p')"
    using run by (auto simp: cache_partial_block_def res_simps split: if_splits)
  let ?covered = "ntok div hash_block_size p * hash_block_size p"
  define p1 where "p1 = drop_outdated_hashes env b key ?covered p"
  have p1: "cache_inv p1" "same_blocks p p1"
    "hashes_of p1 = hashes_of p \<or> hashes_of p1 = (hashes_of p)(b := {})"
    using remove_cached_block_hashes_ok [OF inv env, of b] inv
    by (auto simp: p1_def drop_outdated_hashes_def)
  then have "pool_block p1 b" using b same_blocks_pool_block by blast
  from insert_block_hash_ok [OF p1(1) this] obtain p2 where p2:
    "insert_block_hash key b (Some ?covered) p1 = Inr p2"
    "cache_inv p2" "same_blocks p1 p2"
    "hashes_of p2 = (hashes_of p1)(b := insert key (hashes_of p1 b))"
    by blast
  have k: "k = Some key" and p': "p' = p2 \<or> (\<exists>e. p' = add_event e p2)"
    using hk(3) p2(1)
    by (auto simp: register_partial_block_def Let_def res_simps p1_def [symmetric]
        split: if_splits dest: partial_block_event_keeps)
  from p' have "cache_inv p'" "same_blocks p p'" "hashes_of p' = hashes_of p2"
    using p2(2) same_blocks_trans [OF p1(2) p2(3)] by (elim disjE exE; simp)+
  moreover have "hashes_of p2 = (hashes_of p)(b := insert key (hashes_of p b))
      \<or> hashes_of p2 = (hashes_of p)(b := {key})"
    using p1(3) p2(4) by (elim disjE) simp_all
  ultimately show ?thesis using hk(1,2) k by auto
qed

section \<open>Looking up\<close>

lemma get_cached_block_total:
  assumes inv: "cache_inv p" and "\<forall>g \<in> set gids. 0 \<le> g \<and> g < 2 ^ 32"
  shows "\<exists>r. get_cached_block p h gids = Inr r \<and>
    (case r of
       None \<Rightarrow> \<exists>g \<in> set gids. \<exists>key. make_block_hash_with_group_id h g = Inr key
         \<and> (\<forall>b. key \<notin> hashes_of p b)
     | Some bs \<Rightarrow> list_all2 (\<lambda>g b. \<exists>key. make_block_hash_with_group_id h g = Inr key
         \<and> key \<in> hashes_of p b) gids bs)"
  using assms(2)
proof (induction gids)
  case Nil
  then show ?case by simp
next
  case (Cons g gids)
  obtain key where key: "make_block_hash_with_group_id h g = Inr key"
    using Cons.prems by (auto simp: make_block_hash_with_group_id_def to_bytes4_def)
  obtain r where r: "get_one_block (cached_block_hash_to_block p) key = Inr r"
    "case r of None \<Rightarrow> holders (cached_block_hash_to_block p) key = {}
     | Some b \<Rightarrow> b \<in> holders (cached_block_hash_to_block p) key"
    using idx.look_total [OF cache_invD(1) [OF inv], of key] by blast
  note held = cache_invD(3) [OF inv, of key]
  show ?case
  proof (cases r)
    case None
    then show ?thesis using r key held by auto
  next
    case (Some b)
    from Cons.IH Cons.prems obtain r' where r': "get_cached_block p h gids = Inr r'"
      "case r' of
         None \<Rightarrow> \<exists>g \<in> set gids. \<exists>key. make_block_hash_with_group_id h g = Inr key
           \<and> (\<forall>b. key \<notin> hashes_of p b)
       | Some bs \<Rightarrow> list_all2 (\<lambda>g b. \<exists>key. make_block_hash_with_group_id h g = Inr key
           \<and> key \<in> hashes_of p b) gids bs"
      by auto
    then show ?thesis
      using Some r key held by (cases r') auto
  qed
qed

lemma hashes_of_pool_block: "cache_inv p \<Longrightarrow> key \<in> hashes_of p b \<Longrightarrow> pool_block p b"
  using cache_invD(4) [of p b] cache_inv_unhashed [of p b] by (auto simp: block_ok_def)

section \<open>Reachable pools\<close>

text \<open>
  A client calls the operations with blocks of the pool, frees only references that it holds,
  and moves hashes to a block other than the null block.
\<close>

definition client_may_free :: "nat list \<Rightarrow> block_pool \<Rightarrow> bool" where
  "client_may_free bs p \<longleftrightarrow>
     (\<forall>b \<in> set bs. b \<noteq> 0 \<longrightarrow> int (count_list bs b) \<le> ref_cnt (blk p b))
     \<and> (\<forall>b \<in> set bs. int b < num_gpu_blocks p)"

inductive pool_step :: "pool_env \<Rightarrow> block_pool \<Rightarrow> block_pool \<Rightarrow> bool" for env where
  Step_get_new_blocks: "0 \<le> n \<Longrightarrow> get_new_blocks env n p = Inr (bs, p') \<Longrightarrow> pool_step env p p'"
| Step_touch: "\<forall>b \<in> set bs. int b < num_gpu_blocks p \<Longrightarrow> touch bs p = Inr p' \<Longrightarrow> pool_step env p p'"
| Step_free_blocks: "client_may_free bs p \<Longrightarrow> free_blocks bs p = Inr p' \<Longrightarrow> pool_step env p p'"
| Step_evict_blocks: "\<forall>i \<in> set ids. 0 \<le> i \<Longrightarrow> evict_blocks env ids p = Inr p' \<Longrightarrow> pool_step env p p'"
| Step_reset: "reset_prefix_cache p = (done, p') \<Longrightarrow> pool_step env p p'"
| Step_cache_full: "\<forall>b \<in> set blocks. int b < num_gpu_blocks p \<Longrightarrow>
    cache_full_blocks env r blocks num_cached num_full bsize gid msk p = Inr (r', p') \<Longrightarrow>
    pool_step env p p'"
| Step_cache_partial: "int b < num_gpu_blocks p \<Longrightarrow>
    cache_partial_block env r b ntok gid bsize p = Inr (k, r', p') \<Longrightarrow> pool_step env p p'"
| Step_emit_cached: "emit_cached_block_events env r num_cached bsize gid p = Inr (r', p') \<Longrightarrow>
    pool_step env p p'"
| Step_move: "pool_block p dst \<Longrightarrow> move_block_hashes env src dst p = Inr p' \<Longrightarrow> pool_step env p p'"
| Step_take_events: "take_events p = (events, p') \<Longrightarrow> pool_step env p p'"

inductive pool_reachable :: "pool_env \<Rightarrow> block_pool \<Rightarrow> bool" for env where
  Reach_init: "pool_init n caching hbs events = Inr p \<Longrightarrow> pool_reachable env p"
| Reach_step: "pool_reachable env p \<Longrightarrow> pool_step env p p' \<Longrightarrow> pool_reachable env p'"

inductive_cases pool_stepE: "pool_step env p p'"

lemma evict_blocks_range:
  "evict_blocks env ids p = Inr p' \<Longrightarrow> \<forall>i \<in> set ids. 0 \<le> i \<Longrightarrow> cache_inv p \<Longrightarrow> env_ok env \<Longrightarrow>
   \<forall>i \<in> set ids. i < num_gpu_blocks p"
proof (induction ids arbitrary: p)
  case Nil
  then show ?case by simp
next
  case (Cons i ids)
  obtain p1 where p1: "maybe_evict_cached_block env (nat i) p = (hashes_of p (nat i) \<noteq> {}, p1)"
    "cache_inv p1" "same_blocks p p1"
    using maybe_evict_ok [OF Cons.prems(3,4)] by metis
  have i: "i < num_gpu_blocks p" using Cons.prems(1) by (auto simp: evict_blocks_def split: if_splits)
  then have "evict_blocks env ids p1 = Inr p'"
    using Cons.prems(1,2) p1(1) by (auto simp: evict_blocks_def py_index_def)
  then show ?case
    using Cons.IH [of p1] Cons.prems p1 i by (auto simp: same_blocks_def same_static_def)
qed

lemma pool_step_inv:
  assumes "pool_step env p p'" and inv: "pool_inv p xs" and env: "env_ok env"
  shows "\<exists>xs'. pool_inv p' xs'"
proof -
  have ci: "cache_inv p" using inv by (simp add: pool_inv_def)
  note keep = pool_inv_same_blocks [OF inv]
  from assms(1) show ?thesis
  proof cases
    case (Step_get_new_blocks n bs)
    then have "n \<le> int (length xs)"
      using get_new_blocks_short [OF inv, of n env] by (cases "int (length xs) < n") auto
    then show ?thesis
      using get_new_blocks_ok [OF inv env Step_get_new_blocks(1)] Step_get_new_blocks(2) by auto
  next
    case (Step_touch bs)
    then show ?thesis using touch_ok [OF inv Step_touch(1)] by auto
  next
    case (Step_free_blocks bs)
    then show ?thesis using free_blocks_ok [OF inv, of bs] by (auto simp: client_may_free_def)
  next
    case (Step_evict_blocks ids)
    have "\<forall>i \<in> set ids. 0 \<le> i \<and> i < num_gpu_blocks p"
      using Step_evict_blocks evict_blocks_range ci env by blast
    then show ?thesis
      using evict_blocks_ok [OF ci env] Step_evict_blocks(2) keep by fastforce
  next
    case (Step_reset ok)
    then show ?thesis using reset_prefix_cache_ok [OF inv] by auto
  next
    case (Step_cache_full blocks r num_cached num_full bsize gid msk r')
    then show ?thesis
      using cache_full_blocks_keeps [OF _ ci env Step_cache_full(1)] keep by blast
  next
    case (Step_cache_partial b r ntok gid bsize k r')
    show ?thesis
    proof (cases "is_null (blk p b)")
      case True
      then show ?thesis using Step_cache_partial inv by (auto simp: cache_partial_block_def)
    next
      case False
      then have "pool_block p b"
        using Step_cache_partial(1) pool_inv_is_null [OF inv, of b] by (simp add: pool_block_def)
      then show ?thesis
        using cache_partial_block_ok [OF Step_cache_partial(2) ci env] keep by blast
    qed
  next
    case (Step_emit_cached r num_cached bsize gid r')
    then show ?thesis
      using emit_cached_block_events_keeps keep [of p'] inv ci by fastforce
  next
    case (Step_move dst src)
    show ?thesis
    proof (cases "src = dst")
      case True
      have h: "hashes_of p dst = {}"
        using Step_move(2) cache_inv_unhashed [OF ci, of dst]
        by (auto simp: move_block_hashes_def split: if_splits)
      obtain removed p1 where r: "remove_cached_block_hashes env src p = (removed, p1)"
        "set removed = hashes_of p src" "cache_inv p1" "same_blocks p p1"
        using remove_cached_block_hashes_ok [OF ci env, of src] by metis
      then have "p' = p1"
        using Step_move(2) True h by (simp add: move_block_hashes_def split: if_splits)
      then show ?thesis using keep r by blast
    next
      case False
      have "hashes_of p dst = {}"
        using Step_move(2) cache_inv_unhashed [OF ci, of dst]
        by (auto simp: move_block_hashes_def split: if_splits)
      then show ?thesis
        using move_block_hashes_ok [OF ci env Step_move(1) False] Step_move(2) keep by auto
    qed
  next
    case (Step_take_events events)
    then show ?thesis
      using keep [of p'] ci inv by (auto simp: take_events_def split: if_splits)
  qed
qed

lemma pool_reachable_inv:
  assumes "pool_reachable env p" and "env_ok env"
  shows "\<exists>xs. pool_inv p xs"
  using assms(1)
proof induction
  case (Reach_init n caching hbs events p)
  then have "n > 0" by (simp add: pool_init_def split: if_splits)
  from pool_init_ok [OF this, of caching hbs events] Reach_init show ?case by auto
next
  case (Reach_step p p')
  then show ?case using pool_step_inv assms(2) by blast
qed

section \<open>Properties\<close>

text \<open>A pool to evaluate the properties on: four blocks besides the null block.\<close>

definition sample_env :: pool_env where
  "sample_env = \<lparr>use_int_hashes = False, set_order = (\<lambda>hs. hs), embeds_digest = (\<lambda>_. [])\<rparr>"

definition sample_pool :: block_pool where
  "sample_pool = (case pool_init 5 True 2 True of Inr p \<Rightarrow> p)"

lemma sample_env_ok: "env_ok sample_env"
  by (simp add: env_ok_def sample_env_def)

lemma sample_pool_init: "pool_init 5 True 2 True = Inr sample_pool"
  using pool_init_ok [of 5 True 2 True] by (auto simp: sample_pool_def)

lemma sample_pool_reachable: "pool_reachable sample_env sample_pool"
  using sample_pool_init by (rule Reach_init)

lemma sample_pool_facts:
  "pool_inv sample_pool [1..<5]" "hashes_of sample_pool = (\<lambda>_. {})"
  "num_gpu_blocks sample_pool = 5" "enable_caching sample_pool" "hash_block_size sample_pool = 2"
  "enable_kv_cache_events sample_pool"
  using pool_init_ok [of 5 True 2 True] by (auto simp: sample_pool_init)

lemma sample_pool_idle:
  "is_null (blk sample_pool b) \<longleftrightarrow> b = 0" "blk_hash (blk sample_pool b) = None"
  "0 < b \<Longrightarrow> b < 5 \<Longrightarrow> ref_cnt (blk sample_pool b) = 0"
  using pool_inv_is_null [OF sample_pool_facts(1)] sample_pool_facts cache_inv_unhashed
  by (auto simp: pool_inv_def pool_block_def)

text \<open>
  C6. Conservation of blocks: in every pool that its operations can reach, the links of the
  free list, its counter and the reference counts agree - the free list holds, once each, just
  the blocks other than the null block without a reference - and the prefix cache holds a
  block under just the hashes that the block carries, and never the null block.
\<close>

theorem reachable_pool_is_consistent:
  assumes "pool_reachable env p" and "env_ok env"
  shows "\<exists>xs. get_all_free_blocks (free_block_queue p) = Some (Inr (map Blk xs))
    \<and> get_num_free_blocks p = int (length xs) \<and> distinct xs
    \<and> set xs = {b. 0 < b \<and> int b < num_gpu_blocks p \<and> ref_cnt (blk p b) = 0}
    \<and> (\<forall>b. 0 < b \<longrightarrow> int b < num_gpu_blocks p \<longrightarrow> 0 \<le> ref_cnt (blk p b))
    \<and> (\<forall>key b. contain_block (cached_block_hash_to_block p) key b \<longleftrightarrow> key \<in> hashes_of p b)
    \<and> hashes_of p 0 = {}"
proof -
  obtain xs where inv: "pool_inv p xs" using pool_reachable_inv [OF assms] by blast
  then have "get_all_free_blocks (free_block_queue p) = Some (Inr (map Blk xs))"
    by (auto simp: pool_inv_def fq_rel_def get_all_free_blocks_eq)
  moreover have "hashes_of p 0 = {}"
    using hashes_of_pool_block [of p _ 0] inv by (auto simp: pool_inv_def pool_block_def)
  ultimately show ?thesis
    using inv pool_inv_num_free [OF inv] pool_inv_distinct [OF inv]
    by (intro exI [of _ xs]) (simp add: pool_inv_def pool_block_def idx.has_iff cache_inv_def)
qed

theorem reachable_pool_is_consistent_witness:
  "\<exists>xs. get_all_free_blocks (free_block_queue sample_pool) = Some (Inr (map Blk xs))
    \<and> get_num_free_blocks sample_pool = int (length xs)"
  using reachable_pool_is_consistent [OF sample_pool_reachable sample_env_ok] by blast

text \<open>
  C7. Allocation: asked for at most as many blocks as are free, the pool returns the first
  ones of the free list, distinct, none of them the null block or in use before, each with one
  reference and (with caching on) out of the prefix cache, and everything else is as it was;
  asked for more, it raises \<open>ValueError\<close>.
\<close>

theorem get_new_blocks_correct:
  assumes "pool_reachable env p" and "env_ok env" and "0 \<le> n"
  shows "if n > get_num_free_blocks p then get_new_blocks env n p = Inl ValueError
    else \<exists>bs p'. get_new_blocks env n p = Inr (bs, p') \<and> distinct bs \<and> int (length bs) = n
      \<and> get_all_free_blocks (free_block_queue p) =
          map_option (map_sum id (\<lambda>rest. map Blk bs @ rest))
            (get_all_free_blocks (free_block_queue p'))
      \<and> (\<forall>b \<in> set bs. b \<noteq> 0 \<and> ref_cnt (blk p b) = 0)
      \<and> (\<forall>b. ref_cnt (blk p' b) = (if b \<in> set bs then 1 else ref_cnt (blk p b)))
      \<and> (\<forall>b. hashes_of p' b = (if enable_caching p \<and> b \<in> set bs then {} else hashes_of p b))"
proof -
  obtain xs where inv: "pool_inv p xs" using pool_reachable_inv [OF assms(1,2)] by blast
  have free: "get_num_free_blocks p = int (length xs)" by (rule pool_inv_num_free [OF inv])
  show ?thesis
  proof (cases "n > get_num_free_blocks p")
    case True
    then show ?thesis using get_new_blocks_short [OF inv] free by simp
  next
    case False
    then obtain p' where p': "get_new_blocks env n p = Inr (take (nat n) xs, p')"
      "pool_inv p' (drop (nat n) xs)"
      "hashes_of p' = (\<lambda>c. if enable_caching p \<and> c \<in> set (take (nat n) xs) then {} else hashes_of p c)"
      "\<forall>c. ref_cnt (blk p' c) = (if c \<in> set (take (nat n) xs) then 1 else ref_cnt (blk p c))"
      using get_new_blocks_ok [OF inv assms(2,3)] free by auto
    have "get_all_free_blocks (free_block_queue q) = Some (Inr (map Blk ys))"
      if "pool_inv q ys" for q ys
      using that by (auto simp: pool_inv_def fq_rel_def get_all_free_blocks_eq)
    then have "get_all_free_blocks (free_block_queue p) =
          map_option (map_sum id (\<lambda>rest. map Blk (take (nat n) xs) @ rest))
            (get_all_free_blocks (free_block_queue p'))"
      using inv p'(2) by (simp flip: map_append)
    moreover have "\<forall>b \<in> set (take (nat n) xs). b \<noteq> 0 \<and> ref_cnt (blk p b) = 0"
      using inv by (auto simp: pool_inv_def pool_block_def dest: in_set_takeD)
    moreover have "int (length (take (nat n) xs)) = n" using False free assms(3) by simp
    ultimately show ?thesis
      using False p' pool_inv_distinct [OF inv] by auto
  qed
qed

theorem get_new_blocks_correct_witness:
  "\<exists>bs p'. get_new_blocks sample_env 2 sample_pool = Inr (bs, p') \<and> distinct bs
     \<and> int (length bs) = 2"
proof -
  have "get_num_free_blocks sample_pool = 4"
    using pool_inv_num_free [OF sample_pool_facts(1)] by simp
  then show ?thesis
    using get_new_blocks_correct [OF sample_pool_reachable sample_env_ok, of 2] by auto
qed

lemma pool_inv_free_list:
  "pool_inv p xs \<Longrightarrow> get_all_free_blocks (free_block_queue p) = Some (Inr (map Blk xs))"
  by (auto simp: pool_inv_def fq_rel_def get_all_free_blocks_eq)

lemma pool_free_list_inv:
  assumes "pool_reachable env p" and "env_ok env"
    and "get_all_free_blocks (free_block_queue p) = Some (Inr (map Blk xs))"
  shows "pool_inv p xs"
proof -
  obtain ys where inv: "pool_inv p ys" using pool_reachable_inv [OF assms(1,2)] by blast
  have "map Blk ys = map Blk xs" using pool_inv_free_list [OF inv] assms(3) by simp
  then show ?thesis using inv by (simp add: inj_map_eq_map inj_on_def)
qed

text \<open>
  C8. Freeing: giving back references that are held succeeds; every block loses as many
  references as it is listed, the blocks whose last reference goes away become free in the
  order in which they are given - those without a hash at the front of the free list (to be
  reused first), the cached ones at its end (to be evicted last) - and no hash changes.
\<close>

theorem free_blocks_correct:
  assumes "pool_reachable env p" and "env_ok env" and "client_may_free bs p"
    and "get_all_free_blocks (free_block_queue p) = Some (Inr (map Blk xs))"
  shows "\<exists>p'. free_blocks bs p = Inr p'
    \<and> (let rel = released (\<lambda>b. ref_cnt (blk p b)) bs;
           first = (\<lambda>b. hashes_of p b = {} \<or> \<not> enable_caching p)
       in get_all_free_blocks (free_block_queue p') =
            Some (Inr (map Blk (filter first rel @ xs @ filter (\<lambda>b. \<not> first b) rel)))
          \<and> distinct rel
          \<and> set rel = {b \<in> set bs. b \<noteq> 0 \<and> ref_cnt (blk p b) = int (count_list bs b)})
    \<and> hashes_of p' = hashes_of p
    \<and> (\<forall>b. ref_cnt (blk p' b) = ref_cnt (blk p b) - int (count_list bs b))"
proof -
  have inv: "pool_inv p xs" using pool_free_list_inv assms by blast
  have refs: "\<forall>b \<in> set bs. b \<noteq> 0 \<longrightarrow> int (count_list bs b) \<le> ref_cnt (blk p b)"
    and range: "\<forall>b \<in> set bs. int b < num_gpu_blocks p"
    using assms(3) by (simp_all add: client_may_free_def)
  obtain p' where p': "free_blocks bs p = Inr p'"
    "pool_inv p' (filter (\<lambda>b. hashes_of p b = {} \<or> \<not> enable_caching p)
        (released (\<lambda>b. ref_cnt (blk p b)) bs) @ xs
      @ filter (\<lambda>b. \<not> (hashes_of p b = {} \<or> \<not> enable_caching p))
        (released (\<lambda>b. ref_cnt (blk p b)) bs))"
    "hashes_of p' = hashes_of p"
    "\<forall>c. ref_cnt (blk p' c) = ref_cnt (blk p c) - int (count_list bs c)"
    using free_blocks_ok [OF inv refs range] by blast
  show ?thesis
    using p'(1,3,4) pool_inv_free_list [OF p'(2)] set_released [OF refs] distinct_released [OF refs]
    by (simp add: Let_def)
qed

lemma sample_alloc:
  "\<exists>p1. get_new_blocks sample_env 2 sample_pool = Inr ([1, 2], p1) \<and> pool_reachable sample_env p1
    \<and> pool_inv p1 [3, 4] \<and> num_gpu_blocks p1 = 5 \<and> enable_caching p1 \<and> hash_block_size p1 = 2
    \<and> enable_kv_cache_events p1
    \<and> hashes_of p1 = (\<lambda>_. {}) \<and> ref_cnt (blk p1 1) = 1 \<and> ref_cnt (blk p1 2) = 1"
proof -
  have ev: "take (nat 2) [1..<5] = [1, 2::nat]" "drop (nat 2) [1..<5] = [3, 4::nat]"
    by code_simp+
  obtain p1 where p1: "get_new_blocks sample_env 2 sample_pool = Inr ([1, 2], p1)"
    "pool_inv p1 [3, 4]" "same_static sample_pool p1"
    "hashes_of p1 = (\<lambda>c. if enable_caching sample_pool \<and> c \<in> set [1, 2] then {}
      else hashes_of sample_pool c)"
    "\<forall>c. ref_cnt (blk p1 c) = (if c \<in> set [1, 2] then 1 else ref_cnt (blk sample_pool c))"
    using get_new_blocks_ok [OF sample_pool_facts(1) sample_env_ok, of 2] unfolding ev by auto
  have "pool_reachable sample_env p1"
    by (rule Reach_step [OF sample_pool_reachable]) (rule Step_get_new_blocks [OF _ p1(1)], simp)
  then show ?thesis
    using p1 sample_pool_facts
    by (auto simp: same_static_def fun_eq_iff)
qed

theorem free_blocks_correct_witness:
  "\<exists>p1 p2. get_new_blocks sample_env 2 sample_pool = Inr ([1, 2], p1)
    \<and> free_blocks [2, 1] p1 = Inr p2
    \<and> get_all_free_blocks (free_block_queue p2) = Some (Inr [Blk 2, Blk 1, Blk 3, Blk 4])"
proof -
  obtain p1 where p1: "get_new_blocks sample_env 2 sample_pool = Inr ([1, 2], p1)"
    "pool_reachable sample_env p1" "pool_inv p1 [3, 4]" "num_gpu_blocks p1 = 5"
    "hashes_of p1 = (\<lambda>_. {})" "ref_cnt (blk p1 1) = 1" "ref_cnt (blk p1 2) = 1"
    using sample_alloc by blast
  have "client_may_free [2, 1] p1" using p1 by (simp add: client_may_free_def)
  moreover have "released (\<lambda>b. ref_cnt (blk p1 b)) [2, 1] = [2, 1]" using p1 by simp
  ultimately show ?thesis
    using free_blocks_correct [OF p1(2) sample_env_ok _ pool_inv_free_list [OF p1(3)], of "[2, 1]"]
      p1(1,5)
    by (auto simp: Let_def)
qed

text \<open>
  C20. Least recently used last: when free cached blocks are touched and given back, they
  leave the free list and come back as its last entries, in the order given; every reference
  count is what it was and no hash changes.
\<close>

theorem touch_then_free_moves_to_end:
  assumes "pool_reachable env p" and "env_ok env" and "enable_caching p" and "distinct bs"
    and "get_all_free_blocks (free_block_queue p) = Some (Inr (map Blk xs))"
    and "\<forall>b \<in> set bs. b \<in> set xs \<and> hashes_of p b \<noteq> {}"
  shows "\<exists>p1 p2. touch bs p = Inr p1 \<and> free_blocks bs p1 = Inr p2
    \<and> get_all_free_blocks (free_block_queue p1) =
        Some (Inr (map Blk (filter (\<lambda>b. b \<notin> set bs) xs)))
    \<and> get_all_free_blocks (free_block_queue p2) =
        Some (Inr (map Blk (filter (\<lambda>b. b \<notin> set bs) xs @ bs)))
    \<and> (\<forall>b. ref_cnt (blk p2 b) = ref_cnt (blk p b)) \<and> hashes_of p2 = hashes_of p"
proof -
  have inv: "pool_inv p xs" using pool_free_list_inv assms by blast
  have free: "pool_block p b \<and> ref_cnt (blk p b) = 0" if "b \<in> set bs" for b
    using that assms(6) inv by (auto simp: pool_inv_def)
  have "\<forall>b \<in> set bs. int b < num_gpu_blocks p" using free by (simp add: pool_block_def)
  from touch_ok [OF inv this] obtain p1 where p1: "touch bs p = Inr p1"
    "pool_inv p1 (filter (\<lambda>b. b \<notin> set bs) xs)" "same_static p p1" "hashes_of p1 = hashes_of p"
    "\<forall>c. ref_cnt (blk p1 c) = ref_cnt (blk p c) + int (count_list bs c)"
    by blast
  have one: "count_list bs b = (if b \<in> set bs then 1 else 0)" for b
    using assms(4) by (induction bs) auto
  have refs: "\<forall>b \<in> set bs. b \<noteq> 0 \<longrightarrow> int (count_list bs b) \<le> ref_cnt (blk p1 b)"
    and range: "\<forall>b \<in> set bs. int b < num_gpu_blocks p1"
    using free p1(3,5) by (auto simp: pool_block_def same_static_def)
  have "released r bs = bs" if "\<forall>b \<in> set bs. r b = 1 \<and> b \<noteq> 0" for r :: "nat \<Rightarrow> int"
    using that assms(4)
  proof (induction bs arbitrary: r)
    case (Cons b bs)
    then have "\<forall>c \<in> set bs. (r(b := r b - 1)) c = 1 \<and> c \<noteq> 0" by auto
    from Cons.IH [OF this] Cons.prems show ?case by (simp del: fun_upd_apply)
  qed simp
  then have rel: "released (\<lambda>b. ref_cnt (blk p1 b)) bs = bs"
    using free p1(5) one by (simp add: pool_block_def)
  have "filter (\<lambda>b. hashes_of p1 b = {} \<or> \<not> enable_caching p1) bs = []"
    "filter (\<lambda>b. \<not> (hashes_of p1 b = {} \<or> \<not> enable_caching p1)) bs = bs"
    using assms(3,6) p1(3,4) by (auto simp: same_static_def filter_empty_conv filter_id_conv)
  then obtain p2 where "free_blocks bs p1 = Inr p2"
    "pool_inv p2 (filter (\<lambda>b. b \<notin> set bs) xs @ bs)" "hashes_of p2 = hashes_of p1"
    "\<forall>c. ref_cnt (blk p2 c) = ref_cnt (blk p1 c) - int (count_list bs c)"
    using free_blocks_ok [OF p1(2) refs range] by (simp add: rel) blast
  then show ?thesis
    using p1 pool_inv_free_list by simp
qed

text \<open>A request whose two blocks of two tokens have the hashes 7 and 8.\<close>

definition two_block_request :: request where
  "two_block_request = \<lparr>request_id = ''r'', block_hashes = [[7], [8]],
     all_token_ids = [1, 2, 3, 4], num_tokens = 4, num_prompt_tokens = 4,
     shared_prefix_boundary = 0, mm_features = [], lora_req = None, cache_salt = None,
     prompt_embeds = None, prompt_embeds_hashes = []\<rparr>"

text \<open>A pool whose blocks 1 and 2 are cached and free: cached by a request, then given back.\<close>

definition sample_cached_pool :: block_pool where
  "sample_cached_pool =
     (case cache_full_blocks sample_env two_block_request [1, 2] 0 2 2 0 None sample_pool of
        Inr (r', p') \<Rightarrow> p')"

lemma sample_cached_pool_run:
  obtains r' where "cache_full_blocks sample_env two_block_request [1, 2] 0 2 2 0 None sample_pool
      = Inr (r', sample_cached_pool)"
proof -
  have "is_ok (cache_full_blocks sample_env two_block_request [1, 2] 0 2 2 0 None sample_pool)"
    by code_simp
  then obtain r' p' where run: "cache_full_blocks sample_env two_block_request [1, 2] 0 2 2 0 None
      sample_pool = Inr (r', p')"
    by (auto simp: is_ok_iff)
  then have "sample_cached_pool = p'" by (simp add: sample_cached_pool_def)
  then show thesis using run that by blast
qed

lemma sample_range: "\<forall>b \<in> set [1, 2]. int b < num_gpu_blocks sample_pool"
  by (simp add: sample_pool_facts)

lemma sample_cached_pool_reachable: "pool_reachable sample_env sample_cached_pool"
  by (rule sample_cached_pool_run)
    (rule Reach_step [OF sample_pool_reachable Step_cache_full [OF sample_range]])

lemma sample_cached_pool_keeps: "same_blocks sample_pool sample_cached_pool"
proof (rule sample_cached_pool_run)
  fix r'
  assume run: "cache_full_blocks sample_env two_block_request [1, 2] 0 2 2 0 None sample_pool
      = Inr (r', sample_cached_pool)"
  show ?thesis
    using cache_full_blocks_keeps [OF run _ sample_env_ok sample_range] sample_pool_facts(1)
    by (simp add: pool_inv_def)
qed

theorem touch_then_free_moves_to_end_witness:
  "\<exists>p1 p2. touch [2, 1] sample_cached_pool = Inr p1 \<and> free_blocks [2, 1] p1 = Inr p2
    \<and> get_all_free_blocks (free_block_queue p2) = Some (Inr [Blk 3, Blk 4, Blk 2, Blk 1])"
proof -
  have "get_all_free_blocks (free_block_queue sample_cached_pool) =
      Some (Inr (map Blk [1, 2, 3, 4]))"
    using pool_inv_free_list [OF sample_pool_facts(1)] sample_cached_pool_keeps
    by (simp add: same_blocks_def upt_rec numeral_eq_Suc)
  moreover have "enable_caching sample_cached_pool"
    using sample_cached_pool_keeps by (simp add: same_blocks_def same_static_def sample_pool_facts)
  moreover have "blk_hash (blk sample_cached_pool 1) \<noteq> None" "blk_hash (blk sample_cached_pool 2) \<noteq> None"
    by code_simp+
  then have "hashes_of sample_cached_pool 1 \<noteq> {}" "hashes_of sample_cached_pool 2 \<noteq> {}"
    by (auto simp: hashes_of_def)
  ultimately show ?thesis
    using touch_then_free_moves_to_end [OF sample_cached_pool_reachable sample_env_ok, of "[2, 1]" "[1, 2, 3, 4]"]
    by auto
qed

text \<open>
  Prefix-cache lookups: for valid group ids, a lookup never raises; when it returns
  blocks, there is one for each group, in their order, not the null block and carrying the
  key of that group; when it returns none, some group has no block with its key.
\<close>

theorem get_cached_block_correct:
  assumes "pool_reachable env p" and "env_ok env" and "\<forall>g \<in> set gids. 0 \<le> g \<and> g < 2 ^ 32"
  shows "\<exists>r. get_cached_block p h gids = Inr r \<and>
    (case r of
       None \<Rightarrow> \<exists>g \<in> set gids. \<exists>key. make_block_hash_with_group_id h g = Inr key
         \<and> (\<forall>b. key \<notin> hashes_of p b)
     | Some bs \<Rightarrow> list_all2 (\<lambda>g b. b \<noteq> 0 \<and> int b < num_gpu_blocks p
         \<and> (\<exists>key. make_block_hash_with_group_id h g = Inr key \<and> key \<in> hashes_of p b)) gids bs)"
proof -
  have ci: "cache_inv p" using pool_reachable_inv [OF assms(1,2)] by (auto simp: pool_inv_def)
  obtain r where r: "get_cached_block p h gids = Inr r"
    "case r of
       None \<Rightarrow> \<exists>g \<in> set gids. \<exists>key. make_block_hash_with_group_id h g = Inr key
         \<and> (\<forall>b. key \<notin> hashes_of p b)
     | Some bs \<Rightarrow> list_all2 (\<lambda>g b. \<exists>key. make_block_hash_with_group_id h g = Inr key
         \<and> key \<in> hashes_of p b) gids bs"
    using get_cached_block_total [OF ci assms(3)] by blast
  show ?thesis
  proof (cases r)
    case None
    then show ?thesis using r by auto
  next
    case (Some bs)
    have "list_all2 (\<lambda>g b. b \<noteq> 0 \<and> int b < num_gpu_blocks p
         \<and> (\<exists>key. make_block_hash_with_group_id h g = Inr key \<and> key \<in> hashes_of p b)) gids bs"
      using r(2) Some hashes_of_pool_block [OF ci]
      by (auto simp: pool_block_def elim!: list_all2_mono)
    then show ?thesis using r(1) Some by simp
  qed
qed

theorem get_cached_block_correct_witness:
  "get_cached_block sample_pool [7] [0, 1] = Inr None"
  using get_cached_block_correct [OF sample_pool_reachable sample_env_ok, of "[0, 1]" "[7]"]
    sample_pool_facts(2)
  by (auto simp: list_all2_Cons1 simp del: get_cached_block.simps split: option.splits)

lemma bhl_from_nth:
  assumes "bhl_from hl start = Inr hs" and "py_index hs (int j) = Inr h" and "0 \<le> start"
  shows "bhl_get hl (start + int j) = Inr h"
proof -
  have eq: "map_res f xs = Inr ys \<Longrightarrow> length ys = length xs \<and> (\<forall>k < length xs. f (xs ! k) = Inr (ys ! k))"
    for f :: "int \<Rightarrow> block_hash res" and xs ys
  proof (induction xs arbitrary: ys)
    case (Cons x xs)
    then show ?case by (auto simp: res_simps nth_Cons split: nat.split)
  qed simp
  have "j < length hs" "h = hs ! j"
    using assms(2) by (auto simp: py_index_def Let_def split: if_splits)
  then show ?thesis
    using eq [OF assms(1) [unfolded bhl_from_def]] by (simp add: nth_upto)
qed

text \<open>
  C9. Caching full blocks: when \<open>cache_full_blocks\<close> returns, every block of the range that is
  neither null nor masked out carries exactly the key of its own hash and is what a lookup of
  that hash can find; blocks outside the range keep their hashes, and no reference count, free
  list or event setting changes.
\<close>

theorem cache_full_blocks_correct:
  assumes "pool_reachable env p" and "env_ok env" and "0 \<le> num_cached"
    and "num_cached < num_full"
    and "\<forall>b \<in> set blocks. int b < num_gpu_blocks p" and "0 \<le> gid" and "gid < 2 ^ 32"
    and "cache_full_blocks env r blocks num_cached num_full bsize gid msk p = Inr (r', p')"
  shows "same_blocks p p'
    \<and> (\<forall>c. c \<notin> set (py_slice blocks num_cached num_full) \<longrightarrow> hashes_of p' c = hashes_of p c)
    \<and> (\<exists>hl. resolve_block_hashes (RawHashes (block_hashes r)) (hash_block_size p) bsize False None
          = Inr hl
        \<and> (\<forall>j < length (py_slice blocks num_cached num_full).
             let b = py_slice blocks num_cached num_full ! j
             in \<not> skipped p msk j b \<longrightarrow> b \<notin> set (drop (Suc j) (py_slice blocks num_cached num_full)) \<longrightarrow>
                (\<exists>h key. bhl_get hl (num_cached + int j) = Inr h
                   \<and> make_block_hash_with_group_id h gid = Inr key \<and> hashes_of p' b = {key}
                   \<and> (\<exists>c. get_cached_block p' h [gid] = Inr (Some [c]) \<and> key \<in> hashes_of p' c))))"
proof -
  have ci: "cache_inv p" using pool_reachable_inv [OF assms(1,2)] by (auto simp: pool_inv_def)
  note keep = cache_full_blocks_keeps [OF assms(8) ci assms(2,5)]
  obtain hl hs nh p1 where hl: "resolve_block_hashes (RawHashes (block_hashes r))
      (hash_block_size p) bsize False None = Inr hl" "bhl_from hl num_cached = Inr hs"
    and l: "cache_full_loop env hs msk num_cached bsize gid 0 (py_slice blocks num_cached num_full)
        [] p = Inr (nh, p1)"
    and p': "p' = p1 \<or> (\<exists>e. p' = add_event e p1)"
    using cache_full_blocks_loop [OF assms(8,4)] by blast
  have h1: "hashes_of p' = hashes_of p1" using p' by auto
  have "\<forall>b \<in> set (py_slice blocks num_cached num_full). int b < num_gpu_blocks p"
    using assms(5) by (auto dest: in_set_py_slice)
  note loop = cache_full_loop_ok [OF l ci assms(2) this]
  have found: "\<exists>c. get_cached_block p' h [gid] = Inr (Some [c]) \<and> key \<in> hashes_of p' c"
    if "make_block_hash_with_group_id h gid = Inr key" "hashes_of p' b = {key}" for h key b
    using get_cached_block_total [of p' "[gid]" h] keep assms(6,7) that
    by (auto simp: list_all2_Cons1 simp del: get_cached_block.simps split: option.splits)
  have "\<exists>h key. bhl_get hl (num_cached + int j) = Inr h
      \<and> make_block_hash_with_group_id h gid = Inr key
      \<and> hashes_of p' (py_slice blocks num_cached num_full ! j) = {key}
      \<and> (\<exists>c. get_cached_block p' h [gid] = Inr (Some [c]) \<and> key \<in> hashes_of p' c)"
    if j: "j < length (py_slice blocks num_cached num_full)"
      "\<not> skipped p msk j (py_slice blocks num_cached num_full ! j)"
      "py_slice blocks num_cached num_full ! j
         \<notin> set (drop (Suc j) (py_slice blocks num_cached num_full))" for j
  proof -
    have "\<exists>h key. py_index hs (int j) = Inr h \<and> make_block_hash_with_group_id h gid = Inr key
      \<and> hashes_of p' (py_slice blocks num_cached num_full ! j) = {key}"
      using loop j unfolding h1 by simp
    then obtain h key where hk: "py_index hs (int j) = Inr h"
      "make_block_hash_with_group_id h gid = Inr key"
      "hashes_of p' (py_slice blocks num_cached num_full ! j) = {key}"
      by blast
    show ?thesis
      using bhl_from_nth [OF hl(2) hk(1) assms(3)] found [OF hk(2,3)] hk(2,3) by blast
  qed
  then show ?thesis using keep hl(1) by (simp add: Let_def)
qed

theorem cache_full_blocks_correct_witness:
  "\<exists>r' p'. cache_full_blocks sample_env two_block_request [1, 2] 0 2 2 0 None sample_pool = Inr (r', p')
    \<and> same_blocks sample_pool p' \<and> hashes_of p' 3 = {}"
proof -
  have "is_ok (cache_full_blocks sample_env two_block_request [1, 2] 0 2 2 0 None sample_pool)"
    by code_simp
  then obtain r' p' where run: "cache_full_blocks sample_env two_block_request [1, 2] 0 2 2 0 None
      sample_pool = Inr (r', p')"
    by (auto simp: is_ok_iff)
  have "\<forall>b \<in> set [1, 2]. int b < num_gpu_blocks sample_pool" by (simp add: sample_pool_facts)
  from cache_full_blocks_correct [OF sample_pool_reachable sample_env_ok _ _ this _ _ run]
  have "same_blocks sample_pool p'" "3 \<notin> set (py_slice [1, 2::nat] 0 2) \<Longrightarrow> hashes_of p' 3 = {}"
    by (simp_all add: sample_pool_facts)
  then show ?thesis using run by (simp add: py_slice_def)
qed

text \<open>
  Eviction and reset: evicting block ids takes exactly those blocks out of the prefix
  cache, whatever their reference counts, and changes nothing else about blocks; resetting
  succeeds exactly when no block but the null block is referred to, and then every lookup of
  at least one group misses.
\<close>

theorem evict_and_reset_correct:
  assumes "pool_reachable env p" and "env_ok env"
    and "\<forall>i \<in> set ids. 0 \<le> i \<and> i < num_gpu_blocks p"
    and "gids \<noteq> []" and "\<forall>g \<in> set gids. 0 \<le> g \<and> g < 2 ^ 32"
  shows "(\<exists>p'. evict_blocks env ids p = Inr p' \<and> same_blocks p p'
      \<and> hashes_of p' = (\<lambda>b. if int b \<in> set ids then {} else hashes_of p b)
      \<and> (\<forall>h bs. get_cached_block p' h gids = Inr (Some bs) \<longrightarrow> (\<forall>b \<in> set bs. int b \<notin> set ids)))
    \<and> (\<exists>done p'. reset_prefix_cache p = (done, p') \<and> same_blocks p p'
      \<and> done = (\<forall>b. 0 < b \<longrightarrow> int b < num_gpu_blocks p \<longrightarrow> ref_cnt (blk p b) = 0)
      \<and> (if done then \<forall>h. get_cached_block p' h gids = Inr None else p' = p))"
proof -
  obtain xs where inv: "pool_inv p xs" using pool_reachable_inv [OF assms(1,2)] by blast
  then have ci: "cache_inv p" by (simp add: pool_inv_def)
  obtain p' where p': "evict_blocks env ids p = Inr p'" "cache_inv p'" "same_blocks p p'"
    "hashes_of p' = (\<lambda>b. if int b \<in> set ids then {} else hashes_of p b)"
    using evict_blocks_ok [OF ci assms(2,3)] by blast
  have "int b \<notin> set ids" if hit: "get_cached_block p' h gids = Inr (Some bs)" "b \<in> set bs" for h bs b
  proof -
    have "list_all2 (\<lambda>g b. \<exists>key. make_block_hash_with_group_id h g = Inr key
         \<and> key \<in> hashes_of p' b) gids bs"
      using get_cached_block_total [OF p'(2) assms(5), of h] hit(1) by auto
    then obtain key where "key \<in> hashes_of p' b"
      using hit(2) by (auto simp: list_all2_conv_all_nth in_set_conv_nth)
    then show ?thesis using p'(4) by (auto split: if_splits)
  qed
  moreover obtain p2 where p2: "pool_inv p2 xs" "same_blocks p p2"
    "reset_prefix_cache p = (\<forall>b. pool_block p b \<longrightarrow> ref_cnt (blk p b) = 0, p2)"
    "hashes_of p2 = (if \<forall>b. pool_block p b \<longrightarrow> ref_cnt (blk p b) = 0 then \<lambda>_. {} else hashes_of p)"
    using reset_prefix_cache_ok [OF inv] by blast
  have "get_cached_block p2 h gids = Inr None" if "\<forall>b. pool_block p b \<longrightarrow> ref_cnt (blk p b) = 0" for h
    using get_cached_block_total [of p2 gids h] p2(1,4) assms(4,5) that
    by (auto simp: pool_inv_def neq_Nil_conv list_all2_Cons1 simp del: get_cached_block.simps
        split: option.splits)
  moreover have "p2 = p" if "\<not> (\<forall>b. pool_block p b \<longrightarrow> ref_cnt (blk p b) = 0)"
    using that p2(3) by (auto simp: reset_prefix_cache_def Let_def split: if_splits)
  ultimately show ?thesis
    using p'(1,3,4) p2(2,3) by (auto simp: pool_block_def)
qed

theorem evict_and_reset_correct_witness:
  "(\<exists>p'. evict_blocks sample_env [2] sample_pool = Inr p' \<and> hashes_of p' = (\<lambda>_. {}))
    \<and> (\<exists>p'. reset_prefix_cache sample_pool = (True, p')
         \<and> (\<forall>h. get_cached_block p' h [0] = Inr None))"
proof -
  have *: "\<forall>i \<in> set [2]. 0 \<le> i \<and> i < num_gpu_blocks sample_pool"
    "[0] \<noteq> ([] :: int list)" "\<forall>g \<in> set [0 :: int]. 0 \<le> g \<and> g < 2 ^ 32"
    by (simp_all add: sample_pool_facts)
  have idle: "\<forall>b. 0 < b \<longrightarrow> int b < num_gpu_blocks sample_pool \<longrightarrow> ref_cnt (blk sample_pool b) = 0"
    using sample_pool_idle(3) by (auto simp: sample_pool_facts)
  show ?thesis
    using evict_and_reset_correct [OF sample_pool_reachable sample_env_ok *] idle
    by (auto simp: sample_pool_facts simp del: get_cached_block.simps cong: if_cong)
qed

text \<open>
  Moving hashes: with an unhashed block of the pool as the destination, the move
  succeeds; afterwards the destination carries exactly the hashes that the source carried,
  the source carries none, a lookup that could find the source finds the destination, no
  other block and no reference count changes, and no event is sent.
\<close>

theorem move_block_hashes_correct:
  assumes "pool_reachable env p" and "env_ok env" and "0 < dst" and "int dst < num_gpu_blocks p"
    and "src \<noteq> dst" and "hashes_of p dst = {}"
  shows "\<exists>p'. move_block_hashes env src dst p = Inr p' \<and> same_blocks p p'
    \<and> hashes_of p' = (hashes_of p)(src := {}, dst := hashes_of p src)
    \<and> kv_event_queue p' = kv_event_queue p
    \<and> (\<forall>key. contain_block (cached_block_hash_to_block p') key dst
          \<longleftrightarrow> contain_block (cached_block_hash_to_block p) key src)"
proof -
  have ci: "cache_inv p" using pool_reachable_inv [OF assms(1,2)] by (auto simp: pool_inv_def)
  have "pool_block p dst" using assms(3,4) by (simp add: pool_block_def)
  from move_block_hashes_ok [OF ci assms(2) this assms(5,6)]
  obtain p' where p': "move_block_hashes env src dst p = Inr p'" "cache_inv p'" "same_blocks p p'"
    "hashes_of p' = (hashes_of p)(src := {}, dst := hashes_of p src)"
    "kv_event_queue p' = kv_event_queue p"
    by blast
  have "contain_block (cached_block_hash_to_block p') key dst
      \<longleftrightarrow> contain_block (cached_block_hash_to_block p) key src" for key
    using cache_invD(3) [OF ci, of key] cache_invD(3) [OF p'(2), of key]
    by (simp add: idx.has_iff p'(4))
  with p' show ?thesis by blast
qed

theorem move_block_hashes_correct_witness:
  "\<exists>p'. move_block_hashes sample_env 1 2 sample_pool = Inr p' \<and> same_blocks sample_pool p'"
  using move_block_hashes_correct [OF sample_pool_reachable sample_env_ok, of 2 1]
  by (auto simp: sample_pool_facts)

text \<open>
  Partial entries: when \<open>cache_partial_block\<close> returns for a block other than the null
  block, the key it returns is the hash of the prefix of \<open>ntok\<close> tokens with the group id, the
  block is cached under it, and the former hashes of the block either all stay or are all
  dropped; no other block and no reference count changes.
\<close>

theorem cache_partial_block_correct:
  assumes "pool_reachable env p" and "env_ok env" and "0 < b" and "int b < num_gpu_blocks p"
    and "cache_partial_block env r b ntok gid bsize p = Inr (k, r', p')"
  shows "same_blocks p p' \<and> ntok mod hash_block_size p = 0
    \<and> (\<exists>h key. py_index (block_hashes r) (ntok div hash_block_size p - 1) = Inr h
         \<and> make_block_hash_with_group_id h gid = Inr key \<and> k = Some key
         \<and> contain_block (cached_block_hash_to_block p') key b
         \<and> (hashes_of p' = (hashes_of p)(b := insert key (hashes_of p b))
            \<or> hashes_of p' = (hashes_of p)(b := {key})))"
proof -
  have ci: "cache_inv p" using pool_reachable_inv [OF assms(1,2)] by (auto simp: pool_inv_def)
  have "pool_block p b" using assms(3,4) by (simp add: pool_block_def)
  from cache_partial_block_ok [OF assms(5) ci assms(2) this]
  obtain h key where *: "get_partial_block_hash r ntok p = Inr h"
    "make_block_hash_with_group_id h gid = Inr key" "k = Some key" "cache_inv p'"
    "same_blocks p p'"
    "hashes_of p' = (hashes_of p)(b := insert key (hashes_of p b))
       \<or> hashes_of p' = (hashes_of p)(b := {key})"
    by blast
  have "key \<in> hashes_of p' b" using *(6) by (elim disjE) simp_all
  then have "contain_block (cached_block_hash_to_block p') key b"
    using cache_invD(3) [OF *(4), of key] by (simp add: idx.has_iff)
  moreover have "ntok mod hash_block_size p = 0"
    "py_index (block_hashes r) (ntok div hash_block_size p - 1) = Inr h"
    using *(1) by (auto simp: get_partial_block_hash_def res_simps py_mod_def Let_def split: if_splits)
  ultimately show ?thesis using * by blast
qed

theorem cache_partial_block_correct_witness:
  "\<exists>k r' p'. cache_partial_block sample_env two_block_request 1 2 0 4 sample_pool = Inr (k, r', p')
    \<and> same_blocks sample_pool p'"
proof -
  have "is_ok (cache_partial_block sample_env two_block_request 1 2 0 4 sample_pool)"
    by code_simp
  then obtain k r' p' where
    run: "cache_partial_block sample_env two_block_request 1 2 0 4 sample_pool = Inr (k, r', p')"
    by (auto simp: is_ok_iff)
  then show ?thesis
    using cache_partial_block_correct [OF sample_pool_reachable sample_env_ok _ _ run]
    by (simp add: sample_pool_facts)
qed

text \<open>
  Usage: computed with any monotone rounding that is exact on 0 and 1, the usage of a
  reachable pool is at least 0 and at most 1.
\<close>

theorem usage_between_0_and_1:
  assumes "pool_reachable env p" and "env_ok env"
    and "\<And>x y. x \<le> y \<Longrightarrow> fl x \<le> fl y" and "fl 0 = 0" and "fl 1 = 1"
  shows "0 \<le> get_usage fl p \<and> get_usage fl p \<le> 1"
proof -
  obtain xs where inv: "pool_inv p xs" using pool_reachable_inv [OF assms(1,2)] by blast
  have "set xs \<subseteq> {1..<nat (num_gpu_blocks p)}"
    using inv by (auto simp: pool_inv_def pool_block_def)
  from card_mono [OF _ this] have "length xs \<le> nat (num_gpu_blocks p) - 1"
    using pool_inv_distinct [OF inv] by (simp add: distinct_card)
  moreover have "num_gpu_blocks p > 0" using inv by (simp add: pool_inv_def)
  ultimately have "int (length xs) \<le> num_gpu_blocks p - 1" by linarith
  then have "0 \<le> (of_int (get_num_free_blocks p) :: rat) / of_int (num_gpu_blocks p - 1)
    \<and> (of_int (get_num_free_blocks p) :: rat) / of_int (num_gpu_blocks p - 1) \<le> 1"
    using pool_inv_num_free [OF inv] inv
    by (auto simp: pool_inv_def divide_le_eq_1 zero_le_divide_iff simp flip: of_int_diff)
  then have f: "0 \<le> fl (of_int (get_num_free_blocks p) / of_int (num_gpu_blocks p - 1))
    \<and> fl (of_int (get_num_free_blocks p) / of_int (num_gpu_blocks p - 1)) \<le> 1"
    using assms(3) [of 0] assms(3) [of _ 1] by (simp add: assms(4,5))
  show ?thesis
    using assms(3) [of 0 "1 - fl (of_int (get_num_free_blocks p) / of_int (num_gpu_blocks p - 1))"]
      assms(3) [of "1 - fl (of_int (get_num_free_blocks p) / of_int (num_gpu_blocks p - 1))" 1] f
    by (auto simp: get_usage_def Let_def assms(4,5))
qed

theorem usage_between_0_and_1_witness:
  "0 \<le> get_usage (\<lambda>x. x) sample_pool \<and> get_usage (\<lambda>x. x) sample_pool \<le> 1"
  by (rule usage_between_0_and_1 [OF sample_pool_reachable sample_env_ok]) simp_all

end
