(* ===== verification/SpecKinds.thy ===== *)
theory SpecKinds
  imports Prelude
begin

text \<open>
  The specifications of KV cache layers, \<open>upstream-g1/vllm/v1/kv_cache_interface.py\<close>, as far as the
  managers and the coordinator read them, their class hierarchy, and what is relied on of the ceiling
  division of \<open>vllm.utils.math_utils\<close>, which is outside the repository.
\<close>

section \<open>Specifications of KV cache groups\<close>

datatype spec_kind =
    FullAttentionSpec | MLAAttentionSpec | HiddenStateCacheSpec | RSWASpec
  | SinkFullAttentionSpec | TQFullAttentionSpec | ChunkedLocalAttentionSpec
  | SlidingWindowSpec | SlidingWindowMLASpec | KpoolTailSpec | MambaSpec
  | EncoderOnlyAttentionSpec | CrossAttentionSpec | UniformTypeKVCacheSpecs

text \<open>The attributes of a specification that the managers read.\<close>

record kv_spec =
  sp_kind :: spec_kind
  sp_block_size :: int
  sp_dcp_replicated :: bool
  sp_sliding_window :: int
  sp_extra_retained_tokens :: int
  sp_attention_chunk_size :: int
  sp_rswa_window :: int
  sp_mamba_cache_mode :: string
  sp_num_speculative_blocks :: int
  sp_num_prefill_checkpoint_blocks :: int
  sp_precision :: int
  sp_layout :: "int list"

text \<open>\<open>isinstance\<close> along the class hierarchy of \<open>kv_cache_interface.py\<close>\<close>

fun is_full_attention :: "spec_kind \<Rightarrow> bool" where
  "is_full_attention FullAttentionSpec = True"
| "is_full_attention MLAAttentionSpec = True"
| "is_full_attention HiddenStateCacheSpec = True"
| "is_full_attention RSWASpec = True"
| "is_full_attention SinkFullAttentionSpec = True"
| "is_full_attention TQFullAttentionSpec = True"
| "is_full_attention _ = False"

fun is_sliding_window :: "spec_kind \<Rightarrow> bool" where
  "is_sliding_window SlidingWindowSpec = True"
| "is_sliding_window SlidingWindowMLASpec = True"
| "is_sliding_window KpoolTailSpec = True"
| "is_sliding_window _ = False"

definition cdiv_law :: "(int \<Rightarrow> int \<Rightarrow> int) \<Rightarrow> bool" where
  "cdiv_law cdiv \<longleftrightarrow> (\<forall>a b. b > 0 \<longrightarrow> cdiv a b = - ((- a) div b))"

lemma cdiv_mono: "cdiv_law cdiv \<Longrightarrow> 0 < k \<Longrightarrow> a \<le> b \<Longrightarrow> cdiv a k \<le> cdiv b k"
  by (simp add: cdiv_law_def zdiv_mono1)

section \<open>Admission caps\<close>

text \<open>
  Recycling-aware admission caps: \<open>max_admission_blocks_per_request\<close> of the sliding-window,
  kpool-tail and chunked-local specifications.
\<close>

definition window_admission_blocks :: "(int \<Rightarrow> int \<Rightarrow> int) \<Rightarrow> kv_spec \<Rightarrow> int \<Rightarrow> int \<Rightarrow> int" where
  "window_admission_blocks cdiv spec max_in_flight_tokens max_model_len =
     cdiv (min (sp_sliding_window spec - 1 + sp_extra_retained_tokens spec + max_in_flight_tokens)
            max_model_len) (sp_block_size spec) + 1"

definition chunk_admission_blocks :: "(int \<Rightarrow> int \<Rightarrow> int) \<Rightarrow> kv_spec \<Rightarrow> int \<Rightarrow> int \<Rightarrow> int" where
  "chunk_admission_blocks cdiv spec max_in_flight_tokens max_model_len =
     cdiv (min (sp_attention_chunk_size spec + max_in_flight_tokens) max_model_len)
       (sp_block_size spec)"

definition max_admission_blocks_per_request ::
  "(int \<Rightarrow> int \<Rightarrow> int) \<Rightarrow> kv_spec \<Rightarrow> int \<Rightarrow> int \<Rightarrow> int option" where
  "max_admission_blocks_per_request cdiv spec max_in_flight_tokens max_model_len =
     (if sp_kind spec = KpoolTailSpec then Some 1
      else if is_sliding_window (sp_kind spec) then
        Some (window_admission_blocks cdiv spec max_in_flight_tokens max_model_len)
      else if sp_kind spec = ChunkedLocalAttentionSpec then
        Some (chunk_admission_blocks cdiv spec max_in_flight_tokens max_model_len)
      else None)"

text \<open>
  \<open>UniformTypeKVCacheSpecs\<close> asks all its members; the record does not hold them, and none is taken to be a tail.
\<close>

definition participates_in_prefix_caching :: "kv_spec \<Rightarrow> bool" where
  "participates_in_prefix_caching spec \<longleftrightarrow> sp_kind spec \<noteq> KpoolTailSpec"

end
