(* ===== verification/CacheHit.thy ===== *)
theory CacheHit
  imports BlockPool SpecKinds
begin

text \<open>
  The prefix-cache lookups of the KV cache managers in
  \<open>single_type_kv_cache_manager.py\<close>: \<open>find_longest_cache_hit\<close> of each attention type, the masks
  of the blocks worth caching, and the tokens each type skips.  They read the block pool only.

  A hit is a list of blocks for each group, in the order of the group ids, and the number of
  tokens that it covers.  \<open>cdiv\<close>, the ceiling division of \<open>vllm.utils.math_utils\<close>, is outside the
  repository and a parameter; \<open>cdiv_law\<close> (SpecKinds) is what the code relies on.  The callers pass the
  block hashes of the request as a plain list.
\<close>

section \<open>Shared steps\<close>

text \<open>A lookup whose result is true in Python: blocks, and at least one.\<close>

definition cached_hit :: "block_pool \<Rightarrow> int list \<Rightarrow> block_hash \<Rightarrow> nat list option res" where
  "cached_hit p gids h =
     bind_res (get_cached_block p h gids)
       (\<lambda>r. Inr (case r of None \<Rightarrow> None | Some [] \<Rightarrow> None | Some bs \<Rightarrow> Some bs))"

text \<open>\<open>for computed, cached in zip(...): computed.append(cached)\<close>\<close>

definition append_hit :: "nat list list \<Rightarrow> nat list \<Rightarrow> nat list list" where
  "append_hit computed cached = map2 (\<lambda>c b. c @ [b]) computed cached"

text \<open>\<open>len(computed_blocks[0])\<close>\<close>

definition first_len :: "nat list list \<Rightarrow> int res" where
  "first_len computed =
     (case computed of [] \<Rightarrow> Inl IndexError | c # _ \<Rightarrow> Inr (int (length c)))"

text \<open>\<open>itertools.islice(hashes, n)\<close>\<close>

definition bhl_take :: "block_hash_list \<Rightarrow> int \<Rightarrow> block_hash list res" where
  "bhl_take l n =
     (if n < 0 then Inl ValueError
      else map_res (bhl_get l) [0..min n (bhl_len l) - 1])"

section \<open>Full attention\<close>

text \<open>Phase 1: the run of cached full blocks from the start.\<close>

fun full_hit_loop ::
  "block_pool \<Rightarrow> int list \<Rightarrow> block_hash list \<Rightarrow> nat list list \<Rightarrow> nat list list res" where
  "full_hit_loop p gids [] computed = Inr computed"
| "full_hit_loop p gids (h # hs) computed =
     bind_res (cached_hit p gids h) (\<lambda>r.
       case r of
         None \<Rightarrow> Inr computed
       | Some cached \<Rightarrow> full_hit_loop p gids hs (append_hit computed cached))"

text \<open>Phase 2: the longest hash boundary inside the first block that is not full.\<close>

fun partial_tail_loop ::
  "block_pool \<Rightarrow> int list \<Rightarrow> block_hash_list \<Rightarrow> int \<Rightarrow> int list \<Rightarrow> nat list list \<Rightarrow> int
     \<Rightarrow> (nat list list \<times> int) res" where
  "partial_tail_loop p gids hl align [] computed hit_length = Inr (computed, hit_length)"
| "partial_tail_loop p gids hl align (i # is) computed hit_length =
     bind_res (bhl_get hl i) (\<lambda>h.
     bind_res (cached_hit p gids h) (\<lambda>r.
       case r of
         None \<Rightarrow> partial_tail_loop p gids hl align is computed hit_length
       | Some cached \<Rightarrow> Inr (append_hit computed cached, (i + 1) * align)))"

definition partial_tail ::
  "block_pool \<Rightarrow> int list \<Rightarrow> block_hash_list \<Rightarrow> int \<Rightarrow> int \<Rightarrow> int \<Rightarrow> nat list list \<Rightarrow> int
     \<Rightarrow> (nat list list \<times> int) res" where
  "partial_tail p gids hl align block_size max_length computed num_full =
     (let scale_factor = block_size div align;
          first_partial_idx = num_full * scale_factor;
          max_partial_idx = min (min (first_partial_idx + scale_factor - 1)
            (max_length div align)) (bhl_len hl)
      in partial_tail_loop p gids hl align (rev [first_partial_idx..max_partial_idx - 1])
           computed (num_full * block_size))"

text \<open>The end of the lookup: drop the unit for EAGLE, round down, cut the blocks.\<close>

definition full_hit_trim ::
  "(int \<Rightarrow> int \<Rightarrow> int) \<Rightarrow> bool \<Rightarrow> int \<Rightarrow> int \<Rightarrow> nat list list \<times> int \<Rightarrow> (nat list list \<times> int) res" where
  "full_hit_trim cdiv drop_eagle align block_size r =
     (let (computed, hit_length) = r;
          h1 = (if drop_eagle \<and> hit_length > 0 then hit_length - min align block_size
                else hit_length)
      in bind_res (py_mod h1 align) (\<lambda>m.
           (let h2 = h1 - m in Inr (map (take (nat (cdiv h2 block_size))) computed, h2))))"

definition effective_block_size :: "kv_spec \<Rightarrow> int \<Rightarrow> int" where
  "effective_block_size spec dcp_world_size =
     (if dcp_world_size > 1 \<and> \<not> sp_dcp_replicated spec then sp_block_size spec * dcp_world_size
      else sp_block_size spec)"

definition full_attention_hit ::
  "(int \<Rightarrow> int \<Rightarrow> int) \<Rightarrow> block_pool \<Rightarrow> block_hash list \<Rightarrow> int \<Rightarrow> int list \<Rightarrow> kv_spec \<Rightarrow> bool
     \<Rightarrow> int \<Rightarrow> int \<Rightarrow> (nat list list \<times> int) res" where
  "full_attention_hit cdiv p hs max_length gids spec drop_eagle align dcp_world_size =
     (if \<not> (is_full_attention (sp_kind spec) \<or> sp_kind spec = ChunkedLocalAttentionSpec)
      then Inl AssertionError
      else
        (let block_size = effective_block_size spec dcp_world_size
         in bind_res (resolve_block_hashes (RawHashes hs) (hash_block_size p) block_size True
              (Some align)) (\<lambda>hl.
            bind_res (if align < block_size
                      then bind_res (py_mod block_size align) (\<lambda>m. Inr (m = 0))
                      else Inr False) (\<lambda>fine_grained.
            bind_res (if fine_grained then (case hl of
                          RawHashes raw \<Rightarrow> with_block_size raw align block_size
                        | ScaledHashes _ _ \<Rightarrow> Inl AssertionError)
                      else Inr hl) (\<lambda>full_hl.
            bind_res (py_floordiv max_length block_size) (\<lambda>n.
            bind_res (bhl_take full_hl n) (\<lambda>full_hashes.
            bind_res (full_hit_loop p gids full_hashes (replicate (length gids) [])) (\<lambda>computed.
            bind_res (first_len computed) (\<lambda>num_full.
            bind_res (if fine_grained
                      then partial_tail p gids hl align block_size max_length computed num_full
                      else Inr (computed, num_full * block_size)) (\<lambda>r.
              full_hit_trim cdiv drop_eagle align block_size r))))))))))"

text \<open>The kpool tail never hits.\<close>

definition kpool_hit :: "int list \<Rightarrow> nat list list \<times> int" where
  "kpool_hit gids = (replicate (length gids) [], 0)"

section \<open>Sliding window\<close>

definition contiguous_blocks_for_hit :: "(int \<Rightarrow> int \<Rightarrow> int) \<Rightarrow> int \<Rightarrow> int \<Rightarrow> bool \<Rightarrow> int" where
  "contiguous_blocks_for_hit cdiv window_size block_size use_eagle =
     cdiv (window_size - 1) block_size + (if use_eagle then 1 else 0)"

text \<open>
  The search from right to left over the block indices below \<open>n\<close>, with the number of contiguous
  hits so far; the flag says whether enough of them were found.
\<close>

fun window_loop ::
  "block_pool \<Rightarrow> int list \<Rightarrow> block_hash_list \<Rightarrow> int \<Rightarrow> int \<Rightarrow> bool \<Rightarrow> int \<Rightarrow> nat
     \<Rightarrow> nat list list \<Rightarrow> int \<Rightarrow> (nat list list \<times> int \<times> bool) res" where
  "window_loop p gids hl block_size align drop_eagle need 0 computed k = Inr (computed, k, False)"
| "window_loop p gids hl block_size align drop_eagle need (Suc i) computed k =
     bind_res (bhl_get hl (int i)) (\<lambda>h.
     bind_res (cached_hit p gids h) (\<lambda>r.
       case r of
         None \<Rightarrow> window_loop p gids hl block_size align drop_eagle need i computed 0
       | Some cached \<Rightarrow>
           bind_res (if k = 0 \<and> block_size \<noteq> align
                     then bind_res (py_mod ((if drop_eagle then int i else int i + 1) * block_size)
                            align) (\<lambda>m. Inr (m \<noteq> 0))
                     else Inr False) (\<lambda>unaligned.
             if unaligned then
               window_loop p gids hl block_size align drop_eagle need i computed k
             else
               (let computed' = map2 (\<lambda>c b. c[i := b]) computed cached; k' = k + 1
                in if k' \<ge> need then Inr (map (take (i + nat k')) computed', k', True)
                   else window_loop p gids hl block_size align drop_eagle need i computed' k'))))"

text \<open>The \<open>while\<close> loop that pops blocks until the length is aligned.\<close>

function pop_until_aligned :: "int \<Rightarrow> int \<Rightarrow> nat list list \<Rightarrow> nat list list res" where
  "pop_until_aligned block_size align [] = Inl IndexError"
| "pop_until_aligned block_size align (c # cs) =
     (if block_size = align then Inr (c # cs)
      else if align = 0 then Inl ZeroDivisionError
      else if (int (length c) * block_size) mod align = 0 then Inr (c # cs)
      else if [] \<in> set (c # cs) then Inl IndexError
      else pop_until_aligned block_size align (map butlast (c # cs)))"
  by pat_completeness auto

termination
  by (relation "measure (\<lambda>(b, a, cs). length (hd cs))") auto

definition pop_for_eagle :: "bool \<Rightarrow> int \<Rightarrow> int \<Rightarrow> nat list list \<Rightarrow> nat list list res" where
  "pop_for_eagle drop_eagle block_size align computed =
     (if \<not> drop_eagle then Inr computed
      else (case computed of
          [] \<Rightarrow> Inl IndexError
        | c # cs \<Rightarrow>
            if c = [] then Inr computed
            else if [] \<in> set computed then Inl IndexError
            else pop_until_aligned block_size align (map butlast computed)))"

definition sliding_window_hit ::
  "(int \<Rightarrow> int \<Rightarrow> int) \<Rightarrow> block_pool \<Rightarrow> block_hash list \<Rightarrow> int \<Rightarrow> int list \<Rightarrow> kv_spec \<Rightarrow> bool
     \<Rightarrow> int \<Rightarrow> int \<Rightarrow> int \<Rightarrow> (nat list list \<times> int) res" where
  "sliding_window_hit cdiv p hs max_length gids spec drop_eagle align dcp_world_size pcp_world_size =
     (let block_size = sp_block_size spec
      in if \<not> is_sliding_window (sp_kind spec) then Inl AssertionError
         else if \<not> (dcp_world_size = 1 \<or> sp_dcp_replicated spec) then Inl AssertionError
         else if \<not> (pcp_world_size = 1 \<or> sp_dcp_replicated spec) then Inl AssertionError
         else bind_res (py_mod align block_size) (\<lambda>m.
           if m \<noteq> 0 then Inl AssertionError
           else bind_res (resolve_block_hashes (RawHashes hs) (hash_block_size p) block_size False
                  (Some align)) (\<lambda>hl.
             (let need = contiguous_blocks_for_hit cdiv (sp_sliding_window spec) block_size drop_eagle;
                  max_num_blocks = max_length div block_size;
                  start = replicate (length gids) (replicate (nat max_num_blocks) (null_block p))
              in bind_res (window_loop p gids hl block_size align drop_eagle need
                     (nat max_num_blocks) start 0) (\<lambda>(computed, k, found).
                 bind_res (if found then Inr computed
                           else pop_until_aligned block_size align (map (take (nat k)) computed))
                   (\<lambda>computed1.
                 bind_res (pop_for_eagle drop_eagle block_size align computed1) (\<lambda>computed2.
                 bind_res (first_len computed2) (\<lambda>n. Inr (computed2, n * block_size)))))))))"

section \<open>Chunked local attention\<close>

fun chunk_loop ::
  "block_pool \<Rightarrow> int list \<Rightarrow> block_hash_list \<Rightarrow> int list \<Rightarrow> nat list list \<Rightarrow> nat list list res" where
  "chunk_loop p gids hl [] computed = Inr computed"
| "chunk_loop p gids hl (i # is) computed =
     bind_res (bhl_get hl i) (\<lambda>h.
     bind_res (cached_hit p gids h) (\<lambda>r.
       case r of
         None \<Rightarrow> Inr computed
       | Some cached \<Rightarrow> chunk_loop p gids hl is (append_hit computed cached)))"

definition chunked_local_hit ::
  "block_pool \<Rightarrow> block_hash list \<Rightarrow> int \<Rightarrow> int list \<Rightarrow> kv_spec \<Rightarrow> bool \<Rightarrow> int \<Rightarrow> int \<Rightarrow> int
     \<Rightarrow> (nat list list \<times> int) res" where
  "chunked_local_hit p hs max_length gids spec drop_eagle align dcp_world_size pcp_world_size =
     (let block_size = sp_block_size spec; chunk = sp_attention_chunk_size spec
      in if \<not> (sp_kind spec = ChunkedLocalAttentionSpec \<and> \<not> drop_eagle \<and> dcp_world_size = 1
               \<and> pcp_world_size = 1 \<and> block_size = align) then Inl AssertionError
         else bind_res (resolve_block_hashes (RawHashes hs) (hash_block_size p) block_size False
                (Some align)) (\<lambda>hl.
           bind_res (py_floordiv max_length block_size) (\<lambda>max_num_blocks.
           bind_res (if max_length > 0
                     then bind_res (py_floordiv max_length chunk) (\<lambda>c. Inr (c * chunk))
                     else Inr 0) (\<lambda>local_start.
             (let start_block = local_start div block_size
              in bind_res (chunk_loop p gids hl [start_block..max_num_blocks - 1]
                     (replicate (length gids) (replicate (nat start_block) (null_block p))))
                   (\<lambda>computed.
                 bind_res (first_len computed) (\<lambda>n. Inr (computed, n * block_size))))))))"

section \<open>Mamba\<close>

definition pad_hit :: "block_pool \<Rightarrow> nat \<Rightarrow> nat list list \<Rightarrow> nat list \<Rightarrow> nat list list" where
  "pad_hit p n computed cached = map2 (\<lambda>c b. c @ replicate n (null_block p) @ [b]) computed cached"

fun mamba_fine_loop ::
  "block_pool \<Rightarrow> int list \<Rightarrow> block_hash_list \<Rightarrow> int \<Rightarrow> int \<Rightarrow> nat \<Rightarrow> (nat list list \<times> int) res" where
  "mamba_fine_loop p gids hl align scale_factor 0 = Inr (replicate (length gids) [], 0)"
| "mamba_fine_loop p gids hl align scale_factor (Suc i) =
     bind_res (bhl_get hl (int i)) (\<lambda>h.
     bind_res (cached_hit p gids h) (\<lambda>r.
       case r of
         None \<Rightarrow> mamba_fine_loop p gids hl align scale_factor i
       | Some cached \<Rightarrow>
           Inr (pad_hit p (nat (int i div scale_factor)) (replicate (length gids) []) cached,
                (int i + 1) * align)))"

fun mamba_loop ::
  "block_pool \<Rightarrow> int list \<Rightarrow> block_hash_list \<Rightarrow> int \<Rightarrow> int \<Rightarrow> nat \<Rightarrow> (nat list list \<times> int) res" where
  "mamba_loop p gids hl block_size align 0 = Inr (replicate (length gids) [], 0)"
| "mamba_loop p gids hl block_size align (Suc i) =
     bind_res (bhl_get hl (int i)) (\<lambda>h.
     bind_res (cached_hit p gids h) (\<lambda>r.
       case r of
         None \<Rightarrow> mamba_loop p gids hl block_size align i
       | Some cached \<Rightarrow>
           bind_res (if block_size \<noteq> align
                     then bind_res (py_mod ((int i + 1) * block_size) align) (\<lambda>m. Inr (m \<noteq> 0))
                     else Inr False) (\<lambda>unaligned.
             if unaligned then mamba_loop p gids hl block_size align i
             else Inr (pad_hit p i (replicate (length gids) []) cached,
                       (int i + 1) * block_size))))"

definition mamba_hit ::
  "block_pool \<Rightarrow> block_hash list \<Rightarrow> int \<Rightarrow> int list \<Rightarrow> kv_spec \<Rightarrow> int \<Rightarrow> int \<Rightarrow> int
     \<Rightarrow> (nat list list \<times> int) res" where
  "mamba_hit p hs max_length gids spec align dcp_world_size pcp_world_size =
     (let block_size = sp_block_size spec
      in if \<not> (sp_kind spec = MambaSpec \<and> dcp_world_size = 1 \<and> pcp_world_size = 1)
         then Inl AssertionError
         else bind_res (resolve_block_hashes (RawHashes hs) (hash_block_size p) block_size True
                (Some align)) (\<lambda>hl.
           bind_res (if align < block_size
                     then bind_res (py_mod block_size align) (\<lambda>m. Inr (m = 0))
                     else Inr False) (\<lambda>fine_grained.
             if fine_grained then
               (case hl of
                  ScaledHashes _ _ \<Rightarrow> Inl AssertionError
                | RawHashes raw \<Rightarrow>
                    mamba_fine_loop p gids hl align (block_size div align)
                      (nat (min (max_length div align) (int (length raw)))))
             else bind_res (py_floordiv max_length block_size) (\<lambda>n.
               mamba_loop p gids hl block_size align (nat n)))))"

section \<open>Masks of the blocks worth caching\<close>

text \<open>\<open>mask[i] = True\<close> for the indices of a loop, counted from \<open>start_block\<close>\<close>

definition mark :: "int \<Rightarrow> int list \<Rightarrow> bool list \<Rightarrow> bool list" where
  "mark start_block is msk = fold (\<lambda>i ms. ms[nat (i - start_block) := True]) is msk"

text \<open>\<open>range(a, b, step)\<close> for a positive step\<close>

definition py_range_step :: "int \<Rightarrow> int \<Rightarrow> int \<Rightarrow> int list" where
  "py_range_step a b step = map (\<lambda>k. a + int k * step) [0..<nat ((b - a + step - 1) div step)]"

definition concat_res :: "('a \<Rightarrow> 'b list res) \<Rightarrow> 'a list \<Rightarrow> 'b list res" where
  "concat_res f xs = bind_res (map_res f xs) (\<lambda>ys. Inr (concat ys))"

text \<open>The blocks of the tail that ends on a boundary.\<close>

definition boundary_tail ::
  "int \<Rightarrow> int \<Rightarrow> int \<Rightarrow> int \<Rightarrow> int \<Rightarrow> int \<Rightarrow> int \<Rightarrow> int list res" where
  "boundary_tail start_block end_block align block_size need shift boundary_tokens =
     bind_res (py_floordiv boundary_tokens align) (\<lambda>q.
       (let last = q * align div block_size + shift
        in Inr [max start_block (last - need)..min end_block last - 1]))"

text \<open>The blocks at the end of each segment.\<close>

definition segment_tails :: "int \<Rightarrow> int \<Rightarrow> int \<Rightarrow> int \<Rightarrow> int \<Rightarrow> int list res" where
  "segment_tails start_block end_block per_segment need shift =
     concat_res (\<lambda>i. if \<not> i \<ge> shift then Inr []
        else bind_res (py_mod (i - shift) per_segment)
               (\<lambda>m. Inr (if m \<ge> per_segment - need then [i] else [])))
       [start_block..end_block - 1]"

definition window_mask ::
  "(int \<Rightarrow> int \<Rightarrow> int) \<Rightarrow> int \<Rightarrow> int \<Rightarrow> int option \<Rightarrow> kv_spec \<Rightarrow> bool \<Rightarrow> int option \<Rightarrow> int list
     \<Rightarrow> bool list option res" where
  "window_mask cdiv start_block end_block align_opt spec use_eagle retention boundaries =
     (if \<not> is_sliding_window (sp_kind spec) then Inl AssertionError
      else case align_opt of
        None \<Rightarrow> Inr None
      | Some align \<Rightarrow>
          (let block_size = sp_block_size spec;
               need = contiguous_blocks_for_hit cdiv (sp_sliding_window spec) block_size use_eagle;
               shift = (if use_eagle then 1 else 0);
               empty_mask = replicate (nat (end_block - start_block)) False;
               segment_tokens = (case retention of
                   None \<Rightarrow> Some align
                 | Some t \<Rightarrow> if t = 0 then None else Some t)
           in bind_res (py_mod align block_size) (\<lambda>m.
             if m \<noteq> 0 then Inl AssertionError
             else if (case segment_tokens of None \<Rightarrow> False | Some t \<Rightarrow> need \<ge> t div block_size)
               then Inr None
             else bind_res (case segment_tokens of
                      None \<Rightarrow> Inr []
                    | Some t \<Rightarrow> segment_tails start_block end_block (t div block_size) need shift)
                    (\<lambda>segments.
               bind_res (if retention = None then Inr []
                         else concat_res (boundary_tail start_block end_block align block_size
                                need shift) boundaries) (\<lambda>tails.
               Inr (Some (mark start_block (segments @ tails) empty_mask)))))))"

text \<open>The block whose state ends on a boundary, if it is one of the new ones.\<close>

definition boundary_state ::
  "int \<Rightarrow> int \<Rightarrow> int \<Rightarrow> int \<Rightarrow> int \<Rightarrow> int list res" where
  "boundary_state start_block end_block align block_size boundary_tokens =
     bind_res (py_floordiv boundary_tokens align) (\<lambda>q.
     bind_res (py_floordiv (q * align) block_size) (\<lambda>n.
       Inr (if start_block \<le> n - 1 \<and> n - 1 < end_block then [n - 1] else [])))"

definition mamba_mask ::
  "int \<Rightarrow> int \<Rightarrow> int option \<Rightarrow> kv_spec \<Rightarrow> int option \<Rightarrow> int list \<Rightarrow> bool list option res" where
  "mamba_mask start_block end_block align_opt spec retention boundaries =
     (case (retention, align_opt) of
        (Some interval, Some align) \<Rightarrow>
          if sp_kind spec \<noteq> MambaSpec then Inl AssertionError
          else
            (let block_size = sp_block_size spec;
                 empty_mask = replicate (nat (end_block - start_block)) False;
                 states = concat_res (boundary_state start_block end_block align block_size) boundaries
             in if interval = 0 then
                  bind_res states (\<lambda>marks. Inr (Some (mark start_block marks empty_mask)))
                else bind_res (py_floordiv interval block_size) (\<lambda>per.
                  if per \<le> 1 then Inr None
                  else
                    (let first_boundary = (start_block + per) div per * per - 1;
                         segments = py_range_step first_boundary
                           (start_block + int (length empty_mask)) per
                     in bind_res states (\<lambda>marks.
                          Inr (Some (mark start_block (segments @ marks) empty_mask))))))
      | _ \<Rightarrow> Inr None)"

section \<open>Tokens that attention no longer reads\<close>

definition window_skipped_tokens :: "kv_spec \<Rightarrow> int \<Rightarrow> int" where
  "window_skipped_tokens spec num_computed_tokens =
     max 0 (num_computed_tokens - sp_sliding_window spec + 1 - sp_extra_retained_tokens spec)"

definition chunk_skipped_tokens :: "kv_spec \<Rightarrow> int \<Rightarrow> int" where
  "chunk_skipped_tokens spec num_computed_tokens =
     num_computed_tokens div sp_attention_chunk_size spec * sp_attention_chunk_size spec"

definition mamba_skipped_tokens :: "int \<Rightarrow> int" where
  "mamba_skipped_tokens num_computed_tokens = num_computed_tokens - 1"

section \<open>What a lookup returns\<close>

text \<open>A block carries the key of a hash for a group; a hash hits when each group has one.\<close>

definition carries :: "block_pool \<Rightarrow> block_hash \<Rightarrow> int \<Rightarrow> nat \<Rightarrow> bool" where
  "carries p h g b \<longleftrightarrow> (\<exists>key. make_block_hash_with_group_id h g = Inr key \<and> key \<in> hashes_of p b)"

definition hits :: "block_pool \<Rightarrow> int list \<Rightarrow> block_hash \<Rightarrow> bool" where
  "hits p gids h \<longleftrightarrow> (\<forall>g \<in> set gids. \<exists>b. carries p h g b)"

definition groups_ok :: "int list \<Rightarrow> bool" where
  "groups_ok gids \<longleftrightarrow> gids \<noteq> [] \<and> (\<forall>g \<in> set gids. 0 \<le> g \<and> g < 2 ^ 32)"

lemma cached_hit_cases:
  assumes "cache_inv p" and "groups_ok gids"
  obtains "cached_hit p gids h = Inr None" "\<not> hits p gids h"
  | bs where "cached_hit p gids h = Inr (Some bs)" "hits p gids h"
      "list_all2 (\<lambda>g b. carries p h g b) gids bs"
proof -
  obtain r where r: "get_cached_block p h gids = Inr r"
    "case r of
       None \<Rightarrow> \<exists>g \<in> set gids. \<exists>key. make_block_hash_with_group_id h g = Inr key
         \<and> (\<forall>b. key \<notin> hashes_of p b)
     | Some bs \<Rightarrow> list_all2 (\<lambda>g b. carries p h g b) gids bs"
    using get_cached_block_total [OF assms(1), of gids h] assms(2)
    unfolding carries_def by (auto simp: groups_ok_def)
  show ?thesis
  proof (cases r)
    case None
    then obtain g key where "g \<in> set gids" "make_block_hash_with_group_id h g = Inr key"
      "\<forall>b. key \<notin> hashes_of p b"
      using r(2) by auto
    then have "\<not> hits p gids h" unfolding hits_def carries_def by (auto intro!: bexI [of _ g])
    then show ?thesis using r(1) None that(1) by (simp add: cached_hit_def)
  next
    case (Some bs)
    then have bs: "list_all2 (\<lambda>g b. carries p h g b) gids bs" using r(2) by simp
    then have "bs \<noteq> []" using assms(2) by (auto simp: groups_ok_def)
    moreover have "hits p gids h"
      using bs by (auto simp: hits_def list_all2_conv_all_nth in_set_conv_nth) blast
    ultimately show ?thesis
      using r(1) Some that(2) bs by (cases bs) (simp_all add: cached_hit_def)
  qed
qed

text \<open>
  The blocks found so far cover a list of hashes: for each group one block per hash, carrying
  the key of the hash.
\<close>

definition covers :: "block_pool \<Rightarrow> int list \<Rightarrow> block_hash list \<Rightarrow> nat list list \<Rightarrow> bool" where
  "covers p gids hs computed \<longleftrightarrow>
     list_all2 (\<lambda>g c. list_all2 (\<lambda>h b. carries p h g b) hs c) gids computed"

lemma covers_Nil [simp]: "covers p gids [] (replicate (length gids) [])"
  by (simp add: covers_def list_all2_conv_all_nth)

lemma covers_length: "covers p gids hs computed \<Longrightarrow> length computed = length gids"
  by (auto simp: covers_def dest: list_all2_lengthD)

lemma covers_row: "covers p gids hs computed \<Longrightarrow> c \<in> set computed \<Longrightarrow> length c = length hs"
  by (auto simp: covers_def list_all2_conv_all_nth in_set_conv_nth)

lemma covers_append:
  assumes "covers p gids hs computed" and "list_all2 (\<lambda>g b. carries p h g b) gids bs"
  shows "covers p gids (hs @ [h]) (append_hit computed bs)"
  using assms
  by (auto simp: covers_def append_hit_def list_all2_conv_all_nth nth_append split: if_splits)

lemma covers_take: "covers p gids hs computed \<Longrightarrow> covers p gids (take n hs) (map (take n) computed)"
  by (auto simp: covers_def list_all2_conv_all_nth)

lemma covers_first_len:
  assumes "covers p gids hs computed" and "groups_ok gids"
  shows "first_len computed = Inr (int (length hs))"
proof -
  obtain c cs where "computed = c # cs"
    using assms covers_length [OF assms(1)] by (cases computed) (auto simp: groups_ok_def)
  then show ?thesis using covers_row [OF assms(1), of c] by (simp add: first_len_def)
qed

lemma full_hit_loop_eq:
  assumes "cache_inv p" and "groups_ok gids" and "covers p gids done computed"
  shows "\<exists>computed'. full_hit_loop p gids hs computed = Inr computed'
    \<and> covers p gids (done @ takeWhile (hits p gids) hs) computed'"
  using assms(3)
proof (induction hs arbitrary: "done" computed)
  case Nil
  then show ?case by simp
next
  case (Cons h hs)
  show ?case
  proof (cases rule: cached_hit_cases [OF assms(1,2), of h])
    case 1
    then show ?thesis using Cons.prems by simp
  next
    case (2 bs)
    from Cons.IH [OF covers_append [OF Cons.prems 2(3)]] 2(1,2) show ?thesis by simp
  qed
qed

text \<open>The hashes of a list at \<open>k\<close> times its block size.\<close>

definition coarse :: "block_hash list \<Rightarrow> nat \<Rightarrow> block_hash list" where
  "coarse hs k = map (\<lambda>i. hs ! ((i + 1) * k - 1)) [0..<length hs div k]"

lemma coarse_1 [simp]: "coarse hs (Suc 0) = hs"
  by (simp add: coarse_def map_nth)

lemma map_res_upto:
  assumes "\<And>i. i < n \<Longrightarrow> f (int i) = Inr (g i)"
  shows "map_res f [0..int n - 1] = Inr (map g [0..<n])"
proof -
  have "[0..int n - 1] = map int [0..<n]"
    by (simp add: list_eq_iff_nth_eq nth_upto)
  moreover have "map_res f (map int [0..<n]) = Inr (map (g \<circ> nat) (map int [0..<n]))"
    using assms by (intro map_res_Inr) auto
  ultimately show ?thesis by simp
qed

lemma less_coarse:
  assumes "0 < k" and "i < length hs div k"
  shows "(i + 1) * k - 1 < length hs"
proof -
  have "(i + 1) * k \<le> length hs div k * k" using assms(2) by (intro mult_le_mono1) simp
  also have "\<dots> \<le> length hs" by simp
  finally show ?thesis using assms(1) by (metis Suc_eq_plus1 diff_less le_add2 less_le_trans mult_pos_pos zero_less_Suc less_one)
qed

lemma bhl_get_coarse:
  assumes "0 < k" and "i < length hs div k"
  shows "bhl_get (ScaledHashes hs (int k)) (int i) = Inr (coarse hs k ! i)"
proof -
  have "(int i + 1) * int k - 1 = int ((i + 1) * k - 1)"
    using assms(1) by (simp add: of_nat_diff algebra_simps)
  then show ?thesis
    using less_coarse [OF assms] assms(2) by (simp add: py_index_def coarse_def)
qed

lemma bhl_take_coarse:
  assumes "0 < k" and "0 \<le> n"
  shows "bhl_take (ScaledHashes hs (int k)) n = Inr (take (nat n) (coarse hs k))"
proof -
  define m where "m = min (nat n) (length hs div k)"
  have len: "min n (int (length hs) div int k) = int m"
    using assms(2) by (auto simp: m_def zdiv_int min_def nat_le_iff)
  have "map_res (bhl_get (ScaledHashes hs (int k))) [0..int m - 1] =
      Inr (map (\<lambda>i. coarse hs k ! i) [0..<m])"
    by (rule map_res_upto) (simp add: bhl_get_coarse [OF assms(1)] m_def del: bhl_get.simps)
  moreover have "map (\<lambda>i. coarse hs k ! i) [0..<m] = take (nat n) (coarse hs k)"
    by (rule nth_equalityI) (auto simp: m_def coarse_def)
  ultimately show ?thesis using assms(2) len by (simp add: bhl_take_def)
qed

lemma bhl_take_raw:
  assumes "0 \<le> n"
  shows "bhl_take (RawHashes hs) n = Inr (take (nat n) hs)"
proof -
  define m where "m = min (nat n) (length hs)"
  have len: "min n (int (length hs)) = int m"
    using assms by (simp add: m_def min_def) (auto simp: nat_le_iff)
  have "map_res (bhl_get (RawHashes hs)) [0..int m - 1] = Inr (map (\<lambda>i. hs ! i) [0..<m])"
    by (rule map_res_upto) (simp add: py_index_def m_def)
  moreover have "map (\<lambda>i. hs ! i) [0..<m] = take (nat n) hs"
    by (rule nth_equalityI) (auto simp: m_def)
  ultimately show ?thesis using assms len by (simp add: bhl_take_def)
qed

text \<open>
  Sizes that fit together: positive, the effective block size a multiple of the hash block
  size, and the alignment either a multiple of the block size or (for fine-grained hits) the
  hash block size.
\<close>

definition block_grain :: "block_pool \<Rightarrow> int \<Rightarrow> int \<Rightarrow> bool" where
  "block_grain p block_size align \<longleftrightarrow>
     0 < block_size \<and> 0 < hash_block_size p \<and> block_size mod hash_block_size p = 0
     \<and> 0 < align \<and> align mod block_size = 0"

definition fine_grain :: "block_pool \<Rightarrow> int \<Rightarrow> int \<Rightarrow> bool" where
  "fine_grain p block_size align \<longleftrightarrow>
     0 < align \<and> align = hash_block_size p \<and> align < block_size \<and> block_size mod align = 0"

text \<open>The hashes of the blocks of a group, one per full block.\<close>

definition group_hashes :: "block_pool \<Rightarrow> int \<Rightarrow> block_hash list \<Rightarrow> block_hash list" where
  "group_hashes p block_size hs = coarse hs (nat (block_size div hash_block_size p))"

lemma block_grain_align: "block_grain p block_size align \<Longrightarrow> block_size \<le> align"
  by (auto simp: block_grain_def dest: zmod_eq_0_iff [THEN iffD1] intro: zdvd_imp_le)

lemma resolve_block_grain:
  assumes "block_grain p block_size align"
  shows "\<exists>hl. resolve_block_hashes (RawHashes hs) (hash_block_size p) block_size fine (Some align)
      = Inr hl
    \<and> (\<forall>n \<ge> 0. bhl_take hl n = Inr (take (nat n) (group_hashes p block_size hs)))
    \<and> (\<forall>i < length (group_hashes p block_size hs).
         bhl_get hl (int i) = Inr (group_hashes p block_size hs ! i))
    \<and> bhl_len hl = int (length (group_hashes p block_size hs))"
proof (cases "block_size = hash_block_size p")
  case True
  then have "group_hashes p block_size hs = hs"
    using assms by (simp add: group_hashes_def block_grain_def)
  then show ?thesis
    using True bhl_take_raw by (auto simp: resolve_block_hashes_def py_index_def)
next
  case False
  let ?k = "nat (block_size div hash_block_size p)"
  have le: "block_size \<le> align" by (rule block_grain_align [OF assms])
  have "hash_block_size p dvd block_size" using assms by (auto simp: block_grain_def)
  then have "hash_block_size p \<le> block_size"
    using assms by (intro zdvd_imp_le) (simp_all add: block_grain_def)
  then have k: "0 < ?k" "int ?k = block_size div hash_block_size p"
    using assms pos_imp_zdiv_pos_iff [of "hash_block_size p" block_size]
    by (auto simp: block_grain_def)
  have "resolve_block_hashes (RawHashes hs) (hash_block_size p) block_size fine (Some align)
      = Inr (ScaledHashes hs (int ?k))"
    using False assms le k(2)
    by (simp add: resolve_block_hashes_def keeps_fine_hashes_def with_block_size_def block_grain_def)
  then show ?thesis
    using bhl_take_coarse [OF k(1)] bhl_get_coarse [OF k(1)]
    by (auto simp: group_hashes_def coarse_def [of hs] zdiv_int simp del: bhl_get.simps)
qed

text \<open>The number of leading hashes that hit.\<close>

definition hit_run :: "block_pool \<Rightarrow> int list \<Rightarrow> block_hash list \<Rightarrow> int" where
  "hit_run p gids hs = int (length (takeWhile (hits p gids) hs))"

lemma cdiv_dvd: "cdiv_law cdiv \<Longrightarrow> 0 < b \<Longrightarrow> b dvd a \<Longrightarrow> cdiv a b = a div b"
  by (simp add: cdiv_law_def dvd_neg_div)

lemma align_down:
  fixes a b :: int
  assumes "0 < b" and "0 \<le> a"
  shows "0 \<le> a - a mod b" "a - a mod b \<le> a" "(a - a mod b) mod b = 0"
  using assms zmod_le_nonneg_dividend [of a b] pos_mod_sign [of b a]
  by (simp_all add: mod_diff_left_eq del: pos_mod_sign)

lemma take_takeWhile_take:
  assumes "k \<le> length (takeWhile P (take n xs))"
  shows "take k (takeWhile P (take n xs)) = take k xs"
proof -
  have "takeWhile P (take n xs) = take (length (takeWhile P (take n xs))) (take n xs)"
    by (metis takeWhile_eq_take)
  moreover have "length (takeWhile P (take n xs)) \<le> n"
    by (metis length_takeWhile_le length_take min.boundedE)
  ultimately show ?thesis
    using assms by (metis min.absorb1 min.orderE order_trans take_take)
qed

lemma full_attention_hit_block:
  fixes hs :: "block_hash list" and drop_eagle :: bool
  assumes inv: "cache_inv p" and gids: "groups_ok gids" and kind: "is_full_attention (sp_kind spec)"
    and cd: "cdiv_law cdiv" and len: "0 \<le> max_length"
    and bg: "block_grain p (effective_block_size spec dcp) align"
  defines "bs \<equiv> effective_block_size spec dcp"
  defines "ghs \<equiv> group_hashes p bs hs"
  defines "run \<equiv> hit_run p gids (take (nat (max_length div bs)) ghs)"
  defines "raw \<equiv> (if drop_eagle \<and> run > 0 then run - 1 else run) * bs"
  defines "hit_length \<equiv> raw - raw mod align"
  shows "\<exists>computed. full_attention_hit cdiv p hs max_length gids spec drop_eagle align dcp
      = Inr (computed, hit_length)
    \<and> covers p gids (take (nat (hit_length div bs)) ghs) computed
    \<and> 0 \<le> hit_length \<and> hit_length \<le> run * bs"
proof -
  have pos: "0 < bs" "0 < align" "align mod bs = 0" using bg by (auto simp: bs_def block_grain_def)
  have le: "bs \<le> align" using block_grain_align [OF bg] by (simp add: bs_def)
  obtain hl where hl: "resolve_block_hashes (RawHashes hs) (hash_block_size p) bs True (Some align)
      = Inr hl" "\<And>n. n \<ge> 0 \<Longrightarrow> bhl_take hl n = Inr (take (nat n) ghs)"
    using resolve_block_grain [OF bg, of hs True] by (auto simp: ghs_def bs_def)
  define hit_hs where "hit_hs = takeWhile (hits p gids) (take (nat (max_length div bs)) ghs)"
  have n: "0 \<le> max_length div bs" using len pos by (simp add: pos_imp_zdiv_nonneg_iff)
  obtain computed where c: "full_hit_loop p gids (take (nat (max_length div bs)) ghs)
      (replicate (length gids) []) = Inr computed" "covers p gids hit_hs computed"
    using full_hit_loop_eq [OF inv gids covers_Nil] by (auto simp: hit_hs_def)
  have run: "run = int (length hit_hs)" by (simp add: run_def hit_run_def hit_hs_def)
  have fl: "first_len computed = Inr run" using covers_first_len [OF c(2) gids] run by simp
  have h1: "(if drop_eagle \<and> run * bs > 0 then run * bs - min align bs else run * bs) = raw"
    using pos le run by (auto simp: raw_def zero_less_mult_iff algebra_simps)
  have raw: "raw \<ge> 0" "raw \<le> run * bs" using run pos by (auto simp: raw_def)
  note al = align_down [OF pos(2) raw(1), folded hit_length_def]
  have "bs dvd align" "bs dvd raw" using pos(3) by (auto simp: raw_def)
  then have d: "bs dvd hit_length" by (simp add: hit_length_def dvd_mod)
  have "hit_length div bs \<le> run"
    using al(2) raw(2) pos(1) zdiv_mono1 [of hit_length "run * bs" bs] by simp
  then have "take (nat (hit_length div bs)) hit_hs = take (nat (hit_length div bs)) ghs"
    unfolding hit_hs_def by (intro take_takeWhile_take) (simp add: run hit_hs_def)
  then have "covers p gids (take (nat (hit_length div bs)) ghs)
      (map (take (nat (hit_length div bs))) computed)"
    using covers_take [OF c(2)] by metis
  moreover have "full_attention_hit cdiv p hs max_length gids spec drop_eagle align dcp
      = Inr (map (take (nat (hit_length div bs))) computed, hit_length)"
    using kind hl(1) hl(2) [OF n] le pos(1,2) c(1) fl h1 cdiv_dvd [OF cd pos(1) d]
    by (simp add: full_attention_hit_def Let_def bs_def [symmetric] py_floordiv_def py_mod_def
        full_hit_trim_def hit_length_def)
  ultimately show ?thesis using al raw(2) by auto
qed

text \<open>Fine-grained hits: the longest hash boundary inside the first block that is not full.\<close>

definition interior_hit ::
  "block_pool \<Rightarrow> int list \<Rightarrow> block_hash list \<Rightarrow> int \<Rightarrow> int \<Rightarrow> int \<Rightarrow> int \<Rightarrow> nat option" where
  "interior_hit p gids hs bs align max_length run =
     (let k = bs div align
      in find (\<lambda>i. hits p gids (hs ! i))
           (rev [nat (run * k)..<nat (min (run * k + k - 1)
              (min (max_length div align) (int (length hs))))]))"

lemma partial_tail_loop_eq:
  assumes "cache_inv p" and "groups_ok gids" and "covers p gids done computed"
    and "\<forall>i \<in> set js. i < length hs"
  shows "\<exists>computed'. partial_tail_loop p gids (RawHashes hs) align (map int js) computed l =
      Inr (computed', case find (\<lambda>i. hits p gids (hs ! i)) js of
         None \<Rightarrow> l | Some i \<Rightarrow> (int i + 1) * align)
    \<and> covers p gids (done @ (case find (\<lambda>i. hits p gids (hs ! i)) js of
         None \<Rightarrow> [] | Some i \<Rightarrow> [hs ! i])) computed'"
  using assms(4)
proof (induction js)
  case Nil
  then show ?case using assms(3) by simp
next
  case (Cons i js)
  have get: "bhl_get (RawHashes hs) (int i) = Inr (hs ! i)"
    using Cons.prems by (simp add: py_index_def)
  show ?case
  proof (cases rule: cached_hit_cases [OF assms(1,2), of "hs ! i"])
    case 1
    then show ?thesis using Cons get by (simp del: bhl_get.simps)
  next
    case (2 bs)
    then show ?thesis using covers_append [OF assms(3) 2(3)] get by (simp del: bhl_get.simps)
  qed
qed

lemma rev_upto_int:
  assumes "0 \<le> a"
  shows "rev [a..b - 1] = map int (rev [nat a..<nat b])"
proof -
  have "[a..b - 1] = map int [nat a..<nat b]"
    using assms by (auto simp: list_eq_iff_nth_eq nth_upto)
  then show ?thesis by (simp add: rev_map)
qed

lemma full_attention_hit_fine:
  fixes hs :: "block_hash list" and drop_eagle :: bool
  assumes inv: "cache_inv p" and gids: "groups_ok gids" and kind: "is_full_attention (sp_kind spec)"
    and len: "0 \<le> max_length"
    and fg: "fine_grain p (effective_block_size spec dcp) align"
  defines "bs \<equiv> effective_block_size spec dcp"
  defines "ghs \<equiv> group_hashes p bs hs"
  defines "run \<equiv> hit_run p gids (take (nat (max_length div bs)) ghs)"
  defines "tail \<equiv> interior_hit p gids hs bs align max_length run"
  defines "raw \<equiv> (case tail of None \<Rightarrow> run * bs | Some i \<Rightarrow> (int i + 1) * align)"
  defines "hit_length \<equiv> (if drop_eagle \<and> raw > 0 then raw - align else raw)"
  shows "\<exists>computed. full_attention_hit cdiv p hs max_length gids spec drop_eagle align dcp
      = Inr (computed, hit_length)
    \<and> covers p gids (take (nat (cdiv hit_length bs))
        (take (nat run) ghs @ (case tail of None \<Rightarrow> [] | Some i \<Rightarrow> [hs ! i]))) computed"
proof -
  define k where "k = bs div align"
  have pos: "0 < align" "align = hash_block_size p" "align < bs" "bs mod align = 0"
    using fg by (auto simp: bs_def fine_grain_def)
  then have k: "0 < k" "bs = k * align" "0 < bs"
    using pos_imp_zdiv_pos_iff [of align bs] by (auto simp: k_def)
  have ghs: "ghs = coarse hs (nat k)" by (simp add: ghs_def group_hashes_def k_def pos(2))
  have n: "0 \<le> max_length div bs" using len k(3) by (simp add: pos_imp_zdiv_nonneg_iff)
  have hl: "resolve_block_hashes (RawHashes hs) (hash_block_size p) bs True (Some align)
      = Inr (RawHashes hs)"
    using pos by (simp add: resolve_block_hashes_def keeps_fine_hashes_def)
  have full: "with_block_size hs align bs = Inr (ScaledHashes hs k)"
    using pos by (simp add: with_block_size_def k_def)
  have take: "bhl_take (ScaledHashes hs k) (max_length div bs) =
      Inr (take (nat (max_length div bs)) ghs)"
    using bhl_take_coarse [of "nat k" "max_length div bs" hs] k(1) n by (simp add: ghs)
  define hit_hs where "hit_hs = takeWhile (hits p gids) (take (nat (max_length div bs)) ghs)"
  obtain computed where c: "full_hit_loop p gids (take (nat (max_length div bs)) ghs)
      (replicate (length gids) []) = Inr computed" "covers p gids hit_hs computed"
    using full_hit_loop_eq [OF inv gids covers_Nil] by (auto simp: hit_hs_def)
  have run: "run = int (length hit_hs)" by (simp add: run_def hit_run_def hit_hs_def)
  have fl: "first_len computed = Inr run" using covers_first_len [OF c(2) gids] run by simp
  have hit_hs: "hit_hs = take (nat run) ghs"
    using take_takeWhile_take [of "length hit_hs" "hits p gids" "nat (max_length div bs)" ghs] run
    by (simp add: hit_hs_def)
  define js where "js = rev [nat (run * k)..<nat (min (run * k + k - 1)
      (min (max_length div align) (int (length hs))))]"
  have tail: "tail = find (\<lambda>i. hits p gids (hs ! i)) js"
    by (simp add: tail_def interior_hit_def k_def js_def Let_def)
  have "\<forall>i \<in> set js. i < length hs" by (auto simp: js_def)
  from partial_tail_loop_eq [OF inv gids c(2) this, of align "run * bs"]
  obtain computed' where c': "partial_tail_loop p gids (RawHashes hs) align (map int js) computed
      (run * bs) = Inr (computed', raw)"
    "covers p gids (hit_hs @ (case tail of None \<Rightarrow> [] | Some i \<Rightarrow> [hs ! i])) computed'"
    unfolding tail [symmetric] raw_def by blast
  have "rev [run * k..min (min (run * k + k - 1) (max_length div align)) (int (length hs)) - 1]
      = map int js"
    using rev_upto_int [of "run * k"] run k(1) by (simp add: js_def min.assoc)
  then have pt: "partial_tail p gids (RawHashes hs) align bs max_length computed run
      = Inr (computed', raw)"
    using c'(1) by (simp add: partial_tail_def Let_def k_def [symmetric])
  have "align dvd raw" using k(2) by (auto simp: raw_def split: option.split)
  then have "align dvd hit_length" by (auto simp: hit_length_def)
  then have m: "hit_length mod align = 0" by simp
  have h: "(if drop_eagle \<and> raw > 0 then raw - min align bs else raw) = hit_length"
    using pos by (simp add: hit_length_def)
  have trim: "full_hit_trim cdiv drop_eagle align bs (computed', raw)
      = Inr (map (take (nat (cdiv hit_length bs))) computed', hit_length)"
    unfolding full_hit_trim_def split_beta Let_def fst_conv snd_conv h
    using pos m by (simp add: py_mod_def)
  have "full_attention_hit cdiv p hs max_length gids spec drop_eagle align dcp
      = Inr (map (take (nat (cdiv hit_length bs))) computed', hit_length)"
    using kind hl full take pos(1,3,4) k(3) c(1) fl pt trim
    by (simp add: full_attention_hit_def Let_def bs_def [symmetric] py_floordiv_def py_mod_def)
  moreover note covers_take [OF c'(2), of "nat (cdiv hit_length bs)"]
  ultimately show ?thesis using hit_hs by auto
qed

section \<open>The sliding-window search\<close>

text \<open>
  An end \<open>e\<close> is good when it is aligned (with the block to drop taken off) and the \<open>need\<close>
  blocks before it, or all of them, hit.
\<close>

definition window_good ::
  "block_pool \<Rightarrow> int list \<Rightarrow> block_hash list \<Rightarrow> int \<Rightarrow> int \<Rightarrow> bool \<Rightarrow> nat \<Rightarrow> nat \<Rightarrow> bool" where
  "window_good p gids ghs bs align drop_eagle need e \<longleftrightarrow>
     0 < e \<and> (bs \<noteq> align \<longrightarrow> (int (if drop_eagle then e - 1 else e) * bs) mod align = 0)
     \<and> (\<forall>j. e - need \<le> j \<longrightarrow> j < e \<longrightarrow> hits p gids (ghs ! j))"

text \<open>The rows carry the hashes from index \<open>a\<close> to \<open>b\<close> and are null below \<open>a\<close>.\<close>

definition window_rows ::
  "block_pool \<Rightarrow> int list \<Rightarrow> block_hash list \<Rightarrow> nat \<Rightarrow> nat \<Rightarrow> nat list list \<Rightarrow> bool" where
  "window_rows p gids ghs a b computed \<longleftrightarrow>
     list_all2 (\<lambda>g c. b \<le> length c \<and> (\<forall>j < a. c ! j = null_block p)
       \<and> (\<forall>j. a \<le> j \<longrightarrow> j < b \<longrightarrow> carries p (ghs ! j) g (c ! j))) gids computed"

lemma window_rows_add:
  assumes "window_rows p gids ghs (Suc i) b computed" and "Suc i \<le> b"
    and "list_all2 (\<lambda>g c. carries p (ghs ! i) g c) gids cached"
  shows "window_rows p gids ghs i b (map2 (\<lambda>c x. c[i := x]) computed cached)"
proof -
  have row: "b \<le> length (c[i := x]) \<and> (\<forall>j < i. c[i := x] ! j = null_block p)
      \<and> (\<forall>j. i \<le> j \<longrightarrow> j < b \<longrightarrow> carries p (ghs ! j) g (c[i := x] ! j))"
    if "b \<le> length c \<and> (\<forall>j < Suc i. c ! j = null_block p)
        \<and> (\<forall>j. Suc i \<le> j \<longrightarrow> j < b \<longrightarrow> carries p (ghs ! j) g (c ! j))"
      and "carries p (ghs ! i) g x" for c x g
    using that assms(2) by (auto simp: nth_list_update)
  show ?thesis
    using assms(1,3) row unfolding window_rows_def list_all2_conv_all_nth
    by (simp add: list_all2_conv_all_nth)
qed

lemma window_rows_weaken:
  "window_rows p gids ghs a b computed \<Longrightarrow> a' \<le> a \<Longrightarrow> a \<le> b \<Longrightarrow> window_rows p gids ghs a' a' computed"
  by (fastforce simp: window_rows_def list_all2_conv_all_nth)

lemma window_rows_take:
  "window_rows p gids ghs a b computed \<Longrightarrow> a \<le> b \<Longrightarrow> window_rows p gids ghs a b (map (take b) computed)"
  by (simp add: window_rows_def list_all2_conv_all_nth)

lemma window_loop_spec:
  fixes need :: int and drop_eagle :: bool and bs :: int
  assumes inv: "cache_inv p" and gids: "groups_ok gids" and al: "0 < align"
    and N: "N \<le> length ghs"
    and get: "\<And>i. i < N \<Longrightarrow> bhl_get hl (int i) = Inr (ghs ! i)"
  defines "need' \<equiv> max 1 (nat need)"
  defines "good \<equiv> window_good p gids ghs bs align drop_eagle need'"
  assumes "n + k \<le> N" and "k < need'"
    and "0 < k \<Longrightarrow> bs \<noteq> align \<longrightarrow> (int (if drop_eagle then n + k - 1 else n + k) * bs) mod align = 0"
    and "\<And>j. n \<le> j \<Longrightarrow> j < n + k \<Longrightarrow> hits p gids (ghs ! j)"
    and "window_rows p gids ghs n (n + k) computed"
    and "\<And>c. c \<in> set computed \<Longrightarrow> length c = N"
    and "\<And>e. n + k < e \<Longrightarrow> e \<le> N \<Longrightarrow> \<not> good e"
  shows "\<exists>computed' e found. window_loop p gids hl bs align drop_eagle need n computed (int k)
      = Inr (computed', int (min e need'), found)
    \<and> found = (need' \<le> e) \<and> e \<le> N \<and> (e = 0 \<or> good e) \<and> (\<forall>e'. e < e' \<longrightarrow> e' \<le> N \<longrightarrow> \<not> good e')
    \<and> window_rows p gids ghs (e - need') e computed'
    \<and> (\<forall>c \<in> set computed'. length c = (if found then e else N))"
  using assms(8-)
proof (induction n arbitrary: k computed)
  case 0
  have "k = 0 \<or> good k"
    using 0 by (auto simp: good_def window_good_def)
  then show ?case
    using 0 by (intro exI [of _ computed] exI [of _ k] exI [of _ False]) (auto simp: min_def)
next
  case (Suc i)
  have iN: "i < N" using Suc.prems(1) by simp
  have bad: "\<not> good e" if "i + 0 < e" "e \<le> N" "\<not> hits p gids (ghs ! i)" for e
  proof (cases "Suc i + k < e")
    case True
    then show ?thesis using Suc.prems(7) that by simp
  next
    case False
    then have "e - need' \<le> i" using Suc.prems(2) by simp
    then show ?thesis using that by (auto simp: good_def window_good_def)
  qed
  have null: "window_rows p gids ghs i (i + 0) computed"
    using window_rows_weaken [OF Suc.prems(5), of i] by simp
  show ?case
  proof (cases rule: cached_hit_cases [OF inv gids, of "ghs ! i"])
    case 1
    have "window_loop p gids hl bs align drop_eagle need (Suc i) computed (int k) =
        window_loop p gids hl bs align drop_eagle need i computed (int 0)"
      using 1 get [OF iN] by simp
    then show ?thesis
      using Suc.IH [OF _ _ _ _ null Suc.prems(6) bad [OF _ _ 1(2)]] iN by (simp add: need'_def)
  next
    case (2 cached)
    show ?thesis
    proof (cases "k = 0 \<and> bs \<noteq> align \<and> (int (if drop_eagle then i else i + 1) * bs) mod align \<noteq> 0")
      case True
      have "\<not> good (Suc i)" using True by (auto simp: good_def window_good_def split: if_splits)
      then have nb: "\<not> good e" if "i + 0 < e" "e \<le> N" for e
        using Suc.prems(7) [of e] that True by (cases "e = Suc i") auto
      have "window_loop p gids hl bs align drop_eagle need (Suc i) computed (int k) =
          window_loop p gids hl bs align drop_eagle need i computed (int 0)"
        using True 2 get [OF iN] al by (auto simp: py_mod_def add.commute split: if_splits)
      then show ?thesis
        using Suc.IH [OF _ _ _ _ null Suc.prems(6) nb] iN by (simp add: need'_def)
    next
      case False
      let ?c = "map2 (\<lambda>c b. c[i := b]) computed cached"
      have rows: "window_rows p gids ghs i (Suc i + k) ?c"
        using window_rows_add [OF Suc.prems(5) _ 2(3)] by simp
      have lenc: "length c = N" if "c \<in> set ?c" for c
        using that Suc.prems(6) by (auto dest!: set_zip_leftD)
      have al': "bs \<noteq> align \<longrightarrow>
          (int (if drop_eagle then i + (k + 1) - 1 else i + (k + 1)) * bs) mod align = 0"
        using False Suc.prems(3) by (cases "k = 0") auto
      have hit': "hits p gids (ghs ! j)" if "i \<le> j" "j < i + (k + 1)" for j
        using that 2(2) Suc.prems(4) by (cases "j = i") auto
      have step: "window_loop p gids hl bs align drop_eagle need (Suc i) computed (int k) =
        (if int k + 1 \<ge> need then Inr (map (take (i + nat (int k + 1))) ?c, int k + 1, True)
         else window_loop p gids hl bs align drop_eagle need i ?c (int (k + 1)))"
        using False 2 get [OF iN] al by (auto simp: py_mod_def Let_def add.commute)
      show ?thesis
      proof (cases "int k + 1 \<ge> need")
        case True
        then have k1: "k + 1 = need'" using Suc.prems(2) by (auto simp: need'_def)
        have g: "good (i + (k + 1))"
          unfolding good_def window_good_def using al' hit' k1 by auto
        define e where "e = Suc i + k"
        have e: "e - need' = i" "min e need' = k + 1" "need' \<le> e" "i + nat (int k + 1) = e"
          using k1 by (auto simp: e_def)
        have "window_loop p gids hl bs align drop_eagle need (Suc i) computed (int k) =
            Inr (map (take e) ?c, int (min e need'), True)"
          using step True e by simp
        moreover have "window_rows p gids ghs (e - need') e (map (take e) ?c)"
          using window_rows_take [OF rows] e(1) by (simp add: e_def)
        moreover have "\<forall>c \<in> set (map (take e) ?c). length c = e"
          using lenc Suc.prems(1) by (auto simp: e_def)
        moreover have "good e" using g by (simp add: e_def)
        moreover have "e \<le> N" "\<forall>e'. e < e' \<longrightarrow> e' \<le> N \<longrightarrow> \<not> good e'"
          using Suc.prems(1,7) by (simp_all add: e_def)
        ultimately show ?thesis
          using e(3) by (intro exI [of _ "map (take e) ?c"] exI [of _ e] exI [of _ True]) simp
      next
        case less: False
        then have "k + 1 < need'" by (auto simp: need'_def)
        then show ?thesis
          using Suc.IH [of "k + 1" ?c] Suc.prems(1,7) al' hit' rows lenc step less
          by (simp add: need'_def)
      qed
    qed
  qed
qed

declare pop_until_aligned.simps [simp del]

text \<open>The largest aligned number of blocks up to a given one.\<close>

fun floor_aligned :: "int \<Rightarrow> int \<Rightarrow> nat \<Rightarrow> nat" where
  "floor_aligned bs align 0 = 0"
| "floor_aligned bs align (Suc n) =
     (if bs = align \<or> (int (Suc n) * bs) mod align = 0 then Suc n else floor_aligned bs align n)"

lemma floor_aligned_le: "floor_aligned bs align n \<le> n"
  by (induction n) auto

lemma floor_aligned_mod: "(int (floor_aligned bs align n) * bs) mod align = 0"
  by (induction n) auto

lemma floor_aligned_id:
  "(bs \<noteq> align \<longrightarrow> (int n * bs) mod align = 0) \<Longrightarrow> floor_aligned bs align n = n"
  by (cases n) auto

lemma floor_aligned_greatest:
  "m \<le> n \<Longrightarrow> (int m * bs) mod align = 0 \<Longrightarrow> m \<le> floor_aligned bs align n"
  by (induction n) (auto simp: le_Suc_eq)

lemma pop_until_aligned_eq:
  assumes "align \<noteq> 0" and "computed \<noteq> []" and "\<forall>c \<in> set computed. length c = n"
  shows "pop_until_aligned bs align computed =
    Inr (map (take (floor_aligned bs align n)) computed)"
  using assms(2,3)
proof (induction n arbitrary: computed)
  case 0
  then obtain c cs where "computed = c # cs" "c = []" "\<forall>c \<in> set cs. c = []"
    by (cases computed) auto
  moreover from this have "map (\<lambda>_. []) cs = cs" by (intro map_idI) auto
  ultimately show ?case using assms(1) by (simp add: pop_until_aligned.simps)
next
  case (Suc n)
  then obtain c cs where cs: "computed = c # cs" by (cases computed) auto
  have ne: "[] \<notin> set computed" using Suc.prems(2) by auto
  show ?case
  proof (cases "bs = align \<or> (int (Suc n) * bs) mod align = 0")
    case True
    have "map (take (Suc n)) computed = computed" using Suc.prems(2) by (simp add: map_idI)
    moreover have "pop_until_aligned bs align computed = Inr computed"
      using True Suc.prems(2) assms(1) by (auto simp: cs pop_until_aligned.simps(2) [of bs align c cs])
    moreover have "floor_aligned bs align (Suc n) = Suc n" using True by simp
    ultimately show ?thesis by (simp only:)
  next
    case False
    have "map (take (floor_aligned bs align n)) (map butlast computed) =
        map (take (floor_aligned bs align n)) computed"
      using Suc.prems(2) floor_aligned_le [of bs align n]
      by (simp add: butlast_conv_take min_absorb1 cong: map_cong)
    moreover have "pop_until_aligned bs align computed =
        pop_until_aligned bs align (map butlast computed)"
      using False ne Suc.prems(2) assms(1) by (auto simp: cs pop_until_aligned.simps(2) [of bs align c cs])
    ultimately show ?thesis
      using Suc.IH [of "map butlast computed"] Suc.prems False by (simp del: list.map)
  qed
qed

lemma pop_for_eagle_eq:
  assumes "align \<noteq> 0" and "computed \<noteq> []" and "\<forall>c \<in> set computed. length c = n"
  shows "pop_for_eagle drop_eagle bs align computed =
    Inr (map (take (if drop_eagle \<and> 0 < n then floor_aligned bs align (n - 1) else n)) computed)"
proof (cases "drop_eagle \<and> 0 < n")
  case False
  have "map (take n) computed = computed" using assms(3) by (simp add: map_idI)
  then show ?thesis
    using False assms(2,3) by (cases computed) (auto simp: pop_for_eagle_def)
next
  case True
  have ne: "[] \<notin> set computed" using True assms(3) by auto
  have "\<forall>c \<in> set (map butlast computed). length c = n - 1" using assms(3) by auto
  from pop_until_aligned_eq [OF assms(1) _ this, of bs]
  have "pop_until_aligned bs align (map butlast computed) =
      Inr (map (take (floor_aligned bs align (n - 1))) (map butlast computed))"
    using assms(2) by simp
  moreover have "map (take (floor_aligned bs align (n - 1))) (map butlast computed) =
      map (take (floor_aligned bs align (n - 1))) computed"
    using assms(3) floor_aligned_le [of bs align "n - 1"]
    by (simp add: butlast_conv_take min_absorb1 cong: map_cong)
  ultimately show ?thesis
    using True ne assms(2) by (cases computed) (auto simp: pop_for_eagle_def)
qed

section \<open>Correctness of the lookups\<close>

text \<open>
  The blocks that a sliding-window lookup returns: \<open>e\<close> is the end of the run that the search
  found; without enough blocks the run starts at the first block.
\<close>

definition window_result :: "int \<Rightarrow> int \<Rightarrow> bool \<Rightarrow> nat \<Rightarrow> nat \<Rightarrow> nat" where
  "window_result bs align drop_eagle need e =
     (let m = (if need \<le> e then e else floor_aligned bs align e)
      in if drop_eagle \<and> 0 < m then floor_aligned bs align (m - 1) else m)"

lemma window_result_le: "window_result bs align drop_eagle need e \<le> e"
  using floor_aligned_le [of bs align e] floor_aligned_le [of bs align "e - 1"]
    floor_aligned_le [of bs align "floor_aligned bs align e - 1"]
  by (auto simp: window_result_def Let_def)

lemma window_loop_start:
  fixes need :: int and drop_eagle :: bool and bs :: int
  assumes inv: "cache_inv p" and gids: "groups_ok gids" and al: "0 < align"
    and N: "N \<le> length ghs"
    and get: "\<And>i. i < N \<Longrightarrow> bhl_get hl (int i) = Inr (ghs ! i)"
  defines "need' \<equiv> max 1 (nat need)"
  shows "\<exists>computed e found. window_loop p gids hl bs align drop_eagle need N
      (replicate (length gids) (replicate N (null_block p))) 0
      = Inr (computed, int (min e need'), found)
    \<and> found = (need' \<le> e) \<and> e \<le> N
    \<and> (e = 0 \<or> window_good p gids ghs bs align drop_eagle need' e)
    \<and> (\<forall>e'. e < e' \<longrightarrow> e' \<le> N \<longrightarrow> \<not> window_good p gids ghs bs align drop_eagle need' e')
    \<and> window_rows p gids ghs (e - need') e computed
    \<and> (\<forall>c \<in> set computed. length c = (if found then e else N))"
proof -
  have "window_rows p gids ghs N (N + 0) (replicate (length gids) (replicate N (null_block p)))"
    by (simp add: window_rows_def list_all2_conv_all_nth)
  from window_loop_spec [OF inv gids al N get, where n = N and k = 0 and need = need and bs = bs
      and drop_eagle = drop_eagle, OF _ _ _ _ _ this]
  show ?thesis unfolding need'_def by simp
qed

lemma window_hit_eq:
  fixes cdiv :: "int \<Rightarrow> int \<Rightarrow> int"
    and hs :: "block_hash list" and drop_eagle :: bool
  assumes inv: "cache_inv p" and gids: "groups_ok gids" and kind: "is_sliding_window (sp_kind spec)"
    and world: "dcp = 1 \<and> pcp = 1 \<or> sp_dcp_replicated spec"
    and len: "0 \<le> max_length"
    and bg: "block_grain p (sp_block_size spec) align"
    and enough: "max_length div sp_block_size spec \<le> int (length ghs)"
  defines "bs \<equiv> sp_block_size spec"
  assumes ghs: "ghs = group_hashes p bs hs"
  defines "need \<equiv> max 1 (nat (contiguous_blocks_for_hit cdiv (sp_sliding_window spec) bs drop_eagle))"
    and "N \<equiv> nat (max_length div bs)"
  shows "\<exists>computed e. sliding_window_hit cdiv p hs max_length gids spec drop_eagle align dcp pcp
      = Inr (computed, int (window_result bs align drop_eagle need e) * bs)
    \<and> e \<le> N \<and> (e = 0 \<or> window_good p gids ghs bs align drop_eagle need e)
    \<and> (\<forall>e'. e < e' \<longrightarrow> e' \<le> N \<longrightarrow> \<not> window_good p gids ghs bs align drop_eagle need e')
    \<and> list_all2 (\<lambda>g c. length c = window_result bs align drop_eagle need e
        \<and> (\<forall>j < length c. if e - need \<le> j then carries p (ghs ! j) g (c ! j)
             else c ! j = null_block p)) gids computed"
proof -
  have pos: "0 < bs" "0 < align" "align mod bs = 0" using bg by (auto simp: bs_def block_grain_def)
  obtain hl where hl: "resolve_block_hashes (RawHashes hs) (hash_block_size p) bs False (Some align)
      = Inr hl" "\<And>i. i < length ghs \<Longrightarrow> bhl_get hl (int i) = Inr (ghs ! i)"
    using resolve_block_grain [OF bg, of hs False] by (auto simp: ghs bs_def)
  have N: "N \<le> length ghs" using enough by (simp add: N_def bs_def nat_le_iff)
  have get: "\<And>i. i < N \<Longrightarrow> bhl_get hl (int i) = Inr (ghs ! i)" using hl(2) N by simp
  obtain computed e found where w: "window_loop p gids hl bs align drop_eagle
      (contiguous_blocks_for_hit cdiv (sp_sliding_window spec) bs drop_eagle) N
      (replicate (length gids) (replicate N (null_block p))) 0
      = Inr (computed, int (min e need), found)"
    "found = (need \<le> e)" "e \<le> N" "e = 0 \<or> window_good p gids ghs bs align drop_eagle need e"
    "\<forall>e'. e < e' \<longrightarrow> e' \<le> N \<longrightarrow> \<not> window_good p gids ghs bs align drop_eagle need e'"
    "window_rows p gids ghs (e - need) e computed"
    "\<forall>c \<in> set computed. length c = (if found then e else N)"
    using window_loop_start [OF inv gids pos(2) N get] unfolding need_def by metis
  have ne: "computed \<noteq> []"
    using w(6) gids by (auto simp: window_rows_def groups_ok_def)
  define m where "m = (if need \<le> e then e else floor_aligned bs align e)"
  define computed1 where "computed1 = map (take m) computed"
  have "m \<le> e" using floor_aligned_le by (simp add: m_def)
  have len1: "\<forall>c \<in> set computed1. length c = m"
    using w(2,3,7) \<open>m \<le> e\<close> by (auto simp: computed1_def)
  have pop1: "(if found then Inr computed
      else pop_until_aligned bs align (map (take (nat (int (min e need)))) computed)) = Inr computed1"
  proof (cases found)
    case True
    then have "map (take e) computed = computed" using w(7) by (intro map_idI) simp
    then show ?thesis using True w(2) by (simp add: computed1_def m_def)
  next
    case False
    then have "min e need = e" using w(2) by simp
    moreover have "\<forall>c \<in> set (map (take e) computed). length c = e" using w(3,7) False by simp
    moreover have "map (take (floor_aligned bs align e)) (map (take e) computed) = computed1"
      using False w(2) floor_aligned_le [of bs align e]
      by (simp add: computed1_def m_def min_absorb1 o_def)
    ultimately show ?thesis
      using False pop_until_aligned_eq [of align "map (take e) computed" e bs] pos(2) ne by simp
  qed
  let ?l = "window_result bs align drop_eagle need e"
  have l: "?l = (if drop_eagle \<and> 0 < m then floor_aligned bs align (m - 1) else m)"
    by (simp add: window_result_def m_def Let_def)
  have "?l \<le> m" using l floor_aligned_le [of bs align "m - 1"] by (auto split: if_splits)
  define computed2 where "computed2 = map (take ?l) computed"
  have "pop_for_eagle drop_eagle bs align computed1 = Inr (map (take ?l) computed1)"
    unfolding l using pop_for_eagle_eq [OF _ _ len1, of align drop_eagle bs] pos(2) ne
    by (simp add: computed1_def)
  moreover have "map (take ?l) computed1 = computed2"
    using \<open>?l \<le> m\<close> by (simp add: computed1_def computed2_def min_absorb1 o_def)
  ultimately have pop2: "pop_for_eagle drop_eagle bs align computed1 = Inr computed2" by simp
  have len2: "\<forall>c \<in> set computed2. length c = ?l"
    using w(2,3,7) \<open>?l \<le> m\<close> \<open>m \<le> e\<close> by (auto simp: computed2_def)
  then have "first_len computed2 = Inr (int ?l)"
    using ne by (cases computed) (auto simp: first_len_def computed2_def)
  then have "sliding_window_hit cdiv p hs max_length gids spec drop_eagle align dcp pcp
      = Inr (computed2, int ?l * bs)"
    using kind world hl(1) pos w(1) pop1 pop2
    by (auto simp: sliding_window_hit_def Let_def bs_def [symmetric] py_mod_def N_def [symmetric])
  moreover have "list_all2 (\<lambda>g c. length c = ?l \<and> (\<forall>j < length c. if e - need \<le> j
      then carries p (ghs ! j) g (c ! j) else c ! j = null_block p)) gids computed2"
    using w(6) len2 window_result_le [of bs align drop_eagle need e]
    by (auto simp: window_rows_def list_all2_conv_all_nth computed2_def)
  ultimately show ?thesis using w(3-5) by blast
qed

text \<open>Chunked local attention: null blocks before the chunk, then the run of hits in it.\<close>

definition null_then :: "block_pool \<Rightarrow> nat \<Rightarrow> int list \<Rightarrow> block_hash list \<Rightarrow> nat list list \<Rightarrow> bool" where
  "null_then p n gids hs computed \<longleftrightarrow>
     (\<exists>rows. computed = map (\<lambda>c. replicate n (null_block p) @ c) rows \<and> covers p gids hs rows)"

lemma null_then_start:
  "null_then p n gids [] (replicate (length gids) (replicate n (null_block p)))"
  unfolding null_then_def
  by (rule exI [of _ "replicate (length gids) []"]) simp

lemma null_then_append:
  assumes "null_then p n gids hs computed" and "list_all2 (\<lambda>g b. carries p h g b) gids bs"
  shows "null_then p n gids (hs @ [h]) (append_hit computed bs)"
proof -
  obtain rows where rows: "computed = map (\<lambda>c. replicate n (null_block p) @ c) rows"
    "covers p gids hs rows"
    using assms(1) by (auto simp: null_then_def)
  have "append_hit computed bs = map (\<lambda>c. replicate n (null_block p) @ c) (append_hit rows bs)"
    unfolding rows(1) append_hit_def
    by (simp add: map_zip_map map_zip_map2 split_def o_def)
  with covers_append [OF rows(2) assms(2)] show ?thesis unfolding null_then_def by blast
qed

lemma null_then_first_len:
  assumes "null_then p n gids hs computed" and "groups_ok gids"
  shows "first_len computed = Inr (int (n + length hs))"
proof -
  obtain rows where rows: "computed = map (\<lambda>c. replicate n (null_block p) @ c) rows"
    "covers p gids hs rows"
    using assms(1) by (auto simp: null_then_def)
  then show ?thesis
    using covers_length [OF rows(2)] covers_row [OF rows(2)] assms(2)
    by (cases rows) (auto simp: groups_ok_def first_len_def)
qed

lemma chunk_loop_eq:
  assumes "cache_inv p" and "groups_ok gids" and "null_then p n gids done computed"
    and "\<And>i. i \<in> set js \<Longrightarrow> bhl_get hl (int i) = Inr (ghs ! i)"
  shows "\<exists>computed'. chunk_loop p gids hl (map int js) computed = Inr computed'
    \<and> null_then p n gids (done @ takeWhile (hits p gids) (map ((!) ghs) js)) computed'"
  using assms(3,4)
proof (induction js arbitrary: "done" computed)
  case Nil
  then show ?case by simp
next
  case (Cons i js)
  have get: "bhl_get hl (int i) = Inr (ghs ! i)" using Cons.prems(2) by simp
  show ?case
  proof (cases rule: cached_hit_cases [OF assms(1,2), of "ghs ! i"])
    case 1
    then show ?thesis using Cons.prems(1) get by simp
  next
    case (2 bs)
    from Cons.IH [OF null_then_append [OF Cons.prems(1) 2(3)]] Cons.prems(2) 2(1,2) get
    show ?thesis by simp
  qed
qed

lemma chunked_local_hit_eq:
  fixes hs :: "block_hash list"
  assumes inv: "cache_inv p" and gids: "groups_ok gids"
    and kind: "sp_kind spec = ChunkedLocalAttentionSpec"
    and len: "0 \<le> max_length" and chunk: "0 < sp_attention_chunk_size spec"
    and bg: "block_grain p (sp_block_size spec) (sp_block_size spec)"
    and enough: "max_length div sp_block_size spec \<le> int (length ghs)"
    and ghs: "ghs = group_hashes p (sp_block_size spec) hs"
  defines "bs \<equiv> sp_block_size spec"
    and "start \<equiv> nat (max_length div sp_attention_chunk_size spec * sp_attention_chunk_size spec
      div sp_block_size spec)"
  defines "run \<equiv> takeWhile (hits p gids) (map ((!) ghs) [start..<nat (max_length div bs)])"
  shows "\<exists>computed. chunked_local_hit p hs max_length gids spec False bs 1 1
      = Inr (computed, int (start + length run) * bs)
    \<and> null_then p start gids run computed"
proof -
  have pos: "0 < bs" using bg by (auto simp: bs_def block_grain_def)
  obtain hl where hl: "resolve_block_hashes (RawHashes hs) (hash_block_size p) bs False (Some bs)
      = Inr hl" "\<And>i. i < length ghs \<Longrightarrow> bhl_get hl (int i) = Inr (ghs ! i)"
    using resolve_block_grain [OF bg, of hs False] by (auto simp: ghs bs_def)
  let ?ls = "if max_length > 0 then max_length div sp_attention_chunk_size spec
      * sp_attention_chunk_size spec else 0"
  have s: "int start = ?ls div bs"
    using len chunk pos
    by (auto simp: start_def bs_def pos_imp_zdiv_nonneg_iff intro!: mult_nonneg_nonneg)
  have "0 \<le> int start" by simp
  then have "[?ls div bs..max_length div bs - 1] = map int [start..<nat (max_length div bs)]"
    unfolding s [symmetric] by (auto simp: list_eq_iff_nth_eq nth_upto)
  moreover have get: "\<And>i. i \<in> set [start..<nat (max_length div bs)] \<Longrightarrow>
      bhl_get hl (int i) = Inr (ghs ! i)"
    using hl(2) enough by (auto simp: bs_def nat_le_iff)
  obtain computed where c: "chunk_loop p gids hl (map int [start..<nat (max_length div bs)])
      (replicate (length gids) (replicate start (null_block p))) = Inr computed"
    "null_then p start gids run computed"
    using chunk_loop_eq [OF inv gids null_then_start, of "[start..<nat (max_length div bs)]" hl ghs
        start, OF get] by (auto simp: run_def)
  moreover have "nat (?ls div bs) = start" using s by linarith
  ultimately have "chunked_local_hit p hs max_length gids spec False bs 1 1
      = Inr (computed, int (start + length run) * bs)"
    using kind hl(1) pos chunk null_then_first_len [OF c(2) gids]
    by (simp add: chunked_local_hit_def Let_def bs_def [symmetric] py_floordiv_def
        split: if_splits)
  with c(2) show ?thesis by blast
qed

text \<open>Mamba: the last aligned boundary whose state is cached.\<close>

definition state_good ::
  "block_pool \<Rightarrow> int list \<Rightarrow> block_hash list \<Rightarrow> int \<Rightarrow> int \<Rightarrow> nat \<Rightarrow> bool" where
  "state_good p gids ghs bs align e \<longleftrightarrow>
     0 < e \<and> (bs \<noteq> align \<longrightarrow> (int e * bs) mod align = 0) \<and> hits p gids (ghs ! (e - 1))"

definition state_rows :: "block_pool \<Rightarrow> int list \<Rightarrow> nat \<Rightarrow> block_hash \<Rightarrow> nat list list \<Rightarrow> bool" where
  "state_rows p gids n h computed \<longleftrightarrow>
     list_all2 (\<lambda>g c. \<exists>b. c = replicate n (null_block p) @ [b] \<and> carries p h g b) gids computed"

lemma pad_hit_rows:
  assumes "list_all2 (\<lambda>g b. carries p h g b) gids bs"
  shows "state_rows p gids n h (pad_hit p n (replicate (length gids) []) bs)"
  using assms by (auto simp: state_rows_def pad_hit_def list_all2_conv_all_nth)

lemma mamba_loop_eq:
  assumes inv: "cache_inv p" and gids: "groups_ok gids" and al: "0 < align"
    and get: "\<And>i. i < n \<Longrightarrow> bhl_get hl (int i) = Inr (ghs ! i)"
  shows "\<exists>computed e. mamba_loop p gids hl bs align n = Inr (computed, int e * bs)
    \<and> e \<le> n \<and> (\<forall>e'. e < e' \<longrightarrow> e' \<le> n \<longrightarrow> \<not> state_good p gids ghs bs align e')
    \<and> (if e = 0 then computed = replicate (length gids) []
       else state_good p gids ghs bs align e \<and> state_rows p gids (e - 1) (ghs ! (e - 1)) computed)"
  using get
proof (induction n)
  case 0
  then show ?case by (intro exI [of _ "replicate (length gids) []"] exI [of _ 0]) simp
next
  case (Suc i)
  obtain computed e where IH: "mamba_loop p gids hl bs align i = Inr (computed, int e * bs)"
    "e \<le> i" "\<forall>e'. e < e' \<longrightarrow> e' \<le> i \<longrightarrow> \<not> state_good p gids ghs bs align e'"
    "if e = 0 then computed = replicate (length gids) []
       else state_good p gids ghs bs align e \<and> state_rows p gids (e - 1) (ghs ! (e - 1)) computed"
    using Suc by auto
  have get: "bhl_get hl (int i) = Inr (ghs ! i)" using Suc.prems by simp
  show ?case
  proof (cases "state_good p gids ghs bs align (Suc i)")
    case False
    have "mamba_loop p gids hl bs align (Suc i) = mamba_loop p gids hl bs align i"
    proof (cases rule: cached_hit_cases [OF inv gids, of "ghs ! i"])
      case 1
      then show ?thesis using get by simp
    next
      case (2 bs')
      then show ?thesis
        using get False al by (auto simp: state_good_def py_mod_def add.commute)
    qed
    then show ?thesis
      using IH False by (intro exI [of _ computed] exI [of _ e]) (auto simp: le_Suc_eq)
  next
    case True
    then show ?thesis
    proof (cases rule: cached_hit_cases [OF inv gids, of "ghs ! i"])
      case 1
      then show ?thesis using True by (simp add: state_good_def)
    next
      case (2 bs')
      then have "mamba_loop p gids hl bs align (Suc i) =
          Inr (pad_hit p i (replicate (length gids) []) bs', int (Suc i) * bs)"
        using get True al by (auto simp: state_good_def py_mod_def add.commute)
      then show ?thesis
        using True pad_hit_rows [OF 2(3), of i]
        by (intro exI [of _ "pad_hit p i (replicate (length gids) []) bs'"] exI [of _ "Suc i"]) simp
    qed
  qed
qed

section \<open>Correctness of the masks\<close>

lemma mark_length [simp]: "length (mark start is m) = length m"
  by (induction "is" arbitrary: m) (auto simp: mark_def)

lemma mark_nth:
  "k < length m \<Longrightarrow> mark start is m ! k \<longleftrightarrow> m ! k \<or> (\<exists>i \<in> set is. nat (i - start) = k)"
proof (induction "is" arbitrary: m)
  case Nil
  then show ?case by (simp add: mark_def)
next
  case (Cons i js)
  then show ?case
    using Cons.IH [of "m[nat (i - start) := True]"]
    by (cases "nat (i - start) = k") (auto simp: mark_def)
qed

lemma concat_res_Inr:
  "(\<And>x. x \<in> set xs \<Longrightarrow> f x = Inr (g x)) \<Longrightarrow> concat_res f xs = Inr (concat (map g xs))"
  using map_res_Inr [of xs f g] by (simp add: concat_res_def)

lemma segment_tails_eq:
  assumes "0 < per"
  shows "segment_tails start end_block per need shift = Inr
    (concat (map (\<lambda>i. if i \<ge> shift \<and> (i - shift) mod per \<ge> per - need then [i] else [])
      [start..end_block - 1]))"
  unfolding segment_tails_def
  using assms by (intro concat_res_Inr) (auto simp: py_mod_def)

lemma boundary_tails_eq:
  assumes "0 < align"
  shows "concat_res (boundary_tail start end_block align bs need shift) boundaries = Inr
    (concat (map (\<lambda>b. [max start (b div align * align div bs + shift - need)
        ..min end_block (b div align * align div bs + shift) - 1]) boundaries))"
  using assms by (intro concat_res_Inr) (simp add: boundary_tail_def py_floordiv_def Let_def)

text \<open>
  A block \<open>j\<close> lies in the tail of an end \<open>e\<close> when a hit that ends at \<open>e\<close> reads it; the ends of
  segments are those at a multiple of \<open>per\<close> blocks (after the block to drop).
\<close>

definition in_tail :: "int \<Rightarrow> int \<Rightarrow> int \<Rightarrow> bool" where
  "in_tail need j e \<longleftrightarrow> e - need \<le> j \<and> j < e"

lemma in_segment_tail:
  assumes "0 < per" and "need < per" and "0 \<le> j" and "0 \<le> shift"
  shows "(j \<ge> shift \<and> (j - shift) mod per \<ge> per - need) \<longleftrightarrow>
    (\<exists>e > shift. (e - shift) mod per = 0 \<and> in_tail need j e)"
proof
  assume l: "j \<ge> shift \<and> (j - shift) mod per \<ge> per - need"
  define e where "e = shift + ((j - shift) div per + 1) * per"
  have d: "j - shift = (j - shift) div per * per + (j - shift) mod per"
    by (metis div_mult_mod_eq)
  have e: "e = shift + (j - shift) div per * per + per" by (simp add: e_def algebra_simps)
  have "(j - shift) mod per < per" using assms(1) by simp
  then have "j < e" "e - need \<le> j" using d l e by linarith+
  moreover have "(e - shift) mod per = 0" by (simp add: e_def)
  moreover have "e > shift" using \<open>j < e\<close> l by simp
  ultimately show "\<exists>e > shift. (e - shift) mod per = 0 \<and> in_tail need j e"
    by (auto simp: in_tail_def)
next
  assume "\<exists>e > shift. (e - shift) mod per = 0 \<and> in_tail need j e"
  then obtain e where e: "e > shift" "(e - shift) mod per = 0" "e - need \<le> j" "j < e"
    by (auto simp: in_tail_def)
  obtain q where q: "e - shift = q * per" using e(2) by (metis mod_0_imp_dvd dvd_def mult.commute)
  have "q * per > 0" using q e(1) by linarith
  then have "q > 0" using assms(1) by (simp add: zero_less_mult_iff)
  then have "per \<le> q * per" using assms(1) by simp
  then have sh: "j \<ge> shift" using q e assms(2) by linarith
  have "(j - shift) mod per = (per - (e - j)) mod per"
  proof -
    have "j - shift = (per - (e - j)) + (q - 1) * per" using q by (simp add: algebra_simps)
    then show ?thesis by (metis mod_mult_self1)
  qed
  also have "\<dots> = per - (e - j)" using e assms(2) by (intro mod_pos_pos_trivial) auto
  finally show "j \<ge> shift \<and> (j - shift) mod per \<ge> per - need" using sh e by simp
qed

lemma window_mask_eq:
  fixes cdiv :: "int \<Rightarrow> int \<Rightarrow> int" and use_eagle :: bool
  assumes kind: "is_sliding_window (sp_kind spec)" and bs: "0 < sp_block_size spec"
    and al: "0 < align" "align mod sp_block_size spec = 0" and start: "0 \<le> start"
    and need: "0 \<le> contiguous_blocks_for_hit cdiv (sp_sliding_window spec) (sp_block_size spec) use_eagle"
    and ret: "case retention of None \<Rightarrow> True | Some t \<Rightarrow> 0 \<le> t"
  defines "need \<equiv> contiguous_blocks_for_hit cdiv (sp_sliding_window spec) (sp_block_size spec) use_eagle"
    and "shift \<equiv> (if use_eagle then 1 else 0 :: int)"
    and "segment \<equiv> (case retention of None \<Rightarrow> align | Some t \<Rightarrow> t)"
  shows "\<exists>r. window_mask cdiv start end_block (Some align) spec use_eagle retention boundaries = Inr r
    \<and> (r = None \<longleftrightarrow> segment \<noteq> 0 \<and> need \<ge> segment div sp_block_size spec)
    \<and> (\<forall>m. r = Some m \<longrightarrow> length m = nat (end_block - start)
        \<and> (\<forall>j. start \<le> j \<longrightarrow> j < end_block \<longrightarrow>
             m ! nat (j - start) \<longleftrightarrow>
               (segment \<noteq> 0 \<and> (\<exists>e > shift. (e - shift) mod (segment div sp_block_size spec) = 0
                  \<and> in_tail need j e))
               \<or> (retention \<noteq> None \<and> (\<exists>b \<in> set boundaries.
                    in_tail need j (b div align * align div sp_block_size spec + shift)))))"
proof -
  let ?bs = "sp_block_size spec" and ?per = "segment div sp_block_size spec"
  define seg where "seg = (if segment = 0 then []
    else concat (map (\<lambda>i. if i \<ge> shift \<and> (i - shift) mod ?per \<ge> ?per - need then [i] else [])
      [start..end_block - 1]))"
  define tails where "tails = (if retention = None then []
    else concat (map (\<lambda>b. [max start (b div align * align div ?bs + shift - need)
        ..min end_block (b div align * align div ?bs + shift) - 1]) boundaries))"
  have seg0: "segment \<noteq> 0 \<longleftrightarrow> (case retention of None \<Rightarrow> True | Some t \<Rightarrow> t \<noteq> 0)"
    using al(1) by (auto simp: segment_def split: option.split)
  show ?thesis
  proof (cases "segment \<noteq> 0 \<and> need \<ge> ?per")
    case True
    then have "window_mask cdiv start end_block (Some align) spec use_eagle retention boundaries = Inr None"
      using kind bs al
      by (auto simp: window_mask_def Let_def py_mod_def segment_def need_def split: option.splits)
    then show ?thesis using True by auto
  next
    case False
    define m where "m = mark start (seg @ tails) (replicate (nat (end_block - start)) False)"
    have per: "segment \<noteq> 0 \<Longrightarrow> 0 < ?per \<and> need < ?per"
      using False need by (auto simp: need_def)
    have "window_mask cdiv start end_block (Some align) spec use_eagle retention boundaries = Inr (Some m)"
      using kind bs al False segment_tails_eq [of ?per start end_block need shift] per
        boundary_tails_eq [OF al(1), of start end_block ?bs need shift boundaries]
      by (auto simp: window_mask_def Let_def py_mod_def segment_def need_def [symmetric]
          shift_def [symmetric] m_def seg_def tails_def split: option.splits if_splits)
    moreover have "m ! nat (j - start) \<longleftrightarrow>
        (segment \<noteq> 0 \<and> (\<exists>e > shift. (e - shift) mod ?per = 0 \<and> in_tail need j e))
        \<or> (retention \<noteq> None \<and> (\<exists>b \<in> set boundaries.
             in_tail need j (b div align * align div ?bs + shift)))"
      if j: "start \<le> j" "j < end_block" for j
    proof -
      have range: "start \<le> i" if "i \<in> set (seg @ tails)" for i
        using that by (auto simp: seg_def tails_def split: if_splits)
      have "m ! nat (j - start) \<longleftrightarrow> (\<exists>i \<in> set (seg @ tails). nat (i - start) = nat (j - start))"
        unfolding m_def using j by (subst mark_nth) auto
      also have "\<dots> \<longleftrightarrow> j \<in> set (seg @ tails)"
      proof
        assume "\<exists>i \<in> set (seg @ tails). nat (i - start) = nat (j - start)"
        then obtain i where i: "i \<in> set (seg @ tails)" "nat (i - start) = nat (j - start)" by blast
        then have "i = j" using range [OF i(1)] j(1) by (simp add: nat_eq_iff2)
        then show "j \<in> set (seg @ tails)" using i(1) by simp
      qed auto
      also have "j \<in> set (seg @ tails) \<longleftrightarrow> j \<in> set seg \<or> j \<in> set tails" by simp
      also have "j \<in> set seg \<longleftrightarrow>
          segment \<noteq> 0 \<and> j \<ge> shift \<and> (j - shift) mod ?per \<ge> ?per - need"
        using j by (auto simp: seg_def)
      also have "\<dots> \<longleftrightarrow> segment \<noteq> 0 \<and> (\<exists>e > shift. (e - shift) mod ?per = 0 \<and> in_tail need j e)"
        using in_segment_tail [of ?per need j shift] per j(1) start
        by (cases "segment = 0") (auto simp: shift_def)
      also have "j \<in> set tails \<longleftrightarrow> retention \<noteq> None \<and> (\<exists>b \<in> set boundaries.
             in_tail need j (b div align * align div ?bs + shift))"
        using j by (auto simp: tails_def in_tail_def)
      finally show ?thesis .
    qed
    ultimately show ?thesis using False by (auto simp: m_def)
  qed
qed

lemma in_py_range_step:
  assumes "0 < step"
  shows "i \<in> set (py_range_step a b step) \<longleftrightarrow> a \<le> i \<and> i < b \<and> (i - a) mod step = 0"
proof
  assume "i \<in> set (py_range_step a b step)"
  then obtain k where ks: "k \<in> set [0..<nat ((b - a + step - 1) div step)]" "i = a + int k * step"
    unfolding py_range_step_def set_map by (elim imageE) blast
  then have k: "i = a + int k * step" "int k < (b - a + step - 1) div step" by auto
  from k(2) have "int k + 1 \<le> (b - a + step - 1) div step" by simp
  then have "(int k + 1) * step \<le> (b - a + step - 1) div step * step"
    using assms by (intro mult_right_mono) auto
  also have "\<dots> \<le> b - a + step - 1"
    using assms by (metis div_mult_mod_eq le_add_same_cancel1 pos_mod_sign)
  finally have "(int k + 1) * step \<le> b - a + step - 1" .
  then show "a \<le> i \<and> i < b \<and> (i - a) mod step = 0"
    using k(1) assms by (auto simp: algebra_simps)
next
  assume i: "a \<le> i \<and> i < b \<and> (i - a) mod step = 0"
  define k where "k = nat ((i - a) div step)"
  have k: "i = a + int k * step"
    using i assms by (auto simp: k_def pos_imp_zdiv_nonneg_iff)
  have "(int k + 1) * step \<le> b - a + step - 1" using i k by (simp add: algebra_simps)
  then have "int k + 1 \<le> (b - a + step - 1) div step"
    using zdiv_mono1 [of "(int k + 1) * step" "b - a + step - 1" step] assms by simp
  then have "k \<in> set [0..<nat ((b - a + step - 1) div step)]" by auto
  then show "i \<in> set (py_range_step a b step)" using k by (auto simp: py_range_step_def)
qed

lemma boundary_states_eq:
  assumes "0 < align" and "0 < bs"
  shows "concat_res (boundary_state start end_block align bs) boundaries = Inr
    (concat (map (\<lambda>b. let n = b div align * align div bs in
        if start \<le> n - 1 \<and> n - 1 < end_block then [n - 1] else []) boundaries))"
  using assms by (intro concat_res_Inr) (simp add: boundary_state_def py_floordiv_def Let_def)

lemma mamba_mask_eq:
  assumes kind: "sp_kind spec = MambaSpec" and bs: "0 < sp_block_size spec"
    and al: "0 < align" and start: "0 \<le> start" and ret: "0 \<le> interval"
  defines "per \<equiv> interval div sp_block_size spec"
  shows "\<exists>r. mamba_mask start end_block (Some align) spec (Some interval) boundaries = Inr r
    \<and> (r = None \<longleftrightarrow> interval \<noteq> 0 \<and> per \<le> 1)
    \<and> (\<forall>m. r = Some m \<longrightarrow> length m = nat (end_block - start)
        \<and> (\<forall>j. start \<le> j \<longrightarrow> j < end_block \<longrightarrow>
             m ! nat (j - start) \<longleftrightarrow>
               (interval \<noteq> 0 \<and> (j + 1) mod per = 0)
               \<or> (\<exists>b \<in> set boundaries. j = b div align * align div sp_block_size spec - 1)))"
proof (cases "interval \<noteq> 0 \<and> per \<le> 1")
  case True
  then have "mamba_mask start end_block (Some align) spec (Some interval) boundaries = Inr None"
    using kind bs by (simp add: mamba_mask_def py_floordiv_def per_def)
  then show ?thesis using True by auto
next
  case False
  let ?bs = "sp_block_size spec"
  define states where "states = concat (map (\<lambda>b. let n = b div align * align div ?bs in
        if start \<le> n - 1 \<and> n - 1 < end_block then [n - 1] else []) boundaries)"
  define first where "first = (start + per) div per * per - 1"
  define seg where "seg = (if interval = 0 then []
    else py_range_step first (start + int (nat (end_block - start))) per)"
  define m where "m = mark start (seg @ states) (replicate (nat (end_block - start)) False)"
  have run: "mamba_mask start end_block (Some align) spec (Some interval) boundaries = Inr (Some m)"
    using kind bs al False boundary_states_eq [OF al bs, of start end_block boundaries]
    by (auto simp: mamba_mask_def Let_def py_floordiv_def per_def [symmetric] m_def seg_def
        first_def states_def)
  have first: "start \<le> first \<and> (\<forall>j \<ge> start. (first \<le> j \<and> (j - first) mod per = 0) = ((j + 1) mod per = 0))"
    if "interval \<noteq> 0"
  proof -
    have per: "1 < per" using that False by auto
    have f: "first + 1 = (start + per) div per * per" by (simp add: first_def)
    have a: "start + per = (start + per) div per * per + (start + per) mod per"
      by (metis div_mult_mod_eq)
    have b: "(start + per) mod per < per" "0 \<le> (start + per) mod per" using per by simp_all
    have "start \<le> first" using f a b by linarith
    moreover have "(first \<le> j \<and> (j - first) mod per = 0) = ((j + 1) mod per = 0)" if "start \<le> j" for j
    proof -
      have "j - first = (j + 1) + (- ((start + per) div per)) * per" using f by simp
      then have eq: "(j - first) mod per = (j + 1) mod per" by (metis mod_mult_self1)
      moreover have "first \<le> j" if m0: "(j + 1) mod per = 0"
      proof -
        define q t where "q = (start + per) div per" and "t = (j + 1) div per"
        have t: "t * per = j + 1"
          using m0 unfolding t_def by (metis add.right_neutral div_mult_mod_eq)
        have "(q - 1) * per \<le> start" unfolding q_def using a b unfolding left_diff_distrib by linarith
        then have "(q - 1) * per < t * per" using t \<open>start \<le> j\<close> by linarith
        then have "q - 1 < t" using per by (simp add: mult_less_cancel_right)
        then have "q * per \<le> t * per" using per by (intro mult_right_mono) auto
        then show ?thesis using f t unfolding q_def by linarith
      qed
      ultimately show ?thesis by auto
    qed
    ultimately show ?thesis by simp
  qed
  have "m ! nat (j - start) \<longleftrightarrow> (interval \<noteq> 0 \<and> (j + 1) mod per = 0)
      \<or> (\<exists>b \<in> set boundaries. j = b div align * align div ?bs - 1)"
    if j: "start \<le> j" "j < end_block" for j
  proof -
    have seg: "i \<in> set seg \<longleftrightarrow> interval \<noteq> 0 \<and> first \<le> i \<and> i < start + int (nat (end_block - start))
        \<and> (i - first) mod per = 0" for i
      using False by (cases "interval = 0") (simp_all add: seg_def in_py_range_step del: int_nat_eq)
    have range: "start \<le> i" if "i \<in> set (seg @ states)" for i
      using that first seg by (fastforce simp: states_def Let_def split: if_splits)
    have "m ! nat (j - start) \<longleftrightarrow> (\<exists>i \<in> set (seg @ states). nat (i - start) = nat (j - start))"
      unfolding m_def using j by (subst mark_nth) auto
    also have "\<dots> \<longleftrightarrow> j \<in> set (seg @ states)"
    proof
      assume "\<exists>i \<in> set (seg @ states). nat (i - start) = nat (j - start)"
      then obtain i where i: "i \<in> set (seg @ states)" "nat (i - start) = nat (j - start)" by blast
      then have "i = j" using range [OF i(1)] j(1) by (simp add: nat_eq_iff2)
      then show "j \<in> set (seg @ states)" using i(1) by simp
    qed auto
    also have "\<dots> \<longleftrightarrow> j \<in> set seg \<or> j \<in> set states" by simp
    also have "j \<in> set seg \<longleftrightarrow> interval \<noteq> 0 \<and> (j + 1) mod per = 0"
      using seg [of j] first j by (cases "interval = 0") (auto simp del: mod_eq_0_iff_dvd simp flip: mod_eq_0_iff_dvd)
    also have "j \<in> set states \<longleftrightarrow> (\<exists>b \<in> set boundaries. j = b div align * align div ?bs - 1)"
      using j by (auto simp: states_def Let_def split: if_splits)
    finally show ?thesis .
  qed
  then show ?thesis using run False by (auto simp: m_def)
qed

lemma mamba_fine_loop_eq:
  assumes inv: "cache_inv p" and gids: "groups_ok gids" and "n \<le> length hs"
  shows "\<exists>computed e. mamba_fine_loop p gids (RawHashes hs) align k n = Inr (computed, int e * align)
    \<and> e \<le> n \<and> (\<forall>e'. e < e' \<longrightarrow> e' \<le> n \<longrightarrow> \<not> hits p gids (hs ! (e' - 1)))
    \<and> (if e = 0 then computed = replicate (length gids) []
       else state_rows p gids (nat (int (e - 1) div k)) (hs ! (e - 1)) computed)"
  using assms(3)
proof (induction n)
  case 0
  then show ?case by (intro exI [of _ "replicate (length gids) []"] exI [of _ 0]) simp
next
  case (Suc i)
  have get: "bhl_get (RawHashes hs) (int i) = Inr (hs ! i)" using Suc.prems by (simp add: py_index_def)
  show ?case
  proof (cases rule: cached_hit_cases [OF inv gids, of "hs ! i"])
    case 1
    obtain computed e where IH: "mamba_fine_loop p gids (RawHashes hs) align k i = Inr (computed, int e * align)"
      "e \<le> i" "\<forall>e'. e < e' \<longrightarrow> e' \<le> i \<longrightarrow> \<not> hits p gids (hs ! (e' - 1))"
      "if e = 0 then computed = replicate (length gids) []
       else state_rows p gids (nat (int (e - 1) div k)) (hs ! (e - 1)) computed"
      using Suc by auto
    then show ?thesis
      using 1 get
      by (intro exI [of _ computed] exI [of _ e]) (auto simp: le_Suc_eq simp del: bhl_get.simps)
  next
    case (2 bs)
    then show ?thesis
      using get pad_hit_rows [OF 2(3), of "nat (int i div k)"]
      by (intro exI [of _ "pad_hit p (nat (int i div k)) (replicate (length gids) []) bs"]
          exI [of _ "Suc i"]) (simp add: add.commute del: bhl_get.simps)
  qed
qed

section \<open>Correctness of the lookups\<close>

text \<open>A pool that can occur, with group ids and the ceiling division as the code gets them.\<close>

lemma reachable_cache_inv: "pool_reachable env p \<Longrightarrow> env_ok env \<Longrightarrow> cache_inv p"
  using pool_reachable_inv by (auto simp: pool_inv_def)

text \<open>
  C10. Full attention: on any reachable pool the lookup never raises.  With the alignment at
  block size or above, it returns the longest cached run of whole blocks within the maximum
  length (less one block when EAGLE drops it), rounded down to the alignment, and for each
  group exactly one block per hash of that length, each carrying its hash.
\<close>

theorem full_attention_lookup_correct:
  fixes hs :: "block_hash list" and drop_eagle :: bool
  assumes "pool_reachable env p" and "env_ok env" and "groups_ok gids"
    and "is_full_attention (sp_kind spec)" and "cdiv_law cdiv" and "0 \<le> max_length"
    and "block_grain p (effective_block_size spec dcp) align"
  defines "bs \<equiv> effective_block_size spec dcp"
  defines "ghs \<equiv> group_hashes p bs hs"
  defines "run \<equiv> hit_run p gids (take (nat (max_length div bs)) ghs)"
  defines "raw \<equiv> (if drop_eagle \<and> run > 0 then run - 1 else run) * bs"
  shows "\<exists>computed. full_attention_hit cdiv p hs max_length gids spec drop_eagle align dcp
      = Inr (computed, raw - raw mod align)
    \<and> covers p gids (take (nat ((raw - raw mod align) div bs)) ghs) computed
    \<and> 0 \<le> raw - raw mod align \<and> raw - raw mod align \<le> run * bs"
  using full_attention_hit_block [OF reachable_cache_inv [OF assms(1,2)] assms(3-7)]
  unfolding bs_def ghs_def run_def raw_def by blast

text \<open>
  C11. Fine-grained full attention (the alignment is the hash block size, below the block
  size): the lookup never raises, and extends the run of whole blocks by the longest hash
  boundary inside the next block that is cached; the blocks returned carry the hashes of the
  whole blocks and, last, the hash of that boundary.
\<close>

theorem fine_grained_lookup_correct:
  fixes hs :: "block_hash list" and drop_eagle :: bool
  assumes "pool_reachable env p" and "env_ok env" and "groups_ok gids"
    and "is_full_attention (sp_kind spec)" and "0 \<le> max_length"
    and "fine_grain p (effective_block_size spec dcp) align"
  defines "bs \<equiv> effective_block_size spec dcp"
  defines "ghs \<equiv> group_hashes p bs hs"
  defines "run \<equiv> hit_run p gids (take (nat (max_length div bs)) ghs)"
  defines "tail \<equiv> interior_hit p gids hs bs align max_length run"
  defines "raw \<equiv> (case tail of None \<Rightarrow> run * bs | Some i \<Rightarrow> (int i + 1) * align)"
  defines "hit_length \<equiv> (if drop_eagle \<and> raw > 0 then raw - align else raw)"
  shows "\<exists>computed. full_attention_hit cdiv p hs max_length gids spec drop_eagle align dcp
      = Inr (computed, hit_length)
    \<and> covers p gids (take (nat (cdiv hit_length bs))
        (take (nat run) ghs @ (case tail of None \<Rightarrow> [] | Some i \<Rightarrow> [hs ! i]))) computed"
  using full_attention_hit_fine [OF reachable_cache_inv [OF assms(1,2)] assms(3-6)]
  unfolding bs_def ghs_def run_def raw_def tail_def hit_length_def by blast

text \<open>
  The tokens that the next query reads are the last \<open>W - 1\<close> of the hit; block \<open>j\<close> holds one of
  them.
\<close>

definition window_reads :: "int \<Rightarrow> int \<Rightarrow> nat \<Rightarrow> nat \<Rightarrow> bool" where
  "window_reads bs W n j \<longleftrightarrow> j < n \<and> int n * bs - (W - 1) < (int j + 1) * bs"

lemma cdiv_bounds:
  assumes "cdiv_law cdiv" and "0 < b"
  shows "a \<le> cdiv a b * b" "(cdiv a b - 1) * b < a"
proof -
  have c: "cdiv a b = - ((- a) div b)" using assms by (simp add: cdiv_law_def)
  have e: "- a = (- a) div b * b + (- a) mod b" by (metis div_mult_mod_eq)
  have m: "0 \<le> (- a) mod b" "(- a) mod b < b" using assms(2) by simp_all
  show "a \<le> cdiv a b * b" using e m unfolding c mult_minus_left by linarith
  show "(cdiv a b - 1) * b < a" using e m unfolding c left_diff_distrib mult_minus_left by linarith
qed

lemma le_div_int_iff:
  fixes a b n :: int
  assumes "0 < b"
  shows "n \<le> a div b \<longleftrightarrow> n * b \<le> a"
proof
  assume "n \<le> a div b"
  then have "n * b \<le> a div b * b" using assms by (intro mult_right_mono) auto
  also have "\<dots> \<le> a" using assms by (metis div_mult_mod_eq le_add_same_cancel1 pos_mod_sign)
  finally show "n * b \<le> a" .
next
  assume "n * b \<le> a"
  then show "n \<le> a div b" using zdiv_mono1 [of "n * b" a b] assms by simp
qed

text \<open>
  C12. Sliding window: on any reachable pool with hashes for every block within the maximum
  length, the lookup never raises; the hit is aligned and within the maximum length, and for
  each group every block that the next query reads carries its hash, the other blocks being
  null or carrying theirs.  Without EAGLE no longer aligned hit would do: each one reads a
  block that is not cached.  With EAGLE, which looks at one block past the hit and drops it,
  the same holds of the longer hits that contain the whole window, and of all of them when the
  alignment is the block size; a longer hit that starts with the request can be missed
  (\<open>eagle_rounds_down_twice\<close> below).
\<close>

theorem sliding_window_lookup_correct:
  fixes cdiv :: "int \<Rightarrow> int \<Rightarrow> int" and hs :: "block_hash list" and drop_eagle :: bool
  assumes reach: "pool_reachable env p" "env_ok env" and gids: "groups_ok gids"
    and kind: "is_sliding_window (sp_kind spec)" and cd: "cdiv_law cdiv"
    and world: "dcp = 1 \<and> pcp = 1 \<or> sp_dcp_replicated spec"
    and len: "0 \<le> max_length" and bg: "block_grain p (sp_block_size spec) align"
    and enough: "max_length div sp_block_size spec \<le> int (length (group_hashes p (sp_block_size spec) hs))"
    and W: "1 < sp_sliding_window spec"
  defines "bs \<equiv> sp_block_size spec" and "W \<equiv> sp_sliding_window spec"
  defines "ghs \<equiv> group_hashes p bs hs"
  shows "\<exists>computed n. sliding_window_hit cdiv p hs max_length gids spec drop_eagle align dcp pcp
      = Inr (computed, int n * bs)
    \<and> int n * bs \<le> max_length \<and> (int n * bs) mod align = 0
    \<and> list_all2 (\<lambda>g c. length c = n \<and> (\<forall>j < n. carries p (ghs ! j) g (c ! j)
          \<or> \<not> window_reads bs W n j \<and> c ! j = null_block p)) gids computed
    \<and> (\<not> drop_eagle \<longrightarrow> (\<forall>n' > n. int n' * bs \<le> max_length \<longrightarrow> (int n' * bs) mod align = 0 \<longrightarrow>
          (\<exists>j. window_reads bs W n' j \<and> \<not> hits p gids (ghs ! j))))
    \<and> (drop_eagle \<longrightarrow> (\<forall>n' > n. (int n' + 1) * bs \<le> max_length \<longrightarrow> (int n' * bs) mod align = 0 \<longrightarrow>
          bs = align \<or> W - 1 \<le> int n' * bs \<longrightarrow>
          (\<exists>j. (window_reads bs W n' j \<or> j = n') \<and> \<not> hits p gids (ghs ! j))))"
proof -
  define ne where "ne = contiguous_blocks_for_hit cdiv W bs drop_eagle"
  define need where "need = max 1 (nat ne)"
  define N where "N = nat (max_length div bs)"
  have bs: "0 < bs" and al: "0 < align" "align mod bs = 0"
    using bg by (simp_all add: block_grain_def bs_def)
  obtain computed e where hit:
    "sliding_window_hit cdiv p hs max_length gids spec drop_eagle align dcp pcp
      = Inr (computed, int (window_result bs align drop_eagle need e) * bs)"
    "e \<le> N" "e = 0 \<or> window_good p gids ghs bs align drop_eagle need e"
    "\<forall>e'. e < e' \<longrightarrow> e' \<le> N \<longrightarrow> \<not> window_good p gids ghs bs align drop_eagle need e'"
    "list_all2 (\<lambda>g c. length c = window_result bs align drop_eagle need e
        \<and> (\<forall>j < length c. if e - need \<le> j then carries p (ghs ! j) g (c ! j)
             else c ! j = null_block p)) gids computed"
    using window_hit_eq [OF reachable_cache_inv [OF reach] gids kind world len bg enough refl,
        of cdiv drop_eagle]
    unfolding bs_def ghs_def need_def ne_def W_def N_def by blast
  define n where "n = window_result bs align drop_eagle need e"
  have cb: "W - 1 \<le> cdiv (W - 1) bs * bs" "(cdiv (W - 1) bs - 1) * bs < W - 1"
    using cdiv_bounds [OF cd bs] by simp_all
  have cpos: "1 \<le> cdiv (W - 1) bs"
  proof (rule ccontr)
    assume "\<not> 1 \<le> cdiv (W - 1) bs"
    then have "cdiv (W - 1) bs * bs \<le> 0 * bs" using bs by (intro mult_right_mono) auto
    then show False using cb(1) W by (simp add: W_def)
  qed
  have need: "int need = cdiv (W - 1) bs + (if drop_eagle then 1 else 0)"
    using cpos by (simp add: need_def ne_def contiguous_blocks_for_hit_def)
  have n_le: "n \<le> e" unfolding n_def by (rule window_result_le)
  have fit: "int n' * bs \<le> max_length \<longleftrightarrow> n' \<le> N" for n'
    using bs len le_div_int_iff [OF bs, of "int n'" max_length]
    by (simp add: N_def le_nat_iff pos_imp_zdiv_nonneg_iff)
  have full: "n = (if drop_eagle then e - 1 else e)" "0 < e" if "need \<le> e"
  proof -
    show "0 < e" using that by (simp add: need_def)
    then have "bs \<noteq> align \<longrightarrow> (int (if drop_eagle then e - 1 else e) * bs) mod align = 0"
      using hit(3) by (auto simp: window_good_def)
    then show "n = (if drop_eagle then e - 1 else e)"
      using that \<open>0 < e\<close> floor_aligned_id [of bs align "e - 1"]
      by (simp add: n_def window_result_def split: if_splits)
  qed
  have aligned: "(int n * bs) mod align = 0"
  proof (cases "need \<le> e \<and> \<not> drop_eagle")
    case True
    then show ?thesis
      using full hit(3) by (cases "bs = align") (auto simp: window_good_def)
  next
    case False
    then show ?thesis
      using floor_aligned_mod by (auto simp: n_def window_result_def Let_def)
  qed
  have reads: "e - need \<le> j" if r: "window_reads bs W n j" for j
  proof (cases "need \<le> e")
    case True
    define d where "d = (if drop_eagle then 1 else 0 :: nat)"
    have nd: "int n = int e - int d" "int need - int d = cdiv (W - 1) bs"
      using full [OF True] need by (auto simp: d_def)
    have "int n * bs - (int need - int d) * bs < (int j + 1) * bs"
      using r cb(1) unfolding nd(2) window_reads_def by linarith
    then have "(int n - (int need - int d)) * bs < (int j + 1) * bs"
      by (simp add: left_diff_distrib)
    then have "int n - (int need - int d) < int j + 1"
      using bs by (simp only: mult_less_cancel_right)
    then show ?thesis using nd(1) by linarith
  qed simp
  have longest: "\<exists>j. window_reads bs W n' j \<and> \<not> hits p gids (ghs ! j)"
    if "\<not> drop_eagle" "n < n'" "int n' * bs \<le> max_length" "(int n' * bs) mod align = 0" for n'
  proof -
    have "n = e"
    proof (cases "need \<le> e")
      case False
      then have "e = 0 \<or> (bs \<noteq> align \<longrightarrow> (int e * bs) mod align = 0)"
        using hit(3) \<open>\<not> drop_eagle\<close> by (auto simp: window_good_def)
      then have "floor_aligned bs align e = e" using floor_aligned_id by (auto simp del: mod_eq_0_iff_dvd)
      then show ?thesis using False \<open>\<not> drop_eagle\<close> by (simp add: n_def window_result_def)
    qed (use full \<open>\<not> drop_eagle\<close> in auto)
    then have "\<not> window_good p gids ghs bs align drop_eagle need n'"
      using hit(4) that fit [of n'] by simp
    moreover have "0 < n'" using that(2) by simp
    ultimately obtain j where j: "n' - need \<le> j" "j < n'" "\<not> hits p gids (ghs ! j)"
      using \<open>\<not> drop_eagle\<close> \<open>(int n' * bs) mod align = 0\<close>
      by (auto simp: window_good_def simp del: mod_eq_0_iff_dvd)
    have "int n' - int need \<le> int j" using j(1) by linarith
    then have "(int n' - (cdiv (W - 1) bs - 1)) * bs \<le> (int j + 1) * bs"
      using bs need \<open>\<not> drop_eagle\<close> by (intro mult_right_mono) auto
    then have "window_reads bs W n' j"
      using cb(2) j(2) unfolding window_reads_def left_diff_distrib [of "int n'"] by linarith
    then show ?thesis using j(3) by blast
  qed
  have longest_eagle: "\<exists>j. (window_reads bs W n' j \<or> j = n') \<and> \<not> hits p gids (ghs ! j)"
    if longer: "drop_eagle" "n < n'" "(int n' + 1) * bs \<le> max_length" "(int n' * bs) mod align = 0"
      and whole: "bs = align \<or> W - 1 \<le> int n' * bs" for n'
  proof -
    have "e < Suc n'"
    proof (cases "need \<le> e")
      case True
      then show ?thesis using full longer(1,2) by simp
    next
      case False
      show ?thesis
      proof (cases "bs = align")
        case True
        then have "n = e - 1" using False longer(1) by (simp add: n_def window_result_def floor_aligned_id Let_def)
        then show ?thesis using longer(2) by simp
      next
        case bs_less: False
        then have "(cdiv (W - 1) bs - 1) * bs < int n' * bs" using whole cb(2) by simp
        then have "cdiv (W - 1) bs - 1 < int n'" using bs by (simp only: mult_less_cancel_right)
        then have "int need \<le> int n' + 1" using need longer(1) by simp
        then show ?thesis using False by linarith
      qed
    qed
    moreover have "Suc n' \<le> N" using longer(3) fit [of "Suc n'"] by (simp add: add.commute)
    ultimately have "\<not> window_good p gids ghs bs align drop_eagle need (Suc n')" using hit(4) by simp
    then obtain j where j: "Suc n' - need \<le> j" "j < Suc n'" "\<not> hits p gids (ghs ! j)"
      using longer(1,4) by (auto simp: window_good_def simp del: mod_eq_0_iff_dvd)
    have "window_reads bs W n' j" if "j \<noteq> n'"
    proof -
      have "int n' + 1 - int need \<le> int j" using j(1) by linarith
      then have "(int n' - (cdiv (W - 1) bs - 1)) * bs \<le> (int j + 1) * bs"
        using bs need \<open>drop_eagle\<close> by (intro mult_right_mono) auto
      then show ?thesis
        using cb(2) j(2) that unfolding window_reads_def left_diff_distrib [of "int n'"] by linarith
    qed
    then show ?thesis using j(3) by blast
  qed
  have rows: "list_all2 (\<lambda>g c. length c = n \<and> (\<forall>j < n. carries p (ghs ! j) g (c ! j)
          \<or> \<not> window_reads bs W n j \<and> c ! j = null_block p)) gids computed"
    using hit(5) unfolding n_def [symmetric]
  proof (rule list_all2_mono)
    fix g c
    assume c: "length c = n \<and> (\<forall>j < length c. if e - need \<le> j then carries p (ghs ! j) g (c ! j)
             else c ! j = null_block p)"
    have "carries p (ghs ! j) g (c ! j) \<or> \<not> window_reads bs W n j \<and> c ! j = null_block p"
      if "j < n" for j
      using c that reads [of j] by (cases "e - need \<le> j") auto
    then show "length c = n \<and> (\<forall>j < n. carries p (ghs ! j) g (c ! j)
          \<or> \<not> window_reads bs W n j \<and> c ! j = null_block p)"
      using c by blast
  qed
  have "int n * bs \<le> max_length" using fit [of n] n_le hit(2) by simp
  then show ?thesis
    using hit(1) aligned rows unfolding n_def [symmetric]
    by - (rule exI [of _ computed], rule exI [of _ n], intro conjI allI impI;
      (assumption | rule longest; assumption | rule longest_eagle; assumption))
qed

section \<open>Concrete lookups\<close>

text \<open>One full-attention group of block size 2, and a sliding window of 3 tokens.\<close>

definition sample_spec :: "spec_kind \<Rightarrow> kv_spec" where
  "sample_spec k = \<lparr>sp_kind = k, sp_block_size = 2, sp_dcp_replicated = False,
     sp_sliding_window = 3, sp_extra_retained_tokens = 0, sp_attention_chunk_size = 4,
     sp_rswa_window = 3, sp_mamba_cache_mode = ''all'', sp_num_speculative_blocks = 0,
     sp_num_prefill_checkpoint_blocks = 0, sp_precision = 0, sp_layout = []\<rparr>"

definition sample_cdiv :: "int \<Rightarrow> int \<Rightarrow> int" where
  "sample_cdiv a b = - ((- a) div b)"

lemma sample_cdiv_law: "cdiv_law sample_cdiv"
  by (simp add: cdiv_law_def sample_cdiv_def)

lemma sample_groups_ok: "groups_ok [0]"
  by (simp add: groups_ok_def)

lemma sample_hash_block_size: "hash_block_size sample_cached_pool = 2"
  by code_simp

lemma sample_group_hashes: "group_hashes sample_cached_pool 2 hs = hs"
  by (simp add: group_hashes_def sample_hash_block_size)

lemma sample_hits: "hits sample_cached_pool [0] [7]" "hits sample_cached_pool [0] [8]"
proof -
  have h: "blk_hash (blk sample_cached_pool 1) = Some ([7, 0, 0, 0, 0])"
    "blk_hash (blk sample_cached_pool 2) = Some ([8, 0, 0, 0, 0])"
    by code_simp+
  have "carries sample_cached_pool [7] 0 1" "carries sample_cached_pool [8] 0 2"
    using h by (simp_all add: carries_def hashes_of_def make_block_hash_with_group_id_def to_bytes4_def
        res_simps)
  then show "hits sample_cached_pool [0] [7]" "hits sample_cached_pool [0] [8]"
    by (auto simp: hits_def)
qed

theorem full_attention_lookup_correct_witness:
  "\<exists>computed. full_attention_hit sample_cdiv sample_cached_pool [[7], [8]] 4 [0]
      (sample_spec FullAttentionSpec) False 2 1 = Inr (computed, 4)
    \<and> covers sample_cached_pool [0] [[7], [8]] computed"
  using full_attention_lookup_correct [OF sample_cached_pool_reachable sample_env_ok sample_groups_ok _
      sample_cdiv_law, of "sample_spec FullAttentionSpec" 4 1 2 "[[7], [8]]" False]
  by (simp add: sample_spec_def effective_block_size_def block_grain_def sample_hash_block_size
      sample_group_hashes hit_run_def sample_hits)

theorem fine_grained_lookup_correct_witness:
  "\<exists>computed. full_attention_hit sample_cdiv sample_cached_pool [[7], [8]] 3 [0]
      (sample_spec FullAttentionSpec\<lparr>sp_block_size := 4\<rparr>) False 2 1 = Inr (computed, 2)
    \<and> covers sample_cached_pool [0] [[7]] computed"
  using fine_grained_lookup_correct [OF sample_cached_pool_reachable sample_env_ok sample_groups_ok,
      of "sample_spec FullAttentionSpec\<lparr>sp_block_size := 4\<rparr>" 3 1 2 sample_cdiv "[[7], [8]]" False]
  by (simp add: sample_spec_def effective_block_size_def fine_grain_def sample_hash_block_size
      hit_run_def interior_hit_def sample_hits sample_cdiv_def)

theorem sliding_window_lookup_correct_witness:
  "\<exists>computed n. sliding_window_hit sample_cdiv sample_cached_pool [[7], [8]] 4 [0]
      (sample_spec SlidingWindowSpec) False 2 1 1 = Inr (computed, int n * 2) \<and> n = 2"
proof -
  obtain computed n where r: "sliding_window_hit sample_cdiv sample_cached_pool [[7], [8]] 4 [0]
      (sample_spec SlidingWindowSpec) False 2 1 1 = Inr (computed, int n * 2)" "int n * 2 \<le> 4"
    "\<forall>n' > n. int n' * 2 \<le> 4 \<longrightarrow> (int n' * 2) mod 2 = 0 \<longrightarrow>
          (\<exists>j. window_reads 2 3 n' j \<and> \<not> hits sample_cached_pool [0] ([[7], [8]] ! j))"
    using sliding_window_lookup_correct [OF sample_cached_pool_reachable sample_env_ok
        sample_groups_ok _ sample_cdiv_law, of "sample_spec SlidingWindowSpec" 1 1 4 2 "[[7], [8]]" False]
    by (simp add: sample_spec_def block_grain_def sample_hash_block_size sample_group_hashes
        del: mod_mult_self2_is_0) blast
  have "window_reads 2 3 2 j \<Longrightarrow> hits sample_cached_pool [0] ([[7], [8]] ! j)" for j
    by (auto simp: window_reads_def less_2_cases_iff sample_hits)
  then have "\<not> n < 2" using r(3) by (auto simp del: mod_mult_self2_is_0)
  then have "n = 2" using r(2) by simp
  then show ?thesis using r(1) by blast
qed

lemma mamba_hit_coarse:
  fixes hs :: "block_hash list"
  assumes inv: "cache_inv p" and gids: "groups_ok gids" and kind: "sp_kind spec = MambaSpec"
    and len: "0 \<le> max_length" and bg: "block_grain p (sp_block_size spec) align"
    and enough: "max_length div sp_block_size spec \<le> int (length (group_hashes p (sp_block_size spec) hs))"
  defines "bs \<equiv> sp_block_size spec"
  defines "ghs \<equiv> group_hashes p bs hs" and "N \<equiv> nat (max_length div bs)"
  shows "\<exists>computed e. mamba_hit p hs max_length gids spec align 1 1 = Inr (computed, int e * bs)
    \<and> e \<le> N \<and> (\<forall>e'. e < e' \<longrightarrow> e' \<le> N \<longrightarrow> \<not> state_good p gids ghs bs align e')
    \<and> (if e = 0 then computed = replicate (length gids) []
       else state_good p gids ghs bs align e \<and> state_rows p gids (e - 1) (ghs ! (e - 1)) computed)"
proof -
  have bs: "0 < bs" "0 < align" "bs \<le> align"
    using bg block_grain_align [OF bg] by (simp_all add: block_grain_def bs_def)
  obtain hl where hl: "resolve_block_hashes (RawHashes hs) (hash_block_size p) bs True (Some align)
      = Inr hl"
    "\<forall>i < length ghs. bhl_get hl (int i) = Inr (ghs ! i)"
    using resolve_block_grain [OF bg, of hs True] unfolding bs_def ghs_def by blast
  have "N \<le> length ghs" using enough by (simp add: N_def ghs_def bs_def)
  then obtain computed e where loop: "mamba_loop p gids hl bs align N = Inr (computed, int e * bs)"
    "e \<le> N \<and> (\<forall>e'. e < e' \<longrightarrow> e' \<le> N \<longrightarrow> \<not> state_good p gids ghs bs align e')"
    "if e = 0 then computed = replicate (length gids) []
       else state_good p gids ghs bs align e \<and> state_rows p gids (e - 1) (ghs ! (e - 1)) computed"
    using mamba_loop_eq [OF inv gids bs(2), of N hl ghs bs] hl(2) by auto
  have "mamba_hit p hs max_length gids spec align 1 1 = Inr (computed, int e * bs)"
    using kind bs hl(1) loop(1) by (simp add: mamba_hit_def bs_def py_floordiv_def N_def Let_def)
  then show ?thesis using loop(2,3) by blast
qed

lemma mamba_hit_fine:
  fixes hs :: "block_hash list"
  assumes inv: "cache_inv p" and gids: "groups_ok gids" and kind: "sp_kind spec = MambaSpec"
    and len: "0 \<le> max_length" and fg: "fine_grain p (sp_block_size spec) align"
  defines "bs \<equiv> sp_block_size spec"
  defines "n \<equiv> min (nat (max_length div align)) (length hs)"
  shows "\<exists>computed e. mamba_hit p hs max_length gids spec align 1 1 = Inr (computed, int e * align)
    \<and> e \<le> n \<and> (\<forall>e'. e < e' \<longrightarrow> e' \<le> n \<longrightarrow> \<not> hits p gids (hs ! (e' - 1)))
    \<and> (if e = 0 then computed = replicate (length gids) []
       else state_rows p gids (nat (int (e - 1) div (bs div align))) (hs ! (e - 1)) computed)"
proof -
  have al: "0 < align" "align = hash_block_size p" "align < bs" "bs mod align = 0"
    using fg unfolding fine_grain_def bs_def by blast+
  have res: "resolve_block_hashes (RawHashes hs) (hash_block_size p) bs True (Some align)
      = Inr (RawHashes hs)"
    using al by (simp add: resolve_block_hashes_def keeps_fine_hashes_def)
  have n: "nat (min (max_length div align) (int (length hs))) = n"
    using len al by (auto simp: n_def min_def nat_le_iff pos_imp_zdiv_nonneg_iff)
  have "mamba_hit p hs max_length gids spec align 1 1
      = mamba_fine_loop p gids (RawHashes hs) align (bs div align) n"
    using kind al(1,3,4) res by (simp add: mamba_hit_def bs_def [symmetric] Let_def n py_mod_def)
  then show ?thesis
    using mamba_fine_loop_eq [OF inv gids, of n hs align "bs div align"] by (simp add: n_def)
qed

lemma state_rows_hits: "state_rows p gids n h computed \<Longrightarrow> hits p gids h"
  by (fastforce simp: state_rows_def hits_def list_all2_conv_all_nth in_set_conv_nth)

text \<open>
  C13. Mamba: the lookup never raises and returns the last aligned boundary within the maximum
  length whose state is cached (no later one is): one block with that state for each group,
  after null blocks only; or nothing.  With fine-grained alignment the boundaries are those of
  the hash blocks and the null blocks those of the whole blocks before.
\<close>

theorem mamba_lookup_correct:
  fixes hs :: "block_hash list"
  assumes reach: "pool_reachable env p" "env_ok env" and gids: "groups_ok gids"
    and kind: "sp_kind spec = MambaSpec" and len: "0 \<le> max_length"
    and grain: "block_grain p (sp_block_size spec) align
        \<and> max_length div sp_block_size spec \<le> int (length (group_hashes p (sp_block_size spec) hs))
      \<or> fine_grain p (sp_block_size spec) align"
  defines "bs \<equiv> sp_block_size spec"
  defines "unit \<equiv> (if align < bs then align else bs)"
    and "keys \<equiv> (if align < bs then hs else group_hashes p bs hs)"
  defines "usable \<equiv> \<lambda>e. (int e * unit) mod align = 0 \<and> hits p gids (keys ! (e - 1))"
  shows "\<exists>computed e. mamba_hit p hs max_length gids spec align 1 1 = Inr (computed, int e * unit)
    \<and> int e * unit \<le> max_length
    \<and> (\<forall>e' > e. int e' * unit \<le> max_length \<longrightarrow> e' \<le> length keys \<longrightarrow> \<not> usable e')
    \<and> (if e = 0 then computed = replicate (length gids) []
       else usable e \<and> state_rows p gids (nat (int (e - 1) * unit div bs)) (keys ! (e - 1)) computed)"
proof -
  have fit: "int e * u \<le> max_length \<longleftrightarrow> e \<le> nat (max_length div u)" if "0 < u" for e u
    using that len le_div_int_iff [OF that, of "int e" max_length]
    by (simp add: le_nat_iff pos_imp_zdiv_nonneg_iff)
  from grain show ?thesis
  proof
    assume bg: "block_grain p (sp_block_size spec) align
        \<and> max_length div sp_block_size spec \<le> int (length (group_hashes p (sp_block_size spec) hs))"
    then have u: "0 < bs" "unit = bs" "keys = group_hashes p bs hs"
      using block_grain_align [of p "sp_block_size spec" align]
      by (auto simp: block_grain_def unit_def keys_def bs_def)
    have pad: "k = nat (int k * bs div bs)" for k using u(1) by simp
    have usable: "state_good p gids keys bs align e \<longleftrightarrow> 0 < e \<and> usable e" for e
      by (auto simp: state_good_def usable_def u(2))
    from mamba_hit_coarse [OF reachable_cache_inv [OF reach] gids kind len, of align hs] bg
    obtain computed e where "mamba_hit p hs max_length gids spec align 1 1 = Inr (computed, int e * bs)"
      "e \<le> nat (max_length div bs)"
      "\<forall>e'. e < e' \<longrightarrow> e' \<le> nat (max_length div bs) \<longrightarrow> \<not> (0 < e' \<and> usable e')"
      "if e = 0 then computed = replicate (length gids) []
       else (0 < e \<and> usable e) \<and> state_rows p gids (e - 1) (keys ! (e - 1)) computed"
      unfolding bs_def [symmetric] u(3) [symmetric] usable by blast
    then show ?thesis
      using fit [OF u(1)] unfolding u(2) pad [symmetric]
      by (intro exI [of _ computed], intro exI [of _ e]) auto
  next
    assume fg: "fine_grain p (sp_block_size spec) align"
    then have u: "0 < align" "unit = align" "keys = hs" "bs mod align = 0" "align < bs"
      unfolding fine_grain_def unit_def keys_def bs_def by auto
    have usable: "usable e \<longleftrightarrow> hits p gids (hs ! (e - 1))" for e
      by (simp add: usable_def u(2,3))
    have pad: "int k div (bs div align) = int k * align div bs" for k
    proof -
      have "bs div align * align = bs" using u(4) by auto
      then show ?thesis using u(1) by (metis div_mult_mult2 less_irrefl)
    qed
    from mamba_hit_fine [OF reachable_cache_inv [OF reach] gids kind len fg, of hs]
    obtain computed e where "mamba_hit p hs max_length gids spec align 1 1 = Inr (computed, int e * align)"
      "e \<le> min (nat (max_length div align)) (length hs)"
      "\<forall>e'. e < e' \<longrightarrow> e' \<le> min (nat (max_length div align)) (length hs) \<longrightarrow> \<not> usable e'"
      "if e = 0 then computed = replicate (length gids) []
       else state_rows p gids (nat (int (e - 1) * align div bs)) (hs ! (e - 1)) computed"
      unfolding bs_def [symmetric] usable pad by blast
    then show ?thesis
      using fit [OF u(1)] usable state_rows_hits unfolding u(2,3)
      by (intro exI [of _ computed], intro exI [of _ e]) (auto simp del: of_nat_diff)
  qed
qed

theorem mamba_lookup_correct_witness:
  "\<exists>computed. mamba_hit sample_cached_pool [[7], [8]] 4 [0] (sample_spec MambaSpec) 2 1 1
      = Inr (computed, 4)"
proof -
  have "hits sample_cached_pool [0] ([[7], [8]] ! Suc 0)" using sample_hits by simp
  then obtain computed e where r: "mamba_hit sample_cached_pool [[7], [8]] 4 [0] (sample_spec MambaSpec) 2 1 1
      = Inr (computed, int e * 2)" "int e * 2 \<le> 4"
    "\<forall>e' > e. int e' * 2 \<le> 4 \<longrightarrow> e' \<le> 2 \<longrightarrow>
       \<not> hits sample_cached_pool [0] ([[7], [8]] ! (e' - 1))"
    using mamba_lookup_correct [OF sample_cached_pool_reachable sample_env_ok sample_groups_ok,
        of "sample_spec MambaSpec" 4 2 "[[7], [8]]"]
    by (simp add: sample_spec_def block_grain_def sample_hash_block_size sample_group_hashes) blast
  from r(3) have "\<not> e < 2" using sample_hits(2) by (auto dest: spec [of _ 2])
  then have "e = 2" using r(2) by simp
  then show ?thesis using r(1) by auto
qed

text \<open>
  C14. The sliding-window mask of the blocks worth caching: it is absent (every block is kept)
  exactly when the blocks that a hit reads fill each segment; otherwise it marks, among the
  new blocks, exactly those that a hit reads which ends at a segment boundary or at one of the
  boundaries given (rounded down to the alignment), one block further when EAGLE drops one.
\<close>

theorem window_mask_correct:
  fixes cdiv :: "int \<Rightarrow> int \<Rightarrow> int" and use_eagle :: bool
  assumes "is_sliding_window (sp_kind spec)" and "0 < sp_block_size spec"
    and "0 < align" "align mod sp_block_size spec = 0" and "0 \<le> start"
    and "0 \<le> contiguous_blocks_for_hit cdiv (sp_sliding_window spec) (sp_block_size spec) use_eagle"
    and "case retention of None \<Rightarrow> True | Some t \<Rightarrow> 0 \<le> t"
  defines "bs \<equiv> sp_block_size spec"
  defines "need \<equiv> contiguous_blocks_for_hit cdiv (sp_sliding_window spec) bs use_eagle"
    and "shift \<equiv> (if use_eagle then 1 else 0 :: int)"
    and "segment \<equiv> (case retention of None \<Rightarrow> align | Some t \<Rightarrow> t)"
  shows "\<exists>r. window_mask cdiv start end_block (Some align) spec use_eagle retention boundaries = Inr r
    \<and> (r = None \<longleftrightarrow> segment \<noteq> 0 \<and> need \<ge> segment div bs)
    \<and> (\<forall>m. r = Some m \<longrightarrow> length m = nat (end_block - start)
        \<and> (\<forall>j. start \<le> j \<longrightarrow> j < end_block \<longrightarrow>
             m ! nat (j - start) \<longleftrightarrow>
               (segment \<noteq> 0 \<and> (\<exists>e > shift. (e - shift) mod (segment div bs) = 0 \<and> in_tail need j e))
               \<or> (retention \<noteq> None \<and> (\<exists>b \<in> set boundaries.
                    in_tail need j (b div align * align div bs + shift)))))"
  unfolding bs_def need_def shift_def segment_def by (rule window_mask_eq [OF assms(1-7)])

theorem window_mask_correct_witness:
  "\<exists>m. window_mask sample_cdiv 0 4 (Some 8) (sample_spec SlidingWindowSpec) False None [] = Inr (Some m)
    \<and> length m = 4"
proof -
  obtain r where r: "window_mask sample_cdiv 0 4 (Some 8) (sample_spec SlidingWindowSpec) False None [] = Inr r"
    "r \<noteq> None" "\<forall>m. r = Some m \<longrightarrow> length m = 4"
    using window_mask_correct [of "sample_spec SlidingWindowSpec" 8 0 sample_cdiv False None 4 "[]"]
    by (simp add: sample_spec_def contiguous_blocks_for_hit_def sample_cdiv_def) blast
  then show ?thesis by auto
qed

section \<open>A hit lost to the order of the pops\<close>

definition three_cached_pool :: block_pool where
  "three_cached_pool =
     (case bind_res (pool_init 5 True 1 False) (cache_full_blocks sample_env
             (two_block_request\<lparr>block_hashes := [[7], [8], [9]]\<rparr>) [1, 2, 3] 0 3 1 0 None)
      of Inr (r', p') \<Rightarrow> p')"

text \<open>
  EAGLE with a run that reaches the start of the request: three blocks are cached, so the
  two tokens before the dropped block are reusable and aligned; the code rounds the run down to
  the alignment before it drops the block, rounds down again and returns no hit.  When the run
  does not reach the start it returns the two blocks.
\<close>

theorem eagle_rounds_down_twice:
  "sliding_window_hit sample_cdiv three_cached_pool [[7], [8], [9]] 3 [0]
      (sample_spec SlidingWindowSpec\<lparr>sp_block_size := 1, sp_sliding_window := 10\<rparr>) True 2 1 1
      = Inr ([[]], 0)
   \<and> sliding_window_hit sample_cdiv three_cached_pool [[7], [8], [9]] 3 [0]
      (sample_spec SlidingWindowSpec\<lparr>sp_block_size := 1, sp_sliding_window := 3\<rparr>) True 2 1 1
      = Inr ([[1, 2]], 2)"
  by code_simp

end
