(* ===== verification/SingleType.thy ===== *)
theory SingleType
  imports CacheHit
begin

text \<open>
  The KV cache managers of \<open>single_type_kv_cache_manager.py\<close>: one manager per KV cache group
  keeps the block table of each request and asks the block pool for blocks.

  All managers share one pool, so every operation takes the manager and the pool and returns
  both.  One record holds the attributes of every manager class; \<open>manager_class\<close> selects the
  overriding methods.  A block size is positive (the theorems assume it), so \<open>//\<close> and \<open>%\<close> by
  it are \<open>div\<close> and \<open>mod\<close>.  \<open>cdiv\<close> is a parameter, as in the lookups.
\<close>

section \<open>Managers\<close>

datatype manager_class =
    FullAttentionManager | RSWAManager | KpoolTailManager | SlidingWindowManager
  | ChunkedLocalAttentionManager | MambaManager | CrossAttentionManager
  | SinkFullAttentionManager

text \<open>The built-in registrations, with the walk up the base classes for the rest.\<close>

fun registered_manager :: "spec_kind \<Rightarrow> manager_class option" where
  "registered_manager FullAttentionSpec = Some FullAttentionManager"
| "registered_manager SlidingWindowSpec = Some SlidingWindowManager"
| "registered_manager SlidingWindowMLASpec = Some SlidingWindowManager"
| "registered_manager MambaSpec = Some MambaManager"
| "registered_manager ChunkedLocalAttentionSpec = Some ChunkedLocalAttentionManager"
| "registered_manager CrossAttentionSpec = Some CrossAttentionManager"
| "registered_manager MLAAttentionSpec = Some FullAttentionManager"
| "registered_manager RSWASpec = Some RSWAManager"
| "registered_manager HiddenStateCacheSpec = Some FullAttentionManager"
| "registered_manager SinkFullAttentionSpec = Some SinkFullAttentionManager"
| "registered_manager KpoolTailSpec = Some KpoolTailManager"
| "registered_manager TQFullAttentionSpec = Some FullAttentionManager"
| "registered_manager EncoderOnlyAttentionSpec = None"
| "registered_manager UniformTypeKVCacheSpecs = None"

definition is_attention_spec :: "spec_kind \<Rightarrow> bool" where
  "is_attention_spec k \<longleftrightarrow> k \<noteq> MambaSpec \<and> k \<noteq> UniformTypeKVCacheSpecs"

record manager =
  manager_cls :: manager_class
  kv_cache_spec :: kv_spec
  block_size :: int
  scheduler_block_size :: int
  mgr_enable_caching :: bool
  max_admission_blocks :: "int option"
  record_new_block_ids :: bool
  new_block_ids :: "nat list"
  req_to_blocks :: "(string, nat list) pydict"
  num_cached_block :: "(string, int) pydict"
  kv_cache_group_id :: int
  use_eagle :: bool
  partial_hit_reqs :: "(string, int \<times> nat) pydict"
  pending_cow_copies :: "(nat \<times> nat) list"
  pending_partial_tail_offloads :: "(string \<times> int \<times> nat \<times> int) list"
  cached_blocks_this_step :: "block_hash_gid set"
  align_cap_legacy :: bool
  last_state_block_idx :: "(string, int) pydict"
  allocated_block_reqs :: "string set"
  num_checkpoint_blocks :: "(string, int) pydict"
  producer_partial_tail_reqs :: "(string, int) pydict"

text \<open>
  \<open>get_manager_for_kv_cache_spec\<close> as the coordinator calls it; \<open>legacy\<close> is the environment
  variable that the mamba manager reads.  The constructor of the sink manager does not accept
  the keyword \<open>needs_kv_cache_zeroing\<close> that the coordinator passes.
\<close>

definition new_manager ::
  "(int \<Rightarrow> int \<Rightarrow> int) \<Rightarrow> kv_spec \<Rightarrow> int \<Rightarrow> int \<Rightarrow> bool \<Rightarrow> int \<Rightarrow> int \<Rightarrow> int \<Rightarrow> bool \<Rightarrow> bool
     \<Rightarrow> manager res" where
  "new_manager cdiv spec max_in_flight_tokens max_model_len caching gid scheduler_bs dcp zeroing legacy =
     (case registered_manager (sp_kind spec) of
        None \<Rightarrow> Inl AssertionError
      | Some SinkFullAttentionManager \<Rightarrow> Inl TypeError
      | Some c \<Rightarrow> Inr
          \<lparr>manager_cls = c, kv_cache_spec = spec,
           block_size = (if c = MambaManager then sp_block_size spec
                         else effective_block_size spec dcp),
           scheduler_block_size = scheduler_bs, mgr_enable_caching = caching,
           max_admission_blocks =
             max_admission_blocks_per_request cdiv spec max_in_flight_tokens max_model_len,
           record_new_block_ids = (zeroing \<and> is_attention_spec (sp_kind spec)),
           new_block_ids = [], req_to_blocks = [], num_cached_block = [],
           kv_cache_group_id = gid, use_eagle = False, partial_hit_reqs = [],
           pending_cow_copies = [], pending_partial_tail_offloads = [],
           cached_blocks_this_step = {}, align_cap_legacy = legacy,
           last_state_block_idx = [], allocated_block_reqs = {}, num_checkpoint_blocks = [],
           producer_partial_tail_reqs = []\<rparr>)"

section \<open>Block tables\<close>

text \<open>\<open>req_to_blocks.get(request_id, ())\<close>, and \<open>req_to_blocks[request_id]\<close> on the defaultdict.\<close>

definition blocks_of :: "manager \<Rightarrow> string \<Rightarrow> nat list" where
  "blocks_of m r = dict_get (req_to_blocks m) r []"

definition set_blocks :: "string \<Rightarrow> nat list \<Rightarrow> manager \<Rightarrow> manager" where
  "set_blocks r bs m = m\<lparr>req_to_blocks := AList.update r bs (req_to_blocks m)\<rparr>"

definition open_table :: "string \<Rightarrow> manager \<Rightarrow> manager" where
  "open_table r m = set_blocks r (blocks_of m r) m"

text \<open>\<open>xs[i] = x\<close>, with Python's negative indices\<close>

definition py_set :: "'a list \<Rightarrow> int \<Rightarrow> 'a \<Rightarrow> 'a list res" where
  "py_set xs i x =
     (let k = (if i < 0 then i + int (length xs) else i)
      in if k < 0 \<or> int (length xs) \<le> k then Inl IndexError else Inr (xs[nat k := x]))"

text \<open>Recording of block ids for the worker\<close>

definition record_ids :: "nat list \<Rightarrow> manager \<Rightarrow> manager" where
  "record_ids bs m =
     (if record_new_block_ids m then m\<lparr>new_block_ids := new_block_ids m @ bs\<rparr> else m)"

definition take_new_block_ids :: "manager \<Rightarrow> nat list \<times> manager" where
  "take_new_block_ids m = (new_block_ids m, m\<lparr>new_block_ids := []\<rparr>)"

definition take_pending_cow_copies :: "manager \<Rightarrow> (nat \<times> nat) list \<times> manager" where
  "take_pending_cow_copies m = (pending_cow_copies m, m\<lparr>pending_cow_copies := []\<rparr>)"

definition take_pending_partial_tail_offloads ::
  "manager \<Rightarrow> (string \<times> int \<times> nat \<times> int) list \<times> manager" where
  "take_pending_partial_tail_offloads m =
     (pending_partial_tail_offloads m, m\<lparr>pending_partial_tail_offloads := []\<rparr>)"

definition get_num_skipped_tokens :: "manager \<Rightarrow> int \<Rightarrow> int" where
  "get_num_skipped_tokens m n =
     (case manager_cls m of
        SlidingWindowManager \<Rightarrow> window_skipped_tokens (kv_cache_spec m) n
      | ChunkedLocalAttentionManager \<Rightarrow> chunk_skipped_tokens (kv_cache_spec m) n
      | MambaManager \<Rightarrow> mamba_skipped_tokens n
      | _ \<Rightarrow> 0)"

section \<open>Admission: blocks to allocate\<close>

definition num_evictable_blocks :: "block_pool \<Rightarrow> nat list \<Rightarrow> int" where
  "num_evictable_blocks p bs =
     int (length (filter (\<lambda>b. ref_cnt (blk p b) = 0 \<and> \<not> is_null (blk p b)) bs))"

definition has_partial_local_hit :: "manager \<Rightarrow> nat list \<Rightarrow> int \<Rightarrow> bool" where
  "has_partial_local_hit m new_computed num_local \<longleftrightarrow>
     new_computed \<noteq> [] \<and> num_local mod block_size m \<noteq> 0"

definition base_num_blocks_to_allocate ::
  "(int \<Rightarrow> int \<Rightarrow> int) \<Rightarrow> block_pool \<Rightarrow> manager \<Rightarrow> string \<Rightarrow> int \<Rightarrow> nat list \<Rightarrow> int \<Rightarrow> int \<Rightarrow> bool
     \<Rightarrow> int res" where
  "base_num_blocks_to_allocate cdiv p m r ntok new_computed total_computed num_local apply_cap =
     (let required0 = cdiv ntok (block_size m);
          required = (case max_admission_blocks m of
              Some cap \<Rightarrow> if apply_cap then min required0 cap else required0
            | None \<Rightarrow> required0);
          num_req_blocks = int (length (blocks_of m r))
      in if map_of (num_cached_block m) r \<noteq> None then
           (if new_computed \<noteq> [] then Inl AssertionError
            else Inr (max (required - num_req_blocks) 0))
         else
           (let num_skipped_blocks = get_num_skipped_tokens m total_computed div block_size m;
                num_local_blocks = int (length new_computed) + num_req_blocks;
                num_new = max (required - max num_skipped_blocks num_local_blocks) 0;
                num_skipped_new = max 0 (num_skipped_blocks - num_req_blocks);
                num_evictable = num_evictable_blocks p (drop (nat num_skipped_new) new_computed)
            in Inr ((if has_partial_local_hit m new_computed num_local then num_new + 1 else num_new)
                    + num_evictable)))"

text \<open>The state block that a prefill checkpoint needs before the last, partial one.\<close>

definition needs_internal_checkpoint ::
  "(int \<Rightarrow> int \<Rightarrow> int) \<Rightarrow> block_pool \<Rightarrow> manager \<Rightarrow> string \<Rightarrow> int \<Rightarrow> int \<Rightarrow> bool" where
  "needs_internal_checkpoint cdiv p m r ntok num_computed =
     (let checkpoint_idx = cdiv ntok (block_size m) - 2; bs = blocks_of m r
      in sp_num_prefill_checkpoint_blocks (kv_cache_spec m) > 0
         \<and> ntok mod block_size m \<noteq> 0 \<and> num_computed mod block_size m = 0
         \<and> checkpoint_idx \<ge> 0
         \<and> (checkpoint_idx \<ge> int (length bs) \<or> is_null (blk p (bs ! nat checkpoint_idx))))"

definition mamba_align_num_blocks ::
  "(int \<Rightarrow> int \<Rightarrow> int) \<Rightarrow> block_pool \<Rightarrow> manager \<Rightarrow> string \<Rightarrow> nat list \<Rightarrow> int \<Rightarrow> int \<Rightarrow> int \<Rightarrow> bool
     \<Rightarrow> int \<times> manager" where
  "mamba_align_num_blocks cdiv p m r new_computed total_computed num_local ntok apply_cap =
     (let spec_blocks = sp_num_speculative_blocks (kv_cache_spec m);
          required = cdiv ntok (block_size m) + spec_blocks;
          m1 = open_table r m;
          new0 = required - int (length new_computed) - int (length (blocks_of m r));
          partial = (has_partial_local_hit m new_computed num_local
            \<or> map_of (partial_hit_reqs m) r \<noteq> None);
          new1 = (if partial then max new0 0 + 1 else new0);
          pb = (if partial then 1 else 0);
          cb = (if needs_internal_checkpoint cdiv p m r ntok total_computed then 1 else 0);
          m2 = (if \<not> apply_cap
                then m1\<lparr>num_checkpoint_blocks := AList.update r cb (num_checkpoint_blocks m1)\<rparr>
                else m1);
          first = (if r \<notin> allocated_block_reqs m then spec_blocks else 0);
          new2 = (if apply_cap then
                    (if align_cap_legacy m then max new1 1 + pb + cb
                     else max (spec_blocks + 2 + cb + pb) 1) + first
                  else if new1 > 0 then 1 + pb + cb + first
                  else new1)
      in (new2 + num_evictable_blocks p new_computed, m2))"

definition mamba_num_blocks_to_allocate ::
  "(int \<Rightarrow> int \<Rightarrow> int) \<Rightarrow> block_pool \<Rightarrow> manager \<Rightarrow> string \<Rightarrow> int \<Rightarrow> nat list \<Rightarrow> int \<Rightarrow> int \<Rightarrow> int \<Rightarrow> bool
     \<Rightarrow> (int \<times> manager) res" where
  "mamba_num_blocks_to_allocate cdiv p m r ntok new_computed total_computed num_local
       ntok_main apply_cap =
     (if new_computed \<noteq> []
         \<and> (case blk_hash (blk p (last new_computed)) of
              None \<Rightarrow> False | Some h \<Rightarrow> h \<in> cached_blocks_this_step m)
      then Inr (num_gpu_blocks p + 1, m)
      else if sp_mamba_cache_mode (kv_cache_spec m) \<noteq> ''align'' then
        bind_res (base_num_blocks_to_allocate cdiv p m r
            (if sp_num_speculative_blocks (kv_cache_spec m) > 0
             then ntok + sp_block_size (kv_cache_spec m)
                    * sp_num_speculative_blocks (kv_cache_spec m)
             else ntok)
            new_computed total_computed num_local apply_cap) (\<lambda>n. Inr (n, m))
      else Inr (mamba_align_num_blocks cdiv p m r new_computed total_computed num_local
             ntok_main apply_cap))"

definition get_num_blocks_to_allocate ::
  "(int \<Rightarrow> int \<Rightarrow> int) \<Rightarrow> block_pool \<Rightarrow> manager \<Rightarrow> string \<Rightarrow> int \<Rightarrow> nat list \<Rightarrow> int \<Rightarrow> int \<Rightarrow> int \<Rightarrow> bool
     \<Rightarrow> (int \<times> manager) res" where
  "get_num_blocks_to_allocate cdiv p m r ntok new_computed total_computed num_local
       ntok_main apply_cap =
     (case manager_cls m of
        KpoolTailManager \<Rightarrow> Inr (max (1 - int (length (blocks_of m r))) 0, m)
      | MambaManager \<Rightarrow> mamba_num_blocks_to_allocate cdiv p m r ntok new_computed
          total_computed num_local ntok_main apply_cap
      | _ \<Rightarrow> bind_res (base_num_blocks_to_allocate cdiv p m r ntok new_computed
          total_computed num_local apply_cap) (\<lambda>n. Inr (n, m)))"

section \<open>Prefix-cache hits of a new request\<close>

text \<open>The table and the bookkeeping once the hit blocks are touched.\<close>

definition enter_hit :: "string \<Rightarrow> nat list \<Rightarrow> nat list \<Rightarrow> int \<Rightarrow> manager \<Rightarrow> manager" where
  "enter_hit r kept bs num_local m =
     (let m1 = set_blocks r bs m;
          m2 = m1\<lparr>num_cached_block := AList.update r (int (length bs)) (num_cached_block m1)\<rparr>;
          idx = num_local div block_size m
      in if has_partial_local_hit m kept num_local then
           m2\<lparr>partial_hit_reqs := AList.update r (idx, last kept) (partial_hit_reqs m2),
              num_cached_block := AList.update r idx (num_cached_block m2)\<rparr>
         else m2)"

definition base_add_local_computed_blocks ::
  "string \<Rightarrow> nat list \<Rightarrow> int \<Rightarrow> int \<Rightarrow> manager \<Rightarrow> block_pool \<Rightarrow> (manager \<times> block_pool) res" where
  "base_add_local_computed_blocks r new_computed num_local num_external m p =
     (if blocks_of m r \<noteq> [] then Inl AssertionError
      else
        (let num_skipped_blocks = get_num_skipped_tokens m (num_local + num_external) div block_size m;
             kept = (if num_skipped_blocks > 0 then drop (nat num_skipped_blocks) new_computed
                     else new_computed);
             bs = replicate (nat num_skipped_blocks) (null_block p) @ kept
         in bind_res (if mgr_enable_caching m then touch kept p
                      else if kept \<noteq> [] then Inl AssertionError else Inr p) (\<lambda>p1.
              Inr (enter_hit r kept bs num_local m, p1))))"

definition add_local_computed_blocks ::
  "string \<Rightarrow> nat list \<Rightarrow> int \<Rightarrow> int \<Rightarrow> manager \<Rightarrow> block_pool \<Rightarrow> (manager \<times> block_pool) res" where
  "add_local_computed_blocks r new_computed num_local num_external m p =
     (case manager_cls m of
        KpoolTailManager \<Rightarrow> Inr (m, p)
      | CrossAttentionManager \<Rightarrow> if new_computed \<noteq> [] then Inl AssertionError else Inr (m, p)
      | _ \<Rightarrow> base_add_local_computed_blocks r new_computed num_local num_external m p)"

section \<open>Allocation\<close>

text \<open>New blocks at the end of the table of a request.\<close>

definition extend_table ::
  "pool_env \<Rightarrow> string \<Rightarrow> int \<Rightarrow> manager \<Rightarrow> block_pool \<Rightarrow> (nat list \<times> manager \<times> block_pool) res" where
  "extend_table env r n m p =
     bind_res (get_new_blocks env n p) (\<lambda>(new, p1).
       Inr (new, record_ids new (set_blocks r (blocks_of m r @ new) m), p1))"

text \<open>The single block of the kpool tail.\<close>

definition kpool_allocate ::
  "pool_env \<Rightarrow> string \<Rightarrow> manager \<Rightarrow> block_pool \<Rightarrow> (nat list \<times> manager \<times> block_pool) res" where
  "kpool_allocate env r m p =
     (if length (blocks_of m r) \<ge> 1 then Inr ([], open_table r m, p)
      else extend_table env r 1 m p)"

definition base_allocate_external_computed_blocks ::
  "(int \<Rightarrow> int \<Rightarrow> int) \<Rightarrow> pool_env \<Rightarrow> string \<Rightarrow> int \<Rightarrow> int \<Rightarrow> manager \<Rightarrow> block_pool
     \<Rightarrow> (manager \<times> block_pool) res" where
  "base_allocate_external_computed_blocks cdiv env r num_local num_external m p =
     (let total = num_local + num_external;
          skipped = get_num_skipped_tokens m total;
          external = (if skipped > 0 then min (total - skipped) num_external else num_external)
      in if external \<le> 0 then Inr (m, p)
         else bind_res (extend_table env r
                (cdiv total (block_size m) - int (length (blocks_of m r))) m p)
                (\<lambda>(_, m1, p1). Inr (m1, p1)))"

definition allocate_external_computed_blocks ::
  "(int \<Rightarrow> int \<Rightarrow> int) \<Rightarrow> pool_env \<Rightarrow> string \<Rightarrow> int \<Rightarrow> int \<Rightarrow> manager \<Rightarrow> block_pool
     \<Rightarrow> (manager \<times> block_pool) res" where
  "allocate_external_computed_blocks cdiv env r num_local num_external m p =
     (case manager_cls m of
        KpoolTailManager \<Rightarrow>
          bind_res (kpool_allocate env r m p) (\<lambda>(_, m1, p1). Inr (m1, p1))
      | CrossAttentionManager \<Rightarrow> Inr (m, p)
      | _ \<Rightarrow> base_allocate_external_computed_blocks cdiv env r num_local num_external m p)"

text \<open>The private copy of a shared tail block.\<close>

definition apply_cow ::
  "string \<Rightarrow> int \<Rightarrow> nat \<Rightarrow> nat \<Rightarrow> manager \<Rightarrow> block_pool \<Rightarrow> (manager \<times> block_pool) res" where
  "apply_cow r idx src cow m p =
     (let bs = blocks_of m r
      in if \<not> idx < int (length bs) then Inl AssertionError
         else bind_res (py_index bs idx) (\<lambda>b.
           if b \<noteq> src \<or> is_null (blk p src) \<or> \<not> ref_cnt (blk p src) > 0 then Inl AssertionError
           else bind_res (py_set bs idx cow) (\<lambda>bs'.
             Inr ((set_blocks r bs' m)\<lparr>pending_cow_copies := pending_cow_copies m @ [(src, cow)]\<rparr>,
                  upd_block cow (ref_cnt_update (\<lambda>c. c + 1)) p))))"

definition redirect_partial_hit ::
  "pool_env \<Rightarrow> string \<Rightarrow> manager \<Rightarrow> block_pool \<Rightarrow> (nat list \<times> manager \<times> block_pool) res" where
  "redirect_partial_hit env r m p =
     (case map_of (partial_hit_reqs m) r of
        None \<Rightarrow> Inr ([], m, p)
      | Some (idx, src) \<Rightarrow>
          (let m1 = m\<lparr>partial_hit_reqs := AList.delete r (partial_hit_reqs m)\<rparr>
           in bind_res (get_new_blocks env 1 p) (\<lambda>(new, p1).
              bind_res (py_index new 0) (\<lambda>cow.
              bind_res (apply_cow r idx src cow m1 p1) (\<lambda>(m2, p2).
                Inr ([cow], m2\<lparr>new_block_ids := new_block_ids m2 @ [cow]\<rparr>, p2))))))"

definition base_allocate_new_blocks ::
  "(int \<Rightarrow> int \<Rightarrow> int) \<Rightarrow> pool_env \<Rightarrow> string \<Rightarrow> int \<Rightarrow> manager \<Rightarrow> block_pool
     \<Rightarrow> (nat list \<times> manager \<times> block_pool) res" where
  "base_allocate_new_blocks cdiv env r ntok m p =
     bind_res (redirect_partial_hit env r m p) (\<lambda>(cow, m1, p1).
       (let num_new = cdiv ntok (block_size m1) - int (length (blocks_of m1 r))
        in if num_new \<le> 0 then Inr (cow, open_table r m1, p1)
           else bind_res (extend_table env r num_new m1 p1)
                  (\<lambda>(new, m2, p2). Inr (cow @ new, m2, p2))))"

section \<open>Allocation of mamba states in align mode\<close>

text \<open>The speculative blocks of the last step move to the end while they lie in the skipped part.\<close>

fun reuse_speculative_blocks :: "nat \<Rightarrow> int \<Rightarrow> int list \<Rightarrow> nat list \<Rightarrow> nat list res" where
  "reuse_speculative_blocks null num_skipped [] bs = Inr bs"
| "reuse_speculative_blocks null num_skipped (i # is) bs =
     (if i < num_skipped then
        bind_res (py_index bs i) (\<lambda>b.
        bind_res (py_set (bs @ [b]) i null) (\<lambda>bs'.
          reuse_speculative_blocks null num_skipped is bs'))
      else Inr bs)"

text \<open>
  The partial hit: a running request keeps its block and the cache entry moves to the copy, a
  new request moves to the copy.  The result is what comes first in the returned blocks.
\<close>

definition mamba_cow ::
  "pool_env \<Rightarrow> string \<Rightarrow> int \<Rightarrow> nat \<Rightarrow> nat \<Rightarrow> manager \<Rightarrow> block_pool
     \<Rightarrow> (nat list \<times> manager \<times> block_pool) res" where
  "mamba_cow env r idx src cow m p =
     (if r \<in> allocated_block_reqs m then
        bind_res (py_index (blocks_of m r) idx) (\<lambda>b.
          if b \<noteq> src then Inl AssertionError
          else bind_res (move_block_hashes env src cow p) (\<lambda>p1.
            (let p2 = upd_block src (ref_cnt_update (\<lambda>c. c + 1)) p1;
                 m1 = m\<lparr>pending_cow_copies := pending_cow_copies m @ [(src, cow)],
                        producer_partial_tail_reqs :=
                          AList.delete r (producer_partial_tail_reqs m)\<rparr>;
                 m2 = (case map_of (producer_partial_tail_reqs m) r of
                     None \<Rightarrow> m1
                   | Some boundary \<Rightarrow> m1\<lparr>pending_partial_tail_offloads :=
                       pending_partial_tail_offloads m1
                         @ [(r, kv_cache_group_id m1, cow, boundary)]\<rparr>);
                 m3 = (case blk_hash (blk p2 cow) of
                     None \<Rightarrow> m2
                   | Some h \<Rightarrow> m2\<lparr>cached_blocks_this_step := insert h (cached_blocks_this_step m2)\<rparr>)
             in Inr ([], m3, p2))))
      else bind_res (apply_cow r idx src cow m p) (\<lambda>(m1, p1). Inr ([cow], m1, p1)))"

text \<open>The table before the new blocks: null blocks for skipped states, then the reused ones.\<close>

definition mamba_prepare_table ::
  "nat \<Rightarrow> int \<Rightarrow> int \<Rightarrow> int \<Rightarrow> bool \<Rightarrow> nat list \<Rightarrow> nat list res" where
  "mamba_prepare_table null num_skipped checkpoint spec_blocks allocated bs =
     (let prev = int (length bs);
          padded = (if prev < num_skipped
                    then bs @ replicate (nat (num_skipped - checkpoint - prev)) null else bs)
      in if allocated then reuse_speculative_blocks null num_skipped [prev - spec_blocks..prev - 1] padded
         else Inr padded)"

definition mamba_align_allocate ::
  "(int \<Rightarrow> int \<Rightarrow> int) \<Rightarrow> pool_env \<Rightarrow> string \<Rightarrow> int \<Rightarrow> manager \<Rightarrow> block_pool
     \<Rightarrow> (nat list \<times> manager \<times> block_pool) res" where
  "mamba_align_allocate cdiv env r ntok m p =
     (let spec_blocks = sp_num_speculative_blocks (kv_cache_spec m);
          required = cdiv ntok (block_size m) + spec_blocks;
          checkpoint = dict_get (num_checkpoint_blocks m) r 0;
          partial_hit = map_of (partial_hit_reqs m) r;
          pb = (if partial_hit = None then 0 else 1);
          prev = int (length (blocks_of m r));
          allocated = (r \<in> allocated_block_reqs m)
      in if required \<le> prev \<and> partial_hit = None then
           Inr ([], (open_table r m)\<lparr>allocated_block_reqs := insert r (allocated_block_reqs m)\<rparr>, p)
         else
           (let m1 = (if allocated then
                  m\<lparr>last_state_block_idx := AList.update r (prev - 1 - spec_blocks) (last_state_block_idx m)\<rparr>
                else if prev > 0 then
                  m\<lparr>last_state_block_idx := AList.update r (prev - 1) (last_state_block_idx m)\<rparr>
                else m);
                num_skipped = required - spec_blocks - 1
            in bind_res (mamba_prepare_table (null_block p) num_skipped checkpoint spec_blocks allocated
                   (blocks_of m r)) (\<lambda>bs.
               (let new0 = required - int (length bs);
                    num_new = (if partial_hit = None then new0 else max new0 0 + 1);
                    max_new = 1 + pb + checkpoint + (if allocated then 0 else spec_blocks)
                in if \<not> num_new \<le> max_new then Inl AssertionError
                   else bind_res (get_new_blocks env num_new p) (\<lambda>(new, p1).
                     (let m2 = set_blocks r bs m1
                      in bind_res (case partial_hit of
                             None \<Rightarrow> Inr ([], new, m2, p1)
                           | Some (idx, src) \<Rightarrow>
                               bind_res (py_index new 0) (\<lambda>cow.
                               bind_res (mamba_cow env r idx src cow m2 p1) (\<lambda>(front, m3, p3).
                                 Inr (front, tl new, m3, p3))))
                           (\<lambda>(front, rest, m4, p4).
                         Inr (front @ drop (nat prev) bs @ rest,
                           (set_blocks r (blocks_of m4 r @ rest) m4)
                             \<lparr>allocated_block_reqs := insert r (allocated_block_reqs m4),
                              partial_hit_reqs := AList.delete r (partial_hit_reqs m4)\<rparr>,
                           p4))))))))"

definition mamba_allocate_new_blocks ::
  "(int \<Rightarrow> int \<Rightarrow> int) \<Rightarrow> pool_env \<Rightarrow> string \<Rightarrow> int \<Rightarrow> int \<Rightarrow> manager \<Rightarrow> block_pool
     \<Rightarrow> (nat list \<times> manager \<times> block_pool) res" where
  "mamba_allocate_new_blocks cdiv env r ntok ntok_main m p =
     (if sp_mamba_cache_mode (kv_cache_spec m) \<noteq> ''align'' then
        base_allocate_new_blocks cdiv env r
          (if sp_num_speculative_blocks (kv_cache_spec m) > 0
           then ntok + block_size m * sp_num_speculative_blocks (kv_cache_spec m) else ntok) m p
      else mamba_align_allocate cdiv env r ntok_main m p)"

definition allocate_new_blocks ::
  "(int \<Rightarrow> int \<Rightarrow> int) \<Rightarrow> pool_env \<Rightarrow> string \<Rightarrow> int \<Rightarrow> int \<Rightarrow> manager \<Rightarrow> block_pool
     \<Rightarrow> (nat list \<times> manager \<times> block_pool) res" where
  "allocate_new_blocks cdiv env r ntok ntok_main m p =
     (case manager_cls m of
        KpoolTailManager \<Rightarrow> kpool_allocate env r m p
      | MambaManager \<Rightarrow> mamba_allocate_new_blocks cdiv env r ntok ntok_main m p
      | _ \<Rightarrow> base_allocate_new_blocks cdiv env r ntok m p)"

section \<open>Caching of full and partial blocks\<close>

definition reachable_block_mask ::
  "(int \<Rightarrow> int \<Rightarrow> int) \<Rightarrow> manager \<Rightarrow> int \<Rightarrow> int \<Rightarrow> int option \<Rightarrow> int list \<Rightarrow> bool list option res" where
  "reachable_block_mask cdiv m start_block end_block retention boundaries =
     (case manager_cls m of
        SlidingWindowManager \<Rightarrow> window_mask cdiv start_block end_block
          (Some (scheduler_block_size m)) (kv_cache_spec m) (use_eagle m) retention boundaries
      | MambaManager \<Rightarrow> mamba_mask start_block end_block
          (Some (scheduler_block_size m)) (kv_cache_spec m) retention boundaries
      | _ \<Rightarrow> Inr None)"

definition base_cache_blocks ::
  "(int \<Rightarrow> int \<Rightarrow> int) \<Rightarrow> pool_env \<Rightarrow> request \<Rightarrow> int \<Rightarrow> int option \<Rightarrow> manager \<Rightarrow> block_pool
     \<Rightarrow> (request \<times> manager \<times> block_pool) res" where
  "base_cache_blocks cdiv env q ntok retention m p =
     (let r = request_id q;
          num_cached = dict_get (num_cached_block m) r 0;
          num_full = ntok div block_size m
      in if num_cached \<ge> num_full then Inr (q, m, p)
         else
           (let boundaries = (num_prompt_tokens q - 1)
                  # (if shared_prefix_boundary q \<noteq> 0 then [shared_prefix_boundary q] else [])
            in bind_res (reachable_block_mask cdiv m num_cached num_full retention boundaries) (\<lambda>msk.
               bind_res (cache_full_blocks env q (blocks_of m r) num_cached num_full (block_size m)
                  (kv_cache_group_id m) msk p) (\<lambda>(q1, p1).
                 (let m1 = open_table r m
                  in Inr (q1, m1\<lparr>num_cached_block := AList.update r num_full (num_cached_block m1)\<rparr>,
                          p1))))))"

definition full_cache_partial_tail ::
  "pool_env \<Rightarrow> request \<Rightarrow> int \<Rightarrow> manager \<Rightarrow> block_pool \<Rightarrow> (request \<times> manager \<times> block_pool) res" where
  "full_cache_partial_tail env q ntok m p =
     (let boundary = num_prompt_tokens q div hash_block_size p * hash_block_size p
      in if boundary = 0 \<or> boundary > ntok then Inr (q, m, p)
         else if boundary mod block_size m = 0 then Inr (q, m, p)
         else
           (let bs = blocks_of m (request_id q); idx = boundary div block_size m;
                m1 = open_table (request_id q) m
            in if idx \<ge> int (length bs) then Inr (q, m1, p)
               else bind_res (py_index bs idx) (\<lambda>b.
                 bind_res (cache_partial_block env q b boundary (kv_cache_group_id m)
                   (block_size m) p) (\<lambda>(_, q1, p1). Inr (q1, m1, p1)))))"

definition mamba_cache_partial_tail ::
  "pool_env \<Rightarrow> request \<Rightarrow> int \<Rightarrow> manager \<Rightarrow> block_pool
     \<Rightarrow> (block_hash_gid option \<times> request \<times> manager \<times> block_pool) res" where
  "mamba_cache_partial_tail env q ntok m p =
     (let hbs = hash_block_size p; r = request_id q
      in if block_size m = hbs \<or> ntok mod block_size m = 0 \<or> ntok mod hbs \<noteq> 0
            \<or> ntok \<noteq> num_prompt_tokens q div hbs * hbs
         then Inr (None, q, m, p)
         else
           (let bs = blocks_of m r; idx = ntok div block_size m; m1 = open_table r m
            in if idx \<ge> int (length bs) then Inr (None, q, m1, p)
               else bind_res (py_index bs idx) (\<lambda>src.
                 if is_null (blk p src) then Inr (None, q, m1, p)
                 else bind_res (cache_partial_block env q src ntok (kv_cache_group_id m)
                        (block_size m) p) (\<lambda>(partial_hash, q1, p1).
                   Inr (partial_hash, q1,
                     (case partial_hash of
                        None \<Rightarrow> m1
                      | Some h \<Rightarrow> m1\<lparr>partial_hit_reqs := AList.update r (idx, src) (partial_hit_reqs m1),
                          num_cached_block := AList.update r idx (num_cached_block m1),
                          producer_partial_tail_reqs :=
                            AList.update r ntok (producer_partial_tail_reqs m1)\<rparr>), p1)))))"

text \<open>The hashes of the blocks cached in this step.\<close>

definition hashes_cached :: "block_pool \<Rightarrow> nat list \<Rightarrow> block_hash_gid set" where
  "hashes_cached p bs =
     fold (\<lambda>b hs. if is_null (blk p b) then hs
                  else (case blk_hash (blk p b) of None \<Rightarrow> hs | Some h \<Rightarrow> insert h hs)) bs {}"

definition mamba_cache_blocks ::
  "(int \<Rightarrow> int \<Rightarrow> int) \<Rightarrow> pool_env \<Rightarrow> request \<Rightarrow> int \<Rightarrow> int option \<Rightarrow> manager \<Rightarrow> block_pool
     \<Rightarrow> (request \<times> manager \<times> block_pool) res" where
  "mamba_cache_blocks cdiv env q ntok retention m p =
     (let r = request_id q; earlier = dict_get (num_cached_block m) r 0
      in bind_res (base_cache_blocks cdiv env q ntok retention m p) (\<lambda>(q1, m1, p1).
         (let after = dict_get (num_cached_block m1) r 0
          in bind_res
               (if sp_mamba_cache_mode (kv_cache_spec m1) = ''align'' then
                  mamba_cache_partial_tail env q1 ntok m1 p1
                else Inr (None, q1, m1, p1)) (\<lambda>(partial_hash, q2, m2, p2).
              (let m3 = m2\<lparr>cached_blocks_this_step :=
                     cached_blocks_this_step m2 \<union> set_option partial_hash\<rparr>
               in Inr (q2,
                  (if after > earlier then
                     (open_table r m3)\<lparr>cached_blocks_this_step := cached_blocks_this_step m3
                        \<union> hashes_cached p2 (py_slice (blocks_of m3 r) earlier after)\<rparr>
                   else m3), p2))))))"

definition cache_blocks ::
  "(int \<Rightarrow> int \<Rightarrow> int) \<Rightarrow> pool_env \<Rightarrow> request \<Rightarrow> int \<Rightarrow> int option \<Rightarrow> manager \<Rightarrow> block_pool
     \<Rightarrow> (request \<times> manager \<times> block_pool) res" where
  "cache_blocks cdiv env q ntok retention m p =
     (case manager_cls m of
        KpoolTailManager \<Rightarrow> Inr (q, m, p)
      | CrossAttentionManager \<Rightarrow> Inl ValueError
      | MambaManager \<Rightarrow> mamba_cache_blocks cdiv env q ntok retention m p
      | SlidingWindowManager \<Rightarrow> base_cache_blocks cdiv env q ntok retention m p
      | ChunkedLocalAttentionManager \<Rightarrow> base_cache_blocks cdiv env q ntok retention m p
      | _ \<Rightarrow> bind_res (base_cache_blocks cdiv env q ntok retention m p) (\<lambda>(q1, m1, p1).
          if block_size m1 = hash_block_size p1 then Inr (q1, m1, p1)
          else full_cache_partial_tail env q1 ntok m1 p1))"

definition new_step_starts :: "manager \<Rightarrow> manager" where
  "new_step_starts m =
     (case manager_cls m of MambaManager \<Rightarrow> m\<lparr>cached_blocks_this_step := {}\<rparr> | _ \<Rightarrow> m)"

section \<open>Giving blocks back\<close>

definition pop_blocks_for_free :: "string \<Rightarrow> manager \<Rightarrow> nat list \<times> manager" where
  "pop_blocks_for_free r m =
     (let m0 = (if manager_cls m = MambaManager
                   \<and> sp_mamba_cache_mode (kv_cache_spec m) = ''align'' then
            m\<lparr>allocated_block_reqs := allocated_block_reqs m - {r},
              last_state_block_idx := AList.delete r (last_state_block_idx m),
              num_checkpoint_blocks := AList.delete r (num_checkpoint_blocks m),
              producer_partial_tail_reqs := AList.delete r (producer_partial_tail_reqs m),
              pending_partial_tail_offloads :=
                filter (\<lambda>e. fst e \<noteq> r) (pending_partial_tail_offloads m)\<rparr>
          else m)
      in (blocks_of m0 r,
          m0\<lparr>req_to_blocks := AList.delete r (req_to_blocks m0),
             num_cached_block := AList.delete r (num_cached_block m0),
             partial_hit_reqs := AList.delete r (partial_hit_reqs m0)\<rparr>))"

definition free_request :: "string \<Rightarrow> manager \<Rightarrow> block_pool \<Rightarrow> (manager \<times> block_pool) res" where
  "free_request r m p =
     (let (bs, m1) = pop_blocks_for_free r m
      in bind_res (free_blocks (rev bs) p) (\<lambda>p1. Inr (m1, p1)))"

text \<open>
  The loop of \<open>_remove_blocks_in_range\<close>: from the right, up to the first null block; the result
  is the table and the blocks to free.
\<close>

fun null_out :: "nat \<Rightarrow> int list \<Rightarrow> nat list \<Rightarrow> nat list \<Rightarrow> (nat list \<times> nat list) res" where
  "null_out null [] bs freed = Inr (bs, freed)"
| "null_out null (i # is) bs freed =
     bind_res (py_index bs i) (\<lambda>b.
       if b = null then Inr (bs, freed)
       else bind_res (py_set bs i null) (\<lambda>bs'. null_out null is bs' (freed @ [b])))"

definition remove_blocks_in_range ::
  "string \<Rightarrow> int \<Rightarrow> int \<Rightarrow> manager \<Rightarrow> block_pool \<Rightarrow> (manager \<times> block_pool) res" where
  "remove_blocks_in_range r first_block last_block m p =
     (if map_of (req_to_blocks m) r = None \<or> first_block \<ge> last_block then Inr (m, p)
      else
        (let bs = blocks_of m r; last = min last_block (int (length bs))
         in bind_res (null_out (null_block p) (rev [first_block..last - 1]) bs []) (\<lambda>(bs', freed).
            (let m1 = set_blocks r bs' m
             in if freed = [] then Inr (m1, p)
                else bind_res (free_blocks freed p) (\<lambda>p1. Inr (m1, p1))))))"

definition base_remove_skipped_blocks ::
  "string \<Rightarrow> int \<Rightarrow> manager \<Rightarrow> block_pool \<Rightarrow> (manager \<times> block_pool) res" where
  "base_remove_skipped_blocks r processed m p =
     (let num_skipped = get_num_skipped_tokens m processed
      in if num_skipped \<le> 0 then Inr (m, p)
         else (let m1 = open_table r m;
                   n = min (num_skipped div block_size m) (int (length (blocks_of m r)))
               in remove_blocks_in_range r 0 n m1 p))"

definition rswa_remove_skipped_blocks ::
  "(int \<Rightarrow> int \<Rightarrow> int) \<Rightarrow> string \<Rightarrow> int \<Rightarrow> int option \<Rightarrow> manager \<Rightarrow> block_pool
     \<Rightarrow> (manager \<times> block_pool) res" where
  "rswa_remove_skipped_blocks cdiv r processed prompt m p =
     (case prompt of
        None \<Rightarrow> base_remove_skipped_blocks r processed m p
      | Some n \<Rightarrow>
          (let window_start = max n (processed - sp_rswa_window (kv_cache_spec m))
           in remove_blocks_in_range r (cdiv n (block_size m)) (window_start div block_size m) m p))"

text \<open>The state block of the step before the last is given back.\<close>

definition drop_last_state :: "string \<Rightarrow> int \<Rightarrow> manager \<Rightarrow> block_pool \<Rightarrow> (manager \<times> block_pool) res" where
  "drop_last_state r idx m p =
     (let bs = blocks_of m r; m1 = open_table r m
      in bind_res (py_index bs idx) (\<lambda>b.
           if b = null_block p then Inr (m1, p)
           else bind_res (free_blocks [b] p) (\<lambda>p1.
             bind_res (py_set bs idx (null_block p)) (\<lambda>bs'. Inr (set_blocks r bs' m1, p1)))))"

definition mamba_remove_skipped_blocks ::
  "(int \<Rightarrow> int \<Rightarrow> int) \<Rightarrow> string \<Rightarrow> int \<Rightarrow> manager \<Rightarrow> block_pool \<Rightarrow> (manager \<times> block_pool) res" where
  "mamba_remove_skipped_blocks cdiv r processed m p =
     bind_res (base_remove_skipped_blocks r processed m p) (\<lambda>(m1, p1).
       if sp_mamba_cache_mode (kv_cache_spec m1) \<noteq> ''align'' then Inr (m1, p1)
       else (case map_of (last_state_block_idx m1) r of
           None \<Rightarrow> Inr (m1, p1)
         | Some idx \<Rightarrow>
             if \<not> idx < cdiv processed (block_size m1) - 1 then Inr (m1, p1)
             else drop_last_state r idx m1 p1))"

definition remove_skipped_blocks ::
  "(int \<Rightarrow> int \<Rightarrow> int) \<Rightarrow> string \<Rightarrow> int \<Rightarrow> int option \<Rightarrow> manager \<Rightarrow> block_pool
     \<Rightarrow> (manager \<times> block_pool) res" where
  "remove_skipped_blocks cdiv r processed prompt m p =
     (case manager_cls m of
        KpoolTailManager \<Rightarrow> Inr (m, p)
      | RSWAManager \<Rightarrow> rswa_remove_skipped_blocks cdiv r processed prompt m p
      | MambaManager \<Rightarrow> mamba_remove_skipped_blocks cdiv r processed m p
      | _ \<Rightarrow> base_remove_skipped_blocks r processed m p)"

section \<open>Common prefix of all requests\<close>

definition full_common_prefix_blocks :: "string \<Rightarrow> manager \<Rightarrow> block_pool \<Rightarrow> int \<times> manager" where
  "full_common_prefix_blocks r m p =
     (let m1 = open_table r m
      in (int (length (takeWhile (\<lambda>b. ref_cnt (blk p b) = int (length (req_to_blocks m1)))
                         (blocks_of m r))), m1))"

definition get_num_common_prefix_blocks :: "string \<Rightarrow> manager \<Rightarrow> block_pool \<Rightarrow> int \<times> manager" where
  "get_num_common_prefix_blocks r m p =
     (case manager_cls m of
        FullAttentionManager \<Rightarrow> full_common_prefix_blocks r m p
      | RSWAManager \<Rightarrow> full_common_prefix_blocks r m p
      | SinkFullAttentionManager \<Rightarrow> full_common_prefix_blocks r m p
      | _ \<Rightarrow> (0, m))"

section \<open>The allocator that the managers rely on\<close>

text \<open>
  What a manager needs of the pool: blocks handed out are unreferenced and get one reference
  each, a pin adds a reference, a release drops one, and nothing else changes a count.  Block
  \<open>0\<close> is the null block.
\<close>

locale block_allocator =
  fixes good_env :: "'e \<Rightarrow> bool" and ok :: "'p \<Rightarrow> bool" and refs :: "'p \<Rightarrow> nat \<Rightarrow> int"
    and pooled :: "'p \<Rightarrow> nat \<Rightarrow> bool" and num_free :: "'p \<Rightarrow> int"
    and alloc :: "'e \<Rightarrow> int \<Rightarrow> 'p \<Rightarrow> (nat list \<times> 'p) res"
    and pin :: "nat list \<Rightarrow> 'p \<Rightarrow> 'p res" and release :: "nat list \<Rightarrow> 'p \<Rightarrow> 'p res"
  assumes pooled_nonzero: "pooled p b \<Longrightarrow> b \<noteq> 0"
    and refs_nonneg: "ok p \<Longrightarrow> pooled p b \<Longrightarrow> 0 \<le> refs p b"
    and alloc_ok: "good_env e \<Longrightarrow> ok p \<Longrightarrow> 0 \<le> n \<Longrightarrow> n \<le> num_free p \<Longrightarrow>
      \<exists>bs p'. alloc e n p = Inr (bs, p') \<and> ok p' \<and> int (length bs) = n \<and> distinct bs
        \<and> (\<forall>b \<in> set bs. pooled p b \<and> refs p b = 0) \<and> pooled p' = pooled p
        \<and> (\<forall>b. refs p' b = refs p b + int (count_list bs b)) \<and> num_free p' = num_free p - n"
    and alloc_short: "ok p \<Longrightarrow> num_free p < n \<Longrightarrow> alloc e n p = Inl ValueError"
    and pin_ok: "ok p \<Longrightarrow> \<forall>b \<in> set bs. b = 0 \<or> pooled p b \<Longrightarrow>
      \<exists>p'. pin bs p = Inr p' \<and> ok p' \<and> pooled p' = pooled p
        \<and> (\<forall>b. refs p' b = refs p b + int (count_list bs b))
        \<and> num_free p' = num_free p - int (card {b \<in> set bs. pooled p b \<and> refs p b = 0})"
    and release_ok: "ok p \<Longrightarrow> \<forall>b \<in> set bs. b = 0 \<or> pooled p b \<and> int (count_list bs b) \<le> refs p b \<Longrightarrow>
      \<exists>p'. release bs p = Inr p' \<and> ok p' \<and> pooled p' = pooled p
        \<and> (\<forall>b. refs p' b = refs p b - int (count_list bs b)) \<and> num_free p \<le> num_free p'"
begin

text \<open>Allocation succeeds exactly when there are enough free blocks.\<close>

lemma alloc_success_iff:
  assumes "good_env e" and "ok p" and "0 \<le> n"
  shows "is_ok (alloc e n p) \<longleftrightarrow> n \<le> num_free p"
  using alloc_ok [OF assms] alloc_short [OF assms(2), of n e] by (cases "n \<le> num_free p") auto

lemma allocD:
  assumes "alloc e n p = Inr (bs, p')" and "good_env e" and "ok p" and "0 \<le> n"
  shows "ok p'" "int (length bs) = n" "distinct bs" "\<forall>b \<in> set bs. pooled p b \<and> refs p b = 0"
    "pooled p' = pooled p" "refs p' b = refs p b + int (count_list bs b)" "num_free p' = num_free p - n"
proof -
  have "n \<le> num_free p" using alloc_success_iff [OF assms(2-4)] assms(1) by simp
  from alloc_ok [OF assms(2-4) this] assms(1)
  show "ok p'" "int (length bs) = n" "distinct bs" "\<forall>b \<in> set bs. pooled p b \<and> refs p b = 0"
    "pooled p' = pooled p" "refs p' b = refs p b + int (count_list bs b)" "num_free p' = num_free p - n"
    by auto
qed

end

definition pool_ok :: "block_pool \<Rightarrow> bool" where
  "pool_ok p \<longleftrightarrow> (\<exists>xs. pool_inv p xs)"

abbreviation block_refs :: "block_pool \<Rightarrow> nat \<Rightarrow> int" where
  "block_refs p b \<equiv> ref_cnt (blk p b)"

lemma pool_ok_null: "pool_ok p \<Longrightarrow> null_block p = 0"
  by (auto simp: pool_ok_def pool_inv_def)

lemma pool_ok_is_null: "pool_ok p \<Longrightarrow> is_null (blk p b) \<longleftrightarrow> b = 0"
  using pool_inv_is_null by (auto simp: pool_ok_def)

lemma pool_ok_cache: "pool_ok p \<Longrightarrow> cache_inv p"
  by (auto simp: pool_ok_def pool_inv_def)

lemma pool_ok_same_blocks: "pool_ok p \<Longrightarrow> cache_inv p' \<Longrightarrow> same_blocks p p' \<Longrightarrow> pool_ok p'"
  using pool_inv_same_blocks by (auto simp: pool_ok_def)

lemma static_pool_block: "same_static p p' \<Longrightarrow> pool_block p' = pool_block p"
  using same_static_pool_block by blast

lemma in_range_or_null: "pool_ok p \<Longrightarrow> b = 0 \<or> pool_block p b \<longleftrightarrow> int b < num_gpu_blocks p"
  by (auto simp: pool_ok_def pool_inv_def pool_block_def)

lemma free_list_card:
  assumes "pool_inv p xs" and "set ys \<subseteq> set xs" and "distinct ys"
  shows "length (filter (\<lambda>b. b \<notin> set ys) xs) + length ys = length xs"
proof -
  have d: "distinct xs" using pool_inv_distinct [OF assms(1)] .
  have "length (filter (\<lambda>b. b \<in> set ys) xs) = length ys"
    using assms(2,3) d by (metis Int_absorb1 distinct_card distinct_filter set_filter Int_def
        Collect_mem_eq inf_commute)
  then show ?thesis using sum_length_filter_compl [of "\<lambda>b. b \<in> set ys" xs] by linarith
qed

lemma count_list_distinct: "distinct xs \<Longrightarrow> count_list xs b = (if b \<in> set xs then 1 else 0)"
  by (induction xs) auto

lemma length_filter_notin:
  "distinct xs \<Longrightarrow> int (length (filter (\<lambda>b. b \<notin> A) xs)) = int (length xs) - int (card (A \<inter> set xs))"
  for A :: "'a set"
proof -
  assume d: "distinct xs"
  have "card (A \<inter> set xs) = length (filter (\<lambda>b. b \<in> A) xs)"
    using d by (metis Int_commute distinct_card distinct_filter set_filter Int_def Collect_mem_eq)
  then show ?thesis using sum_length_filter_compl [of "\<lambda>b. b \<in> A" xs] by linarith
qed

lemma pool_alloc_ok:
  assumes env: "env_ok env" and "pool_ok p" and n: "0 \<le> n" "n \<le> get_num_free_blocks p"
  shows "\<exists>bs p'. get_new_blocks env n p = Inr (bs, p') \<and> pool_ok p' \<and> int (length bs) = n \<and> distinct bs
    \<and> (\<forall>b \<in> set bs. pool_block p b \<and> block_refs p b = 0) \<and> pool_block p' = pool_block p
    \<and> (\<forall>b. block_refs p' b = block_refs p b + int (count_list bs b))
    \<and> get_num_free_blocks p' = get_num_free_blocks p - n"
proof -
  obtain xs where inv: "pool_inv p xs" using assms(2) by (auto simp: pool_ok_def)
  have le: "n \<le> int (length xs)" using n(2) pool_inv_num_free [OF inv] by simp
  obtain p' where p': "get_new_blocks env n p = Inr (take (nat n) xs, p')" "pool_inv p' (drop (nat n) xs)"
    "same_static p p'"
    "\<forall>c. block_refs p' c = (if c \<in> set (take (nat n) xs) then 1 else block_refs p c)"
    using get_new_blocks_ok [OF inv env n(1) le] by blast
  have fresh: "\<forall>b \<in> set (take (nat n) xs). pool_block p b \<and> block_refs p b = 0"
    using inv by (auto simp: pool_inv_def dest: in_set_takeD)
  have d: "distinct (take (nat n) xs)" using pool_inv_distinct [OF inv] by simp
  have "block_refs p' b = block_refs p b + int (count_list (take (nat n) xs) b)" for b
    using p'(4) fresh d by (auto simp: count_list_distinct)
  then show ?thesis
    using p' fresh d le n(1) pool_inv_num_free [OF inv] pool_inv_num_free [OF p'(2)]
    by (intro exI [of _ "take (nat n) xs"], intro exI [of _ p'])
      (auto simp: static_pool_block pool_ok_def)
qed

lemma pool_alloc_short:
  "pool_ok p \<Longrightarrow> get_num_free_blocks p < n \<Longrightarrow> get_new_blocks env n p = Inl ValueError"
  by (simp add: get_new_blocks_def)

lemma pool_pin_ok:
  assumes "pool_ok p" and pooled: "\<forall>b \<in> set bs. b = 0 \<or> pool_block p b"
  shows "\<exists>p'. touch bs p = Inr p' \<and> pool_ok p' \<and> pool_block p' = pool_block p
    \<and> (\<forall>b. block_refs p' b = block_refs p b + int (count_list bs b))
    \<and> get_num_free_blocks p' = get_num_free_blocks p
        - int (card {b \<in> set bs. pool_block p b \<and> block_refs p b = 0})"
proof -
  obtain xs where inv: "pool_inv p xs" using assms(1) by (auto simp: pool_ok_def)
  have "\<forall>b \<in> set bs. int b < num_gpu_blocks p" using pooled in_range_or_null [OF assms(1)] by blast
  from touch_ok [OF inv this] obtain p' where p': "touch bs p = Inr p'"
    "pool_inv p' (filter (\<lambda>b. b \<notin> set bs) xs)" "same_static p p'"
    "\<forall>c. block_refs p' c = block_refs p c + int (count_list bs c)" by blast
  have eq: "{b \<in> set bs. pool_block p b \<and> block_refs p b = 0} = set bs \<inter> set xs"
    using inv by (auto simp: pool_inv_def)
  have "get_num_free_blocks p' = get_num_free_blocks p
      - int (card {b \<in> set bs. pool_block p b \<and> block_refs p b = 0})"
    unfolding eq pool_inv_num_free [OF inv] pool_inv_num_free [OF p'(2)]
    by (rule length_filter_notin [OF pool_inv_distinct [OF inv]])
  moreover have "pool_ok p'" using p'(2) unfolding pool_ok_def by blast
  ultimately show ?thesis using p'(1,4) static_pool_block [OF p'(3)] by blast
qed

lemma pool_release_ok:
  assumes "pool_ok p"
    and refs: "\<forall>b \<in> set bs. b = 0 \<or> pool_block p b \<and> int (count_list bs b) \<le> block_refs p b"
  shows "\<exists>p'. free_blocks bs p = Inr p' \<and> pool_ok p' \<and> pool_block p' = pool_block p
    \<and> (\<forall>b. block_refs p' b = block_refs p b - int (count_list bs b))
    \<and> get_num_free_blocks p \<le> get_num_free_blocks p'"
proof -
  obtain xs where inv: "pool_inv p xs" using assms(1) by (auto simp: pool_ok_def)
  have range: "\<forall>b \<in> set bs. int b < num_gpu_blocks p"
    using refs in_range_or_null [OF assms(1)] by fast
  have le: "\<forall>b \<in> set bs. b \<noteq> 0 \<longrightarrow> int (count_list bs b) \<le> block_refs p b"
    using refs by fast
  note run = free_blocks_ok [OF inv le range]
  show ?thesis
  proof (use run in \<open>elim exE conjE\<close>)
    fix p'
    let ?rel = "released (block_refs p) bs" and ?first = "\<lambda>b. hashes_of p b = {} \<or> \<not> enable_caching p"
    assume p': "free_blocks bs p = Inr p'" "same_static p p'"
      "pool_inv p' (filter ?first ?rel @ xs @ filter (\<lambda>b. \<not> ?first b) ?rel)"
      "\<forall>c. block_refs p' c = block_refs p c - int (count_list bs c)"
    have "get_num_free_blocks p \<le> get_num_free_blocks p'"
      unfolding pool_inv_num_free [OF inv] pool_inv_num_free [OF p'(3)] by simp
    moreover have "pool_ok p'" using p'(3) unfolding pool_ok_def by blast
    ultimately show ?thesis using p'(1,4) static_pool_block [OF p'(2)] by blast
  qed
qed

interpretation al: block_allocator env_ok pool_ok block_refs pool_block get_num_free_blocks
  get_new_blocks touch free_blocks
proof unfold_locales
  show "pool_block p b \<Longrightarrow> b \<noteq> 0" for p b by (simp add: pool_block_def)
  show "pool_ok p \<Longrightarrow> pool_block p b \<Longrightarrow> 0 \<le> block_refs p b" for p b
    by (auto simp: pool_ok_def pool_inv_def)
qed (fact pool_alloc_ok pool_alloc_short pool_pin_ok pool_release_ok)+

section \<open>References held by block tables\<close>

text \<open>
  The references of a manager to a block: one for each place in a block table, and one for each
  end of a pending copy.
\<close>

definition table_refs :: "(string, nat list) pydict \<Rightarrow> nat \<Rightarrow> nat" where
  "table_refs d b = sum_list (map (\<lambda>e. count_list (snd e) b) d)"

definition copy_refs :: "(nat \<times> nat) list \<Rightarrow> nat \<Rightarrow> nat" where
  "copy_refs cs b = sum_list (map (\<lambda>(s, d). of_bool (s = b) + of_bool (d = b)) cs)"

definition held :: "manager \<Rightarrow> nat \<Rightarrow> nat" where
  "held m b = table_refs (req_to_blocks m) b + copy_refs (pending_cow_copies m) b"

lemma table_refs_update:
  assumes "dict_wf d"
  shows "table_refs (AList.update r bs d) b + count_list (dict_get d r []) b
    = table_refs d b + count_list bs b"
  using assms
proof (induction d)
  case Nil
  then show ?case by (simp add: table_refs_def dict_get_def)
next
  case (Cons e d)
  then show ?case
    by (cases e) (auto simp: table_refs_def dict_get_def dict_wf_def)
qed

lemma table_refs_delete:
  assumes "dict_wf d"
  shows "table_refs (AList.delete r d) b + count_list (dict_get d r []) b = table_refs d b"
  using assms
proof (induction d)
  case Nil
  then show ?case by (simp add: table_refs_def dict_get_def)
next
  case (Cons e d)
  have wf: "dict_wf d" using Cons.prems by (simp add: dict_wf_def)
  show ?case
  proof (cases "fst e = r")
    case True
    then have "map_of d r = None" using Cons.prems by (simp add: dict_wf_def map_of_eq_None_iff)
    then have "AList.delete r d = d" "dict_get (e # d) r [] = snd e"
      using True by (cases e; simp add: dict_get_def delete_idem map_of_eq_None_iff)+
    then show ?thesis using True by (cases e) (simp add: table_refs_def)
  next
    case False
    then have "dict_get (e # d) r [] = dict_get d r []" by (cases e) (simp add: dict_get_def)
    then show ?thesis using False Cons.IH [OF wf] by (cases e) (simp add: table_refs_def)
  qed
qed

lemma copy_refs_append [simp]:
  "copy_refs (cs @ [(s, d)]) b = copy_refs cs b + of_bool (s = b) + of_bool (d = b)"
  by (simp add: copy_refs_def)

lemma blocks_of_set_blocks [simp]:
  "blocks_of (set_blocks r bs m) r' = (if r' = r then bs else blocks_of m r')"
  by (simp add: blocks_of_def set_blocks_def dict_simps)

lemma set_blocks_fields [simp]:
  "pending_cow_copies (set_blocks r bs m) = pending_cow_copies m"
  "num_cached_block (set_blocks r bs m) = num_cached_block m"
  "partial_hit_reqs (set_blocks r bs m) = partial_hit_reqs m"
  "block_size (set_blocks r bs m) = block_size m"
  "manager_cls (set_blocks r bs m) = manager_cls m"
  "kv_cache_spec (set_blocks r bs m) = kv_cache_spec m"
  "mgr_enable_caching (set_blocks r bs m) = mgr_enable_caching m"
  "allocated_block_reqs (set_blocks r bs m) = allocated_block_reqs m"
  "num_checkpoint_blocks (set_blocks r bs m) = num_checkpoint_blocks m"
  by (simp_all add: set_blocks_def)

lemma record_ids_fields [simp]:
  "req_to_blocks (record_ids bs m) = req_to_blocks m"
  "pending_cow_copies (record_ids bs m) = pending_cow_copies m"
  "num_cached_block (record_ids bs m) = num_cached_block m"
  "partial_hit_reqs (record_ids bs m) = partial_hit_reqs m"
  "block_size (record_ids bs m) = block_size m"
  "manager_cls (record_ids bs m) = manager_cls m"
  "kv_cache_spec (record_ids bs m) = kv_cache_spec m"
  "mgr_enable_caching (record_ids bs m) = mgr_enable_caching m"
  "blocks_of (record_ids bs m) r = blocks_of m r"
  by (simp_all add: record_ids_def blocks_of_def)

lemma held_set_blocks:
  "dict_wf (req_to_blocks m) \<Longrightarrow>
   held (set_blocks r bs m) b + count_list (blocks_of m r) b = held m b + count_list bs b"
  using table_refs_update [of "req_to_blocks m" r bs b]
  by (simp add: held_def set_blocks_def blocks_of_def)

text \<open>
  The accounts of a manager balance: every block in a table is the null block or a block of the
  pool, and a block of the pool has exactly the references of the manager and of the others.
\<close>

definition accounted :: "(nat \<Rightarrow> bool) \<Rightarrow> (nat \<Rightarrow> int) \<Rightarrow> (nat \<Rightarrow> nat) \<Rightarrow> manager \<Rightarrow> bool" where
  "accounted pooled refs others m \<longleftrightarrow>
     dict_wf (req_to_blocks m)
     \<and> (\<forall>r. \<forall>b \<in> set (blocks_of m r). b = 0 \<or> pooled b)
     \<and> (\<forall>b. pooled b \<longrightarrow> refs b = int (held m b) + int (others b))"

lemma accounted_cong:
  "req_to_blocks m' = req_to_blocks m \<Longrightarrow> pending_cow_copies m' = pending_cow_copies m \<Longrightarrow>
   accounted pooled refs others m' = accounted pooled refs others m"
  by (simp add: accounted_def held_def blocks_of_def)

text \<open>What a table holds never exceeds the reference count.\<close>

lemma accounted_count:
  assumes "accounted pooled refs others m" and "pooled b"
  shows "int (count_list (blocks_of m r) b) \<le> refs b"
proof -
  have "count_list (blocks_of m r) b \<le> held m b"
    using held_set_blocks [of m r "[]" b] assms(1) by (simp add: accounted_def)
  then show ?thesis using assms by (auto simp: accounted_def)
qed

lemma accounted_set_blocks:
  assumes acc: "accounted pooled refs others m" and "\<forall>b \<in> set bs. b = 0 \<or> pooled b"
    and "\<And>b. pooled b \<Longrightarrow>
      refs' b + int (count_list (blocks_of m r) b) = refs b + int (count_list bs b)"
  shows "accounted pooled refs' others (set_blocks r bs m)"
proof -
  have wf: "dict_wf (req_to_blocks m)" using acc by (simp add: accounted_def)
  have "refs' b = int (held (set_blocks r bs m) b) + int (others b)" if "pooled b" for b
    using held_set_blocks [OF wf, of r bs b] assms(3) [OF that] acc that
    by (auto simp: accounted_def)
  moreover have "dict_wf (req_to_blocks (set_blocks r bs m))" using wf by (simp add: set_blocks_def)
  ultimately show ?thesis using acc assms(2) by (auto simp: accounted_def)
qed

lemma accounted_open_table [simp]:
  "accounted pooled refs others m \<Longrightarrow> accounted pooled refs others (open_table r m)"
  unfolding open_table_def
  by (rule accounted_set_blocks) (auto simp: accounted_def)

lemma accounted_delete:
  assumes acc: "accounted pooled refs others m"
    and "\<And>b. pooled b \<Longrightarrow> refs' b + int (count_list (blocks_of m r) b) = refs b"
    and m': "req_to_blocks m' = AList.delete r (req_to_blocks m)"
      "pending_cow_copies m' = pending_cow_copies m"
  shows "accounted pooled refs' others m'"
proof -
  have wf: "dict_wf (req_to_blocks m)" using acc by (simp add: accounted_def)
  have held: "held m' b + count_list (blocks_of m r) b = held m b" for b
    using table_refs_delete [OF wf, of r b] by (simp add: held_def m' blocks_of_def)
  have "refs' b = int (held m' b) + int (others b)" if "pooled b" for b
  proof -
    have "refs b = int (held m b) + int (others b)" using acc that by (simp add: accounted_def)
    then show ?thesis using assms(2) [OF that] held [of b] by linarith
  qed
  moreover have "b = 0 \<or> pooled b" if "b \<in> set (blocks_of m' q)" for b q
  proof -
    have "b \<in> set (blocks_of m q)" using that by (simp add: blocks_of_def m' dict_simps split: if_splits)
    then show ?thesis using acc by (simp add: accounted_def)
  qed
  moreover have "dict_wf (req_to_blocks m')" using wf m' by simp
  ultimately show ?thesis unfolding accounted_def by simp
qed

context block_allocator
begin

lemma accounted_alloc:
  assumes run: "alloc e n p = Inr (bs, p')" and "good_env e" and "ok p" and "0 \<le> n"
    and acc: "accounted (pooled p) (refs p) others m"
  shows "accounted (pooled p') (refs p') others (set_blocks r (blocks_of m r @ bs) m)"
proof -
  note d = allocD [OF run assms(2-4)]
  show ?thesis
    unfolding d(5) using acc d(4) by (intro accounted_set_blocks [OF acc]) (auto simp: accounted_def d(6))
qed

lemma accounted_pin:
  assumes run: "pin bs p = Inr p'" and "ok p" and "\<forall>b \<in> set bs. b = 0 \<or> pooled p b"
    and acc: "accounted (pooled p) (refs p) others m" and "blocks_of m r = []"
  shows "ok p'" "accounted (pooled p') (refs p') others (set_blocks r (replicate k 0 @ bs) m)"
proof -
  have p': "ok p'" "pooled p' = pooled p" "\<forall>b. refs p' b = refs p b + int (count_list bs b)"
    using pin_ok [OF assms(2,3)] run by auto
  have "count_list (replicate k 0 @ bs) b = count_list bs b" if "pooled p b" for b
    using pooled_nonzero [OF that] by (simp add: count_list_0_iff)
  then show "accounted (pooled p') (refs p') others (set_blocks r (replicate k 0 @ bs) m)"
    unfolding p'(2) using p'(3) assms(3,5)
    by (intro accounted_set_blocks [OF acc]) auto
  show "ok p'" by (rule p'(1))
qed

text \<open>A table gives blocks back: the release cannot fail and the accounts still balance.\<close>

lemma accounted_release:
  assumes "ok p" and acc: "accounted (pooled p) (refs p) others m"
    and keep: "set bs' \<subseteq> insert 0 (set (blocks_of m r))"
    and split: "\<And>b. b \<noteq> 0 \<Longrightarrow>
      count_list bs' b + count_list freed b = count_list (blocks_of m r) b"
    and freed: "set freed \<subseteq> insert 0 (set (blocks_of m r))"
  shows "\<exists>p'. release freed p = Inr p' \<and> ok p' \<and> num_free p \<le> num_free p'
    \<and> pooled p' = pooled p \<and> (\<forall>b. refs p' b = refs p b - int (count_list freed b))
    \<and> accounted (pooled p') (refs p') others (set_blocks r bs' m)"
proof -
  have in_table: "b = 0 \<or> pooled p b" if "b \<in> set (blocks_of m r)" for b
    using acc that by (auto simp: accounted_def)
  have "b = 0 \<or> pooled p b \<and> int (count_list freed b) \<le> refs p b" if "b \<in> set freed" for b
  proof (cases "b = 0")
    case False
    then have b: "pooled p b" using in_table that freed by auto
    have "count_list freed b \<le> count_list (blocks_of m r) b" using split [OF False] by linarith
    then show ?thesis using accounted_count [OF acc b, of r] b by linarith
  qed simp
  then obtain p' where p': "release freed p = Inr p'" "ok p'" "pooled p' = pooled p"
    "\<forall>b. refs p' b = refs p b - int (count_list freed b)" "num_free p \<le> num_free p'"
    using release_ok [OF assms(1), of freed] by blast
  have "refs p' b + int (count_list (blocks_of m r) b) = refs p b + int (count_list bs' b)"
    if "pooled p b" for b
    using spec [OF p'(4), of b] split [OF pooled_nonzero [OF that]] by linarith
  then have "accounted (pooled p') (refs p') others (set_blocks r bs' m)"
    unfolding p'(3) using keep in_table by (intro accounted_set_blocks [OF acc]) auto
  then show ?thesis using p' by blast
qed

end

section \<open>Every operation keeps the accounts\<close>

definition mgr_inv :: "(nat \<Rightarrow> nat) \<Rightarrow> manager \<Rightarrow> block_pool \<Rightarrow> bool" where
  "mgr_inv others m p \<longleftrightarrow> pool_ok p \<and> accounted (pool_block p) (block_refs p) others m"

named_theorems mgr_simps "fields that the table operations of a manager leave alone"

lemma mgr_inv_pool: "mgr_inv others m p \<Longrightarrow> pool_ok p"
  by (simp add: mgr_inv_def)

lemma mgr_inv_cong:
  "mgr_inv others m p \<Longrightarrow> req_to_blocks m' = req_to_blocks m \<Longrightarrow>
   pending_cow_copies m' = pending_cow_copies m \<Longrightarrow> mgr_inv others m' p"
  using accounted_cong [of m' m] by (simp add: mgr_inv_def)

lemma mgr_inv_in_table:
  "mgr_inv others m p \<Longrightarrow> b \<in> set (blocks_of m r) \<Longrightarrow> b = 0 \<or> pool_block p b"
  by (simp add: mgr_inv_def accounted_def)

lemma mgr_inv_open_table: "mgr_inv others m p \<Longrightarrow> mgr_inv others (open_table r m) p"
  by (simp add: mgr_inv_def)

lemma mgr_inv_same_blocks:
  assumes "mgr_inv others m p" and "cache_inv p'" and "same_blocks p p'"
  shows "mgr_inv others m p'"
proof -
  have "pool_block p' = pool_block p" "block_refs p' = block_refs p"
    using assms(3) static_pool_block same_blocks_static by (auto simp: same_blocks_def)
  then show ?thesis using assms pool_ok_same_blocks by (auto simp: mgr_inv_def)
qed

text \<open>A new block in the table of a request, or none.\<close>

lemma extend_table_ok:
  assumes run: "extend_table env r n m p = Inr (new, m', p')" and env: "env_ok env" and n: "0 \<le> n"
    and inv: "mgr_inv others m p"
  shows "mgr_inv others m' p' \<and> blocks_of m' r = blocks_of m r @ new \<and> int (length new) = n
    \<and> (\<forall>q. q \<noteq> r \<longrightarrow> blocks_of m' q = blocks_of m q)
    \<and> (\<forall>b \<in> set new. pool_block p b \<and> block_refs p b = 0 \<and> block_refs p' b = 1)
    \<and> num_cached_block m' = num_cached_block m \<and> partial_hit_reqs m' = partial_hit_reqs m
    \<and> block_size m' = block_size m \<and> manager_cls m' = manager_cls m
    \<and> kv_cache_spec m' = kv_cache_spec m \<and> get_num_free_blocks p' = get_num_free_blocks p - n"
proof -
  obtain p1 where alloc: "get_new_blocks env n p = Inr (new, p1)" and p': "p' = p1"
    and m': "m' = record_ids new (set_blocks r (blocks_of m r @ new) m)"
    using run by (auto simp: extend_table_def res_simps)
  have acc: "accounted (pool_block p) (block_refs p) others m" and ok: "pool_ok p"
    using inv by (simp_all add: mgr_inv_def)
  note d = al.allocD [OF alloc env ok n]
  have "accounted (pool_block p1) (block_refs p1) others (set_blocks r (blocks_of m r @ new) m)"
    by (rule al.accounted_alloc [OF alloc env ok n acc])
  then have "mgr_inv others m' p'"
    using d(1) accounted_cong [of m' "set_blocks r (blocks_of m r @ new) m"]
    by (simp add: mgr_inv_def m' p')
  moreover have "block_refs p' b = 1" if "b \<in> set new" for b
    using d(3,4) d(6) [of b] that by (simp add: p' count_list_distinct)
  ultimately show ?thesis using d by (simp add: m' p')
qed

lemma pool_ok_add_ref:
  assumes ok: "pool_ok p" and b: "b = 0 \<or> 0 < block_refs p b"
  shows "pool_ok (upd_block b (ref_cnt_update (\<lambda>c. c + 1)) p)"
proof -
  obtain xs where inv: "pool_inv p xs" using ok by (auto simp: pool_ok_def)
  have "pool_block (upd_block b (ref_cnt_update (\<lambda>c. c + 1)) p) c = pool_block p c" for c
    by (simp add: pool_block_def)
  moreover have "{c. pool_block p c \<and> block_refs (upd_block b (ref_cnt_update (\<lambda>c. c + 1)) p) c = 0}
      = {c. pool_block p c \<and> block_refs p c = 0}"
    using b al.refs_nonneg [OF ok] by (auto simp: pool_block_def split: if_splits)
  ultimately have "pool_inv (upd_block b (ref_cnt_update (\<lambda>c. c + 1)) p) xs"
    using inv al.refs_nonneg [OF ok] by (simp add: pool_inv_def)
  then show ?thesis unfolding pool_ok_def by blast
qed

lemma pool_block_upd [simp]: "pool_block (upd_block b g p) = pool_block p"
  by (simp add: pool_block_def fun_eq_iff)

text \<open>Replacing one place of a list moves one count.\<close>

lemma py_index_pos:
  assumes "py_index xs i = Inr x"
  obtains k where "k < length xs" "x = xs ! k" "\<And>y. py_set xs i y = Inr (xs[k := y])"
    "0 \<le> i \<Longrightarrow> i = int k"
proof -
  define j where "j = (if i < 0 then i + int (length xs) else i)"
  have j: "0 \<le> j" "j < int (length xs)" "x = xs ! nat j"
    using assms by (auto simp: py_index_def j_def Let_def split: if_splits)
  then have "py_set xs i y = Inr (xs[nat j := y])" for y
    unfolding py_set_def j_def [symmetric] by simp
  then show thesis using j that [of "nat j"] by (auto simp: j_def)
qed

lemma count_list_update:
  "k < length xs \<Longrightarrow>
   count_list (xs[k := x]) b + of_bool (xs ! k = b) = count_list xs b + of_bool (x = b)"
proof (induction xs arbitrary: k)
  case (Cons y ys)
  show ?case
  proof (cases k)
    case (Suc j)
    then show ?thesis using Cons.IH [of j] Cons.prems by simp
  qed simp
qed simp

text \<open>
  The pool has handed out \<open>cow\<close>, which no table holds yet; then the accounts balance without
  that reference.
\<close>

definition one_loose :: "(nat \<Rightarrow> nat) \<Rightarrow> nat \<Rightarrow> manager \<Rightarrow> block_pool \<Rightarrow> bool" where
  "one_loose others cow m p \<longleftrightarrow>
     pool_ok p \<and> pool_block p cow \<and> block_refs p cow = 1
     \<and> accounted (pool_block p) (\<lambda>b. block_refs p b - of_bool (b = cow)) others m"

lemma one_loose_cong:
  "req_to_blocks m' = req_to_blocks m \<Longrightarrow> pending_cow_copies m' = pending_cow_copies m \<Longrightarrow>
   one_loose others cow m' p = one_loose others cow m p"
  using accounted_cong [of m' m] by (simp add: one_loose_def)

lemma apply_cow_ok:
  assumes run: "apply_cow r idx src cow m p = Inr (m', p')" and loose: "one_loose others cow m p"
  obtains k where "mgr_inv others m' p'" "k < length (blocks_of m r)" "blocks_of m r ! k = src"
    "0 \<le> idx \<Longrightarrow> idx = int k" "src \<noteq> 0"
    "m' = (set_blocks r ((blocks_of m r)[k := cow]) m)
        \<lparr>pending_cow_copies := pending_cow_copies m @ [(src, cow)]\<rparr>"
    "p' = upd_block cow (ref_cnt_update (\<lambda>c. c + 1)) p"
proof -
  let ?bs = "blocks_of m r"
  have ok: "pool_ok p" and cow: "pool_block p cow" "block_refs p cow = 1"
    and acc: "accounted (pool_block p) (\<lambda>b. block_refs p b - of_bool (b = cow)) others m"
    using loose by (simp_all add: one_loose_def)
  obtain bs' where s: "py_index ?bs idx = Inr src" "\<not> is_null (blk p src)" "py_set ?bs idx cow = Inr bs'"
    "m' = (set_blocks r bs' m)\<lparr>pending_cow_copies := pending_cow_copies m @ [(src, cow)]\<rparr>"
    "p' = upd_block cow (ref_cnt_update (\<lambda>c. c + 1)) p"
    using run by (auto simp: apply_cow_def Let_def res_simps split: if_splits)
  obtain k where k: "k < length ?bs" "src = ?bs ! k" "\<And>y. py_set ?bs idx y = Inr (?bs[k := y])"
    "0 \<le> idx \<Longrightarrow> idx = int k"
    using py_index_pos [OF s(1)] by blast
  have bs': "bs' = ?bs[k := cow]" using s(3) k(3) by simp
  have wf: "dict_wf (req_to_blocks m)" using acc by (simp add: accounted_def)
  have "block_refs p' b = int (held m' b) + int (others b)" if "pool_block p b" for b
  proof -
    have "held m' b = held (set_blocks r bs' m) b + of_bool (src = b) + of_bool (cow = b)"
      by (simp add: s(4) held_def set_blocks_def)
    moreover have "block_refs p b - of_bool (b = cow) = int (held m b) + int (others b)"
      using acc that by (simp add: accounted_def)
    moreover have "block_refs p' b = block_refs p b + of_bool (b = cow)" by (simp add: s(5))
    ultimately show ?thesis
      using held_set_blocks [OF wf, of r bs' b] count_list_update [OF k(1), of cow b]
      unfolding bs' k(2) [symmetric] by (cases "b = cow"; cases "src = b") simp_all
  qed
  moreover have "dict_wf (req_to_blocks m')" using wf by (simp add: s(4) set_blocks_def)
  moreover have "b = 0 \<or> pool_block p b" if "b \<in> set (blocks_of m' q)" for b q
  proof -
    have "blocks_of m' q = (if q = r then bs' else blocks_of m q)"
      using blocks_of_set_blocks [of r bs' m q] by (simp add: s(4) blocks_of_def)
    then have "b \<in> set (blocks_of m q) \<or> b = cow"
      using that set_update_subset_insert [of ?bs k cow] by (auto simp: bs' split: if_splits)
    then show ?thesis using acc cow(1) by (auto simp: accounted_def)
  qed
  ultimately have "accounted (pool_block p') (block_refs p') others m'"
    by (simp add: accounted_def s(5))
  moreover have "pool_ok p'" unfolding s(5) by (rule pool_ok_add_ref [OF ok]) (simp add: cow)
  moreover have "src \<noteq> 0" using s(2) pool_ok_is_null [OF ok] by simp
  ultimately show thesis
    using s(4,5) unfolding bs'
    by (intro that [of k] k(1) k(2) [symmetric] k(4)) (simp_all add: mgr_inv_def)
qed

lemma alloc_one_loose:
  assumes run: "get_new_blocks env 1 p = Inr (new, p')" and env: "env_ok env"
    and inv: "mgr_inv others m p"
  obtains cow where "new = [cow]" "one_loose others cow m p'" "block_refs p cow = 0"
    "get_num_free_blocks p' = get_num_free_blocks p - 1" "pool_block p' = pool_block p"
proof -
  have acc: "accounted (pool_block p) (block_refs p) others m" and ok: "pool_ok p"
    using inv by (simp_all add: mgr_inv_def)
  note d = al.allocD [OF run env ok]
  obtain cow where new: "new = [cow]"
    using d(2) by (cases new) auto
  have "(\<lambda>b. block_refs p' b - of_bool (b = cow)) = block_refs p"
    using d(6) by (auto simp: fun_eq_iff new)
  moreover have "block_refs p cow = 0" "pool_block p cow" using d(4) by (simp_all add: new)
  ultimately show thesis
    using that [OF new] d acc d(6) [of cow] by (simp add: one_loose_def new)
qed

text \<open>The redirection of a partial hit.\<close>

lemma redirect_partial_hit_ok:
  assumes run: "redirect_partial_hit env r m p = Inr (new, m', p')" and env: "env_ok env"
    and inv: "mgr_inv others m p"
  shows "mgr_inv others m' p' \<and> length (blocks_of m' r) = length (blocks_of m r)
    \<and> (\<forall>q. q \<noteq> r \<longrightarrow> blocks_of m' q = blocks_of m q)
    \<and> num_cached_block m' = num_cached_block m
    \<and> partial_hit_reqs m' = AList.delete r (partial_hit_reqs m)
    \<and> block_size m' = block_size m \<and> manager_cls m' = manager_cls m
    \<and> kv_cache_spec m' = kv_cache_spec m
    \<and> get_num_free_blocks p' =
        get_num_free_blocks p - (if map_of (partial_hit_reqs m) r = None then 0 else 1)
    \<and> (map_of (partial_hit_reqs m) r = None \<longrightarrow> blocks_of m' r = blocks_of m r)"
proof (cases "map_of (partial_hit_reqs m) r")
  case None
  then have "AList.delete r (partial_hit_reqs m) = partial_hit_reqs m"
    by (simp add: delete_idem map_of_eq_None_iff)
  then show ?thesis using run inv None by (simp add: redirect_partial_hit_def)
next
  case (Some h)
  obtain idx src where h: "h = (idx, src)" by (cases h)
  define m1 where "m1 = m\<lparr>partial_hit_reqs := AList.delete r (partial_hit_reqs m)\<rparr>"
  obtain nb p1 cow m2 where s: "get_new_blocks env 1 p = Inr (nb, p1)" "py_index nb 0 = Inr cow"
    "apply_cow r idx src cow m1 p1 = Inr (m2, p')" "m' = m2\<lparr>new_block_ids := new_block_ids m2 @ [cow]\<rparr>"
    using run Some unfolding redirect_partial_hit_def m1_def h by (auto simp: res_simps Let_def)
  obtain c where c: "nb = [c]" "one_loose others c m p1"
    "get_num_free_blocks p1 = get_num_free_blocks p - 1" "pool_block p1 = pool_block p"
    using alloc_one_loose [OF s(1) env inv] by blast
  have "one_loose others cow m1 p1"
    using c s(2) one_loose_cong [of m1 m] by (simp add: m1_def py_index_def)
  from apply_cow_ok [OF s(3) this] obtain k where a: "mgr_inv others m2 p'"
    "m2 = (set_blocks r ((blocks_of m1 r)[k := cow]) m1)
        \<lparr>pending_cow_copies := pending_cow_copies m1 @ [(src, cow)]\<rparr>"
    "p' = upd_block cow (ref_cnt_update (\<lambda>c. c + 1)) p1" by metis
  have tables: "blocks_of m' q = blocks_of (set_blocks r ((blocks_of m1 r)[k := cow]) m1) q" for q
    by (simp add: s(4) a(2) blocks_of_def)
  have "blocks_of m1 q = blocks_of m q" for q by (simp add: m1_def blocks_of_def)
  moreover have "get_num_free_blocks p' = get_num_free_blocks p - 1"
    using c(3) by (simp add: a(3) get_num_free_blocks_def)
  moreover have "mgr_inv others m' p'" using mgr_inv_cong [OF a(1), of m'] s(4) by simp
  ultimately show ?thesis
    using Some by (simp add: tables) (simp add: s(4) a(2) m1_def)
qed

text \<open>Allocation up to a number of tokens.\<close>

lemma open_table_fields [simp]:
  "blocks_of (open_table r m) q = blocks_of m q"
  "num_cached_block (open_table r m) = num_cached_block m"
  "partial_hit_reqs (open_table r m) = partial_hit_reqs m"
  "pending_cow_copies (open_table r m) = pending_cow_copies m"
  "block_size (open_table r m) = block_size m"
  "manager_cls (open_table r m) = manager_cls m"
  "kv_cache_spec (open_table r m) = kv_cache_spec m"
  "allocated_block_reqs (open_table r m) = allocated_block_reqs m"
  "num_checkpoint_blocks (open_table r m) = num_checkpoint_blocks m"
  by (simp_all add: open_table_def)

lemma base_allocate_new_blocks_ok:
  assumes run: "base_allocate_new_blocks cdiv env r ntok m p = Inr (new, m', p')"
    and env: "env_ok env" and inv: "mgr_inv others m p"
  shows "mgr_inv others m' p'
    \<and> int (length (blocks_of m' r)) = max (int (length (blocks_of m r))) (cdiv ntok (block_size m))
    \<and> (\<forall>q. q \<noteq> r \<longrightarrow> blocks_of m' q = blocks_of m q)
    \<and> num_cached_block m' = num_cached_block m \<and> map_of (partial_hit_reqs m') r = None
    \<and> block_size m' = block_size m \<and> manager_cls m' = manager_cls m
    \<and> (map_of (partial_hit_reqs m) r = None \<longrightarrow> blocks_of m' r = blocks_of m r @ new
        \<and> (\<forall>b \<in> set new. pool_block p b \<and> block_refs p b = 0 \<and> block_refs p' b = 1))"
proof -
  obtain cow m1 p1 where s: "redirect_partial_hit env r m p = Inr (cow, m1, p1)"
    using run by (auto simp: base_allocate_new_blocks_def res_simps)
  note d = redirect_partial_hit_ok [OF s env inv]
  have gone: "map_of (partial_hit_reqs m1) r = None" using d by (simp add: dict_simps)
  have none: "cow = [] \<and> m1 = m \<and> p1 = p" if "map_of (partial_hit_reqs m) r = None"
    using s that by (simp add: redirect_partial_hit_def)
  let ?n = "cdiv ntok (block_size m1) - int (length (blocks_of m1 r))"
  show ?thesis
  proof (cases "?n \<le> 0")
    case True
    then have "m' = open_table r m1" "p' = p1" "new = cow"
      using run s by (simp_all add: base_allocate_new_blocks_def Let_def)
    then show ?thesis
      using d gone none mgr_inv_open_table [of others m1 p1 r] True by (auto simp: max_def)
  next
    case False
    then obtain ext where e: "extend_table env r ?n m1 p1 = Inr (ext, m', p')" "new = cow @ ext"
      using run s by (auto simp: base_allocate_new_blocks_def Let_def res_simps)
    have "0 \<le> ?n" using False by simp
    from extend_table_ok [OF e(1) env this conjunct1 [OF d]]
    show ?thesis using d gone none e(2) False by (auto simp: max_def)
  qed
qed

lemma kpool_allocate_ok:
  assumes run: "kpool_allocate env r m p = Inr (new, m', p')"
    and env: "env_ok env" and inv: "mgr_inv others m p"
  shows "mgr_inv others m' p' \<and> length (blocks_of m' r) = max 1 (length (blocks_of m r))
    \<and> blocks_of m' r = blocks_of m r @ new \<and> (\<forall>q. q \<noteq> r \<longrightarrow> blocks_of m' q = blocks_of m q)"
proof (cases "length (blocks_of m r) \<ge> 1")
  case True
  then have "m' = open_table r m" "p' = p" "new = []" using run by (simp_all add: kpool_allocate_def)
  then show ?thesis using inv True mgr_inv_open_table [of others m p r] by auto
next
  case False
  then have "extend_table env r 1 m p = Inr (new, m', p')" using run by (simp add: kpool_allocate_def)
  from extend_table_ok [OF this env _ inv] show ?thesis
    using False by (cases "blocks_of m r") auto
qed

text \<open>Prefix-cache hits: the caller passes blocks of the pool.\<close>

lemma base_add_local_ok:
  assumes run: "base_add_local_computed_blocks r new_computed num_local num_external m p = Inr (m', p')"
    and inv: "mgr_inv others m p" and blocks: "\<forall>b \<in> set new_computed. int b < num_gpu_blocks p"
  defines "nskip \<equiv> nat (get_num_skipped_tokens m (num_local + num_external) div block_size m)"
  defines "kept \<equiv> drop nskip new_computed"
  shows "mgr_inv others m' p' \<and> blocks_of m' r = replicate nskip 0 @ kept
    \<and> (\<forall>q. q \<noteq> r \<longrightarrow> blocks_of m' q = blocks_of m q)
    \<and> block_size m' = block_size m \<and> manager_cls m' = manager_cls m \<and> kv_cache_spec m' = kv_cache_spec m
    \<and> (mgr_enable_caching m \<longrightarrow> touch kept p = Inr p') \<and> (\<not> mgr_enable_caching m \<longrightarrow> p' = p)
    \<and> map_of (num_cached_block m') r = Some (if has_partial_local_hit m kept num_local
        then num_local div block_size m else int (length (blocks_of m' r)))
    \<and> partial_hit_reqs m' = (if has_partial_local_hit m kept num_local
        then AList.update r (num_local div block_size m, last kept) (partial_hit_reqs m)
        else partial_hit_reqs m)"
proof -
  let ?k = "get_num_skipped_tokens m (num_local + num_external) div block_size m"
  have ok: "pool_ok p" and acc: "accounted (pool_block p) (block_refs p) others m"
    using inv by (simp_all add: mgr_inv_def)
  have kept: "(if ?k > 0 then drop (nat ?k) new_computed else new_computed) = kept"
    by (simp add: kept_def nskip_def)
  have null: "null_block p = 0" by (rule pool_ok_null [OF ok])
  have e: "blocks_of m r = []"
    using run by (simp add: base_add_local_computed_blocks_def split: if_splits)
  have touched: "(if mgr_enable_caching m then touch kept p
      else if kept \<noteq> [] then Inl AssertionError else Inr p) = Inr p'"
    and m': "m' = enter_hit r kept (replicate nskip 0 @ kept) num_local m"
    using run e unfolding base_add_local_computed_blocks_def Let_def
    unfolding kept null unfolding nskip_def [symmetric]
    by (auto simp: res_simps split: if_splits)
  have "\<forall>b \<in> set kept. int b < num_gpu_blocks p" using blocks by (auto simp: kept_def dest: in_set_dropD)
  then have in_pool: "\<forall>b \<in> set kept. b = 0 \<or> pool_block p b" using in_range_or_null [OF ok] by blast
  have "mgr_inv others (set_blocks r (replicate nskip 0 @ kept) m) p'"
  proof (cases "mgr_enable_caching m")
    case True
    then have "touch kept p = Inr p'" using touched by simp
    from al.accounted_pin [OF this ok in_pool acc e] show ?thesis by (simp add: mgr_inv_def)
  next
    case False
    then have "kept = []" "p' = p" using touched by (auto split: if_splits)
    have "touch [] p = Inr p" by (simp add: touch_def)
    have "pool_ok p" "accounted (pool_block p) (block_refs p) others (set_blocks r (replicate nskip 0 @ []) m)"
      using al.accounted_pin [OF \<open>touch [] p = Inr p\<close> ok _ acc e] by simp_all
    then
    show ?thesis by (simp add: mgr_inv_def \<open>kept = []\<close> \<open>p' = p\<close>)
  qed
  then have "mgr_inv others m' p'" by (rule mgr_inv_cong) (simp_all add: m' enter_hit_def Let_def)
  moreover have "blocks_of m' q = blocks_of (set_blocks r (replicate nskip 0 @ kept) m) q" for q
    by (simp add: m' enter_hit_def Let_def blocks_of_def)
  ultimately show ?thesis
    using touched by (auto simp: m' enter_hit_def Let_def dict_simps split: if_splits)
qed

lemma base_external_ok:
  assumes run: "base_allocate_external_computed_blocks cdiv env r num_local num_external m p = Inr (m', p')"
    and env: "env_ok env" and inv: "mgr_inv others m p"
    and fits: "int (length (blocks_of m r)) \<le> cdiv (num_local + num_external) (block_size m)"
  shows "mgr_inv others m' p' \<and> (\<forall>q. q \<noteq> r \<longrightarrow> blocks_of m' q = blocks_of m q)
    \<and> block_size m' = block_size m \<and> manager_cls m' = manager_cls m
    \<and> num_cached_block m' = num_cached_block m \<and> partial_hit_reqs m' = partial_hit_reqs m
    \<and> (m' = m \<and> p' = p \<or> (\<exists>new. blocks_of m' r = blocks_of m r @ new
         \<and> int (length (blocks_of m' r)) = cdiv (num_local + num_external) (block_size m)))"
proof -
  let ?n = "cdiv (num_local + num_external) (block_size m) - int (length (blocks_of m r))"
  consider "m' = m" "p' = p" | new where "extend_table env r ?n m p = Inr (new, m', p')"
    using run by (auto simp: base_allocate_external_computed_blocks_def Let_def res_simps split: if_splits)
  then show ?thesis
  proof cases
    case 1
    then show ?thesis using inv by simp
  next
    case (2 new)
    have "0 \<le> ?n" using fits by simp
    from extend_table_ok [OF 2 env this inv] show ?thesis by auto
  qed
qed

text \<open>Align mode: the reused speculative blocks keep their counts, the padding is null.\<close>

lemma reuse_speculative_blocks_ok:
  assumes "reuse_speculative_blocks 0 n js bs = Inr bs'" and "\<forall>i \<in> set js. 0 \<le> i"
  shows "length bs \<le> length bs' \<and> set bs' \<subseteq> insert 0 (set bs)
    \<and> (\<forall>b. b \<noteq> 0 \<longrightarrow> count_list bs' b = count_list bs b)"
  using assms
proof (induction js arbitrary: bs)
  case Nil
  then show ?case by auto
next
  case (Cons i js)
  show ?case
  proof (cases "i < n")
    case False
    then show ?thesis using Cons.prems by auto
  next
    case True
    obtain b bs1 where s: "py_index bs i = Inr b" "py_set (bs @ [b]) i 0 = Inr bs1"
      "reuse_speculative_blocks 0 n js bs1 = Inr bs'"
      using Cons.prems(1) True by (auto simp: res_simps)
    obtain k where k: "k < length bs" "b = bs ! k" "i = int k"
      using py_index_pos [OF s(1)] Cons.prems(2) by auto
    then have bs1: "bs1 = (bs @ [b])[k := 0]"
      using s(2) by (simp add: py_set_def)
    have "count_list bs1 c = count_list bs c" if "c \<noteq> 0" for c
      using count_list_update [of k "bs @ [b]" 0 c] k that
      by (simp add: bs1 nth_append split: if_splits)
    moreover have "set bs1 \<subseteq> insert 0 (set bs)"
      using set_update_subset_insert [of "bs @ [b]" k 0] k by (auto simp: bs1)
    moreover have "length bs1 = Suc (length bs)" by (simp add: bs1)
    ultimately show ?thesis using Cons.IH [OF s(3)] Cons.prems(2) by auto
  qed
qed

lemma mamba_prepare_table_ok:
  assumes run: "mamba_prepare_table 0 num_skipped checkpoint spec_blocks allocated bs = Inr bs'"
    and "allocated \<Longrightarrow> spec_blocks \<le> int (length bs)"
  shows "length bs \<le> length bs' \<and> set bs' \<subseteq> insert 0 (set bs)
    \<and> (\<forall>b. b \<noteq> 0 \<longrightarrow> count_list bs' b = count_list bs b)"
proof -
  define padded where "padded = (if int (length bs) < num_skipped
    then bs @ replicate (nat (num_skipped - checkpoint - int (length bs))) 0 else bs)"
  have pad: "length bs \<le> length padded" "set padded \<subseteq> insert 0 (set bs)"
    "\<forall>b. b \<noteq> 0 \<longrightarrow> count_list padded b = count_list bs b"
    by (auto simp: padded_def count_list_0_iff)
  show ?thesis
  proof (cases allocated)
    case True
    have js: "\<forall>i \<in> set [int (length bs) - spec_blocks..int (length bs) - 1]. 0 \<le> i"
      using assms(2) [OF True] by auto
    have "reuse_speculative_blocks 0 num_skipped
        [int (length bs) - spec_blocks..int (length bs) - 1] padded = Inr bs'"
      using run True by (simp add: mamba_prepare_table_def padded_def Let_def)
    from reuse_speculative_blocks_ok [OF this js] pad show ?thesis by auto
  next
    case False
    then have "bs' = padded" using run by (simp add: mamba_prepare_table_def padded_def Let_def)
    then show ?thesis using pad by simp
  qed
qed

lemma move_block_hashes_target:
  assumes "move_block_hashes env src dst p = Inr p'" and "pool_ok p"
  shows "hashes_of p dst = {}"
  using assms by (auto simp: move_block_hashes_def hashes_of_def dict_get_def split: if_splits)

lemma mamba_cow_ok:
  assumes run: "mamba_cow env r idx src cow m p = Inr (front, m', p')" and env: "env_ok env"
    and loose: "one_loose others cow m p"
  shows "mgr_inv others m' p' \<and> length (blocks_of m' r) = length (blocks_of m r)
    \<and> (\<forall>q. q \<noteq> r \<longrightarrow> blocks_of m' q = blocks_of m q)
    \<and> block_size m' = block_size m \<and> manager_cls m' = manager_cls m
    \<and> kv_cache_spec m' = kv_cache_spec m \<and> num_cached_block m' = num_cached_block m
    \<and> allocated_block_reqs m' = allocated_block_reqs m
    \<and> partial_hit_reqs m' = partial_hit_reqs m \<and> pool_block p' = pool_block p
    \<and> num_checkpoint_blocks m' = num_checkpoint_blocks m"
proof (cases "r \<in> allocated_block_reqs m")
  case False
  then obtain c where a: "apply_cow r idx src cow m p = Inr (m', p')"
    using run by (auto simp: mamba_cow_def res_simps)
  from apply_cow_ok [OF a loose] obtain k where "mgr_inv others m' p'"
    "m' = (set_blocks r ((blocks_of m r)[k := cow]) m)
        \<lparr>pending_cow_copies := pending_cow_copies m @ [(src, cow)]\<rparr>"
    "p' = upd_block cow (ref_cnt_update (\<lambda>c. c + 1)) p" by metis
  moreover have "blocks_of (x\<lparr>pending_cow_copies := cs\<rparr>) q = blocks_of x q" for x :: manager and cs q
    by (simp add: blocks_of_def)
  ultimately show ?thesis by simp
next
  case True
  have ok: "pool_ok p" and cow: "pool_block p cow" "block_refs p cow = 1"
    and acc: "accounted (pool_block p) (\<lambda>b. block_refs p b - of_bool (b = cow)) others m"
    using loose by (simp_all add: one_loose_def)
  obtain p1 where s: "py_index (blocks_of m r) idx = Inr src" "move_block_hashes env src cow p = Inr p1"
    "p' = upd_block src (ref_cnt_update (\<lambda>c. c + 1)) p1" "req_to_blocks m' = req_to_blocks m"
    "pending_cow_copies m' = pending_cow_copies m @ [(src, cow)]"
    "block_size m' = block_size m" "manager_cls m' = manager_cls m" "kv_cache_spec m' = kv_cache_spec m"
    "num_cached_block m' = num_cached_block m" "allocated_block_reqs m' = allocated_block_reqs m"
    "partial_hit_reqs m' = partial_hit_reqs m" "num_checkpoint_blocks m' = num_checkpoint_blocks m"
    using run True
    by (auto simp: mamba_cow_def Let_def res_simps split: if_splits option.splits)
  obtain k where k: "k < length (blocks_of m r)" "src = blocks_of m r ! k"
    using py_index_pos [OF s(1)] by metis
  then have mem: "src \<in> set (blocks_of m r)" by simp
  have "1 \<le> count_list (blocks_of m r) src"
    using mem by (metis One_nat_def Suc_leI count_list_0_iff gr0I)
  then have src: "src = 0 \<or> src \<noteq> cow \<and> 0 < block_refs p src"
  proof (cases "src = 0")
    case False
    then have "pool_block p src" using acc mem by (auto simp: accounted_def)
    from accounted_count [OF acc this, of r] \<open>1 \<le> count_list (blocks_of m r) src\<close>
    have "1 \<le> block_refs p src - of_bool (src = cow)" by linarith
    then show ?thesis using cow(2) by (cases "src = cow") simp_all
  qed simp
  have "src \<noteq> cow" using src cow(1) by (auto simp: pool_block_def)
  from move_block_hashes_ok [OF pool_ok_cache [OF ok] env cow(1) this move_block_hashes_target [OF s(2) ok]] s(2)
  have p1: "cache_inv p1" "same_blocks p p1" by auto
  have refs: "block_refs p1 b = block_refs p b" and blk: "pool_block p1 = pool_block p" for b
    using p1(2) static_pool_block by (auto simp: same_blocks_def)
  have "pool_ok p'"
    unfolding s(3) using src by (intro pool_ok_add_ref pool_ok_same_blocks [OF ok p1]) (auto simp: refs)
  moreover have "block_refs p' b = int (held m' b) + int (others b)" if "pool_block p b" for b
  proof -
    have "held m' b = held m b + of_bool (src = b) + of_bool (cow = b)"
      by (simp add: held_def s(4,5))
    moreover have "block_refs p b - of_bool (b = cow) = int (held m b) + int (others b)"
      using acc that by (simp add: accounted_def)
    moreover have "block_refs p' b = block_refs p b + of_bool (b = src)" by (simp add: s(3) refs)
    ultimately show ?thesis by (cases "b = cow"; cases "b = src") simp_all
  qed
  then have "accounted (pool_block p') (block_refs p') others m'"
    using acc by (simp add: accounted_def s(3,4) blk blocks_of_def)
  ultimately show ?thesis using s(3,4,6-) blk by (simp add: mgr_inv_def blocks_of_def)
qed

text \<open>
  A running mamba request has its speculative blocks in its table; the numbers of speculative
  and of checkpoint blocks are not negative.
\<close>

definition spec_blocks_kept :: "manager \<Rightarrow> bool" where
  "spec_blocks_kept m \<longleftrightarrow>
     0 \<le> sp_num_speculative_blocks (kv_cache_spec m)
     \<and> (\<forall>r. 0 \<le> dict_get (num_checkpoint_blocks m) r 0)
     \<and> (\<forall>r \<in> allocated_block_reqs m.
          sp_num_speculative_blocks (kv_cache_spec m) \<le> int (length (blocks_of m r)))"

lemma length_takeWhile_upto:
  "length (takeWhile (\<lambda>i. i < n) [a..b]) = nat (min (b + 1) n - a)"
  by (induction a b rule: upto.induct) (subst upto.simps, auto simp: min_def)

lemma reuse_speculative_blocks_length:
  "reuse_speculative_blocks null n js bs = Inr bs' \<Longrightarrow>
   length bs' = length bs + length (takeWhile (\<lambda>i. i < n) js)"
proof (induction js arbitrary: bs)
  case (Cons i js)
  show ?case
  proof (cases "i < n")
    case True
    then obtain b bs1 where s: "py_set (bs @ [b]) i null = Inr bs1"
      "reuse_speculative_blocks null n js bs1 = Inr bs'"
      using Cons.prems by (auto simp: res_simps)
    have "length bs1 = Suc (length bs)" using s(1) by (auto simp: py_set_def Let_def split: if_splits)
    then show ?thesis using Cons.IH [OF s(2)] True by simp
  qed (use Cons.prems in auto)
qed simp

lemma mamba_prepare_table_length:
  assumes run: "mamba_prepare_table null num_skipped checkpoint spec_blocks allocated bs = Inr bs'"
    and "0 \<le> spec_blocks" and "0 \<le> checkpoint"
  shows "int (length bs') \<le> max (int (length bs)) (num_skipped + spec_blocks)"
proof -
  define padded where "padded = (if int (length bs) < num_skipped
    then bs @ replicate (nat (num_skipped - checkpoint - int (length bs))) null else bs)"
  have pad: "int (length padded) \<le> max (int (length bs)) num_skipped"
    using assms(3) by (auto simp: padded_def)
  show ?thesis
  proof (cases allocated)
    case True
    then have "reuse_speculative_blocks null num_skipped
        [int (length bs) - spec_blocks..int (length bs) - 1] padded = Inr bs'"
      using run by (simp add: mamba_prepare_table_def padded_def Let_def)
    from reuse_speculative_blocks_length [OF this] show ?thesis
      using pad assms(2) unfolding length_takeWhile_upto
      by (cases "int (length bs) < num_skipped") (auto simp: padded_def min_def split: if_splits)
  next
    case False
    then have "bs' = padded" using run by (simp add: mamba_prepare_table_def padded_def Let_def)
    then show ?thesis using pad assms(2) by auto
  qed
qed

lemma accounted_prepared:
  assumes inv: "mgr_inv others m p" and prep: "set bs \<subseteq> insert 0 (set (blocks_of m r))"
    "\<forall>b. b \<noteq> 0 \<longrightarrow> count_list bs b = count_list (blocks_of m r) b"
  shows "mgr_inv others (set_blocks r bs m) p"
proof -
  have acc: "accounted (pool_block p) (block_refs p) others m" using inv by (simp add: mgr_inv_def)
  have "accounted (pool_block p) (block_refs p) others (set_blocks r bs m)"
    using prep mgr_inv_in_table [OF inv, of _ r]
    by (intro accounted_set_blocks [OF acc]) (auto simp: pool_block_def)
  then show ?thesis using inv by (simp add: mgr_inv_def)
qed

text \<open>
  The first of the new blocks is loose, the rest is held outside the table until it is appended.
\<close>

lemma alloc_one_then_rest:
  assumes run: "get_new_blocks env n p = Inr (new, p')" and env: "env_ok env" and n: "1 \<le> n"
    and inv: "mgr_inv others m p"
  obtains cow where "new = cow # tl new" "int (length (tl new)) = n - 1"
    "one_loose (\<lambda>b. others b + count_list (tl new) b) cow m p'"
    "\<forall>b \<in> set (tl new). pool_block p' b"
proof -
  have acc: "accounted (pool_block p) (block_refs p) others m" and ok: "pool_ok p"
    using inv by (simp_all add: mgr_inv_def)
  have n0: "0 \<le> n" using n by simp
  note d = al.allocD [OF run env ok n0]
  obtain cow rest where new: "new = cow # rest" using d(2) n by (cases new) auto
  have fresh: "\<forall>b \<in> set rest. pool_block p b" "pool_block p cow" using d(4) by (simp_all add: new)
  have "accounted (pool_block p) (\<lambda>b. block_refs p' b - of_bool (b = cow))
      (\<lambda>b. others b + count_list rest b) m"
    using acc d(6) by (auto simp: accounted_def new)
  moreover have "block_refs p' cow = 1" using d(3,4) d(6) [of cow] by (simp add: new count_list_0_iff)
  ultimately have "one_loose (\<lambda>b. others b + count_list rest b) cow m p'"
    using d(1,5) fresh by (simp add: one_loose_def)
  then show thesis using that [of cow] d(2,5) fresh by (simp add: new)
qed

lemma mgr_inv_append:
  assumes inv: "mgr_inv (\<lambda>b. others b + count_list rest b) m p" and rest: "\<forall>b \<in> set rest. pool_block p b"
  shows "mgr_inv others (set_blocks r (blocks_of m r @ rest) m) p"
proof -
  have acc: "accounted (pool_block p) (block_refs p) (\<lambda>b. others b + count_list rest b) m"
    using inv by (simp add: mgr_inv_def)
  have wf: "dict_wf (req_to_blocks m)" using acc by (simp add: accounted_def)
  have "held (set_blocks r (blocks_of m r @ rest) m) b = held m b + count_list rest b" for b
    using held_set_blocks [OF wf, of r "blocks_of m r @ rest" b] by simp
  moreover have "dict_wf (req_to_blocks (set_blocks r (blocks_of m r @ rest) m))"
    using wf by (simp add: set_blocks_def)
  ultimately have "accounted (pool_block p) (block_refs p) others (set_blocks r (blocks_of m r @ rest) m)"
    using acc rest mgr_inv_in_table [OF inv] by (auto simp: accounted_def)
  then show ?thesis using inv by (simp add: mgr_inv_def)
qed

lemma blocks_of_cong: "req_to_blocks m' = req_to_blocks m \<Longrightarrow> blocks_of m' r = blocks_of m r"
  by (simp add: blocks_of_def)

lemma mamba_align_allocate_ok:
  assumes run: "mamba_align_allocate cdiv env r ntok m p = Inr (new, m', p')"
    and env: "env_ok env" and inv: "mgr_inv others m p" and kept: "spec_blocks_kept m"
  shows "mgr_inv others m' p' \<and> allocated_block_reqs m' = insert r (allocated_block_reqs m)
    \<and> cdiv ntok (block_size m) + sp_num_speculative_blocks (kv_cache_spec m)
        \<le> int (length (blocks_of m' r))
    \<and> (\<forall>q. q \<noteq> r \<longrightarrow> blocks_of m' q = blocks_of m q)
    \<and> block_size m' = block_size m \<and> manager_cls m' = manager_cls m
    \<and> kv_cache_spec m' = kv_cache_spec m \<and> map_of (partial_hit_reqs m') r = None
    \<and> num_checkpoint_blocks m' = num_checkpoint_blocks m"
proof -
  let ?sb = "sp_num_speculative_blocks (kv_cache_spec m)"
  let ?req = "cdiv ntok (block_size m) + ?sb" and ?prev = "int (length (blocks_of m r))"
  let ?hit = "map_of (partial_hit_reqs m) r"
  show ?thesis
  proof (cases "?req \<le> ?prev \<and> ?hit = None")
    case True
    then have m': "m' = (open_table r m)\<lparr>allocated_block_reqs := insert r (allocated_block_reqs m)\<rparr>" "p' = p"
      using run by (simp_all add: mamba_align_allocate_def Let_def)
    have "mgr_inv others m' p" using mgr_inv_open_table [OF inv, of r] by (rule mgr_inv_cong) (simp_all add: m')
    moreover have "blocks_of m' q = blocks_of m q" for q
      using blocks_of_cong [of m' "open_table r m" q] by (simp add: m')
    ultimately show ?thesis using True by (simp add: m')
  next
    case False
    define m1 where "m1 = (if r \<in> allocated_block_reqs m then
        m\<lparr>last_state_block_idx := AList.update r (?prev - 1 - ?sb) (last_state_block_idx m)\<rparr>
      else if ?prev > 0 then
        m\<lparr>last_state_block_idx := AList.update r (?prev - 1) (last_state_block_idx m)\<rparr>
      else m)"
    obtain bs nb p1 where s:
      "mamba_prepare_table (null_block p) (?req - ?sb - 1) (dict_get (num_checkpoint_blocks m) r 0) ?sb
        (r \<in> allocated_block_reqs m) (blocks_of m r) = Inr bs"
      "get_new_blocks env (if ?hit = None then ?req - int (length bs)
        else max (?req - int (length bs)) 0 + 1) p = Inr (nb, p1)"
      and rest: "bind_res (case ?hit of
             None \<Rightarrow> Inr ([], nb, set_blocks r bs m1, p1)
           | Some (idx, src) \<Rightarrow>
               bind_res (py_index nb 0) (\<lambda>cow.
               bind_res (mamba_cow env r idx src cow (set_blocks r bs m1) p1) (\<lambda>(front, m3, p3).
                 Inr (front, tl nb, m3, p3))))
           (\<lambda>(front, rest, m4, p4).
         Inr (front @ drop (nat ?prev) bs @ rest,
           (set_blocks r (blocks_of m4 r @ rest) m4)
             \<lparr>allocated_block_reqs := insert r (allocated_block_reqs m4),
              partial_hit_reqs := AList.delete r (partial_hit_reqs m4)\<rparr>,
           p4)) = Inr (new, m', p')"
      using run False unfolding mamba_align_allocate_def Let_def m1_def
      by (auto simp: res_simps split: if_splits)
    have null: "null_block p = 0" using pool_ok_null [OF mgr_inv_pool [OF inv]] .
    have len: "int (length bs) \<le> max ?prev (?req - 1)"
      using mamba_prepare_table_length [OF s(1)] kept by (simp add: spec_blocks_kept_def)
    have prep: "set bs \<subseteq> insert 0 (set (blocks_of m r))"
      "\<forall>b. b \<noteq> 0 \<longrightarrow> count_list bs b = count_list (blocks_of m r) b"
      using mamba_prepare_table_ok [OF s(1) [unfolded null]] kept by (auto simp: spec_blocks_kept_def)
    have m1: "req_to_blocks m1 = req_to_blocks m" "pending_cow_copies m1 = pending_cow_copies m"
      "allocated_block_reqs m1 = allocated_block_reqs m" "block_size m1 = block_size m"
      "manager_cls m1 = manager_cls m" "kv_cache_spec m1 = kv_cache_spec m"
      "partial_hit_reqs m1 = partial_hit_reqs m" "num_checkpoint_blocks m1 = num_checkpoint_blocks m"
      by (simp_all add: m1_def)
    have b1: "blocks_of m1 q = blocks_of m q" for q by (rule blocks_of_cong [OF m1(1)])
    have inv1: "mgr_inv others (set_blocks r bs m1) p"
      using prep by (intro accounted_prepared mgr_inv_cong [OF inv]) (simp_all add: m1 b1)
    show ?thesis
    proof (cases ?hit)
      case None
      then have n: "0 \<le> ?req - int (length bs)" using len False by auto
      have a: "get_new_blocks env (?req - int (length bs)) p = Inr (nb, p1)" using s(2) None by simp
      have acc: "accounted (pool_block p) (block_refs p) others (set_blocks r bs m1)"
        using inv1 by (simp add: mgr_inv_def)
      note d = al.allocD [OF a env mgr_inv_pool [OF inv] n]
      define m2 where "m2 = set_blocks r (blocks_of (set_blocks r bs m1) r @ nb) (set_blocks r bs m1)"
      have m': "m' = m2\<lparr>allocated_block_reqs := insert r (allocated_block_reqs m2),
              partial_hit_reqs := AList.delete r (partial_hit_reqs m2)\<rparr>" and p': "p' = p1"
        using rest None by (simp_all add: m2_def)
      have "mgr_inv others m2 p1"
        using al.accounted_alloc [OF a env mgr_inv_pool [OF inv] n acc, of r] d(1)
        by (simp add: mgr_inv_def m2_def)
      then have "mgr_inv others m' p'" unfolding p' by (rule mgr_inv_cong) (simp_all add: m')
      moreover have "blocks_of m' q = blocks_of m2 q" for q
        by (rule blocks_of_cong) (simp add: m')
      ultimately show ?thesis
        using d(2) by (simp add: m2_def b1) (simp add: m' m2_def m1 dict_simps)
    next
      case (Some h)
      obtain idx src where h: "h = (idx, src)" by (cases h)
      define n where "n = max (?req - int (length bs)) 0 + 1"
      have a: "get_new_blocks env n p = Inr (nb, p1)" using s(2) Some by (simp add: n_def)
      have n1: "1 \<le> n" by (simp add: n_def)
      from alloc_one_then_rest [OF a env n1 inv1] obtain cow where c: "nb = cow # tl nb"
        "int (length (tl nb)) = n - 1"
        "one_loose (\<lambda>b. others b + count_list (tl nb) b) cow (set_blocks r bs m1) p1"
        "\<forall>b \<in> set (tl nb). pool_block p1 b" by metis
      have "py_index nb 0 = Inr cow" by (subst c(1)) (simp add: py_index_def)
      then obtain front m3 where cow: "mamba_cow env r idx src cow (set_blocks r bs m1) p1 = Inr (front, m3, p')"
        and m': "m' = (set_blocks r (blocks_of m3 r @ tl nb) m3)
             \<lparr>allocated_block_reqs := insert r (allocated_block_reqs m3),
              partial_hit_reqs := AList.delete r (partial_hit_reqs m3)\<rparr>"
        using rest Some h by (auto simp: res_simps)
      note d = mamba_cow_ok [OF cow env c(3)]
      have "mgr_inv others (set_blocks r (blocks_of m3 r @ tl nb) m3) p'"
        using d c(4) by (intro mgr_inv_append) auto
      then have "mgr_inv others m' p'" by (rule mgr_inv_cong) (simp_all add: m')
      moreover have "blocks_of m' q = blocks_of (set_blocks r (blocks_of m3 r @ tl nb) m3) q" for q
        by (rule blocks_of_cong) (simp add: m')
      ultimately show ?thesis
        using d c(2) by (simp add: b1 n_def) (simp add: m' m1 dict_simps)
    qed
  qed
qed

text \<open>Caching changes hashes only.\<close>

lemma cache_partial_block_inv:
  assumes run: "cache_partial_block env q b ntok gid bsize p = Inr (k, q', p')" and env: "env_ok env"
    and inv: "mgr_inv others m p" and b: "b \<in> set (blocks_of m r)"
  shows "mgr_inv others m p' \<and> (k \<noteq> None \<longrightarrow> b \<noteq> 0)"
proof (cases "is_null (blk p b)")
  case True
  then show ?thesis using run inv by (simp add: cache_partial_block_def)
next
  case False
  then have "b \<noteq> 0" using pool_ok_is_null [OF mgr_inv_pool [OF inv]] by simp
  then have "pool_block p b" using mgr_inv_in_table [OF inv b] by simp
  from cache_partial_block_ok [OF run pool_ok_cache [OF mgr_inv_pool [OF inv]] env this]
  show ?thesis using mgr_inv_same_blocks [OF inv] \<open>b \<noteq> 0\<close> by blast
qed

lemma base_cache_blocks_ok:
  assumes run: "base_cache_blocks cdiv env q ntok retention m p = Inr (q', m', p')"
    and env: "env_ok env" and inv: "mgr_inv others m p"
  shows "mgr_inv others m' p' \<and> (\<forall>x. blocks_of m' x = blocks_of m x)
    \<and> manager_cls m' = manager_cls m \<and> kv_cache_spec m' = kv_cache_spec m \<and> block_size m' = block_size m
    \<and> allocated_block_reqs m' = allocated_block_reqs m \<and> num_checkpoint_blocks m' = num_checkpoint_blocks m
    \<and> dict_get (num_cached_block m') (request_id q) 0
        = max (dict_get (num_cached_block m) (request_id q) 0) (ntok div block_size m)"
proof (cases "dict_get (num_cached_block m) (request_id q) 0 \<ge> ntok div block_size m")
  case True
  then show ?thesis using run inv by (simp add: base_cache_blocks_def Let_def)
next
  case False
  let ?r = "request_id q"
  obtain msk where s: "cache_full_blocks env q (blocks_of m ?r) (dict_get (num_cached_block m) ?r 0)
      (ntok div block_size m) (block_size m) (kv_cache_group_id m) msk p = Inr (q', p')"
    and m': "m' = (open_table ?r m)\<lparr>num_cached_block :=
      AList.update ?r (ntok div block_size m) (num_cached_block m)\<rparr>"
    using run False by (auto simp: base_cache_blocks_def Let_def res_simps)
  have ok: "pool_ok p" by (rule mgr_inv_pool [OF inv])
  have "\<forall>b \<in> set (blocks_of m ?r). int b < num_gpu_blocks p"
    using mgr_inv_in_table [OF inv] in_range_or_null [OF ok] by blast
  from cache_full_blocks_keeps [OF s pool_ok_cache [OF ok] env this]
  have "mgr_inv others m p'" using mgr_inv_same_blocks [OF inv] by blast
  then have "mgr_inv others (open_table ?r m) p'" by (rule mgr_inv_open_table)
  then have "mgr_inv others m' p'" by (rule mgr_inv_cong) (simp_all add: m')
  moreover have "blocks_of m' x = blocks_of m x" for x
    using blocks_of_cong [of m' "open_table ?r m" x] by (simp add: m')
  ultimately show ?thesis
    using False by (simp add: m' dict_simps)
qed

lemma full_cache_partial_tail_ok:
  assumes run: "full_cache_partial_tail env q ntok m p = Inr (q', m', p')"
    and env: "env_ok env" and inv: "mgr_inv others m p"
  shows "mgr_inv others m' p' \<and> (m' = m \<or> m' = open_table (request_id q) m)"
proof -
  consider "m' = m" "p' = p" | "m' = open_table (request_id q) m" "p' = p"
    | b i bd k where "m' = open_table (request_id q) m" "py_index (blocks_of m (request_id q)) i = Inr b"
        "cache_partial_block env q b bd (kv_cache_group_id m) (block_size m) p = Inr (k, q', p')"
    using run by (auto simp: full_cache_partial_tail_def Let_def res_simps split: if_splits)
  then show ?thesis
  proof cases
    case (3 b i bd k)
    from py_index_pos [OF 3(2)] have "b \<in> set (blocks_of m (request_id q))" by (metis nth_mem)
    from cache_partial_block_inv [OF 3(3) env inv this]
    show ?thesis using mgr_inv_open_table 3(1) by blast
  qed (use inv mgr_inv_open_table in auto)
qed

lemma mamba_cache_partial_tail_ok:
  assumes run: "mamba_cache_partial_tail env q ntok m p = Inr (k, q', m', p')"
    and env: "env_ok env" and inv: "mgr_inv others m p"
  shows "mgr_inv others m' p' \<and> (\<forall>x. blocks_of m' x = blocks_of m x)
    \<and> manager_cls m' = manager_cls m \<and> kv_cache_spec m' = kv_cache_spec m \<and> block_size m' = block_size m
    \<and> allocated_block_reqs m' = allocated_block_reqs m \<and> num_checkpoint_blocks m' = num_checkpoint_blocks m"
proof -
  let ?r = "request_id q"
  have opened: "num_checkpoint_blocks (open_table ?r m) = num_checkpoint_blocks m"
    by (simp add: open_table_def set_blocks_def)
  let ?i = "ntok div block_size m"
  define partial where "partial = (\<lambda>b (k :: block_hash_gid option). case k of None \<Rightarrow> open_table ?r m
     | Some h \<Rightarrow> (open_table ?r m)\<lparr>partial_hit_reqs := AList.update ?r (?i, b) (partial_hit_reqs (open_table ?r m)),
         num_cached_block := AList.update ?r ?i (num_cached_block (open_table ?r m)),
         producer_partial_tail_reqs :=
           AList.update ?r ntok (producer_partial_tail_reqs (open_table ?r m))\<rparr>)"
  let ?early = "block_size m = hash_block_size p \<or> ntok mod block_size m = 0
    \<or> ntok mod hash_block_size p \<noteq> 0
    \<or> ntok \<noteq> num_prompt_tokens q div hash_block_size p * hash_block_size p"
  consider "m' = m" "p' = p" | "m' = open_table ?r m" "p' = p"
    | b where "py_index (blocks_of m ?r) ?i = Inr b"
        "cache_partial_block env q b ntok (kv_cache_group_id m) (block_size m) p = Inr (k, q', p')"
        "m' = partial b k"
  proof (cases "?early \<or> ?i \<ge> int (length (blocks_of m ?r))")
    case True
    have "m' = (if ?early then m else open_table ?r m)" "p' = p"
      using run True unfolding mamba_cache_partial_tail_def Let_def
      by (cases ?early; simp only: if_True if_False simp_thms sum.inject prod.inject)+
    then have "m' = m \<or> m' = open_table ?r m" by presburger
    then show thesis using that(1,2) \<open>p' = p\<close> by blast
  next
    case False
    have e: "\<not> ?early" "\<not> ?i \<ge> int (length (blocks_of m ?r))" by (use False in argo)+
    have "bind_res (py_index (blocks_of m ?r) ?i) (\<lambda>b.
        if is_null (blk p b) then Inr (None, q, open_table ?r m, p)
        else bind_res (cache_partial_block env q b ntok (kv_cache_group_id m) (block_size m) p)
          (\<lambda>(k, q1, p1). Inr (k, q1, partial b k, p1))) = Inr (k, q', m', p')"
      using run unfolding mamba_cache_partial_tail_def Let_def partial_def if_not_P [OF e(1)] if_not_P [OF e(2)] .
    then obtain b where b: "py_index (blocks_of m ?r) ?i = Inr b"
      and rest: "(if is_null (blk p b) then Inr (None, q, open_table ?r m, p)
        else bind_res (cache_partial_block env q b ntok (kv_cache_group_id m) (block_size m) p)
          (\<lambda>(k, q1, p1). Inr (k, q1, partial b k, p1))) = Inr (k, q', m', p')"
      unfolding bind_res_eq_Inr by blast
    show thesis
    proof (cases "is_null (blk p b)")
      case True
      then have "m' = open_table ?r m" "p' = p" using rest by auto
      then show thesis by (rule that(2))
    next
      case False
      then show thesis using rest b that(3) by (auto simp: res_simps)
    qed
  qed
  then show ?thesis
  proof cases
    case (3 b)
    from py_index_pos [OF 3(1)] have "b \<in> set (blocks_of m ?r)" by (metis nth_mem)
    from cache_partial_block_inv [OF 3(2) env inv this] have "mgr_inv others m p'" by blast
    then have "mgr_inv others (open_table ?r m) p'" by (rule mgr_inv_open_table)
    moreover have "req_to_blocks m' = req_to_blocks (open_table ?r m)"
      "pending_cow_copies m' = pending_cow_copies (open_table ?r m)"
      by (simp_all add: 3(3) partial_def split: option.split)
    ultimately show ?thesis
      using mgr_inv_cong [of others "open_table ?r m" p' m'] blocks_of_cong [of m' "open_table ?r m"]
      by (simp add: 3(3) partial_def opened split: option.split)
  qed (use inv mgr_inv_open_table opened in auto)
qed

lemma mamba_cache_blocks_ok:
  assumes run: "mamba_cache_blocks cdiv env q ntok retention m p = Inr (q', m', p')"
    and env: "env_ok env" and inv: "mgr_inv others m p"
  shows "mgr_inv others m' p' \<and> (\<forall>x. blocks_of m' x = blocks_of m x)
    \<and> manager_cls m' = manager_cls m \<and> kv_cache_spec m' = kv_cache_spec m \<and> block_size m' = block_size m
    \<and> allocated_block_reqs m' = allocated_block_reqs m \<and> num_checkpoint_blocks m' = num_checkpoint_blocks m"
proof -
  obtain q1 m1 p1 k m2 where s: "base_cache_blocks cdiv env q ntok retention m p = Inr (q1, m1, p1)"
    "(if sp_mamba_cache_mode (kv_cache_spec m1) = ''align'' then
        mamba_cache_partial_tail env q1 ntok m1 p1
      else Inr (None, q1, m1, p1)) = Inr (k, q', m2, p')"
    and m': "m' = (let r = request_id q; earlier = dict_get (num_cached_block m) r 0;
        after = dict_get (num_cached_block m1) r 0;
        m3 = m2\<lparr>cached_blocks_this_step := cached_blocks_this_step m2 \<union> set_option k\<rparr>
      in if after > earlier then
           (open_table r m3)\<lparr>cached_blocks_this_step := cached_blocks_this_step m3
              \<union> hashes_cached p' (py_slice (blocks_of m3 r) earlier after)\<rparr>
         else m3)"
    using run unfolding mamba_cache_blocks_def Let_def by (auto simp: res_simps)
  note d1 = base_cache_blocks_ok [OF s(1) env inv]
  have d2: "mgr_inv others m2 p' \<and> (\<forall>x. blocks_of m2 x = blocks_of m1 x)
    \<and> manager_cls m2 = manager_cls m1 \<and> kv_cache_spec m2 = kv_cache_spec m1 \<and> block_size m2 = block_size m1
    \<and> allocated_block_reqs m2 = allocated_block_reqs m1 \<and> num_checkpoint_blocks m2 = num_checkpoint_blocks m1"
    using s(2) d1 mamba_cache_partial_tail_ok [of env q1 ntok m1 p1, OF _ env] by (auto split: if_splits)
  define m3 where "m3 = m2\<lparr>cached_blocks_this_step := cached_blocks_this_step m2 \<union> set_option k\<rparr>"
  have m3: "mgr_inv others m3 p'" by (rule mgr_inv_cong [OF conjunct1 [OF d2]]) (simp_all add: m3_def)
  have b3: "blocks_of m3 x = blocks_of m2 x" for x by (rule blocks_of_cong) (simp add: m3_def)
  have "m' = m3 \<or> (\<exists>c. m' = (open_table (request_id q) m3)\<lparr>cached_blocks_this_step := c\<rparr>)"
    unfolding m' m3_def Let_def by (simp split: if_split) blast
  then show ?thesis
  proof
    assume "m' = m3"
    then show ?thesis using m3 b3 d1 d2 by (simp add: m3_def)
  next
    assume "\<exists>c. m' = (open_table (request_id q) m3)\<lparr>cached_blocks_this_step := c\<rparr>"
    then obtain c where c: "m' = (open_table (request_id q) m3)\<lparr>cached_blocks_this_step := c\<rparr>" by blast
    have "mgr_inv others m' p'"
      by (rule mgr_inv_cong [OF mgr_inv_open_table [OF m3]]) (simp_all add: c)
    moreover have "blocks_of m' x = blocks_of m3 x" for x
      using blocks_of_cong [of m' "open_table (request_id q) m3" x] by (simp add: c)
    ultimately show ?thesis
      using b3 d1 d2 by (simp add: c) (simp add: m3_def open_table_def set_blocks_def)
  qed
qed

text \<open>Giving back: the whole table, or a range of it.\<close>

lemma free_request_ok:
  assumes inv: "mgr_inv others m p"
  shows "\<exists>m' p'. free_request r m p = Inr (m', p') \<and> mgr_inv others m' p'
    \<and> blocks_of m' r = [] \<and> (\<forall>q. q \<noteq> r \<longrightarrow> blocks_of m' q = blocks_of m q)
    \<and> map_of (num_cached_block m') r = None \<and> map_of (partial_hit_reqs m') r = None
    \<and> (\<forall>b. block_refs p' b = block_refs p b - int (count_list (blocks_of m r) b))
    \<and> pool_block p' = pool_block p \<and> get_num_free_blocks p \<le> get_num_free_blocks p'"
proof -
  have acc: "accounted (pool_block p) (block_refs p) others m" and ok: "pool_ok p"
    using inv by (simp_all add: mgr_inv_def)
  define m' where "m' = snd (pop_blocks_for_free r m)"
  have m': "req_to_blocks m' = AList.delete r (req_to_blocks m)"
    "pending_cow_copies m' = pending_cow_copies m" "fst (pop_blocks_for_free r m) = blocks_of m r"
    "map_of (num_cached_block m') r = None" "map_of (partial_hit_reqs m') r = None"
    by (simp_all add: m'_def pop_blocks_for_free_def Let_def blocks_of_def dict_simps)
  have count: "count_list (rev (blocks_of m r)) b = count_list (blocks_of m r) b" for b
    by (simp add: count_list_rev)
  have split: "count_list [] b + count_list (rev (blocks_of m r)) b = count_list (blocks_of m r) b" for b
    by (simp add: count)
  obtain p' where p': "free_blocks (rev (blocks_of m r)) p = Inr p'" "pool_ok p'"
    "get_num_free_blocks p \<le> get_num_free_blocks p'" "pool_block p' = pool_block p"
    "\<forall>b. block_refs p' b = block_refs p b - int (count_list (rev (blocks_of m r)) b)"
    using al.accounted_release [OF ok acc, of "[]" r "rev (blocks_of m r)"] split by auto
  have "accounted (pool_block p) (block_refs p') others m'"
    by (rule accounted_delete [OF acc _ m'(1,2)]) (simp add: p'(5) count)
  then have "mgr_inv others m' p'" using p'(2,4) by (simp add: mgr_inv_def)
  moreover have "free_request r m p = Inr (m', p')"
    using p'(1) m'(3) by (simp add: free_request_def m'_def split_beta)
  moreover have "blocks_of m' q = (if q = r then [] else blocks_of m q)" for q
    by (simp add: blocks_of_def m'(1) dict_simps)
  ultimately show ?thesis using p' m'(4,5) by (auto simp: count)
qed

text \<open>Every place nulled gives its block to the list to free.\<close>

lemma null_out_ok:
  assumes "null_out 0 js bs freed = Inr (bs', freed')"
  shows "length bs' = length bs \<and> set bs' \<subseteq> insert 0 (set bs) \<and> set freed' \<subseteq> insert 0 (set freed \<union> set bs)
    \<and> (\<forall>b. b \<noteq> 0 \<longrightarrow> count_list bs' b + count_list freed' b = count_list bs b + count_list freed b)"
  using assms
proof (induction js arbitrary: bs freed)
  case Nil
  then show ?case by auto
next
  case (Cons i js)
  obtain b where b: "py_index bs i = Inr b"
    "(if b = 0 then Inr (bs, freed)
      else bind_res (py_set bs i 0) (\<lambda>bs1. null_out 0 js bs1 (freed @ [b]))) = Inr (bs', freed')"
    using Cons.prems by (auto simp: bind_res_eq_Inr)
  show ?case
  proof (cases "b = 0")
    case True
    then show ?thesis using b by auto
  next
    case False
    obtain k where k: "k < length bs" "b = bs ! k" "\<And>y. py_set bs i y = Inr (bs[k := y])"
      using py_index_pos [OF b(1)] by metis
    have "null_out 0 js (bs[k := 0]) (freed @ [b]) = Inr (bs', freed')"
      using b(2) False k(3) by simp
    from Cons.IH [OF this]
    have IH: "length bs' = length bs" "set bs' \<subseteq> insert 0 (set (bs[k := 0]))"
      "set freed' \<subseteq> insert 0 (set (freed @ [b]) \<union> set (bs[k := 0]))"
      "\<forall>c. c \<noteq> 0 \<longrightarrow> count_list bs' c + count_list freed' c
        = count_list (bs[k := 0]) c + count_list (freed @ [b]) c" by auto
    have sub: "set (bs[k := 0]) \<subseteq> insert 0 (set bs)" by (rule set_update_subset_insert)
    have "count_list bs' c + count_list freed' c = count_list bs c + count_list freed c" if "c \<noteq> 0" for c
      using spec [OF IH(4), of c] that count_list_update [OF k(1), of 0 c] k(2) by (simp split: if_splits)
    moreover have "b \<in> set bs" using k by simp
    moreover have "set freed' \<subseteq> insert 0 (set freed \<union> set bs)"
    proof -
      have "x \<in> insert 0 (insert b (set freed \<union> set bs))" if "x \<in> set freed'" for x
        using subsetD [OF IH(3) that] subsetD [OF sub, of x] by auto
      then show ?thesis using \<open>b \<in> set bs\<close> by auto
    qed
    ultimately show ?thesis using IH(1,2) sub by auto
  qed
qed

lemma remove_blocks_in_range_ok:
  assumes inv: "mgr_inv others m p"
    and run: "null_out 0 (rev [lo..min hi (int (length (blocks_of m r))) - 1]) (blocks_of m r) []
      = Inr (bs', freed)"
  shows "\<exists>m' p'. remove_blocks_in_range r lo hi m p = Inr (m', p') \<and> mgr_inv others m' p'
    \<and> (m' = m \<or> m' = set_blocks r bs' m)
    \<and> (map_of (req_to_blocks m) r \<noteq> None \<longrightarrow> blocks_of m' r = bs'
        \<and> (\<forall>b. b \<noteq> 0 \<longrightarrow> block_refs p' b = block_refs p b - int (count_list freed b)))"
proof -
  have acc: "accounted (pool_block p) (block_refs p) others m" and ok: "pool_ok p"
    using inv by (simp_all add: mgr_inv_def)
  have null: "null_block p = 0" by (rule pool_ok_null [OF ok])
  show ?thesis
  proof (cases "map_of (req_to_blocks m) r = None \<or> lo \<ge> hi")
    case True
    moreover have "bs' = blocks_of m r \<and> freed = []" if "lo \<ge> hi"
    proof -
      have "[lo..min hi (int (length (blocks_of m r))) - 1] = []" using that by simp
      then show ?thesis using run by simp
    qed
    ultimately show ?thesis
      using inv by (intro exI [of _ m], intro exI [of _ p]) (auto simp: remove_blocks_in_range_def)
  next
    case False
    note n = null_out_ok [OF run]
    obtain p1 where p1: "free_blocks freed p = Inr p1" "pool_ok p1"
      "\<forall>b. block_refs p1 b = block_refs p b - int (count_list freed b)"
      "accounted (pool_block p1) (block_refs p1) others (set_blocks r bs' m)"
      using al.accounted_release [OF ok acc, of bs' r freed] n by auto
    have run': "remove_blocks_in_range r lo hi m p =
        (if freed = [] then Inr (set_blocks r bs' m, p) else Inr (set_blocks r bs' m, p1))"
    proof -
      obtain y where "map_of (req_to_blocks m) r = Some y" "\<not> lo \<ge> hi" using False by auto
      then show ?thesis using run p1(1) by (simp add: remove_blocks_in_range_def null Let_def)
    qed
    show ?thesis
    proof (cases "freed = []")
      case True
      have "accounted (pool_block p) (block_refs p) others (set_blocks r bs' m)"
        using n True mgr_inv_in_table [OF inv, of _ r]
        by (intro accounted_set_blocks [OF acc]) (auto simp: pool_block_def)
      then show ?thesis using run' True ok by (simp add: mgr_inv_def)
    next
      case False
      then show ?thesis using run' p1 by (simp add: mgr_inv_def)
    qed
  qed
qed

text \<open>
  What an operation leaves alone: the attributes of the manager and the running requests; no
  table gets shorter.
\<close>

definition tables_kept :: "manager \<Rightarrow> manager \<Rightarrow> bool" where
  "tables_kept m m' \<longleftrightarrow>
     manager_cls m' = manager_cls m \<and> kv_cache_spec m' = kv_cache_spec m
     \<and> block_size m' = block_size m \<and> allocated_block_reqs m' = allocated_block_reqs m
     \<and> num_checkpoint_blocks m' = num_checkpoint_blocks m
     \<and> (\<forall>r. length (blocks_of m r) \<le> length (blocks_of m' r))"

lemma tables_kept_refl [simp]: "tables_kept m m"
  by (simp add: tables_kept_def)

lemma tables_kept_trans [trans]: "tables_kept m m1 \<Longrightarrow> tables_kept m1 m2 \<Longrightarrow> tables_kept m m2"
  unfolding tables_kept_def by (metis order_trans)

lemma tables_kept_set_blocks [simp]:
  "length (blocks_of m r) \<le> length bs \<Longrightarrow> tables_kept m (set_blocks r bs m)"
  by (simp add: tables_kept_def)

lemma tables_kept_open [simp]: "tables_kept m (open_table r m)"
  by (simp add: open_table_def)

lemma tables_kept_cong:
  "tables_kept m m1 \<Longrightarrow> manager_cls m2 = manager_cls m1 \<Longrightarrow> kv_cache_spec m2 = kv_cache_spec m1 \<Longrightarrow>
   block_size m2 = block_size m1 \<Longrightarrow> allocated_block_reqs m2 = allocated_block_reqs m1 \<Longrightarrow>
   num_checkpoint_blocks m2 = num_checkpoint_blocks m1 \<Longrightarrow> req_to_blocks m2 = req_to_blocks m1 \<Longrightarrow>
   tables_kept m m2"
  by (simp add: tables_kept_def blocks_of_def)

lemma tables_kept_record [simp]: "tables_kept m (record_ids bs m') = tables_kept m m'"
  by (simp add: tables_kept_def) (simp add: record_ids_def)

lemma tables_kept_spec_blocks:
  assumes "tables_kept m m'" and "spec_blocks_kept m"
  shows "spec_blocks_kept m'"
proof -
  have "int (length (blocks_of m r)) \<le> int (length (blocks_of m' r))" for r
    using assms(1) by (simp add: tables_kept_def)
  then have "n \<le> int (length (blocks_of m' r))" if "n \<le> int (length (blocks_of m r))" for n r
    using that order_trans by blast
  then show ?thesis using assms by (simp add: spec_blocks_kept_def tables_kept_def)
qed

lemma extend_table_kept:
  "extend_table env r n m p = Inr (new, m', p') \<Longrightarrow> tables_kept m m'"
  by (auto simp: extend_table_def res_simps)

lemma apply_cow_kept:
  assumes "apply_cow r idx src cow m p = Inr (m', p')"
  shows "tables_kept m m'"
proof -
  obtain bs' where s: "py_set (blocks_of m r) idx cow = Inr bs'"
    "m' = (set_blocks r bs' m)\<lparr>pending_cow_copies := pending_cow_copies m @ [(src, cow)]\<rparr>"
    using assms by (auto simp: apply_cow_def Let_def res_simps split: if_splits)
  have "length bs' = length (blocks_of m r)"
    using s(1) by (auto simp: py_set_def Let_def split: if_splits)
  then have "tables_kept m (set_blocks r bs' m)" by simp
  then show ?thesis by (rule tables_kept_cong) (simp_all add: s(2))
qed

lemma redirect_partial_hit_kept:
  assumes "redirect_partial_hit env r m p = Inr (new, m', p')"
  shows "tables_kept m m'"
proof (cases "map_of (partial_hit_reqs m) r")
  case None
  then show ?thesis using assms by (simp add: redirect_partial_hit_def)
next
  case (Some h)
  obtain idx src where h: "h = (idx, src)" by (cases h)
  define m1 where "m1 = m\<lparr>partial_hit_reqs := AList.delete r (partial_hit_reqs m)\<rparr>"
  obtain p1 cow m2 where s: "apply_cow r idx src cow m1 p1 = Inr (m2, p')"
    "m' = m2\<lparr>new_block_ids := new_block_ids m2 @ [cow]\<rparr>"
    using assms Some unfolding redirect_partial_hit_def m1_def h by (auto simp: res_simps Let_def)
  have "tables_kept m m1" by (rule tables_kept_cong [OF tables_kept_refl]) (simp_all add: m1_def)
  also have "tables_kept m1 m2" by (rule apply_cow_kept [OF s(1)])
  finally show ?thesis by (rule tables_kept_cong) (simp_all add: s(2))
qed

lemma base_allocate_new_blocks_kept:
  assumes "base_allocate_new_blocks cdiv env r ntok m p = Inr (new, m', p')"
  shows "tables_kept m m'"
proof -
  obtain cow m1 p1 where s: "redirect_partial_hit env r m p = Inr (cow, m1, p1)"
    using assms by (auto simp: base_allocate_new_blocks_def res_simps)
  have "tables_kept m1 m'"
    using assms s extend_table_kept
    by (auto simp: base_allocate_new_blocks_def Let_def res_simps split: if_splits)
  then show ?thesis using tables_kept_trans [OF redirect_partial_hit_kept [OF s]] by blast
qed

lemma remove_blocks_in_range_inv:
  assumes run: "remove_blocks_in_range r lo hi m p = Inr (m', p')" and inv: "mgr_inv others m p"
  shows "mgr_inv others m' p'" "tables_kept m m'"
    "m' = m \<or> (\<exists>bs'. m' = set_blocks r bs' m \<and> length bs' = length (blocks_of m r))"
proof -
  have null: "null_block p = 0" by (rule pool_ok_null [OF mgr_inv_pool [OF inv]])
  have "mgr_inv others m' p' \<and>
    (m' = m \<or> (\<exists>bs'. m' = set_blocks r bs' m \<and> length bs' = length (blocks_of m r)))"
  proof (cases "map_of (req_to_blocks m) r = None \<or> lo \<ge> hi")
    case True
    then have "remove_blocks_in_range r lo hi m p = Inr (m, p)"
      unfolding remove_blocks_in_range_def by (rule if_P)
    then show ?thesis using run inv by simp
  next
    case False
    then obtain bs' freed where n:
      "null_out 0 (rev [lo..min hi (int (length (blocks_of m r))) - 1]) (blocks_of m r) [] = Inr (bs', freed)"
      using run unfolding remove_blocks_in_range_def null Let_def if_not_P [OF False]
      by (auto simp: bind_res_eq_Inr)
    from remove_blocks_in_range_ok [OF inv n] run null_out_ok [OF n] show ?thesis by auto
  qed
  then show "mgr_inv others m' p'" "tables_kept m m'"
    "m' = m \<or> (\<exists>bs'. m' = set_blocks r bs' m \<and> length bs' = length (blocks_of m r))" by auto
qed

lemma base_remove_skipped_blocks_inv:
  assumes run: "base_remove_skipped_blocks r n m p = Inr (m', p')" and inv: "mgr_inv others m p"
  shows "mgr_inv others m' p' \<and> tables_kept m m' \<and> last_state_block_idx m' = last_state_block_idx m"
proof (cases "get_num_skipped_tokens m n \<le> 0")
  case True
  then show ?thesis using run inv by (simp add: base_remove_skipped_blocks_def)
next
  case False
  then have "remove_blocks_in_range r 0 (min (get_num_skipped_tokens m n div block_size m)
      (int (length (blocks_of m r)))) (open_table r m) p = Inr (m', p')"
    using run by (simp add: base_remove_skipped_blocks_def Let_def)
  note d = remove_blocks_in_range_inv [OF this mgr_inv_open_table [OF inv]]
  have "last_state_block_idx m' = last_state_block_idx (open_table r m)"
    using d(3) by (auto simp: set_blocks_def)
  then show ?thesis
    using d(1) tables_kept_trans [OF tables_kept_open d(2)] by (simp add: open_table_def set_blocks_def)
qed

lemma drop_last_state_inv:
  assumes run: "drop_last_state r idx m p = Inr (m', p')" and inv: "mgr_inv others m p"
  shows "mgr_inv others m' p' \<and> tables_kept m m'"
proof -
  have null: "null_block p = 0" by (rule pool_ok_null [OF mgr_inv_pool [OF inv]])
  obtain b where b: "py_index (blocks_of m r) idx = Inr b"
    "(if b = 0 then Inr (open_table r m, p)
      else bind_res (free_blocks [b] p) (\<lambda>p1.
        bind_res (py_set (blocks_of m r) idx 0) (\<lambda>bs'. Inr (set_blocks r bs' (open_table r m), p1))))
      = Inr (m', p')"
    using run unfolding drop_last_state_def null Let_def bind_res_eq_Inr [of "py_index _ _"] by blast
  obtain k where k: "k < length (blocks_of m r)" "b = blocks_of m r ! k"
    "\<And>y. py_set (blocks_of m r) idx y = Inr ((blocks_of m r)[k := y])"
    using py_index_pos [OF b(1)] by metis
  define bs' where "bs' = (blocks_of m r)[k := 0]"
  show ?thesis
  proof (cases "b = 0")
    case True
    then have "m' = open_table r m" "p' = p" using b(2) by simp_all
    then show ?thesis using mgr_inv_open_table [OF inv] by simp
  next
    case False
    then have free: "free_blocks [b] p = Inr p'" and m': "m' = set_blocks r bs' (open_table r m)"
      using b(2) k(3) by (auto simp: bs'_def res_simps)
    have acc: "accounted (pool_block p) (block_refs p) others (open_table r m)" and ok: "pool_ok p"
      using inv by (simp_all add: mgr_inv_def)
    have "count_list bs' c + count_list [b] c = count_list (blocks_of (open_table r m) r) c"
      if "c \<noteq> 0" for c
      using count_list_update [OF k(1), of 0 c] that
      by (cases "b = c") (simp_all add: bs'_def k(2) [symmetric])
    moreover have "set bs' \<subseteq> insert 0 (set (blocks_of (open_table r m) r))"
      by (simp add: bs'_def set_update_subset_insert)
    moreover have "set [b] \<subseteq> insert 0 (set (blocks_of (open_table r m) r))" using k by simp
    ultimately have "mgr_inv others m' p'"
      using al.accounted_release [OF ok acc, of bs' r "[b]"] free by (auto simp: mgr_inv_def m')
    moreover have "tables_kept (open_table r m) m'" by (simp add: m' bs'_def)
    ultimately show ?thesis using tables_kept_trans [OF tables_kept_open] by blast
  qed
qed

lemma mamba_remove_skipped_blocks_inv:
  assumes run: "mamba_remove_skipped_blocks cdiv r n m p = Inr (m', p')" and inv: "mgr_inv others m p"
  shows "mgr_inv others m' p' \<and> tables_kept m m'"
proof -
  obtain m1 p1 where b: "base_remove_skipped_blocks r n m p = Inr (m1, p1)"
    using run by (auto simp: mamba_remove_skipped_blocks_def res_simps)
  note d = base_remove_skipped_blocks_inv [OF b inv]
  have "m' = m1 \<and> p' = p1 \<or> (\<exists>i. drop_last_state r i m1 p1 = Inr (m', p'))"
    using run b by (auto simp: mamba_remove_skipped_blocks_def split: if_splits option.splits)
  then show ?thesis
    using d drop_last_state_inv [of r _ m1 p1 m' p' others] tables_kept_trans [of m m1 m'] by blast
qed

lemma remove_skipped_blocks_inv:
  assumes run: "remove_skipped_blocks cdiv r n prompt m p = Inr (m', p')" and inv: "mgr_inv others m p"
  shows "mgr_inv others m' p' \<and> tables_kept m m'"
proof -
  have base: ?thesis if "base_remove_skipped_blocks r n m p = Inr (m', p')"
    using base_remove_skipped_blocks_inv [OF that inv] by blast
  have rswa: ?thesis if "rswa_remove_skipped_blocks cdiv r n prompt m p = Inr (m', p')"
    using that base remove_blocks_in_range_inv(1,2) [OF _ inv]
    by (auto simp: rswa_remove_skipped_blocks_def Let_def split: option.splits)
  show ?thesis
    using run base rswa mamba_remove_skipped_blocks_inv [OF _ inv] inv
    by (cases "manager_cls m") (simp_all add: remove_skipped_blocks_def)
qed

section \<open>Reachable managers\<close>

text \<open>The operations of each class keep the accounts and the speculative blocks.\<close>

definition align_only :: "manager \<Rightarrow> bool" where
  "align_only m \<longleftrightarrow> (allocated_block_reqs m \<noteq> {} \<longrightarrow>
     manager_cls m = MambaManager \<and> sp_mamba_cache_mode (kv_cache_spec m) = ''align'')"

definition mgr_good :: "(nat \<Rightarrow> nat) \<Rightarrow> manager \<Rightarrow> block_pool \<Rightarrow> bool" where
  "mgr_good others m p \<longleftrightarrow> mgr_inv others m p \<and> spec_blocks_kept m \<and> align_only m"

lemma mgr_good_kept:
  "mgr_good others m p \<Longrightarrow> mgr_inv others m' p' \<Longrightarrow> tables_kept m m' \<Longrightarrow> mgr_good others m' p'"
  using tables_kept_spec_blocks [of m m'] by (simp add: mgr_good_def align_only_def tables_kept_def)

lemma enter_hit_kept:
  "blocks_of m r = [] \<Longrightarrow> tables_kept m (enter_hit r kept bs n m)"
  by (rule tables_kept_cong [where ?m1.0 = "set_blocks r bs m"]) (simp_all add: enter_hit_def Let_def)

lemma add_local_computed_blocks_good:
  assumes run: "add_local_computed_blocks r new_computed num_local num_external m p = Inr (m', p')"
    and good: "mgr_good others m p" and "\<forall>b \<in> set new_computed. int b < num_gpu_blocks p"
  shows "mgr_good others m' p'"
proof -
  have base: ?thesis if b: "base_add_local_computed_blocks r new_computed num_local num_external m p = Inr (m', p')"
  proof -
    have "mgr_inv others m' p'"
      using base_add_local_ok [OF b _ assms(3)] good by (auto simp: mgr_good_def)
    moreover have "tables_kept m m'"
      using b enter_hit_kept by (auto simp: base_add_local_computed_blocks_def Let_def res_simps split: if_splits)
    ultimately show ?thesis using good mgr_good_kept by blast
  qed
  show ?thesis
    using run base good
    by (cases "manager_cls m") (simp_all add: add_local_computed_blocks_def split: if_splits)
qed

lemma kpool_allocate_kept:
  "kpool_allocate env r m p = Inr (new, m', p') \<Longrightarrow> tables_kept m m'"
  using extend_table_kept by (auto simp: kpool_allocate_def split: if_splits)

lemma allocate_external_computed_blocks_good:
  assumes run: "allocate_external_computed_blocks cdiv env r num_local num_external m p = Inr (m', p')"
    and env: "env_ok env" and good: "mgr_good others m p"
    and fits: "manager_cls m \<notin> {KpoolTailManager, CrossAttentionManager} \<Longrightarrow>
      int (length (blocks_of m r)) \<le> cdiv (num_local + num_external) (block_size m)"
  shows "mgr_good others m' p'"
proof -
  have inv: "mgr_inv others m p" using good by (simp add: mgr_good_def)
  have base: ?thesis if b: "base_allocate_external_computed_blocks cdiv env r num_local num_external m p = Inr (m', p')"
    and c: "manager_cls m \<notin> {KpoolTailManager, CrossAttentionManager}"
  proof -
    have "tables_kept m m'"
      using b extend_table_kept
      by (auto simp: base_allocate_external_computed_blocks_def Let_def res_simps split: if_splits)
    then show ?thesis using base_external_ok [OF b env inv fits [OF c]] good mgr_good_kept by blast
  qed
  have kpool: ?thesis if k: "kpool_allocate env r m p = Inr (new, m', p')" for new
    using kpool_allocate_ok [OF k env inv] kpool_allocate_kept [OF k] good mgr_good_kept by blast
  show ?thesis
    using run base kpool good
    by (cases "manager_cls m") (auto simp: allocate_external_computed_blocks_def res_simps)
qed

lemma allocate_new_blocks_good:
  assumes run: "allocate_new_blocks cdiv env r ntok ntok_main m p = Inr (new, m', p')"
    and env: "env_ok env" and good: "mgr_good others m p" and nonneg: "0 \<le> cdiv ntok_main (block_size m)"
  shows "mgr_good others m' p'"
proof -
  have inv: "mgr_inv others m p" and sb: "spec_blocks_kept m" using good by (simp_all add: mgr_good_def)
  have base: ?thesis if b: "base_allocate_new_blocks cdiv env r n m p = Inr (new, m', p')" for n
    using base_allocate_new_blocks_ok [OF b env inv] base_allocate_new_blocks_kept [OF b] good
      mgr_good_kept by blast
  have kpool: ?thesis if k: "kpool_allocate env r m p = Inr (new, m', p')"
    using kpool_allocate_ok [OF k env inv] kpool_allocate_kept [OF k] good mgr_good_kept by blast
  have align: ?thesis if a: "mamba_align_allocate cdiv env r ntok_main m p = Inr (new, m', p')"
    and mode: "manager_cls m = MambaManager" "sp_mamba_cache_mode (kv_cache_spec m) = ''align''"
  proof -
    note d = mamba_align_allocate_ok [OF a env inv sb]
    have "sp_num_speculative_blocks (kv_cache_spec m) \<le> int (length (blocks_of m' r))"
      using d nonneg by linarith
    then have "spec_blocks_kept m'" using d sb by (auto simp: spec_blocks_kept_def)
    then show ?thesis using d mode by (simp add: mgr_good_def align_only_def)
  qed
  show ?thesis
    using run base kpool align
    by (cases "manager_cls m")
      (auto simp: allocate_new_blocks_def mamba_allocate_new_blocks_def split: if_splits)
qed

lemma cache_blocks_good:
  assumes run: "cache_blocks cdiv env q ntok retention m p = Inr (q', m', p')"
    and env: "env_ok env" and good: "mgr_good others m p"
  shows "mgr_good others m' p' \<and> (\<forall>x. blocks_of m' x = blocks_of m x)"
proof -
  have inv: "mgr_inv others m p" using good by (simp add: mgr_good_def)
  have base: "mgr_good others m1 p1 \<and> (\<forall>x. blocks_of m1 x = blocks_of m x)"
    if b: "base_cache_blocks cdiv env q ntok retention m p = Inr (q1, m1, p1)" for q1 m1 p1
    using base_cache_blocks_ok [OF b env inv] good mgr_good_kept [OF good, of m1 p1]
    by (simp add: tables_kept_def)
  have full: ?thesis
    if f: "bind_res (base_cache_blocks cdiv env q ntok retention m p) (\<lambda>(q1, m1, p1).
          if block_size m1 = hash_block_size p1 then Inr (q1, m1, p1)
          else full_cache_partial_tail env q1 ntok m1 p1) = Inr (q', m', p')"
  proof -
    obtain q1 m1 p1 where b: "base_cache_blocks cdiv env q ntok retention m p = Inr (q1, m1, p1)"
      and t: "q' = q1 \<and> m' = m1 \<and> p' = p1 \<or> full_cache_partial_tail env q1 ntok m1 p1 = Inr (q', m', p')"
      using f by (auto simp: res_simps split: if_splits)
    have inv1: "mgr_inv others m1 p1" using base [OF b] by (simp add: mgr_good_def)
    from t show ?thesis
    proof
      assume t: "full_cache_partial_tail env q1 ntok m1 p1 = Inr (q', m', p')"
      note d = full_cache_partial_tail_ok [OF t env inv1]
      then have "tables_kept m1 m'" "\<forall>x. blocks_of m' x = blocks_of m1 x" by auto
      then show ?thesis using d base [OF b] mgr_good_kept by auto
    qed (use base [OF b] in simp)
  qed
  have mamba: ?thesis if a: "mamba_cache_blocks cdiv env q ntok retention m p = Inr (q', m', p')"
    using mamba_cache_blocks_ok [OF a env inv] mgr_good_kept [OF good, of m' p']
    by (simp add: tables_kept_def)
  show ?thesis
    using run base full mamba good by (cases "manager_cls m") (simp_all add: cache_blocks_def)
qed

lemma free_request_good:
  assumes run: "free_request r m p = Inr (m', p')" and good: "mgr_good others m p"
  shows "mgr_good others m' p'"
proof -
  have inv0: "mgr_inv others m p" and align: "align_only m" using good by (simp_all add: mgr_good_def)
  from free_request_ok [OF inv0, of r] run
  have inv: "mgr_inv others m' p'" and same: "\<forall>q. q \<noteq> r \<longrightarrow> blocks_of m' q = blocks_of m q" by auto
  have rest: "kv_cache_spec m' = kv_cache_spec m" "manager_cls m' = manager_cls m"
    "\<And>q. 0 \<le> dict_get (num_checkpoint_blocks m) q 0 \<Longrightarrow> 0 \<le> dict_get (num_checkpoint_blocks m') q 0"
    and gone: "allocated_block_reqs m' \<subseteq> allocated_block_reqs m - {r}"
    using run align
    by (auto simp: align_only_def free_request_def pop_blocks_for_free_def Let_def res_simps dict_simps split: if_splits)
  have "spec_blocks_kept m'"
    using good same rest subsetD [OF gone] by (simp add: mgr_good_def spec_blocks_kept_def)
  moreover have "align_only m'" using align rest gone by (auto simp: align_only_def)
  ultimately show ?thesis using inv by (simp add: mgr_good_def)
qed

lemma needs_note_good:
  assumes "mgr_good others m p" and "c = 0 \<or> c = (1 :: int)"
  shows "mgr_good others ((open_table r m)\<lparr>num_checkpoint_blocks :=
    AList.update r c (num_checkpoint_blocks m)\<rparr>) p" (is "mgr_good others ?m p")
proof -
  have "mgr_inv others (open_table r m) p"
    using assms(1) mgr_inv_open_table by (simp add: mgr_good_def)
  then have "mgr_inv others ?m p" by (rule mgr_inv_cong) simp_all
  moreover have "blocks_of ?m q = blocks_of m q" for q
    using blocks_of_cong [of ?m "open_table r m" q] by simp
  ultimately show ?thesis
    using assms by (auto simp: mgr_good_def spec_blocks_kept_def align_only_def dict_simps)
qed

lemma get_num_blocks_to_allocate_good:
  assumes run: "get_num_blocks_to_allocate cdiv p m r ntok new_computed tot num_local ntok_main cap
      = Inr (n, m')"
    and good: "mgr_good others m p"
  shows "mgr_good others m' p"
proof -
  have open_good: "mgr_good others (open_table r m) p"
    using good mgr_inv_open_table by (intro mgr_good_kept [OF good]) (auto simp: mgr_good_def)
  have "m' = m \<or> m' = open_table r m \<or> (\<exists>c. (c = 0 \<or> c = 1) \<and>
      m' = (open_table r m)\<lparr>num_checkpoint_blocks := AList.update r c (num_checkpoint_blocks m)\<rparr>)"
    using run
    by (cases "manager_cls m")
      (auto simp: get_num_blocks_to_allocate_def mamba_num_blocks_to_allocate_def
        mamba_align_num_blocks_def Let_def res_simps split: if_splits)
  then show ?thesis using good open_good needs_note_good [OF good] by blast
qed

text \<open>The size of the pool is fixed.\<close>

named_theorems size_kept "operations on the pool keep its number of blocks"

lemma upd_block_size [size_kept]: "num_gpu_blocks (upd_block b f p) = num_gpu_blocks p"
  by (simp add: upd_block_def)

lemma add_event_size [size_kept]: "num_gpu_blocks (add_event e p) = num_gpu_blocks p"
  by (simp add: add_event_def)

lemma fold_res_size:
  "fold_res f xs p = Inr p' \<Longrightarrow> (\<And>x q q'. f x q = Inr q' \<Longrightarrow> num_gpu_blocks q' = num_gpu_blocks q) \<Longrightarrow>
   num_gpu_blocks p' = num_gpu_blocks p"
  by (induction xs arbitrary: p) (auto simp: res_simps)

lemma remove_hashes_size:
  "remove_cached_block_hashes env b p = (hs, p') \<Longrightarrow> num_gpu_blocks p' = num_gpu_blocks p"
  by (auto simp: remove_cached_block_hashes_def Let_def size_kept split: prod.splits if_splits)

lemma emit_removed_size [size_kept]:
  "num_gpu_blocks (emit_block_removed_events env hs p) = num_gpu_blocks p"
proof -
  have "num_gpu_blocks (fold (\<lambda>h. add_event (f h)) hs p) = num_gpu_blocks p" for f :: "block_hash_gid \<Rightarrow> kv_event"
    by (induction hs arbitrary: p) (simp_all add: size_kept)
  then show ?thesis by (simp add: emit_block_removed_events_def)
qed

lemma maybe_evict_size [size_kept]:
  "num_gpu_blocks (snd (maybe_evict_cached_block env b p)) = num_gpu_blocks p"
  by (auto simp: maybe_evict_cached_block_def size_kept remove_hashes_size split: prod.split)

lemma insert_block_hash_size:
  "insert_block_hash key b n p = Inr p' \<Longrightarrow> num_gpu_blocks p' = num_gpu_blocks p"
  by (auto simp: insert_block_hash_def Let_def res_simps size_kept split: if_splits option.splits)

lemma move_block_hashes_size:
  assumes "move_block_hashes env src dst p = Inr p'"
  shows "num_gpu_blocks p' = num_gpu_blocks p"
proof -
  obtain hs p1 where r: "remove_cached_block_hashes env src p = (hs, p1)" by fastforce
  then have "fold_res (\<lambda>h. insert_block_hash h dst (blk_hash_num_tokens (blk p src))) hs p1 = Inr p'"
    using assms by (simp add: move_block_hashes_def Let_def split: if_splits)
  then have "num_gpu_blocks p' = num_gpu_blocks p1" by (rule fold_res_size) (rule insert_block_hash_size)
  then show ?thesis using remove_hashes_size [OF r] by simp
qed

lemma allocate_block_size: "allocate_block env b p = Inr p' \<Longrightarrow> num_gpu_blocks p' = num_gpu_blocks p"
  by (auto simp: allocate_block_def Let_def size_kept split: if_splits)

lemma get_new_blocks_size:
  assumes "get_new_blocks env n p = Inr (bs, p')"
  shows "num_gpu_blocks p' = num_gpu_blocks p"
proof -
  obtain q xs where "fold_res (allocate_block env) xs (p\<lparr>free_block_queue := q\<rparr>) = Inr p'"
    using assms by (auto simp: get_new_blocks_def Let_def res_simps split: if_splits)
  from fold_res_size [OF this allocate_block_size] show ?thesis by simp
qed

lemma touch_size: "touch bs p = Inr p' \<Longrightarrow> num_gpu_blocks p' = num_gpu_blocks p"
  unfolding touch_def
  by (erule fold_res_size) (auto simp: touch_block_def res_simps size_kept split: if_splits)

lemma free_loop_size: "num_gpu_blocks (snd (snd (free_loop bs xs ys p))) = num_gpu_blocks p"
  by (induction bs xs ys p rule: free_loop.induct) (simp_all add: Let_def size_kept)

lemma free_blocks_size:
  assumes "free_blocks bs p = Inr p'"
  shows "num_gpu_blocks p' = num_gpu_blocks p"
proof -
  obtain xs ys p1 where "free_loop bs [] [] p = (xs, ys, p1)" using prod_cases3 by blast
  then show ?thesis using assms free_loop_size [of bs "[]" "[]" p] by (auto simp: free_blocks_def res_simps)
qed

lemma cache_one_block_size:
  "cache_one_block env key b n p = Inr p' \<Longrightarrow> num_gpu_blocks p' = num_gpu_blocks p"
  by (auto simp: cache_one_block_def res_simps size_kept dest!: insert_block_hash_size remove_hashes_size
      split: if_splits option.splits prod.splits)

lemma cache_full_loop_size:
  "cache_full_loop env hs msk nc bs gid i xs acc p = Inr (new, p') \<Longrightarrow>
   num_gpu_blocks p' = num_gpu_blocks p"
  by (induction env hs msk nc bs gid i xs acc p rule: cache_full_loop.induct)
    (auto simp: res_simps cache_one_block_size split: if_splits)

lemma cache_full_blocks_size:
  assumes "cache_full_blocks env r bs nc nf bsize gid msk p = Inr (r', p')"
  shows "num_gpu_blocks p' = num_gpu_blocks p"
  using assms cache_full_loop_size
  by (auto simp: cache_full_blocks_def cache_new_full_blocks_def full_blocks_event_def res_simps
      size_kept split: if_splits)

lemma cache_partial_block_size:
  assumes "cache_partial_block env r b n gid bsize p = Inr (k, r', p')"
  shows "num_gpu_blocks p' = num_gpu_blocks p"
proof -
  have "num_gpu_blocks (drop_outdated_hashes env b key c p) = num_gpu_blocks p" for key c
    by (auto simp: drop_outdated_hashes_def size_kept remove_hashes_size split: prod.split)
  then show ?thesis
    using assms insert_block_hash_size
    by (auto simp: cache_partial_block_def register_partial_block_def partial_block_event_def
        Let_def res_simps size_kept split: if_splits)
qed

lemmas pool_size = get_new_blocks_size touch_size free_blocks_size move_block_hashes_size
  cache_full_blocks_size cache_partial_block_size

lemma extend_table_size: "extend_table env r n m p = Inr (new, m', p') \<Longrightarrow> num_gpu_blocks p' = num_gpu_blocks p"
  by (auto simp: extend_table_def res_simps pool_size)

lemma kpool_allocate_size:
  "kpool_allocate env r m p = Inr (new, m', p') \<Longrightarrow> num_gpu_blocks p' = num_gpu_blocks p"
  using extend_table_size by (auto simp: kpool_allocate_def split: if_splits)

lemma add_local_computed_blocks_size:
  "add_local_computed_blocks r new_computed num_local num_external m p = Inr (m', p') \<Longrightarrow>
   num_gpu_blocks p' = num_gpu_blocks p"
  by (auto simp: add_local_computed_blocks_def base_add_local_computed_blocks_def Let_def res_simps
      pool_size split: manager_class.splits if_splits)

lemma allocate_external_computed_blocks_size:
  assumes "allocate_external_computed_blocks cdiv env r num_local num_external m p = Inr (m', p')"
  shows "num_gpu_blocks p' = num_gpu_blocks p"
proof -
  have "num_gpu_blocks p' = num_gpu_blocks p"
    if "base_allocate_external_computed_blocks cdiv env r num_local num_external m p = Inr (m', p')"
    using that by (auto simp: base_allocate_external_computed_blocks_def Let_def res_simps
        extend_table_size split: if_splits)
  then show ?thesis
    using assms by (auto simp: allocate_external_computed_blocks_def res_simps kpool_allocate_size
        split: manager_class.splits)
qed

lemma apply_cow_size: "apply_cow r idx src cow m p = Inr (m', p') \<Longrightarrow> num_gpu_blocks p' = num_gpu_blocks p"
  by (auto simp: apply_cow_def Let_def res_simps size_kept split: if_splits)

lemma redirect_partial_hit_size:
  "redirect_partial_hit env r m p = Inr (new, m', p') \<Longrightarrow> num_gpu_blocks p' = num_gpu_blocks p"
  by (auto simp: redirect_partial_hit_def Let_def res_simps dest!: pool_size apply_cow_size
      split: option.splits)

lemma base_allocate_new_blocks_size:
  "base_allocate_new_blocks cdiv env r n m p = Inr (new, m', p') \<Longrightarrow> num_gpu_blocks p' = num_gpu_blocks p"
  by (auto simp: base_allocate_new_blocks_def Let_def res_simps
      dest!: redirect_partial_hit_size extend_table_size split: if_splits)

lemma mamba_cow_size:
  "mamba_cow env r idx src cow m p = Inr (new, m', p') \<Longrightarrow> num_gpu_blocks p' = num_gpu_blocks p"
  by (auto simp: mamba_cow_def Let_def res_simps size_kept dest!: pool_size apply_cow_size
      split: if_splits)

lemma mamba_align_allocate_size:
  "mamba_align_allocate cdiv env r n m p = Inr (new, m', p') \<Longrightarrow> num_gpu_blocks p' = num_gpu_blocks p"
  by (auto simp: mamba_align_allocate_def Let_def res_simps dest!: pool_size mamba_cow_size
      split: if_splits option.splits)

lemma allocate_new_blocks_size:
  "allocate_new_blocks cdiv env r n n_main m p = Inr (new, m', p') \<Longrightarrow> num_gpu_blocks p' = num_gpu_blocks p"
  using kpool_allocate_size base_allocate_new_blocks_size mamba_align_allocate_size
  by (auto simp: allocate_new_blocks_def mamba_allocate_new_blocks_def split: manager_class.splits if_splits)

lemma base_cache_blocks_size:
  "base_cache_blocks cdiv env q n ret m p = Inr (q', m', p') \<Longrightarrow> num_gpu_blocks p' = num_gpu_blocks p"
  by (auto simp: base_cache_blocks_def Let_def res_simps dest!: pool_size split: if_splits)

lemma cache_blocks_size:
  assumes "cache_blocks cdiv env q n ret m p = Inr (q', m', p')"
  shows "num_gpu_blocks p' = num_gpu_blocks p"
proof -
  have full: "full_cache_partial_tail env q1 n m1 p1 = Inr (q2, m2, p2) \<Longrightarrow>
      num_gpu_blocks p2 = num_gpu_blocks p1" for q1 m1 p1 q2 m2 p2
    by (auto simp: full_cache_partial_tail_def Let_def res_simps dest!: pool_size split: if_splits)
  have mamba: "mamba_cache_partial_tail env q1 n m1 p1 = Inr (h, q2, m2, p2) \<Longrightarrow>
      num_gpu_blocks p2 = num_gpu_blocks p1" for q1 m1 p1 h q2 m2 p2
    by (auto simp: mamba_cache_partial_tail_def Let_def res_simps dest!: pool_size split: if_splits)
  show ?thesis
    using assms
    by (auto simp: cache_blocks_def mamba_cache_blocks_def Let_def res_simps
        dest!: base_cache_blocks_size full mamba split: manager_class.splits if_splits)
qed

lemma free_request_size: "free_request r m p = Inr (m', p') \<Longrightarrow> num_gpu_blocks p' = num_gpu_blocks p"
  by (auto simp: free_request_def Let_def res_simps dest!: pool_size split: prod.splits)

lemma remove_blocks_in_range_size:
  "remove_blocks_in_range r lo hi m p = Inr (m', p') \<Longrightarrow> num_gpu_blocks p' = num_gpu_blocks p"
  by (auto simp: remove_blocks_in_range_def Let_def res_simps dest!: pool_size split: if_splits)

lemma remove_skipped_blocks_size:
  assumes "remove_skipped_blocks cdiv r n prompt m p = Inr (m', p')"
  shows "num_gpu_blocks p' = num_gpu_blocks p"
proof -
  have base: "base_remove_skipped_blocks r n m p = Inr (m1, p1) \<Longrightarrow> num_gpu_blocks p1 = num_gpu_blocks p"
    for m1 p1
    by (auto simp: base_remove_skipped_blocks_def Let_def dest!: remove_blocks_in_range_size split: if_splits)
  have last: "drop_last_state r i m1 p1 = Inr (m2, p2) \<Longrightarrow> num_gpu_blocks p2 = num_gpu_blocks p1"
    for i m1 p1 m2 p2
    by (auto simp: drop_last_state_def Let_def res_simps dest!: pool_size split: if_splits)
  show ?thesis
    using assms
    by (auto simp: remove_skipped_blocks_def rswa_remove_skipped_blocks_def mamba_remove_skipped_blocks_def
        Let_def res_simps dest!: base last remove_blocks_in_range_size
        split: manager_class.splits if_splits option.splits)
qed

text \<open>
  One call of a manager's operation by the coordinator, with what the callers see to: hit
  blocks are blocks of the pool, the tokens of an external hit reach past the local blocks, and
  a token count is not negative.
\<close>

inductive mgr_step ::
  "(int \<Rightarrow> int \<Rightarrow> int) \<Rightarrow> pool_env \<Rightarrow> manager \<times> block_pool \<Rightarrow> manager \<times> block_pool \<Rightarrow> bool"
  for cdiv env where
  Mgr_count: "get_num_blocks_to_allocate cdiv p m r ntok new_computed tot num_local ntok_main cap
      = Inr (n, m') \<Longrightarrow> mgr_step cdiv env (m, p) (m', p)"
| Mgr_add_local: "\<forall>b \<in> set new_computed. int b < num_gpu_blocks p \<Longrightarrow>
    add_local_computed_blocks r new_computed num_local num_external m p = Inr (m', p') \<Longrightarrow>
    mgr_step cdiv env (m, p) (m', p')"
| Mgr_external: "manager_cls m \<in> {KpoolTailManager, CrossAttentionManager}
      \<or> int (length (blocks_of m r)) \<le> cdiv (num_local + num_external) (block_size m) \<Longrightarrow>
    allocate_external_computed_blocks cdiv env r num_local num_external m p = Inr (m', p') \<Longrightarrow>
    mgr_step cdiv env (m, p) (m', p')"
| Mgr_allocate: "0 \<le> cdiv ntok_main (block_size m) \<Longrightarrow>
    allocate_new_blocks cdiv env r ntok ntok_main m p = Inr (new, m', p') \<Longrightarrow>
    mgr_step cdiv env (m, p) (m', p')"
| Mgr_cache: "cache_blocks cdiv env q ntok retention m p = Inr (q', m', p') \<Longrightarrow>
    mgr_step cdiv env (m, p) (m', p')"
| Mgr_free: "free_request r m p = Inr (m', p') \<Longrightarrow> mgr_step cdiv env (m, p) (m', p')"
| Mgr_remove: "remove_skipped_blocks cdiv r processed prompt m p = Inr (m', p') \<Longrightarrow>
    mgr_step cdiv env (m, p) (m', p')"
| Mgr_common_prefix: "get_num_common_prefix_blocks r m p = (n, m') \<Longrightarrow> mgr_step cdiv env (m, p) (m', p)"
| Mgr_take_ids: "take_new_block_ids m = (ids, m') \<Longrightarrow> mgr_step cdiv env (m, p) (m', p)"
| Mgr_take_offloads: "take_pending_partial_tail_offloads m = (es, m') \<Longrightarrow>
    mgr_step cdiv env (m, p) (m', p)"
| Mgr_new_step: "mgr_step cdiv env (m, p) (new_step_starts m, p)"

inductive_cases mgr_stepE: "mgr_step cdiv env (m, p) (m', p')"

lemma mgr_good_open: "mgr_good others m p \<Longrightarrow> mgr_good others (open_table r m) p"
  by (rule mgr_good_kept [of others m p]) (simp_all add: mgr_good_def mgr_inv_open_table)

lemma mgr_good_same_tables:
  assumes "mgr_good others m p" and "req_to_blocks m' = req_to_blocks m"
    "pending_cow_copies m' = pending_cow_copies m" "manager_cls m' = manager_cls m"
    "kv_cache_spec m' = kv_cache_spec m" "block_size m' = block_size m"
    "allocated_block_reqs m' = allocated_block_reqs m" "num_checkpoint_blocks m' = num_checkpoint_blocks m"
  shows "mgr_good others m' p"
  using assms mgr_inv_cong [of others m p m'] tables_kept_cong [OF tables_kept_refl, of m' m]
  by (intro mgr_good_kept [OF assms(1)]) (simp_all add: mgr_good_def)

lemma mgr_step_good:
  assumes "mgr_step cdiv env (m, p) (m', p')" and env: "env_ok env" and good: "mgr_good others m p"
  shows "mgr_good others m' p' \<and> num_gpu_blocks p' = num_gpu_blocks p"
  using assms(1)
proof (elim mgr_stepE, goal_cases)
  case (1 r ntok new_computed tot num_local ntok_main cap n)
  then show ?thesis using get_num_blocks_to_allocate_good [OF _ good] by blast
next
  case (2 new_computed r num_local num_external)
  then show ?thesis
    using add_local_computed_blocks_good [OF _ good] add_local_computed_blocks_size by blast
next
  case (3 r num_local num_external)
  then have "manager_cls m \<notin> {KpoolTailManager, CrossAttentionManager} \<Longrightarrow>
      int (length (blocks_of m r)) \<le> cdiv (num_local + num_external) (block_size m)" by blast
  from allocate_external_computed_blocks_good [OF 3(2) env good this] show ?case
    using allocate_external_computed_blocks_size [OF 3(2)] by blast
next
  case (4 ntok_main r ntok new)
  then show ?thesis using allocate_new_blocks_good [OF _ env good] allocate_new_blocks_size by blast
next
  case (5 q ntok retention q')
  then show ?thesis using cache_blocks_good [OF _ env good] cache_blocks_size by blast
next
  case (6 r)
  then show ?thesis using free_request_good [OF _ good] free_request_size by blast
next
  case (7 r processed prompt)
  then have "mgr_inv others m' p' \<and> tables_kept m m'"
    using remove_skipped_blocks_inv good unfolding mgr_good_def by blast
  then show ?thesis using mgr_good_kept [OF good] remove_skipped_blocks_size [OF 7] by blast
next
  case (8 r n)
  then have "m' = m \<or> m' = open_table r m"
    by (auto simp: get_num_common_prefix_blocks_def full_common_prefix_blocks_def Let_def
        split: manager_class.splits)
  then show ?thesis using 8 good mgr_good_open by auto
next
  case (9 ids)
  then show ?thesis
    by (auto simp: take_new_block_ids_def intro!: mgr_good_same_tables [OF good])
next
  case (10 es)
  then show ?thesis
    by (auto simp: take_pending_partial_tail_offloads_def intro!: mgr_good_same_tables [OF good])
next
  case 11
  then show ?thesis
    by (auto simp: new_step_starts_def good intro!: mgr_good_same_tables [OF good]
        split: manager_class.splits)
qed

section \<open>Properties\<close>

definition sample_manager :: "spec_kind \<Rightarrow> manager" where
  "sample_manager k =
     (case new_manager sample_cdiv (sample_spec k) 100 100 True 0 2 1 False False of Inr m \<Rightarrow> m)"

lemma sample_manager_fields [simp]:
  "req_to_blocks (sample_manager FullAttentionSpec) = []"
  "pending_cow_copies (sample_manager FullAttentionSpec) = []"
  "partial_hit_reqs (sample_manager FullAttentionSpec) = []"
  "num_cached_block (sample_manager FullAttentionSpec) = []"
  "allocated_block_reqs (sample_manager FullAttentionSpec) = {}"
  "num_checkpoint_blocks (sample_manager FullAttentionSpec) = []"
  "manager_cls (sample_manager FullAttentionSpec) = FullAttentionManager"
  "kv_cache_spec (sample_manager FullAttentionSpec) = sample_spec FullAttentionSpec"
  "block_size (sample_manager FullAttentionSpec) = 2"
  "mgr_enable_caching (sample_manager FullAttentionSpec)"
  "max_admission_blocks (sample_manager FullAttentionSpec) = None"
  "record_new_block_ids (sample_manager FullAttentionSpec) = False"
  by (simp_all add: sample_manager_def new_manager_def sample_spec_def effective_block_size_def
      max_admission_blocks_per_request_def)

lemma sample_manager_run:
  "new_manager sample_cdiv (sample_spec FullAttentionSpec) 100 100 True 0 2 1 False False
     = Inr (sample_manager FullAttentionSpec)"
  by (simp add: sample_manager_def new_manager_def sample_spec_def effective_block_size_def
      max_admission_blocks_per_request_def)

lemma new_manager_good:
  assumes "new_manager cdiv spec inflight len caching gid sbs dcp zeroing legacy = Inr m"
    and "pool_ok p" and "0 \<le> sp_num_speculative_blocks spec"
  shows "mgr_good (\<lambda>b. nat (block_refs p b)) m p"
proof -
  have m: "req_to_blocks m = []" "pending_cow_copies m = []" "num_checkpoint_blocks m = []"
    "allocated_block_reqs m = {}" "kv_cache_spec m = spec"
    using assms(1) by (auto simp: new_manager_def split: option.splits manager_class.splits)
  have "accounted (pool_block p) (block_refs p) (\<lambda>b. nat (block_refs p b)) m"
    using al.refs_nonneg [OF assms(2)]
    by (simp add: accounted_def held_def table_refs_def copy_refs_def blocks_of_def m dict_get_def)
  then show ?thesis
    using assms(2,3)
    by (simp add: mgr_good_def mgr_inv_def spec_blocks_kept_def align_only_def m dict_get_def)
qed

lemma mgr_steps_good:
  assumes "(mgr_step cdiv env)\<^sup>*\<^sup>* s s'" and env: "env_ok env"
    and "mgr_good others (fst s) (snd s)"
  shows "mgr_good others (fst s') (snd s') \<and> num_gpu_blocks (snd s') = num_gpu_blocks (snd s)"
  using assms(1,3)
proof (induction rule: rtranclp_induct)
  case base
  then show ?case by simp
next
  case (step y z)
  then have "mgr_good others (fst y) (snd y)" "mgr_step cdiv env (fst y, snd y) (fst z, snd z)" by simp_all
  from mgr_step_good [OF this(2) env this(1)] step show ?case by simp
qed

lemma count_list_pos [simp]: "b \<in> set xs \<Longrightarrow> 0 < count_list xs b"
  using count_list_0_iff [of xs b] by (cases "count_list xs b") auto

lemma table_refs_pos: "b \<in> set (dict_get d r []) \<Longrightarrow> 0 < table_refs d b"
  by (induction d) (auto simp: dict_get_def table_refs_def split: if_splits)

lemma num_free_card:
  assumes "pool_ok p"
  shows "get_num_free_blocks p = int (card {b. pool_block p b \<and> block_refs p b = 0})"
proof -
  obtain xs where inv: "pool_inv p xs" using assms by (auto simp: pool_ok_def)
  then have "set xs = {b. pool_block p b \<and> block_refs p b = 0}" by (auto simp: pool_inv_def)
  then show ?thesis
    using pool_inv_num_free [OF inv] distinct_card [OF pool_inv_distinct [OF inv]] by simp
qed

text \<open>
  C15. The accounts of a manager always balance: created over a pool that its operations can
  reach, and after any sequence of calls, every block of the pool has as many references more
  than at the start as the manager holds in its block tables and pending copies; a block in a
  table is the null block or a block of the pool in use; and the free blocks are just those
  without a reference.
\<close>

theorem manager_accounts_balance:
  assumes "pool_reachable env p" and "env_ok env"
    and "new_manager cdiv spec inflight len caching gid sbs dcp zeroing legacy = Inr m"
    and "0 \<le> sp_num_speculative_blocks spec"
    and "(mgr_step cdiv env)\<^sup>*\<^sup>* (m, p) (m', p')"
  shows "(\<forall>b. pool_block p b \<longrightarrow> ref_cnt (blk p' b) = ref_cnt (blk p b) + int (held m' b))
    \<and> (\<forall>r. \<forall>b \<in> set (blocks_of m' r). b = 0 \<or> pool_block p b \<and> 0 < ref_cnt (blk p' b))
    \<and> get_num_free_blocks p' = int (card {b. pool_block p b \<and> ref_cnt (blk p' b) = 0})"
proof -
  have ok: "pool_ok p" using pool_reachable_inv [OF assms(1,2)] by (simp add: pool_ok_def)
  have "mgr_good (\<lambda>b. nat (block_refs p b)) m' p' \<and> num_gpu_blocks p' = num_gpu_blocks p"
    using mgr_steps_good [OF assms(5,2)] new_manager_good [OF assms(3) ok assms(4)] by simp
  then have inv: "mgr_inv (\<lambda>b. nat (block_refs p b)) m' p'" and pb: "pool_block p' = pool_block p"
    by (auto simp: mgr_good_def pool_block_def fun_eq_iff)
  have refs: "block_refs p' b = block_refs p b + int (held m' b)" if "pool_block p b" for b
    using inv al.refs_nonneg [OF ok that] that by (auto simp: mgr_inv_def accounted_def pb)
  have used: "0 < block_refs p' b" if "b \<in> set (blocks_of m' r)" "pool_block p b" for r b
  proof -
    have "int (count_list (blocks_of m' r) b) \<le> block_refs p' b"
      using inv that(2) pb
      by (intro accounted_count [where pooled = "pool_block p'" and others = "\<lambda>b. nat (block_refs p b)"])
        (auto simp: mgr_inv_def)
    then show ?thesis using count_list_pos [OF that(1)] by linarith
  qed
  have "b = 0 \<or> pool_block p b \<and> 0 < block_refs p' b" if "b \<in> set (blocks_of m' r)" for r b
    using used [OF that] mgr_inv_in_table [OF inv that, unfolded pb] by blast
  then show ?thesis
    using refs num_free_card [OF mgr_inv_pool [OF inv]] pb by simp
qed

lemma sample_allocation:
  "\<exists>m1 p1. allocate_new_blocks sample_cdiv sample_env ''a'' 4 4 (sample_manager FullAttentionSpec) sample_pool
      = Inr ([1, 2], m1, p1) \<and> blocks_of m1 ''a'' = [1, 2]"
proof -
  obtain p1 where p1: "get_new_blocks sample_env 2 sample_pool = Inr ([1, 2], p1)"
    using sample_alloc by blast
  then have "extend_table sample_env ''a'' 2 (sample_manager FullAttentionSpec) sample_pool
      = Inr ([1, 2], set_blocks ''a'' [1, 2] (sample_manager FullAttentionSpec), p1)"
    by (simp add: extend_table_def blocks_of_def dict_get_def record_ids_def) (simp add: set_blocks_def)
  then show ?thesis
    by (simp add: allocate_new_blocks_def base_allocate_new_blocks_def redirect_partial_hit_def
        sample_cdiv_def blocks_of_def [of "sample_manager FullAttentionSpec"] dict_get_def [of "[]"] Let_def)
qed

theorem manager_accounts_balance_witness:
  "\<exists>m' p'. allocate_new_blocks sample_cdiv sample_env ''a'' 4 4 (sample_manager FullAttentionSpec) sample_pool
      = Inr ([1, 2], m', p') \<and> ref_cnt (blk p' 1) = int (held m' 1) \<and> 0 < ref_cnt (blk p' 1)"
proof -
  obtain m1 p1 where r: "allocate_new_blocks sample_cdiv sample_env ''a'' 4 4
      (sample_manager FullAttentionSpec) sample_pool = Inr ([1, 2], m1, p1)" "blocks_of m1 ''a'' = [1, 2]"
    using sample_allocation by blast
  have "mgr_step sample_cdiv sample_env (sample_manager FullAttentionSpec, sample_pool) (m1, p1)"
    by (rule Mgr_allocate [OF _ r(1)]) (simp add: sample_cdiv_def)
  then have "(mgr_step sample_cdiv sample_env)\<^sup>*\<^sup>* (sample_manager FullAttentionSpec, sample_pool) (m1, p1)"
    by (rule r_into_rtranclp)
  note all = manager_accounts_balance [OF sample_pool_reachable sample_env_ok sample_manager_run _ this]
  have "pool_block sample_pool 1" by (simp add: pool_block_def sample_pool_facts)
  moreover have "1 \<in> set (blocks_of m1 ''a'')" by (simp add: r(2))
  ultimately show ?thesis
    using all r(1) sample_pool_idle(3) [of 1] by (fastforce simp: sample_spec_def)
qed

text \<open>Mamba in align mode keeps single states with padding instead of one block per \<open>block_size\<close> tokens.\<close>

definition mamba_align :: "manager \<Rightarrow> bool" where
  "mamba_align m \<longleftrightarrow> manager_cls m = MambaManager \<and> sp_mamba_cache_mode (kv_cache_spec m) = ''align''"

text \<open>The tokens that the table must hold, with the speculative blocks of mamba\<close>

definition tokens_to_hold :: "manager \<Rightarrow> int \<Rightarrow> int" where
  "tokens_to_hold m ntok =
     (if manager_cls m = MambaManager then ntok + block_size m * max 0 (sp_num_speculative_blocks (kv_cache_spec m))
      else ntok)"

lemma allocate_is_base:
  "manager_cls m \<noteq> KpoolTailManager \<Longrightarrow> \<not> mamba_align m \<Longrightarrow>
   allocate_new_blocks cdiv env r ntok ntok_main m p
     = base_allocate_new_blocks cdiv env r (tokens_to_hold m ntok) m p"
  by (cases "manager_cls m")
    (simp_all add: allocate_new_blocks_def tokens_to_hold_def mamba_align_def mamba_allocate_new_blocks_def)

lemma extend_table_success:
  assumes inv: "mgr_inv others m p" and env: "env_ok env" and "0 \<le> n" and "n \<le> get_num_free_blocks p"
  shows "\<exists>new m' p'. extend_table env r n m p = Inr (new, m', p') \<and> distinct new"
proof -
  obtain bs p' where "get_new_blocks env n p = Inr (bs, p')" "distinct bs"
    using al.alloc_ok [OF env mgr_inv_pool [OF inv] assms(3,4)] by blast
  then show ?thesis by (simp add: extend_table_def)
qed

lemma extend_table_short:
  "mgr_inv others m p \<Longrightarrow> get_num_free_blocks p < n \<Longrightarrow> extend_table env r n m p = Inl ValueError"
  using al.alloc_short [OF mgr_inv_pool] by (simp add: extend_table_def)

lemma free_not_in_table:
  assumes "mgr_inv others m p" and "pool_block p b" and "block_refs p b = 0"
  shows "b \<notin> set (blocks_of m q)"
proof
  assume "b \<in> set (blocks_of m q)"
  moreover have "int (count_list (blocks_of m q) b) \<le> block_refs p b"
    using assms by (intro accounted_count [where pooled = "pool_block p" and others = others])
      (auto simp: mgr_inv_def)
  ultimately show False using assms(3) count_list_pos [of b "blocks_of m q"] by linarith
qed

text \<open>A pending partial hit is a place in the table with its block.\<close>

definition pending_hit_ok :: "string \<Rightarrow> manager \<Rightarrow> bool" where
  "pending_hit_ok r m \<longleftrightarrow> (case map_of (partial_hit_reqs m) r of None \<Rightarrow> True
     | Some (idx, src) \<Rightarrow> manager_cls m \<noteq> KpoolTailManager \<and> 0 \<le> idx \<and> idx < int (length (blocks_of m r))
         \<and> blocks_of m r ! nat idx = src \<and> src \<noteq> 0)"

lemma redirect_partial_hit_success:
  assumes inv: "mgr_inv others m p" and env: "env_ok env"
    and hit: "map_of (partial_hit_reqs m) r = Some (idx, src)" "0 \<le> idx" "idx < int (length (blocks_of m r))"
      "blocks_of m r ! nat idx = src" "src \<noteq> 0"
    and free: "1 \<le> get_num_free_blocks p"
  shows "\<exists>cow m' p'. redirect_partial_hit env r m p = Inr ([cow], m', p')
    \<and> blocks_of m' r = (blocks_of m r)[nat idx := cow] \<and> pool_block p cow \<and> block_refs p cow = 0
    \<and> pending_cow_copies m' = pending_cow_copies m @ [(src, cow)] \<and> 0 < block_refs p' cow
    \<and> (\<forall>b. b \<noteq> cow \<longrightarrow> block_refs p' b = block_refs p b) \<and> pool_block p' = pool_block p"
proof -
  have ok: "pool_ok p" by (rule mgr_inv_pool [OF inv])
  obtain nb p1 where a: "get_new_blocks env 1 p = Inr (nb, p1)"
    using al.alloc_ok [OF env ok _ free] by auto
  note d = al.allocD [OF a env ok]
  obtain cow where nb: "nb = [cow]" using d(2) by (cases nb) auto
  have "src \<in> set (blocks_of m r)" using hit(2-4) nth_mem [of "nat idx" "blocks_of m r"] by simp
  then have "pool_block p src" using mgr_inv_in_table [OF inv] hit(5) by blast
  moreover have "0 < block_refs p src"
    using free_not_in_table [OF inv, of src r] \<open>src \<in> _\<close> al.refs_nonneg [OF ok, of src] \<open>pool_block p src\<close>
    by (cases "block_refs p src = 0") auto
  ultimately have "0 < block_refs p1 src" using d(6) [of src] by simp
  moreover have "\<not> is_null (blk p1 src)" using pool_ok_is_null [of p1 src] d(1) hit(5) by simp
  moreover define m1 where "m1 = m\<lparr>partial_hit_reqs := AList.delete r (partial_hit_reqs m)\<rparr>"
  moreover have "blocks_of m1 q = blocks_of m q" for q by (simp add: m1_def blocks_of_def)
  ultimately have "redirect_partial_hit env r m p = Inr ([cow],
      (set_blocks r ((blocks_of m r)[nat idx := cow]) m1)
        \<lparr>pending_cow_copies := pending_cow_copies m @ [(src, cow)], new_block_ids := new_block_ids m @ [cow]\<rparr>,
      upd_block cow (ref_cnt_update (\<lambda>c. c + 1)) p1)"
    using a hit
    by (simp add: redirect_partial_hit_def apply_cow_def nb py_index_def py_set_def Let_def set_blocks_def)
  then show ?thesis using d nb by (simp add: blocks_of_def set_blocks_def dict_get_update)
qed

lemma redirect_partial_hit_short:
  assumes "mgr_inv others m p" and "map_of (partial_hit_reqs m) r \<noteq> None" and "get_num_free_blocks p < 1"
  shows "redirect_partial_hit env r m p = Inl ValueError"
  using assms al.alloc_short [OF mgr_inv_pool [OF assms(1)] assms(3)]
  by (auto simp: redirect_partial_hit_def Let_def)

lemma allocate_run:
  fixes cdiv :: "int \<Rightarrow> int \<Rightarrow> int" and ntok :: int
  assumes inv: "mgr_inv others m p" and env: "env_ok env" and ok: "pending_hit_ok r m"
    and align: "\<not> mamba_align m"
  defines "missing \<equiv> max 0 ((if manager_cls m = KpoolTailManager then 1
      else cdiv (tokens_to_hold m ntok) (block_size m)) - int (length (blocks_of m r)))"
  shows "allocate_new_blocks cdiv env r ntok ntok_main m p =
    bind_res (redirect_partial_hit env r m p) (\<lambda>(cow, m1, p1).
      if missing \<le> 0 then Inr (cow, open_table r m1, p1)
      else bind_res (extend_table env r missing m1 p1) (\<lambda>(new, m2, p2). Inr (cow @ new, m2, p2)))"
proof (cases "manager_cls m = KpoolTailManager")
  case True
  then have "redirect_partial_hit env r m p = Inr ([], m, p)"
    using ok by (auto simp: redirect_partial_hit_def pending_hit_ok_def split: option.splits)
  moreover have "missing = (if 1 \<le> length (blocks_of m r) then 0 else 1)"
    using True by (cases "blocks_of m r") (simp_all add: missing_def)
  ultimately show ?thesis
    using True by (cases "extend_table env r 1 m p") (auto simp: allocate_new_blocks_def kpool_allocate_def)
next
  case False
  show ?thesis
  proof (cases "redirect_partial_hit env r m p")
    case (Inr x)
    obtain cow m1 p1 where x: "x = (cow, m1, p1)" by (cases x)
    note d = redirect_partial_hit_ok [OF Inr [unfolded x] env inv]
    have "missing = max 0 (cdiv (tokens_to_hold m ntok) (block_size m1) - int (length (blocks_of m1 r)))"
      using d False by (simp add: missing_def)
    then show ?thesis
      by (simp add: allocate_is_base [OF False align] base_allocate_new_blocks_def Inr x Let_def max_def)
  qed (simp add: allocate_is_base [OF False align] base_allocate_new_blocks_def)
qed

text \<open>What the redirection of a partial hit leaves for the blocks that follow\<close>

lemma redirect_head:
  assumes inv: "mgr_inv others m p" and env: "env_ok env" and ok: "pending_hit_ok r m"
    and run: "redirect_partial_hit env r m p = Inr (cow, m1, p1)"
  shows "distinct cow \<and> (\<forall>b \<in> set cow. pool_block p b \<and> block_refs p b = 0 \<and> 0 < block_refs p1 b)
    \<and> (\<forall>b. b \<notin> set cow \<longrightarrow> block_refs p1 b = block_refs p b) \<and> pool_block p1 = pool_block p
    \<and> (case map_of (partial_hit_reqs m) r of
         None \<Rightarrow> cow = [] \<and> blocks_of m1 r = blocks_of m r
       | Some (idx, src) \<Rightarrow> \<exists>c. cow = [c] \<and> blocks_of m1 r = (blocks_of m r)[nat idx := c]
           \<and> pending_cow_copies m1 = pending_cow_copies m @ [(src, c)])"
proof (cases "map_of (partial_hit_reqs m) r")
  case None
  then show ?thesis using run by (simp add: redirect_partial_hit_def)
next
  case (Some h)
  obtain idx src where h: "h = (idx, src)" by (cases h)
  have "1 \<le> get_num_free_blocks p"
    using redirect_partial_hit_short [OF inv, of r env] run Some by (cases "get_num_free_blocks p < 1") auto
  from redirect_partial_hit_success [OF inv env Some [unfolded h] _ _ _ _ this] ok
  show ?thesis using run Some h by (auto simp: pending_hit_ok_def)
qed

lemma allocate_new_blocks_eq:
  fixes cdiv :: "int \<Rightarrow> int \<Rightarrow> int" and ntok :: int
  assumes inv: "mgr_inv others m p" and env: "env_ok env" and "\<not> mamba_align m" and "pending_hit_ok r m"
  defines "missing \<equiv> max 0 ((if manager_cls m = KpoolTailManager then 1
      else cdiv (tokens_to_hold m ntok) (block_size m)) - int (length (blocks_of m r)))"
    and "copies \<equiv> (if map_of (partial_hit_reqs m) r = None then 0 else 1)"
  shows "if get_num_free_blocks p < missing + copies
    then allocate_new_blocks cdiv env r ntok ntok_main m p = Inl ValueError
    else \<exists>new ext m' p'. allocate_new_blocks cdiv env r ntok ntok_main m p = Inr (new, m', p')
      \<and> int (length ext) = missing \<and> distinct new
      \<and> (case map_of (partial_hit_reqs m) r of
           None \<Rightarrow> new = ext \<and> blocks_of m' r = blocks_of m r @ ext
         | Some (idx, src) \<Rightarrow> \<exists>cow. new = cow # ext \<and> blocks_of m' r = (blocks_of m r)[nat idx := cow] @ ext
             \<and> pending_cow_copies m' = pending_cow_copies m @ [(src, cow)])
      \<and> (\<forall>b \<in> set new. b \<noteq> 0 \<and> ref_cnt (blk p b) = 0 \<and> (\<forall>q. b \<notin> set (blocks_of m q)))
      \<and> (\<forall>b \<in> set ext. ref_cnt (blk p' b) = 1)
      \<and> (\<forall>q. q \<noteq> r \<longrightarrow> blocks_of m' q = blocks_of m q) \<and> mgr_inv others m' p'"
proof -
  note run = allocate_run [OF inv env assms(4,3), of cdiv ntok ntok_main, folded missing_def]
  have nonneg: "0 \<le> get_num_free_blocks p" using num_free_card [OF mgr_inv_pool [OF inv]] by simp
  have missing: "0 \<le> missing" by (simp add: missing_def)
  have fresh: "b \<noteq> 0 \<and> ref_cnt (blk p b) = 0 \<and> (\<forall>q. b \<notin> set (blocks_of m q))"
    if "pool_block p b" "block_refs p b = 0" for b
    using that free_not_in_table [OF inv that] by (auto simp: pool_block_def)
  show ?thesis
  proof (cases "redirect_partial_hit env r m p")
    case (Inl e)
    then have "map_of (partial_hit_reqs m) r \<noteq> None"
      by (cases "map_of (partial_hit_reqs m) r") (auto simp: redirect_partial_hit_def)
    moreover from this have "get_num_free_blocks p < 1"
      using redirect_partial_hit_success [OF inv env] assms(4) Inl
      by (fastforce simp: pending_hit_ok_def split: option.splits)
    ultimately show ?thesis
      using redirect_partial_hit_short [OF inv] missing by (auto simp: run copies_def)
  next
    case (Inr x)
    obtain cow m1 p1 where x: "x = (cow, m1, p1)" by (cases x)
    note red = Inr [unfolded x]
    note d = redirect_partial_hit_ok [OF red env inv]
    note head = redirect_head [OF inv env assms(4) red]
    have inv1: "mgr_inv others m1 p1" using d by simp
    have free1: "get_num_free_blocks p1 = get_num_free_blocks p - copies" using d by (simp add: copies_def)
    show ?thesis
    proof (cases "get_num_free_blocks p < missing + copies")
      case True
      then have "get_num_free_blocks p1 < missing" using free1 by simp
      moreover from this have "0 < missing"
        using num_free_card [OF mgr_inv_pool [OF inv1]] by simp
      ultimately show ?thesis using True extend_table_short [OF inv1] by (simp add: run red)
    next
      case fits: False
      obtain ext m' p' where e: "allocate_new_blocks cdiv env r ntok ntok_main m p = Inr (cow @ ext, m', p')"
        "mgr_inv others m' p'" "blocks_of m' r = blocks_of m1 r @ ext" "int (length ext) = missing" "distinct ext"
        "\<forall>q. q \<noteq> r \<longrightarrow> blocks_of m' q = blocks_of m1 q" "pending_cow_copies m' = pending_cow_copies m1"
        "\<forall>b \<in> set ext. pool_block p1 b \<and> block_refs p1 b = 0 \<and> block_refs p' b = 1"
      proof (cases "missing \<le> 0")
        case True
        then show thesis
          using that [of "[]" "open_table r m1" p1] missing mgr_inv_open_table [OF inv1] by (simp add: run red)
      next
        case False
        then obtain ext m' p' where e: "extend_table env r missing m1 p1 = Inr (ext, m', p')" "distinct ext"
          using extend_table_success [OF inv1 env missing, of r] fits free1 by auto
        have "pending_cow_copies m' = pending_cow_copies m1" using e(1) by (auto simp: extend_table_def res_simps)
        then show thesis
          using that [of ext m' p'] e extend_table_ok [OF e(1) env missing inv1] False by (simp add: run red)
      qed
      have "set cow \<inter> set ext = {}" using head e(8) by fastforce
      then have "distinct (cow @ ext)" using head e(5) by simp
      moreover have "\<forall>b \<in> set (cow @ ext). b \<noteq> 0 \<and> ref_cnt (blk p b) = 0 \<and> (\<forall>q. b \<notin> set (blocks_of m q))"
        using head e(8) \<open>set cow \<inter> set ext = {}\<close> fresh by fastforce
      moreover have "\<forall>q. q \<noteq> r \<longrightarrow> blocks_of m' q = blocks_of m q" using e(6) d by simp
      moreover have "case map_of (partial_hit_reqs m) r of
           None \<Rightarrow> cow @ ext = ext \<and> blocks_of m' r = blocks_of m r @ ext
         | Some (idx, src) \<Rightarrow> \<exists>c. cow @ ext = c # ext \<and> blocks_of m' r = (blocks_of m r)[nat idx := c] @ ext
             \<and> pending_cow_copies m' = pending_cow_copies m @ [(src, c)]"
        using head e(3,7) by (auto split: option.splits)
      moreover have "\<forall>b \<in> set ext. ref_cnt (blk p' b) = 1" using e(8) by simp
      ultimately show ?thesis
        unfolding if_not_P [OF fits] using e(1,2,4)
        by - (rule exI [of _ "cow @ ext"], rule exI [of _ ext], rule exI [of _ m'], rule exI [of _ p'], intro conjI)
    qed
  qed
qed

text \<open>
  C17. Allocation up to a number of tokens, for every manager but mamba in align mode.  The table
  must hold one block per \<open>block_size\<close> tokens, mamba's speculative blocks included, and for the
  kpool tail one block.  When the missing blocks, and one more for a pending partial hit, are free,
  the table grows at its end by just the missing blocks and the tail block of a partial hit is
  replaced by a copy whose source is noted; the blocks handed out are distinct, were unreferenced
  before and in no table, and the other tables stay.  When they are not free, \<open>ValueError\<close> is
  raised.
\<close>

theorem allocate_new_blocks_correct:
  fixes cdiv :: "int \<Rightarrow> int \<Rightarrow> int" and ntok :: int
  assumes inv: "mgr_inv others m p" and env: "env_ok env" and "\<not> mamba_align m" and "pending_hit_ok r m"
  defines "missing \<equiv> max 0 ((if manager_cls m = KpoolTailManager then 1
      else cdiv (tokens_to_hold m ntok) (block_size m)) - int (length (blocks_of m r)))"
    and "copies \<equiv> (if map_of (partial_hit_reqs m) r = None then 0 else 1)"
  shows "if get_num_free_blocks p < missing + copies
    then allocate_new_blocks cdiv env r ntok ntok_main m p = Inl ValueError
    else \<exists>new ext m' p'. allocate_new_blocks cdiv env r ntok ntok_main m p = Inr (new, m', p')
      \<and> int (length ext) = missing \<and> distinct new
      \<and> (case map_of (partial_hit_reqs m) r of
           None \<Rightarrow> new = ext \<and> blocks_of m' r = blocks_of m r @ ext
         | Some (idx, src) \<Rightarrow> \<exists>cow. new = cow # ext \<and> blocks_of m' r = (blocks_of m r)[nat idx := cow] @ ext
             \<and> pending_cow_copies m' = pending_cow_copies m @ [(src, cow)])
      \<and> (\<forall>b \<in> set new. b \<noteq> 0 \<and> ref_cnt (blk p b) = 0 \<and> (\<forall>q. b \<notin> set (blocks_of m q)))
      \<and> (\<forall>b \<in> set ext. ref_cnt (blk p' b) = 1)
      \<and> (\<forall>q. q \<noteq> r \<longrightarrow> blocks_of m' q = blocks_of m q) \<and> mgr_inv others m' p'"
  unfolding missing_def copies_def by (rule allocate_new_blocks_eq [OF assms(1-4)])

theorem allocate_new_blocks_correct_witness:
  "\<exists>new m' p'. allocate_new_blocks sample_cdiv sample_env ''a'' 5 5 (sample_manager FullAttentionSpec) sample_pool
      = Inr (new, m', p') \<and> length new = 3 \<and> blocks_of m' ''a'' = new"
proof -
  have ok: "pool_ok sample_pool" unfolding pool_ok_def using sample_pool_facts(1) by blast
  have "mgr_inv (\<lambda>b. nat (block_refs sample_pool b)) (sample_manager FullAttentionSpec) sample_pool"
    using new_manager_good [OF sample_manager_run ok] by (simp add: mgr_good_def sample_spec_def)
  note run = allocate_new_blocks_correct [OF this sample_env_ok, where r = "''a''" and cdiv = sample_cdiv
      and ntok = 5 and ntok_main = 5]
  have "get_num_free_blocks sample_pool = 4" using pool_inv_num_free [OF sample_pool_facts(1)] by simp
  then show ?thesis
    using run by (auto simp: blocks_of_def dict_get_def sample_cdiv_def mamba_align_def pending_hit_ok_def
      tokens_to_hold_def)
qed

lemma base_allocate_new_blocks_success:
  assumes inv: "mgr_inv others m p" and env: "env_ok env"
    and hit: "\<And>idx src. map_of (partial_hit_reqs m) r = Some (idx, src) \<Longrightarrow>
      0 \<le> idx \<and> idx < int (length (blocks_of m r)) \<and> blocks_of m r ! nat idx = src \<and> src \<noteq> 0"
    and free: "(if map_of (partial_hit_reqs m) r = None then 0 else 1)
      + max 0 (cdiv ntok (block_size m) - int (length (blocks_of m r))) \<le> get_num_free_blocks p"
  shows "\<exists>new m' p'. base_allocate_new_blocks cdiv env r ntok m p = Inr (new, m', p')
    \<and> cdiv ntok (block_size m) \<le> int (length (blocks_of m' r))"
proof -
  obtain cow m1 p1 where s: "redirect_partial_hit env r m p = Inr (cow, m1, p1)"
  proof (cases "map_of (partial_hit_reqs m) r")
    case None
    then show ?thesis using that by (simp add: redirect_partial_hit_def)
  next
    case (Some h)
    obtain idx src where h: "map_of (partial_hit_reqs m) r = Some (idx, src)" using Some by (cases h) auto
    have "1 \<le> get_num_free_blocks p" using free h by (simp add: max_def split: if_splits)
    then obtain c m1 p1 where "redirect_partial_hit env r m p = Inr ([c], m1, p1)"
      using redirect_partial_hit_success [OF inv env h] hit [OF h] by blast
    then show ?thesis using that by blast
  qed
  note d = redirect_partial_hit_ok [OF s env inv]
  let ?n = "cdiv ntok (block_size m1) - int (length (blocks_of m1 r))"
  have "\<exists>new m' p'. base_allocate_new_blocks cdiv env r ntok m p = Inr (new, m', p')"
  proof (cases "?n \<le> 0")
    case True
    then show ?thesis using s by (simp add: base_allocate_new_blocks_def Let_def)
  next
    case False
    have "?n \<le> get_num_free_blocks p1" using d free by (simp add: max_def split: if_splits)
    then obtain new m' p' where "extend_table env r ?n m1 p1 = Inr (new, m', p')"
      using extend_table_success [OF conjunct1 [OF d] env, of ?n r] False by auto
    then show ?thesis using s False by (simp add: base_allocate_new_blocks_def Let_def)
  qed
  then show ?thesis using base_allocate_new_blocks_ok [OF _ env inv] by fastforce
qed

lemma div_le_cdiv: "cdiv_law cdiv \<Longrightarrow> 0 < k \<Longrightarrow> a \<le> b \<Longrightarrow> a div k \<le> cdiv b k"
proof -
  assume c: "cdiv_law cdiv" "0 < k" "a \<le> b"
  have "a div k * k \<le> b" using c le_div_int_iff [OF c(2), of "a div k" b] zdiv_mono1 [OF c(3,2)] by simp
  also have "\<dots> \<le> cdiv b k * k" by (rule cdiv_bounds [OF c(1,2)])
  finally show ?thesis using c(2) by simp
qed

lemma cdiv_partial: "cdiv_law cdiv \<Longrightarrow> 0 < k \<Longrightarrow> a mod k \<noteq> 0 \<Longrightarrow> cdiv a k = a div k + 1"
  by (simp add: cdiv_law_def zdiv_zminus1_eq_if)

lemma base_external_success:
  assumes inv: "mgr_inv others m p" and env: "env_ok env"
    and fits: "int (length (blocks_of m r)) \<le> cdiv (num_local + num_external) (block_size m)"
    and free: "cdiv (num_local + num_external) (block_size m) - int (length (blocks_of m r))
      \<le> get_num_free_blocks p"
  obtains m' p' new where
    "base_allocate_external_computed_blocks cdiv env r num_local num_external m p = Inr (m', p')"
    "mgr_inv others m' p'" "block_size m' = block_size m" "manager_cls m' = manager_cls m"
    "partial_hit_reqs m' = partial_hit_reqs m" "blocks_of m' r = blocks_of m r @ new"
    "get_num_free_blocks p' = get_num_free_blocks p - int (length new)"
    "new = [] \<or> int (length (blocks_of m' r)) = cdiv (num_local + num_external) (block_size m)"
    "kv_cache_spec m' = kv_cache_spec m"
proof -
  let ?n = "cdiv (num_local + num_external) (block_size m) - int (length (blocks_of m r))"
  have n: "0 \<le> ?n" using fits by simp
  obtain new m1 p1 where e: "extend_table env r ?n m p = Inr (new, m1, p1)"
    using extend_table_success [OF inv env n free, of r] by blast
  note d = extend_table_ok [OF e env n inv]
  show thesis
  proof (cases "base_allocate_external_computed_blocks cdiv env r num_local num_external m p = Inr (m, p)")
    case True
    then show thesis using that [of m p "[]"] inv by simp
  next
    case False
    then have "base_allocate_external_computed_blocks cdiv env r num_local num_external m p = Inr (m1, p1)"
      using e by (auto simp: base_allocate_external_computed_blocks_def Let_def)
    then show thesis using that [of m1 p1 new] d by auto
  qed
qed

lemma evictable_bound:
  assumes "pool_ok p"
  shows "int (card {b \<in> set bs. pool_block p b \<and> block_refs p b = 0}) \<le> num_evictable_blocks p bs"
proof -
  have "{b \<in> set bs. pool_block p b \<and> block_refs p b = 0}
      \<subseteq> set (filter (\<lambda>b. ref_cnt (blk p b) = 0 \<and> \<not> is_null (blk p b)) bs)"
    using pool_ok_is_null [OF assms] by (auto simp: pool_block_def)
  then have "card {b \<in> set bs. pool_block p b \<and> block_refs p b = 0}
      \<le> card (set (filter (\<lambda>b. ref_cnt (blk p b) = 0 \<and> \<not> is_null (blk p b)) bs))"
    by (rule card_mono [rotated]) simp
  also have "\<dots> \<le> length (filter (\<lambda>b. ref_cnt (blk p b) = 0 \<and> \<not> is_null (blk p b)) bs)"
    by (rule card_length)
  finally show ?thesis by (simp add: num_evictable_blocks_def)
qed

lemma base_add_local_success:
  assumes inv: "mgr_inv others m p" and empty: "blocks_of m r = []"
    and blocks: "\<forall>b \<in> set new_computed. int b < num_gpu_blocks p"
    and caching: "mgr_enable_caching m \<or> new_computed = []"
    and nskip: "nskip = nat (get_num_skipped_tokens m (num_local + num_external) div block_size m)"
  obtains m' p' where "base_add_local_computed_blocks r new_computed num_local num_external m p = Inr (m', p')"
    "get_num_free_blocks p - num_evictable_blocks p (drop nskip new_computed) \<le> get_num_free_blocks p'"
proof -
  let ?kept = "drop nskip new_computed"
  let ?k = "get_num_skipped_tokens m (num_local + num_external) div block_size m"
  have ok: "pool_ok p" by (rule mgr_inv_pool [OF inv])
  have kept: "(if ?k > 0 then drop (nat ?k) new_computed else new_computed) = ?kept"
    by (simp add: nskip)
  have "\<forall>b \<in> set ?kept. b = 0 \<or> pool_block p b"
    using blocks in_range_or_null [OF ok] in_set_dropD by fast
  from al.pin_ok [OF ok this] obtain p' where p': "touch ?kept p = Inr p'"
    "get_num_free_blocks p' = get_num_free_blocks p - int (card {b \<in> set ?kept. pool_block p b \<and> block_refs p b = 0})"
    by blast
  show thesis
  proof (cases "mgr_enable_caching m")
    case True
    then have "base_add_local_computed_blocks r new_computed num_local num_external m p
        = Inr (enter_hit r ?kept (replicate (nat ?k) (null_block p) @ ?kept) num_local m, p')"
      using p'(1) empty unfolding base_add_local_computed_blocks_def Let_def kept by simp
    then show thesis using that p'(2) evictable_bound [OF ok, of ?kept] by simp
  next
    case False
    then have none: "new_computed = []" using caching by simp
    then have "base_add_local_computed_blocks r new_computed num_local num_external m p
        = Inr (enter_hit r ?kept (replicate (nat ?k) (null_block p) @ ?kept) num_local m, p)"
      using False empty unfolding base_add_local_computed_blocks_def Let_def kept by simp
    then show thesis using that none by (simp add: num_evictable_blocks_def)
  qed
qed

text \<open>Windows and chunks skip no token that is still to come.\<close>

definition windows_sane :: "kv_spec \<Rightarrow> bool" where
  "windows_sane spec \<longleftrightarrow>
     1 \<le> sp_sliding_window spec + sp_extra_retained_tokens spec \<and> 0 < sp_attention_chunk_size spec"

lemma skipped_tokens_bound:
  assumes "windows_sane (kv_cache_spec m)" and "0 \<le> n"
  shows "get_num_skipped_tokens m n \<le> n"
proof -
  have c: "0 < sp_attention_chunk_size (kv_cache_spec m)" using assms(1) by (simp add: windows_sane_def)
  have "n div sp_attention_chunk_size (kv_cache_spec m) * sp_attention_chunk_size (kv_cache_spec m) \<le> n"
    using le_div_int_iff [OF c] by blast
  then show ?thesis
    using assms by (cases "manager_cls m") (auto simp: get_num_skipped_tokens_def window_skipped_tokens_def
        chunk_skipped_tokens_def mamba_skipped_tokens_def windows_sane_def)
qed

text \<open>The calls for a new request, of the managers that inherit all of them\<close>

lemma base_admission_suffices:
  assumes inv: "mgr_inv others m p" and env: "env_ok env" and cd: "cdiv_law cdiv"
    and bs: "0 < block_size m" and skip: "get_num_skipped_tokens m (num_local + num_external) \<le> num_local + num_external"
    and new: "blocks_of m r = []" "map_of (num_cached_block m) r = None" "map_of (partial_hit_reqs m) r = None"
    and hit: "\<forall>b \<in> set new_computed. int b < num_gpu_blocks p" "mgr_enable_caching m \<or> new_computed = []"
      "int (length new_computed) = cdiv num_local (block_size m)"
      "num_local mod block_size m \<noteq> 0 \<Longrightarrow> last new_computed \<noteq> 0"
    and tokens: "0 \<le> num_local" "0 \<le> num_external" "num_local + num_external \<le> ntok"
    and count: "base_num_blocks_to_allocate cdiv p m r ntok new_computed (num_local + num_external) num_local False = Inr n"
    and free: "n \<le> get_num_free_blocks p"
  shows "\<exists>m1 p1 m2 p2 allocated m3 p3.
    base_add_local_computed_blocks r new_computed num_local num_external m p = Inr (m1, p1)
    \<and> base_allocate_external_computed_blocks cdiv env r num_local num_external m1 p1 = Inr (m2, p2)
    \<and> base_allocate_new_blocks cdiv env r ntok m2 p2 = Inr (allocated, m3, p3)
    \<and> manager_cls m1 = manager_cls m \<and> manager_cls m2 = manager_cls m
    \<and> kv_cache_spec m2 = kv_cache_spec m \<and> block_size m2 = block_size m
    \<and> cdiv ntok (block_size m) \<le> int (length (blocks_of m3 r))"
proof -
  let ?total = "num_local + num_external" and ?bs = "block_size m"
  define k where "k = max 0 (get_num_skipped_tokens m ?total div ?bs)"
  define nskip where "nskip = nat (get_num_skipped_tokens m ?total div ?bs)"
  define kept where "kept = drop nskip new_computed"
  have nskip: "int nskip = k" by (simp add: nskip_def k_def)
  have ceil0: "0 \<le> cdiv ?total ?bs"
    using div_le_cdiv [OF cd bs, of 0 ?total] tokens by simp
  have k: "0 \<le> k" "k \<le> cdiv ?total ?bs"
    using div_le_cdiv [OF cd bs skip] ceil0 by (simp_all add: k_def)
  obtain m1 p1 where s1: "base_add_local_computed_blocks r new_computed num_local num_external m p = Inr (m1, p1)"
    "get_num_free_blocks p - num_evictable_blocks p kept \<le> get_num_free_blocks p1"
    using base_add_local_success [OF inv new(1) hit(1,2), of nskip num_local num_external]
    unfolding kept_def nskip_def by blast
  note d1 = base_add_local_ok [OF s1(1) inv hit(1)]
  have tab: "blocks_of m1 r = replicate nskip 0 @ kept"
    using d1 by (simp add: nskip_def kept_def)
  have len1: "int (length (blocks_of m1 r)) = max k (int (length new_computed))"
    using nskip by (auto simp: tab kept_def)
  have need: "n = max (cdiv ntok ?bs - max k (int (length new_computed))) 0
      + (if has_partial_local_hit m new_computed num_local then 1 else 0) + num_evictable_blocks p kept"
  proof -
    have "max (get_num_skipped_tokens m ?total div ?bs) (int (length new_computed)) = max k (int (length new_computed))"
      "nat (max 0 (get_num_skipped_tokens m ?total div ?bs)) = nskip" by (simp_all add: k_def nskip_def)
    then show ?thesis
      using count new by (cases "max_admission_blocks m")
        (auto simp: base_num_blocks_to_allocate_def Let_def kept_def)
  qed
  have mono: "cdiv num_local ?bs \<le> cdiv ?total ?bs" "cdiv ?total ?bs \<le> cdiv ntok ?bs"
    using cdiv_mono [OF cd bs] tokens by simp_all
  have same1: "block_size m1 = ?bs" "manager_cls m1 = manager_cls m" "kv_cache_spec m1 = kv_cache_spec m"
    using d1 by simp_all
  have fits: "int (length (blocks_of m1 r)) \<le> cdiv ?total (block_size m1)"
    using len1 k(2) hit(3) mono(1) by (simp add: same1)
  have "cdiv ?total (block_size m1) - int (length (blocks_of m1 r)) \<le> get_num_free_blocks p1"
    using need free s1(2) mono(2) unfolding len1 same1 by (simp split: if_splits)
  then obtain m2 p2 ext where s2:
    "base_allocate_external_computed_blocks cdiv env r num_local num_external m1 p1 = Inr (m2, p2)"
    "mgr_inv others m2 p2" "block_size m2 = block_size m1" "manager_cls m2 = manager_cls m1"
    "partial_hit_reqs m2 = partial_hit_reqs m1" "blocks_of m2 r = blocks_of m1 r @ ext"
    "get_num_free_blocks p2 = get_num_free_blocks p1 - int (length ext)"
    "ext = [] \<or> int (length (blocks_of m2 r)) = cdiv ?total (block_size m1)"
    "kv_cache_spec m2 = kv_cache_spec m1"
    using base_external_success [of others m1 p1 env r cdiv num_local num_external] conjunct1 [OF d1] env fits
    by blast
  have partial: "map_of (partial_hit_reqs m2) r =
      (if has_partial_local_hit m kept num_local then Some (num_local div ?bs, last kept) else None)"
    using d1 new(3) by (simp add: s2(5) kept_def nskip_def dict_simps)
  have source: "0 \<le> idx \<and> idx < int (length (blocks_of m2 r)) \<and> blocks_of m2 r ! nat idx = src \<and> src \<noteq> 0"
    if h: "map_of (partial_hit_reqs m2) r = Some (idx, src)" for idx src
  proof -
    have ph: "has_partial_local_hit m kept num_local" "idx = num_local div ?bs" "src = last kept"
      using partial h by (auto split: if_splits)
    then have ne: "kept \<noteq> []" and odd: "num_local mod ?bs \<noteq> 0" by (simp_all add: has_partial_local_hit_def)
    have "0 \<le> idx" using ph(2) tokens(1) bs by (simp add: pos_imp_zdiv_nonneg_iff)
    have "int (length new_computed) = idx + 1" using hit(3) cdiv_partial [OF cd bs odd] ph(2) by simp
    then have len: "length (blocks_of m1 r) = Suc (nat idx)"
      using ne len1 nskip \<open>0 \<le> idx\<close> by (auto simp: kept_def)
    then have "blocks_of m1 r ! nat idx = last (blocks_of m1 r)"
      by (metis diff_Suc_1 last_conv_nth length_0_conv nat.distinct(1))
    also have "\<dots> = src" using ne by (simp add: tab ph(3))
    finally have "blocks_of m2 r ! nat idx = src" using len by (simp add: s2(6) nth_append)
    moreover have "src \<noteq> 0" using hit(4) odd ne by (simp add: ph(3) kept_def)
    ultimately show ?thesis using \<open>0 \<le> idx\<close> len s2(6) by auto
  qed
  have "has_partial_local_hit m kept num_local \<Longrightarrow> has_partial_local_hit m new_computed num_local"
    by (auto simp: has_partial_local_hit_def kept_def)
  then have copies: "(if map_of (partial_hit_reqs m2) r = None then 0 else (1 :: int))
      \<le> (if has_partial_local_hit m new_computed num_local then 1 else 0)"
    by (simp add: partial)
  have left: "max (cdiv ntok ?bs - int (length (blocks_of m1 r))) 0
      + (if has_partial_local_hit m new_computed num_local then 1 else 0) \<le> get_num_free_blocks p1"
    using need free s1(2) unfolding len1 by linarith
  have len2: "int (length (blocks_of m2 r)) = int (length (blocks_of m1 r)) + int (length ext)"
    by (simp add: s2(6))
  have grown: "length ext = 0 \<or> int (length (blocks_of m1 r)) + int (length ext) \<le> cdiv ntok ?bs"
    using s2(6,8) mono(2) by (auto simp: same1)
  then have "(if map_of (partial_hit_reqs m2) r = None then 0 else 1)
      + max 0 (cdiv ntok (block_size m2) - int (length (blocks_of m2 r))) \<le> get_num_free_blocks p2"
    using grown copies left unfolding len2 s2(3,7) same1 by (elim disjE) linarith+
  from base_allocate_new_blocks_success [where cdiv = cdiv and ntok = ntok, OF s2(2) env source this]
  show ?thesis using s1(1) s2(1,3,4,9) same1 by auto
qed

lemma free_below_size:
  assumes "mgr_inv others m p"
  shows "get_num_free_blocks p < num_gpu_blocks p + 1"
proof -
  have "card {b. pool_block p b \<and> block_refs p b = 0} \<le> card {..<nat (num_gpu_blocks p)}"
    by (rule card_mono) (auto simp: pool_block_def)
  moreover have "0 \<le> num_gpu_blocks p" using mgr_inv_pool [OF assms] by (auto simp: pool_ok_def pool_inv_def)
  ultimately show ?thesis using num_free_card [OF mgr_inv_pool [OF assms]] by simp
qed

lemma mamba_count_is_base:
  assumes "mgr_inv others m p" and "manager_cls m = MambaManager" and "\<not> mamba_align m"
    and "sp_block_size (kv_cache_spec m) = block_size m"
    and "get_num_blocks_to_allocate cdiv p m r ntok new_computed tot num_local ntok_main False = Inr (n, m0)"
    and "n \<le> get_num_free_blocks p"
  shows "base_num_blocks_to_allocate cdiv p m r (tokens_to_hold m ntok) new_computed tot num_local False = Inr n"
  using assms free_below_size [OF assms(1)]
  by (auto simp: get_num_blocks_to_allocate_def mamba_num_blocks_to_allocate_def mamba_align_def tokens_to_hold_def
      res_simps max_def split: if_splits)

text \<open>
  C16. Admission is sufficient for a new request, for every manager but mamba in align mode: when
  \<open>get_num_blocks_to_allocate\<close> counts at most as many blocks as are free, then taking over the hit
  blocks, allocating the blocks of an external hit and allocating up to the tokens to come, the
  copy of a partial hit included, all succeed, and the table then holds all the tokens (one block
  for the kpool tail).  In align mode the count can be too small when tokens are computed
  elsewhere (\<open>align_admission_too_small\<close> below).
\<close>

theorem admission_is_sufficient:
  assumes inv: "mgr_inv others m p" and env: "env_ok env" and cd: "cdiv_law cdiv"
    and align: "\<not> mamba_align m"
    and bs: "0 < block_size m" and sane: "windows_sane (kv_cache_spec m)"
      "manager_cls m = MambaManager \<Longrightarrow> sp_block_size (kv_cache_spec m) = block_size m"
    and new: "blocks_of m r = []" "map_of (num_cached_block m) r = None" "map_of (partial_hit_reqs m) r = None"
    and hit: "\<forall>b \<in> set new_computed. int b < num_gpu_blocks p" "mgr_enable_caching m \<or> new_computed = []"
      "manager_cls m \<notin> {KpoolTailManager, CrossAttentionManager} \<Longrightarrow>
         int (length new_computed) = cdiv num_local (block_size m)"
      "num_local mod block_size m \<noteq> 0 \<Longrightarrow> last new_computed \<noteq> 0"
      "manager_cls m = CrossAttentionManager \<Longrightarrow> new_computed = []"
    and tokens: "0 \<le> num_local" "0 \<le> num_external" "num_local + num_external \<le> ntok"
    and count: "get_num_blocks_to_allocate cdiv p m r ntok new_computed (num_local + num_external) num_local
      ntok_main False = Inr (n, m0)"
    and free: "n \<le> get_num_free_blocks p"
  shows "\<exists>m1 p1 m2 p2 allocated m3 p3.
    add_local_computed_blocks r new_computed num_local num_external m p = Inr (m1, p1)
    \<and> allocate_external_computed_blocks cdiv env r num_local num_external m1 p1 = Inr (m2, p2)
    \<and> allocate_new_blocks cdiv env r ntok ntok_main m2 p2 = Inr (allocated, m3, p3)
    \<and> (if manager_cls m = KpoolTailManager then 1 else cdiv (tokens_to_hold m ntok) (block_size m))
        \<le> int (length (blocks_of m3 r))"
proof -
  consider "manager_cls m = KpoolTailManager" | "manager_cls m = CrossAttentionManager"
    | "manager_cls m \<notin> {KpoolTailManager, CrossAttentionManager}" by blast
  then show ?thesis
  proof cases
    case 1
    then have "1 \<le> get_num_free_blocks p" using count free new(1) by (auto simp: get_num_blocks_to_allocate_def)
    then obtain b m1 p1 where e: "extend_table env r 1 m p = Inr (b, m1, p1)"
      using extend_table_success [OF inv env, of 1 r] by auto
    note d = extend_table_ok [OF e env _ inv]
    show ?thesis
      using 1 e d new(1)
      by (simp add: add_local_computed_blocks_def allocate_external_computed_blocks_def allocate_new_blocks_def
          kpool_allocate_def)
  next
    case 2
    have none: "new_computed = []" using hit(5) 2 by simp
    have hold: "tokens_to_hold m ntok = ntok" using 2 by (simp add: tokens_to_hold_def)
    have "n = max (cdiv ntok (block_size m)) 0"
      using count 2 new none by (cases "max_admission_blocks m")
        (auto simp: get_num_blocks_to_allocate_def base_num_blocks_to_allocate_def
          get_num_skipped_tokens_def has_partial_local_hit_def num_evictable_blocks_def)
    then have need: "(if map_of (partial_hit_reqs m) r = None then 0 else 1)
        + max 0 (cdiv ntok (block_size m) - int (length (blocks_of m r))) \<le> get_num_free_blocks p"
      using free new by (simp add: max.commute)
    obtain a m3 p3 where "base_allocate_new_blocks cdiv env r ntok m p = Inr (a, m3, p3)"
      "cdiv ntok (block_size m) \<le> int (length (blocks_of m3 r))"
      using base_allocate_new_blocks_success [where cdiv = cdiv and ntok = ntok, OF inv env _ need] new(3) by auto
    then show ?thesis
      using 2 none by (simp add: add_local_computed_blocks_def allocate_external_computed_blocks_def
          allocate_is_base align hold)
  next
    case 3
    have le: "ntok \<le> tokens_to_hold m ntok" using bs by (simp add: tokens_to_hold_def)
    have base: "base_num_blocks_to_allocate cdiv p m r (tokens_to_hold m ntok) new_computed
        (num_local + num_external) num_local False = Inr n"
    proof (cases "manager_cls m = MambaManager")
      case True
      then show ?thesis using mamba_count_is_base [OF inv True align _ count free] sane(2) by blast
    next
      case False
      then show ?thesis
        using 3 count by (cases "manager_cls m") (auto simp: get_num_blocks_to_allocate_def tokens_to_hold_def res_simps)
    qed
    obtain m1 p1 m2 p2 allocated m3 p3 where r:
      "base_add_local_computed_blocks r new_computed num_local num_external m p = Inr (m1, p1)"
      "base_allocate_external_computed_blocks cdiv env r num_local num_external m1 p1 = Inr (m2, p2)"
      "base_allocate_new_blocks cdiv env r (tokens_to_hold m ntok) m2 p2 = Inr (allocated, m3, p3)"
      "manager_cls m1 = manager_cls m" "manager_cls m2 = manager_cls m"
      "kv_cache_spec m2 = kv_cache_spec m" "block_size m2 = block_size m"
      "cdiv (tokens_to_hold m ntok) (block_size m) \<le> int (length (blocks_of m3 r))"
      using base_admission_suffices [OF inv env cd bs skipped_tokens_bound [OF sane(1)] new hit(1,2) _ _ tokens(1,2) _ base free]
        hit(3,4) 3 tokens le by auto
    have "add_local_computed_blocks r new_computed num_local num_external m p = Inr (m1, p1)"
      "allocate_external_computed_blocks cdiv env r num_local num_external m1 p1 = Inr (m2, p2)"
      using 3 r(1,2,4) by (cases "manager_cls m";
        simp add: add_local_computed_blocks_def allocate_external_computed_blocks_def)+
    moreover have "allocate_new_blocks cdiv env r ntok ntok_main m2 p2 = Inr (allocated, m3, p3)"
    proof -
      have "\<not> mamba_align m2" "tokens_to_hold m2 ntok = tokens_to_hold m ntok"
        using align r(5-7) by (simp_all add: mamba_align_def tokens_to_hold_def)
      then show ?thesis using 3 r(3,5) by (simp add: allocate_is_base)
    qed
    ultimately show ?thesis using 3 r(8) by auto
  qed
qed

lemma sample_pool_ok: "pool_ok sample_pool" "pool_ok sample_cached_pool"
proof -
  show "pool_ok sample_pool" unfolding pool_ok_def using sample_pool_facts(1) by blast
  show "pool_ok sample_cached_pool"
    using pool_reachable_inv [OF sample_cached_pool_reachable sample_env_ok] by (simp add: pool_ok_def)
qed

lemma sample_cached_pool_facts:
  "num_gpu_blocks sample_cached_pool = 5" "ref_cnt (blk sample_cached_pool b) = ref_cnt (blk sample_pool b)"
  "is_null (blk sample_cached_pool b) \<longleftrightarrow> b = 0" "get_num_free_blocks sample_cached_pool = 4"
  using sample_cached_pool_keeps pool_inv_num_free [OF sample_pool_facts(1)]
  by (simp_all add: same_blocks_def same_static_def sample_pool_facts sample_pool_idle get_num_free_blocks_def)

lemma sample_manager_inv:
  "pool_ok p \<Longrightarrow> mgr_inv (\<lambda>b. nat (block_refs p b)) (sample_manager FullAttentionSpec) p"
  using new_manager_good [OF sample_manager_run] by (simp add: mgr_good_def sample_spec_def)

theorem admission_is_sufficient_witness:
  "\<exists>m1 p1 allocated m3 p3.
    add_local_computed_blocks ''a'' [1, 2] 3 0 (sample_manager FullAttentionSpec) sample_cached_pool
      = Inr (m1, p1)
    \<and> allocate_new_blocks sample_cdiv sample_env ''a'' 6 6 m1 p1 = Inr (allocated, m3, p3)
    \<and> 3 \<le> int (length (blocks_of m3 ''a''))"
proof -
  let ?m = "sample_manager FullAttentionSpec" and ?p = sample_cached_pool
  have "get_num_blocks_to_allocate sample_cdiv ?p ?m ''a'' 6 [1, 2] (3 + 0) 3 6 False = Inr (4, ?m)"
    by (simp add: get_num_blocks_to_allocate_def base_num_blocks_to_allocate_def blocks_of_def dict_get_def
        get_num_skipped_tokens_def sample_cdiv_def has_partial_local_hit_def num_evictable_blocks_def
        sample_cached_pool_facts sample_pool_idle Let_def)
  from admission_is_sufficient [OF sample_manager_inv [OF sample_pool_ok(2)] sample_env_ok sample_cdiv_law
      _ _ _ _ _ _ _ _ _ _ _ _ _ _ _ this]
  obtain m1 p1 m2 p2 allocated m3 p3 where r:
    "add_local_computed_blocks ''a'' [1, 2] 3 0 ?m ?p = Inr (m1, p1)"
    "allocate_external_computed_blocks sample_cdiv sample_env ''a'' 3 0 m1 p1 = Inr (m2, p2)"
    "allocate_new_blocks sample_cdiv sample_env ''a'' 6 6 m2 p2 = Inr (allocated, m3, p3)"
    "3 \<le> int (length (blocks_of m3 ''a''))"
    by (auto simp: windows_sane_def sample_spec_def mamba_align_def tokens_to_hold_def blocks_of_def [of ?m] dict_get_def [of "[]"]
        sample_cached_pool_facts sample_cdiv_def)
  have "manager_cls m1 = FullAttentionManager"
    using base_add_local_ok [OF _ sample_manager_inv [OF sample_pool_ok(2)], of "''a''" "[1, 2]" 3 0 m1 p1] r(1)
    by (simp add: add_local_computed_blocks_def sample_cached_pool_facts)
  then have "m2 = m1 \<and> p2 = p1"
    using r(2) by (simp add: allocate_external_computed_blocks_def
        base_allocate_external_computed_blocks_def get_num_skipped_tokens_def)
  then show ?thesis using r by auto
qed

text \<open>
  C18. Giving back a request never fails: its table and its marks are gone, each of its blocks
  has as many references less as places in the table, every other table stays, and the blocks
  without a reference are free.
\<close>

theorem free_request_gives_back:
  assumes "mgr_inv others m p"
  shows "\<exists>m' p'. free_request r m p = Inr (m', p') \<and> blocks_of m' r = []
    \<and> map_of (num_cached_block m') r = None \<and> map_of (partial_hit_reqs m') r = None
    \<and> (\<forall>q. q \<noteq> r \<longrightarrow> blocks_of m' q = blocks_of m q)
    \<and> (\<forall>b. ref_cnt (blk p' b) = ref_cnt (blk p b) - int (count_list (blocks_of m r) b))
    \<and> get_num_free_blocks p' = int (card {b. pool_block p b
        \<and> ref_cnt (blk p b) = int (count_list (blocks_of m r) b)})"
proof -
  obtain m' p' where f: "free_request r m p = Inr (m', p')" "mgr_inv others m' p'" "blocks_of m' r = []"
    "\<forall>q. q \<noteq> r \<longrightarrow> blocks_of m' q = blocks_of m q"
    "map_of (num_cached_block m') r = None" "map_of (partial_hit_reqs m') r = None"
    "\<forall>b. block_refs p' b = block_refs p b - int (count_list (blocks_of m r) b)" "pool_block p' = pool_block p"
    using free_request_ok [OF assms, of r] by blast
  have "get_num_free_blocks p' = int (card {b. pool_block p b
      \<and> block_refs p b = int (count_list (blocks_of m r) b)})"
    using num_free_card [OF mgr_inv_pool [OF f(2)]] f(7,8) by (auto intro!: arg_cong [where f = card])
  then show ?thesis using f by blast
qed

theorem free_request_gives_back_witness:
  "\<exists>m' p'. free_request ''a'' (sample_manager FullAttentionSpec) sample_pool = Inr (m', p')
    \<and> blocks_of m' ''a'' = [] \<and> ref_cnt (blk p' 1) = 0"
  using free_request_gives_back [OF sample_manager_inv [OF sample_pool_ok(1)], of "''a''"]
    sample_pool_idle(3) [of 1]
  by (auto simp: blocks_of_def [of "sample_manager FullAttentionSpec"] dict_get_def [of "[]"])

text \<open>Nulling a range of places from the right, when the null places of the range come first\<close>

lemma null_out_range:
  assumes "hi \<le> length bs" and "\<forall>i j. lo \<le> i \<longrightarrow> i < j \<longrightarrow> j < hi \<longrightarrow> bs ! j = 0 \<longrightarrow> bs ! i = 0"
  shows "\<exists>out freed'. null_out 0 (rev [int lo..int hi - 1]) bs freed = Inr (out, freed')
    \<and> out = map (\<lambda>j. if lo \<le> j \<and> j < hi then 0 else bs ! j) [0..<length bs]
    \<and> (\<forall>b. b \<noteq> 0 \<longrightarrow> count_list freed' b = count_list freed b + card {j. lo \<le> j \<and> j < hi \<and> bs ! j = b})"
  using assms
proof (induction hi arbitrary: bs freed)
  case 0
  have "map (\<lambda>j. if lo \<le> j \<and> j < 0 then 0 else bs ! j) [0..<length bs] = bs" by (simp add: map_nth)
  then show ?case by simp
next
  case (Suc h)
  show ?case
  proof (cases "lo \<le> h")
    case False
    then have "map (\<lambda>j. if lo \<le> j \<and> j < Suc h then 0 else bs ! j) [0..<length bs] = map ((!) bs) [0..<length bs]"
      by (intro map_cong) auto
    moreover have "{j. lo \<le> j \<and> j < Suc h \<and> bs ! j = b} = {}" for b using False by auto
    ultimately show ?thesis using False by (simp add: map_nth)
  next
    case True
    have up: "rev [int lo..int (Suc h) - 1] = int h # rev [int lo..int h - 1]"
      using upto_rec2 [of "int lo" "int h"] True by simp
    have idx: "py_index bs (int h) = Inr (bs ! h)" "py_set bs (int h) 0 = Inr (bs[h := 0])"
      using Suc.prems(1) by (simp_all add: py_index_def py_set_def Let_def)
    show ?thesis
    proof (cases "bs ! h = 0")
      case zero: True
      have "bs ! j = 0" if "lo \<le> j" "j < Suc h" for j
        using zero Suc.prems(2) [rule_format, of j h] that by (cases "j = h") auto
      then have "card {j. lo \<le> j \<and> j < Suc h \<and> bs ! j = b} = 0" if "b \<noteq> 0" for b using that by auto
      moreover have "map (\<lambda>j. if lo \<le> j \<and> j < Suc h then 0 else bs ! j) [0..<length bs] = map ((!) bs) [0..<length bs]"
        using \<open>\<And>j. lo \<le> j \<Longrightarrow> j < Suc h \<Longrightarrow> bs ! j = 0\<close> by (intro map_cong) auto
      ultimately show ?thesis using zero unfolding up by (simp add: idx map_nth)
    next
      case False
      let ?bs = "bs[h := 0]"
      obtain freed' where IH: "null_out 0 (rev [int lo..int h - 1]) ?bs (freed @ [bs ! h])
            = Inr (map (\<lambda>j. if lo \<le> j \<and> j < h then 0 else ?bs ! j) [0..<length bs], freed')"
          "\<forall>b. b \<noteq> 0 \<longrightarrow> count_list freed' b = count_list (freed @ [bs ! h]) b
            + card {j. lo \<le> j \<and> j < h \<and> ?bs ! j = b}"
        using Suc.IH [of ?bs "freed @ [bs ! h]"] Suc.prems by auto
      have "map (\<lambda>j. if lo \<le> j \<and> j < h then 0 else ?bs ! j) [0..<length bs]
          = map (\<lambda>j. if lo \<le> j \<and> j < Suc h then 0 else bs ! j) [0..<length bs]"
        using True by (intro map_cong) (auto simp: nth_list_update less_Suc_eq)
      moreover have "card {j. lo \<le> j \<and> j < Suc h \<and> bs ! j = b}
          = card {j. lo \<le> j \<and> j < h \<and> ?bs ! j = b} + (if bs ! h = b then 1 else 0)" for b
      proof -
        have "{j. lo \<le> j \<and> j < Suc h \<and> bs ! j = b} = {j. lo \<le> j \<and> j < h \<and> ?bs ! j = b}
            \<union> (if bs ! h = b then {h} else {})"
          using True by (auto simp: less_Suc_eq)
        moreover have "finite {j. lo \<le> j \<and> j < h \<and> ?bs ! j = b}" by simp
        ultimately show ?thesis by (simp add: card_insert_if)
      qed
      ultimately show ?thesis using IH False unfolding up by (simp add: idx)
    qed
  qed
qed

lemma range_given_back:
  assumes inv: "mgr_inv others m p" and lo: "0 \<le> lo"
    and null: "\<forall>i j. lo \<le> int i \<longrightarrow> i < j \<longrightarrow> j < length (blocks_of m r) \<longrightarrow> int j < hi \<longrightarrow>
      blocks_of m r ! j = 0 \<longrightarrow> blocks_of m r ! i = 0"
  shows "\<exists>m' p'. remove_blocks_in_range r lo hi m p = Inr (m', p')
    \<and> blocks_of m' r = map (\<lambda>j. if lo \<le> int j \<and> int j < hi then 0 else blocks_of m r ! j) [0..<length (blocks_of m r)]
    \<and> (\<forall>q. q \<noteq> r \<longrightarrow> blocks_of m' q = blocks_of m q)
    \<and> (\<forall>b. b \<noteq> 0 \<longrightarrow> ref_cnt (blk p' b) = ref_cnt (blk p b)
         - int (card {j. j < length (blocks_of m r) \<and> lo \<le> int j \<and> int j < hi \<and> blocks_of m r ! j = b}))
    \<and> mgr_inv others m' p'"
proof (cases "map_of (req_to_blocks m) r = None")
  case True
  then have "blocks_of m r = []" by (simp add: blocks_of_def dict_get_def)
  then show ?thesis using True inv by (simp add: remove_blocks_in_range_def)
next
  case False
  let ?bs = "blocks_of m r"
  define h where "h = nat (min hi (int (length ?bs)))"
  have range: "lo \<le> int j \<and> int j < hi \<longleftrightarrow> nat lo \<le> j \<and> j < h" if "j < length ?bs" for j
    using that lo by (auto simp: h_def)
  have up: "[lo..min hi (int (length ?bs)) - 1] = [int (nat lo)..int h - 1]"
    using lo by (cases "0 \<le> min hi (int (length ?bs))") (simp_all add: h_def)
  have "h \<le> length ?bs" by (simp add: h_def)
  moreover have "\<forall>i j. nat lo \<le> i \<longrightarrow> i < j \<longrightarrow> j < h \<longrightarrow> ?bs ! j = 0 \<longrightarrow> ?bs ! i = 0"
    using null lo by (auto simp: h_def)
  ultimately obtain freed where out: "null_out 0 (rev [int (nat lo)..int h - 1]) ?bs [] = Inr
      (map (\<lambda>j. if nat lo \<le> j \<and> j < h then 0 else ?bs ! j) [0..<length ?bs], freed)"
      "\<forall>b. b \<noteq> 0 \<longrightarrow> count_list freed b = card {j. nat lo \<le> j \<and> j < h \<and> ?bs ! j = b}"
    using null_out_range [of h ?bs "nat lo" "[]"] by auto
  have tab: "map (\<lambda>j. if nat lo \<le> j \<and> j < h then 0 else ?bs ! j) [0..<length ?bs]
      = map (\<lambda>j. if lo \<le> int j \<and> int j < hi then 0 else ?bs ! j) [0..<length ?bs]"
    using range by (intro map_cong) auto
  have cards: "{j. nat lo \<le> j \<and> j < h \<and> ?bs ! j = b}
      = {j. j < length ?bs \<and> lo \<le> int j \<and> int j < hi \<and> ?bs ! j = b}" for b
    using range by (auto simp: h_def)
  from remove_blocks_in_range_ok [OF inv out(1) [folded up]] False
  obtain m' p' where d: "remove_blocks_in_range r lo hi m p = Inr (m', p')" "mgr_inv others m' p'"
    "m' = m \<or> (\<exists>bs'. m' = set_blocks r bs' m)"
    "blocks_of m' r = map (\<lambda>j. if nat lo \<le> j \<and> j < h then 0 else ?bs ! j) [0..<length ?bs]"
    "\<forall>b. b \<noteq> 0 \<longrightarrow> block_refs p' b = block_refs p b - int (count_list freed b)" by blast
  have "\<forall>q. q \<noteq> r \<longrightarrow> blocks_of m' q = blocks_of m q" using d(3) by auto
  moreover have "\<forall>b. b \<noteq> 0 \<longrightarrow> ref_cnt (blk p' b) = ref_cnt (blk p b)
      - int (card {j. j < length ?bs \<and> lo \<le> int j \<and> int j < hi \<and> ?bs ! j = b})"
    using d(5) out(2) cards by simp
  ultimately show ?thesis using d(1,2,4) tab by auto
qed

lemma dead_places_given_back:
  assumes inv: "mgr_inv others m p" and lo: "0 \<le> lo"
    and dead: "\<And>j. j < length (blocks_of m r) \<Longrightarrow> lo \<le> int j \<and> int j < hi \<longleftrightarrow> dead j"
    and null: "\<forall>i j. i < j \<longrightarrow> j < length (blocks_of m r) \<longrightarrow> dead i \<longrightarrow> dead j \<longrightarrow>
      blocks_of m r ! j = 0 \<longrightarrow> blocks_of m r ! i = 0"
  shows "\<exists>m' p'. remove_blocks_in_range r lo hi m p = Inr (m', p')
    \<and> blocks_of m' r = map (\<lambda>j. if dead j then 0 else blocks_of m r ! j) [0..<length (blocks_of m r)]
    \<and> (\<forall>q. q \<noteq> r \<longrightarrow> blocks_of m' q = blocks_of m q)
    \<and> (\<forall>b. b \<noteq> 0 \<longrightarrow> ref_cnt (blk p' b) = ref_cnt (blk p b)
         - int (card {j. j < length (blocks_of m r) \<and> dead j \<and> blocks_of m r ! j = b}))
    \<and> mgr_inv others m' p'"
proof -
  let ?bs = "blocks_of m r"
  have "\<forall>i j. lo \<le> int i \<longrightarrow> i < j \<longrightarrow> j < length ?bs \<longrightarrow> int j < hi \<longrightarrow> ?bs ! j = 0 \<longrightarrow> ?bs ! i = 0"
  proof (intro allI impI)
    fix i j assume a: "lo \<le> int i" "i < j" "j < length ?bs" "int j < hi" "?bs ! j = 0"
    then have "dead i" "dead j" using dead [of i] dead [of j] by auto
    then show "?bs ! i = 0" using null a(2,3,5) by blast
  qed
  from range_given_back [OF inv lo this]
  obtain m' p' where d: "remove_blocks_in_range r lo hi m p = Inr (m', p')"
    "blocks_of m' r = map (\<lambda>j. if lo \<le> int j \<and> int j < hi then 0 else ?bs ! j) [0..<length ?bs]"
    "\<forall>q. q \<noteq> r \<longrightarrow> blocks_of m' q = blocks_of m q"
    "\<forall>b. b \<noteq> 0 \<longrightarrow> ref_cnt (blk p' b) = ref_cnt (blk p b)
      - int (card {j. j < length ?bs \<and> lo \<le> int j \<and> int j < hi \<and> ?bs ! j = b})" "mgr_inv others m' p'"
    by blast
  moreover have "map (\<lambda>j. if lo \<le> int j \<and> int j < hi then 0 else ?bs ! j) [0..<length ?bs]
      = map (\<lambda>j. if dead j then 0 else ?bs ! j) [0..<length ?bs]"
    using dead by (intro map_cong) auto
  moreover have "{j. j < length ?bs \<and> lo \<le> int j \<and> int j < hi \<and> ?bs ! j = b}
      = {j. j < length ?bs \<and> dead j \<and> ?bs ! j = b}" for b
    using dead by blast
  ultimately show ?thesis by auto
qed

text \<open>
  The tokens that are still read once \<open>processed\<close> tokens are: by the query at position
  \<open>processed\<close>, in its window of \<open>sliding_window\<close> tokens (with itself) or its chunk, in the prompt
  or the window after it (R-SWA), or as the last mamba state; and for a sliding window the extra
  retained tokens before the window.
\<close>

definition still_read :: "manager \<Rightarrow> int \<Rightarrow> int option \<Rightarrow> int \<Rightarrow> bool" where
  "still_read m processed prompt t \<longleftrightarrow>
     (let spec = kv_cache_spec m
      in case manager_cls m of
           SlidingWindowManager \<Rightarrow> processed - t < sp_sliding_window spec + sp_extra_retained_tokens spec
         | ChunkedLocalAttentionManager \<Rightarrow>
             processed div sp_attention_chunk_size spec \<le> t div sp_attention_chunk_size spec
         | RSWAManager \<Rightarrow> (case prompt of None \<Rightarrow> True | Some n \<Rightarrow> t < n \<or> processed - sp_rswa_window spec \<le> t)
         | MambaManager \<Rightarrow> processed - 1 \<le> t
         | _ \<Rightarrow> True)"

definition block_read :: "manager \<Rightarrow> int \<Rightarrow> int option \<Rightarrow> nat \<Rightarrow> bool" where
  "block_read m processed prompt j \<longleftrightarrow>
     (\<exists>t. int j * block_size m \<le> t \<and> t < (int j + 1) * block_size m \<and> still_read m processed prompt t)"

lemma block_read_from:
  assumes "0 < block_size m" and "\<And>t. 0 \<le> t \<Longrightarrow> still_read m processed prompt t \<longleftrightarrow> s \<le> t"
  shows "block_read m processed prompt j \<longleftrightarrow> \<not> int j < s div block_size m"
proof -
  have nonneg: "0 \<le> int j * block_size m" using assms(1) by simp
  have "block_read m processed prompt j \<longleftrightarrow> s < (int j + 1) * block_size m"
  proof
    assume "block_read m processed prompt j"
    then show "s < (int j + 1) * block_size m" using assms(2) nonneg by (fastforce simp: block_read_def)
  next
    assume "s < (int j + 1) * block_size m"
    then have "max s (int j * block_size m) < (int j + 1) * block_size m" using assms(1) by (simp add: algebra_simps)
    then show "block_read m processed prompt j"
      unfolding block_read_def using assms(2) [of "max s (int j * block_size m)"] nonneg
      by (intro exI [of _ "max s (int j * block_size m)"]) auto
  qed
  moreover have "int j + 1 \<le> s div block_size m \<longleftrightarrow> (int j + 1) * block_size m \<le> s"
    by (rule le_div_int_iff [OF assms(1)])
  ultimately show ?thesis by linarith
qed

lemma skipped_not_read:
  assumes "0 < sp_attention_chunk_size (kv_cache_spec m)" and "manager_cls m \<noteq> RSWAManager" and "0 \<le> t" "0 \<le> processed"
  shows "still_read m processed prompt t \<longleftrightarrow> get_num_skipped_tokens m processed \<le> t"
  using assms le_div_int_iff [OF assms(1), of "processed div sp_attention_chunk_size (kv_cache_spec m)" t]
  by (cases "manager_cls m") (auto simp: still_read_def get_num_skipped_tokens_def window_skipped_tokens_def
      chunk_skipped_tokens_def mamba_skipped_tokens_def Let_def)

lemma gap_not_read:
  assumes "0 < block_size m" and "cdiv_law cdiv" and "manager_cls m = RSWAManager" and "0 \<le> n"
  shows "\<not> block_read m processed (Some n) j \<longleftrightarrow> cdiv n (block_size m) \<le> int j
    \<and> int j < max n (processed - sp_rswa_window (kv_cache_spec m)) div block_size m"
proof -
  let ?bs = "block_size m" and ?w = "processed - sp_rswa_window (kv_cache_spec m)"
  have read: "still_read m processed (Some n) t \<longleftrightarrow> t < n \<or> ?w \<le> t" for t using assms(3) by (simp add: still_read_def)
  have ceil: "cdiv n ?bs \<le> int j \<longleftrightarrow> n \<le> int j * ?bs"
  proof -
    have "cdiv n ?bs = - ((- n) div ?bs)" using assms(1,2) by (simp add: cdiv_law_def)
    then have "cdiv n ?bs \<le> int j \<longleftrightarrow> - int j \<le> (- n) div ?bs" by linarith
    also have "\<dots> \<longleftrightarrow> n \<le> int j * ?bs" by (subst le_div_int_iff [OF assms(1)]) simp
    finally show ?thesis .
  qed
  have floor: "int j < max n ?w div ?bs \<longleftrightarrow> (int j + 1) * ?bs \<le> max n ?w"
    using le_div_int_iff [OF assms(1), of "int j + 1" "max n ?w"] by linarith
  have less: "int j * ?bs < (int j + 1) * ?bs" using assms(1) by (simp add: algebra_simps)
  show ?thesis
  proof
    assume none: "\<not> block_read m processed (Some n) j"
    then have all: "n \<le> t \<and> t < ?w" if "int j * ?bs \<le> t" "t < (int j + 1) * ?bs" for t
      using that read unfolding block_read_def by (meson not_le)
    have "n \<le> int j * ?bs" using all [of "int j * ?bs"] less by simp
    moreover have "(int j + 1) * ?bs \<le> ?w" using all [of "(int j + 1) * ?bs - 1"] less by simp
    ultimately show "cdiv n ?bs \<le> int j \<and> int j < max n ?w div ?bs" unfolding ceil floor by simp
  next
    assume "cdiv n ?bs \<le> int j \<and> int j < max n ?w div ?bs"
    then have "n \<le> int j * ?bs" "(int j + 1) * ?bs \<le> max n ?w" unfolding ceil floor by simp_all
    moreover from this have "(int j + 1) * ?bs \<le> ?w" using less by simp
    ultimately show "\<not> block_read m processed (Some n) j" unfolding block_read_def read by fastforce
  qed
qed

lemma base_skipped_given_back:
  assumes inv: "mgr_inv others m p" and bs: "0 < block_size m" and len: "0 \<le> processed"
    and read: "\<And>t. 0 \<le> t \<Longrightarrow> still_read m processed prompt t \<longleftrightarrow> get_num_skipped_tokens m processed \<le> t"
    and nulls: "\<forall>i j. i < j \<longrightarrow> j < length (blocks_of m r) \<longrightarrow> \<not> block_read m processed prompt i \<longrightarrow>
      \<not> block_read m processed prompt j \<longrightarrow> blocks_of m r ! j = 0 \<longrightarrow> blocks_of m r ! i = 0"
  shows "\<exists>m' p'. base_remove_skipped_blocks r processed m p = Inr (m', p')
    \<and> blocks_of m' r = map (\<lambda>j. if \<not> block_read m processed prompt j then 0 else blocks_of m r ! j)
        [0..<length (blocks_of m r)]
    \<and> (\<forall>q. q \<noteq> r \<longrightarrow> blocks_of m' q = blocks_of m q)
    \<and> (\<forall>b. b \<noteq> 0 \<longrightarrow> ref_cnt (blk p' b) = ref_cnt (blk p b)
         - int (card {j. j < length (blocks_of m r) \<and> \<not> block_read m processed prompt j \<and> blocks_of m r ! j = b}))
    \<and> mgr_inv others m' p'"
proof -
  let ?s = "get_num_skipped_tokens m processed" and ?len = "length (blocks_of m r)"
  note unread = block_read_from [OF bs read]
  show ?thesis
  proof (cases "?s \<le> 0")
    case True
    then have "?s div block_size m \<le> 0" using bs zdiv_mono1 [of ?s 0 "block_size m"] by simp
    then have "block_read m processed prompt j" for j using unread [of j] by simp
    then show ?thesis using True inv by (simp add: base_remove_skipped_blocks_def map_nth)
  next
    case False
    let ?hi = "min (?s div block_size m) (int ?len)"
    have run: "base_remove_skipped_blocks r processed m p = remove_blocks_in_range r 0 ?hi (open_table r m) p"
      using False by (simp add: base_remove_skipped_blocks_def Let_def)
    have same: "blocks_of (open_table r m) q = blocks_of m q" for q by simp
    have hi: "0 \<le> int j \<and> int j < ?hi \<longleftrightarrow> \<not> block_read m processed prompt j" if "j < ?len" for j
      using unread [of j] that by simp
    show ?thesis
      using dead_places_given_back [OF mgr_inv_open_table [OF inv, of r], of 0 r ?hi, unfolded same, OF _ hi nulls]
      unfolding run by blast
  qed
qed

lemma gap_given_back:
  assumes inv: "mgr_inv others m p" and cd: "cdiv_law cdiv" and bs: "0 < block_size m"
    and cls: "manager_cls m = RSWAManager" and len: "0 \<le> n"
    and nulls: "\<forall>i j. i < j \<longrightarrow> j < length (blocks_of m r) \<longrightarrow> \<not> block_read m processed (Some n) i \<longrightarrow>
      \<not> block_read m processed (Some n) j \<longrightarrow> blocks_of m r ! j = 0 \<longrightarrow> blocks_of m r ! i = 0"
  shows "\<exists>m' p'. rswa_remove_skipped_blocks cdiv r processed (Some n) m p = Inr (m', p')
    \<and> blocks_of m' r = map (\<lambda>j. if \<not> block_read m processed (Some n) j then 0 else blocks_of m r ! j)
        [0..<length (blocks_of m r)]
    \<and> (\<forall>q. q \<noteq> r \<longrightarrow> blocks_of m' q = blocks_of m q)
    \<and> (\<forall>b. b \<noteq> 0 \<longrightarrow> ref_cnt (blk p' b) = ref_cnt (blk p b)
         - int (card {j. j < length (blocks_of m r) \<and> \<not> block_read m processed (Some n) j \<and> blocks_of m r ! j = b}))
    \<and> mgr_inv others m' p'"
proof -
  let ?lo = "cdiv n (block_size m)"
    and ?hi = "max n (processed - sp_rswa_window (kv_cache_spec m)) div block_size m"
  have "0 \<le> ?lo" using div_le_cdiv [OF cd bs, of 0 n] len by simp
  moreover note unread = gap_not_read [OF bs cd cls len, of processed]
  ultimately show ?thesis
    using dead_places_given_back [OF inv, of ?lo r ?hi "\<lambda>j. \<not> block_read m processed (Some n) j"] nulls
    by (simp add: rswa_remove_skipped_blocks_def Let_def)
qed

text \<open>
  C19. Blocks that nothing reads any more are given back, for every manager but mamba in align
  mode.  Given that among the places no token of which is still read the null places come first,
  afterwards exactly these places hold the null block, every place with a token that is still
  read (in the window with its extra retained tokens, in the chunk, in the prompt or the R-SWA
  window, the last mamba state) holds its block as before, and just the blocks that left the
  table have one reference less.
\<close>

theorem skipped_blocks_given_back:
  fixes processed :: int
  assumes inv: "mgr_inv others m p" and align: "\<not> mamba_align m" and cd: "cdiv_law cdiv"
    and bs: "0 < block_size m" and chunk: "0 < sp_attention_chunk_size (kv_cache_spec m)"
    and len: "0 \<le> processed" "prompt \<noteq> None \<Longrightarrow> 0 \<le> the prompt"
    and nulls: "\<forall>i j. i < j \<longrightarrow> j < length (blocks_of m r) \<longrightarrow> \<not> block_read m processed prompt i \<longrightarrow>
      \<not> block_read m processed prompt j \<longrightarrow> blocks_of m r ! j = 0 \<longrightarrow> blocks_of m r ! i = 0"
  shows "\<exists>m' p'. remove_skipped_blocks cdiv r processed prompt m p = Inr (m', p')
    \<and> blocks_of m' r = map (\<lambda>j. if \<not> block_read m processed prompt j then 0 else blocks_of m r ! j)
        [0..<length (blocks_of m r)]
    \<and> (\<forall>q. q \<noteq> r \<longrightarrow> blocks_of m' q = blocks_of m q)
    \<and> (\<forall>b. b \<noteq> 0 \<longrightarrow> ref_cnt (blk p' b) = ref_cnt (blk p b)
         - int (card {j. j < length (blocks_of m r) \<and> \<not> block_read m processed prompt j \<and> blocks_of m r ! j = b}))
    \<and> mgr_inv others m' p'"
proof (cases "manager_cls m = RSWAManager \<and> prompt \<noteq> None")
  case True
  then obtain n where n: "prompt = Some n" "0 \<le> n" using len(2) by auto
  have "remove_skipped_blocks cdiv r processed prompt m p = rswa_remove_skipped_blocks cdiv r processed (Some n) m p"
    using True n(1) by (simp add: remove_skipped_blocks_def)
  then show ?thesis using gap_given_back [OF inv cd bs _ n(2)] nulls True n(1) by simp
next
  case rswa: False
  show ?thesis
  proof (cases "manager_cls m = KpoolTailManager")
    case True
    then have "still_read m processed prompt t" for t by (simp add: still_read_def)
    then have "block_read m processed prompt j" for j
      unfolding block_read_def using bs by (intro exI [of _ "int j * block_size m"]) (simp add: algebra_simps)
    then show ?thesis using True inv by (simp add: remove_skipped_blocks_def map_nth)
  next
    case False
    have read: "still_read m processed prompt t \<longleftrightarrow> get_num_skipped_tokens m processed \<le> t" if "0 \<le> t" for t
      using skipped_not_read [OF chunk _ that len(1)] rswa that
      by (cases "manager_cls m = RSWAManager") (auto simp: still_read_def get_num_skipped_tokens_def)
    obtain m' p' where base: "base_remove_skipped_blocks r processed m p = Inr (m', p')"
      "blocks_of m' r = map (\<lambda>j. if \<not> block_read m processed prompt j then 0 else blocks_of m r ! j) [0..<length (blocks_of m r)]"
      "\<forall>q. q \<noteq> r \<longrightarrow> blocks_of m' q = blocks_of m q"
      "\<forall>b. b \<noteq> 0 \<longrightarrow> ref_cnt (blk p' b) = ref_cnt (blk p b)
         - int (card {j. j < length (blocks_of m r) \<and> \<not> block_read m processed prompt j \<and> blocks_of m r ! j = b})"
      "mgr_inv others m' p'"
      using base_skipped_given_back [OF inv bs len(1) read nulls] by blast
    have "kv_cache_spec m' = kv_cache_spec m"
      using base_remove_skipped_blocks_inv [OF base(1) inv] by (simp add: tables_kept_def)
    then have "remove_skipped_blocks cdiv r processed prompt m p = Inr (m', p')"
      using base(1) False rswa align
      by (cases "manager_cls m") (auto simp: remove_skipped_blocks_def rswa_remove_skipped_blocks_def
          mamba_remove_skipped_blocks_def mamba_align_def)
    then show ?thesis using base(2-) by blast
  qed
qed

theorem skipped_blocks_given_back_witness:
  "\<exists>new m1 p1 m2 p2. allocate_new_blocks sample_cdiv sample_env ''a'' 6 6 (sample_manager SlidingWindowSpec)
        sample_pool = Inr (new, m1, p1) \<and> length new = 3
    \<and> remove_skipped_blocks sample_cdiv ''a'' 6 None m1 p1 = Inr (m2, p2)
    \<and> blocks_of m2 ''a'' = [0, 0, new ! 2]"
proof -
  let ?m = "sample_manager SlidingWindowSpec"
  have run: "new_manager sample_cdiv (sample_spec SlidingWindowSpec) 100 100 True 0 2 1 False False = Inr ?m"
    and m: "manager_cls ?m = SlidingWindowManager" "block_size ?m = 2" "req_to_blocks ?m = []"
      "partial_hit_reqs ?m = []" "kv_cache_spec ?m = sample_spec SlidingWindowSpec"
    by (simp_all add: sample_manager_def new_manager_def sample_spec_def effective_block_size_def)
  have inv: "mgr_inv (\<lambda>b. nat (block_refs sample_pool b)) ?m sample_pool"
    using new_manager_good [OF run sample_pool_ok(1)] by (simp add: mgr_good_def sample_spec_def)
  have "get_num_free_blocks sample_pool = 4" using pool_inv_num_free [OF sample_pool_facts(1)] by simp
  with allocate_new_blocks_eq [OF inv sample_env_ok, where r = "''a''" and cdiv = sample_cdiv
      and ntok = 6 and ntok_main = 6]
  obtain new m1 p1 where a: "allocate_new_blocks sample_cdiv sample_env ''a'' 6 6 ?m sample_pool = Inr (new, m1, p1)"
    "blocks_of m1 ''a'' = new" "length new = 3" "\<forall>b \<in> set new. b \<noteq> 0"
    "mgr_inv (\<lambda>b. nat (block_refs sample_pool b)) m1 p1"
    by (auto simp: m blocks_of_def [of ?m] dict_get_def [of "[]"] sample_cdiv_def mamba_align_def
        pending_hit_ok_def tokens_to_hold_def)
  have k: "tables_kept ?m m1"
    using a(1) base_allocate_new_blocks_kept by (simp add: allocate_new_blocks_def m)
  then have k: "manager_cls m1 = SlidingWindowManager" "block_size m1 = 2"
    "kv_cache_spec m1 = sample_spec SlidingWindowSpec" by (simp_all add: tables_kept_def m)
  have "still_read m1 6 None t \<longleftrightarrow> 4 \<le> t" for t by (auto simp: still_read_def k sample_spec_def)
  then have read: "block_read m1 6 None j \<longleftrightarrow> 2 \<le> j" for j using block_read_from [of m1 6 None 4 j] by (auto simp: k)
  have "\<not> new ! j = 0" if "j < 3" for j using a(3,4) that by (metis nth_mem)
  then have "\<forall>i j. i < j \<longrightarrow> j < length (blocks_of m1 ''a'') \<longrightarrow> \<not> block_read m1 6 None i \<longrightarrow>
      \<not> block_read m1 6 None j \<longrightarrow> blocks_of m1 ''a'' ! j = 0 \<longrightarrow> blocks_of m1 ''a'' ! i = 0"
    unfolding a(2,3) by blast
  from skipped_blocks_given_back [OF a(5) _ sample_cdiv_law _ _ _ _ this]
  obtain m2 p2 where "remove_skipped_blocks sample_cdiv ''a'' 6 None m1 p1 = Inr (m2, p2)"
    "blocks_of m2 ''a'' = map (\<lambda>j. if \<not> block_read m1 6 None j then 0 else new ! j) [0..<3]"
    by (auto simp: k mamba_align_def sample_spec_def a(2,3))
  moreover have "map (\<lambda>j. if \<not> block_read m1 6 None j then 0 else new ! j) [0..<3] = [0, 0, new ! 2]"
    by (simp add: read upt_rec) (simp add: numeral_2_eq_2)
  ultimately show ?thesis using a by auto
qed

section \<open>Where the managers fall short\<close>

text \<open>
  Mamba in align mode, four tokens computed elsewhere and two more to come, blocks of two
  tokens: one block is counted, and one is free; the blocks of the external tokens take it, and the
  allocation raises \<open>ValueError\<close>.
\<close>

definition align_manager :: manager where
  "align_manager = (case new_manager sample_cdiv (sample_spec MambaSpec\<lparr>sp_mamba_cache_mode := ''align''\<rparr>)
     100 100 True 0 2 1 False False of Inr m \<Rightarrow> m)"

definition one_free_pool :: block_pool where
  "one_free_pool = (case pool_init 2 True 2 True of Inr p \<Rightarrow> p)"

definition align_steps :: "int \<times> int \<times> bool" where
  "align_steps =
     (case get_num_blocks_to_allocate sample_cdiv one_free_pool align_manager ''a'' 6 [] 4 0 6 False of
        Inl _ \<Rightarrow> (0, 0, False)
      | Inr (n, m) \<Rightarrow> (n, get_num_free_blocks one_free_pool,
          bind_res (add_local_computed_blocks ''a'' [] 0 4 m one_free_pool) (\<lambda>(m1, p1).
          bind_res (allocate_external_computed_blocks sample_cdiv sample_env ''a'' 0 4 m1 p1) (\<lambda>(m2, p2).
          Inr (case allocate_new_blocks sample_cdiv sample_env ''a'' 6 6 m2 p2 of
                 Inl e \<Rightarrow> e = ValueError | Inr _ \<Rightarrow> False))) = Inr True))"

lemma align_admission_too_small: "align_steps = (1, 1, True)"
  by code_simp

text \<open>
  The constructor of the sink attention manager does not take the keyword that the coordinator
  passes to every manager, so its specification has no manager.
\<close>

lemma sink_manager_type_error:
  "sp_kind spec = SinkFullAttentionSpec \<Longrightarrow>
   new_manager cdiv spec inflight len caching gid sbs dcp zeroing legacy = Inl TypeError"
  by (simp add: new_manager_def)

end
