(* ===== verification/Coordinator.thy ===== *)
theory Coordinator
  imports SingleType
begin

text \<open>
  The KV cache coordinator, \<open>src/upstream-core-port/upstream-g1/vllm/v1/core/kv_cache_coordinator.py\<close>:
  the managers of the KV cache groups over one block pool, and the prefix-cache lookup that
  reconciles the groups.

  A coordinator is a record with the attributes of its class; the pool, which all managers share,
  is passed beside it.  Each operation is a loop over the managers that threads the pool.
  The \<open>while True\<close> loop of the hybrid lookup is a partial function whose value \<open>None\<close> means that
  it does not return.
\<close>

section \<open>Configuration and state\<close>

record kv_group =
  g_spec :: kv_spec
  g_is_eagle :: bool

record kv_config =
  kc_num_blocks :: int
  kc_groups :: "kv_group list"
  kc_retention :: "int option"

datatype coordinator_class = NoPrefixCache | Unitary | Hybrid

text \<open>\<open>SpecGroup\<close>: the groups that share one specification\<close>

record spec_group =
  sg_spec :: kv_spec
  sg_group_ids :: "nat list"
  sg_manager_cls :: manager_class
  sg_use_eagle :: bool

record coordinator =
  co_class :: coordinator_class
  co_groups :: "kv_group list"
  co_enable_caching :: bool
  co_scheduler_block_size :: int
  num_reprefillable_tokens :: int
  eagle_group_ids :: "nat set"
  single_type_managers :: "manager list"
  retention_interval :: "int option"
  co_dcp :: int
  co_pcp :: int
  co_block_size :: int
  co_hash_block_size :: int
  has_dcp_replicated_group :: bool
  enable_partial_hash_hits :: bool
  eagle_drop_exempt :: bool
  attention_groups :: "spec_group list"
  full_attention_group_id :: "nat option"

text \<open>The arguments of the constructors that every class shares\<close>

record coordinator_args =
  a_max_model_len :: int
  a_max_in_flight :: int
  a_use_eagle :: bool
  a_events :: bool
  a_dcp :: int
  a_pcp :: int
  a_scheduler_block_size :: int
  a_hash_block_size :: int
  a_prefill_lookahead :: int
  a_align_cap_legacy :: bool

section \<open>Properties of the configuration\<close>

definition has_mamba_layers :: "kv_config \<Rightarrow> bool" where
  "has_mamba_layers cfg \<longleftrightarrow> (\<exists>g \<in> set (kc_groups cfg). sp_kind (g_spec g) = MambaSpec)"

definition has_mixed_precision :: "kv_config \<Rightarrow> bool" where
  "has_mixed_precision cfg \<longleftrightarrow>
     length (remdups (map (sp_precision \<circ> g_spec)
       (filter (\<lambda>g. is_attention_spec (sp_kind (g_spec g))) (kc_groups cfg)))) > 1"

definition needs_kv_cache_zeroing :: "kv_config \<Rightarrow> bool" where
  "needs_kv_cache_zeroing cfg \<longleftrightarrow> has_mamba_layers cfg \<or> has_mixed_precision cfg"

definition supports_fine_grained :: "manager_class \<Rightarrow> bool" where
  "supports_fine_grained c \<longleftrightarrow>
     c \<in> {FullAttentionManager, RSWAManager, SinkFullAttentionManager, MambaManager}"

section \<open>Constructors\<close>

definition validate_retention :: "int option \<Rightarrow> int \<Rightarrow> kv_config \<Rightarrow> unit res" where
  "validate_retention retention sbs cfg =
     (case retention of
        None \<Rightarrow> Inr ()
      | Some n \<Rightarrow>
          if \<not> (\<exists>g \<in> set (kc_groups cfg). is_sliding_window (sp_kind (g_spec g))
                  \<or> sp_kind (g_spec g) = MambaSpec)
          then (if n = 0 then Inr () else Inl ValueError)
          else if n < 0 then Inl ValueError
          else bind_res (py_mod n sbs) (\<lambda>m.
            if m \<noteq> 0 then Inl ValueError else Inr ()))"

text \<open>\<open>assert n % a == 0 and all(n % b == 0 for b in bs)\<close>\<close>

definition assert_divisible :: "int \<Rightarrow> int list \<Rightarrow> unit res" where
  "assert_divisible n bs =
     fold_res (\<lambda>b _. bind_res (py_mod n b) (\<lambda>m. if m \<noteq> 0 then Inl AssertionError else Inr ())) bs ()"

definition new_managers ::
  "(int \<Rightarrow> int \<Rightarrow> int) \<Rightarrow> kv_config \<Rightarrow> bool \<Rightarrow> coordinator_args \<Rightarrow> manager list res" where
  "new_managers cdiv cfg caching a =
     map_res (\<lambda>(i, g). new_manager cdiv (g_spec g) (a_max_in_flight a) (a_max_model_len a) caching
         (int i) (a_scheduler_block_size a) (a_dcp a) (needs_kv_cache_zeroing cfg)
         (a_align_cap_legacy a))
       (enumerate 0 (kc_groups cfg))"

definition eagle_groups :: "kv_config \<Rightarrow> bool \<Rightarrow> nat set" where
  "eagle_groups cfg e =
     (let flagged = set (filter (\<lambda>i. g_is_eagle (kc_groups cfg ! i)) [0..<length (kc_groups cfg)])
      in if e \<and> flagged = {} then {..<length (kc_groups cfg)} else flagged)"

definition base_coordinator ::
  "(int \<Rightarrow> int \<Rightarrow> int) \<Rightarrow> coordinator_class \<Rightarrow> kv_config \<Rightarrow> bool \<Rightarrow> coordinator_args
     \<Rightarrow> (coordinator \<times> block_pool) res" where
  "base_coordinator cdiv cls cfg caching a =
     bind_res (assert_divisible (a_scheduler_block_size a)
         (a_hash_block_size a # map (sp_block_size \<circ> g_spec) (kc_groups cfg))) (\<lambda>_.
     bind_res (pool_init (kc_num_blocks cfg) caching (a_hash_block_size a) (a_events a)) (\<lambda>p.
       (let eagle = eagle_groups cfg (a_use_eagle a)
        in if caching \<and> eagle \<noteq> {} \<and> a_scheduler_block_size a < a_prefill_lookahead a
           then Inl ValueError
           else bind_res (new_managers cdiv cfg caching a) (\<lambda>ms.
             bind_res (validate_retention (kc_retention cfg) (a_scheduler_block_size a) cfg) (\<lambda>_.
               Inr (\<lparr>co_class = cls, co_groups = kc_groups cfg, co_enable_caching = caching,
                     co_scheduler_block_size = a_scheduler_block_size a,
                     num_reprefillable_tokens = max 0 (a_prefill_lookahead a - 1),
                     eagle_group_ids = eagle, single_type_managers = ms,
                     retention_interval = kc_retention cfg, co_dcp = a_dcp a, co_pcp = a_pcp a,
                     co_block_size = 0, co_hash_block_size = a_hash_block_size a,
                     has_dcp_replicated_group = False, enable_partial_hash_hits = False,
                     eagle_drop_exempt = False, attention_groups = [],
                     full_attention_group_id = None\<rparr>, p))))))"

definition set_use_eagle :: "bool \<Rightarrow> nat \<Rightarrow> manager list \<Rightarrow> manager list" where
  "set_use_eagle e i ms = ms[i := (ms ! i)\<lparr>use_eagle := e\<rparr>]"

definition unitary_coordinator ::
  "(int \<Rightarrow> int \<Rightarrow> int) \<Rightarrow> kv_config \<Rightarrow> bool \<Rightarrow> bool \<Rightarrow> coordinator_args
     \<Rightarrow> (coordinator \<times> block_pool) res" where
  "unitary_coordinator cdiv cfg caching exempt a =
     bind_res (base_coordinator cdiv Unitary cfg caching a) (\<lambda>(c, p).
       (case kc_groups cfg of
          [] \<Rightarrow> Inl IndexError
        | g # gs \<Rightarrow>
            (let bs = (if a_dcp a > 1 then sp_block_size (g_spec g) * a_dcp a
                       else sp_block_size (g_spec g))
             in if caching \<and> a_hash_block_size a \<noteq> bs then Inl AssertionError
                else if gs \<noteq> [] then Inl AssertionError
                else Inr (c\<lparr>eagle_drop_exempt := exempt, co_block_size := bs,
                       single_type_managers :=
                         set_use_eagle (0 \<in> eagle_group_ids c) 0 (single_type_managers c)\<rparr>, p))))"

text \<open>\<open>verify_and_split_kv_cache_groups\<close>: a group joins the groups with an equal specification.\<close>

fun join_spec_group ::
  "kv_spec \<Rightarrow> nat \<Rightarrow> manager_class \<Rightarrow> bool \<Rightarrow> spec_group list \<Rightarrow> spec_group list res" where
  "join_spec_group spec i c e [] =
     Inr [\<lparr>sg_spec = spec, sg_group_ids = [i], sg_manager_cls = c, sg_use_eagle = e\<rparr>]"
| "join_spec_group spec i c e (g # gs) =
     (if sg_spec g = spec then
        (if sg_manager_cls g \<noteq> c then Inl AssertionError
         else Inr (g\<lparr>sg_group_ids := sg_group_ids g @ [i], sg_use_eagle := sg_use_eagle g \<or> e\<rparr> # gs))
      else bind_res (join_spec_group spec i c e gs) (\<lambda>gs'. Inr (g # gs')))"

definition split_groups :: "coordinator \<Rightarrow> spec_group list res" where
  "split_groups c =
     fold_res (\<lambda>(i, g) gs.
       if \<not> participates_in_prefix_caching (g_spec g) then Inr gs
       else join_spec_group (g_spec g) i (manager_cls (single_type_managers c ! i))
              (i \<in> eagle_group_ids c) gs)
       (enumerate 0 (co_groups c)) []"

definition propagate_eagle :: "spec_group list \<Rightarrow> manager list \<Rightarrow> manager list" where
  "propagate_eagle gs ms =
     fold (\<lambda>g ms. if sg_use_eagle g then fold (set_use_eagle True) (sg_group_ids g) ms else ms) gs ms"

definition verify_and_split :: "coordinator \<Rightarrow> coordinator res" where
  "verify_and_split c =
     bind_res (split_groups c) (\<lambda>gs.
       if \<not> length gs > 1 then Inl AssertionError
       else
         (let sorted = sort_key (\<lambda>g. if is_full_attention (sp_kind (sg_spec g)) then 0 else (1 :: nat)) gs;
              first = hd sorted
          in Inr (c\<lparr>attention_groups := sorted,
                 full_attention_group_id :=
                   (if is_full_attention (sp_kind (sg_spec first)) then Some (hd (sg_group_ids first))
                    else None),
                 single_type_managers :=
                   propagate_eagle sorted (single_type_managers c)\<rparr>)))"

text \<open>\<open>enable_partial_hash_hits\<close>\<close>

definition partial_mamba_group :: "int \<Rightarrow> int \<Rightarrow> kv_group \<Rightarrow> bool" where
  "partial_mamba_group dcp hbs g \<longleftrightarrow>
     sp_kind (g_spec g) = MambaSpec \<and> sp_mamba_cache_mode (g_spec g) = ''align''
     \<and> (dcp = 1 \<and> sp_block_size (g_spec g) > hbs \<or> dcp > 1 \<and> sp_block_size (g_spec g) \<ge> hbs)"

definition partial_hits_enabled :: "coordinator \<Rightarrow> bool" where
  "partial_hits_enabled c \<longleftrightarrow>
     (\<exists>g \<in> set (co_groups c). partial_mamba_group (co_dcp c) (co_hash_block_size c) g)
     \<and> \<not> (\<exists>(m, g) \<in> set (zip (single_type_managers c) (co_groups c)).
           participates_in_prefix_caching (g_spec g) \<and> \<not> supports_fine_grained (manager_cls m)
           \<and> block_size m \<noteq> co_hash_block_size c)"

definition dcp_supported :: "kv_group \<Rightarrow> bool" where
  "dcp_supported g \<longleftrightarrow>
     is_full_attention (sp_kind (g_spec g)) \<or> sp_kind (g_spec g) = MambaSpec \<or> sp_dcp_replicated (g_spec g)"

definition hybrid_coordinator ::
  "(int \<Rightarrow> int \<Rightarrow> int) \<Rightarrow> kv_config \<Rightarrow> bool \<Rightarrow> bool \<Rightarrow> coordinator_args
     \<Rightarrow> (coordinator \<times> block_pool) res" where
  "hybrid_coordinator cdiv cfg caching exempt a =
     bind_res (base_coordinator cdiv Hybrid cfg caching a) (\<lambda>(c, p).
     bind_res (assert_divisible (a_scheduler_block_size a)
         (a_hash_block_size a # map block_size (single_type_managers c))) (\<lambda>_.
       if a_pcp a \<noteq> 1 then Inl AssertionError
       else if a_dcp a > 1 \<and> \<not> (\<forall>g \<in> set (kc_groups cfg). dcp_supported g) then Inl AssertionError
       else
         (let c1 = c\<lparr>eagle_drop_exempt := exempt,
                has_dcp_replicated_group := (\<exists>g \<in> set (kc_groups cfg). sp_dcp_replicated (g_spec g)),
                enable_partial_hash_hits := partial_hits_enabled c\<rparr>
          in bind_res (verify_and_split c1) (\<lambda>c2. Inr (c2, p)))))"

text \<open>
  \<open>get_kv_cache_coordinator\<close>.  With caching off it passes the keyword \<open>eagle_drop_exempt\<close> to a
  constructor that does not take it, and it never passes it to the hybrid coordinator.
\<close>

definition get_kv_cache_coordinator ::
  "(int \<Rightarrow> int \<Rightarrow> int) \<Rightarrow> kv_config \<Rightarrow> bool \<Rightarrow> bool \<Rightarrow> coordinator_args
     \<Rightarrow> (coordinator \<times> block_pool) res" where
  "get_kv_cache_coordinator cdiv cfg caching exempt a =
     (if \<not> caching then Inl TypeError
      else if length (kc_groups cfg) = 1 then unitary_coordinator cdiv cfg caching exempt a
      else hybrid_coordinator cdiv cfg caching False a)"

definition no_prefix_cache_coordinator ::
  "(int \<Rightarrow> int \<Rightarrow> int) \<Rightarrow> kv_config \<Rightarrow> coordinator_args \<Rightarrow> (coordinator \<times> block_pool) res" where
  "no_prefix_cache_coordinator cdiv cfg a = base_coordinator cdiv NoPrefixCache cfg False a"

section \<open>Operations over the managers\<close>

text \<open>A loop over the managers that threads the pool, with the results of the calls.\<close>

fun each_manager ::
  "(nat \<Rightarrow> manager \<Rightarrow> block_pool \<Rightarrow> ('r \<times> manager \<times> block_pool) res) \<Rightarrow> nat \<Rightarrow> manager list \<Rightarrow> block_pool
     \<Rightarrow> ('r list \<times> manager list \<times> block_pool) res" where
  "each_manager f i [] p = Inr ([], [], p)"
| "each_manager f i (m # ms) p =
     bind_res (f i m p) (\<lambda>(x, m1, p1).
     bind_res (each_manager f (Suc i) ms p1) (\<lambda>(xs, ms2, p2). Inr (x # xs, m1 # ms2, p2)))"

definition no_result :: "(manager \<times> block_pool) res \<Rightarrow> (unit \<times> manager \<times> block_pool) res" where
  "no_result r = bind_res r (\<lambda>(m, p). Inr ((), m, p))"

definition with_managers :: "coordinator \<Rightarrow> manager list \<Rightarrow> coordinator" where
  "with_managers c ms = c\<lparr>single_type_managers := ms\<rparr>"

fun count_blocks ::
  "(int \<Rightarrow> int \<Rightarrow> int) \<Rightarrow> block_pool \<Rightarrow> string \<Rightarrow> int \<Rightarrow> nat list list \<Rightarrow> int \<Rightarrow> int \<Rightarrow> int \<Rightarrow> int \<Rightarrow> bool
     \<Rightarrow> nat \<Rightarrow> manager list \<Rightarrow> (int \<times> manager list) res" where
  "count_blocks cdiv p r ntok new_computed nenc tot num_local ntok_main cap i [] = Inr (0, [])"
| "count_blocks cdiv p r ntok new_computed nenc tot num_local ntok_main cap i (m # ms) =
     bind_res
       (if manager_cls m = CrossAttentionManager then
          get_num_blocks_to_allocate cdiv p m r nenc [] 0 0 nenc cap
        else bind_res (py_index new_computed (int i)) (\<lambda>bs.
          get_num_blocks_to_allocate cdiv p m r ntok bs tot num_local ntok_main cap)) (\<lambda>(n, m1).
     bind_res (count_blocks cdiv p r ntok new_computed nenc tot num_local ntok_main cap (Suc i) ms)
       (\<lambda>(n2, ms2). Inr (n + n2, m1 # ms2)))"

definition co_get_num_blocks_to_allocate ::
  "(int \<Rightarrow> int \<Rightarrow> int) \<Rightarrow> string \<Rightarrow> int \<Rightarrow> nat list list \<Rightarrow> int \<Rightarrow> int \<Rightarrow> int \<Rightarrow> int \<Rightarrow> bool
     \<Rightarrow> coordinator \<Rightarrow> block_pool \<Rightarrow> (int \<times> coordinator) res" where
  "co_get_num_blocks_to_allocate cdiv r ntok new_computed nenc tot num_local ntok_main cap c p =
     bind_res (count_blocks cdiv p r ntok new_computed nenc tot num_local ntok_main cap 0
        (single_type_managers c)) (\<lambda>(n, ms). Inr (n, with_managers c ms))"

definition allocate_new_computed_blocks ::
  "(int \<Rightarrow> int \<Rightarrow> int) \<Rightarrow> pool_env \<Rightarrow> string \<Rightarrow> nat list list \<Rightarrow> int \<Rightarrow> int \<Rightarrow> coordinator \<Rightarrow> block_pool
     \<Rightarrow> (coordinator \<times> block_pool) res" where
  "allocate_new_computed_blocks cdiv env r new_computed num_local num_external c p =
     (if \<exists>m \<in> set (single_type_managers c). map_of (num_cached_block m) r \<noteq> None then
        (if \<not> (\<forall>bs \<in> set new_computed. bs = []) then Inl AssertionError else Inr (c, p))
      else
        bind_res (each_manager (\<lambda>i m p. no_result (bind_res (py_index new_computed (int i)) (\<lambda>bs.
            add_local_computed_blocks r bs num_local num_external m p))) 0 (single_type_managers c) p)
          (\<lambda>(_, ms1, p1).
        bind_res (if num_external > 0 then
            each_manager (\<lambda>_ m p. no_result
              (allocate_external_computed_blocks cdiv env r num_local num_external m p)) 0 ms1 p1
          else Inr ([], ms1, p1)) (\<lambda>(_, ms2, p2). Inr (with_managers c ms2, p2))))"

definition co_allocate_new_blocks ::
  "(int \<Rightarrow> int \<Rightarrow> int) \<Rightarrow> pool_env \<Rightarrow> string \<Rightarrow> int \<Rightarrow> int \<Rightarrow> int \<Rightarrow> coordinator \<Rightarrow> block_pool
     \<Rightarrow> (nat list list \<times> coordinator \<times> block_pool) res" where
  "co_allocate_new_blocks cdiv env r ntok ntok_main nenc c p =
     bind_res (each_manager (\<lambda>_ m. allocate_new_blocks cdiv env r
         (if manager_cls m = CrossAttentionManager then nenc else ntok) ntok_main m)
         0 (single_type_managers c) p)
       (\<lambda>(new, ms, p1). Inr (new, with_managers c ms, p1))"

text \<open>The tokens that the manager of a group may cache.\<close>

definition align_cacheable :: "coordinator \<Rightarrow> int \<Rightarrow> int" where
  "align_cacheable c n =
     (if enable_partial_hash_hits c then n
      else n div co_scheduler_block_size c * co_scheduler_block_size c)"

definition tokens_to_cache :: "coordinator \<Rightarrow> int \<Rightarrow> manager \<Rightarrow> int" where
  "tokens_to_cache c num_computed m =
     (let finalized = max 0 (num_computed - num_reprefillable_tokens c)
      in case co_class c of
           Hybrid \<Rightarrow>
             (let cached = align_cacheable c num_computed
              in if use_eagle m \<and> cached > 0
                 then min finalized (align_cacheable c finalized + block_size m) else cached)
         | _ \<Rightarrow> finalized)"

fun cache_each ::
  "(int \<Rightarrow> int \<Rightarrow> int) \<Rightarrow> pool_env \<Rightarrow> (manager \<Rightarrow> int) \<Rightarrow> int option \<Rightarrow> request \<Rightarrow> manager list \<Rightarrow> block_pool
     \<Rightarrow> (request \<times> manager list \<times> block_pool) res" where
  "cache_each cdiv env n retention q [] p = Inr (q, [], p)"
| "cache_each cdiv env n retention q (m # ms) p =
     bind_res (cache_blocks cdiv env q (n m) retention m p) (\<lambda>(q1, m1, p1).
     bind_res (cache_each cdiv env n retention q1 ms p1) (\<lambda>(q2, ms2, p2). Inr (q2, m1 # ms2, p2)))"

definition co_cache_blocks ::
  "(int \<Rightarrow> int \<Rightarrow> int) \<Rightarrow> pool_env \<Rightarrow> request \<Rightarrow> int \<Rightarrow> coordinator \<Rightarrow> block_pool
     \<Rightarrow> (request \<times> coordinator \<times> block_pool) res" where
  "co_cache_blocks cdiv env q num_computed c p =
     bind_res (cache_each cdiv env (tokens_to_cache c num_computed) (retention_interval c) q
        (single_type_managers c) p) (\<lambda>(q1, ms, p1). Inr (q1, with_managers c ms, p1))"

definition co_free :: "string \<Rightarrow> coordinator \<Rightarrow> block_pool \<Rightarrow> (coordinator \<times> block_pool) res" where
  "co_free r c p =
     bind_res (each_manager (\<lambda>_ m p. no_result (free_request r m p)) 0 (single_type_managers c) p)
       (\<lambda>(_, ms, p1). Inr (with_managers c ms, p1))"

definition co_pop_blocks_for_free :: "string \<Rightarrow> coordinator \<Rightarrow> nat list \<times> coordinator" where
  "co_pop_blocks_for_free r c =
     (concat (map (\<lambda>m. fst (pop_blocks_for_free r m)) (single_type_managers c)),
      with_managers c (map (\<lambda>m. snd (pop_blocks_for_free r m)) (single_type_managers c)))"

definition co_get_num_common_prefix_blocks ::
  "string \<Rightarrow> coordinator \<Rightarrow> block_pool \<Rightarrow> int list \<times> coordinator" where
  "co_get_num_common_prefix_blocks r c p =
     (if co_class c = NoPrefixCache then (replicate (length (single_type_managers c)) 0, c)
      else if co_class c = Hybrid \<and> co_dcp c > 1 \<and> co_pcp c = 1 \<and> has_dcp_replicated_group c
      then (replicate (length (co_groups c)) 0, c)
      else (map (\<lambda>m. fst (get_num_common_prefix_blocks r m p)) (single_type_managers c),
            with_managers c (map (\<lambda>m. snd (get_num_common_prefix_blocks r m p))
              (single_type_managers c))))"

definition co_remove_skipped_blocks ::
  "(int \<Rightarrow> int \<Rightarrow> int) \<Rightarrow> string \<Rightarrow> int \<Rightarrow> int option \<Rightarrow> coordinator \<Rightarrow> block_pool
     \<Rightarrow> (coordinator \<times> block_pool) res" where
  "co_remove_skipped_blocks cdiv r processed prompt c p =
     bind_res (each_manager (\<lambda>_ m p. no_result (remove_skipped_blocks cdiv r processed prompt m p)) 0
        (single_type_managers c) p) (\<lambda>(_, ms, p1). Inr (with_managers c ms, p1))"

definition get_blocks :: "string \<Rightarrow> coordinator \<Rightarrow> nat list list" where
  "get_blocks r c = map (\<lambda>m. blocks_of m r) (single_type_managers c)"

definition co_new_step_starts :: "coordinator \<Rightarrow> coordinator" where
  "co_new_step_starts c = with_managers c (map new_step_starts (single_type_managers c))"

text \<open>\<open>take_pending_cow_copies\<close> of every manager, as \<open>KVCacheManager\<close> drains them.\<close>

definition co_take_copies :: "coordinator \<Rightarrow> (nat \<times> nat) list \<times> coordinator" where
  "co_take_copies c =
     (concat (map (\<lambda>m. fst (take_pending_cow_copies m)) (single_type_managers c)),
      with_managers c (map (\<lambda>m. snd (take_pending_cow_copies m)) (single_type_managers c)))"

section \<open>Prefix-cache lookup over the groups\<close>

definition class_find_longest_cache_hit ::
  "(int \<Rightarrow> int \<Rightarrow> int) \<Rightarrow> block_pool \<Rightarrow> manager_class \<Rightarrow> block_hash list \<Rightarrow> int \<Rightarrow> int list \<Rightarrow> kv_spec
     \<Rightarrow> bool \<Rightarrow> int \<Rightarrow> int \<Rightarrow> int \<Rightarrow> (nat list list \<times> int) res" where
  "class_find_longest_cache_hit cdiv p cls hs max_length gids spec drop_eagle align dcp pcp =
     (case cls of
        SlidingWindowManager \<Rightarrow>
          sliding_window_hit cdiv p hs max_length gids spec drop_eagle align dcp pcp
      | ChunkedLocalAttentionManager \<Rightarrow>
          chunked_local_hit p hs max_length gids spec drop_eagle align dcp pcp
      | MambaManager \<Rightarrow> mamba_hit p hs max_length gids spec align dcp pcp
      | KpoolTailManager \<Rightarrow> Inr (kpool_hit gids)
      | CrossAttentionManager \<Rightarrow>
          if sp_kind spec \<noteq> CrossAttentionSpec then Inl AssertionError else Inl NotImplementedError
      | _ \<Rightarrow> full_attention_hit cdiv p hs max_length gids spec drop_eagle align dcp)"

definition unitary_find ::
  "(int \<Rightarrow> int \<Rightarrow> int) \<Rightarrow> coordinator \<Rightarrow> block_pool \<Rightarrow> block_hash list \<Rightarrow> int
     \<Rightarrow> (nat list list \<times> int \<times> int) res" where
  "unitary_find cdiv c p hs max_length =
     bind_res (class_find_longest_cache_hit cdiv p (manager_cls (single_type_managers c ! 0)) hs
        max_length [0] (g_spec (co_groups c ! 0)) (0 \<in> eagle_group_ids c) (co_block_size c)
        (co_dcp c) (co_pcp c)) (\<lambda>(blocks, n). Inr (blocks, n, 0))"

definition cache_hit_alignment :: "coordinator \<Rightarrow> int" where
  "cache_hit_alignment c =
     (if enable_partial_hash_hits c then co_hash_block_size c else co_scheduler_block_size c)"

text \<open>The local variables of the loop.\<close>

record lookup =
  lk_curr :: int
  lk_longest :: int
  lk_blocks :: "nat list option list"
  lk_lengths :: "int list"
  lk_verified :: "nat set"

text \<open>\<open>drop_eagle_block\<close> and \<open>_max_length\<close> for one attention group\<close>

definition drops_eagle :: "coordinator \<Rightarrow> nat \<Rightarrow> spec_group \<Rightarrow> lookup \<Rightarrow> bool" where
  "drops_eagle c idx g s \<longleftrightarrow>
     sg_use_eagle g \<and> idx \<notin> lk_verified s
     \<and> \<not> (eagle_drop_exempt c \<and> sp_kind (sg_spec g) \<noteq> MambaSpec)"

definition lookup_bound :: "coordinator \<Rightarrow> int \<Rightarrow> spec_group \<Rightarrow> bool \<Rightarrow> int \<Rightarrow> int" where
  "lookup_bound c max_length g drop_eagle n =
     (if drop_eagle \<and> sp_kind (sg_spec g) \<noteq> MambaSpec then
        (let bs = block_size (single_type_managers c ! hd (sg_group_ids g));
             margin = (if enable_partial_hash_hits c \<and> supports_fine_grained (sg_manager_cls g)
                          \<and> bs > co_hash_block_size c then co_hash_block_size c else bs)
         in min (n + margin) max_length)
      else n)"

definition store_hit :: "nat list \<Rightarrow> nat list list \<Rightarrow> int \<Rightarrow> lookup \<Rightarrow> lookup" where
  "store_hit gids blocks n s =
     fold (\<lambda>(i, bs) s. s\<lparr>lk_blocks := (lk_blocks s)[i := Some bs], lk_lengths := (lk_lengths s)[i := n]\<rparr>)
       (zip gids blocks) s"

definition hybrid_group ::
  "(int \<Rightarrow> int \<Rightarrow> int) \<Rightarrow> coordinator \<Rightarrow> block_pool \<Rightarrow> block_hash list \<Rightarrow> int \<Rightarrow> nat \<times> spec_group \<Rightarrow> lookup
     \<Rightarrow> lookup res" where
  "hybrid_group cdiv c p hs max_length ig s =
     (let (idx, g) = ig; spec = sg_spec g; first = hd (sg_group_ids g)
      in if is_full_attention (sp_kind spec) \<and> lk_blocks s ! first \<noteq> None then
           Inr (s\<lparr>lk_curr := min (lk_curr s) (lk_lengths s ! first)\<rparr>)
         else
           (let drop_eagle = drops_eagle c idx g s
            in bind_res (class_find_longest_cache_hit cdiv p (sg_manager_cls g) hs
                 (lookup_bound c max_length g drop_eagle (lk_curr s)) (map int (sg_group_ids g)) spec
                 drop_eagle (cache_hit_alignment c)
                 (if is_full_attention (sp_kind spec) then co_dcp c else 1) 1) (\<lambda>(blocks, n).
               (let s1 = (if drop_eagle then s\<lparr>lk_verified := insert idx (lk_verified s)\<rparr>
                          else if n < lk_curr s then s\<lparr>lk_verified := {}\<rparr> else s);
                    s2 = store_hit (sg_group_ids g) blocks n (s1\<lparr>lk_curr := n\<rparr>)
                in Inr (s2\<lparr>lk_longest := max (lk_longest s2) n\<rparr>)))))"

definition is_simple_hybrid :: "coordinator \<Rightarrow> bool" where
  "is_simple_hybrid c \<longleftrightarrow>
     length (attention_groups c) = 2
     \<and> is_full_attention (sp_kind (sg_spec (hd (attention_groups c))))"

text \<open>The \<open>while True\<close> loop; its result is the final length with the variables.\<close>

partial_function (option) hybrid_loop ::
  "(int \<Rightarrow> int \<Rightarrow> int) \<Rightarrow> coordinator \<Rightarrow> block_pool \<Rightarrow> block_hash list \<Rightarrow> int \<Rightarrow> int \<Rightarrow> lookup
     \<Rightarrow> (int \<times> lookup) res option" where
  "hybrid_loop cdiv c p hs max_length hit_length s =
     (case fold_res (hybrid_group cdiv c p hs max_length) (enumerate 0 (attention_groups c))
            (s\<lparr>lk_curr := hit_length\<rparr>) of
        Inl e \<Rightarrow> Some (Inl e)
      | Inr s1 \<Rightarrow>
          if lk_curr s1 \<ge> hit_length then Some (Inr (hit_length, s1))
          else if is_simple_hybrid c then Some (Inr (lk_curr s1, s1))
          else hybrid_loop cdiv c p hs max_length (lk_curr s1) s1)"

text \<open>The blocks of the first group are cut to the final length when it is full attention.\<close>

definition truncate_first ::
  "(int \<Rightarrow> int \<Rightarrow> int) \<Rightarrow> coordinator \<Rightarrow> int \<Rightarrow> lookup \<Rightarrow> lookup" where
  "truncate_first cdiv c hit_length s =
     (let g = hd (attention_groups c)
      in if is_full_attention (sp_kind (sg_spec g)) then
           (let n = cdiv hit_length (block_size (single_type_managers c ! hd (sg_group_ids g)))
            in fold (\<lambda>i s. case lk_blocks s ! i of
                   None \<Rightarrow> s
                 | Some bs \<Rightarrow> s\<lparr>lk_blocks := (lk_blocks s)[i := Some (py_slice bs 0 n)],
                                lk_lengths := (lk_lengths s)[i := hit_length]\<rparr>)
                 (sg_group_ids g) s)
         else s)"

definition hybrid_find ::
  "(int \<Rightarrow> int \<Rightarrow> int) \<Rightarrow> coordinator \<Rightarrow> block_pool \<Rightarrow> block_hash list \<Rightarrow> int
     \<Rightarrow> (nat list list \<times> int \<times> int) res option" where
  "hybrid_find cdiv c p hs max_length =
     (let n = length (co_groups c)
      in case hybrid_loop cdiv c p hs max_length max_length
           \<lparr>lk_curr = max_length, lk_longest = 0, lk_blocks = replicate n None,
            lk_lengths = replicate n 0, lk_verified = {}\<rparr> of
           None \<Rightarrow> None
         | Some (Inl e) \<Rightarrow> Some (Inl e)
         | Some (Inr (hit_length, s)) \<Rightarrow>
             (let s1 = truncate_first cdiv c hit_length s
              in Some (Inr (map (\<lambda>b. case b of None \<Rightarrow> [] | Some bs \<Rightarrow> bs) (lk_blocks s1),
                            hit_length, lk_longest s1 - hit_length))))"

definition co_find_longest_cache_hit ::
  "(int \<Rightarrow> int \<Rightarrow> int) \<Rightarrow> coordinator \<Rightarrow> block_pool \<Rightarrow> block_hash list \<Rightarrow> int
     \<Rightarrow> (nat list list \<times> int \<times> int) res option" where
  "co_find_longest_cache_hit cdiv c p hs max_length =
     (case co_class c of
        NoPrefixCache \<Rightarrow> Some (Inr (replicate (length (single_type_managers c)) [], 0, 0))
      | Unitary \<Rightarrow> Some (unitary_find cdiv c p hs max_length)
      | Hybrid \<Rightarrow> hybrid_find cdiv c p hs max_length)"

definition find_per_group ::
  "(int \<Rightarrow> int \<Rightarrow> int) \<Rightarrow> coordinator \<Rightarrow> block_pool \<Rightarrow> block_hash list \<Rightarrow> int
     \<Rightarrow> (nat list list \<times> int list) res" where
  "find_per_group cdiv c p hs max_length =
     fold_res (\<lambda>g (blocks, lengths).
       bind_res (class_find_longest_cache_hit cdiv p (sg_manager_cls g) hs max_length
           (map int (sg_group_ids g)) (sg_spec g) (sg_use_eagle g) (cache_hit_alignment c) 1 1)
         (\<lambda>(hit, n). Inr (fold (\<lambda>(i, bs) (blocks, lengths). (blocks[i := bs], lengths[i := n]))
             (zip (sg_group_ids g) hit) (blocks, lengths))))
       (attention_groups c)
       (replicate (length (co_groups c)) [], replicate (length (co_groups c)) 0)"

section \<open>The accounts of all managers\<close>

definition held_all :: "manager list \<Rightarrow> nat \<Rightarrow> nat" where
  "held_all ms b = sum_list (map (\<lambda>m. held m b) ms)"

definition tables_in_pool :: "(nat \<Rightarrow> bool) \<Rightarrow> manager \<Rightarrow> bool" where
  "tables_in_pool pooled m \<longleftrightarrow>
     dict_wf (req_to_blocks m) \<and> (\<forall>r. \<forall>b \<in> set (blocks_of m r). b = 0 \<or> pooled b)"

definition manager_ok :: "block_pool \<Rightarrow> manager \<Rightarrow> bool" where
  "manager_ok p m \<longleftrightarrow> tables_in_pool (pool_block p) m \<and> spec_blocks_kept m \<and> align_only m"

text \<open>Every block has just the references of the managers and of the others.\<close>

definition all_good :: "(nat \<Rightarrow> nat) \<Rightarrow> manager list \<Rightarrow> block_pool \<Rightarrow> bool" where
  "all_good others ms p \<longleftrightarrow>
     pool_ok p \<and> (\<forall>m \<in> set ms. manager_ok p m)
     \<and> (\<forall>b. pool_block p b \<longrightarrow> block_refs p b = int (held_all ms b) + int (others b))"

lemma mgr_good_iff:
  "mgr_good others m p \<longleftrightarrow> pool_ok p \<and> manager_ok p m
     \<and> (\<forall>b. pool_block p b \<longrightarrow> block_refs p b = int (held m b) + int (others b))"
  by (auto simp: mgr_good_def mgr_inv_def accounted_def manager_ok_def tables_in_pool_def)

lemma held_all_simps [simp]:
  "held_all [] b = 0" "held_all (m # ms) b = held m b + held_all ms b"
  "held_all (xs @ ys) b = held_all xs b + held_all ys b"
  by (simp_all add: held_all_def)

text \<open>The view of one manager: the other managers are among the others.\<close>

lemma all_good_split:
  "all_good others (xs @ m # ys) p \<longleftrightarrow>
     (\<forall>x \<in> set (xs @ ys). manager_ok p x) \<and> mgr_good (\<lambda>b. others b + held_all (xs @ ys) b) m p"
  by (auto simp: all_good_def mgr_good_iff)

lemma manager_ok_same_size:
  "num_gpu_blocks p' = num_gpu_blocks p \<Longrightarrow> manager_ok p' m = manager_ok p m"
  by (simp add: manager_ok_def pool_block_def [abs_def])

lemma all_good_step:
  assumes good: "all_good others (xs @ m # ys) p" and step: "mgr_step cdiv env (m, p) (m', p')"
    and env: "env_ok env"
  shows "all_good others (xs @ m' # ys) p' \<and> num_gpu_blocks p' = num_gpu_blocks p"
proof -
  from good have g: "\<forall>x \<in> set (xs @ ys). manager_ok p x"
    "mgr_good (\<lambda>b. others b + held_all (xs @ ys) b) m p" unfolding all_good_split by blast+
  from mgr_step_good [OF step env g(2)] have s: "mgr_good (\<lambda>b. others b + held_all (xs @ ys) b) m' p'"
    "num_gpu_blocks p' = num_gpu_blocks p" by simp_all
  have "\<forall>x \<in> set (xs @ ys). manager_ok p' x" using g(1) manager_ok_same_size [OF s(2)] by simp
  then show ?thesis using s unfolding all_good_split by blast
qed

lemma no_result_eq [simp]: "no_result r = Inr (x, m, p) \<longleftrightarrow> r = Inr (m, p)"
  by (cases r) (auto simp: no_result_def)

lemma each_manager_good:
  assumes "each_manager f i ms p = Inr (rs, ms', p')" and "all_good others (xs @ ms) p"
    and "env_ok env"
    and "\<And>j q x m' q'. j < length ms \<Longrightarrow> num_gpu_blocks q = num_gpu_blocks p \<Longrightarrow>
      f (i + j) (ms ! j) q = Inr (x, m', q') \<Longrightarrow> mgr_step cdiv env (ms ! j, q) (m', q')"
  shows "all_good others (xs @ ms') p' \<and> num_gpu_blocks p' = num_gpu_blocks p
    \<and> length ms' = length ms \<and> length rs = length ms"
  using assms
proof (induction ms arbitrary: i xs p rs ms')
  case Nil
  then show ?case by simp
next
  case (Cons m ms)
  obtain x m1 p1 rs2 ms2 where s: "f i m p = Inr (x, m1, p1)"
    "each_manager f (Suc i) ms p1 = Inr (rs2, ms2, p')" "rs = x # rs2" "ms' = m1 # ms2"
    using Cons.prems(1) by (auto simp: res_simps)
  have "mgr_step cdiv env (m, p) (m1, p1)" using Cons.prems(4) [of 0 p x m1 p1] s(1) by simp
  from all_good_step [OF Cons.prems(2) this Cons.prems(3)]
  have g: "all_good others ((xs @ [m1]) @ ms) p1" "num_gpu_blocks p1 = num_gpu_blocks p" by simp_all
  have steps: "mgr_step cdiv env (ms ! j, q) (m', q')"
    if "j < length ms" "num_gpu_blocks q = num_gpu_blocks p1" "f (Suc i + j) (ms ! j) q = Inr (x, m', q')"
    for j q x m' q'
    using Cons.prems(4) [of "Suc j" q x m' q'] that g(2) by simp
  from Cons.IH [OF s(2) g(1) Cons.prems(3) steps] show ?case using s g by simp
qed

lemma cache_each_good:
  assumes "cache_each cdiv env n ret q ms p = Inr (q', ms', p')" and "all_good others (xs @ ms) p"
    and "env_ok env"
  shows "all_good others (xs @ ms') p' \<and> num_gpu_blocks p' = num_gpu_blocks p \<and> length ms' = length ms"
  using assms
proof (induction ms arbitrary: q xs p ms')
  case Nil
  then show ?case by simp
next
  case (Cons m ms)
  obtain q1 m1 p1 ms2 where s: "cache_blocks cdiv env q (n m) ret m p = Inr (q1, m1, p1)"
    "cache_each cdiv env n ret q1 ms p1 = Inr (q', ms2, p')" "ms' = m1 # ms2"
    using Cons.prems(1) by (auto simp: res_simps)
  from all_good_step [OF Cons.prems(2) Mgr_cache [OF s(1)] Cons.prems(3)]
  have g: "all_good others ((xs @ [m1]) @ ms) p1" "num_gpu_blocks p1 = num_gpu_blocks p" by simp_all
  from Cons.IH [OF s(2) g(1) Cons.prems(3)] show ?case using s g by simp
qed

lemma count_blocks_good:
  assumes "count_blocks cdiv p r ntok nc nenc tot nl ntm cap i ms = Inr (n, ms')"
    and "all_good others (xs @ ms) p" and "env_ok env"
  shows "all_good others (xs @ ms') p \<and> length ms' = length ms"
  using assms
proof (induction ms arbitrary: i xs n ms')
  case Nil
  then show ?case by simp
next
  case (Cons m ms)
  obtain n1 m1 n2 ms2 where s:
    "(if manager_cls m = CrossAttentionManager then get_num_blocks_to_allocate cdiv p m r nenc [] 0 0 nenc cap
      else bind_res (py_index nc (int i)) (\<lambda>bs. get_num_blocks_to_allocate cdiv p m r ntok bs tot nl ntm cap))
      = Inr (n1, m1)"
    "count_blocks cdiv p r ntok nc nenc tot nl ntm cap (Suc i) ms = Inr (n2, ms2)" "ms' = m1 # ms2"
    using Cons.prems(1) by (auto simp: res_simps)
  have "mgr_step cdiv env (m, p) (m1, p)"
    using s(1) Mgr_count by (auto simp: res_simps split: if_splits)
  from all_good_step [OF Cons.prems(2) this Cons.prems(3)]
  have "all_good others ((xs @ [m1]) @ ms) p" by simp
  from Cons.IH [OF s(2) this Cons.prems(3)] show ?case using s by simp
qed

lemma each_manager_nth:
  assumes "each_manager f i ms p = Inr (rs, ms', p')"
    and "\<And>j q x m' q'. j < length ms \<Longrightarrow> f (i + j) (ms ! j) q = Inr (x, m', q') \<Longrightarrow> R j (ms ! j) m'"
  shows "length ms' = length ms \<and> (\<forall>j < length ms. R j (ms ! j) (ms' ! j))"
  using assms
proof (induction ms arbitrary: i p rs ms' R)
  case Nil
  then show ?case by simp
next
  case (Cons m ms)
  obtain x m1 p1 rs2 ms2 where s: "f i m p = Inr (x, m1, p1)"
    "each_manager f (Suc i) ms p1 = Inr (rs2, ms2, p')" "ms' = m1 # ms2"
    using Cons.prems(1) by (auto simp: res_simps)
  have "R (Suc j) (ms ! j) m'" if "j < length ms" "f (Suc i + j) (ms ! j) q = Inr (x, m', q')" for j q x m' q'
    using Cons.prems(2) [of "Suc j" q x m' q'] that by simp
  from Cons.IH [where R = "\<lambda>j. R (Suc j)", OF s(2) this] have "length ms2 = length ms" "\<forall>j < length ms. R (Suc j) (ms ! j) (ms2 ! j)"
    by simp_all
  moreover have "R 0 m m1" using Cons.prems(2) [of 0 p x m1 p1] s(1) by simp
  ultimately show ?case using s(3) by (auto simp: less_Suc_eq_0_disj)
qed

text \<open>A step of each manager that leaves the pool alone.\<close>

lemma map_managers_good:
  assumes "all_good others (xs @ ms) p" and "env_ok env"
    and "\<And>m. m \<in> set ms \<Longrightarrow> mgr_step cdiv env (m, p) (f m, p)"
  shows "all_good others (xs @ map f ms) p"
  using assms
proof (induction ms arbitrary: xs)
  case Nil
  then show ?case by simp
next
  case (Cons m ms)
  have "mgr_step cdiv env (m, p) (f m, p)" using Cons.prems(3) by simp
  from all_good_step [OF Cons.prems(1) this Cons.prems(2)]
  have "all_good others ((xs @ [f m]) @ ms) p" by simp
  from Cons.IH [OF this Cons.prems(2)] Cons.prems(3) show ?case by simp
qed

text \<open>Tables and pending copies whose references pass to the caller.\<close>

lemma map_managers_give:
  assumes "all_good others ms p"
    and "\<And>m. m \<in> set ms \<Longrightarrow> manager_ok p m \<Longrightarrow>
      manager_ok p (f m) \<and> (\<forall>b. held (f m) b + g m b = held m b)"
  shows "all_good (\<lambda>b. others b + sum_list (map (\<lambda>m. g m b) ms)) (map f ms) p"
proof -
  have each: "manager_ok p (f m) \<and> (\<forall>b. held (f m) b + g m b = held m b)" if "m \<in> set ms" for m
    using assms(2) [OF that] assms(1) that by (simp add: all_good_def)
  have "\<forall>m \<in> set ms. held (f m) b + g m b = held m b \<Longrightarrow>
      held_all (map f ms) b + sum_list (map (\<lambda>m. g m b) ms) = held_all ms b" for b
    by (induction ms) auto
  then have sum: "held_all (map f ms) b + sum_list (map (\<lambda>m. g m b) ms) = held_all ms b" for b
    using each by blast
  have "block_refs p b = int (held_all (map f ms) b) + int (others b + sum_list (map (\<lambda>m. g m b) ms))"
    if "pool_block p b" for b
  proof -
    have "block_refs p b = int (held_all ms b) + int (others b)"
      using assms(1) that by (simp add: all_good_def)
    then show ?thesis unfolding sum [of b, symmetric] by simp
  qed
  moreover have "\<forall>m \<in> set (map f ms). manager_ok p m" using each by simp
  moreover have "pool_ok p" using assms(1) by (simp add: all_good_def)
  ultimately show ?thesis unfolding all_good_def by blast
qed

lemma pop_blocks_gives:
  assumes "manager_ok p m" and "pop_blocks_for_free r m = (bs, m')"
  shows "manager_ok p m' \<and> (\<forall>b. held m' b + count_list bs b = held m b)"
proof -
  have m': "req_to_blocks m' = AList.delete r (req_to_blocks m)" "pending_cow_copies m' = pending_cow_copies m"
    "bs = blocks_of m r" "kv_cache_spec m' = kv_cache_spec m" "manager_cls m' = manager_cls m"
    using assms(2) by (auto simp: pop_blocks_for_free_def Let_def blocks_of_def split: if_splits)
  have wf: "dict_wf (req_to_blocks m)" using assms(1) by (simp add: manager_ok_def tables_in_pool_def)
  have bl: "blocks_of m' q = (if q = r then [] else blocks_of m q)" for q
    by (simp add: blocks_of_def m' dict_simps)
  have "\<And>q. 0 \<le> dict_get (num_checkpoint_blocks m) q 0 \<Longrightarrow> 0 \<le> dict_get (num_checkpoint_blocks m') q 0"
    and gone: "allocated_block_reqs m' \<subseteq> allocated_block_reqs m - {r}"
    using assms by (auto simp: pop_blocks_for_free_def Let_def manager_ok_def align_only_def dict_simps
        split: if_splits)
  then have "spec_blocks_kept m'" "align_only m'"
    using assms(1) m'(4,5) subsetD [OF gone] bl
    by (auto simp: manager_ok_def spec_blocks_kept_def align_only_def)
  moreover have "tables_in_pool (pool_block p) m'"
    using assms(1) wf by (auto simp: manager_ok_def tables_in_pool_def bl m')
  ultimately show ?thesis
    using table_refs_delete [OF wf, of r] m' by (auto simp: manager_ok_def held_def blocks_of_def)
qed

lemma take_copies_gives:
  assumes "manager_ok p m" and "take_pending_cow_copies m = (cs, m')"
  shows "manager_ok p m' \<and> (\<forall>b. held m' b + copy_refs cs b = held m b)"
proof -
  have m': "m' = m\<lparr>pending_cow_copies := []\<rparr>" "cs = pending_cow_copies m"
    using assms(2) by (simp_all add: take_pending_cow_copies_def)
  have "blocks_of m' q = blocks_of m q" for q by (simp add: m' blocks_of_def)
  then show ?thesis
    using assms(1) by (simp add: m' manager_ok_def tables_in_pool_def spec_blocks_kept_def align_only_def
        held_def copy_refs_def)
qed

section \<open>Reachable coordinators\<close>

text \<open>
  What the caller of \<open>allocate_new_computed_blocks\<close> sees to: the hit blocks are blocks of the
  pool, and where blocks are allocated for external tokens, the local hit of each group and its
  skipped blocks end at or before the last computed token.
\<close>

definition hits_in_pool :: "block_pool \<Rightarrow> nat list list \<Rightarrow> bool" where
  "hits_in_pool p new_computed \<longleftrightarrow>
     (\<forall>bs \<in> set new_computed. \<forall>b \<in> set bs. int b < num_gpu_blocks p)"

definition hit_fits :: "(int \<Rightarrow> int \<Rightarrow> int) \<Rightarrow> int \<Rightarrow> manager \<Rightarrow> nat list \<Rightarrow> bool" where
  "hit_fits cdiv tot m bs \<longleftrightarrow>
     manager_cls m \<in> {KpoolTailManager, CrossAttentionManager}
     \<or> int (length bs) \<le> cdiv tot (block_size m)
       \<and> get_num_skipped_tokens m tot div block_size m \<le> cdiv tot (block_size m)"

definition hits_fit :: "(int \<Rightarrow> int \<Rightarrow> int) \<Rightarrow> int \<Rightarrow> manager list \<Rightarrow> nat list list \<Rightarrow> bool" where
  "hits_fit cdiv tot ms new_computed \<longleftrightarrow>
     (\<forall>i < length ms. i < length new_computed \<longrightarrow> hit_fits cdiv tot (ms ! i) (new_computed ! i))"

lemma add_local_fits:
  assumes run: "add_local_computed_blocks r bs num_local num_external m p = Inr (m', p')"
    and fits: "hit_fits cdiv (num_local + num_external) m bs"
  shows "manager_cls m' \<in> {KpoolTailManager, CrossAttentionManager}
    \<or> int (length (blocks_of m' r)) \<le> cdiv (num_local + num_external) (block_size m')"
proof (cases "manager_cls m \<in> {KpoolTailManager, CrossAttentionManager}")
  case True
  then have "m' = m" using run by (auto simp: add_local_computed_blocks_def split: if_splits)
  then show ?thesis using True by simp
next
  case False
  let ?k = "get_num_skipped_tokens m (num_local + num_external) div block_size m"
  define kept where "kept = (if ?k > 0 then drop (nat ?k) bs else bs)"
  have kl: "int (length (replicate (nat ?k) (null_block p) @ kept)) \<le> max ?k (int (length bs))"
    by (auto simp: kept_def)
  have "base_add_local_computed_blocks r bs num_local num_external m p = Inr (m', p')"
    using run False by (cases "manager_cls m") (simp_all add: add_local_computed_blocks_def)
  then have m': "m' = enter_hit r kept (replicate (nat ?k) (null_block p) @ kept) num_local m"
    unfolding base_add_local_computed_blocks_def Let_def kept_def [symmetric]
    by (auto simp: res_simps split: if_splits)
  have "blocks_of m' r = replicate (nat ?k) (null_block p) @ kept" "block_size m' = block_size m"
    using blocks_of_cong [of m' "set_blocks r (replicate (nat ?k) (null_block p) @ kept) m" r]
    by (simp_all add: m' enter_hit_def Let_def)
  then show ?thesis using kl fits False by (auto simp: hit_fits_def)
qed

lemma hit_in_range:
  assumes "py_index new_computed (int i) = Inr bs"
  shows "i < length new_computed \<and> bs = new_computed ! i \<and> bs \<in> set new_computed"
  using assms by (auto simp: py_index_def split: if_splits)

lemma allocate_new_computed_blocks_good:
  assumes run: "allocate_new_computed_blocks cdiv env r new_computed num_local num_external c p = Inr (c', p')"
    and good: "all_good others (single_type_managers c) p" and env: "env_ok env"
    and hits: "hits_in_pool p new_computed"
    and fits: "num_external > 0 \<Longrightarrow>
      hits_fit cdiv (num_local + num_external) (single_type_managers c) new_computed"
  shows "all_good others (single_type_managers c') p' \<and> num_gpu_blocks p' = num_gpu_blocks p"
proof (cases "\<exists>m \<in> set (single_type_managers c). map_of (num_cached_block m) r \<noteq> None")
  case True
  then have "c' = c" "p' = p"
    using run by (auto simp: allocate_new_computed_blocks_def split: if_splits)
  then show ?thesis using good by simp
next
  case False
  let ?ms = "single_type_managers c"
  let ?f = "\<lambda>i m p. no_result (bind_res (py_index new_computed (int i)) (\<lambda>bs.
    add_local_computed_blocks r bs num_local num_external m p))"
  let ?g = "\<lambda>_ m p. no_result (allocate_external_computed_blocks cdiv env r num_local num_external m p)"
  obtain rs1 ms1 p1 rs2 ms2 where s: "each_manager ?f 0 ?ms p = Inr (rs1, ms1, p1)"
    "(if num_external > 0 then each_manager ?g 0 ms1 p1 else Inr ([], ms1, p1)) = Inr (rs2, ms2, p')"
    "single_type_managers c' = ms2"
    using run False
    by (auto simp: allocate_new_computed_blocks_def with_managers_def bind_res_eq_Inr)
  have step1: "mgr_step cdiv env (?ms ! j, q) (m', q')"
    if "j < length ?ms" and size: "num_gpu_blocks q = num_gpu_blocks p"
      and call: "?f (0 + j) (?ms ! j) q = Inr (x, m', q')" for j q x m' q'
  proof -
    obtain bs where bs: "py_index new_computed (int j) = Inr bs"
      "add_local_computed_blocks r bs num_local num_external (?ms ! j) q = Inr (m', q')"
      using call by (auto simp: bind_res_eq_Inr)
    have "\<forall>b \<in> set bs. int b < num_gpu_blocks q"
      using hits hit_in_range [OF bs(1)] size by (auto simp: hits_in_pool_def)
    then show ?thesis using bs(2) by (rule Mgr_add_local)
  qed
  have g1: "all_good others ms1 p1" "num_gpu_blocks p1 = num_gpu_blocks p" "length ms1 = length ?ms"
  proof -
    have "all_good others ([] @ ?ms) p" using good by simp
    from each_manager_good [OF s(1) this env step1]
    show "all_good others ms1 p1" "num_gpu_blocks p1 = num_gpu_blocks p" "length ms1 = length ?ms"
      by simp_all
  qed
  show ?thesis
  proof (cases "num_external > 0")
    case True
    define R where "R j m' \<longleftrightarrow> manager_cls m' \<in> {KpoolTailManager, CrossAttentionManager}
      \<or> int (length (blocks_of m' r)) \<le> cdiv (num_local + num_external) (block_size m')"
      for j :: nat and m' :: manager
    have "R j m'" if j: "j < length ?ms" and call: "?f (0 + j) (?ms ! j) q = Inr (x, m', q')"
      for j q x m' q'
    proof -
      obtain bs where bs: "py_index new_computed (int j) = Inr bs"
        "add_local_computed_blocks r bs num_local num_external (?ms ! j) q = Inr (m', q')"
        using call by (auto simp: bind_res_eq_Inr)
      have "hit_fits cdiv (num_local + num_external) (?ms ! j) bs"
        using fits [OF True] j hit_in_range [OF bs(1)] by (auto simp: hits_fit_def)
      from add_local_fits [OF bs(2) this] show ?thesis by (simp add: R_def)
    qed
    then have r1: "\<forall>j < length ?ms. R j (ms1 ! j)"
      using each_manager_nth [where R = "\<lambda>j _. R j", OF s(1)] by blast
    have step2: "mgr_step cdiv env (ms1 ! j, q) (m', q')"
      if "j < length ms1" "num_gpu_blocks q = num_gpu_blocks p1" "?g (0 + j) (ms1 ! j) q = Inr (x, m', q')" for j q x m' q'
      using that r1 g1(3) by (intro Mgr_external) (auto simp: R_def)
    have "each_manager ?g 0 ms1 p1 = Inr (rs2, ms2, p')" "all_good others ([] @ ms1) p1"
      using s(2) True g1 by simp_all
    from each_manager_good [OF this env step2] show ?thesis using s(3) g1 by simp
  next
    case False
    then show ?thesis using s(2,3) g1 by auto
  qed
qed

text \<open>
  One call of the coordinator or, on the blocks that the coordinator has given out, of its pool.
  \<open>outs\<close> counts the references that callers hold: popped tables, copies to run and pins.
\<close>

inductive co_step ::
  "(int \<Rightarrow> int \<Rightarrow> int) \<Rightarrow> pool_env \<Rightarrow> (nat \<Rightarrow> nat) \<times> coordinator \<times> block_pool
     \<Rightarrow> (nat \<Rightarrow> nat) \<times> coordinator \<times> block_pool \<Rightarrow> bool"
  for cdiv env where
  Co_count: "co_get_num_blocks_to_allocate cdiv r ntok new_computed nenc tot num_local ntok_main cap c p
      = Inr (n, c') \<Longrightarrow> co_step cdiv env (outs, c, p) (outs, c', p)"
| Co_computed: "hits_in_pool p new_computed \<Longrightarrow>
    (num_external > 0 \<longrightarrow> hits_fit cdiv (num_local + num_external) (single_type_managers c) new_computed) \<Longrightarrow>
    allocate_new_computed_blocks cdiv env r new_computed num_local num_external c p = Inr (c', p') \<Longrightarrow>
    co_step cdiv env (outs, c, p) (outs, c', p')"
| Co_allocate: "\<forall>m \<in> set (single_type_managers c). 0 \<le> cdiv ntok_main (block_size m) \<Longrightarrow>
    co_allocate_new_blocks cdiv env r ntok ntok_main nenc c p = Inr (new, c', p') \<Longrightarrow>
    co_step cdiv env (outs, c, p) (outs, c', p')"
| Co_cache: "co_cache_blocks cdiv env q num_computed c p = Inr (q', c', p') \<Longrightarrow>
    co_step cdiv env (outs, c, p) (outs, c', p')"
| Co_free: "co_free r c p = Inr (c', p') \<Longrightarrow> co_step cdiv env (outs, c, p) (outs, c', p')"
| Co_pop: "co_pop_blocks_for_free r c = (bs, c') \<Longrightarrow>
    co_step cdiv env (outs, c, p) (\<lambda>b. outs b + count_list bs b, c', p)"
| Co_common_prefix: "co_get_num_common_prefix_blocks r c p = (ns, c') \<Longrightarrow>
    co_step cdiv env (outs, c, p) (outs, c', p)"
| Co_remove: "co_remove_skipped_blocks cdiv r processed prompt c p = Inr (c', p') \<Longrightarrow>
    co_step cdiv env (outs, c, p) (outs, c', p')"
| Co_new_step: "co_step cdiv env (outs, c, p) (outs, co_new_step_starts c, p)"
| Co_take_copies: "co_take_copies c = (cs, c') \<Longrightarrow>
    co_step cdiv env (outs, c, p) (\<lambda>b. outs b + copy_refs cs b, c', p)"
| Co_release: "\<forall>b \<in> set bs. b = 0 \<or> pool_block p b \<and> count_list bs b \<le> outs b \<Longrightarrow>
    free_blocks bs p = Inr p' \<Longrightarrow> co_step cdiv env (outs, c, p) (\<lambda>b. outs b - count_list bs b, c, p')"
| Co_pin: "\<forall>b \<in> set bs. int b < num_gpu_blocks p \<Longrightarrow> touch bs p = Inr p' \<Longrightarrow>
    co_step cdiv env (outs, c, p) (\<lambda>b. outs b + count_list bs b, c, p')"

inductive_cases co_stepE: "co_step cdiv env (outs, c, p) (outs', c', p')"

lemma copy_refs_concat: "copy_refs (concat css) b = sum_list (map (\<lambda>cs. copy_refs cs b) css)"
  by (induction css) (simp_all add: copy_refs_def)

lemma all_good_refs:
  assumes "all_good others ms p" and "pool_ok p'" and "pool_block p' = pool_block p"
    and "\<And>b. pool_block p b \<Longrightarrow> block_refs p' b + int (others b) = block_refs p b + int (others' b)"
  shows "all_good others' ms p'"
proof -
  have "block_refs p' b = int (held_all ms b) + int (others' b)" if "pool_block p b" for b
    using assms(1,4) that by (fastforce simp: all_good_def)
  moreover have "\<forall>m \<in> set ms. manager_ok p' m" using assms(1,3) by (simp add: all_good_def manager_ok_def)
  ultimately show ?thesis using assms(2,3) by (simp add: all_good_def)
qed

lemma co_step_good:
  assumes "co_step cdiv env (outs, c, p) (outs', c', p')" and env: "env_ok env"
    and good: "all_good outs (single_type_managers c) p"
  shows "all_good outs' (single_type_managers c') p' \<and> num_gpu_blocks p' = num_gpu_blocks p"
  using assms(1)
proof (elim co_stepE, goal_cases)
  case (1 r ntok new_computed nenc tot num_local ntok_main cap n)
  then show ?case
    using count_blocks_good [where xs = "[]", OF _ _ env] good
    by (auto simp: co_get_num_blocks_to_allocate_def with_managers_def res_simps)
next
  case (2 new_computed num_external num_local r)
  then show ?case using allocate_new_computed_blocks_good [OF 2(4) good env 2(2)] by blast
next
  case (3 ntok_main r ntok nenc new)
  let ?f = "\<lambda>_ m. allocate_new_blocks cdiv env r
    (if manager_cls m = CrossAttentionManager then nenc else ntok) ntok_main m"
  obtain ms where s: "each_manager ?f 0 (single_type_managers c) p = Inr (new, ms, p')"
    "single_type_managers c' = ms"
    using 3(3) by (auto simp: co_allocate_new_blocks_def with_managers_def res_simps)
  have g: "all_good outs ([] @ single_type_managers c) p" using good by simp
  have "mgr_step cdiv env (single_type_managers c ! j, q) (m', q')"
    if "j < length (single_type_managers c)" "num_gpu_blocks q = num_gpu_blocks p"
      "?f (0 + j) (single_type_managers c ! j) q = Inr (x, m', q')" for j q x m' q'
    using that 3(2) by (intro Mgr_allocate) auto
  from each_manager_good [OF s(1) g env this] show ?case using s(2) 3(1) by simp
next
  case (4 q num_computed q')
  then show ?case
    using cache_each_good [where xs = "[]", OF _ _ env] good
    by (auto simp: co_cache_blocks_def with_managers_def res_simps)
next
  case (5 r)
  let ?f = "\<lambda>_ m p. no_result (free_request r m p)"
  obtain rs ms where s: "each_manager ?f 0 (single_type_managers c) p = Inr (rs, ms, p')"
    "single_type_managers c' = ms"
    using 5(2) by (auto simp: co_free_def with_managers_def res_simps)
  have g: "all_good outs ([] @ single_type_managers c) p" using good by simp
  have "mgr_step cdiv env (single_type_managers c ! j, q) (m', q')"
    if "j < length (single_type_managers c)" "num_gpu_blocks q = num_gpu_blocks p"
      "?f (0 + j) (single_type_managers c ! j) q = Inr (x, m', q')" for j q x m' q'
    using that by (intro Mgr_free) auto
  from each_manager_good [OF s(1) g env this] show ?case using s(2) 5(1) by simp
next
  case (6 r bs)
  have c': "single_type_managers c' = map (\<lambda>m. snd (pop_blocks_for_free r m)) (single_type_managers c)"
    and bs: "bs = concat (map (\<lambda>m. fst (pop_blocks_for_free r m)) (single_type_managers c))"
    using 6(1) by (auto simp: co_pop_blocks_for_free_def with_managers_def)
  have "count_list bs b = sum_list (map (\<lambda>m. count_list (fst (pop_blocks_for_free r m)) b) (single_type_managers c))" for b
    by (simp add: bs count_list_concat comp_def)
  moreover have "all_good (\<lambda>b. outs b + sum_list (map (\<lambda>m. count_list (fst (pop_blocks_for_free r m)) b)
      (single_type_managers c))) (map (\<lambda>m. snd (pop_blocks_for_free r m)) (single_type_managers c)) p"
    by (rule map_managers_give [OF good]) (rule pop_blocks_gives, simp_all)
  ultimately show ?case using 6(2,3) by (simp add: c')
next
  case (7 r ns)
  have "c' = c \<or> single_type_managers c'
      = map (\<lambda>m. snd (get_num_common_prefix_blocks r m p)) (single_type_managers c)"
    using 7(1) by (auto simp: co_get_num_common_prefix_blocks_def with_managers_def split: if_splits)
  moreover have "all_good outs ([] @ map (\<lambda>m. snd (get_num_common_prefix_blocks r m p)) (single_type_managers c)) p"
  proof (rule map_managers_good [OF _ env])
    show "mgr_step cdiv env (m, p) (snd (get_num_common_prefix_blocks r m p), p)" for m
      by (rule Mgr_common_prefix [of r m p "fst (get_num_common_prefix_blocks r m p)"]) simp
  qed (use good in simp)
  ultimately show ?case using good 7 by auto
next
  case (8 r processed prompt)
  let ?f = "\<lambda>_ m p. no_result (remove_skipped_blocks cdiv r processed prompt m p)"
  obtain rs ms where s: "each_manager ?f 0 (single_type_managers c) p = Inr (rs, ms, p')"
    "single_type_managers c' = ms"
    using 8(2) by (auto simp: co_remove_skipped_blocks_def with_managers_def res_simps)
  have g: "all_good outs ([] @ single_type_managers c) p" using good by simp
  have "mgr_step cdiv env (single_type_managers c ! j, q) (m', q')"
    if "j < length (single_type_managers c)" "num_gpu_blocks q = num_gpu_blocks p"
      "?f (0 + j) (single_type_managers c ! j) q = Inr (x, m', q')" for j q x m' q'
    using that by (intro Mgr_remove) auto
  from each_manager_good [OF s(1) g env this] show ?case using s(2) 8(1) by simp
next
  case 9
  have "all_good outs ([] @ map new_step_starts (single_type_managers c)) p"
    using good env by (intro map_managers_good) (auto intro: Mgr_new_step)
  then show ?case using 9 by (simp add: co_new_step_starts_def with_managers_def)
next
  case (10 cs)
  have c': "single_type_managers c' = map (\<lambda>m. snd (take_pending_cow_copies m)) (single_type_managers c)"
    and cs: "cs = concat (map (\<lambda>m. fst (take_pending_cow_copies m)) (single_type_managers c))"
    using 10(1) by (auto simp: co_take_copies_def with_managers_def)
  have "copy_refs cs b = sum_list (map (\<lambda>m. copy_refs (fst (take_pending_cow_copies m)) b) (single_type_managers c))" for b
    by (simp add: cs copy_refs_concat comp_def)
  moreover have "all_good (\<lambda>b. outs b + sum_list (map (\<lambda>m. copy_refs (fst (take_pending_cow_copies m)) b)
      (single_type_managers c))) (map (\<lambda>m. snd (take_pending_cow_copies m)) (single_type_managers c)) p"
    by (rule map_managers_give [OF good]) (rule take_copies_gives, simp_all)
  ultimately show ?case using 10(2,3) by (simp add: c')
next
  case (11 bs)
  have ok: "pool_ok p" using good by (simp add: all_good_def)
  have le: "int (count_list bs b) \<le> block_refs p b" if "pool_block p b" "count_list bs b \<le> outs b" for b
    using good that by (simp add: all_good_def)
  then have "\<forall>b \<in> set bs. b = 0 \<or> pool_block p b \<and> int (count_list bs b) \<le> block_refs p b"
    using 11(1) by blast
  from al.release_ok [OF ok this] 11(2) have r: "pool_ok p'" "pool_block p' = pool_block p"
    "\<forall>b. block_refs p' b = block_refs p b - int (count_list bs b)" by auto
  have "count_list bs b \<le> outs b" if "pool_block p b" for b
    using 11(1) that by (cases "b \<in> set bs") (auto simp: pool_block_def)
  then have "all_good outs' (single_type_managers c) p'"
    using r(3) 11(3) by (intro all_good_refs [OF good r(1,2)]) (simp add: of_nat_diff)
  then show ?case using 11 free_blocks_size by simp
next
  case (12 bs)
  have ok: "pool_ok p" using good by (simp add: all_good_def)
  have "\<forall>b \<in> set bs. b = 0 \<or> pool_block p b" using 12(1) in_range_or_null [OF ok] by blast
  from al.pin_ok [OF ok this] 12(2) have r: "pool_ok p'" "pool_block p' = pool_block p"
    "\<forall>b. block_refs p' b = block_refs p b + int (count_list bs b)" by auto
  have "all_good outs' (single_type_managers c) p'"
    using r(3) 12(3) by (intro all_good_refs [OF good r(1,2)]) simp
  then show ?case using 12 touch_size by simp
qed

definition fresh_manager :: "manager \<Rightarrow> bool" where
  "fresh_manager m \<longleftrightarrow>
     req_to_blocks m = [] \<and> pending_cow_copies m = [] \<and> num_checkpoint_blocks m = []
     \<and> allocated_block_reqs m = {} \<and> pending_partial_tail_offloads m = []
     \<and> 0 \<le> sp_num_speculative_blocks (kv_cache_spec m)"

lemma fresh_manager_ok: "fresh_manager m \<Longrightarrow> manager_ok p m \<and> held m b = 0"
  by (simp add: fresh_manager_def manager_ok_def tables_in_pool_def spec_blocks_kept_def align_only_def
      held_def table_refs_def copy_refs_def blocks_of_def dict_get_def)

lemma fresh_managers_good:
  assumes "\<forall>m \<in> set ms. fresh_manager m" and "pool_init n caching hbs events = Inr p"
  shows "all_good (\<lambda>_. 0) ms p"
proof -
  have "n > 0" using assms(2) by (simp add: pool_init_def split: if_splits)
  from pool_init_ok [OF this, of caching hbs events] assms(2)
  have inv: "pool_inv p [1..<nat n]" and n: "num_gpu_blocks p = n" by auto
  have "block_refs p b = 0" if "pool_block p b" for b
    using inv that n by (auto simp: pool_inv_def pool_block_def)
  moreover have "held_all ms b = 0" for b
    using assms(1) fresh_manager_ok by (induction ms) auto
  ultimately show ?thesis
    using assms(1) fresh_manager_ok inv unfolding all_good_def pool_ok_def by auto
qed

lemma map_res_all:
  "map_res f xs = Inr ys \<Longrightarrow> \<forall>x \<in> set xs. \<forall>y. f x = Inr y \<longrightarrow> Q y \<Longrightarrow> \<forall>y \<in> set ys. Q y"
  by (induction xs arbitrary: ys) (auto simp: res_simps)

lemma new_managers_fresh:
  assumes "new_managers cdiv cfg caching a = Inr ms"
    and "\<forall>g \<in> set (kc_groups cfg). 0 \<le> sp_num_speculative_blocks (g_spec g)"
  shows "\<forall>m \<in> set ms. fresh_manager m"
  using assms(1) unfolding new_managers_def
proof (rule map_res_all, intro ballI allI impI)
  fix x m
  assume x: "x \<in> set (enumerate 0 (kc_groups cfg))"
    and run: "(case x of (i, g) \<Rightarrow> new_manager cdiv (g_spec g) (a_max_in_flight a) (a_max_model_len a) caching
         (int i) (a_scheduler_block_size a) (a_dcp a) (needs_kv_cache_zeroing cfg)
         (a_align_cap_legacy a)) = Inr m"
  obtain i g where ig: "x = (i, g)" by (cases x)
  then have "g \<in> set (kc_groups cfg)" using x by (auto simp: in_set_enumerate_eq)
  then show "fresh_manager m"
    using run assms(2)
    by (auto simp: ig new_manager_def fresh_manager_def split: option.splits manager_class.splits)
qed

lemma set_use_eagle_fresh:
  "\<forall>m \<in> set ms. fresh_manager m \<Longrightarrow> i < length ms \<Longrightarrow> \<forall>m \<in> set (set_use_eagle e i ms). fresh_manager m"
  using set_update_subset_insert [of ms i "(ms ! i)\<lparr>use_eagle := e\<rparr>"]
  by (fastforce simp: set_use_eagle_def fresh_manager_def)

lemma set_use_eagle_fresh':
  "\<forall>m \<in> set ms. fresh_manager m \<Longrightarrow> \<forall>m \<in> set (set_use_eagle e i ms). fresh_manager m"
  by (cases "i < length ms") (auto simp: set_use_eagle_fresh set_use_eagle_def list_update_beyond)

lemma fold_use_eagle_fresh:
  "\<forall>m \<in> set ms. fresh_manager m \<Longrightarrow> \<forall>m \<in> set (fold (set_use_eagle True) js ms). fresh_manager m"
  by (rule fold_invariant [where Q = "\<lambda>_. True" and P = "\<lambda>ms. \<forall>m \<in> set ms. fresh_manager m"])
    (simp, assumption, rule set_use_eagle_fresh', assumption)

lemma propagate_eagle_fresh:
  "\<forall>m \<in> set ms. fresh_manager m \<Longrightarrow> \<forall>m \<in> set (propagate_eagle gs ms). fresh_manager m"
  unfolding propagate_eagle_def
proof (rule fold_invariant [where Q = "\<lambda>_. True" and P = "\<lambda>ms. \<forall>m \<in> set ms. fresh_manager m"])
  fix g ms
  assume "\<forall>m \<in> set ms. fresh_manager m"
  then show "\<forall>m \<in> set (if sg_use_eagle g then fold (set_use_eagle True) (sg_group_ids g) ms else ms).
      fresh_manager m"
    using fold_use_eagle_fresh by (cases "sg_use_eagle g") auto
qed simp_all

lemma unitary_managers:
  assumes "unitary_coordinator cdiv cfg caching exempt a = Inr (c, p)"
  shows "\<exists>c1. base_coordinator cdiv Unitary cfg caching a = Inr (c1, p)
    \<and> single_type_managers c = set_use_eagle (0 \<in> eagle_group_ids c1) 0 (single_type_managers c1)"
proof (cases "base_coordinator cdiv Unitary cfg caching a")
  case (Inr cp)
  then show ?thesis
    using assms by (cases cp) (auto simp: unitary_coordinator_def Let_def split: list.splits if_splits)
qed (use assms in \<open>simp add: unitary_coordinator_def\<close>)

lemma verify_and_split_managers:
  assumes "verify_and_split c = Inr c'"
  shows "\<exists>gs. single_type_managers c' = propagate_eagle gs (single_type_managers c)"
proof (cases "split_groups c")
  case (Inr gs)
  then show ?thesis
    using assms unfolding verify_and_split_def Let_def by (auto split: if_splits)
qed (use assms in \<open>simp add: verify_and_split_def\<close>)

lemma hybrid_managers:
  assumes "hybrid_coordinator cdiv cfg caching exempt a = Inr (c, p)"
  shows "\<exists>c1 c2. base_coordinator cdiv Hybrid cfg caching a = Inr (c1, p)
    \<and> single_type_managers c2 = single_type_managers c1 \<and> verify_and_split c2 = Inr c"
proof (cases "base_coordinator cdiv Hybrid cfg caching a")
  case (Inr cp)
  obtain c1 q where cp: "cp = (c1, q)" by (cases cp)
  let ?c2 = "c1\<lparr>eagle_drop_exempt := exempt,
    has_dcp_replicated_group := (\<exists>g \<in> set (kc_groups cfg). sp_dcp_replicated (g_spec g)),
    enable_partial_hash_hits := partial_hits_enabled c1\<rparr>"
  have "bind_res (verify_and_split ?c2) (\<lambda>c2. Inr (c2, q)) = Inr (c, p)"
    using assms unfolding hybrid_coordinator_def Inr cp Let_def
    by (simp add: bind_res_eq_Inr split: if_splits)
  then have "verify_and_split ?c2 = Inr c" "q = p" by (auto simp: bind_res_eq_Inr)
  moreover have "single_type_managers ?c2 = single_type_managers c1" by simp
  ultimately show ?thesis using Inr cp by metis
qed (use assms in \<open>simp add: hybrid_coordinator_def\<close>)

lemma coordinator_fresh:
  assumes "get_kv_cache_coordinator cdiv cfg caching exempt a = Inr (c, p)"
    and nn: "\<forall>g \<in> set (kc_groups cfg). 0 \<le> sp_num_speculative_blocks (g_spec g)"
  shows "(\<forall>m \<in> set (single_type_managers c). fresh_manager m)
    \<and> pool_init (kc_num_blocks cfg) caching (a_hash_block_size a) (a_events a) = Inr p"
proof -
  have base: "(\<forall>m \<in> set (single_type_managers c1). fresh_manager m)
      \<and> pool_init (kc_num_blocks cfg) caching (a_hash_block_size a) (a_events a) = Inr p1"
    if b: "base_coordinator cdiv cls cfg caching a = Inr (c1, p1)" for cls c1 p1
  proof -
    obtain ms where "new_managers cdiv cfg caching a = Inr ms" "single_type_managers c1 = ms"
      "pool_init (kc_num_blocks cfg) caching (a_hash_block_size a) (a_events a) = Inr p1"
      using b by (auto simp: base_coordinator_def Let_def bind_res_eq_Inr split: if_splits)
    then show ?thesis using new_managers_fresh [OF _ nn] by metis
  qed
  show ?thesis
  proof (cases "length (kc_groups cfg) = 1")
    case True
    then obtain c1 where "base_coordinator cdiv Unitary cfg caching a = Inr (c1, p)"
      "single_type_managers c = set_use_eagle (0 \<in> eagle_group_ids c1) 0 (single_type_managers c1)"
      using assms(1) unitary_managers [of cdiv cfg caching exempt a c p]
      by (simp add: get_kv_cache_coordinator_def split: if_splits) blast
    then show ?thesis using base set_use_eagle_fresh' by metis
  next
    case False
    then have "hybrid_coordinator cdiv cfg caching False a = Inr (c, p)"
      using assms(1) by (simp add: get_kv_cache_coordinator_def split: if_splits)
    from hybrid_managers [OF this] obtain c1 c2 where b: "base_coordinator cdiv Hybrid cfg caching a = Inr (c1, p)"
      and eq: "single_type_managers c2 = single_type_managers c1" "verify_and_split c2 = Inr c" by blast
    from verify_and_split_managers [OF eq(2)] obtain gs where
      "single_type_managers c = propagate_eagle gs (single_type_managers c1)" by (auto simp: eq(1))
    then show ?thesis using base [OF b] propagate_eagle_fresh [of "single_type_managers c1" gs] by auto
  qed
qed

lemma co_steps_good:
  assumes "(co_step cdiv env)\<^sup>*\<^sup>* s s'" and "env_ok env"
    and "all_good (fst s) (single_type_managers (fst (snd s))) (snd (snd s))"
  shows "all_good (fst s') (single_type_managers (fst (snd s'))) (snd (snd s'))
    \<and> num_gpu_blocks (snd (snd s')) = num_gpu_blocks (snd (snd s))"
  using assms(1,3)
proof (induction rule: rtranclp_induct)
  case base
  then show ?case by simp
next
  case (step y z)
  have "all_good (fst y) (single_type_managers (fst (snd y))) (snd (snd y))"
    and "num_gpu_blocks (snd (snd y)) = num_gpu_blocks (snd (snd s))"
    and "co_step cdiv env (fst y, fst (snd y), snd (snd y)) (fst z, fst (snd z), snd (snd z))"
    using step by simp_all
  then show ?case using co_step_good [OF _ assms(2)] by metis
qed

lemma held_all_member: "m \<in> set ms \<Longrightarrow> held m b \<le> held_all ms b"
  by (induction ms) auto

text \<open>
  C21. The KV cache of all groups: from the coordinator that \<open>get_kv_cache_coordinator\<close> builds,
  after any sequence of calls on it and of releases and pins of blocks that it has given out, the
  references of every block of the pool are just those of the tables and pending copies of all
  groups and of the callers; a block in a table is the null block or a block of the pool in use;
  and the free blocks are those without a reference, so that nothing is leaked and no block in
  use is handed out.
\<close>

theorem coordinator_accounts_balance:
  assumes "get_kv_cache_coordinator cdiv cfg caching exempt a = Inr (c, p)" and "env_ok env"
    and "\<forall>g \<in> set (kc_groups cfg). 0 \<le> sp_num_speculative_blocks (g_spec g)"
    and "(co_step cdiv env)\<^sup>*\<^sup>* (\<lambda>_. 0, c, p) (outs, c', p')"
  shows "(\<forall>b. pool_block p b \<longrightarrow>
      ref_cnt (blk p' b) = int (held_all (single_type_managers c') b) + int (outs b))
    \<and> (\<forall>bs \<in> set (get_blocks r c'). \<forall>b \<in> set bs. b = 0 \<or> pool_block p b \<and> 0 < ref_cnt (blk p' b))
    \<and> get_num_free_blocks p' = int (card {b. pool_block p b
        \<and> held_all (single_type_managers c') b = 0 \<and> outs b = 0})"
proof -
  have f: "\<forall>m \<in> set (single_type_managers c). fresh_manager m"
    "pool_init (kc_num_blocks cfg) caching (a_hash_block_size a) (a_events a) = Inr p"
    using coordinator_fresh [OF assms(1,3)] by blast+
  have g: "all_good outs (single_type_managers c') p'" and size: "num_gpu_blocks p' = num_gpu_blocks p"
    using co_steps_good [OF assms(4,2)] fresh_managers_good [OF f] by simp_all
  have pb: "pool_block p' = pool_block p" by (simp add: pool_block_def [abs_def] size)
  have ok: "pool_ok p'" using g by (simp add: all_good_def)
  have refs: "block_refs p' b = int (held_all (single_type_managers c') b) + int (outs b)"
    if "pool_block p b" for b using g that by (simp add: all_good_def pb)
  have "b = 0 \<or> pool_block p b \<and> 0 < block_refs p' b"
    if m: "m \<in> set (single_type_managers c')" and b: "b \<in> set (blocks_of m r)" for m b
  proof -
    have "b = 0 \<or> pool_block p b"
      using g m b by (auto simp: all_good_def manager_ok_def tables_in_pool_def pb)
    moreover have "0 < held m b"
      using table_refs_pos [of b "req_to_blocks m" r] b by (simp add: held_def blocks_of_def)
    then have "0 < held_all (single_type_managers c') b"
      using held_all_member [OF m, of b] by simp
    ultimately show ?thesis using refs by auto
  qed
  moreover have "{b. pool_block p b \<and> held_all (single_type_managers c') b = 0 \<and> outs b = 0}
      = {b. pool_block p' b \<and> block_refs p' b = 0}"
    using refs by (auto simp: pb)
  ultimately show ?thesis using refs num_free_card [OF ok] by (auto simp: get_blocks_def)
qed

definition sample_args :: coordinator_args where
  "sample_args = \<lparr>a_max_model_len = 100, a_max_in_flight = 100, a_use_eagle = False, a_events = True,
     a_dcp = 1, a_pcp = 1, a_scheduler_block_size = 2, a_hash_block_size = 2, a_prefill_lookahead = 0,
     a_align_cap_legacy = False\<rparr>"

definition sample_config :: kv_config where
  "sample_config = \<lparr>kc_num_blocks = 5, kc_groups =
     [\<lparr>g_spec = sample_spec FullAttentionSpec, g_is_eagle = False\<rparr>,
      \<lparr>g_spec = sample_spec SlidingWindowSpec, g_is_eagle = False\<rparr>], kc_retention = None\<rparr>"

definition sample_coordinator :: coordinator where
  "sample_coordinator =
     (case get_kv_cache_coordinator sample_cdiv sample_config True False sample_args of Inr (c, p) \<Rightarrow> c)"

lemma sample_coordinator_run:
  "get_kv_cache_coordinator sample_cdiv sample_config True False sample_args
     = Inr (sample_coordinator, sample_pool)"
proof -
  let ?get = "get_kv_cache_coordinator sample_cdiv sample_config True False sample_args"
  have "case ?get of Inr _ \<Rightarrow> True | Inl _ \<Rightarrow> False" by code_simp
  then obtain c p where r: "?get = Inr (c, p)" by (auto split: sum.splits)
  have nn: "\<forall>g \<in> set (kc_groups sample_config). 0 \<le> sp_num_speculative_blocks (g_spec g)" by code_simp
  have "pool_init 5 True 2 True = Inr p"
    using coordinator_fresh [OF r nn] by (simp add: sample_config_def sample_args_def)
  then show ?thesis using sample_pool_init r by (simp add: sample_coordinator_def)
qed

lemma sample_config_specs:
  "\<forall>g \<in> set (kc_groups sample_config). 0 \<le> sp_num_speculative_blocks (g_spec g)"
  by code_simp

theorem coordinator_accounts_balance_witness:
  "\<exists>c' p'. co_allocate_new_blocks sample_cdiv sample_env ''a'' 4 4 0 sample_coordinator sample_pool
      = Inr ([[1, 2], [3, 4]], c', p') \<and> ref_cnt (blk p' 3) = int (held_all (single_type_managers c') 3)
      \<and> get_num_free_blocks p' = int (card {b. pool_block sample_pool b \<and> held_all (single_type_managers c') b = 0})"
proof -
  let ?run = "co_allocate_new_blocks sample_cdiv sample_env ''a'' 4 4 0 sample_coordinator sample_pool"
  have "case ?run of Inr (new, _) \<Rightarrow> new = [[1, 2], [3, 4]] | Inl _ \<Rightarrow> False" by code_simp
  then obtain c' p' where r: "?run = Inr ([[1, 2], [3, 4]], c', p')" by (auto split: sum.splits)
  have "\<forall>m \<in> set (single_type_managers sample_coordinator). 0 \<le> sample_cdiv 4 (block_size m)" by code_simp
  from r_into_rtranclp [where r = "co_step sample_cdiv sample_env", OF Co_allocate [OF this r, where outs = "\<lambda>_. 0"]]
  have "(co_step sample_cdiv sample_env)\<^sup>*\<^sup>* (\<lambda>_. 0, sample_coordinator, sample_pool) (\<lambda>_. 0, c', p')" .
  from coordinator_accounts_balance [OF sample_coordinator_run sample_env_ok sample_config_specs this]
  show ?thesis using r by (simp add: pool_block_def sample_pool_facts)
qed

end
