(* ===== verification/ManagerStatics.thy ===== *)
theory ManagerStatics
  imports SingleType
begin

text \<open>
  The operations of a manager never change what its constructor set: its block size, class,
  specification, admission cap, group and flags.
\<close>

text \<open>The attributes of a manager that only its constructor and the coordinator set\<close>

definition mgr_static :: "manager \<Rightarrow> int \<times> manager_class \<times> kv_spec \<times> int option \<times> bool \<times> int \<times> int \<times> bool \<times> bool" where
  "mgr_static m = (block_size m, manager_cls m, kv_cache_spec m, max_admission_blocks m, mgr_enable_caching m,
     kv_cache_group_id m, scheduler_block_size m, use_eagle m, record_new_block_ids m)"

named_theorems static_kept "operations keep the static attributes of a manager"

lemma tables_static [static_kept]:
  "mgr_static (set_blocks r bs m) = mgr_static m" "mgr_static (open_table r m) = mgr_static m"
  "mgr_static (record_ids bs m) = mgr_static m" "mgr_static (enter_hit r kept bs n m) = mgr_static m"
  by (simp_all add: mgr_static_def set_blocks_def open_table_def record_ids_def enter_hit_def Let_def)

lemma bookkeeping_static [static_kept]:
  "mgr_static (m\<lparr>new_block_ids := a\<rparr>) = mgr_static m"
  "mgr_static (m\<lparr>num_cached_block := b\<rparr>) = mgr_static m"
  "mgr_static (m\<lparr>partial_hit_reqs := c\<rparr>) = mgr_static m"
  "mgr_static (m\<lparr>pending_cow_copies := d\<rparr>) = mgr_static m"
  "mgr_static (m\<lparr>pending_partial_tail_offloads := e\<rparr>) = mgr_static m"
  "mgr_static (m\<lparr>cached_blocks_this_step := f\<rparr>) = mgr_static m"
  "mgr_static (m\<lparr>last_state_block_idx := g\<rparr>) = mgr_static m"
  "mgr_static (m\<lparr>allocated_block_reqs := h\<rparr>) = mgr_static m"
  "mgr_static (m\<lparr>num_checkpoint_blocks := i\<rparr>) = mgr_static m"
  "mgr_static (m\<lparr>producer_partial_tail_reqs := j\<rparr>) = mgr_static m"
  "mgr_static (m\<lparr>req_to_blocks := k\<rparr>) = mgr_static m"
  by (simp_all add: mgr_static_def)

lemma extend_table_static: "extend_table env r n m p = Inr (new, m', p') \<Longrightarrow> mgr_static m' = mgr_static m"
  by (auto simp: extend_table_def res_simps static_kept)

lemma kpool_allocate_static: "kpool_allocate env r m p = Inr (new, m', p') \<Longrightarrow> mgr_static m' = mgr_static m"
  by (auto simp: kpool_allocate_def static_kept extend_table_static split: if_splits)

lemma add_local_static:
  "add_local_computed_blocks r bs nl ne m p = Inr (m', p') \<Longrightarrow> mgr_static m' = mgr_static m"
  by (auto simp: add_local_computed_blocks_def base_add_local_computed_blocks_def Let_def res_simps static_kept
      split: manager_class.splits if_splits)

lemma external_static:
  "allocate_external_computed_blocks cdiv env r nl ne m p = Inr (m', p') \<Longrightarrow> mgr_static m' = mgr_static m"
  by (auto simp: allocate_external_computed_blocks_def base_allocate_external_computed_blocks_def Let_def
      res_simps kpool_allocate_static extend_table_static split: manager_class.splits if_splits)

lemma apply_cow_static: "apply_cow r idx src cow m p = Inr (m', p') \<Longrightarrow> mgr_static m' = mgr_static m"
  by (auto simp: apply_cow_def Let_def res_simps static_kept split: if_splits)

lemma redirect_static: "redirect_partial_hit env r m p = Inr (new, m', p') \<Longrightarrow> mgr_static m' = mgr_static m"
  by (auto simp: redirect_partial_hit_def Let_def res_simps static_kept dest!: apply_cow_static split: option.splits)

lemma base_allocate_static:
  "base_allocate_new_blocks cdiv env r n m p = Inr (new, m', p') \<Longrightarrow> mgr_static m' = mgr_static m"
  by (auto simp: base_allocate_new_blocks_def Let_def res_simps static_kept
      dest!: redirect_static extend_table_static split: if_splits)

lemma mamba_cow_static:
  "mamba_cow env r idx src cow m p = Inr (front, m', p') \<Longrightarrow> mgr_static m' = mgr_static m"
  by (auto simp: mamba_cow_def Let_def res_simps static_kept dest!: apply_cow_static
      split: if_splits option.splits)

lemma mamba_align_allocate_static:
  assumes "mamba_align_allocate cdiv env r n m p = Inr (new, m', p')"
  shows "mgr_static m' = mgr_static m"
  using assms
  by (auto simp: mamba_align_allocate_def Let_def res_simps static_kept dest!: mamba_cow_static
      split: if_splits option.splits)

lemma allocate_static:
  "allocate_new_blocks cdiv env r n n' m p = Inr (new, m', p') \<Longrightarrow> mgr_static m' = mgr_static m"
  by (auto simp: allocate_new_blocks_def mamba_allocate_new_blocks_def kpool_allocate_static base_allocate_static
      mamba_align_allocate_static split: manager_class.splits if_splits)

lemma base_cache_static:
  "base_cache_blocks cdiv env q n ret m p = Inr (q', m', p') \<Longrightarrow> mgr_static m' = mgr_static m"
  by (auto simp: base_cache_blocks_def Let_def res_simps static_kept split: if_splits)

lemma full_partial_tail_static:
  "full_cache_partial_tail env q n m p = Inr (q', m', p') \<Longrightarrow> mgr_static m' = mgr_static m"
  by (auto simp: full_cache_partial_tail_def Let_def res_simps static_kept split: if_splits)

lemma mamba_partial_tail_static:
  "mamba_cache_partial_tail env q n m p = Inr (k, q', m', p') \<Longrightarrow> mgr_static m' = mgr_static m"
  by (auto simp: mamba_cache_partial_tail_def Let_def res_simps static_kept split: if_splits option.splits)

lemma mamba_cache_static:
  "mamba_cache_blocks cdiv env q n ret m p = Inr (q', m', p') \<Longrightarrow> mgr_static m' = mgr_static m"
  by (auto simp: mamba_cache_blocks_def Let_def res_simps static_kept
      dest!: base_cache_static mamba_partial_tail_static split: if_splits)

lemma cache_static:
  "cache_blocks cdiv env q n ret m p = Inr (q', m', p') \<Longrightarrow> mgr_static m' = mgr_static m"
  by (auto simp: cache_blocks_def res_simps dest!: base_cache_static mamba_cache_static full_partial_tail_static
      split: manager_class.splits if_splits)

lemma pop_static: "mgr_static (snd (pop_blocks_for_free r m)) = mgr_static m"
  by (simp add: pop_blocks_for_free_def Let_def static_kept)

lemma free_static: "free_request r m p = Inr (m', p') \<Longrightarrow> mgr_static m' = mgr_static m"
  using pop_static [of r m] by (auto simp: free_request_def res_simps split: prod.splits)

lemma remove_range_static:
  "remove_blocks_in_range r a b m p = Inr (m', p') \<Longrightarrow> mgr_static m' = mgr_static m"
  by (auto simp: remove_blocks_in_range_def Let_def res_simps static_kept split: if_splits)

lemma base_remove_static:
  "base_remove_skipped_blocks r n m p = Inr (m', p') \<Longrightarrow> mgr_static m' = mgr_static m"
  by (auto simp: base_remove_skipped_blocks_def Let_def static_kept dest!: remove_range_static split: if_splits)

lemma mamba_remove_static:
  "mamba_remove_skipped_blocks cdiv r n m p = Inr (m', p') \<Longrightarrow> mgr_static m' = mgr_static m"
  by (auto simp: mamba_remove_skipped_blocks_def drop_last_state_def Let_def res_simps static_kept
      dest!: base_remove_static split: if_splits option.splits)

lemma remove_static:
  "remove_skipped_blocks cdiv r n prompt m p = Inr (m', p') \<Longrightarrow> mgr_static m' = mgr_static m"
  by (auto simp: remove_skipped_blocks_def rswa_remove_skipped_blocks_def
      dest!: base_remove_static mamba_remove_static remove_range_static split: manager_class.splits option.splits)

lemma count_static:
  "get_num_blocks_to_allocate cdiv p m r n bs tot nl nm cap = Inr (k, m') \<Longrightarrow> mgr_static m' = mgr_static m"
  by (auto simp: get_num_blocks_to_allocate_def mamba_num_blocks_to_allocate_def mamba_align_num_blocks_def
      Let_def res_simps static_kept split: manager_class.splits if_splits)

lemma common_prefix_static:
  "get_num_common_prefix_blocks r m p = (n, m') \<Longrightarrow> mgr_static m' = mgr_static m"
  by (auto simp: get_num_common_prefix_blocks_def full_common_prefix_blocks_def Let_def static_kept
      split: manager_class.splits)

lemma new_step_static [static_kept]: "mgr_static (new_step_starts m) = mgr_static m"
  by (simp add: new_step_starts_def static_kept split: manager_class.splits)

lemma mgr_step_static:
  assumes "mgr_step cdiv env (m, p) (m', p')"
  shows "mgr_static m' = mgr_static m"
  using assms
  by (cases rule: mgr_step.cases)
    (auto simp: static_kept take_new_block_ids_def take_pending_partial_tail_offloads_def
      dest!: count_static add_local_static external_static allocate_static cache_static free_static
        remove_static common_prefix_static)

end
