(* ===== verification/HybridLookup.thy ===== *)
theory HybridLookup
  imports Coordinator ManagerStatics "HOL-Library.Multiset"
begin

text \<open>
  The prefix-cache lookup over all groups: what every finder promises of the blocks it returns,
  how the groups are split by specification, that the loop of the hybrid lookup ends, and what
  its result means for each group.
\<close>

section \<open>The shape of a hit\<close>

text \<open>One list per group, all of the same length\<close>

definition shaped :: "int list \<Rightarrow> nat \<Rightarrow> nat list list \<Rightarrow> bool" where
  "shaped gids n computed \<longleftrightarrow> length computed = length gids \<and> (\<forall>c \<in> set computed. length c = n)"

named_theorems shape_simps "shape of the lists that the steps of a lookup build"

lemma shaped_start [shape_simps]: "shaped gids (length xs) (replicate (length gids) xs)"
  by (simp add: shaped_def)

lemma shaped_empty [shape_simps]: "shaped gids 0 (replicate (length gids) [])"
  by (simp add: shaped_def)

lemma get_cached_block_length: "get_cached_block p h gids = Inr (Some bs) \<Longrightarrow> length bs = length gids"
  by (induction gids arbitrary: bs) (auto simp: res_simps split: option.splits)

lemma cached_hit_length: "cached_hit p gids h = Inr (Some bs) \<Longrightarrow> length bs = length gids"
  by (cases "get_cached_block p h gids")
    (auto simp: cached_hit_def get_cached_block_length split: option.splits list.splits)

lemma shaped_append:
  "shaped gids n computed \<Longrightarrow> length bs = length gids \<Longrightarrow> shaped gids (Suc n) (append_hit computed bs)"
  by (auto simp: shaped_def append_hit_def set_zip)

lemma shaped_take: "shaped gids n computed \<Longrightarrow> shaped gids (min n k) (map (take k) computed)"
  by (auto simp: shaped_def)

lemma shaped_first_len: "shaped gids n computed \<Longrightarrow> first_len computed = Inr k \<Longrightarrow> k = int n"
  by (auto simp: shaped_def first_len_def split: list.splits)

lemma full_hit_loop_shape:
  "full_hit_loop p gids hs computed = Inr computed' \<Longrightarrow> shaped gids n computed \<Longrightarrow>
   \<exists>k. shaped gids k computed' \<and> k \<le> n + length hs"
proof (induction hs arbitrary: computed n)
  case Nil
  then show ?case by auto
next
  case (Cons h hs)
  obtain r where r: "cached_hit p gids h = Inr r"
    "(case r of None \<Rightarrow> Inr computed | Some bs \<Rightarrow> full_hit_loop p gids hs (append_hit computed bs))
      = Inr computed'"
    using Cons.prems(1) by (auto simp: res_simps)
  show ?case
  proof (cases r)
    case None
    then show ?thesis using r(2) Cons.prems(2) by auto
  next
    case (Some bs)
    have "shaped gids (Suc n) (append_hit computed bs)"
      using shaped_append [OF Cons.prems(2)] cached_hit_length r(1) Some by blast
    then show ?thesis using Cons.IH [of "append_hit computed bs" "Suc n"] r(2) Some by auto
  qed
qed

lemma map_res_length: "map_res f xs = Inr ys \<Longrightarrow> length ys = length xs"
  by (induction xs arbitrary: ys) (auto simp: res_simps)

lemma bhl_take_length: "bhl_take l n = Inr hs \<Longrightarrow> int (length hs) \<le> n"
  by (auto simp: bhl_take_def dest!: map_res_length split: if_splits)

lemma partial_tail_loop_shape:
  "partial_tail_loop p gids hl align js computed l = Inr (computed', n) \<Longrightarrow> shaped gids k computed \<Longrightarrow>
   computed' = computed \<and> n = l
     \<or> (\<exists>i \<in> set js. n = (i + 1) * align \<and> shaped gids (Suc k) computed')"
proof (induction js)
  case Nil
  then show ?case by simp
next
  case (Cons i js)
  obtain h r where r: "cached_hit p gids h = Inr r"
    "(case r of None \<Rightarrow> partial_tail_loop p gids hl align js computed l
      | Some bs \<Rightarrow> Inr (append_hit computed bs, (i + 1) * align)) = Inr (computed', n)"
    using Cons.prems(1) by (auto simp: res_simps)
  show ?case
  proof (cases r)
    case None
    then show ?thesis using r(2) Cons by auto
  next
    case (Some bs)
    then show ?thesis using r shaped_append [OF Cons.prems(2) cached_hit_length, of p h bs] by auto
  qed
qed

lemma cdiv_le:
  assumes "cdiv_law cdiv" and "0 < b" and "a \<le> n * b"
  shows "cdiv a b \<le> n"
proof -
  have "(cdiv a b - 1) * b < n * b" using cdiv_bounds(2) [OF assms(1,2), of a] assms(3) by simp
  then have "cdiv a b - 1 < n" using assms(2) by (simp add: mult_less_cancel_right)
  then show ?thesis by simp
qed

lemma cdiv_unique:
  assumes "cdiv_law cdiv" and "0 < b" and "(n - 1) * b < a" and "a \<le> n * b"
  shows "cdiv a b = n"
proof -
  have "(n - 1) * b < cdiv a b * b" using cdiv_bounds(1) [OF assms(1,2), of a] assms(3) by linarith
  then have "n - 1 < cdiv a b" using assms(2) by (simp add: mult_less_cancel_right)
  then show ?thesis using cdiv_le [OF assms(1,2,4)] by simp
qed

lemma full_hit_trim_shape:
  assumes "full_hit_trim cdiv e align bs (computed, h) = Inr (computed', n)"
    and "shaped gids k computed" and "h \<le> int k * bs" and "h = 0 \<or> min align bs \<le> h"
    and "cdiv_law cdiv" and "0 < bs" and "0 < align"
  shows "0 \<le> n \<and> n \<le> h \<and> shaped gids (nat (cdiv n bs)) computed'"
proof -
  define h1 where "h1 = (if e \<and> h > 0 then h - min align bs else h)"
  have h1: "0 \<le> h1" "h1 \<le> h" using assms(4,6,7) by (auto simp: h1_def)
  have n: "n = h1 - h1 mod align" "computed' = map (take (nat (cdiv n bs))) computed"
    using assms(1,7) by (auto simp: full_hit_trim_def Let_def py_mod_def h1_def [symmetric])
  from align_down [OF assms(7) h1(1)] n(1) h1 have b: "0 \<le> n" "n \<le> h" by auto
  then have "cdiv n bs \<le> int k" using cdiv_le [OF assms(5,6), of n "int k"] assms(3) by simp
  then have "min k (nat (cdiv n bs)) = nat (cdiv n bs)" by linarith
  then show ?thesis using b shaped_take [OF assms(2), of "nat (cdiv n bs)"] n(2) by simp
qed

definition hit_block_size :: "manager_class \<Rightarrow> kv_spec \<Rightarrow> int \<Rightarrow> int" where
  "hit_block_size cls spec dcp =
     (if cls \<in> {SlidingWindowManager, ChunkedLocalAttentionManager, MambaManager, KpoolTailManager}
      then sp_block_size spec else effective_block_size spec dcp)"

text \<open>A hit is within the bound, and each group has just the blocks that hold it.\<close>

definition hit_in_bounds :: "(int \<Rightarrow> int \<Rightarrow> int) \<Rightarrow> int \<Rightarrow> int list \<Rightarrow> int \<Rightarrow> nat list list \<times> int \<Rightarrow> bool" where
  "hit_in_bounds cdiv bs gids max_length r \<longleftrightarrow>
     (case r of (blocks, n) \<Rightarrow> 0 \<le> n \<and> n \<le> max_length \<and> shaped gids (nat (cdiv n bs)) blocks)"

lemma cdiv_multiple: "cdiv_law cdiv \<Longrightarrow> 0 < b \<Longrightarrow> cdiv (k * b) b = k"
  by (simp add: cdiv_dvd)

lemma cdiv_zero [simp]: "cdiv_law cdiv \<Longrightarrow> 0 < b \<Longrightarrow> cdiv 0 b = 0"
  using cdiv_multiple [of cdiv b 0] by simp

lemma effective_block_size_pos: "0 < sp_block_size spec \<Longrightarrow> 0 < effective_block_size spec dcp"
  by (simp add: effective_block_size_def)

lemma partial_tail_shape:
  assumes run: "partial_tail p gids hl align bs max_length computed num_full = Inr (computed', h)"
    and sh: "shaped gids k computed" "num_full = int k" and le: "int k * bs \<le> max_length"
    and al: "0 < align" "align < bs" "bs mod align = 0"
  shows "\<exists>k'. shaped gids k' computed' \<and> h \<le> int k' * bs \<and> h \<le> max_length \<and> (h = 0 \<or> align \<le> h)"
proof -
  define scale where "scale = bs div align"
  have bs: "bs = scale * align" using al by (auto simp: scale_def mod_eq_0_iff_dvd)
  have scale: "0 < scale" using al by (simp add: scale_def pos_imp_zdiv_pos_iff)
  obtain js where loop: "partial_tail_loop p gids hl align (rev [num_full * scale..js - 1]) computed (num_full * bs)
      = Inr (computed', h)"
    and js: "js \<le> num_full * scale + scale - 1" "js \<le> max_length div align"
    using run by (auto simp: partial_tail_def Let_def scale_def [symmetric])
  from partial_tail_loop_shape [OF loop sh(1)] show ?thesis
  proof
    assume c: "computed' = computed \<and> h = num_full * bs"
    have "h = 0 \<or> bs \<le> h" using c sh(2) al by (cases k) (auto simp: algebra_simps)
    then have "h = 0 \<or> align \<le> h" using al(2) by linarith
    moreover have "shaped gids k computed'" "h \<le> int k * bs" "h \<le> max_length" using c sh le by simp_all
    ultimately show ?thesis by (intro exI [of _ k] conjI)
  next
    assume "\<exists>i \<in> set (rev [num_full * scale..js - 1]). h = (i + 1) * align \<and> shaped gids (Suc k) computed'"
    then obtain i where i: "num_full * scale \<le> i" "i \<le> js - 1" "h = (i + 1) * align" "shaped gids (Suc k) computed'"
      by auto
    have "0 \<le> num_full * scale" using sh(2) scale by simp
    then have "0 \<le> i" using i(1) by linarith
    then have "1 * align \<le> h" unfolding i(3) using al(1) by (intro mult_right_mono) auto
    moreover have "h \<le> max_length"
      using i(2,3) js(2) al(1) le_div_int_iff [of align "i + 1" max_length] by simp
    moreover have "(i + 1) * align \<le> ((num_full + 1) * scale) * align"
      using i(2) js(1) al(1) by (intro mult_right_mono) (auto simp: algebra_simps)
    then have "h \<le> int (Suc k) * bs" unfolding i(3) bs sh(2) by (simp add: algebra_simps)
    ultimately show ?thesis using i(4) by (intro exI [of _ "Suc k"]) simp
  qed
qed

lemma full_attention_hit_bounds:
  assumes run: "full_attention_hit cdiv p hs max_length gids spec e align dcp = Inr r"
    and cd: "cdiv_law cdiv" and pos: "0 < sp_block_size spec" "0 < align"
  shows "hit_in_bounds cdiv (effective_block_size spec dcp) gids max_length r"
proof -
  define bs where "bs = effective_block_size spec dcp"
  have b: "0 < bs" unfolding bs_def by (rule effective_block_size_pos [OF pos(1)])
  obtain hl fine hashes computed num_full r1 where s:
    "(if align < bs then bind_res (py_mod bs align) (\<lambda>m. Inr (m = 0)) else Inr False) = Inr fine"
    "full_hit_loop p gids hashes (replicate (length gids) []) = Inr computed"
    "first_len computed = Inr num_full"
    "(if fine then partial_tail p gids hl align bs max_length computed num_full
      else Inr (computed, num_full * bs)) = Inr r1"
    "full_hit_trim cdiv e align bs r1 = Inr r"
    and len: "int (length hashes) \<le> max_length div bs"
    using run b unfolding full_attention_hit_def Let_def bs_def [symmetric]
    by (auto simp: bind_res_eq_Inr py_floordiv_def dest!: bhl_take_length split: if_splits)
  obtain k where k: "shaped gids k computed" "k \<le> length hashes"
    using full_hit_loop_shape [OF s(2) shaped_empty] by auto
  have nf: "num_full = int k" using shaped_first_len [OF k(1) s(3)] .
  have le: "int k * bs \<le> max_length"
    using k(2) len le_div_int_iff [OF b, of "int k" max_length] by linarith
  obtain computed1 h where r1: "r1 = (computed1, h)" by (cases r1)
  have "\<exists>k'. shaped gids k' computed1 \<and> h \<le> int k' * bs \<and> h \<le> max_length \<and> (h = 0 \<or> min align bs \<le> h)"
  proof (cases fine)
    case True
    then have "align < bs" "bs mod align = 0"
      using s(1) pos(2) by (auto simp: py_mod_def split: if_splits)
    then show ?thesis
      using partial_tail_shape [of p gids hl align bs max_length computed num_full computed1 h k]
        s(4) True r1 k(1) nf le pos(2) by fastforce
  next
    case False
    then have h: "h = int k * bs" "computed1 = computed" using s(4) r1 nf by auto
    have "h = 0 \<or> bs \<le> h" using h b by (cases k) (auto simp: algebra_simps)
    then have "h = 0 \<or> min align bs \<le> h" by linarith
    moreover have "shaped gids k computed1" "h \<le> int k * bs" "h \<le> max_length" using h k(1) le by simp_all
    ultimately show ?thesis by (intro exI [of _ k] conjI)
  qed
  then obtain k' where k': "shaped gids k' computed1" "h \<le> int k' * bs" "h \<le> max_length"
    "h = 0 \<or> min align bs \<le> h" by auto
  obtain computed' n where r: "r = (computed', n)" by (cases r)
  from full_hit_trim_shape [OF s(5) [unfolded r r1] k'(1,2,4) cd b pos(2)] k'(3) show ?thesis
    by (simp add: hit_in_bounds_def r bs_def)
qed

lemma map2_shaped:
  assumes "shaped gids n computed" and "length bs = length gids"
  shows "shaped gids n (map2 (\<lambda>c b. c[i := b]) computed bs)"
  using assms by (auto simp: shaped_def set_zip)

lemma window_loop_shape:
  "window_loop p gids hl bs align e need i computed k = Inr (computed', k', found) \<Longrightarrow>
   shaped gids n computed \<Longrightarrow> \<exists>n' \<le> n. shaped gids n' computed'"
proof (induction i arbitrary: computed k)
  case 0
  then show ?case by auto
next
  case (Suc i)
  obtain h r where r: "cached_hit p gids h = Inr r"
    "(case r of None \<Rightarrow> window_loop p gids hl bs align e need i computed 0
      | Some cached \<Rightarrow> bind_res (if k = 0 \<and> bs \<noteq> align
                     then bind_res (py_mod ((if e then int i else int i + 1) * bs)
                            align) (\<lambda>m. Inr (m \<noteq> 0))
                     else Inr False) (\<lambda>unaligned.
             if unaligned then window_loop p gids hl bs align e need i computed k
             else
               (let computed' = map2 (\<lambda>c b. c[i := b]) computed cached; k' = k + 1
                in if k' \<ge> need then Inr (map (take (i + nat k')) computed', k', True)
                   else window_loop p gids hl bs align e need i computed' k'))) = Inr (computed', k', found)"
    using Suc.prems(1) by (auto simp: bind_res_eq_Inr)
  show ?case
  proof (cases r)
    case None
    then show ?thesis using r(2) Suc by simp
  next
    case (Some cached)
    define c1 where "c1 = map2 (\<lambda>c b. c[i := b]) computed cached"
    have sh: "shaped gids n c1"
      unfolding c1_def using map2_shaped [OF Suc.prems(2)] cached_hit_length r(1) Some by blast
    consider "window_loop p gids hl bs align e need i computed k = Inr (computed', k', found)"
      | "computed' = map (take (i + nat (k + 1))) c1"
      | "window_loop p gids hl bs align e need i c1 (k + 1) = Inr (computed', k', found)"
      using r(2) Some by (auto simp: Let_def c1_def bind_res_eq_Inr split: if_splits)
    then show ?thesis
    proof cases
      case 1
      then show ?thesis using Suc by blast
    next
      case 2
      then show ?thesis using shaped_take [OF sh, of "i + nat (k + 1)"] min.cobounded1 by blast
    next
      case 3
      then show ?thesis using Suc.IH sh by blast
    qed
  qed
qed

lemma pop_until_aligned_shape:
  assumes "pop_until_aligned bs align computed = Inr computed'" and "shaped gids n computed" and "0 < align"
  shows "\<exists>n' \<le> n. shaped gids n' computed'"
proof -
  have "computed \<noteq> []" using assms(1) by (auto simp: pop_until_aligned.simps)
  then have "computed' = map (take (floor_aligned bs align n)) computed"
    using pop_until_aligned_eq [of align computed n bs] assms by (auto simp: shaped_def)
  then show ?thesis using shaped_take [OF assms(2)] min.cobounded1 by blast
qed

lemma pop_for_eagle_shape:
  assumes "pop_for_eagle e bs align computed = Inr computed'" and "shaped gids n computed" and "0 < align"
  shows "\<exists>n' \<le> n. shaped gids n' computed'"
proof (cases "computed = []")
  case True
  then show ?thesis using assms(1,2) by (auto simp: pop_for_eagle_def split: if_splits)
next
  case False
  then have "computed' = map (take (if e \<and> 0 < n then floor_aligned bs align (n - 1) else n)) computed"
    using pop_for_eagle_eq [of align computed n e bs] assms by (auto simp: shaped_def)
  then show ?thesis using shaped_take [OF assms(2)] min.cobounded1 by blast
qed

lemma sliding_window_hit_bounds:
  assumes run: "sliding_window_hit cdiv p hs max_length gids spec e align dcp pcp = Inr r"
    and cd: "cdiv_law cdiv" and pos: "0 < sp_block_size spec" "0 < align" "0 \<le> max_length"
  shows "hit_in_bounds cdiv (sp_block_size spec) gids max_length r"
proof -
  define bs where "bs = sp_block_size spec"
  define m where "m = nat (max_length div bs)"
  obtain hl need computed k found c1 c2 n where s:
    "window_loop p gids hl bs align e need m (replicate (length gids) (replicate m (null_block p))) 0
      = Inr (computed, k, found)"
    "(if found then Inr computed else pop_until_aligned bs align (map (take (nat k)) computed)) = Inr c1"
    "pop_for_eagle e bs align c1 = Inr c2" "first_len c2 = Inr n" "r = (c2, n * bs)"
    using run unfolding sliding_window_hit_def Let_def bs_def [symmetric] m_def [symmetric]
    by (auto simp: bind_res_eq_Inr split: if_splits)
  have "shaped gids m (replicate (length gids) (replicate m (null_block p)))"
    by (simp add: shaped_def)
  from window_loop_shape [OF s(1) this] obtain n1 where n1: "n1 \<le> m" "shaped gids n1 computed" by blast
  have "\<exists>n2 \<le> n1. shaped gids n2 c1"
  proof (cases found)
    case True
    then show ?thesis using s(2) n1 by auto
  next
    case False
    then have "pop_until_aligned bs align (map (take (nat k)) computed) = Inr c1" using s(2) by simp
    from pop_until_aligned_shape [OF this shaped_take [OF n1(2)] pos(2)] show ?thesis by auto
  qed
  then obtain n3 where n3: "n3 \<le> m" "shaped gids n3 c2"
    using pop_for_eagle_shape [OF s(3) _ pos(2)] n1 by (meson order_trans)
  have n: "n = int n3" using shaped_first_len [OF n3(2) s(4)] .
  have b: "0 < bs" using pos(1) by (simp add: bs_def)
  have "int n3 \<le> max_length div bs" using n3(1) pos(3) b
    by (simp add: m_def pos_imp_zdiv_nonneg_iff nat_le_iff le_nat_iff)
  then have "n * bs \<le> max_length" using le_div_int_iff [OF b] n by simp
  then show ?thesis
    using n3(2) cdiv_multiple [OF cd b, of n] n b by (simp add: hit_in_bounds_def s(5) bs_def [symmetric])
qed

lemma chunk_loop_shape:
  "chunk_loop p gids hl js computed = Inr computed' \<Longrightarrow> shaped gids n computed \<Longrightarrow>
   \<exists>n'. n' \<le> n + length js \<and> shaped gids n' computed'"
proof (induction js arbitrary: computed n)
  case Nil
  then show ?case by auto
next
  case (Cons i js)
  obtain h r where r: "cached_hit p gids h = Inr r"
    "(case r of None \<Rightarrow> Inr computed | Some bs \<Rightarrow> chunk_loop p gids hl js (append_hit computed bs))
      = Inr computed'"
    using Cons.prems(1) by (auto simp: res_simps)
  show ?case
  proof (cases r)
    case None
    then show ?thesis using r(2) Cons.prems(2) by (intro exI [of _ n]) auto
  next
    case (Some bs)
    have "shaped gids (Suc n) (append_hit computed bs)"
      using shaped_append [OF Cons.prems(2)] cached_hit_length r(1) Some by blast
    then show ?thesis using Cons.IH [of "append_hit computed bs" "Suc n"] r(2) Some by auto
  qed
qed

lemma chunked_local_hit_bounds:
  assumes run: "chunked_local_hit p hs max_length gids spec e align dcp pcp = Inr r"
    and cd: "cdiv_law cdiv" and pos: "0 < sp_block_size spec" "0 < sp_attention_chunk_size spec" "0 \<le> max_length"
  shows "hit_in_bounds cdiv (sp_block_size spec) gids max_length r"
proof -
  define bs where "bs = sp_block_size spec"
  define chunk where "chunk = sp_attention_chunk_size spec"
  define start where "start = (if max_length > 0 then max_length div chunk * chunk else 0)"
  have b: "0 < bs" using pos(1) by (simp add: bs_def)
  have c: "0 < chunk" using pos(2) by (simp add: chunk_def)
  obtain hl computed n where s: "chunk_loop p gids hl [start div bs..max_length div bs - 1]
      (replicate (length gids) (replicate (nat (start div bs)) (null_block p))) = Inr computed"
    "first_len computed = Inr n" "r = (computed, n * bs)"
    using run b c unfolding chunked_local_hit_def Let_def bs_def [symmetric] chunk_def [symmetric] start_def
    by (auto simp: bind_res_eq_Inr py_floordiv_def split: if_splits)
  have st: "0 \<le> start" "start \<le> max_length"
    using c pos(3) le_div_int_iff [OF c, of "max_length div chunk" max_length]
    by (auto simp: start_def pos_imp_zdiv_nonneg_iff)
  have "shaped gids (nat (start div bs)) (replicate (length gids) (replicate (nat (start div bs)) (null_block p)))"
    by (simp add: shaped_def)
  from chunk_loop_shape [OF s(1) this] obtain k where k:
    "k \<le> nat (start div bs) + length [start div bs..max_length div bs - 1]" "shaped gids k computed" by blast
  have "start div bs \<le> max_length div bs" "0 \<le> start div bs"
    using st b by (simp_all add: zdiv_mono1 pos_imp_zdiv_nonneg_iff)
  then have "int k \<le> max_length div bs" using k(1) by simp
  moreover have n: "n = int k" using shaped_first_len [OF k(2) s(2)] .
  ultimately have "n * bs \<le> max_length" using le_div_int_iff [OF b] by simp
  then show ?thesis
    using k(2) cdiv_multiple [OF cd b, of n] n b by (simp add: hit_in_bounds_def s(3) bs_def [symmetric])
qed

lemma pad_hit_shape:
  "length bs = length gids \<Longrightarrow> shaped gids (Suc k) (pad_hit p k (replicate (length gids) []) bs)"
  by (auto simp: shaped_def pad_hit_def set_zip)

lemma mamba_fine_loop_shape:
  "mamba_fine_loop p gids hl align scale n = Inr (blocks, l) \<Longrightarrow>
   blocks = replicate (length gids) [] \<and> l = 0
     \<or> (\<exists>i < n. l = (int i + 1) * align \<and> shaped gids (Suc (nat (int i div scale))) blocks)"
proof (induction n)
  case 0
  then show ?case by simp
next
  case (Suc i)
  obtain h r where r: "cached_hit p gids h = Inr r"
    "(case r of None \<Rightarrow> mamba_fine_loop p gids hl align scale i
      | Some cached \<Rightarrow> Inr (pad_hit p (nat (int i div scale)) (replicate (length gids) []) cached,
                (int i + 1) * align)) = Inr (blocks, l)"
    using Suc.prems by (auto simp: bind_res_eq_Inr)
  show ?case
  proof (cases r)
    case None
    then have "mamba_fine_loop p gids hl align scale i = Inr (blocks, l)" using r(2) by simp
    from Suc.IH [OF this] show ?thesis using less_SucI by blast
  next
    case (Some bs)
    then show ?thesis using r pad_hit_shape [OF cached_hit_length, of p gids h bs] by auto
  qed
qed

lemma mamba_loop_shape:
  "mamba_loop p gids hl bs align n = Inr (blocks, l) \<Longrightarrow>
   blocks = replicate (length gids) [] \<and> l = 0
     \<or> (\<exists>i < n. l = (int i + 1) * bs \<and> shaped gids (Suc i) blocks)"
proof (induction n)
  case 0
  then show ?case by simp
next
  case (Suc i)
  obtain h r where r: "cached_hit p gids h = Inr r"
    "(case r of None \<Rightarrow> mamba_loop p gids hl bs align i
      | Some cached \<Rightarrow>
           bind_res (if bs \<noteq> align
                     then bind_res (py_mod ((int i + 1) * bs) align) (\<lambda>m. Inr (m \<noteq> 0))
                     else Inr False) (\<lambda>unaligned.
             if unaligned then mamba_loop p gids hl bs align i
             else Inr (pad_hit p i (replicate (length gids) []) cached,
                       (int i + 1) * bs))) = Inr (blocks, l)"
    using Suc.prems by (auto simp: bind_res_eq_Inr)
  show ?case
  proof (cases r)
    case None
    then have "mamba_loop p gids hl bs align i = Inr (blocks, l)" using r(2) by simp
    from Suc.IH [OF this] show ?thesis using less_SucI by blast
  next
    case (Some cached)
    then consider "mamba_loop p gids hl bs align i = Inr (blocks, l)"
      | "blocks = pad_hit p i (replicate (length gids) []) cached" "l = (int i + 1) * bs"
      using r(2) by (auto simp: bind_res_eq_Inr split: if_splits)
    then show ?thesis
    proof cases
      case 1
      from Suc.IH [OF this] show ?thesis using less_SucI by blast
    next
      case 2
      then show ?thesis using r(1) Some pad_hit_shape [OF cached_hit_length, of p gids h cached i] by auto
    qed
  qed
qed

lemma mamba_hit_bounds:
  assumes run: "mamba_hit p hs max_length gids spec align dcp pcp = Inr r"
    and cd: "cdiv_law cdiv" and pos: "0 < sp_block_size spec" "0 < align" "0 \<le> max_length"
  shows "hit_in_bounds cdiv (sp_block_size spec) gids max_length r"
proof -
  define bs where "bs = sp_block_size spec"
  have b: "0 < bs" using pos(1) by (simp add: bs_def)
  obtain blocks l where r: "r = (blocks, l)" by (cases r)
  have none: ?thesis if "blocks = replicate (length gids) [] \<and> l = 0"
    using that cd b pos(3) by (simp add: hit_in_bounds_def r bs_def [symmetric] shaped_def)
  obtain hl fine where f: "(if align < bs then bind_res (py_mod bs align) (\<lambda>m. Inr (m = 0)) else Inr False) = Inr fine"
    "(if fine then (case hl of ScaledHashes _ _ \<Rightarrow> Inl AssertionError
        | RawHashes raw \<Rightarrow> mamba_fine_loop p gids hl align (bs div align)
            (nat (min (max_length div align) (int (length raw)))))
      else bind_res (py_floordiv max_length bs) (\<lambda>n. mamba_loop p gids hl bs align (nat n))) = Inr (blocks, l)"
    using run unfolding mamba_hit_def Let_def bs_def [symmetric] r
    by (auto simp: bind_res_eq_Inr split: if_splits)
  consider raw where "align < bs" "bs mod align = 0"
      "mamba_fine_loop p gids (RawHashes raw) align (bs div align)
        (nat (min (max_length div align) (int (length raw)))) = Inr (blocks, l)"
    | "mamba_loop p gids hl bs align (nat (max_length div bs)) = Inr (blocks, l)"
  proof (cases fine)
    case True
    then have "align < bs" "bs mod align = 0"
      using f(1) pos(2) by (auto simp: py_mod_def split: if_splits)
    then show ?thesis using f(2) True that(1) by (cases hl) simp_all
  next
    case False
    then show ?thesis using f(2) b that(2) by (simp add: py_floordiv_def)
  qed
  then show ?thesis
  proof cases
    case (1 raw)
    define scale where "scale = bs div align"
    have bs: "bs = scale * align" using 1(2) by (auto simp: scale_def mod_eq_0_iff_dvd)
    have scale: "0 < scale" using 1(1) pos(2) by (simp add: scale_def pos_imp_zdiv_pos_iff)
    from mamba_fine_loop_shape [OF 1(3)] show ?thesis
    proof
      assume "\<exists>i<nat (min (max_length div align) (int (length raw))).
        l = (int i + 1) * align \<and> shaped gids (Suc (nat (int i div (bs div align)))) blocks"
      then obtain i where i': "i < nat (min (max_length div align) (int (length raw)))"
        "l = (int i + 1) * align" "shaped gids (Suc (nat (int i div scale))) blocks"
        unfolding scale_def by blast
      then have i: "int i + 1 \<le> max_length div align" "l = (int i + 1) * align"
        "shaped gids (Suc (nat (int i div scale))) blocks" by simp_all
      have le: "l \<le> max_length" using le_div_int_iff [OF pos(2), of "int i + 1" max_length] i(1,2) by simp
      have q: "int i div scale * scale \<le> int i" "int i < (int i div scale + 1) * scale"
        using le_div_int_iff [OF scale, of "int i div scale" "int i"]
          le_div_int_iff [OF scale, of "int i div scale + 1" "int i"] by simp_all
      have "cdiv l bs = int i div scale + 1"
      proof (rule cdiv_unique [OF cd b])
        show "(int i div scale + 1 - 1) * bs < l"
          using mult_strict_right_mono [of "int i div scale * scale" "int i + 1" align] q(1) pos(2)
          by (simp add: i(2) bs mult.assoc)
        show "l \<le> (int i div scale + 1) * bs"
          using mult_right_mono [of "int i + 1" "(int i div scale + 1) * scale" align] q(2) pos(2)
          by (simp add: i(2) bs mult.assoc)
      qed
      moreover have "0 \<le> int i div scale" using scale by (simp add: pos_imp_zdiv_nonneg_iff)
      ultimately have "nat (cdiv l bs) = Suc (nat (int i div scale))" by simp
      moreover have "0 \<le> l" using i(2) pos(2) by simp
      ultimately show ?thesis using i(3) le by (simp add: hit_in_bounds_def r bs_def)
    qed (rule none)
  next
    case 2
    from mamba_loop_shape [OF this] show ?thesis
    proof
      assume "\<exists>i<nat (max_length div bs). l = (int i + 1) * bs \<and> shaped gids (Suc i) blocks"
      then obtain i where i': "i < nat (max_length div bs)" "l = (int i + 1) * bs" "shaped gids (Suc i) blocks"
        by blast
      then have i: "int i + 1 \<le> max_length div bs" "l = (int i + 1) * bs" "shaped gids (Suc i) blocks"
        by simp_all
      have "cdiv l bs = int i + 1" using cdiv_multiple [OF cd b] i(2) by simp
      moreover have "l \<le> max_length" using le_div_int_iff [OF b, of "int i + 1" max_length] i(1,2) by simp
      ultimately show ?thesis using i(2,3) b
        by (simp add: hit_in_bounds_def r bs_def [symmetric] nat_add_distrib)
    qed (rule none)
  qed
qed

text \<open>Sizes that every specification and every coordinator has\<close>

definition spec_sizes_ok :: "kv_spec \<Rightarrow> bool" where
  "spec_sizes_ok spec \<longleftrightarrow> 0 < sp_block_size spec \<and> 0 < sp_attention_chunk_size spec"

lemma find_longest_cache_hit_bounds:
  assumes run: "class_find_longest_cache_hit cdiv p cls hs max_length gids spec e align dcp pcp = Inr r"
    and cd: "cdiv_law cdiv" and pos: "spec_sizes_ok spec" "0 < align" "0 \<le> max_length"
  shows "hit_in_bounds cdiv (hit_block_size cls spec dcp) gids max_length r"
proof -
  have sp: "0 < sp_block_size spec" "0 < sp_attention_chunk_size spec"
    using pos(1) by (simp_all add: spec_sizes_ok_def)
  show ?thesis
  proof (cases cls)
    case KpoolTailManager
    then show ?thesis
      using run cd sp(1) pos(3)
      by (auto simp: class_find_longest_cache_hit_def hit_in_bounds_def hit_block_size_def kpool_hit_def shaped_def)
  next
    case CrossAttentionManager
    then show ?thesis using run by (simp add: class_find_longest_cache_hit_def split: if_splits)
  next
    case SlidingWindowManager
    then show ?thesis using run sliding_window_hit_bounds [OF _ cd sp(1) pos(2,3)]
      by (simp add: class_find_longest_cache_hit_def hit_block_size_def)
  next
    case ChunkedLocalAttentionManager
    then show ?thesis using run chunked_local_hit_bounds [OF _ cd sp pos(3)]
      by (simp add: class_find_longest_cache_hit_def hit_block_size_def)
  next
    case MambaManager
    then show ?thesis using run mamba_hit_bounds [OF _ cd sp(1) pos(2,3)]
      by (simp add: class_find_longest_cache_hit_def hit_block_size_def)
  qed (use run full_attention_hit_bounds [OF _ cd sp(1) pos(2)] in
      \<open>simp_all add: class_find_longest_cache_hit_def hit_block_size_def\<close>)
qed

section \<open>The groups of a hybrid coordinator\<close>

lemma join_spec_group_specs:
  "join_spec_group spec i cls e gs = Inr gs' \<Longrightarrow>
   map sg_spec gs' = (if spec \<in> sg_spec ` set gs then map sg_spec gs else map sg_spec gs @ [spec])"
  by (induction gs arbitrary: gs') (auto simp: res_simps split: if_splits)

lemma join_spec_group_ids:
  "join_spec_group spec i cls e gs = Inr gs' \<Longrightarrow>
   mset (concat (map sg_group_ids gs')) = add_mset i (mset (concat (map sg_group_ids gs)))"
  by (induction gs arbitrary: gs') (auto simp: res_simps split: if_splits)

lemma join_spec_group_member:
  "join_spec_group spec i cls e gs = Inr gs' \<Longrightarrow> g' \<in> set gs' \<Longrightarrow>
     g' \<in> set gs
     \<or> g' = \<lparr>sg_spec = spec, sg_group_ids = [i], sg_manager_cls = cls, sg_use_eagle = e\<rparr>
     \<or> (\<exists>g \<in> set gs. sg_spec g = spec \<and> sg_manager_cls g = cls
         \<and> g' = g\<lparr>sg_group_ids := sg_group_ids g @ [i], sg_use_eagle := sg_use_eagle g \<or> e\<rparr>)"
proof (induction gs arbitrary: gs')
  case Nil
  then show ?case by auto
next
  case (Cons g gs)
  show ?case
  proof (cases "sg_spec g = spec")
    case True
    then show ?thesis using Cons.prems by (auto split: if_splits)
  next
    case False
    then obtain gs2 where "join_spec_group spec i cls e gs = Inr gs2" "gs' = g # gs2"
      using Cons.prems(1) by (auto simp: res_simps)
    then show ?thesis using Cons.IH [of gs2] Cons.prems(2) by auto
  qed
qed

text \<open>What the groups of a coordinator say of its first KV cache groups\<close>

definition group_describes :: "coordinator \<Rightarrow> spec_group \<Rightarrow> bool" where
  "group_describes c g \<longleftrightarrow> sg_group_ids g \<noteq> []
     \<and> (\<forall>i \<in> set (sg_group_ids g). g_spec (co_groups c ! i) = sg_spec g
         \<and> manager_cls (single_type_managers c ! i) = sg_manager_cls g)
     \<and> sg_use_eagle g = (\<exists>i \<in> set (sg_group_ids g). i \<in> eagle_group_ids c)"

definition groups_partition :: "coordinator \<Rightarrow> nat \<Rightarrow> spec_group list \<Rightarrow> bool" where
  "groups_partition c n gs \<longleftrightarrow> distinct (concat (map sg_group_ids gs))
     \<and> set (concat (map sg_group_ids gs))
         = {i. i < n \<and> participates_in_prefix_caching (g_spec (co_groups c ! i))}
     \<and> distinct (map sg_spec gs) \<and> (\<forall>g \<in> set gs. group_describes c g)"

lemma join_spec_group_partition:
  assumes join: "join_spec_group (g_spec (co_groups c ! n)) n (manager_cls (single_type_managers c ! n))
      (n \<in> eagle_group_ids c) gs = Inr gs'"
    and part: "groups_partition c n gs"
    and "participates_in_prefix_caching (g_spec (co_groups c ! n))"
  shows "groups_partition c (Suc n) gs'"
proof -
  note ids = join_spec_group_ids [OF join]
  have "n \<notin> set (concat (map sg_group_ids gs))" using part by (simp add: groups_partition_def)
  then have "distinct (n # concat (map sg_group_ids gs))" using part by (simp add: groups_partition_def)
  then have d: "distinct (concat (map sg_group_ids gs'))"
    using ids by (metis mset.simps(2) mset_eq_imp_distinct_iff)
  have "set (concat (map sg_group_ids gs')) = insert n (set (concat (map sg_group_ids gs)))"
    using ids by (metis set_mset_add_mset_insert set_mset_mset)
  then have s: "set (concat (map sg_group_ids gs'))
      = {i. i < Suc n \<and> participates_in_prefix_caching (g_spec (co_groups c ! i))}"
    using part assms(3) unfolding groups_partition_def by (auto simp: less_Suc_eq)
  have "distinct (map sg_spec gs')"
    unfolding join_spec_group_specs [OF join] using part by (auto simp: groups_partition_def)
  moreover have "group_describes c g'" if "g' \<in> set gs'" for g'
    using join_spec_group_member [OF join that] part
    by (auto simp: groups_partition_def group_describes_def)
  ultimately show ?thesis using d s unfolding groups_partition_def by blast
qed

lemma split_groups_partition:
  assumes "split_groups c = Inr gs"
  shows "groups_partition c (length (co_groups c)) gs"
proof -
  define step where "step = (\<lambda>(i :: nat, g :: kv_group) gs. if \<not> participates_in_prefix_caching (g_spec g) then Inr gs
       else join_spec_group (g_spec g) i (manager_cls (single_type_managers c ! i))
              (i \<in> eagle_group_ids c) gs)"
  have "groups_partition c (n + length xs) gs'"
    if "fold_res step (enumerate n xs) gs0 = Inr gs'" "groups_partition c n gs0"
      "\<forall>k < length xs. co_groups c ! (n + k) = xs ! k" for n gs0 gs' and xs :: "kv_group list"
    using that
  proof (induction xs arbitrary: n gs0)
    case Nil
    then show ?case by simp
  next
    case (Cons x xs)
    obtain gs1 where s: "step (n, x) gs0 = Inr gs1" "fold_res step (enumerate (Suc n) xs) gs1 = Inr gs'"
      using Cons.prems(1) by (auto simp: res_simps)
    have x: "co_groups c ! n = x" using Cons.prems(3) by (metis add.right_neutral length_greater_0_conv list.distinct(1) nth_Cons_0)
    have "groups_partition c (Suc n) gs1"
    proof (cases "participates_in_prefix_caching (g_spec x)")
      case True
      then have "join_spec_group (g_spec (co_groups c ! n)) n (manager_cls (single_type_managers c ! n))
        (n \<in> eagle_group_ids c) gs0 = Inr gs1" using s(1) x by (simp add: step_def)
      from join_spec_group_partition [OF this Cons.prems(2)] True x show ?thesis by simp
    next
      case False
      then have "gs1 = gs0" using s(1) by (simp add: step_def)
      then show ?thesis using Cons.prems(2) False x
        unfolding groups_partition_def by (auto simp: less_Suc_eq)
    qed
    moreover have "\<forall>k < length xs. co_groups c ! (Suc n + k) = xs ! k"
      using Cons.prems(3) by (metis Suc_less_eq add_Suc_shift length_Cons nth_Cons_Suc)
    ultimately show ?case using Cons.IH [OF s(2)] by simp
  qed
  moreover have "fold_res step (enumerate 0 (co_groups c)) [] = Inr gs"
    using assms by (simp add: split_groups_def step_def)
  moreover have "groups_partition c 0 []" by (simp add: groups_partition_def)
  ultimately show ?thesis by fastforce
qed

lemma set_use_eagle_length [simp]: "length (set_use_eagle e i ms) = length ms"
  by (simp add: set_use_eagle_def)

lemma set_use_eagle_nth:
  "j < length ms \<Longrightarrow> set_use_eagle e i ms ! j = (if i = j then (ms ! j)\<lparr>use_eagle := e\<rparr> else ms ! j)"
  by (auto simp: set_use_eagle_def nth_list_update)

lemma fold_set_use_eagle:
  "length (fold (set_use_eagle True) js ms) = length ms
   \<and> (\<forall>j < length ms. fold (set_use_eagle True) js ms ! j
        = (if j \<in> set js then (ms ! j)\<lparr>use_eagle := True\<rparr> else ms ! j))"
  by (induction js arbitrary: ms) (auto simp: set_use_eagle_nth)

lemma propagate_eagle_nth:
  "length (propagate_eagle gs ms) = length ms
   \<and> (\<forall>j < length ms. propagate_eagle gs ms ! j
        = (if \<exists>g \<in> set gs. sg_use_eagle g \<and> j \<in> set (sg_group_ids g)
           then (ms ! j)\<lparr>use_eagle := True\<rparr> else ms ! j))"
  unfolding propagate_eagle_def
proof (induction gs arbitrary: ms)
  case Nil
  then show ?case by simp
next
  case (Cons g gs)
  let ?ms = "if sg_use_eagle g then fold (set_use_eagle True) (sg_group_ids g) ms else ms"
  have len: "length ?ms = length ms" using fold_set_use_eagle [of "sg_group_ids g" ms] by simp
  have nth: "?ms ! j = (if sg_use_eagle g \<and> j \<in> set (sg_group_ids g) then (ms ! j)\<lparr>use_eagle := True\<rparr> else ms ! j)"
    if "j < length ms" for j
    using fold_set_use_eagle [of "sg_group_ids g" ms] that by simp
  show ?case using Cons.IH [of ?ms] len nth by (simp split: if_split) auto
qed

lemma new_managers_length: "new_managers cdiv cfg caching a = Inr ms \<Longrightarrow> length ms = length (kc_groups cfg)"
  by (auto simp: new_managers_def dest!: map_res_length)

lemma verify_and_split_facts:
  assumes "verify_and_split c = Inr c'"
  obtains gs where "split_groups c = Inr gs" "1 < length gs"
    "c' = c\<lparr>attention_groups := sort_key (\<lambda>g. if is_full_attention (sp_kind (sg_spec g)) then 0 else (1 :: nat)) gs,
        full_attention_group_id := full_attention_group_id c',
        single_type_managers := propagate_eagle (attention_groups c') (single_type_managers c)\<rparr>"
    "full_attention_group_id c' = (let g = hd (attention_groups c') in
       if is_full_attention (sp_kind (sg_spec g)) then Some (hd (sg_group_ids g)) else None)"
proof (cases "split_groups c")
  case (Inr gs)
  then show ?thesis
    using assms that [OF Inr] unfolding verify_and_split_def Let_def by (auto split: if_splits)
qed (use assms in \<open>simp add: verify_and_split_def\<close>)

lemma base_coordinator_facts:
  assumes "base_coordinator cdiv cls cfg caching a = Inr (c, p)"
  shows "new_managers cdiv cfg caching a = Inr (single_type_managers c) \<and> co_groups c = kc_groups cfg
    \<and> co_class c = cls \<and> eagle_group_ids c = eagle_groups cfg (a_use_eagle a)
    \<and> co_scheduler_block_size c = a_scheduler_block_size a \<and> co_hash_block_size c = a_hash_block_size a
    \<and> co_dcp c = a_dcp a"
  using assms by (auto simp: base_coordinator_def Let_def bind_res_eq_Inr split: if_splits)

lemma hybrid_coordinator_facts:
  assumes "hybrid_coordinator cdiv cfg caching exempt a = Inr (c, p)"
  obtains c1 c2 where "base_coordinator cdiv Hybrid cfg caching a = Inr (c1, p)" "verify_and_split c2 = Inr c"
    "c2 = c1\<lparr>eagle_drop_exempt := exempt,
      has_dcp_replicated_group := (\<exists>g \<in> set (kc_groups cfg). sp_dcp_replicated (g_spec g)),
      enable_partial_hash_hits := partial_hits_enabled c1\<rparr>"
proof (cases "base_coordinator cdiv Hybrid cfg caching a")
  case (Inr cp)
  obtain c1 q where cp: "cp = (c1, q)" by (cases cp)
  let ?c2 = "c1\<lparr>eagle_drop_exempt := exempt,
    has_dcp_replicated_group := (\<exists>g \<in> set (kc_groups cfg). sp_dcp_replicated (g_spec g)),
    enable_partial_hash_hits := partial_hits_enabled c1\<rparr>"
  have "bind_res (verify_and_split ?c2) (\<lambda>c2. Inr (c2, q)) = Inr (c, p)"
    using assms unfolding hybrid_coordinator_def Inr cp Let_def
    by (simp add: bind_res_eq_Inr split: if_splits)
  then have "verify_and_split ?c2 = Inr c" "q = p" by (auto simp: bind_res_eq_Inr)
  then show ?thesis using that [of c1 ?c2] Inr cp by simp
qed (use assms in \<open>simp add: hybrid_coordinator_def\<close>)

lemma sort_by_key_order:
  assumes "sorted (map f xs)" and "i \<le> j" and "j < length xs"
  shows "f (xs ! i) \<le> (f (xs ! j) :: nat)"
  using sorted_nth_mono [OF assms(1,2)] assms(2,3) by simp

lemma distinct_concat_same:
  "distinct (concat (map f xs)) \<Longrightarrow> x \<in> set xs \<Longrightarrow> y \<in> set xs \<Longrightarrow> i \<in> set (f x) \<Longrightarrow> i \<in> set (f y) \<Longrightarrow> x = y"
  by (induction xs) auto

lemma new_managers_no_eagle:
  assumes "new_managers cdiv cfg caching a = Inr ms"
  shows "\<forall>m \<in> set ms. \<not> use_eagle m"
  using assms unfolding new_managers_def
  by (rule map_res_all) (auto simp: new_manager_def split: option.splits manager_class.splits)

lemma hybrid_groups_facts:
  assumes "get_kv_cache_coordinator cdiv cfg caching exempt a = Inr (c, p)"
    and "length (kc_groups cfg) \<noteq> 1"
  shows "distinct (concat (map sg_group_ids (attention_groups c)))
    \<and> set (concat (map sg_group_ids (attention_groups c)))
        = {i. i < length (kc_groups cfg) \<and> participates_in_prefix_caching (g_spec (kc_groups cfg ! i))}
    \<and> distinct (map sg_spec (attention_groups c)) \<and> 2 \<le> length (attention_groups c)
    \<and> (\<forall>g \<in> set (attention_groups c). sg_group_ids g \<noteq> []
         \<and> (\<forall>i \<in> set (sg_group_ids g). g_spec (kc_groups cfg ! i) = sg_spec g
              \<and> manager_cls (single_type_managers c ! i) = sg_manager_cls g
              \<and> use_eagle (single_type_managers c ! i) = sg_use_eagle g)
         \<and> sg_use_eagle g = (\<exists>i \<in> set (sg_group_ids g). i \<in> eagle_group_ids c))
    \<and> (\<forall>j < length (attention_groups c). is_full_attention (sp_kind (sg_spec (attention_groups c ! j))) \<longrightarrow>
         (\<forall>i < j. is_full_attention (sp_kind (sg_spec (attention_groups c ! i)))))"
proof -
  have "hybrid_coordinator cdiv cfg caching False a = Inr (c, p)"
    using assms by (simp add: get_kv_cache_coordinator_def split: if_splits)
  then obtain c1 c2 where b: "base_coordinator cdiv Hybrid cfg caching a = Inr (c1, p)" "verify_and_split c2 = Inr c"
    "c2 = c1\<lparr>eagle_drop_exempt := False,
      has_dcp_replicated_group := (\<exists>g \<in> set (kc_groups cfg). sp_dcp_replicated (g_spec g)),
      enable_partial_hash_hits := partial_hits_enabled c1\<rparr>"
    using hybrid_coordinator_facts by blast
  note base = base_coordinator_facts [OF b(1)]
  have c2: "co_groups c2 = kc_groups cfg" "single_type_managers c2 = single_type_managers c1"
    "eagle_group_ids c2 = eagle_group_ids c1" using base by (simp_all add: b(3))
  have len: "length (single_type_managers c2) = length (kc_groups cfg)"
    using new_managers_length base c2(2) by metis
  let ?key = "\<lambda>g. if is_full_attention (sp_kind (sg_spec g)) then 0 else (1 :: nat)"
  obtain gs where gs: "split_groups c2 = Inr gs" "1 < length gs"
    "c = c2\<lparr>attention_groups := sort_key ?key gs,
        full_attention_group_id := full_attention_group_id c,
        single_type_managers := propagate_eagle (attention_groups c) (single_type_managers c2)\<rparr>"
    using verify_and_split_facts [OF b(2)] by metis
  have ag: "attention_groups c = sort_key ?key gs" by (subst gs(3)) simp
  have ms: "single_type_managers c = propagate_eagle (attention_groups c) (single_type_managers c2)"
    by (subst gs(3)) simp
  have eg: "eagle_group_ids c = eagle_group_ids c2" by (subst gs(3)) simp
  have part: "groups_partition c2 (length (kc_groups cfg)) gs"
    using split_groups_partition [OF gs(1)] c2(1) by simp
  have perm: "mset (attention_groups c) = mset gs" by (simp add: ag)
  then have concat_perm: "mset (concat (map sg_group_ids (attention_groups c))) = mset (concat (map sg_group_ids gs))"
    by (simp add: mset_concat sum_mset_sum_list [symmetric])
  have 1: "distinct (concat (map sg_group_ids (attention_groups c)))"
    "distinct (map sg_spec (attention_groups c))"
    using part perm concat_perm unfolding groups_partition_def
    by (metis mset_eq_imp_distinct_iff, metis mset_eq_imp_distinct_iff mset_map)
  have 2: "set (concat (map sg_group_ids (attention_groups c)))
        = {i. i < length (kc_groups cfg) \<and> participates_in_prefix_caching (g_spec (kc_groups cfg ! i))}"
    using part concat_perm c2(1) unfolding groups_partition_def by (metis mset_eq_setD)
  have eagle: "sg_group_ids g \<noteq> [] \<and> (\<forall>i \<in> set (sg_group_ids g). g_spec (kc_groups cfg ! i) = sg_spec g
              \<and> manager_cls (single_type_managers c ! i) = sg_manager_cls g)
         \<and> sg_use_eagle g = (\<exists>i \<in> set (sg_group_ids g). i \<in> eagle_group_ids c)"
    if g: "g \<in> set (attention_groups c)" for g
  proof -
    have "group_describes c2 g" using part g by (simp add: ag groups_partition_def)
    moreover have "i < length (single_type_managers c2)" if "i \<in> set (sg_group_ids g)" for i
      using 2 g that len by auto
    ultimately show ?thesis
      using propagate_eagle_nth [of "attention_groups c" "single_type_managers c2"] c2 ms eg
      unfolding group_describes_def by auto
  qed
  have flag: "use_eagle (single_type_managers c ! i) = sg_use_eagle g"
    if g: "g \<in> set (attention_groups c)" "i \<in> set (sg_group_ids g)" for g i
  proof -
    have i: "i < length (single_type_managers c2)" using 2 g len by auto
    then have "\<not> use_eagle (single_type_managers c2 ! i)"
      using new_managers_no_eagle base c2(2) nth_mem by metis
    moreover have "(\<exists>g' \<in> set (attention_groups c). sg_use_eagle g' \<and> i \<in> set (sg_group_ids g')) \<longleftrightarrow> sg_use_eagle g"
      using distinct_concat_same [OF 1(1) g(1) _ g(2)] g by blast
    ultimately show ?thesis
      using propagate_eagle_nth [of "attention_groups c" "single_type_managers c2"] i ms by simp
  qed
  have sorted: "sorted (map ?key (attention_groups c))" unfolding ag by simp
  have first: "is_full_attention (sp_kind (sg_spec (attention_groups c ! i)))"
    if "j < length (attention_groups c)" "is_full_attention (sp_kind (sg_spec (attention_groups c ! j)))" "i < j" for i j
    using sort_by_key_order [OF sorted, of i j] that by (auto split: if_splits)
  have "2 \<le> length (attention_groups c)" using gs(2) by (simp add: ag)
  then show ?thesis using 1 2 eagle flag first by blast
qed

text \<open>
  C22. The groups of a hybrid coordinator: the KV cache groups that take part in prefix caching
  are partitioned by specification, with at least two parts; every manager of a part has the
  class that the part names and looks ahead for EAGLE just if one group of the part does; and
  the parts of full attention come first.
\<close>

theorem hybrid_groups_correct:
  assumes "get_kv_cache_coordinator cdiv cfg caching exempt a = Inr (c, p)"
    and "length (kc_groups cfg) \<noteq> 1"
  shows "distinct (concat (map sg_group_ids (attention_groups c)))
    \<and> set (concat (map sg_group_ids (attention_groups c)))
        = {i. i < length (kc_groups cfg) \<and> participates_in_prefix_caching (g_spec (kc_groups cfg ! i))}
    \<and> distinct (map sg_spec (attention_groups c)) \<and> 2 \<le> length (attention_groups c)
    \<and> (\<forall>g \<in> set (attention_groups c). sg_group_ids g \<noteq> []
         \<and> (\<forall>i \<in> set (sg_group_ids g). g_spec (kc_groups cfg ! i) = sg_spec g
              \<and> manager_cls (single_type_managers c ! i) = sg_manager_cls g
              \<and> use_eagle (single_type_managers c ! i) = sg_use_eagle g)
         \<and> sg_use_eagle g = (\<exists>i \<in> set (sg_group_ids g). i \<in> eagle_group_ids c))
    \<and> (\<forall>j < length (attention_groups c). is_full_attention (sp_kind (sg_spec (attention_groups c ! j))) \<longrightarrow>
         (\<forall>i < j. is_full_attention (sp_kind (sg_spec (attention_groups c ! i)))))"
  using hybrid_groups_facts [OF assms] by blast

lemma sample_config_participates:
  "{i. i < length (kc_groups sample_config)
     \<and> participates_in_prefix_caching (g_spec (kc_groups sample_config ! i))} = {0, 1}"
  by (auto simp: sample_config_def sample_spec_def participates_in_prefix_caching_def less_Suc_eq)

theorem hybrid_groups_correct_witness:
  "set (concat (map sg_group_ids (attention_groups sample_coordinator))) = {0, 1}
   \<and> 2 \<le> length (attention_groups sample_coordinator)"
  using hybrid_groups_correct [OF sample_coordinator_run] sample_config_participates
  by (simp add: sample_config_def)

section \<open>The loop ends\<close>

definition co_sizes_ok :: "coordinator \<Rightarrow> bool" where
  "co_sizes_ok c \<longleftrightarrow> 0 < co_scheduler_block_size c \<and> 0 < co_hash_block_size c
     \<and> (\<forall>m \<in> set (single_type_managers c). 0 < block_size m)
     \<and> length (single_type_managers c) = length (co_groups c)
     \<and> (\<forall>g \<in> set (attention_groups c). spec_sizes_ok (sg_spec g) \<and> sg_group_ids g \<noteq> []
          \<and> (\<forall>i \<in> set (sg_group_ids g). i < length (co_groups c)))"

lemma cache_hit_alignment_pos: "co_sizes_ok c \<Longrightarrow> 0 < cache_hit_alignment c"
  by (simp add: co_sizes_ok_def cache_hit_alignment_def)

text \<open>Every length of the loop is between zero and the maximum.\<close>

definition lookup_ok :: "coordinator \<Rightarrow> int \<Rightarrow> lookup \<Rightarrow> bool" where
  "lookup_ok c max_length s \<longleftrightarrow> 0 \<le> lk_curr s \<and> lk_curr s \<le> max_length
     \<and> length (lk_blocks s) = length (co_groups c) \<and> length (lk_lengths s) = length (co_groups c)
     \<and> (\<forall>n \<in> set (lk_lengths s). 0 \<le> n \<and> n \<le> max_length)"

lemma store_hit_step:
  "store_hit (i # gids) (b # blocks) n s
     = store_hit gids blocks n (s\<lparr>lk_blocks := (lk_blocks s)[i := Some b], lk_lengths := (lk_lengths s)[i := n]\<rparr>)"
  "store_hit [] blocks n s = s" "store_hit gids [] n s = s"
  by (simp_all add: store_hit_def)

lemma store_hit_keeps:
  "lk_curr (store_hit gids blocks n s) = lk_curr s \<and> lk_longest (store_hit gids blocks n s) = lk_longest s
   \<and> lk_verified (store_hit gids blocks n s) = lk_verified s
   \<and> length (lk_blocks (store_hit gids blocks n s)) = length (lk_blocks s)
   \<and> length (lk_lengths (store_hit gids blocks n s)) = length (lk_lengths s)"
proof (induction gids arbitrary: blocks s)
  case Nil
  then show ?case by (simp add: store_hit_step)
next
  case (Cons i gids)
  then show ?case by (cases blocks) (simp_all add: store_hit_step)
qed

lemma store_hit_simps [simp]:
  "lk_curr (store_hit gids blocks n s) = lk_curr s" "lk_longest (store_hit gids blocks n s) = lk_longest s"
  "lk_verified (store_hit gids blocks n s) = lk_verified s"
  "length (lk_blocks (store_hit gids blocks n s)) = length (lk_blocks s)"
  "length (lk_lengths (store_hit gids blocks n s)) = length (lk_lengths s)"
  using store_hit_keeps by simp_all

lemma store_hit_lengths: "set (lk_lengths (store_hit gids blocks n s)) \<subseteq> insert n (set (lk_lengths s))"
proof (induction gids arbitrary: blocks s)
  case Nil
  then show ?case by (auto simp: store_hit_step)
next
  case (Cons i gids)
  then show ?case
  proof (cases blocks)
    case (Cons b bs)
    let ?s = "s\<lparr>lk_blocks := (lk_blocks s)[i := Some b], lk_lengths := (lk_lengths s)[i := n]\<rparr>"
    have "set (lk_lengths ?s) \<subseteq> insert n (set (lk_lengths s))" using set_update_subset_insert by simp
    then show ?thesis using Cons.IH [of bs ?s] Cons by (auto simp: store_hit_step)
  qed (auto simp: store_hit_step)
qed

lemma lookup_bound_range:
  assumes "co_sizes_ok c" and "g \<in> set (attention_groups c)" and "0 \<le> n" "n \<le> max_length"
  shows "0 \<le> lookup_bound c max_length g e n \<and> lookup_bound c max_length g e n \<le> max_length"
proof -
  have "hd (sg_group_ids g) \<in> set (sg_group_ids g)" using assms(1,2) by (simp add: co_sizes_ok_def)
  then have "hd (sg_group_ids g) < length (single_type_managers c)"
    using assms(1,2) by (simp add: co_sizes_ok_def)
  then have "0 < block_size (single_type_managers c ! hd (sg_group_ids g))"
    using assms(1) by (simp add: co_sizes_ok_def)
  moreover have "0 < co_hash_block_size c" using assms(1) by (simp add: co_sizes_ok_def)
  ultimately show ?thesis using assms(3,4) by (auto simp: lookup_bound_def Let_def)
qed

lemma hybrid_group_ok:
  assumes run: "hybrid_group cdiv c p hs max_length ig s = Inr t" and g: "snd ig \<in> set (attention_groups c)"
    and ok: "co_sizes_ok c" "lookup_ok c max_length s" and cd: "cdiv_law cdiv"
  shows "lookup_ok c max_length t"
proof -
  obtain idx g where ig: "ig = (idx, g)" by (cases ig)
  have gm: "g \<in> set (attention_groups c)" using g by (simp add: ig)
  have first: "hd (sg_group_ids g) < length (lk_lengths s)"
    using ok gm by (auto simp: co_sizes_ok_def lookup_ok_def)
  show ?thesis
  proof (cases "is_full_attention (sp_kind (sg_spec g)) \<and> lk_blocks s ! hd (sg_group_ids g) \<noteq> None")
    case True
    then have "t = s\<lparr>lk_curr := min (lk_curr s) (lk_lengths s ! hd (sg_group_ids g))\<rparr>"
      using run by (simp add: hybrid_group_def ig Let_def)
    then show ?thesis using ok(2) nth_mem [OF first] by (auto simp: lookup_ok_def)
  next
    case False
    let ?e = "drops_eagle c idx g s"
    obtain blocks n where f: "class_find_longest_cache_hit cdiv p (sg_manager_cls g) hs
        (lookup_bound c max_length g ?e (lk_curr s)) (map int (sg_group_ids g)) (sg_spec g)
        ?e (cache_hit_alignment c) (if is_full_attention (sp_kind (sg_spec g)) then co_dcp c else 1) 1
        = Inr (blocks, n)"
      "t = (let s1 = (if ?e then s\<lparr>lk_verified := insert idx (lk_verified s)\<rparr>
                          else if n < lk_curr s then s\<lparr>lk_verified := {}\<rparr> else s);
                    s2 = store_hit (sg_group_ids g) blocks n (s1\<lparr>lk_curr := n\<rparr>)
                in s2\<lparr>lk_longest := max (lk_longest s2) n\<rparr>)"
      using run False unfolding hybrid_group_def ig Let_def by (auto simp: bind_res_eq_Inr)
    have b: "0 \<le> lookup_bound c max_length g ?e (lk_curr s) \<and> lookup_bound c max_length g ?e (lk_curr s) \<le> max_length"
      using lookup_bound_range [OF ok(1) gm] ok(2) by (simp add: lookup_ok_def)
    have "spec_sizes_ok (sg_spec g)" using ok(1) gm by (simp add: co_sizes_ok_def)
    from find_longest_cache_hit_bounds [OF f(1) cd this cache_hit_alignment_pos [OF ok(1)]] b
    have n: "0 \<le> n" "n \<le> max_length" by (auto simp: hit_in_bounds_def)
    define s1 where "s1 = (if ?e then s\<lparr>lk_verified := insert idx (lk_verified s)\<rparr>
      else if n < lk_curr s then s\<lparr>lk_verified := {}\<rparr> else s)"
    have s1: "lk_lengths s1 = lk_lengths s" "lk_blocks s1 = lk_blocks s" by (simp_all add: s1_def)
    have t: "t = (store_hit (sg_group_ids g) blocks n (s1\<lparr>lk_curr := n\<rparr>))
        \<lparr>lk_longest := max (lk_longest (store_hit (sg_group_ids g) blocks n (s1\<lparr>lk_curr := n\<rparr>))) n\<rparr>"
      using f(2) by (simp add: Let_def s1_def)
    have "set (lk_lengths t) \<subseteq> insert n (set (lk_lengths s))"
      using store_hit_lengths [of "sg_group_ids g" blocks n "s1\<lparr>lk_curr := n\<rparr>"] by (simp add: t s1)
    then have "\<forall>k \<in> set (lk_lengths t). 0 \<le> k \<and> k \<le> max_length" using ok(2) n by (auto simp: lookup_ok_def)
    then show ?thesis using ok(2) n unfolding lookup_ok_def by (simp add: t s1)
  qed
qed

lemma hybrid_pass_ok:
  assumes "fold_res (hybrid_group cdiv c p hs max_length) igs s = Inr t"
    and "\<forall>ig \<in> set igs. snd ig \<in> set (attention_groups c)"
    and "co_sizes_ok c" and "lookup_ok c max_length s" and "cdiv_law cdiv"
  shows "lookup_ok c max_length t"
  using assms(1,4)
  by (rule fold_res_invariant) (use assms(2,3,5) hybrid_group_ok in blast)

lemma enumerated_groups: "\<forall>ig \<in> set (enumerate 0 xs). snd ig \<in> set xs"
  by (auto simp: in_set_enumerate_eq)

lemma hybrid_loop_ends:
  assumes "co_sizes_ok c" and "cdiv_law cdiv"
    and "lookup_ok c max_length s" and "0 \<le> hit_length" "hit_length \<le> max_length"
  shows "\<exists>r. hybrid_loop cdiv c p hs max_length hit_length s = Some r"
  using assms(3-5)
proof (induction "nat hit_length" arbitrary: hit_length s rule: less_induct)
  case less
  let ?pass = "fold_res (hybrid_group cdiv c p hs max_length) (enumerate 0 (attention_groups c)) (s\<lparr>lk_curr := hit_length\<rparr>)"
  show ?case
  proof (cases ?pass)
    case (Inl e)
    then show ?thesis by (subst hybrid_loop.simps) simp
  next
    case (Inr t)
    have "lookup_ok c max_length (s\<lparr>lk_curr := hit_length\<rparr>)" using less.prems by (simp add: lookup_ok_def)
    from hybrid_pass_ok [OF Inr enumerated_groups assms(1) this assms(2)]
    have t: "lookup_ok c max_length t" .
    show ?thesis
    proof (cases "lk_curr t \<ge> hit_length \<or> is_simple_hybrid c")
      case True
      then show ?thesis by (subst hybrid_loop.simps) (auto simp: Inr)
    next
      case False
      have "\<exists>r. hybrid_loop cdiv c p hs max_length (lk_curr t) t = Some r"
        using less.hyps [of "lk_curr t" t] False t by (simp add: lookup_ok_def)
      then show ?thesis using False by (subst hybrid_loop.simps) (simp add: Inr)
    qed
  qed
qed

lemma verify_and_split_same:
  assumes "verify_and_split c = Inr c'"
  shows "co_groups c' = co_groups c \<and> co_class c' = co_class c
    \<and> co_scheduler_block_size c' = co_scheduler_block_size c \<and> co_hash_block_size c' = co_hash_block_size c
    \<and> single_type_managers c' = propagate_eagle (attention_groups c') (single_type_managers c)"
proof (rule verify_and_split_facts [OF assms])
  fix gs
  assume eq: "c' = c\<lparr>attention_groups := sort_key (\<lambda>g. if is_full_attention (sp_kind (sg_spec g)) then 0 else (1 :: nat)) gs,
        full_attention_group_id := full_attention_group_id c',
        single_type_managers := propagate_eagle (attention_groups c') (single_type_managers c)\<rparr>"
  show ?thesis by (intro conjI; subst eq; simp)
qed

lemma new_managers_block_size:
  assumes "new_managers cdiv cfg caching a = Inr ms" and "\<forall>g \<in> set (kc_groups cfg). spec_sizes_ok (g_spec g)"
  shows "\<forall>m \<in> set ms. 0 < block_size m"
  using assms(1) unfolding new_managers_def
proof (rule map_res_all, intro ballI allI impI)
  fix x m
  assume x: "x \<in> set (enumerate 0 (kc_groups cfg))"
    and run: "(case x of (i, g) \<Rightarrow> new_manager cdiv (g_spec g) (a_max_in_flight a) (a_max_model_len a) caching
         (int i) (a_scheduler_block_size a) (a_dcp a) (needs_kv_cache_zeroing cfg)
         (a_align_cap_legacy a)) = Inr m"
  obtain i g where ig: "x = (i, g)" by (cases x)
  then have "0 < sp_block_size (g_spec g)" using x assms(2) by (auto simp: in_set_enumerate_eq spec_sizes_ok_def)
  then show "0 < block_size m"
    using run effective_block_size_pos [of "g_spec g" "a_dcp a"]
    by (auto simp: ig new_manager_def split: option.splits manager_class.splits if_splits)
qed

lemma hybrid_coordinator_sizes:
  assumes get: "get_kv_cache_coordinator cdiv cfg caching exempt a = Inr (c, p)"
    and many: "length (kc_groups cfg) \<noteq> 1"
    and sizes: "\<forall>g \<in> set (kc_groups cfg). spec_sizes_ok (g_spec g)"
    and pos: "0 < a_scheduler_block_size a" "0 < a_hash_block_size a"
  shows "co_sizes_ok c \<and> co_class c = Hybrid"
proof -
  have "hybrid_coordinator cdiv cfg caching False a = Inr (c, p)"
    using get many by (simp add: get_kv_cache_coordinator_def split: if_splits)
  then obtain c1 c2 where b: "base_coordinator cdiv Hybrid cfg caching a = Inr (c1, p)" "verify_and_split c2 = Inr c"
    "c2 = c1\<lparr>eagle_drop_exempt := False,
      has_dcp_replicated_group := (\<exists>g \<in> set (kc_groups cfg). sp_dcp_replicated (g_spec g)),
      enable_partial_hash_hits := partial_hits_enabled c1\<rparr>"
    using hybrid_coordinator_facts by blast
  note base = base_coordinator_facts [OF b(1)]
  note same = verify_and_split_same [OF b(2)]
  define ag where "ag = attention_groups c"
  have co: "co_scheduler_block_size c = a_scheduler_block_size a" "co_hash_block_size c = a_hash_block_size a"
    "co_groups c = kc_groups cfg" "co_class c = Hybrid"
    "single_type_managers c = propagate_eagle ag (single_type_managers c1)"
    using base same by (simp_all add: b(3) ag_def)
  note pe = propagate_eagle_nth [of ag "single_type_managers c1"]
  have len: "length (single_type_managers c) = length (kc_groups cfg)"
    using pe co(5) new_managers_length base by metis
  have bs1: "\<forall>m \<in> set (single_type_managers c1). 0 < block_size m"
    using new_managers_block_size base sizes by blast
  have "0 < block_size (single_type_managers c ! j)" if "j < length (single_type_managers c)" for j
    using pe that bs1 by (simp add: co(5))
  then have bs: "\<forall>m \<in> set (single_type_managers c). 0 < block_size m" by (metis in_set_conv_nth)
  note h = hybrid_groups_facts [OF get many]
  have "spec_sizes_ok (sg_spec g) \<and> sg_group_ids g \<noteq> [] \<and> (\<forall>i \<in> set (sg_group_ids g). i < length (co_groups c))"
    if g: "g \<in> set (attention_groups c)" for g
  proof -
    have ne: "sg_group_ids g \<noteq> []" and spec: "\<forall>i \<in> set (sg_group_ids g). g_spec (kc_groups cfg ! i) = sg_spec g"
      using h g by blast+
    have lt: "\<forall>i \<in> set (sg_group_ids g). i < length (kc_groups cfg)" using h g by auto
    have "spec_sizes_ok (sg_spec g)" using ne spec lt sizes by (metis list.set_sel(1) nth_mem)
    then show ?thesis using ne lt co(3) by simp
  qed
  then show ?thesis using co pos bs len by (simp add: co_sizes_ok_def)
qed

lemma hybrid_loop_range:
  assumes "hybrid_loop cdiv c p hs max_length hit_length s = Some (Inr (n, t))"
    and "co_sizes_ok c" and "cdiv_law cdiv"
    and "lookup_ok c max_length s" and "0 \<le> hit_length" "hit_length \<le> max_length"
  shows "0 \<le> n \<and> n \<le> hit_length \<and> lookup_ok c max_length t"
  using assms(1,4-6)
proof (induction "nat hit_length" arbitrary: hit_length s rule: less_induct)
  case less
  let ?pass = "fold_res (hybrid_group cdiv c p hs max_length) (enumerate 0 (attention_groups c)) (s\<lparr>lk_curr := hit_length\<rparr>)"
  obtain t1 where pass: "?pass = Inr t1"
    using less.prems(1) by (subst (asm) hybrid_loop.simps) (auto split: sum.splits)
  have "lookup_ok c max_length (s\<lparr>lk_curr := hit_length\<rparr>)" using less.prems by (simp add: lookup_ok_def)
  from hybrid_pass_ok [OF pass enumerated_groups assms(2) this assms(3)]
  have t1: "lookup_ok c max_length t1" .
  show ?case
  proof (cases "lk_curr t1 \<ge> hit_length \<or> is_simple_hybrid c")
    case True
    then have "t = t1" "n = hit_length \<or> n = lk_curr t1 \<and> lk_curr t1 < hit_length"
      using less.prems(1) by (subst (asm) hybrid_loop.simps, simp add: pass split: if_splits)+
    then show ?thesis using t1 less.prems(3) by (auto simp: lookup_ok_def)
  next
    case False
    then have "hybrid_loop cdiv c p hs max_length (lk_curr t1) t1 = Some (Inr (n, t))"
      using less.prems(1) by (subst (asm) hybrid_loop.simps) (simp add: pass)
    then show ?thesis using less.hyps [of "lk_curr t1" t1] False t1 by (auto simp: lookup_ok_def)
  qed
qed

section \<open>Later coordinators\<close>

text \<open>The calls on a coordinator change its managers only, and keep their static attributes.\<close>

definition same_coordinator :: "coordinator \<Rightarrow> coordinator \<Rightarrow> bool" where
  "same_coordinator c c' \<longleftrightarrow> with_managers c' [] = with_managers c []
     \<and> map mgr_static (single_type_managers c') = map mgr_static (single_type_managers c)"

lemma same_coordinator_refl [simp]: "same_coordinator c c"
  by (simp add: same_coordinator_def)

lemma same_coordinator_trans: "same_coordinator a b \<Longrightarrow> same_coordinator b c \<Longrightarrow> same_coordinator a c"
  by (simp add: same_coordinator_def)

lemma same_coordinator_with:
  "map mgr_static ms = map mgr_static (single_type_managers c) \<Longrightarrow> same_coordinator c (with_managers c ms)"
  by (simp add: same_coordinator_def with_managers_def)

lemma each_manager_static:
  assumes "each_manager f i ms p = Inr (rs, ms', p')"
    and "\<And>j m p r m' p'. f j m p = Inr (r, m', p') \<Longrightarrow> mgr_static m' = mgr_static m"
  shows "map mgr_static ms' = map mgr_static ms"
  using assms(1)
  by (induction ms arbitrary: i p rs ms') (auto simp: res_simps dest: assms(2))

lemma cache_each_static:
  "cache_each cdiv env n ret q ms p = Inr (q', ms', p') \<Longrightarrow> map mgr_static ms' = map mgr_static ms"
  by (induction ms arbitrary: q p ms') (auto simp: res_simps dest: cache_static)

lemma count_blocks_static:
  "count_blocks cdiv p r n nc nenc tot nl ntm cap i ms = Inr (k, ms') \<Longrightarrow> map mgr_static ms' = map mgr_static ms"
  by (induction ms arbitrary: i k ms') (auto simp: res_simps dest!: count_static split: if_splits)

lemma allocate_new_computed_static:
  assumes "allocate_new_computed_blocks cdiv env r nc nl ne c p = Inr (c', p')"
  shows "same_coordinator c c'"
proof (cases "\<exists>m \<in> set (single_type_managers c). map_of (num_cached_block m) r \<noteq> None")
  case True
  then have "c' = c" using assms by (auto simp: allocate_new_computed_blocks_def split: if_splits)
  then show ?thesis by simp
next
  case False
  let ?f = "\<lambda>i m p. no_result (bind_res (py_index nc (int i)) (\<lambda>bs. add_local_computed_blocks r bs nl ne m p))"
  let ?g = "\<lambda>_ m p. no_result (allocate_external_computed_blocks cdiv env r nl ne m p)"
  obtain rs1 ms1 p1 rs2 ms2 where s: "each_manager ?f 0 (single_type_managers c) p = Inr (rs1, ms1, p1)"
    "(if ne > 0 then each_manager ?g 0 ms1 p1 else Inr ([], ms1, p1)) = Inr (rs2, ms2, p')"
    "c' = with_managers c ms2"
    using assms False by (auto simp: allocate_new_computed_blocks_def bind_res_eq_Inr)
  have 1: "map mgr_static ms1 = map mgr_static (single_type_managers c)"
    by (rule each_manager_static [OF s(1)]) (auto simp: bind_res_eq_Inr dest: add_local_static)
  have "map mgr_static ms2 = map mgr_static ms1"
  proof (cases "ne > 0")
    case True
    then have "each_manager ?g 0 ms1 p1 = Inr (rs2, ms2, p')" using s(2) by simp
    then show ?thesis by (rule each_manager_static) (auto dest: external_static)
  qed (use s(2) in simp)
  then show ?thesis using 1 s(3) same_coordinator_with by simp
qed

lemma co_step_static:
  assumes "co_step cdiv env (outs, c, p) (outs', c', p')"
  shows "same_coordinator c c'"
  using assms
proof (elim co_stepE, goal_cases)
  case 1
  then show ?case by (auto simp: co_get_num_blocks_to_allocate_def res_simps intro!: same_coordinator_with dest: count_blocks_static)
next
  case 2
  then show ?case by (blast intro: allocate_new_computed_static)
next
  case 3
  then show ?case
    by (auto simp: co_allocate_new_blocks_def res_simps intro!: same_coordinator_with
        elim!: each_manager_static dest: allocate_static)
next
  case 4
  then show ?case by (auto simp: co_cache_blocks_def res_simps intro!: same_coordinator_with dest: cache_each_static)
next
  case 5
  then show ?case
    by (auto simp: co_free_def res_simps intro!: same_coordinator_with elim!: each_manager_static dest: free_static)
next
  case 6
  then show ?case
    by (auto simp: co_pop_blocks_for_free_def pop_static intro!: same_coordinator_with)
next
  case (7 r ns)
  have "mgr_static (snd (get_num_common_prefix_blocks r m p)) = mgr_static m" for m
    by (rule common_prefix_static [of r m p "fst (get_num_common_prefix_blocks r m p)"]) simp
  then show ?case using 7 by (auto simp: co_get_num_common_prefix_blocks_def intro!: same_coordinator_with split: if_splits)
next
  case 8
  then show ?case
    by (auto simp: co_remove_skipped_blocks_def res_simps intro!: same_coordinator_with
        elim!: each_manager_static dest: remove_static)
next
  case 9
  then show ?case by (auto simp: co_new_step_starts_def static_kept intro!: same_coordinator_with)
next
  case 10
  then show ?case
    by (auto simp: co_take_copies_def take_pending_cow_copies_def static_kept intro!: same_coordinator_with)
qed simp_all

lemma co_steps_static:
  assumes "(co_step cdiv env)\<^sup>*\<^sup>* s s'"
  shows "same_coordinator (fst (snd s)) (fst (snd s'))"
  using assms
proof (induction rule: rtranclp_induct)
  case base
  then show ?case by simp
next
  case (step y z)
  have "co_step cdiv env (fst y, fst (snd y), snd (snd y)) (fst z, fst (snd z), snd (snd z))"
    using step.hyps(2) by simp
  from co_step_static [OF this] step.IH show ?case by (rule same_coordinator_trans [rotated])
qed

lemma co_sizes_ok_same:
  assumes "same_coordinator c c'" and "co_sizes_ok c"
  shows "co_sizes_ok c'"
proof -
  have f: "with_managers c' [] = with_managers c []" and m: "map mgr_static (single_type_managers c')
      = map mgr_static (single_type_managers c)" using assms(1) by (simp_all add: same_coordinator_def)
  have fields: "co_scheduler_block_size c' = co_scheduler_block_size c" "co_hash_block_size c' = co_hash_block_size c"
    "co_groups c' = co_groups c" "attention_groups c' = attention_groups c"
    using f by (cases c; cases c'; simp add: with_managers_def)+
  have len: "length (single_type_managers c') = length (single_type_managers c)" using m by (metis length_map)
  have "map (fst \<circ> mgr_static) (single_type_managers c') = map (fst \<circ> mgr_static) (single_type_managers c)"
    using m by (metis map_map)
  then have "block_size ` set (single_type_managers c') = block_size ` set (single_type_managers c)"
    by (simp add: mgr_static_def comp_def) (metis list.set_map)
  then have "\<forall>m \<in> set (single_type_managers c'). 0 < block_size m"
    using assms(2) by (metis (no_types, lifting) co_sizes_ok_def imageE imageI)
  then show ?thesis using assms(2) fields len by (simp add: co_sizes_ok_def)
qed

text \<open>
  C23. The prefix-cache lookup over several groups ends: whatever calls the coordinator has
  served, whatever is cached and whatever the EAGLE groups drop, the loop that reconciles the
  groups stops, and when no assertion of a group fails the length it returns is between zero and
  the maximum length.
\<close>

theorem hybrid_lookup_terminates:
  assumes "get_kv_cache_coordinator cdiv cfg caching exempt a = Inr (c, p)"
    and "length (kc_groups cfg) \<noteq> 1" and "\<forall>g \<in> set (kc_groups cfg). spec_sizes_ok (g_spec g)"
    and "0 < a_scheduler_block_size a" and "0 < a_hash_block_size a" and "cdiv_law cdiv"
    and "(co_step cdiv env)\<^sup>*\<^sup>* (\<lambda>_. 0, c, p) (outs, c', p')" and "0 \<le> max_length"
  shows "\<exists>r. co_find_longest_cache_hit cdiv c' p' hs max_length = Some r
    \<and> (\<forall>blocks n gap. r = Inr (blocks, n, gap) \<longrightarrow> 0 \<le> n \<and> n \<le> max_length)"
proof -
  have same: "same_coordinator c c'" using co_steps_static [OF assms(7)] by simp
  have "co_sizes_ok c \<and> co_class c = Hybrid" by (rule hybrid_coordinator_sizes [OF assms(1-5)])
  then have ok: "co_sizes_ok c'" and cls: "co_class c' = Hybrid"
    using co_sizes_ok_same [OF same] same
    by (cases c; cases c'; simp add: same_coordinator_def with_managers_def)+
  define start where "start = \<lparr>lk_curr = max_length, lk_longest = 0,
    lk_blocks = replicate (length (co_groups c')) (None :: nat list option),
    lk_lengths = replicate (length (co_groups c')) 0, lk_verified = {}\<rparr>"
  have st: "lookup_ok c' max_length start"
    using assms(8) by (auto simp: lookup_ok_def start_def)
  obtain r where r: "hybrid_loop cdiv c' p' hs max_length max_length start = Some r"
    using hybrid_loop_ends [OF ok assms(6) st assms(8)] by auto
  have "0 \<le> n \<and> n \<le> max_length" if "r = Inr (n, t)" for n t
    using hybrid_loop_range [OF r [unfolded that] ok assms(6) st assms(8)] by simp
  then show ?thesis
    using r cls unfolding start_def
    by (cases r) (auto simp: co_find_longest_cache_hit_def hybrid_find_def Let_def)
qed

theorem hybrid_lookup_terminates_witness:
  "\<exists>r. co_find_longest_cache_hit sample_cdiv sample_coordinator sample_pool [[7], [8]] 4 = Some r"
proof -
  have "\<forall>g \<in> set (kc_groups sample_config). spec_sizes_ok (g_spec g)" by code_simp
  from hybrid_lookup_terminates [OF sample_coordinator_run _ this _ _ sample_cdiv_law, of sample_env "\<lambda>_. 0" sample_coordinator
    sample_pool 4 "[[7], [8]]"]
  show ?thesis by (auto simp: sample_config_def sample_args_def)
qed

section \<open>What the lookup without EAGLE finds\<close>

text \<open>The answer that the finder of a group gives for a bound\<close>

definition group_answer ::
  "(int \<Rightarrow> int \<Rightarrow> int) \<Rightarrow> coordinator \<Rightarrow> block_pool \<Rightarrow> block_hash list \<Rightarrow> spec_group \<Rightarrow> int
     \<Rightarrow> (nat list list \<times> int) res" where
  "group_answer cdiv c p hs g bound =
     class_find_longest_cache_hit cdiv p (sg_manager_cls g) hs bound (map int (sg_group_ids g)) (sg_spec g)
       False (cache_hit_alignment c) (if is_full_attention (sp_kind (sg_spec g)) then co_dcp c else 1) 1"

definition plain_groups :: "coordinator \<Rightarrow> bool" where
  "plain_groups c \<longleftrightarrow> co_sizes_ok c \<and> distinct (concat (map sg_group_ids (attention_groups c)))
     \<and> (\<forall>g \<in> set (attention_groups c). \<not> sg_use_eagle g)"

text \<open>The variables hold the answer of a group.\<close>

definition stored :: "spec_group \<Rightarrow> nat list list \<Rightarrow> int \<Rightarrow> lookup \<Rightarrow> bool" where
  "stored g blocks k s \<longleftrightarrow> length blocks = length (sg_group_ids g)
     \<and> (\<forall>j < length (sg_group_ids g). lk_blocks s ! (sg_group_ids g ! j) = Some (blocks ! j)
          \<and> lk_lengths s ! (sg_group_ids g ! j) = k)"

definition answered ::
  "(int \<Rightarrow> int \<Rightarrow> int) \<Rightarrow> coordinator \<Rightarrow> block_pool \<Rightarrow> block_hash list \<Rightarrow> int \<Rightarrow> spec_group \<Rightarrow> int \<Rightarrow> lookup
     \<Rightarrow> bool" where
  "answered cdiv c p hs max_length g k s \<longleftrightarrow>
     (\<exists>bound blocks. bound \<le> max_length \<and> group_answer cdiv c p hs g bound = Inr (blocks, k)
        \<and> stored g blocks k s)"

lemma store_hit_nth:
  assumes "distinct gids" and "length blocks = length gids"
    and "\<forall>i \<in> set gids. i < length (lk_blocks s) \<and> i < length (lk_lengths s)"
  shows "(\<forall>j < length gids. lk_blocks (store_hit gids blocks n s) ! (gids ! j) = Some (blocks ! j)
        \<and> lk_lengths (store_hit gids blocks n s) ! (gids ! j) = n)
    \<and> (\<forall>i. i \<notin> set gids \<longrightarrow> lk_blocks (store_hit gids blocks n s) ! i = lk_blocks s ! i
        \<and> lk_lengths (store_hit gids blocks n s) ! i = lk_lengths s ! i)"
  using assms
proof (induction gids arbitrary: blocks s)
  case Nil
  then show ?case by (simp add: store_hit_step)
next
  case (Cons i gids)
  obtain b bs where b: "blocks = b # bs" using Cons.prems(2) by (cases blocks) auto
  define s1 where "s1 = s\<lparr>lk_blocks := (lk_blocks s)[i := Some b], lk_lengths := (lk_lengths s)[i := n]\<rparr>"
  have IH: "(\<forall>j < length gids. lk_blocks (store_hit gids bs n s1) ! (gids ! j) = Some (bs ! j)
        \<and> lk_lengths (store_hit gids bs n s1) ! (gids ! j) = n)
    \<and> (\<forall>i. i \<notin> set gids \<longrightarrow> lk_blocks (store_hit gids bs n s1) ! i = lk_blocks s1 ! i
        \<and> lk_lengths (store_hit gids bs n s1) ! i = lk_lengths s1 ! i)"
    using Cons.prems b by (intro Cons.IH) (auto simp: s1_def)
  have "lk_blocks s1 ! i = Some b" "lk_lengths s1 ! i = n" using Cons.prems(3) by (simp_all add: s1_def)
  moreover have "lk_blocks s1 ! k = lk_blocks s ! k" "lk_lengths s1 ! k = lk_lengths s ! k" if "k \<noteq> i" for k
    using that by (simp_all add: s1_def)
  moreover have "store_hit (i # gids) blocks n s = store_hit gids bs n s1"
    by (simp add: b store_hit_step s1_def)
  ultimately show ?case using IH Cons.prems(1) b by (auto simp: nth_Cons split: nat.split)
qed

text \<open>One group of the loop: its blocks are known already, or the finder is asked.\<close>

lemma hybrid_group_plain:
  assumes run: "hybrid_group cdiv c p hs max_length (idx, g) s = Inr t" and "\<not> sg_use_eagle g"
  shows "(is_full_attention (sp_kind (sg_spec g)) \<and> lk_blocks s ! hd (sg_group_ids g) \<noteq> None
      \<and> t = s\<lparr>lk_curr := min (lk_curr s) (lk_lengths s ! hd (sg_group_ids g))\<rparr>)
    \<or> (\<exists>blocks. group_answer cdiv c p hs g (lk_curr s) = Inr (blocks, lk_curr t)
        \<and> \<not> (is_full_attention (sp_kind (sg_spec g)) \<and> lk_blocks s ! hd (sg_group_ids g) \<noteq> None)
        \<and> lk_blocks t = lk_blocks (store_hit (sg_group_ids g) blocks (lk_curr t) s)
        \<and> lk_lengths t = lk_lengths (store_hit (sg_group_ids g) blocks (lk_curr t) s))"
proof (cases "is_full_attention (sp_kind (sg_spec g)) \<and> lk_blocks s ! hd (sg_group_ids g) \<noteq> None")
  case True
  then show ?thesis using run by (simp add: hybrid_group_def Let_def)
next
  case False
  have e: "\<not> drops_eagle c idx g s" using assms(2) by (simp add: drops_eagle_def)
  have cong: "lk_blocks (store_hit gids bl n s1) = lk_blocks (store_hit gids bl n s)
      \<and> lk_lengths (store_hit gids bl n s1) = lk_lengths (store_hit gids bl n s)"
    if "lk_blocks s1 = lk_blocks s" "lk_lengths s1 = lk_lengths s" for gids bl n and s1 s :: lookup
    using that
  proof (induction gids arbitrary: bl s1 s)
    case Nil
    then show ?case by (simp add: store_hit_step)
  next
    case (Cons i gids)
    then show ?case by (cases bl) (simp_all add: store_hit_step)
  qed
  obtain blocks n where f: "group_answer cdiv c p hs g (lk_curr s) = Inr (blocks, n)"
    "t = (let s1 = (if n < lk_curr s then s\<lparr>lk_verified := {}\<rparr> else s);
              s2 = store_hit (sg_group_ids g) blocks n (s1\<lparr>lk_curr := n\<rparr>)
          in s2\<lparr>lk_longest := max (lk_longest s2) n\<rparr>)"
    using run False e unfolding hybrid_group_def Let_def group_answer_def
    by (auto simp: bind_res_eq_Inr lookup_bound_def)
  have "lk_curr t = n"
    "lk_blocks t = lk_blocks (store_hit (sg_group_ids g) blocks n s)"
    "lk_lengths t = lk_lengths (store_hit (sg_group_ids g) blocks n s)"
    using cong [of "(if n < lk_curr s then s\<lparr>lk_verified := {}\<rparr> else s)\<lparr>lk_curr := n\<rparr>" s "sg_group_ids g" blocks n]
    by (simp_all add: f(2) Let_def)
  then show ?thesis using f(1) False by blast
qed

abbreviation full_group :: "spec_group \<Rightarrow> bool" where
  "full_group g \<equiv> is_full_attention (sp_kind (sg_spec g))"

text \<open>Where the loop stands once the groups \<open>pre\<close> have been asked in a round that began at \<open>h\<close>\<close>

definition settled ::
  "(int \<Rightarrow> int \<Rightarrow> int) \<Rightarrow> coordinator \<Rightarrow> block_pool \<Rightarrow> block_hash list \<Rightarrow> int \<Rightarrow> int \<Rightarrow> spec_group list
     \<Rightarrow> lookup \<Rightarrow> bool" where
  "settled cdiv c p hs max_length h pre s \<longleftrightarrow> lookup_ok c max_length s \<and> lk_curr s \<le> h
     \<and> (\<forall>g \<in> set pre. \<exists>k. answered cdiv c p hs max_length g k s \<and> lk_curr s \<le> k \<and> (\<not> full_group g \<longrightarrow> k \<le> h))
     \<and> (\<forall>g \<in> set (attention_groups c). full_group g \<and> lk_blocks s ! hd (sg_group_ids g) \<noteq> None \<longrightarrow>
          (\<exists>k. answered cdiv c p hs max_length g k s))"

lemma answered_cong:
  assumes "answered cdiv c p hs max_length g k s"
    and "\<forall>i \<in> set (sg_group_ids g). lk_blocks t ! i = lk_blocks s ! i \<and> lk_lengths t ! i = lk_lengths s ! i"
  shows "answered cdiv c p hs max_length g k t"
  using assms by (auto simp: answered_def stored_def)

lemma answered_length:
  assumes "answered cdiv c p hs max_length g k s" and "sg_group_ids g \<noteq> []"
  shows "lk_lengths s ! hd (sg_group_ids g) = k"
  using assms by (auto simp: answered_def stored_def hd_conv_nth)

lemma hybrid_group_settled:
  assumes run: "hybrid_group cdiv c p hs max_length (idx, g) s = Inr t" and g: "g \<in> set (attention_groups c)"
    and pl: "plain_groups c" and cd: "cdiv_law cdiv" and st: "settled cdiv c p hs max_length h pre s"
    and pre: "set pre \<subseteq> set (attention_groups c)"
  shows "settled cdiv c p hs max_length h (pre @ [g]) t
    \<and> (\<not> full_group g \<longrightarrow> answered cdiv c p hs max_length g (lk_curr t) t)"
proof -
  have ok: "co_sizes_ok c" and ne: "sg_group_ids g \<noteq> []" and no_eagle: "\<not> sg_use_eagle g"
    using pl g by (auto simp: plain_groups_def co_sizes_ok_def)
  have ls: "lookup_ok c max_length s" and curr: "lk_curr s \<le> h" using st by (simp_all add: settled_def)
  have lt: "lookup_ok c max_length t" using hybrid_group_ok [OF run _ ok ls cd] g by simp
  from hybrid_group_plain [OF run no_eagle] show ?thesis
  proof
    assume a: "full_group g \<and> lk_blocks s ! hd (sg_group_ids g) \<noteq> None
      \<and> t = s\<lparr>lk_curr := min (lk_curr s) (lk_lengths s ! hd (sg_group_ids g))\<rparr>"
    then obtain k where k: "answered cdiv c p hs max_length g k s" using st g by (auto simp: settled_def)
    have full: "full_group g" using a by blast
    have t: "t = s\<lparr>lk_curr := min (lk_curr s) k\<rparr>" using a answered_length [OF k ne] by simp
    then have curr_t: "lk_curr t = min (lk_curr s) k" by simp
    have same: "answered cdiv c p hs max_length g' k' t" if "answered cdiv c p hs max_length g' k' s" for g' k'
      by (rule answered_cong [OF that]) (simp add: t)
    have "\<exists>k. answered cdiv c p hs max_length g' k t \<and> lk_curr t \<le> k \<and> (\<not> full_group g' \<longrightarrow> k \<le> h)"
      if "g' \<in> set (pre @ [g])" for g'
    proof (cases "g' = g")
      case True
      then show ?thesis using same [OF k] full curr_t by (intro exI [of _ k]) simp
    next
      case False
      then have "g' \<in> set pre" using that by simp
      then obtain k' where "answered cdiv c p hs max_length g' k' s" "lk_curr s \<le> k'" "\<not> full_group g' \<longrightarrow> k' \<le> h"
        using st unfolding settled_def by blast
      then show ?thesis using same curr_t by (intro exI [of _ k']) simp
    qed
    moreover have "\<exists>k. answered cdiv c p hs max_length g' k t"
      if "g' \<in> set (attention_groups c)" "full_group g'" "lk_blocks t ! hd (sg_group_ids g') \<noteq> None" for g'
      using st that same by (fastforce simp: settled_def t)
    moreover have "lk_curr t \<le> h" using curr t by simp
    ultimately show ?thesis using lt a unfolding settled_def by blast
  next
    assume "\<exists>blocks. group_answer cdiv c p hs g (lk_curr s) = Inr (blocks, lk_curr t)
        \<and> \<not> (full_group g \<and> lk_blocks s ! hd (sg_group_ids g) \<noteq> None)
        \<and> lk_blocks t = lk_blocks (store_hit (sg_group_ids g) blocks (lk_curr t) s)
        \<and> lk_lengths t = lk_lengths (store_hit (sg_group_ids g) blocks (lk_curr t) s)"
    then obtain blocks where b: "group_answer cdiv c p hs g (lk_curr s) = Inr (blocks, lk_curr t)"
      "lk_blocks t = lk_blocks (store_hit (sg_group_ids g) blocks (lk_curr t) s)"
      "lk_lengths t = lk_lengths (store_hit (sg_group_ids g) blocks (lk_curr t) s)" by blast
    have "spec_sizes_ok (sg_spec g)" using ok g by (simp add: co_sizes_ok_def)
    from find_longest_cache_hit_bounds [OF b(1) [unfolded group_answer_def] cd this cache_hit_alignment_pos [OF ok]] ls
    have n: "lk_curr t \<le> lk_curr s" "length blocks = length (sg_group_ids g)"
      by (auto simp: hit_in_bounds_def lookup_ok_def shaped_def)
    have "distinct (sg_group_ids g)"
      using pl g by (auto simp: plain_groups_def distinct_concat_iff)
    moreover have "\<forall>i \<in> set (sg_group_ids g). i < length (lk_blocks s) \<and> i < length (lk_lengths s)"
      using ok g ls by (simp add: co_sizes_ok_def lookup_ok_def)
    ultimately have nth: "stored g blocks (lk_curr t) t"
      "\<forall>i. i \<notin> set (sg_group_ids g) \<longrightarrow> lk_blocks t ! i = lk_blocks s ! i \<and> lk_lengths t ! i = lk_lengths s ! i"
      using store_hit_nth [of "sg_group_ids g" blocks s "lk_curr t"] n(2) by (simp_all add: b(2,3) stored_def)
    have this_one: "answered cdiv c p hs max_length g (lk_curr t) t"
      using b(1) nth(1) ls by (auto simp: answered_def lookup_ok_def)
    have apart: "i \<notin> set (sg_group_ids g)"
      if "g' \<in> set (attention_groups c)" "g' \<noteq> g" "i \<in> set (sg_group_ids g')" for g' i
      using distinct_concat_same [of sg_group_ids "attention_groups c" g g' i] pl g that
      by (auto simp: plain_groups_def)
    have other: "answered cdiv c p hs max_length g' k' t"
      if "answered cdiv c p hs max_length g' k' s" "g' \<in> set (attention_groups c)" "g' \<noteq> g" for g' k'
      using answered_cong [OF that(1)] nth(2) apart [OF that(2,3)] by blast
    have "\<exists>k. answered cdiv c p hs max_length g' k t \<and> lk_curr t \<le> k \<and> (\<not> full_group g' \<longrightarrow> k \<le> h)"
      if "g' \<in> set (pre @ [g])" for g'
    proof (cases "g' = g")
      case True
      then show ?thesis using this_one n(1) curr by (intro exI [of _ "lk_curr t"]) simp
    next
      case False
      then have "g' \<in> set pre" using that by simp
      then obtain k' where k': "answered cdiv c p hs max_length g' k' s" "lk_curr s \<le> k'" "\<not> full_group g' \<longrightarrow> k' \<le> h"
        using st unfolding settled_def by blast
      moreover have "g' \<in> set (attention_groups c)" using that False pre by auto
      ultimately show ?thesis using other [OF k'(1) _ False] n(1) by (intro exI [of _ k']) simp
    qed
    moreover have "\<exists>k. answered cdiv c p hs max_length g' k t"
      if g': "g' \<in> set (attention_groups c)" "full_group g'" "lk_blocks t ! hd (sg_group_ids g') \<noteq> None" for g'
    proof (cases "g' = g")
      case True
      then show ?thesis using this_one by blast
    next
      case False
      have "hd (sg_group_ids g') \<in> set (sg_group_ids g')" using ok g'(1) by (simp add: co_sizes_ok_def)
      then have "lk_blocks s ! hd (sg_group_ids g') \<noteq> None" using nth(2) apart [OF g'(1) False] g'(3) by simp
      then obtain k' where "answered cdiv c p hs max_length g' k' s" using st g' by (auto simp: settled_def)
      then show ?thesis using other g'(1) False by blast
    qed
    ultimately show ?thesis using lt this_one n(1) curr unfolding settled_def by (meson order_trans)
  qed
qed

lemma hybrid_pass_settled:
  assumes "fold_res (hybrid_group cdiv c p hs max_length) (enumerate i gs) s = Inr t"
    and pl: "plain_groups c" and cd: "cdiv_law cdiv" and "settled cdiv c p hs max_length h pre s"
    and "set (pre @ gs) \<subseteq> set (attention_groups c)"
  shows "settled cdiv c p hs max_length h (pre @ gs) t
    \<and> (gs \<noteq> [] \<and> \<not> full_group (last gs) \<longrightarrow> answered cdiv c p hs max_length (last gs) (lk_curr t) t)"
  using assms(1,4,5)
proof (induction gs arbitrary: i s pre)
  case Nil
  then show ?case by simp
next
  case (Cons g gs)
  obtain s1 where s1: "hybrid_group cdiv c p hs max_length (i, g) s = Inr s1"
    "fold_res (hybrid_group cdiv c p hs max_length) (enumerate (Suc i) gs) s1 = Inr t"
    using Cons.prems(1) by (auto simp: bind_res_eq_Inr)
  from hybrid_group_settled [OF s1(1) _ pl cd Cons.prems(2)] Cons.prems(3)
  have st1: "settled cdiv c p hs max_length h (pre @ [g]) s1"
    "\<not> full_group g \<longrightarrow> answered cdiv c p hs max_length g (lk_curr s1) s1" by simp_all
  show ?case
  proof (cases gs)
    case Nil
    then show ?thesis using st1 s1(2) by simp
  next
    case (Cons g2 gs2)
    then show ?thesis using Cons.IH [OF s1(2) st1(1)] Cons.prems(3) by simp
  qed
qed

lemma hybrid_loop_answers:
  assumes "hybrid_loop cdiv c p hs max_length hit_length s = Some (Inr (n, t))"
    and pl: "plain_groups c" and cd: "cdiv_law cdiv"
    and "lookup_ok c max_length s" and "0 \<le> hit_length" "hit_length \<le> max_length"
    and "\<forall>g \<in> set (attention_groups c). full_group g \<and> lk_blocks s ! hd (sg_group_ids g) \<noteq> None \<longrightarrow>
          (\<exists>k. answered cdiv c p hs max_length g k s)"
  shows "\<forall>g \<in> set (attention_groups c). \<exists>k. answered cdiv c p hs max_length g k t \<and> n \<le> k
    \<and> (\<not> full_group g \<longrightarrow> k = n)"
  using assms(1,4-7)
proof (induction "nat hit_length" arbitrary: hit_length s rule: less_induct)
  case less
  let ?pass = "fold_res (hybrid_group cdiv c p hs max_length) (enumerate 0 (attention_groups c)) (s\<lparr>lk_curr := hit_length\<rparr>)"
  obtain t1 where pass: "?pass = Inr t1"
    using less.prems(1) by (subst (asm) hybrid_loop.simps) (auto split: sum.splits)
  have ok: "co_sizes_ok c" using pl by (simp add: plain_groups_def)
  have start_ok: "lookup_ok c max_length (s\<lparr>lk_curr := hit_length\<rparr>)" using less.prems by (simp add: lookup_ok_def)
  have same: "answered cdiv c p hs max_length g k (s\<lparr>lk_curr := hit_length\<rparr>) = answered cdiv c p hs max_length g k s" for g k
    by (simp add: answered_def stored_def)
  have "settled cdiv c p hs max_length hit_length [] (s\<lparr>lk_curr := hit_length\<rparr>)"
    using start_ok less.prems(5) unfolding settled_def same by simp
  from hybrid_pass_settled [OF pass pl cd this]
  have st: "settled cdiv c p hs max_length hit_length (attention_groups c) t1"
    "attention_groups c \<noteq> [] \<and> \<not> full_group (last (attention_groups c)) \<longrightarrow>
       answered cdiv c p hs max_length (last (attention_groups c)) (lk_curr t1) t1" by simp_all
  have each: "\<exists>k. answered cdiv c p hs max_length g k t1 \<and> lk_curr t1 \<le> k \<and> (\<not> full_group g \<longrightarrow> k \<le> hit_length)"
    if "g \<in> set (attention_groups c)" for g using st(1) that unfolding settled_def by blast
  consider (stable) "lk_curr t1 \<ge> hit_length" | (simple) "lk_curr t1 < hit_length" "is_simple_hybrid c"
    | (again) "lk_curr t1 < hit_length" "\<not> is_simple_hybrid c" by linarith
  then show ?case
  proof cases
    case stable
    then have "t = t1" "n = hit_length"
      using less.prems(1) by (subst (asm) hybrid_loop.simps, simp add: pass)+
    then show ?thesis using each stable by (meson order_antisym order_trans)
  next
    case simple
    then have r: "t = t1" "n = lk_curr t1"
      using less.prems(1) by (subst (asm) hybrid_loop.simps, simp add: pass)+
    obtain g1 g2 where gs: "attention_groups c = [g1, g2]" and full: "full_group g1"
      using simple(2) by (auto simp: is_simple_hybrid_def numeral_2_eq_2 length_Suc_conv)
    have g1: "\<exists>k. answered cdiv c p hs max_length g1 k t1 \<and> lk_curr t1 \<le> k" using each [of g1] gs by auto
    have g2: "\<exists>k. answered cdiv c p hs max_length g2 k t1 \<and> lk_curr t1 \<le> k \<and> (\<not> full_group g2 \<longrightarrow> k = lk_curr t1)"
    proof (cases "full_group g2")
      case True
      then show ?thesis using each [of g2] gs by auto
    next
      case False
      then show ?thesis using st(2) gs by (intro exI [of _ "lk_curr t1"]) simp
    qed
    show ?thesis using g1 g2 full by (simp add: gs r)
  next
    case again
    then have "hybrid_loop cdiv c p hs max_length (lk_curr t1) t1 = Some (Inr (n, t))"
      using less.prems(1) by (subst (asm) hybrid_loop.simps) (simp add: pass)
    moreover have "lookup_ok c max_length t1" "\<forall>g \<in> set (attention_groups c).
        full_group g \<and> lk_blocks t1 ! hd (sg_group_ids g) \<noteq> None \<longrightarrow> (\<exists>k. answered cdiv c p hs max_length g k t1)"
      using st(1) unfolding settled_def by blast+
    ultimately show ?thesis using less.hyps [of "lk_curr t1" t1] again(1) by (simp add: lookup_ok_def)
  qed
qed

text \<open>One cut of the truncation\<close>

definition cut_hit :: "int \<Rightarrow> int \<Rightarrow> nat \<Rightarrow> lookup \<Rightarrow> lookup" where
  "cut_hit k n i s = (case lk_blocks s ! i of None \<Rightarrow> s
     | Some bs \<Rightarrow> s\<lparr>lk_blocks := (lk_blocks s)[i := Some (py_slice bs 0 k)], lk_lengths := (lk_lengths s)[i := n]\<rparr>)"

lemma fold_cut_hit:
  assumes "distinct js" and "\<forall>i \<in> set js. i < length (lk_blocks s)"
  shows "lk_longest (fold (cut_hit k n) js s) = lk_longest s
    \<and> length (lk_blocks (fold (cut_hit k n) js s)) = length (lk_blocks s)
    \<and> (\<forall>i. lk_blocks (fold (cut_hit k n) js s) ! i
        = (if i \<in> set js then map_option (\<lambda>bs. py_slice bs 0 k) (lk_blocks s ! i) else lk_blocks s ! i))"
  using assms
proof (induction js arbitrary: s)
  case Nil
  then show ?case by simp
next
  case (Cons j js)
  have 1: "lk_longest (cut_hit k n j s) = lk_longest s" "length (lk_blocks (cut_hit k n j s)) = length (lk_blocks s)"
    "lk_blocks (cut_hit k n j s) ! i = (if i = j then map_option (\<lambda>bs. py_slice bs 0 k) (lk_blocks s ! i) else lk_blocks s ! i)"
    for i using Cons.prems(2) by (auto simp: cut_hit_def split: option.split)
  show ?case using Cons.IH [of "cut_hit k n j s"] Cons.prems by (auto simp: 1)
qed

lemma truncate_first_blocks:
  fixes cdiv :: "int \<Rightarrow> int \<Rightarrow> int" and n :: int
  assumes "plain_groups c" and "attention_groups c \<noteq> []" and "length (lk_blocks s) = length (co_groups c)"
  defines "g1 \<equiv> hd (attention_groups c)"
  defines "k \<equiv> cdiv n (block_size (single_type_managers c ! hd (sg_group_ids g1)))"
  shows "lk_longest (truncate_first cdiv c n s) = lk_longest s
    \<and> length (lk_blocks (truncate_first cdiv c n s)) = length (lk_blocks s)
    \<and> (\<forall>i. lk_blocks (truncate_first cdiv c n s) ! i
      = (if full_group g1 \<and> i \<in> set (sg_group_ids g1) then map_option (\<lambda>bs. py_slice bs 0 k) (lk_blocks s ! i)
         else lk_blocks s ! i))"
proof (cases "full_group g1")
  case False
  then show ?thesis by (simp add: truncate_first_def Let_def g1_def)
next
  case True
  have "truncate_first cdiv c n s = fold (cut_hit k n) (sg_group_ids g1) s"
    using True unfolding truncate_first_def Let_def cut_hit_def [abs_def] k_def g1_def by simp
  moreover have "distinct (sg_group_ids g1)" "\<forall>i \<in> set (sg_group_ids g1). i < length (lk_blocks s)"
    using assms(1-3) by (auto simp: plain_groups_def distinct_concat_iff g1_def co_sizes_ok_def)
  ultimately show ?thesis using fold_cut_hit [of "sg_group_ids g1" s k n] True by simp
qed

lemma plain_coordinator:
  assumes get: "get_kv_cache_coordinator cdiv cfg caching exempt a = Inr (c, p)"
    and "length (kc_groups cfg) \<noteq> 1" and "\<forall>g \<in> set (kc_groups cfg). spec_sizes_ok (g_spec g)"
    and "0 < a_scheduler_block_size a" and "0 < a_hash_block_size a"
    and "eagle_group_ids c = {}" and same: "same_coordinator c c'"
  shows "plain_groups c' \<and> co_class c' = Hybrid \<and> attention_groups c' = attention_groups c
    \<and> 2 \<le> length (attention_groups c)"
proof -
  note h = hybrid_groups_facts [OF assms(1,2)]
  have f: "attention_groups c' = attention_groups c" "co_class c' = co_class c"
    using same by (cases c; cases c'; simp add: same_coordinator_def with_managers_def)+
  have s: "co_sizes_ok c \<and> co_class c = Hybrid" by (rule hybrid_coordinator_sizes [OF assms(1-5)])
  then show ?thesis using h f co_sizes_ok_same [OF same] assms(6) unfolding plain_groups_def by auto
qed

text \<open>
  C24. Without EAGLE the lookup over several groups reconciles them: on any pool that the calls
  reach, a lookup that returns length \<open>n\<close> gives every group of sparse attention just the blocks
  that its own finder returns for a hit of length \<open>n\<close>; every group of full attention gets the
  blocks of a hit of its own finder at least as long as \<open>n\<close>, and those of the first such group
  are cut to the blocks that hold \<open>n\<close> tokens.
\<close>

theorem hybrid_lookup_reconciles:
  assumes "get_kv_cache_coordinator cdiv cfg caching exempt a = Inr (c, p)"
    and "length (kc_groups cfg) \<noteq> 1" and "\<forall>g \<in> set (kc_groups cfg). spec_sizes_ok (g_spec g)"
    and "0 < a_scheduler_block_size a" and "0 < a_hash_block_size a" and "cdiv_law cdiv"
    and "eagle_group_ids c = {}"
    and "(co_step cdiv env)\<^sup>*\<^sup>* (\<lambda>_. 0, c, p) (outs, c', p')" and "0 \<le> max_length"
    and "co_find_longest_cache_hit cdiv c' p' hs max_length = Some (Inr (blocks, n, gap))"
    and "g \<in> set (attention_groups c)"
  shows "0 \<le> n \<and> n \<le> max_length
    \<and> (\<exists>bound k answer. bound \<le> max_length \<and> group_answer cdiv c' p' hs g bound = Inr (answer, k)
        \<and> n \<le> k \<and> (\<not> is_full_attention (sp_kind (sg_spec g)) \<longrightarrow> k = n)
        \<and> length answer = length (sg_group_ids g)
        \<and> (\<forall>j < length (sg_group_ids g). blocks ! (sg_group_ids g ! j)
             = (if g = hd (attention_groups c) \<and> is_full_attention (sp_kind (sg_spec g))
                then take (nat (cdiv n (block_size (single_type_managers c' ! hd (sg_group_ids g))))) (answer ! j)
                else answer ! j)))"
proof -
  have same: "same_coordinator c c'" using co_steps_static [OF assms(8)] by simp
  from plain_coordinator [OF assms(1-5,7) same]
  have pl: "plain_groups c'" and cls: "co_class c' = Hybrid" and ag: "attention_groups c' = attention_groups c"
    and two: "attention_groups c' \<noteq> []" by auto
  have ok: "co_sizes_ok c'" using pl by (simp add: plain_groups_def)
  define start where "start = \<lparr>lk_curr = max_length, lk_longest = 0,
    lk_blocks = replicate (length (co_groups c')) (None :: nat list option),
    lk_lengths = replicate (length (co_groups c')) 0, lk_verified = {}\<rparr>"
  have st: "lookup_ok c' max_length start" using assms(9) by (auto simp: lookup_ok_def start_def)
  obtain t where t: "hybrid_loop cdiv c' p' hs max_length max_length start = Some (Inr (n, t))"
    "blocks = map (\<lambda>b. case b of None \<Rightarrow> [] | Some bs \<Rightarrow> bs) (lk_blocks (truncate_first cdiv c' n t))"
    using assms(10) cls unfolding co_find_longest_cache_hit_def hybrid_find_def Let_def start_def
    by (auto split: option.splits sum.splits)
  from hybrid_loop_range [OF t(1) ok assms(6) st assms(9)]
  have n: "0 \<le> n" "n \<le> max_length" and tok: "lookup_ok c' max_length t" by simp_all
  have none: "lk_blocks start ! hd (sg_group_ids g) = None" if "g \<in> set (attention_groups c')" for g
    using ok that by (auto simp: co_sizes_ok_def start_def)
  have len: "length (lk_blocks t) = length (co_groups c')" using tok by (simp add: lookup_ok_def)
  have "\<forall>g \<in> set (attention_groups c'). \<exists>k. answered cdiv c' p' hs max_length g k t \<and> n \<le> k
      \<and> (\<not> full_group g \<longrightarrow> k = n)"
  proof (rule hybrid_loop_answers [OF t(1) pl assms(6) st assms(9)])
    show "\<forall>g \<in> set (attention_groups c'). full_group g \<and> lk_blocks start ! hd (sg_group_ids g) \<noteq> None \<longrightarrow>
        (\<exists>k. answered cdiv c' p' hs max_length g k start)"
      by (intro ballI impI) (simp add: none)
  qed simp
  moreover have gm: "g \<in> set (attention_groups c')" using assms(11) ag by simp
  ultimately obtain k where k: "answered cdiv c' p' hs max_length g k t" "n \<le> k" "\<not> full_group g \<longrightarrow> k = n"
    by (elim ballE exE) auto
  then obtain bound answer where a: "bound \<le> max_length" "group_answer cdiv c' p' hs g bound = Inr (answer, k)"
    "length answer = length (sg_group_ids g)"
    "\<forall>j < length (sg_group_ids g). lk_blocks t ! (sg_group_ids g ! j) = Some (answer ! j)"
    by (auto simp: answered_def stored_def)
  define cut where "cut = cdiv n (block_size (single_type_managers c' ! hd (sg_group_ids (hd (attention_groups c')))))"
  note tr = truncate_first_blocks [OF pl two len, of cdiv n, folded cut_def]
  have h1: "hd (attention_groups c') \<in> set (attention_groups c')" using two by simp
  then have "hd (sg_group_ids (hd (attention_groups c'))) \<in> set (sg_group_ids (hd (attention_groups c')))"
    using ok by (simp add: co_sizes_ok_def)
  then have "hd (sg_group_ids (hd (attention_groups c'))) < length (single_type_managers c')"
    using ok h1 by (simp add: co_sizes_ok_def)
  then have "0 < block_size (single_type_managers c' ! hd (sg_group_ids (hd (attention_groups c'))))"
    using ok by (simp add: co_sizes_ok_def)
  then have cut0: "0 \<le> cut" using cdiv_bounds(1) [OF assms(6)] n(1) unfolding cut_def
    by (meson mult_less_0_iff not_le order_trans)
  have "blocks ! (sg_group_ids g ! j)
      = (if g = hd (attention_groups c) \<and> full_group g then take (nat cut) (answer ! j) else answer ! j)"
    if j: "j < length (sg_group_ids g)" for j
  proof -
    have i: "sg_group_ids g ! j \<in> set (sg_group_ids g)" using j by simp
    have lt: "sg_group_ids g ! j < length (lk_blocks (truncate_first cdiv c' n t))"
      using ok gm i tr len by (simp add: co_sizes_ok_def)
    have first: "sg_group_ids g ! j \<in> set (sg_group_ids (hd (attention_groups c'))) \<longleftrightarrow> g = hd (attention_groups c')"
      using distinct_concat_same [of sg_group_ids "attention_groups c'" g "hd (attention_groups c')"] pl gm i two
      by (auto simp: plain_groups_def)
    show ?thesis
      using tr a(4) j lt cut0 first ag
      by (auto simp: t(2) py_slice_def)
  qed
  then show ?thesis using n k(2,3) a(1-3) ag unfolding cut_def by (intro conjI exI [of _ bound] exI [of _ k] exI [of _ answer]) auto
qed

text \<open>The sample coordinator once a request of two blocks has run and cached its blocks\<close>

definition sample_allocated :: "coordinator \<times> block_pool" where
  "sample_allocated =
     (case co_allocate_new_blocks sample_cdiv sample_env (request_id two_block_request) 4 4 0 sample_coordinator sample_pool of
        Inr (new, c, p) \<Rightarrow> (c, p))"

definition sample_hybrid :: "coordinator \<times> block_pool" where
  "sample_hybrid =
     (case co_cache_blocks sample_cdiv sample_env two_block_request 4 (fst sample_allocated) (snd sample_allocated) of
        Inr (q, c, p) \<Rightarrow> (c, p))"

declare hybrid_loop.simps [code]

lemma sample_hybrid_reached:
  "\<exists>outs. (co_step sample_cdiv sample_env)\<^sup>*\<^sup>* (\<lambda>_. 0, sample_coordinator, sample_pool)
     (outs, fst sample_hybrid, snd sample_hybrid)"
proof -
  let ?a = "co_allocate_new_blocks sample_cdiv sample_env (request_id two_block_request) 4 4 0 sample_coordinator sample_pool"
  have "is_ok ?a" by code_simp
  then obtain new where a: "?a = Inr (new, fst sample_allocated, snd sample_allocated)"
    by (auto simp: is_ok_iff sample_allocated_def)
  let ?b = "co_cache_blocks sample_cdiv sample_env two_block_request 4 (fst sample_allocated) (snd sample_allocated)"
  have "is_ok ?b" by code_simp
  then obtain q where b: "?b = Inr (q, fst sample_hybrid, snd sample_hybrid)"
    by (auto simp: is_ok_iff sample_hybrid_def)
  have "\<forall>m \<in> set (single_type_managers sample_coordinator). 0 \<le> sample_cdiv 4 (block_size m)" by code_simp
  from Co_allocate [OF this a] Co_cache [OF b] show ?thesis
    by (meson converse_rtranclp_into_rtranclp r_into_rtranclp)
qed

lemma sample_hybrid_lookup:
  "\<exists>gap. co_find_longest_cache_hit sample_cdiv (fst sample_hybrid) (snd sample_hybrid) [[7], [8]] 4
     = Some (Inr ([[1, 2], [0, 4]], 4, gap))"
proof -
  let ?r = "co_find_longest_cache_hit sample_cdiv (fst sample_hybrid) (snd sample_hybrid) [[7], [8]] 4"
  have "case ?r of Some (Inr (blocks, n, gap)) \<Rightarrow> blocks = [[1, 2], [0, 4]] \<and> n = 4 | _ \<Rightarrow> False" by code_simp
  then show ?thesis by (auto split: option.splits sum.splits)
qed

theorem hybrid_lookup_reconciles_witness:
  "\<exists>g \<in> set (attention_groups sample_coordinator). sg_manager_cls g = SlidingWindowManager
     \<and> (\<exists>bound answer. group_answer sample_cdiv (fst sample_hybrid) (snd sample_hybrid) [[7], [8]] g bound
          = Inr (answer, 4) \<and> answer ! 0 = [0, 4])"
proof -
  define g where "g = attention_groups sample_coordinator ! 1"
  have g: "sg_manager_cls g = SlidingWindowManager" "sg_group_ids g = [1]"
    "\<not> is_full_attention (sp_kind (sg_spec g))" unfolding g_def by code_simp+
  have "1 < length (attention_groups sample_coordinator)" by code_simp
  then have gm: "g \<in> set (attention_groups sample_coordinator)" unfolding g_def by (rule nth_mem)
  have sizes: "\<forall>g \<in> set (kc_groups sample_config). spec_sizes_ok (g_spec g)" by code_simp
  have eagle: "eagle_group_ids sample_coordinator = {}" by code_simp
  obtain outs where steps: "(co_step sample_cdiv sample_env)\<^sup>*\<^sup>* (\<lambda>_. 0, sample_coordinator, sample_pool)
     (outs, fst sample_hybrid, snd sample_hybrid)" using sample_hybrid_reached by blast
  obtain gap where look: "co_find_longest_cache_hit sample_cdiv (fst sample_hybrid) (snd sample_hybrid) [[7], [8]] 4
     = Some (Inr ([[1, 2], [0, 4]], 4, gap))" using sample_hybrid_lookup by blast
  have args: "length (kc_groups sample_config) \<noteq> 1" "0 < a_scheduler_block_size sample_args"
    "0 < a_hash_block_size sample_args" by (simp_all add: sample_config_def sample_args_def)
  from hybrid_lookup_reconciles [OF sample_coordinator_run args(1) sizes args(2,3) sample_cdiv_law eagle steps _ look gm]
  obtain bound k answer where "group_answer sample_cdiv (fst sample_hybrid) (snd sample_hybrid) [[7], [8]] g bound
      = Inr (answer, k)" "k = 4" "[[1, 2], [0, 4]] ! 1 = answer ! 0"
    using g by auto
  then show ?thesis using g(1) gm by auto
qed

text \<open>Two specifications of full attention and one of a sliding window, whose tails alone are kept\<close>

definition two_full_config :: kv_config where
  "two_full_config = \<lparr>kc_num_blocks = 16, kc_groups =
     [\<lparr>g_spec = sample_spec FullAttentionSpec, g_is_eagle = False\<rparr>,
      \<lparr>g_spec = (sample_spec FullAttentionSpec)\<lparr>sp_layout := [1]\<rparr>, g_is_eagle = False\<rparr>,
      \<lparr>g_spec = sample_spec SlidingWindowSpec, g_is_eagle = False\<rparr>], kc_retention = Some 0\<rparr>"

definition two_full_request :: request where
  "two_full_request = two_block_request\<lparr>block_hashes := [[7], [8], [9], [10]],
     all_token_ids := [1, 2, 3, 4, 5, 6, 7, 8], num_tokens := 8, num_prompt_tokens := 8\<rparr>"

text \<open>
  Only the first specification of full attention is cut to the reconciled length: with two
  of them and a sliding window that kept only the tail of an earlier request, the lookup for a
  prefix of that request returns length zero and no block for the first group, but two cached
  blocks for the second.
\<close>

theorem second_full_group_not_cut:
  "\<exists>c p new c1 p1 q c2 p2 gap.
     get_kv_cache_coordinator sample_cdiv two_full_config True False sample_args = Inr (c, p)
     \<and> co_allocate_new_blocks sample_cdiv sample_env ''r'' 8 8 0 c p = Inr (new, c1, p1)
     \<and> co_cache_blocks sample_cdiv sample_env two_full_request 8 c1 p1 = Inr (q, c2, p2)
     \<and> co_find_longest_cache_hit sample_cdiv c2 p2 [[7], [8]] 4 = Some (Inr ([[], [5, 6], []], 0, gap))"
proof -
  let ?get = "get_kv_cache_coordinator sample_cdiv two_full_config True False sample_args"
  let ?all = "bind_res ?get (\<lambda>(c, p).
    bind_res (co_allocate_new_blocks sample_cdiv sample_env ''r'' 8 8 0 c p) (\<lambda>(new, c1, p1).
    bind_res (co_cache_blocks sample_cdiv sample_env two_full_request 8 c1 p1) (\<lambda>(q, c2, p2).
      case co_find_longest_cache_hit sample_cdiv c2 p2 [[7], [8]] 4 of
        None \<Rightarrow> Inl TypeError
      | Some r \<Rightarrow> r)))"
  have "case ?all of Inr (blocks, n, gap) \<Rightarrow> blocks = [[], [5, 6], []] \<and> n = 0 | Inl e \<Rightarrow> False" by code_simp
  then obtain gap where "?all = Inr ([[], [5, 6], []], 0, gap)" by (auto split: sum.splits)
  then show ?thesis by (fastforce simp: bind_res_eq_Inr split: option.splits)
qed

end
