(* ===== verification/KvManager.thy ===== *)
theory KvManager
  imports HybridLookup
begin

text \<open>
  The KV cache manager, \<open>src/upstream-core-port/upstream-g1/vllm/v1/core/kv_cache_manager.py\<close>:
  what the scheduler calls.  It looks up the cached prefix of a request, admits and allocates
  (\<open>allocate_slots\<close>, with the reserve that protects cached states and its escape by aging),
  frees, and hands out the events, copies and offloads of the blocks.

  The manager is a record with the attributes of the class, the coordinator and the pool among
  them; the statistics, which nothing reads back, are left out.  Objects of \<open>Request\<close> come from a
  module outside the repository: \<open>sched_request\<close> holds the attributes that the code reads.
\<close>

section \<open>State\<close>

text \<open>\<open>KVCacheBlocks\<close>: the shared object without blocks, or blocks per group\<close>

datatype kv_blocks = EmptyBlocks | KvBlocks "nat list list"

record sched_request =
  sr_request :: request
  sr_num_computed :: int
  sr_num_in_flight :: int
  sr_waiting_or_preempted :: bool
  sr_skip_reading_prefix_cache :: bool
  sr_full_report :: bool

record kv_manager =
  km_config :: kv_config
  km_max_model_len :: int
  km_enable_caching :: bool
  km_enable_events :: bool
  mamba_state_reserve :: int
  mamba_reserve_age :: int
  reserve_blocked :: "(string, int) pydict"
  reserve_aged_logged :: "string set"
  km_coordinator :: coordinator
  km_pool :: block_pool
  watermark_blocks :: int
  event_metadata :: "(string \<times> int option) list"
  partial_tail_pins :: "(string, nat list) pydict"

definition num_groups :: "kv_manager \<Rightarrow> nat" where
  "num_groups km = length (kc_groups (km_config km))"

section \<open>\<open>KVCacheBlocks\<close>\<close>

definition kv_tuple :: "nat \<Rightarrow> kv_blocks \<Rightarrow> nat list list" where
  "kv_tuple n b = (case b of EmptyBlocks \<Rightarrow> replicate n [] | KvBlocks xs \<Rightarrow> xs)"

definition create_kv_cache_blocks :: "nat list list \<Rightarrow> kv_blocks" where
  "create_kv_cache_blocks xs = (if \<exists>g \<in> set xs. g \<noteq> [] then KvBlocks xs else EmptyBlocks)"

definition kv_add :: "nat \<Rightarrow> kv_blocks \<Rightarrow> kv_blocks \<Rightarrow> kv_blocks" where
  "kv_add n a b = KvBlocks (map2 (@) (kv_tuple n a) (kv_tuple n b))"

definition kv_block_ids :: "nat \<Rightarrow> bool \<Rightarrow> kv_blocks \<Rightarrow> nat list list option" where
  "kv_block_ids n allow_none b =
     (if allow_none \<and> (\<forall>g \<in> set (kv_tuple n b). g = []) then None else Some (kv_tuple n b))"

definition kv_unhashed_block_ids :: "nat \<Rightarrow> block_pool \<Rightarrow> kv_blocks \<Rightarrow> nat list res" where
  "kv_unhashed_block_ids n p b =
     (case kv_tuple n b of
        [g] \<Rightarrow> Inr (filter (\<lambda>i. blk_hash (blk p i) = None) g)
      | _ \<Rightarrow> Inl AssertionError)"

definition kv_unhashed_block_ids_all_groups :: "nat \<Rightarrow> block_pool \<Rightarrow> kv_blocks \<Rightarrow> nat list list" where
  "kv_unhashed_block_ids_all_groups n p b =
     map (filter (\<lambda>i. blk_hash (blk p i) = None \<and> \<not> is_null (blk p i))) (kv_tuple n b)"

definition kv_new_empty :: "nat \<Rightarrow> kv_blocks \<Rightarrow> kv_blocks" where
  "kv_new_empty n b = KvBlocks (replicate (length (kv_tuple n b)) [])"

section \<open>Constructor\<close>

text \<open>
  \<open>reserve\<close> and \<open>age\<close> are the integers that the environment variables give; the watermark is a
  float, and \<open>fl\<close> rounds its product.
\<close>

definition new_kv_manager ::
  "(int \<Rightarrow> int \<Rightarrow> int) \<Rightarrow> (rat \<Rightarrow> rat) \<Rightarrow> (kv_spec \<Rightarrow> string \<times> int option) \<Rightarrow> kv_config \<Rightarrow> int option \<Rightarrow> bool
     \<Rightarrow> bool \<Rightarrow> coordinator_args \<Rightarrow> int \<Rightarrow> int \<Rightarrow> rat \<Rightarrow> kv_manager res" where
  "new_kv_manager cdiv fl spec_metadata cfg max_in_flight caching exempt a reserve age watermark =
     bind_res (get_kv_cache_coordinator cdiv cfg caching exempt
         (a\<lparr>a_max_in_flight := (case max_in_flight of None \<Rightarrow> a_max_model_len a | Some n \<Rightarrow> n)\<rparr>)) (\<lambda>(c, p).
       if \<not> watermark \<ge> 0 then Inl AssertionError
       else Inr \<lparr>km_config = cfg, km_max_model_len = a_max_model_len a, km_enable_caching = caching,
              km_enable_events = a_events a, mamba_state_reserve = max 0 reserve,
              mamba_reserve_age = max 0 age, reserve_blocked = [], reserve_aged_logged = {},
              km_coordinator = c, km_pool = p,
              watermark_blocks = \<lfloor>fl (watermark * of_int (kc_num_blocks cfg))\<rfloor>,
              event_metadata = map (spec_metadata \<circ> g_spec) (kc_groups cfg),
              partial_tail_pins = []\<rparr>)"

definition km_usage :: "(rat \<Rightarrow> rat) \<Rightarrow> kv_manager \<Rightarrow> rat" where
  "km_usage fl km = get_usage fl (km_pool km)"

section \<open>Looking up the cached prefix\<close>

definition prefix_cache_lookup_enabled :: "kv_manager \<Rightarrow> sched_request \<Rightarrow> bool" where
  "prefix_cache_lookup_enabled km q \<longleftrightarrow> km_enable_caching km \<and> \<not> sr_skip_reading_prefix_cache q"

text \<open>The events for the reused blocks of every group\<close>

definition emit_hit_events ::
  "pool_env \<Rightarrow> kv_group list \<Rightarrow> nat list list \<Rightarrow> request \<times> block_pool \<Rightarrow> (request \<times> block_pool) res" where
  "emit_hit_events env groups computed =
     fold_res (\<lambda>(i, bs) (q, p).
       if bs = [] then Inr (q, p)
       else bind_res (py_index groups (int i)) (\<lambda>g.
         emit_cached_block_events env q (int (length bs)) (sp_block_size (g_spec g)) (int i) p))
       (enumerate 0 computed)"

definition get_computed_blocks ::
  "(int \<Rightarrow> int \<Rightarrow> int) \<Rightarrow> pool_env \<Rightarrow> sched_request \<Rightarrow> kv_manager
     \<Rightarrow> ((kv_blocks \<times> int \<times> int) \<times> sched_request \<times> kv_manager) res option" where
  "get_computed_blocks cdiv env q km =
     (if \<not> prefix_cache_lookup_enabled km q then Some (Inr ((EmptyBlocks, 0, 0), q, km))
      else case co_find_longest_cache_hit cdiv (km_coordinator km) (km_pool km)
             (block_hashes (sr_request q)) (num_tokens (sr_request q) - 1) of
          None \<Rightarrow> None
        | Some r \<Rightarrow> Some (bind_res r (\<lambda>(computed, n, uncached).
            bind_res (if n > 0 \<and> km_enable_events km \<and> sr_full_report q
                      then emit_hit_events env (kc_groups (km_config km)) computed (sr_request q, km_pool km)
                      else Inr (sr_request q, km_pool km)) (\<lambda>(q1, p1).
              Inr ((create_kv_cache_blocks computed, n, if uncached \<noteq> 0 then n + uncached else 0),
                   q\<lparr>sr_request := q1\<rparr>, km\<lparr>km_pool := p1\<rparr>)))))"

definition py_min :: "int list \<Rightarrow> int res" where
  "py_min xs = (case xs of [] \<Rightarrow> Inl ValueError | x # ys \<Rightarrow> Inr (fold min ys x))"

definition get_computed_blocks_for_connector ::
  "(int \<Rightarrow> int \<Rightarrow> int) \<Rightarrow> pool_env \<Rightarrow> sched_request \<Rightarrow> kv_manager
     \<Rightarrow> ((kv_blocks \<times> int \<times> int \<times> bool) \<times> sched_request \<times> kv_manager) res option" where
  "get_computed_blocks_for_connector cdiv env q km =
     (let c = km_coordinator km;
          reconciled = map_option (\<lambda>r. bind_res r (\<lambda>((bs, n, boundary), q1, km1).
            Inr ((bs, n, boundary, False), q1, km1))) (get_computed_blocks cdiv env q km)
      in if \<not> (has_mamba_layers (km_config km) \<and> co_class c = Hybrid \<and> full_attention_group_id c \<noteq> None)
         then reconciled
         else if \<not> prefix_cache_lookup_enabled km q then Some (Inr ((EmptyBlocks, 0, 0, False), q, km))
         else case find_per_group cdiv c (km_pool km) (block_hashes (sr_request q))
                     (num_tokens (sr_request q) - 1) of
             Inl e \<Rightarrow> Some (Inl e)
           | Inr (computed, lengths) \<Rightarrow>
               (case py_index lengths (int (the (full_attention_group_id c))) of
                  Inl e \<Rightarrow> Some (Inl e)
                | Inr num_local \<Rightarrow>
                    if \<exists>hit \<in> set lengths. hit > num_local then reconciled
                    else Some (bind_res (py_min lengths) (\<lambda>m.
                      Inr ((create_kv_cache_blocks computed, num_local, 0, m < num_local), q, km)))))"

definition truncate_computed_blocks :: "kv_blocks \<Rightarrow> int \<Rightarrow> kv_manager \<Rightarrow> kv_blocks res" where
  "truncate_computed_blocks b n km =
     (let bs = kv_tuple (num_groups km) b; ms = single_type_managers (km_coordinator km);
          gs = kc_groups (km_config km)
      in if \<not> (length bs = length ms \<and> length ms = length gs) then Inl ValueError
         else bind_res (map_res (\<lambda>(bl, m, g).
             bind_res (py_mod n (block_size m)) (\<lambda>r.
               if r \<noteq> 0 then Inl AssertionError
               else (let k = n div block_size m
                     in if sp_kind (g_spec g) = MambaSpec then Inr (py_slice bl 0 (min k (int (length bl))))
                        else if \<not> k \<le> int (length bl) then Inl AssertionError
                        else Inr (py_slice bl 0 k)))) (zip bs (zip ms gs)))
           (\<lambda>truncated. Inr (create_kv_cache_blocks truncated)))"

section \<open>Admission and allocation\<close>

definition is_first_allocation :: "string \<Rightarrow> coordinator \<Rightarrow> bool" where
  "is_first_allocation r c \<longleftrightarrow> \<not> (\<exists>m \<in> set (single_type_managers c). blocks_of m r \<noteq> [])"

definition blocked_attempts :: "kv_manager \<Rightarrow> string \<Rightarrow> int" where
  "blocked_attempts km r = dict_get (reserve_blocked km) r 0"

definition reserve_aged_out :: "kv_manager \<Rightarrow> string \<Rightarrow> bool" where
  "reserve_aged_out km r \<longleftrightarrow> mamba_state_reserve km \<noteq> 0 \<and> mamba_reserve_age km \<noteq> 0
     \<and> blocked_attempts km r \<ge> mamba_reserve_age km"

definition state_reserve :: "kv_manager \<Rightarrow> string \<Rightarrow> int" where
  "state_reserve km r =
     (if is_first_allocation r (km_coordinator km) \<and> \<not> reserve_aged_out km r
      then mamba_state_reserve km else 0)"

definition applied_watermark :: "kv_manager \<Rightarrow> sched_request \<Rightarrow> bool \<Rightarrow> int" where
  "applied_watermark km q has_scheduled =
     (if has_scheduled \<and> sr_waiting_or_preempted q then watermark_blocks km else 0)"

definition note_blocked :: "string \<Rightarrow> kv_manager \<Rightarrow> kv_manager" where
  "note_blocked r km = km\<lparr>reserve_blocked := AList.update r (blocked_attempts km r + 1) (reserve_blocked km)\<rparr>"

text \<open>Whether the required blocks fit; a refusal that only the reserve causes is counted.\<close>

definition admit :: "string \<Rightarrow> int \<Rightarrow> int \<Rightarrow> int \<Rightarrow> kv_manager \<Rightarrow> bool \<times> kv_manager" where
  "admit r required reserve available km =
     (if required > available then
        (False, if reserve \<noteq> 0 \<and> required - reserve \<le> available then note_blocked r km else km)
      else (True, km))"

definition km_count ::
  "(int \<Rightarrow> int \<Rightarrow> int) \<Rightarrow> string \<Rightarrow> int \<Rightarrow> nat list list \<Rightarrow> int \<Rightarrow> int \<Rightarrow> int \<Rightarrow> int \<Rightarrow> bool \<Rightarrow> kv_manager
     \<Rightarrow> (int \<times> kv_manager) res" where
  "km_count cdiv r ntok new_computed nenc tot num_local ntok_main cap km =
     bind_res (co_get_num_blocks_to_allocate cdiv r ntok new_computed nenc tot num_local ntok_main cap
         (km_coordinator km) (km_pool km)) (\<lambda>(n, c). Inr (n, km\<lparr>km_coordinator := c\<rparr>))"

text \<open>\<open>full_sequence_must_fit\<close>\<close>

definition full_sequence_gate ::
  "(int \<Rightarrow> int \<Rightarrow> int) \<Rightarrow> sched_request \<Rightarrow> nat list list \<Rightarrow> int \<Rightarrow> int \<Rightarrow> int \<Rightarrow> int \<Rightarrow> int \<Rightarrow> kv_manager
     \<Rightarrow> (bool \<times> kv_manager) res" where
  "full_sequence_gate cdiv q new_computed nenc tot num_local wm reserve km =
     (let r = request_id (sr_request q); full = min (num_tokens (sr_request q)) (km_max_model_len km)
      in bind_res (km_count cdiv r full new_computed nenc tot num_local full True km) (\<lambda>(n, km1).
           Inr (admit r (n + wm + reserve) reserve (get_num_free_blocks (km_pool km1)) km1)))"

text \<open>The blocks that the request needs now, with the reserve those of its whole sequence\<close>

definition required_blocks ::
  "(int \<Rightarrow> int \<Rightarrow> int) \<Rightarrow> sched_request \<Rightarrow> nat list list \<Rightarrow> int \<Rightarrow> int \<Rightarrow> int \<Rightarrow> int \<Rightarrow> int \<Rightarrow> int \<Rightarrow> int \<Rightarrow> int
     \<Rightarrow> kv_manager \<Rightarrow> (int \<times> kv_manager) res" where
  "required_blocks cdiv q new_computed nenc capped_total tot num_local need_slot ntok_main wm reserve km =
     (let r = request_id (sr_request q); full = min (num_tokens (sr_request q)) (km_max_model_len km)
      in bind_res (km_count cdiv r need_slot new_computed nenc tot num_local ntok_main False km) (\<lambda>(n, km1).
           if reserve \<noteq> 0 then
             bind_res (km_count cdiv r full new_computed nenc capped_total num_local full True km1)
               (\<lambda>(honest, km2). Inr (max n honest + wm + reserve, km2))
           else Inr (n + wm, km1)))"

definition lift_co :: "kv_manager \<Rightarrow> (coordinator \<times> block_pool) res \<Rightarrow> kv_manager res" where
  "lift_co km r = bind_res r (\<lambda>(c, p). Inr (km\<lparr>km_coordinator := c, km_pool := p\<rparr>))"

text \<open>The allocation once the request is admitted\<close>

definition place_request ::
  "(int \<Rightarrow> int \<Rightarrow> int) \<Rightarrow> pool_env \<Rightarrow> sched_request \<Rightarrow> kv_blocks \<Rightarrow> int \<Rightarrow> int \<Rightarrow> int \<Rightarrow> int \<Rightarrow> int \<Rightarrow> int option
     \<Rightarrow> kv_manager \<Rightarrow> (kv_blocks \<times> sched_request \<times> kv_manager) res" where
  "place_request cdiv env q new_computed num_local num_external need_slot ntok_main nenc to_cache km =
     (let r = request_id (sr_request q)
      in bind_res (if new_computed \<noteq> EmptyBlocks \<or> num_external > 0 then
                     lift_co km (allocate_new_computed_blocks cdiv env r (kv_tuple (num_groups km) new_computed)
                       num_local num_external (km_coordinator km) (km_pool km))
                   else Inr km) (\<lambda>km1.
         bind_res (co_allocate_new_blocks cdiv env r need_slot ntok_main nenc (km_coordinator km1) (km_pool km1))
           (\<lambda>(new, c2, p2).
              let km2 = km1\<lparr>km_coordinator := c2, km_pool := p2\<rparr>
              in case to_cache of
                   None \<Rightarrow> Inr (create_kv_cache_blocks new, q, km2)
                 | Some n \<Rightarrow>
                     bind_res (co_cache_blocks cdiv env (sr_request q) n c2 p2) (\<lambda>(q3, c3, p3).
                       Inr (create_kv_cache_blocks new, q\<lparr>sr_request := q3\<rparr>,
                            km2\<lparr>km_coordinator := c3, km_pool := p3\<rparr>)))))"

text \<open>The second half of \<open>allocate_slots\<close>: skipped blocks go, the blocks needed now are counted and placed.\<close>

definition schedule_slots ::
  "(int \<Rightarrow> int \<Rightarrow> int) \<Rightarrow> pool_env \<Rightarrow> sched_request \<Rightarrow> int \<Rightarrow> kv_blocks \<Rightarrow> int \<Rightarrow> int \<Rightarrow> int \<Rightarrow> bool \<Rightarrow> int
     \<Rightarrow> int \<Rightarrow> int \<Rightarrow> bool \<Rightarrow> int \<Rightarrow> kv_manager \<Rightarrow> (kv_blocks option \<times> sched_request \<times> kv_manager) res" where
  "schedule_slots cdiv env q num_new computed lookahead num_local num_external delay nenc wm reserve first reserved km =
     (let r = request_id (sr_request q);
          computed_list = kv_tuple (num_groups km) computed;
          total = min (num_local + num_external) (km_max_model_len km);
          ntok_main = total + num_new;
          need_slot = min (ntok_main + lookahead) (km_max_model_len km)
      in bind_res (lift_co km (co_remove_skipped_blocks cdiv r
             (max 0 (total - sr_num_in_flight q)) (Some (num_prompt_tokens (sr_request q)))
             (km_coordinator km) (km_pool km))) (\<lambda>km2.
         bind_res (required_blocks cdiv q computed_list nenc total (num_local + num_external)
             num_local need_slot ntok_main wm reserve km2) (\<lambda>(required, km3).
           (let (ok, km4) = admit r required reserve (get_num_free_blocks (km_pool km3) - reserved) km3
            in if \<not> ok then Inr (None, q, km4)
               else bind_res (place_request cdiv env q computed num_local num_external need_slot
                      ntok_main nenc
                      (if \<not> km_enable_caching km \<or> delay then None
                       else Some (min (total + num_new) (num_tokens (sr_request q))))
                      (if first then km4\<lparr>reserve_blocked := AList.delete r (reserve_blocked km4)\<rparr>
                       else km4))
                 (\<lambda>(new, q5, km5). Inr (Some new, q5, km5))))))"

definition allocate_slots ::
  "(int \<Rightarrow> int \<Rightarrow> int) \<Rightarrow> pool_env \<Rightarrow> sched_request \<Rightarrow> int \<Rightarrow> int \<Rightarrow> kv_blocks option \<Rightarrow> int \<Rightarrow> int \<Rightarrow> bool \<Rightarrow> int
     \<Rightarrow> bool \<Rightarrow> int \<Rightarrow> bool \<Rightarrow> kv_manager \<Rightarrow> (kv_blocks option \<times> sched_request \<times> kv_manager) res" where
  "allocate_slots cdiv env q num_new num_new_computed new_computed lookahead num_external delay nenc
       must_fit reserved has_scheduled km =
     (let r = request_id (sr_request q);
          computed = (case new_computed of None \<Rightarrow> EmptyBlocks | Some b \<Rightarrow> b);
          num_local = sr_num_computed q + num_new_computed;
          total = min (num_local + num_external) (km_max_model_len km);
          wm = applied_watermark km q has_scheduled;
          first = is_first_allocation r (km_coordinator km);
          reserve = state_reserve km r;
          km0 = (if reserve_aged_out km r
                 then km\<lparr>reserve_aged_logged := insert r (reserve_aged_logged km)\<rparr> else km)
      in if num_new = 0 \<and> num_external = 0 then Inl ValueError
         else bind_res (if must_fit
                then full_sequence_gate cdiv q (kv_tuple (num_groups km) computed) nenc total num_local wm reserve km0
                else Inr (True, km0)) (\<lambda>(fits, km1).
           if \<not> fits then Inr (None, q, km1)
           else schedule_slots cdiv env q num_new computed lookahead num_local num_external delay nenc
                  wm reserve first reserved km1))"

section \<open>Freeing\<close>

definition km_free :: "string \<Rightarrow> kv_manager \<Rightarrow> kv_manager res" where
  "km_free r km =
     (let pins = dict_get (partial_tail_pins km) r [];
          km1 = km\<lparr>partial_tail_pins := AList.delete r (partial_tail_pins km)\<rparr>
      in bind_res (if pins \<noteq> [] then free_blocks pins (km_pool km1) else Inr (km_pool km1)) (\<lambda>p1.
           (let km2 = km1\<lparr>km_pool := p1, reserve_blocked := AList.delete r (reserve_blocked km1),
                  reserve_aged_logged := reserve_aged_logged km1 - {r}\<rparr>
            in lift_co km2 (co_free r (km_coordinator km2) (km_pool km2)))))"

definition km_remove_skipped_blocks ::
  "(int \<Rightarrow> int \<Rightarrow> int) \<Rightarrow> string \<Rightarrow> int \<Rightarrow> int option \<Rightarrow> kv_manager \<Rightarrow> kv_manager res" where
  "km_remove_skipped_blocks cdiv r processed prompt km =
     lift_co km (co_remove_skipped_blocks cdiv r processed prompt (km_coordinator km) (km_pool km))"

definition km_pop_blocks_for_free :: "string \<Rightarrow> kv_manager \<Rightarrow> nat list \<times> kv_manager" where
  "km_pop_blocks_for_free r km =
     (let (bs, c) = co_pop_blocks_for_free r (km_coordinator km);
          pins = dict_get (partial_tail_pins km) r []
      in (pins @ bs,
          km\<lparr>km_coordinator := c, partial_tail_pins := AList.delete r (partial_tail_pins km)\<rparr>))"

definition km_evict_blocks :: "pool_env \<Rightarrow> int list \<Rightarrow> kv_manager \<Rightarrow> kv_manager res" where
  "km_evict_blocks env ids km =
     bind_res (evict_blocks env ids (km_pool km)) (\<lambda>p. Inr (km\<lparr>km_pool := p\<rparr>))"

definition km_reset_prefix_cache :: "kv_manager \<Rightarrow> bool \<times> kv_manager" where
  "km_reset_prefix_cache km =
     (let (ok, p) = reset_prefix_cache (km_pool km) in (ok, km\<lparr>km_pool := p\<rparr>))"

section \<open>What the scheduler reads and drains\<close>

definition km_common_prefix_blocks :: "string \<Rightarrow> kv_manager \<Rightarrow> int list \<times> kv_manager" where
  "km_common_prefix_blocks r km =
     (let (ns, c) = co_get_num_common_prefix_blocks r (km_coordinator km) (km_pool km)
      in (ns, km\<lparr>km_coordinator := c\<rparr>))"

text \<open>The metadata that an event of a known group is annotated with\<close>

definition annotate_event :: "kv_manager \<Rightarrow> kv_event \<Rightarrow> kv_event \<times> (string \<times> int option) option" where
  "annotate_event km e =
     (e, case e of
           BlockStored b \<Rightarrow>
             (if ev_group_idx b < 0 \<or> ev_group_idx b \<ge> int (length (event_metadata km)) then None
              else Some (event_metadata km ! nat (ev_group_idx b)))
         | _ \<Rightarrow> None)"

definition km_take_events :: "kv_manager \<Rightarrow> (kv_event \<times> (string \<times> int option) option) list \<times> kv_manager" where
  "km_take_events km =
     (let (es, p) = take_events (km_pool km) in (map (annotate_event km) es, km\<lparr>km_pool := p\<rparr>))"

definition km_get_blocks :: "string \<Rightarrow> kv_manager \<Rightarrow> kv_blocks" where
  "km_get_blocks r km = create_kv_cache_blocks (get_blocks r (km_coordinator km))"

definition km_get_block_ids :: "string \<Rightarrow> kv_manager \<Rightarrow> nat list list" where
  "km_get_block_ids r km = kv_tuple (num_groups km) (km_get_blocks r km)"

definition get_block_ids_for_computed_tokens ::
  "(int \<Rightarrow> int \<Rightarrow> int) \<Rightarrow> string \<Rightarrow> int \<Rightarrow> kv_manager \<Rightarrow> nat list list" where
  "get_block_ids_for_computed_tokens cdiv r num_computed km =
     map (\<lambda>(g, ids).
         if \<not> is_attention_spec (sp_kind (g_spec g))
            \<or> sp_kind (g_spec g) \<in> {CrossAttentionSpec, EncoderOnlyAttentionSpec} then ids
         else py_slice ids 0 (cdiv num_computed (sp_block_size (g_spec g))))
       (zip (kc_groups (km_config km)) (km_get_block_ids r km))"

definition group_cached_tokens :: "block_pool \<Rightarrow> nat list \<Rightarrow> int" where
  "group_cached_tokens p bs =
     fold (\<lambda>b n. max n (case blk_hash_num_tokens (blk p b) of None \<Rightarrow> 0 | Some k \<Rightarrow> k)) bs 0"

definition estimate_cached_tokens :: "string \<Rightarrow> kv_manager \<Rightarrow> int" where
  "estimate_cached_tokens r km =
     (case fold (\<lambda>(g, bs) acc.
          if sp_kind (g_spec g) \<in> {CrossAttentionSpec, EncoderOnlyAttentionSpec} then acc
          else (let n = group_cached_tokens (km_pool km) bs
                in Some (case acc of None \<Rightarrow> n | Some k \<Rightarrow> min k n)))
        (zip (kc_groups (km_config km)) (km_get_block_ids r km)) None of
        None \<Rightarrow> 0 | Some n \<Rightarrow> n)"

definition km_cache_blocks ::
  "(int \<Rightarrow> int \<Rightarrow> int) \<Rightarrow> pool_env \<Rightarrow> request \<Rightarrow> int \<Rightarrow> kv_manager \<Rightarrow> (request \<times> kv_manager) res" where
  "km_cache_blocks cdiv env q n km =
     (if km_enable_caching km then
        bind_res (co_cache_blocks cdiv env q n (km_coordinator km) (km_pool km)) (\<lambda>(q1, c, p).
          Inr (q1, km\<lparr>km_coordinator := c, km_pool := p\<rparr>))
      else Inr (q, km))"

definition km_take_new_block_ids :: "kv_manager \<Rightarrow> nat list \<times> kv_manager" where
  "km_take_new_block_ids km =
     (let c = km_coordinator km
      in (concat (map (\<lambda>m. fst (take_new_block_ids m)) (single_type_managers c)),
          km\<lparr>km_coordinator := with_managers c (map (\<lambda>m. snd (take_new_block_ids m)) (single_type_managers c))\<rparr>))"

definition get_zeroing_block_ids_in_range ::
  "(int \<Rightarrow> int \<Rightarrow> int) \<Rightarrow> string \<Rightarrow> int \<Rightarrow> int \<Rightarrow> kv_manager \<Rightarrow> nat list \<times> kv_manager" where
  "get_zeroing_block_ids_in_range cdiv r start end_token km =
     (let c = km_coordinator km; ms = single_type_managers c
      in (concat (map (\<lambda>m. if record_new_block_ids m
                          then py_slice (blocks_of m r) (start div block_size m) (cdiv end_token (block_size m))
                          else []) ms),
          km\<lparr>km_coordinator := with_managers c
             (map (\<lambda>m. if record_new_block_ids m then open_table r m else m) ms)\<rparr>))"

definition record_blocks_for_zeroing :: "string \<Rightarrow> int \<Rightarrow> kv_manager \<Rightarrow> kv_manager res" where
  "record_blocks_for_zeroing r start km =
     bind_res (map_res (\<lambda>m.
         if \<not> record_new_block_ids m then Inr m
         else bind_res (py_mod start (block_size m)) (\<lambda>k.
           if k \<noteq> 0 then Inl AssertionError
           else Inr ((open_table r m)\<lparr>new_block_ids := new_block_ids m
                  @ drop (nat (start div block_size m)) (blocks_of m r)\<rparr>)))
         (single_type_managers (km_coordinator km))) (\<lambda>ms.
       Inr (km\<lparr>km_coordinator := with_managers (km_coordinator km) ms\<rparr>))"

definition take_kv_cache_block_copies :: "kv_manager \<Rightarrow> (nat \<times> nat) list \<times> nat list \<times> kv_manager" where
  "take_kv_cache_block_copies km =
     (let (copies, c) = co_take_copies (km_coordinator km)
      in (copies, concat (map (\<lambda>(a, b). [a, b]) copies), km\<lparr>km_coordinator := c\<rparr>))"

text \<open>Offloads of partial tails: every block is pinned for its request.\<close>

definition pin_offload ::
  "string \<times> int \<times> nat \<times> int \<Rightarrow> (string, (int \<times> nat \<times> int) list) pydict \<times> kv_manager
     \<Rightarrow> ((string, (int \<times> nat \<times> int) list) pydict \<times> kv_manager) res" where
  "pin_offload e s =
     (let (r, gid, b, boundary) = e; (offloads, km) = s
      in bind_res (touch [b] (km_pool km)) (\<lambda>p.
           Inr (AList.update r (dict_get offloads r [] @ [(gid, b, boundary)]) offloads,
                km\<lparr>km_pool := p, partial_tail_pins :=
                  AList.update r (dict_get (partial_tail_pins km) r [] @ [b]) (partial_tail_pins km)\<rparr>)))"

definition take_partial_tail_offloads ::
  "kv_manager \<Rightarrow> ((string, (int \<times> nat \<times> int) list) pydict \<times> kv_manager) res" where
  "take_partial_tail_offloads km =
     (let c = km_coordinator km; ms = single_type_managers c
      in fold_res pin_offload (concat (map (\<lambda>m. fst (take_pending_partial_tail_offloads m)) ms))
           ([], km\<lparr>km_coordinator :=
              with_managers c (map (\<lambda>m. snd (take_pending_partial_tail_offloads m)) ms)\<rparr>))"

definition km_new_step_starts :: "kv_manager \<Rightarrow> kv_manager" where
  "km_new_step_starts km = km\<lparr>km_coordinator := co_new_step_starts (km_coordinator km)\<rparr>"

end
