(* ===== verification/KvAccounts.thy ===== *)
theory KvAccounts
  imports KvManager
begin

text \<open>
  The accounts of the KV cache manager: over any sequence of the calls of \<open>KvManager\<close> the
  references of the pool are those of the block tables, of the pending copies, of the pinned
  offloads and of the callers.
\<close>

section \<open>Offloads stay within the pool\<close>

abbreviation offloads :: "manager \<Rightarrow> (string \<times> int \<times> nat \<times> int) list" where
  "offloads m \<equiv> pending_partial_tail_offloads m"

definition offloads_in_pool :: "block_pool \<Rightarrow> manager \<Rightarrow> bool" where
  "offloads_in_pool p m \<longleftrightarrow> (\<forall>(r, gid, b, n) \<in> set (offloads m). int b < num_gpu_blocks p)"

named_theorems offloads_kept "operations keep the pending offloads of a manager"

lemma tables_offloads [offloads_kept]:
  "offloads (set_blocks r bs m) = offloads m" "offloads (open_table r m) = offloads m"
  "offloads (record_ids bs m) = offloads m" "offloads (enter_hit r kept bs n m) = offloads m"
  by (simp_all add: set_blocks_def open_table_def record_ids_def enter_hit_def Let_def)

lemma extend_table_offloads: "extend_table env r n m p = Inr (new, m', p') \<Longrightarrow> offloads m' = offloads m"
  by (auto simp: extend_table_def res_simps offloads_kept)

lemma kpool_allocate_offloads: "kpool_allocate env r m p = Inr (new, m', p') \<Longrightarrow> offloads m' = offloads m"
  by (auto simp: kpool_allocate_def offloads_kept extend_table_offloads split: if_splits)

lemma add_local_offloads:
  "add_local_computed_blocks r bs nl ne m p = Inr (m', p') \<Longrightarrow> offloads m' = offloads m"
  by (auto simp: add_local_computed_blocks_def base_add_local_computed_blocks_def Let_def res_simps offloads_kept
      split: manager_class.splits if_splits)

lemma external_offloads:
  "allocate_external_computed_blocks cdiv env r nl ne m p = Inr (m', p') \<Longrightarrow> offloads m' = offloads m"
  by (auto simp: allocate_external_computed_blocks_def base_allocate_external_computed_blocks_def Let_def
      res_simps kpool_allocate_offloads extend_table_offloads split: manager_class.splits if_splits)

lemma apply_cow_offloads: "apply_cow r idx src cow m p = Inr (m', p') \<Longrightarrow> offloads m' = offloads m"
  by (auto simp: apply_cow_def Let_def res_simps offloads_kept split: if_splits)

lemma redirect_offloads: "redirect_partial_hit env r m p = Inr (new, m', p') \<Longrightarrow> offloads m' = offloads m"
  by (auto simp: redirect_partial_hit_def Let_def res_simps dest!: apply_cow_offloads split: option.splits)

lemma base_allocate_offloads:
  "base_allocate_new_blocks cdiv env r n m p = Inr (new, m', p') \<Longrightarrow> offloads m' = offloads m"
  by (auto simp: base_allocate_new_blocks_def Let_def res_simps offloads_kept
      dest!: redirect_offloads extend_table_offloads split: if_splits)

lemma base_cache_offloads:
  "base_cache_blocks cdiv env q n ret m p = Inr (q', m', p') \<Longrightarrow> offloads m' = offloads m"
  by (auto simp: base_cache_blocks_def Let_def res_simps offloads_kept split: if_splits)

lemma full_partial_tail_offloads:
  "full_cache_partial_tail env q n m p = Inr (q', m', p') \<Longrightarrow> offloads m' = offloads m"
  by (auto simp: full_cache_partial_tail_def Let_def res_simps offloads_kept split: if_splits)

lemma mamba_partial_tail_offloads:
  "mamba_cache_partial_tail env q n m p = Inr (k, q', m', p') \<Longrightarrow> offloads m' = offloads m"
  by (auto simp: mamba_cache_partial_tail_def Let_def res_simps offloads_kept split: if_splits option.splits)

lemma mamba_cache_offloads:
  "mamba_cache_blocks cdiv env q n ret m p = Inr (q', m', p') \<Longrightarrow> offloads m' = offloads m"
  by (auto simp: mamba_cache_blocks_def Let_def res_simps offloads_kept
      dest!: base_cache_offloads mamba_partial_tail_offloads split: if_splits)

lemma cache_offloads:
  "cache_blocks cdiv env q n ret m p = Inr (q', m', p') \<Longrightarrow> offloads m' = offloads m"
  by (auto simp: cache_blocks_def res_simps dest!: base_cache_offloads mamba_cache_offloads full_partial_tail_offloads
      split: manager_class.splits if_splits)

lemma pop_offloads: "set (offloads (snd (pop_blocks_for_free r m))) \<subseteq> set (offloads m)"
  by (auto simp: pop_blocks_for_free_def Let_def)

lemma free_offloads: "free_request r m p = Inr (m', p') \<Longrightarrow> set (offloads m') \<subseteq> set (offloads m)"
  using pop_offloads [of r m] by (auto simp: free_request_def res_simps split: prod.splits)

lemma remove_range_offloads:
  "remove_blocks_in_range r a b m p = Inr (m', p') \<Longrightarrow> offloads m' = offloads m"
  by (auto simp: remove_blocks_in_range_def Let_def res_simps offloads_kept split: if_splits)

lemma base_remove_offloads:
  "base_remove_skipped_blocks r n m p = Inr (m', p') \<Longrightarrow> offloads m' = offloads m"
  by (auto simp: base_remove_skipped_blocks_def Let_def offloads_kept dest!: remove_range_offloads split: if_splits)

lemma mamba_remove_offloads:
  "mamba_remove_skipped_blocks cdiv r n m p = Inr (m', p') \<Longrightarrow> offloads m' = offloads m"
  by (auto simp: mamba_remove_skipped_blocks_def drop_last_state_def Let_def res_simps offloads_kept
      dest!: base_remove_offloads split: if_splits option.splits)

lemma remove_offloads:
  "remove_skipped_blocks cdiv r n prompt m p = Inr (m', p') \<Longrightarrow> offloads m' = offloads m"
  by (auto simp: remove_skipped_blocks_def rswa_remove_skipped_blocks_def
      dest!: base_remove_offloads mamba_remove_offloads remove_range_offloads
      split: manager_class.splits option.splits)

lemma count_offloads:
  "get_num_blocks_to_allocate cdiv p m r n bs tot nl nm cap = Inr (k, m') \<Longrightarrow> offloads m' = offloads m"
  by (auto simp: get_num_blocks_to_allocate_def mamba_num_blocks_to_allocate_def mamba_align_num_blocks_def
      Let_def res_simps offloads_kept split: manager_class.splits if_splits)

lemma common_prefix_offloads:
  "get_num_common_prefix_blocks r m p = (n, m') \<Longrightarrow> offloads m' = offloads m"
  by (auto simp: get_num_common_prefix_blocks_def full_common_prefix_blocks_def Let_def offloads_kept
      split: manager_class.splits)

text \<open>Only the copy of a producer's tail is new, and it has just been allocated.\<close>

lemma mamba_cow_offloads:
  "mamba_cow env r idx src cow m p = Inr (front, m', p') \<Longrightarrow>
   set (offloads m') \<subseteq> set (offloads m) \<union> {e. fst (snd (snd e)) = cow}"
  by (auto simp: mamba_cow_def Let_def res_simps dest!: apply_cow_offloads split: if_splits option.splits)

lemma mamba_align_allocate_offloads:
  assumes run: "mamba_align_allocate cdiv env r n m p = Inr (new, m', p')"
    and ok: "pool_ok p" and env: "env_ok env" and offl: "offloads_in_pool p m"
  shows "offloads_in_pool p m'"
proof (cases "map_of (partial_hit_reqs m) r")
  case None
  then have "offloads m' = offloads m"
    using run by (auto simp: mamba_align_allocate_def Let_def res_simps offloads_kept split: if_splits)
  then show ?thesis using offl by (simp add: offloads_in_pool_def)
next
  case (Some hit)
  obtain idx src where hit: "hit = (idx, src)" by (cases hit)
  obtain k nb p1 cow m1 front m2 p2 where s: "get_new_blocks env (max k 0 + 1) p = Inr (nb, p1)"
    "py_index nb 0 = Inr cow" "mamba_cow env r idx src cow m1 p1 = Inr (front, m2, p2)"
    "offloads m1 = offloads m" "offloads m' = offloads m2"
    using run Some unfolding mamba_align_allocate_def Let_def hit
    by (auto simp: bind_res_eq_Inr offloads_kept split: if_splits)
  have "cow \<in> set nb" using s(2) by (auto simp: py_index_def split: if_splits)
  moreover have "0 \<le> max k 0 + 1" by simp
  ultimately have "pool_block p cow" using al.allocD(4) [OF s(1) env ok] by blast
  then have "int cow < num_gpu_blocks p" by (auto simp: pool_block_def)
  then show ?thesis using mamba_cow_offloads [OF s(3)] offl s(4,5) by (fastforce simp: offloads_in_pool_def)
qed

lemma allocate_offloads:
  assumes "allocate_new_blocks cdiv env r n n' m p = Inr (new, m', p')"
    and "pool_ok p" and "env_ok env" and "offloads_in_pool p m"
  shows "offloads_in_pool p m'"
proof -
  have "offloads m' = offloads m \<or> mamba_align_allocate cdiv env r n' m p = Inr (new, m', p')"
    using assms(1)
    by (auto simp: allocate_new_blocks_def mamba_allocate_new_blocks_def
        dest: kpool_allocate_offloads base_allocate_offloads split: manager_class.splits if_splits)
  then show ?thesis
  proof
    assume "offloads m' = offloads m"
    then show ?thesis using assms(4) by (simp add: offloads_in_pool_def)
  next
    assume "mamba_align_allocate cdiv env r n' m p = Inr (new, m', p')"
    then show ?thesis using assms(2-4) by (rule mamba_align_allocate_offloads)
  qed
qed

lemma offloads_in_pool_less:
  "offloads_in_pool p m \<Longrightarrow> set (offloads m') \<subseteq> set (offloads m) \<Longrightarrow> num_gpu_blocks p' = num_gpu_blocks p \<Longrightarrow>
   offloads_in_pool p' m'"
  by (auto simp: offloads_in_pool_def)

text \<open>A loop over the managers keeps what every call keeps.\<close>

lemma each_manager_all:
  assumes "each_manager f i ms p = Inr (rs, ms', p')" and "\<forall>m \<in> set ms. Q m"
    and "\<And>j m p r m' p'. f j m p = Inr (r, m', p') \<Longrightarrow> Q m \<Longrightarrow> Q m'"
  shows "\<forall>m \<in> set ms'. Q m"
  using assms(1,2)
  by (induction ms arbitrary: i p rs ms') (auto simp: res_simps dest: assms(3))

lemma cache_each_all:
  assumes "cache_each cdiv env n ret q ms p = Inr (q', ms', p')" and "\<forall>m \<in> set ms. Q m"
    and "\<And>m q k p q' m' p'. cache_blocks cdiv env q k ret m p = Inr (q', m', p') \<Longrightarrow> Q m \<Longrightarrow> Q m'"
  shows "\<forall>m \<in> set ms'. Q m"
  using assms(1,2)
  by (induction ms arbitrary: q p ms') (auto simp: res_simps dest: assms(3))

lemma count_blocks_all:
  assumes "count_blocks cdiv p r n nc nenc tot nl ntm cap i ms = Inr (k, ms')" and "\<forall>m \<in> set ms. Q m"
    and "\<And>m n bs tot nl ntm k m'. get_num_blocks_to_allocate cdiv p m r n bs tot nl ntm cap = Inr (k, m') \<Longrightarrow>
      Q m \<Longrightarrow> Q m'"
  shows "\<forall>m \<in> set ms'. Q m"
  using assms(1,2)
  by (induction ms arbitrary: i k ms') (auto simp: res_simps dest: assms(3) split: if_splits)

lemma allocate_new_computed_all:
  assumes run: "allocate_new_computed_blocks cdiv env r nc nl ne c p = Inr (c', p')"
    and all: "\<forall>m \<in> set (single_type_managers c). Q m"
    and local: "\<And>m bs p m' p'. add_local_computed_blocks r bs nl ne m p = Inr (m', p') \<Longrightarrow> Q m \<Longrightarrow> Q m'"
    and external: "\<And>m p m' p'. allocate_external_computed_blocks cdiv env r nl ne m p = Inr (m', p') \<Longrightarrow> Q m \<Longrightarrow> Q m'"
  shows "\<forall>m \<in> set (single_type_managers c'). Q m"
proof (cases "\<exists>m \<in> set (single_type_managers c). map_of (num_cached_block m) r \<noteq> None")
  case True
  then have "c' = c" using run by (auto simp: allocate_new_computed_blocks_def split: if_splits)
  then show ?thesis using all by simp
next
  case False
  let ?f = "\<lambda>i m p. no_result (bind_res (py_index nc (int i)) (\<lambda>bs. add_local_computed_blocks r bs nl ne m p))"
  let ?g = "\<lambda>_ m p. no_result (allocate_external_computed_blocks cdiv env r nl ne m p)"
  obtain rs1 ms1 p1 rs2 ms2 where s: "each_manager ?f 0 (single_type_managers c) p = Inr (rs1, ms1, p1)"
    "(if ne > 0 then each_manager ?g 0 ms1 p1 else Inr ([], ms1, p1)) = Inr (rs2, ms2, p')"
    "c' = with_managers c ms2"
    using run False by (auto simp: allocate_new_computed_blocks_def bind_res_eq_Inr)
  have 1: "\<forall>m \<in> set ms1. Q m"
    by (rule each_manager_all [OF s(1) all]) (auto simp: bind_res_eq_Inr dest: local)
  have "\<forall>m \<in> set ms2. Q m"
  proof (cases "ne > 0")
    case True
    then have "each_manager ?g 0 ms1 p1 = Inr (rs2, ms2, p')" using s(2) by simp
    then show ?thesis using 1 by (rule each_manager_all) (auto dest: external)
  qed (use s(2) 1 in simp)
  then show ?thesis by (simp add: s(3) with_managers_def)
qed

lemma each_manager_allocate_offloads:
  assumes "each_manager (\<lambda>_ m. allocate_new_blocks cdiv env r
      (if manager_cls m = CrossAttentionManager then nenc else ntok) ntok_main m) i ms p = Inr (rs, ms', p')"
    and "all_good others (xs @ ms) p" and env: "env_ok env"
    and "\<forall>m \<in> set ms. 0 \<le> cdiv ntok_main (block_size m)" and "\<forall>m \<in> set ms. offloads_in_pool p m"
  shows "\<forall>m \<in> set ms'. offloads_in_pool p m"
  using assms(1,2,4,5)
proof (induction ms arbitrary: i xs p rs ms')
  case Nil
  then show ?case by simp
next
  case (Cons m ms)
  let ?f = "\<lambda>_ m. allocate_new_blocks cdiv env r (if manager_cls m = CrossAttentionManager then nenc else ntok) ntok_main m"
  obtain x m1 p1 rs2 ms2 where s: "?f i m p = Inr (x, m1, p1)"
    "each_manager ?f (Suc i) ms p1 = Inr (rs2, ms2, p')" "ms' = m1 # ms2"
    using Cons.prems(1) by (auto simp: bind_res_eq_Inr)
  have "mgr_step cdiv env (m, p) (m1, p1)" using Mgr_allocate [OF _ s(1)] Cons.prems(3) by simp
  from all_good_step [OF Cons.prems(2) this env]
  have g: "all_good others ((xs @ [m1]) @ ms) p1" "num_gpu_blocks p1 = num_gpu_blocks p" by simp_all
  have size: "offloads_in_pool p1 = offloads_in_pool p" by (simp add: offloads_in_pool_def [abs_def] g(2))
  have "pool_ok p" using Cons.prems(2) by (simp add: all_good_def)
  then have "offloads_in_pool p m1" using allocate_offloads [OF s(1) _ env] Cons.prems(4) by simp
  then show ?case using Cons.IH [OF s(2) g(1)] Cons.prems(3,4) s(3) size by simp
qed

definition co_offloads_ok :: "coordinator \<Rightarrow> block_pool \<Rightarrow> bool" where
  "co_offloads_ok c p \<longleftrightarrow> (\<forall>m \<in> set (single_type_managers c). offloads_in_pool p m)"

lemma co_step_offloads:
  assumes step: "co_step cdiv env (outs, c, p) (outs', c', p')" and env: "env_ok env"
    and good: "all_good outs (single_type_managers c) p" and offl: "co_offloads_ok c p"
  shows "co_offloads_ok c' p'"
proof -
  have size: "num_gpu_blocks p' = num_gpu_blocks p" using co_step_good [OF step env good] by simp
  have less: "offloads_in_pool p m'" if "set (offloads m') \<subseteq> set (offloads m)" "offloads_in_pool p m" for m m'
    using offloads_in_pool_less [OF that(2,1)] by simp
  have "co_offloads_ok c' p"
    using step
  proof (elim co_stepE, goal_cases)
    case (1 r ntok new_computed nenc tot num_local ntok_main cap n)
    then obtain ms where ms: "count_blocks cdiv p r ntok new_computed nenc tot num_local ntok_main cap 0
        (single_type_managers c) = Inr (n, ms)" "c' = with_managers c ms"
      by (auto simp: co_get_num_blocks_to_allocate_def res_simps)
    have "\<forall>m \<in> set ms. offloads_in_pool p m"
      by (rule count_blocks_all [OF ms(1)])
        (use offl in \<open>auto simp: co_offloads_ok_def offloads_in_pool_def dest!: count_offloads\<close>)
    then show ?case by (simp add: ms(2) co_offloads_ok_def with_managers_def)
  next
    case (2 new_computed num_external num_local r)
    show ?case unfolding co_offloads_ok_def
      by (rule allocate_new_computed_all [OF 2(4)])
        (use offl in \<open>auto simp: co_offloads_ok_def offloads_in_pool_def dest!: add_local_offloads external_offloads\<close>)
  next
    case (3 ntok_main r ntok nenc new)
    then show ?case
      using each_manager_allocate_offloads [where xs = "[]", OF _ _ env] good offl
      by (auto simp: co_allocate_new_blocks_def co_offloads_ok_def with_managers_def res_simps)
  next
    case (4 q num_computed q')
    then obtain ms where ms: "cache_each cdiv env (tokens_to_cache c num_computed) (retention_interval c) q
        (single_type_managers c) p = Inr (q', ms, p')" "c' = with_managers c ms"
      by (auto simp: co_cache_blocks_def res_simps)
    have "\<forall>m \<in> set ms. offloads_in_pool p m"
      by (rule cache_each_all [OF ms(1)])
        (use offl in \<open>auto simp: co_offloads_ok_def offloads_in_pool_def dest!: cache_offloads\<close>)
    then show ?case by (simp add: ms(2) co_offloads_ok_def with_managers_def)
  next
    case (5 r)
    then obtain rs ms where ms: "each_manager (\<lambda>_ m p. no_result (free_request r m p)) 0
        (single_type_managers c) p = Inr (rs, ms, p')" "c' = with_managers c ms"
      by (auto simp: co_free_def res_simps)
    have "\<forall>m \<in> set ms. offloads_in_pool p m"
      by (rule each_manager_all [OF ms(1)])
        (use offl in \<open>auto simp: co_offloads_ok_def offloads_in_pool_def dest!: free_offloads\<close>)
    then show ?case by (simp add: ms(2) co_offloads_ok_def with_managers_def)
  next
    case 6
    have "offloads_in_pool p (snd (pop_blocks_for_free q m))" if "offloads_in_pool p m" for q m
      by (rule less [OF pop_offloads that])
    then show ?case using 6 offl by (auto simp: co_pop_blocks_for_free_def co_offloads_ok_def with_managers_def)
  next
    case (7 r ns)
    have "offloads_in_pool p (snd (get_num_common_prefix_blocks r m p))" if "offloads_in_pool p m" for m
      using common_prefix_offloads [of r m p "fst (get_num_common_prefix_blocks r m p)"] that
      by (intro less [OF _ that]) simp
    then show ?case using 7 offl
      by (auto simp: co_get_num_common_prefix_blocks_def co_offloads_ok_def with_managers_def split: if_splits)
  next
    case (8 r processed prompt)
    then obtain rs ms where ms: "each_manager (\<lambda>_ m p. no_result (remove_skipped_blocks cdiv r processed prompt m p)) 0
        (single_type_managers c) p = Inr (rs, ms, p')" "c' = with_managers c ms"
      by (auto simp: co_remove_skipped_blocks_def res_simps)
    have "\<forall>m \<in> set ms. offloads_in_pool p m"
      by (rule each_manager_all [OF ms(1)])
        (use offl in \<open>auto simp: co_offloads_ok_def offloads_in_pool_def dest!: remove_offloads\<close>)
    then show ?case by (simp add: ms(2) co_offloads_ok_def with_managers_def)
  next
    case 9
    have "offloads_in_pool p (new_step_starts m)" if "offloads_in_pool p m" for m
      by (rule less [OF _ that]) (simp add: new_step_starts_def split: manager_class.splits)
    then show ?case using 9 offl by (auto simp: co_new_step_starts_def co_offloads_ok_def with_managers_def)
  next
    case 10
    have "offloads_in_pool p (snd (take_pending_cow_copies m))" if "offloads_in_pool p m" for m
      by (rule less [OF _ that]) (simp add: take_pending_cow_copies_def)
    then show ?case using 10 offl
      by (auto simp: co_take_copies_def co_offloads_ok_def with_managers_def)
  qed (use offl in simp_all)
  then show ?thesis by (simp add: co_offloads_ok_def offloads_in_pool_def size)
qed

section \<open>The accounts\<close>

definition km_others :: "(nat \<Rightarrow> nat) \<Rightarrow> kv_manager \<Rightarrow> nat \<Rightarrow> nat" where
  "km_others outs km b = outs b + table_refs (partial_tail_pins km) b"

definition pins_in_pool :: "kv_manager \<Rightarrow> bool" where
  "pins_in_pool km \<longleftrightarrow>
     (\<forall>r. \<forall>b \<in> set (dict_get (partial_tail_pins km) r []). int b < num_gpu_blocks (km_pool km))"

definition km_good :: "(nat \<Rightarrow> nat) \<Rightarrow> kv_manager \<Rightarrow> bool" where
  "km_good outs km \<longleftrightarrow> all_good (km_others outs km) (single_type_managers (km_coordinator km)) (km_pool km)
     \<and> dict_wf (partial_tail_pins km) \<and> pins_in_pool km \<and> co_offloads_ok (km_coordinator km) (km_pool km)"

text \<open>Two states of one manager, the second one good\<close>

definition km_kept :: "(nat \<Rightarrow> nat) \<Rightarrow> kv_manager \<Rightarrow> kv_manager \<Rightarrow> bool" where
  "km_kept outs km km' \<longleftrightarrow> km_good outs km' \<and> num_gpu_blocks (km_pool km') = num_gpu_blocks (km_pool km)
     \<and> same_coordinator (km_coordinator km) (km_coordinator km') \<and> km_config km' = km_config km"

lemma km_kept_refl: "km_good outs km \<Longrightarrow> km_kept outs km km"
  by (simp add: km_kept_def)

lemma km_kept_trans: "km_kept outs1 km km1 \<Longrightarrow> km_kept outs km1 km2 \<Longrightarrow> km_kept outs km km2"
  using same_coordinator_trans by (auto simp: km_kept_def)

lemma km_good_bookkeeping [simp]:
  "km_good outs (km\<lparr>reserve_blocked := x\<rparr>) = km_good outs km"
  "km_good outs (km\<lparr>reserve_aged_logged := y\<rparr>) = km_good outs km"
  by (simp_all add: km_good_def km_others_def [abs_def] pins_in_pool_def)

lemma km_co_step:
  assumes good: "km_good outs km" and env: "env_ok env"
    and step: "co_step cdiv env (km_others outs km, km_coordinator km, km_pool km) (km_others outs km, c', p')"
  shows "km_kept outs km (km\<lparr>km_coordinator := c', km_pool := p'\<rparr>)"
proof -
  have g: "all_good (km_others outs km) (single_type_managers (km_coordinator km)) (km_pool km)"
    "dict_wf (partial_tail_pins km)" "co_offloads_ok (km_coordinator km) (km_pool km)" "pins_in_pool km"
    using good by (simp_all add: km_good_def)
  from co_step_good [OF step env g(1)] co_step_offloads [OF step env g(1,3)] co_step_static [OF step] g(2,4)
  show ?thesis by (simp add: km_kept_def km_good_def km_others_def [abs_def] pins_in_pool_def)
qed

lemma km_pool_same_blocks:
  assumes good: "km_good outs km" and "cache_inv p'" and "same_blocks (km_pool km) p'"
  shows "km_kept outs km (km\<lparr>km_pool := p'\<rparr>)"
proof -
  have size: "num_gpu_blocks p' = num_gpu_blocks (km_pool km)" and refs: "block_refs p' b = block_refs (km_pool km) b" for b
    using assms(3) by (simp_all add: same_blocks_def same_static_def)
  have pb: "pool_block p' = pool_block (km_pool km)" by (simp add: pool_block_def [abs_def] size)
  have ok: "pool_ok (km_pool km)" using good by (simp add: km_good_def all_good_def)
  have ok': "pool_ok p'" by (rule pool_ok_same_blocks [OF ok assms(2,3)])
  have "all_good (km_others outs km) (single_type_managers (km_coordinator km)) p'"
    using good by (intro all_good_refs [OF _ ok' pb]) (simp_all add: km_good_def refs)
  then show ?thesis
    using good by (simp add: km_kept_def km_good_def km_others_def [abs_def] co_offloads_ok_def offloads_in_pool_def
        pins_in_pool_def size)
qed

text \<open>Managers whose tables, copies and offloads stay\<close>

definition same_tables :: "manager \<Rightarrow> manager \<Rightarrow> bool" where
  "same_tables m m' \<longleftrightarrow> (\<forall>r. blocks_of m' r = blocks_of m r) \<and> dict_wf (req_to_blocks m') = dict_wf (req_to_blocks m)
     \<and> (\<forall>b. held m' b = held m b) \<and> mgr_static m' = mgr_static m
     \<and> allocated_block_reqs m' = allocated_block_reqs m \<and> num_checkpoint_blocks m' = num_checkpoint_blocks m
     \<and> set (offloads m') \<subseteq> set (offloads m)"

lemma same_tables_ok: "same_tables m m' \<Longrightarrow> manager_ok p m \<Longrightarrow> manager_ok p m'"
  by (auto simp: same_tables_def manager_ok_def tables_in_pool_def spec_blocks_kept_def align_only_def mgr_static_def)

lemma held_all_same: "list_all2 same_tables ms ms' \<Longrightarrow> held_all ms' b = held_all ms b"
  by (induction rule: list_all2_induct) (auto simp: same_tables_def)

lemma km_same_tables:
  assumes good: "km_good outs km" and same: "list_all2 same_tables (single_type_managers (km_coordinator km)) ms"
  shows "km_kept outs km (km\<lparr>km_coordinator := with_managers (km_coordinator km) ms\<rparr>)"
proof -
  have each: "\<forall>m' \<in> set ms. \<exists>m \<in> set (single_type_managers (km_coordinator km)). same_tables m m'"
    using same by (fastforce simp: list_all2_conv_all_nth in_set_conv_nth)
  have "\<forall>m' \<in> set ms. manager_ok (km_pool km) m' \<and> offloads_in_pool (km_pool km) m'"
  proof
    fix m' assume "m' \<in> set ms"
    then obtain m where m: "m \<in> set (single_type_managers (km_coordinator km))" "same_tables m m'" using each by blast
    have "manager_ok (km_pool km) m" "offloads_in_pool (km_pool km) m"
      using good m(1) by (simp_all add: km_good_def all_good_def co_offloads_ok_def)
    then show "manager_ok (km_pool km) m' \<and> offloads_in_pool (km_pool km) m'"
      using same_tables_ok [OF m(2)] offloads_in_pool_less m(2) by (auto simp: same_tables_def)
  qed
  moreover have "map mgr_static ms = map mgr_static (single_type_managers (km_coordinator km))"
    using same by (auto simp: list_all2_conv_all_nth same_tables_def intro!: nth_equalityI)
  ultimately show ?thesis
    using good held_all_same [OF same] same_coordinator_with [of ms "km_coordinator km"]
    by (auto simp: km_kept_def km_good_def all_good_def with_managers_def co_offloads_ok_def km_others_def pins_in_pool_def)
qed

text \<open>What a call reads of the managers' attributes does not change.\<close>

lemma km_kept_managers:
  "km_kept outs km km' \<Longrightarrow> map mgr_static (single_type_managers (km_coordinator km'))
     = map mgr_static (single_type_managers (km_coordinator km))"
  by (simp add: km_kept_def same_coordinator_def)

lemma km_kept_good: "km_kept outs km km' \<Longrightarrow> km_good outs km'"
  by (simp add: km_kept_def)

lemma hit_fits_static: "mgr_static m' = mgr_static m \<Longrightarrow> hit_fits cdiv tot m' bs = hit_fits cdiv tot m bs"
  by (simp add: hit_fits_def mgr_static_def get_num_skipped_tokens_def split: manager_class.splits)

lemma hits_fit_static:
  assumes "map mgr_static ms' = map mgr_static ms"
  shows "hits_fit cdiv tot ms' new_computed = hits_fit cdiv tot ms new_computed"
proof -
  have "length ms' = length ms" using assms by (rule map_eq_imp_length_eq)
  moreover have "mgr_static (ms' ! i) = mgr_static (ms ! i)" if "i < length ms" for i
    using arg_cong [OF assms, of "\<lambda>xs. xs ! i"] that calculation by simp
  then have "hit_fits cdiv tot (ms' ! i) bs = hit_fits cdiv tot (ms ! i) bs" if "i < length ms" for i bs
    using hit_fits_static that by blast
  ultimately show ?thesis by (simp add: hits_fit_def)
qed

lemma sizes_static:
  assumes "map mgr_static ms' = map mgr_static ms"
  shows "(\<forall>m \<in> set ms'. P (block_size m)) = (\<forall>m \<in> set ms. P (block_size m))"
proof -
  have "map block_size ms' = map block_size ms"
    using arg_cong [OF assms, of "map fst"] by (simp add: comp_def mgr_static_def)
  then have "list_all P (map block_size ms') = list_all P (map block_size ms)" by simp
  then show ?thesis by (simp only: list_all_iff list.set_map ball_simps)
qed

section \<open>Admission and allocation\<close>

lemma km_count_kept:
  assumes good: "km_good outs km" and env: "env_ok env"
    and run: "km_count cdiv r ntok new_computed nenc tot num_local ntok_main cap km = Inr (n, km')"
  shows "km_kept outs km km'"
proof -
  obtain c where c: "co_get_num_blocks_to_allocate cdiv r ntok new_computed nenc tot num_local ntok_main cap
      (km_coordinator km) (km_pool km) = Inr (n, c)" "km' = km\<lparr>km_coordinator := c\<rparr>"
    using run by (auto simp: km_count_def res_simps)
  from km_co_step [OF good env Co_count [OF c(1)]] show ?thesis by (simp add: c(2) km_kept_def km_good_def pins_in_pool_def)
qed

lemma admit_kept: "km_good outs km \<Longrightarrow> admit r n reserve available km = (ok, km') \<Longrightarrow> km_kept outs km km'"
  by (auto simp: admit_def note_blocked_def km_kept_def split: if_splits)

lemma full_sequence_gate_kept:
  assumes good: "km_good outs km" and env: "env_ok env"
    and run: "full_sequence_gate cdiv q new_computed nenc tot num_local wm reserve km = Inr (ok, km')"
  shows "km_kept outs km km'"
proof -
  obtain n km1 where s: "km_count cdiv (request_id (sr_request q)) (min (num_tokens (sr_request q)) (km_max_model_len km))
      new_computed nenc tot num_local (min (num_tokens (sr_request q)) (km_max_model_len km)) True km = Inr (n, km1)"
    "admit (request_id (sr_request q)) (n + wm + reserve) reserve (get_num_free_blocks (km_pool km1)) km1 = (ok, km')"
    using run by (auto simp: full_sequence_gate_def Let_def res_simps)
  from km_count_kept [OF good env s(1)] admit_kept [OF _ s(2)] show ?thesis
    using km_kept_trans km_kept_good by blast
qed

lemma required_blocks_kept:
  assumes good: "km_good outs km" and env: "env_ok env"
    and run: "required_blocks cdiv q new_computed nenc capped tot num_local need ntok_main wm reserve km = Inr (n, km')"
  shows "km_kept outs km km'"
proof -
  obtain k km1 where c: "km_count cdiv (request_id (sr_request q)) need new_computed nenc tot num_local ntok_main False km
      = Inr (k, km1)" and rest: "km' = km1 \<or> (\<exists>n f h. km_count cdiv (request_id (sr_request q)) f new_computed nenc
        capped num_local f True km1 = Inr (h, km'))"
    using run by (auto simp: required_blocks_def Let_def res_simps split: if_splits)
  have 1: "km_kept outs km km1" by (rule km_count_kept [OF good env c])
  from rest show ?thesis
  proof (elim disjE exE)
    fix f h assume "km_count cdiv (request_id (sr_request q)) f new_computed nenc capped num_local f True km1 = Inr (h, km')"
    from km_kept_trans [OF 1 km_count_kept [OF km_kept_good [OF 1] env this]] show ?thesis .
  qed (use 1 in simp)
qed

lemma lift_co_eq: "lift_co km r = Inr km' \<longleftrightarrow> (\<exists>c p. r = Inr (c, p) \<and> km' = km\<lparr>km_coordinator := c, km_pool := p\<rparr>)"
  by (auto simp: lift_co_def bind_res_eq_Inr)

lemma place_request_kept:
  assumes good: "km_good outs km" and env: "env_ok env"
    and run: "place_request cdiv env q new_computed num_local num_external need ntok_main nenc to_cache km
      = Inr (new, q', km')"
    and hits: "hits_in_pool (km_pool km) (kv_tuple (num_groups km) new_computed)"
    and fit: "num_external > 0 \<longrightarrow> hits_fit cdiv (num_local + num_external)
      (single_type_managers (km_coordinator km)) (kv_tuple (num_groups km) new_computed)"
    and size: "\<forall>m \<in> set (single_type_managers (km_coordinator km)). 0 \<le> cdiv ntok_main (block_size m)"
  shows "km_kept outs km km'"
proof -
  let ?r = "request_id (sr_request q)"
  let ?hit = "if new_computed \<noteq> EmptyBlocks \<or> num_external > 0 then
        lift_co km (allocate_new_computed_blocks cdiv env ?r (kv_tuple (num_groups km) new_computed)
          num_local num_external (km_coordinator km) (km_pool km)) else Inr km"
  obtain km1 where first: "?hit = Inr km1"
    and r1: "place_request cdiv env q new_computed num_local num_external need ntok_main nenc to_cache km
      = place_request cdiv env q EmptyBlocks num_local 0 need ntok_main nenc to_cache km1"
  proof (cases ?hit)
    case (Inr km1)
    then show ?thesis by (intro that [of km1]) (simp_all add: place_request_def Let_def)
  qed (use run in \<open>simp add: place_request_def Let_def\<close>)
  obtain bs c2 p2 where
    alloc: "co_allocate_new_blocks cdiv env ?r need ntok_main nenc (km_coordinator km1) (km_pool km1)
        = Inr (bs, c2, p2)"
    using run unfolding r1 by (auto simp: place_request_def Let_def bind_res_eq_Inr)
  have rest: "(case to_cache of None \<Rightarrow> km' = km1\<lparr>km_coordinator := c2, km_pool := p2\<rparr>
      | Some n \<Rightarrow> \<exists>q3 c3 p3. co_cache_blocks cdiv env (sr_request q) n c2 p2 = Inr (q3, c3, p3)
          \<and> km' = km1\<lparr>km_coordinator := c3, km_pool := p3\<rparr>)"
  proof (cases to_cache)
    case None
    then show ?thesis using run unfolding r1 by (simp add: place_request_def alloc)
  next
    case (Some n)
    then have "bind_res (co_cache_blocks cdiv env (sr_request q) n c2 p2) (\<lambda>(q3, c3, p3).
        Inr (create_kv_cache_blocks bs, q\<lparr>sr_request := q3\<rparr>, km1\<lparr>km_coordinator := c3, km_pool := p3\<rparr>))
        = Inr (new, q', km')"
      using run unfolding r1 by (simp add: place_request_def alloc)
    then show ?thesis by (auto simp: Some bind_res_eq_Inr)
  qed
  have 1: "km_kept outs km km1"
  proof (cases "new_computed \<noteq> EmptyBlocks \<or> num_external > 0")
    case True
    then have "lift_co km (allocate_new_computed_blocks cdiv env ?r (kv_tuple (num_groups km) new_computed)
        num_local num_external (km_coordinator km) (km_pool km)) = Inr km1" using first by simp
    then obtain c p where a: "allocate_new_computed_blocks cdiv env ?r (kv_tuple (num_groups km) new_computed)
        num_local num_external (km_coordinator km) (km_pool km) = Inr (c, p)"
      "km1 = km\<lparr>km_coordinator := c, km_pool := p\<rparr>" unfolding lift_co_eq by blast
    show ?thesis unfolding a(2) by (rule km_co_step [OF good env Co_computed [OF hits fit a(1)]])
  next
    case False
    then have "km = km1" using first by (simp only: if_False Inr_inject)
    then show ?thesis using km_kept_refl [OF good] by (simp only:)
  qed
  have "\<forall>m \<in> set (single_type_managers (km_coordinator km1)). 0 \<le> cdiv ntok_main (block_size m)"
    using size sizes_static [OF km_kept_managers [OF 1], of "\<lambda>b. 0 \<le> cdiv ntok_main b"] by (simp only:)
  from km_co_step [OF km_kept_good [OF 1] env Co_allocate [OF this alloc]]
  have 2: "km_kept outs km1 (km1\<lparr>km_coordinator := c2, km_pool := p2\<rparr>)" .
  have 3: "km_kept outs (km1\<lparr>km_coordinator := c2, km_pool := p2\<rparr>) km'"
  proof (cases to_cache)
    case None
    then show ?thesis using rest km_kept_refl [OF km_kept_good [OF 2]] by simp
  next
    case (Some n)
    then obtain q3 c3 p3 where c: "co_cache_blocks cdiv env (sr_request q) n c2 p2 = Inr (q3, c3, p3)"
      "km' = km1\<lparr>km_coordinator := c3, km_pool := p3\<rparr>" using rest by auto
    have "co_step cdiv env (km_others outs (km1\<lparr>km_coordinator := c2, km_pool := p2\<rparr>), c2, p2)
        (km_others outs (km1\<lparr>km_coordinator := c2, km_pool := p2\<rparr>), c3, p3)" by (rule Co_cache [OF c(1)])
    then show ?thesis using km_co_step [OF km_kept_good [OF 2] env, of cdiv c3 p3] by (simp add: c(2))
  qed
  show ?thesis using km_kept_trans [OF km_kept_trans [OF 1 2] 3] .
qed

text \<open>\<open>allocate_slots\<close>, whatever it answers, keeps the accounts.\<close>

definition slots_fit ::
  "(int \<Rightarrow> int \<Rightarrow> int) \<Rightarrow> sched_request \<Rightarrow> int \<Rightarrow> int \<Rightarrow> kv_blocks option \<Rightarrow> int \<Rightarrow> kv_manager \<Rightarrow> bool" where
  "slots_fit cdiv q num_new num_new_computed new_computed num_external km \<longleftrightarrow>
     (let hit = kv_tuple (num_groups km) (case new_computed of None \<Rightarrow> EmptyBlocks | Some b \<Rightarrow> b);
          ms = single_type_managers (km_coordinator km);
          num_local = sr_num_computed q + num_new_computed
      in hits_in_pool (km_pool km) hit
         \<and> (num_external > 0 \<longrightarrow> hits_fit cdiv (num_local + num_external) ms hit)
         \<and> (\<forall>m \<in> set ms. 0 \<le> cdiv (min (num_local + num_external) (km_max_model_len km) + num_new) (block_size m)))"

definition kv_constants :: "kv_manager \<Rightarrow> int \<times> bool \<times> int \<times> int \<times> kv_config" where
  "kv_constants km = (km_max_model_len km, km_enable_caching km, mamba_state_reserve km, mamba_reserve_age km,
     km_config km)"

lemma km_count_constants:
  "km_count cdiv r n nc nenc tot nl nm cap km = Inr (k, km') \<Longrightarrow> kv_constants km' = kv_constants km"
  by (auto simp: km_count_def kv_constants_def res_simps)

lemma admit_constants: "admit r n reserve available km = (ok, km') \<Longrightarrow> kv_constants km' = kv_constants km"
  by (auto simp: admit_def note_blocked_def kv_constants_def split: if_splits)

lemma full_sequence_gate_constants:
  "full_sequence_gate cdiv q nc nenc tot nl wm reserve km = Inr (ok, km') \<Longrightarrow> kv_constants km' = kv_constants km"
  by (auto simp: full_sequence_gate_def Let_def res_simps dest!: km_count_constants admit_constants)

lemma required_blocks_constants:
  "required_blocks cdiv q nc nenc capped tot nl need ntok_main wm reserve km = Inr (n, km') \<Longrightarrow>
   kv_constants km' = kv_constants km"
  by (auto simp: required_blocks_def Let_def res_simps dest!: km_count_constants split: if_splits)

lemma slots_fit_kept:
  assumes "slots_fit cdiv q num_new num_new_computed new_computed num_external km"
    and "km_kept outs km km'" and "kv_constants km' = kv_constants km"
  shows "slots_fit cdiv q num_new num_new_computed new_computed num_external km'"
proof -
  have "num_groups km' = num_groups km" "km_max_model_len km' = km_max_model_len km"
    using assms(3) by (simp_all add: kv_constants_def num_groups_def)
  moreover have "hits_in_pool (km_pool km') = hits_in_pool (km_pool km)"
    using assms(2) by (simp add: km_kept_def hits_in_pool_def [abs_def])
  moreover note hits_fit_static [OF km_kept_managers [OF assms(2)], of cdiv
      "sr_num_computed q + num_new_computed + num_external"]
    sizes_static [OF km_kept_managers [OF assms(2)], of "\<lambda>b. 0 \<le> cdiv
      (min (sr_num_computed q + num_new_computed + num_external) (km_max_model_len km) + num_new) b"]
  ultimately have "slots_fit cdiv q num_new num_new_computed new_computed num_external km'
      = slots_fit cdiv q num_new num_new_computed new_computed num_external km"
    by (simp only: slots_fit_def Let_def)
  then show ?thesis using assms(1) by (simp only:)
qed

text \<open>The two halves of \<open>allocate_slots\<close>\<close>

lemma schedule_slotsE:
  assumes "schedule_slots cdiv env q num_new computed lookahead num_local num_external delay nenc
      wm reserve first reserved km = Inr (new, q', km')"
  obtains c p required km3 ok km4 where
    "co_remove_skipped_blocks cdiv (request_id (sr_request q))
       (max 0 (min (num_local + num_external) (km_max_model_len km) - sr_num_in_flight q))
       (Some (num_prompt_tokens (sr_request q))) (km_coordinator km) (km_pool km) = Inr (c, p)"
    "required_blocks cdiv q (kv_tuple (num_groups km) computed) nenc
       (min (num_local + num_external) (km_max_model_len km)) (num_local + num_external) num_local
       (min (min (num_local + num_external) (km_max_model_len km) + num_new + lookahead) (km_max_model_len km))
       (min (num_local + num_external) (km_max_model_len km) + num_new) wm reserve
       (km\<lparr>km_coordinator := c, km_pool := p\<rparr>) = Inr (required, km3)"
    "admit (request_id (sr_request q)) required reserve (get_num_free_blocks (km_pool km3) - reserved) km3 = (ok, km4)"
    "\<not> ok \<Longrightarrow> new = None \<and> km' = km4"
    "ok \<Longrightarrow> \<exists>new5 to_cache. new = Some new5 \<and> place_request cdiv env q computed num_local num_external
       (min (min (num_local + num_external) (km_max_model_len km) + num_new + lookahead) (km_max_model_len km))
       (min (num_local + num_external) (km_max_model_len km) + num_new) nenc to_cache
       (if first then km4\<lparr>reserve_blocked := AList.delete (request_id (sr_request q)) (reserve_blocked km4)\<rparr>
        else km4) = Inr (new5, q', km')"
proof -
  let ?r = "request_id (sr_request q)"
  define total where "total = min (num_local + num_external) (km_max_model_len km)"
  define need where "need = min (total + num_new + lookahead) (km_max_model_len km)"
  define to_cache where "to_cache = (if \<not> km_enable_caching km \<or> delay then None
    else Some (min (total + num_new) (num_tokens (sr_request q))))"
  define kp where "kp km4 = (if first then km4\<lparr>reserve_blocked := AList.delete ?r (reserve_blocked km4)\<rparr> else km4)" for km4 :: kv_manager
  note run = assms [unfolded schedule_slots_def Let_def, folded total_def, folded need_def, folded to_cache_def kp_def]
  from run obtain km2 where 2: "lift_co km (co_remove_skipped_blocks cdiv ?r (max 0 (total - sr_num_in_flight q))
      (Some (num_prompt_tokens (sr_request q))) (km_coordinator km) (km_pool km)) = Inr km2"
    and rest: "bind_res (required_blocks cdiv q (kv_tuple (num_groups km) computed) nenc total
        (num_local + num_external) num_local need (total + num_new) wm reserve km2) (\<lambda>(required, km3).
      case admit ?r required reserve (get_num_free_blocks (km_pool km3) - reserved) km3 of (ok, km4) \<Rightarrow>
        if \<not> ok then Inr (None, q, km4)
        else bind_res (place_request cdiv env q computed num_local num_external need (total + num_new) nenc to_cache (kp km4))
          (\<lambda>(new, q5, km5). Inr (Some new, q5, km5))) = Inr (new, q', km')"
    unfolding bind_res_eq_Inr by blast
  from 2 obtain c p where c: "co_remove_skipped_blocks cdiv ?r (max 0 (total - sr_num_in_flight q))
      (Some (num_prompt_tokens (sr_request q))) (km_coordinator km) (km_pool km) = Inr (c, p)"
    "km2 = km\<lparr>km_coordinator := c, km_pool := p\<rparr>" unfolding lift_co_eq by blast
  from rest obtain required km3 where req: "required_blocks cdiv q (kv_tuple (num_groups km) computed) nenc total
        (num_local + num_external) num_local need (total + num_new) wm reserve km2 = Inr (required, km3)"
    by (auto simp: bind_res_eq_Inr)
  obtain ok km4 where adm: "admit ?r required reserve (get_num_free_blocks (km_pool km3) - reserved) km3 = (ok, km4)"
    by (rule prod.exhaust)
  show thesis
    by (rule that [folded total_def, folded need_def, folded kp_def, OF c(1) req [unfolded c(2)] adm])
      (use rest in \<open>auto simp: req adm bind_res_eq_Inr\<close>)
qed

lemma schedule_slots_kept:
  assumes good: "km_good outs km" and env: "env_ok env"
    and run: "schedule_slots cdiv env q num_new computed lookahead num_local num_external delay nenc
      wm reserve first reserved km = Inr (new, q', km')"
    and fit: "slots_fit cdiv q num_new (num_local - sr_num_computed q) (Some computed) num_external km"
  shows "km_kept outs km km'"
  using run
proof (rule schedule_slotsE, goal_cases)
  case (1 c p required km3 ok km4)
  let ?km2 = "km\<lparr>km_coordinator := c, km_pool := p\<rparr>"
  have 2: "km_kept outs km ?km2" by (rule km_co_step [OF good env Co_remove [OF 1(1)]])
  note 3 = required_blocks_kept [OF km_kept_good [OF 2] env 1(2)]
  have 4: "km_kept outs km km4" "kv_constants km4 = kv_constants km"
    using km_kept_trans [OF 2 km_kept_trans [OF 3 admit_kept [OF km_kept_good [OF 3] 1(3)]]]
      required_blocks_constants [OF 1(2)] admit_constants [OF 1(3)] by (simp_all add: kv_constants_def)
  show ?case
  proof (cases ok)
    case False
    then show ?thesis using 1(4) 4(1) by simp
  next
    case True
    define kp where "kp = (if first
      then km4\<lparr>reserve_blocked := AList.delete (request_id (sr_request q)) (reserve_blocked km4)\<rparr> else km4)"
    have kp: "km_kept outs km kp" "kv_constants kp = kv_constants km"
      using 4 by (simp_all add: kp_def km_kept_def kv_constants_def)
    obtain new5 to_cache where p: "place_request cdiv env q computed num_local num_external
        (min (min (num_local + num_external) (km_max_model_len km) + num_new + lookahead) (km_max_model_len km))
        (min (num_local + num_external) (km_max_model_len km) + num_new) nenc to_cache kp = Inr (new5, q', km')"
      using 1(5) [OF True, folded kp_def] by blast
    have len: "km_max_model_len kp = km_max_model_len km" using kp(2) by (simp add: kv_constants_def)
    have "slots_fit cdiv q num_new (num_local - sr_num_computed q) (Some computed) num_external kp"
      by (rule slots_fit_kept [OF fit kp])
    then have "hits_in_pool (km_pool kp) (kv_tuple (num_groups kp) computed)"
      "num_external > 0 \<longrightarrow> hits_fit cdiv (num_local + num_external)
        (single_type_managers (km_coordinator kp)) (kv_tuple (num_groups kp) computed)"
      "\<forall>m \<in> set (single_type_managers (km_coordinator kp)).
        0 \<le> cdiv (min (num_local + num_external) (km_max_model_len km) + num_new) (block_size m)"
      by (simp_all add: slots_fit_def Let_def len)
    from place_request_kept [OF km_kept_good [OF kp(1)] env p this] show ?thesis by (rule km_kept_trans [OF kp(1)])
  qed
qed

lemma allocate_slots_kept:
  assumes good: "km_good outs km" and env: "env_ok env"
    and run: "allocate_slots cdiv env q num_new num_new_computed new_computed lookahead num_external delay nenc
      must_fit reserved has_scheduled km = Inr (new, q', km')"
    and fit: "slots_fit cdiv q num_new num_new_computed new_computed num_external km"
  shows "km_kept outs km km'"
proof -
  let ?r = "request_id (sr_request q)"
  define computed where "computed = (case new_computed of None \<Rightarrow> EmptyBlocks | Some b \<Rightarrow> b)"
  define num_local where "num_local = sr_num_computed q + num_new_computed"
  define km0 where "km0 = (if reserve_aged_out km ?r
    then km\<lparr>reserve_aged_logged := insert ?r (reserve_aged_logged km)\<rparr> else km)"
  note run' = run [unfolded allocate_slots_def Let_def, folded computed_def num_local_def km0_def]
  have 0: "km_kept outs km km0" "kv_constants km0 = kv_constants km"
    using good by (simp_all add: km0_def km_kept_def kv_constants_def)
  obtain fits km1 where gate: "(if must_fit then full_sequence_gate cdiv q (kv_tuple (num_groups km) computed) nenc
        (min (num_local + num_external) (km_max_model_len km)) num_local (applied_watermark km q has_scheduled)
        (state_reserve km ?r) km0 else Inr (True, km0)) = Inr (fits, km1)"
    and rest: "(if \<not> fits then Inr (None, q, km1) else schedule_slots cdiv env q num_new computed lookahead num_local
        num_external delay nenc (applied_watermark km q has_scheduled) (state_reserve km ?r)
        (is_first_allocation ?r (km_coordinator km)) reserved km1) = Inr (new, q', km')"
    using run' by (auto simp: bind_res_eq_Inr split: if_split_asm)
  have "km_kept outs km0 km1 \<and> kv_constants km1 = kv_constants km0"
  proof (cases must_fit)
    case True
    note g = gate [unfolded if_P [OF True]]
    show ?thesis using full_sequence_gate_kept [OF km_kept_good [OF 0(1)] env g] full_sequence_gate_constants [OF g] ..
  next
    case False
    then show ?thesis using gate km_kept_refl [OF km_kept_good [OF 0(1)]] by simp
  qed
  then have 1: "km_kept outs km km1" "kv_constants km1 = kv_constants km" using km_kept_trans [OF 0(1)] 0(2) by simp_all
  show ?thesis
  proof (cases fits)
    case True
    have "slots_fit cdiv q num_new (num_local - sr_num_computed q) (Some computed) num_external km1"
      using slots_fit_kept [OF fit 1] by (simp add: slots_fit_def num_local_def computed_def)
    moreover have "schedule_slots cdiv env q num_new computed lookahead num_local
        num_external delay nenc (applied_watermark km q has_scheduled) (state_reserve km ?r)
        (is_first_allocation ?r (km_coordinator km)) reserved km1 = Inr (new, q', km')" using rest True by simp
    ultimately show ?thesis using km_kept_trans [OF 1(1)] schedule_slots_kept [OF km_kept_good [OF 1(1)] env] by blast
  qed (use rest 1(1) in simp)
qed

section \<open>Freeing\<close>

text \<open>The pinned blocks of a request go back to the pool, or to the caller.\<close>

lemma unpin_refs:
  assumes "km_good outs km"
  shows "km_others outs (km\<lparr>partial_tail_pins := AList.delete r (partial_tail_pins km)\<rparr>) b
      + count_list (dict_get (partial_tail_pins km) r []) b = km_others outs km b"
  using table_refs_delete [of "partial_tail_pins km" r b] assms by (simp add: km_others_def km_good_def)

lemma unpin_others:
  assumes "km_good outs km"
  shows "(\<lambda>b. km_others outs km b - count_list (dict_get (partial_tail_pins km) r []) b)
    = km_others outs (km\<lparr>partial_tail_pins := AList.delete r (partial_tail_pins km)\<rparr>)"
proof
  fix b show "km_others outs km b - count_list (dict_get (partial_tail_pins km) r []) b
    = km_others outs (km\<lparr>partial_tail_pins := AList.delete r (partial_tail_pins km)\<rparr>) b"
    using unpin_refs [OF assms, of r b] by simp
qed

lemma km_free_kept:
  assumes good: "km_good outs km" and env: "env_ok env" and run: "km_free r km = Inr km'"
  shows "km_kept outs km km'"
proof -
  define pins where "pins = dict_get (partial_tail_pins km) r []"
  define km1 where "km1 = km\<lparr>partial_tail_pins := AList.delete r (partial_tail_pins km)\<rparr>"
  obtain p1 where p1: "(if pins \<noteq> [] then free_blocks pins (km_pool km) else Inr (km_pool km)) = Inr p1"
    and rest: "lift_co (km1\<lparr>km_pool := p1, reserve_blocked := AList.delete r (reserve_blocked km),
        reserve_aged_logged := reserve_aged_logged km - {r}\<rparr>) (co_free r (km_coordinator km) p1) = Inr km'"
    using run by (auto simp: km_free_def Let_def bind_res_eq_Inr pins_def [symmetric] km1_def cong del: if_weak_cong)
  have pool: "pool_ok (km_pool km)" and range: "\<forall>b \<in> set pins. int b < num_gpu_blocks (km_pool km)"
    and g: "all_good (km_others outs km) (single_type_managers (km_coordinator km)) (km_pool km)"
      "co_offloads_ok (km_coordinator km) (km_pool km)"
    using good by (simp_all add: km_good_def all_good_def pins_in_pool_def pins_def)
  have fits: "\<forall>b \<in> set pins. b = 0 \<or> pool_block (km_pool km) b \<and> count_list pins b \<le> km_others outs km b"
  proof
    fix b assume "b \<in> set pins"
    then have "b = 0 \<or> pool_block (km_pool km) b" using range in_range_or_null [OF pool] by blast
    moreover have "count_list pins b \<le> km_others outs km b"
      using unpin_refs [OF good, of r b] by (simp add: pins_def)
    ultimately show "b = 0 \<or> pool_block (km_pool km) b \<and> count_list pins b \<le> km_others outs km b" by blast
  qed
  have 1: "all_good (km_others outs km1) (single_type_managers (km_coordinator km)) p1
      \<and> num_gpu_blocks p1 = num_gpu_blocks (km_pool km)"
  proof (cases "pins = []")
    case True
    then have "km_others outs km1 = km_others outs km"
      using unpin_others [OF good, of r] by (simp add: pins_def km1_def)
    moreover have "p1 = km_pool km" using p1 True by simp
    ultimately show ?thesis using g(1) by simp
  next
    case False
    then have "free_blocks pins (km_pool km) = Inr p1" using p1 by simp
    from co_step_good [OF Co_release [OF fits this] env g(1)] show ?thesis
      unfolding pins_def unpin_others [OF good] by (simp add: km1_def)
  qed
  let ?km2 = "km1\<lparr>km_pool := p1, reserve_blocked := AList.delete r (reserve_blocked km),
    reserve_aged_logged := reserve_aged_logged km - {r}\<rparr>"
  have 2: "km_kept outs km ?km2"
    using 1 g(2) good
    by (simp add: km_kept_def km_good_def km1_def km_others_def [abs_def] co_offloads_ok_def offloads_in_pool_def
        pins_in_pool_def dict_get_delete)
  obtain c p where c: "co_free r (km_coordinator km) p1 = Inr (c, p)"
    "km' = ?km2\<lparr>km_coordinator := c, km_pool := p\<rparr>" using rest unfolding lift_co_eq by blast
  have "co_free r (km_coordinator ?km2) (km_pool ?km2) = Inr (c, p)" using c(1) by (simp add: km1_def)
  from km_kept_trans [OF 2 km_co_step [OF km_kept_good [OF 2] env Co_free [OF this]]]
  show ?thesis by (simp add: c(2))
qed

lemma km_pop_kept:
  assumes good: "km_good outs km" and env: "env_ok env" and run: "km_pop_blocks_for_free r km = (bs, km')"
  shows "km_kept (\<lambda>b. outs b + count_list bs b) km km'"
proof -
  obtain xs c where pop: "co_pop_blocks_for_free r (km_coordinator km) = (xs, c)" by (rule prod.exhaust)
  have bs: "bs = dict_get (partial_tail_pins km) r [] @ xs"
    and km': "km' = km\<lparr>km_coordinator := c, partial_tail_pins := AList.delete r (partial_tail_pins km)\<rparr>"
    using run by (simp_all add: km_pop_blocks_for_free_def Let_def pop)
  have g: "all_good (km_others outs km) (single_type_managers (km_coordinator km)) (km_pool km)"
    "co_offloads_ok (km_coordinator km) (km_pool km)" using good by (simp_all add: km_good_def)
  have others: "(\<lambda>b. km_others outs km b + count_list xs b) = km_others (\<lambda>b. outs b + count_list bs b) km'"
  proof
    fix b show "km_others outs km b + count_list xs b = km_others (\<lambda>b. outs b + count_list bs b) km' b"
      using unpin_refs [OF good, of r b] by (simp add: km_others_def bs km')
  qed
  note step = Co_pop [OF pop, of cdiv env "km_others outs km" "km_pool km"]
  from co_step_good [OF step env g(1)] co_step_offloads [OF step env g(1,2)] co_step_static [OF step] good
  show ?thesis unfolding km_kept_def km_good_def others by (simp add: km' pins_in_pool_def dict_get_delete)
qed

section \<open>Calls on the pool alone\<close>

lemma emit_hit_events_keeps:
  assumes "emit_hit_events env groups computed s = Inr s'" and "cache_inv (snd s)"
  shows "cache_inv (snd s') \<and> same_blocks (snd s) (snd s')"
  using assms(1) unfolding emit_hit_events_def
proof (rule fold_res_invariant)
  show "cache_inv (snd s) \<and> same_blocks (snd s) (snd s)" using assms(2) by (simp add: same_blocks_def)
next
  fix x and t t' :: "request \<times> block_pool"
  assume "(case x of (i, bs) \<Rightarrow> \<lambda>(q, p). if bs = [] then Inr (q, p)
      else bind_res (py_index groups (int i))
        (\<lambda>g. emit_cached_block_events env q (int (length bs)) (sp_block_size (g_spec g)) (int i) p)) t = Inr t'"
  then have "snd t' = snd t \<or> (\<exists>e. snd t' = add_event e (snd t))"
    by (cases t'; cases t) (auto simp: bind_res_eq_Inr dest!: emit_cached_block_events_keeps split: prod.splits if_splits)
  then show "cache_inv (snd t) \<and> same_blocks (snd s) (snd t) \<Longrightarrow> cache_inv (snd t') \<and> same_blocks (snd s) (snd t')"
    by auto
qed

lemma take_events_keeps: "take_events p = (es, p') \<Longrightarrow> cache_inv p \<Longrightarrow> cache_inv p' \<and> same_blocks p p'"
  by (auto simp: take_events_def same_blocks_def same_static_def split: if_splits)

lemma km_reset_kept:
  assumes good: "km_good outs km" and run: "km_reset_prefix_cache km = (ok, km')"
  shows "km_kept outs km km'"
proof -
  obtain xs where "pool_inv (km_pool km) xs" using good by (auto simp: km_good_def all_good_def pool_ok_def)
  then obtain p' where p': "snd (reset_prefix_cache (km_pool km)) = p'" "pool_inv p' xs" "same_blocks (km_pool km) p'"
    using reset_prefix_cache_ok by fastforce
  have "km' = km\<lparr>km_pool := p'\<rparr>" using run p'(1) by (auto simp: km_reset_prefix_cache_def split: prod.splits)
  then show ?thesis using km_pool_same_blocks [OF good _ p'(3)] p'(2) by (simp add: pool_inv_def)
qed

lemma km_evict_kept:
  assumes good: "km_good outs km" and env: "env_ok env" and run: "km_evict_blocks env ids km = Inr km'"
    and ids: "\<forall>i \<in> set ids. 0 \<le> i \<and> i < num_gpu_blocks (km_pool km)"
  shows "km_kept outs km km'"
proof -
  have "cache_inv (km_pool km)" using good by (auto simp: km_good_def all_good_def pool_ok_def pool_inv_def)
  from evict_blocks_ok [OF this env ids] obtain p' where
    p': "evict_blocks env ids (km_pool km) = Inr p'" "cache_inv p'" "same_blocks (km_pool km) p'" by blast
  then show ?thesis using run km_pool_same_blocks [OF good p'(2,3)] by (simp add: km_evict_blocks_def)
qed

section \<open>Calls that leave the tables\<close>

lemma km_same_tables_map:
  assumes "km_good outs km" and "\<And>m. m \<in> set (single_type_managers (km_coordinator km)) \<Longrightarrow> same_tables m (f m)"
  shows "km_kept outs km (km\<lparr>km_coordinator := with_managers (km_coordinator km)
    (map f (single_type_managers (km_coordinator km)))\<rparr>)"
  by (rule km_same_tables [OF assms(1)]) (simp add: list_all2_conv_all_nth assms(2))

lemma same_tables_take_ids: "same_tables m (snd (take_new_block_ids m))"
  "same_tables m (snd (take_pending_partial_tail_offloads m))" "same_tables m m"
  "same_tables m (m\<lparr>new_block_ids := ids\<rparr>)"
  by (simp_all add: same_tables_def take_new_block_ids_def take_pending_partial_tail_offloads_def blocks_of_def
      held_def mgr_static_def)

lemma km_take_ids_kept: "km_good outs km \<Longrightarrow> km_take_new_block_ids km = (ids, km') \<Longrightarrow> km_kept outs km km'"
  using km_same_tables_map [of outs km "\<lambda>m. snd (take_new_block_ids m)"] same_tables_take_ids
  by (auto simp: km_take_new_block_ids_def Let_def)

lemma same_tables_open:
  assumes "dict_wf (req_to_blocks m)"
  shows "same_tables m (open_table r m)"
  using assms held_set_blocks [OF assms, of r "blocks_of m r"]
  by (simp add: same_tables_def static_kept offloads_kept) (simp add: open_table_def set_blocks_def)

lemma good_tables: "km_good outs km \<Longrightarrow> m \<in> set (single_type_managers (km_coordinator km)) \<Longrightarrow> dict_wf (req_to_blocks m)"
  by (simp add: km_good_def all_good_def manager_ok_def tables_in_pool_def)

lemma km_zeroing_kept:
  assumes good: "km_good outs km" and run: "get_zeroing_block_ids_in_range cdiv r a b km = (ids, km')"
  shows "km_kept outs km km'"
proof -
  have "same_tables m (if record_new_block_ids m then open_table r m else m)"
    if "m \<in> set (single_type_managers (km_coordinator km))" for m
    using same_tables_open [OF good_tables [OF good that]] same_tables_take_ids(3) by simp
  from km_same_tables_map [OF good this] show ?thesis
    using run by (auto simp: get_zeroing_block_ids_in_range_def Let_def)
qed

lemma km_record_zeroing_kept:
  assumes good: "km_good outs km" and run: "record_blocks_for_zeroing r start km = Inr km'"
  shows "km_kept outs km km'"
proof -
  define f where "f m = (if \<not> record_new_block_ids m then Inr m
    else bind_res (py_mod start (block_size m)) (\<lambda>k. if k \<noteq> 0 then Inl AssertionError
      else Inr ((open_table r m)\<lparr>new_block_ids := new_block_ids m @ drop (nat (start div block_size m)) (blocks_of m r)\<rparr>)))"
    for m
  obtain ms where ms: "map_res f (single_type_managers (km_coordinator km)) = Inr ms"
    "km' = km\<lparr>km_coordinator := with_managers (km_coordinator km) ms\<rparr>"
    using run by (auto simp: record_blocks_for_zeroing_def f_def [abs_def] bind_res_eq_Inr)
  have step: "same_tables m m'" if "f m = Inr m'" "dict_wf (req_to_blocks m)" for m m'
    using that same_tables_open [OF that(2), of r]
    by (auto simp: f_def bind_res_eq_Inr same_tables_def blocks_of_def held_def mgr_static_def split: if_splits)
  have "list_all2 same_tables xs ys" if "map_res f xs = Inr ys" "\<forall>m \<in> set xs. dict_wf (req_to_blocks m)" for xs ys
    using that by (induction xs arbitrary: ys) (auto simp: bind_res_eq_Inr intro: step)
  then show ?thesis using km_same_tables [OF good] ms good_tables [OF good] by blast
qed

section \<open>Pinned offloads\<close>

lemma pin_offload_kept:
  assumes good: "km_good outs km" and env: "env_ok env" and b: "int b < num_gpu_blocks (km_pool km)"
    and run: "pin_offload (r, gid, b, n) (offs, km) = Inr (offs', km')"
  shows "km_kept outs km km'"
proof -
  obtain p where p: "touch [b] (km_pool km) = Inr p"
    and km': "km' = km\<lparr>km_pool := p, partial_tail_pins :=
      AList.update r (dict_get (partial_tail_pins km) r [] @ [b]) (partial_tail_pins km)\<rparr>"
    using run by (auto simp: pin_offload_def Let_def bind_res_eq_Inr)
  have g: "all_good (km_others outs km) (single_type_managers (km_coordinator km)) (km_pool km)"
    "co_offloads_ok (km_coordinator km) (km_pool km)" "dict_wf (partial_tail_pins km)"
    using good by (simp_all add: km_good_def)
  have "\<forall>x \<in> set [b]. int x < num_gpu_blocks (km_pool km)" using b by simp
  note step = Co_pin [OF this p, of cdiv env "km_others outs km" "km_coordinator km"]
  have size: "num_gpu_blocks p = num_gpu_blocks (km_pool km)" by (rule touch_size [OF p])
  have others: "(\<lambda>x. km_others outs km x + count_list [b] x) = km_others outs km'"
  proof
    fix x show "km_others outs km x + count_list [b] x = km_others outs km' x"
      using table_refs_update [OF g(3), of r "dict_get (partial_tail_pins km) r [] @ [b]" x]
      by (simp add: km_others_def km' )
  qed
  from co_step_good [OF step env g(1)] co_step_offloads [OF step env g(1,2)] good b
  show ?thesis unfolding km_kept_def km_good_def others by (simp add: km' pins_in_pool_def dict_get_update size)
qed

lemma pin_offloads_kept:
  assumes "fold_res pin_offload es (offs, km) = Inr (offs', km')" and good: "km_good outs km" and env: "env_ok env"
    and es: "\<forall>(r, gid, b, n) \<in> set es. int b < num_gpu_blocks (km_pool km)"
  shows "km_kept outs km km'"
  using assms(1,2,4)
proof (induction es arbitrary: offs km)
  case Nil
  then show ?case by (simp add: km_kept_refl)
next
  case (Cons e es)
  obtain r gid b n where e: "e = (r, gid, b, n)" by (cases e)
  obtain offs1 km1 where s: "pin_offload (r, gid, b, n) (offs, km) = Inr (offs1, km1)"
    "fold_res pin_offload es (offs1, km1) = Inr (offs', km')"
    using Cons.prems(1) by (auto simp: e bind_res_eq_Inr)
  have 1: "km_kept outs km km1" using pin_offload_kept [OF Cons.prems(2) env _ s(1)] Cons.prems(3) by (simp add: e)
  then have "\<forall>(r, gid, b, n) \<in> set es. int b < num_gpu_blocks (km_pool km1)"
    using Cons.prems(3) by (auto simp: km_kept_def)
  from km_kept_trans [OF 1 Cons.IH [OF s(2) km_kept_good [OF 1] this]] show ?case .
qed

lemma take_offloads_kept:
  assumes good: "km_good outs km" and env: "env_ok env" and run: "take_partial_tail_offloads km = Inr (offs, km')"
  shows "km_kept outs km km'"
proof -
  let ?ms = "single_type_managers (km_coordinator km)"
  let ?km1 = "km\<lparr>km_coordinator := with_managers (km_coordinator km)
    (map (\<lambda>m. snd (take_pending_partial_tail_offloads m)) ?ms)\<rparr>"
  have fold: "fold_res pin_offload (concat (map (\<lambda>m. fst (take_pending_partial_tail_offloads m)) ?ms)) ([], ?km1)
      = Inr (offs, km')"
    using run by (simp add: take_partial_tail_offloads_def Let_def)
  have 1: "km_kept outs km ?km1" by (rule km_same_tables_map [OF good same_tables_take_ids(2)])
  have "\<forall>(r, gid, b, n) \<in> set (concat (map (\<lambda>m. fst (take_pending_partial_tail_offloads m)) ?ms)).
      int b < num_gpu_blocks (km_pool ?km1)"
    using good by (fastforce simp: km_good_def co_offloads_ok_def offloads_in_pool_def take_pending_partial_tail_offloads_def)
  from km_kept_trans [OF 1 pin_offloads_kept [OF fold km_kept_good [OF 1] env this]] show ?thesis .
qed

section \<open>Lookups and copies\<close>

lemma get_computed_kept:
  assumes good: "km_good outs km" and run: "get_computed_blocks cdiv env q km = Some (Inr (x, q', km'))"
  shows "km_kept outs km km'"
proof -
  have inv: "cache_inv (km_pool km)" using good by (auto simp: km_good_def all_good_def pool_ok_def pool_inv_def)
  have "km' = km \<or> (\<exists>p. km' = km\<lparr>km_pool := p\<rparr> \<and> cache_inv p \<and> same_blocks (km_pool km) p)"
    using run inv
    by (auto simp: get_computed_blocks_def bind_res_eq_Inr dest!: emit_hit_events_keeps
        split: if_splits option.splits)
  then show ?thesis using km_pool_same_blocks [OF good] km_kept_refl [OF good] by blast
qed

lemma connector_kept:
  assumes good: "km_good outs km" and run: "get_computed_blocks_for_connector cdiv env q km = Some (Inr (x, q', km'))"
  shows "km_kept outs km km'"
proof -
  have "km' = km \<or> (\<exists>y. get_computed_blocks cdiv env q km = Some (Inr (y, q', km')))"
    using run
    by (auto simp: get_computed_blocks_for_connector_def Let_def bind_res_eq_Inr split: if_splits sum.splits)
  then show ?thesis using get_computed_kept [OF good] km_kept_refl [OF good] by blast
qed

lemma count_copies: "count_list (concat (map (\<lambda>(a, b). [a, b]) cs)) x = copy_refs cs x"
  by (induction cs) (auto simp: copy_refs_def)

lemma take_copies_kept:
  assumes good: "km_good outs km" and env: "env_ok env" and run: "take_kv_cache_block_copies km = (cs, ids, km')"
  shows "km_kept (\<lambda>b. outs b + count_list ids b) km km'"
proof -
  obtain c where c: "co_take_copies (km_coordinator km) = (cs, c)" "km' = km\<lparr>km_coordinator := c\<rparr>"
    and ids: "ids = concat (map (\<lambda>(a, b). [a, b]) cs)"
    using run by (auto simp: take_kv_cache_block_copies_def split: prod.splits)
  have g: "all_good (km_others outs km) (single_type_managers (km_coordinator km)) (km_pool km)"
    "co_offloads_ok (km_coordinator km) (km_pool km)" using good by (simp_all add: km_good_def)
  have others: "(\<lambda>b. km_others outs km b + copy_refs cs b) = km_others (\<lambda>b. outs b + count_list ids b) km'"
    by (simp add: km_others_def [abs_def] ids count_copies c(2) add_ac)
  note step = Co_take_copies [OF c(1), of cdiv env "km_others outs km" "km_pool km"]
  from co_step_good [OF step env g(1)] co_step_offloads [OF step env g(1,2)] co_step_static [OF step] good
  show ?thesis unfolding km_kept_def km_good_def others by (simp add: c(2) pins_in_pool_def)
qed

section \<open>The calls of the scheduler\<close>

text \<open>
  A call on the manager, and what the scheduler holds besides: blocks handed to it with
  \<open>pop_blocks_for_free\<close> and the sources and targets of copies, until it releases them.  A hit
  that is placed lies in the pool and is no longer than the tokens that it covers.
\<close>

inductive km_step ::
  "(int \<Rightarrow> int \<Rightarrow> int) \<Rightarrow> pool_env \<Rightarrow> (nat \<Rightarrow> nat) \<times> kv_manager \<Rightarrow> (nat \<Rightarrow> nat) \<times> kv_manager \<Rightarrow> bool"
  for cdiv env where
  Km_lookup: "get_computed_blocks cdiv env q km = Some (Inr (hit, q', km')) \<Longrightarrow>
    km_step cdiv env (outs, km) (outs, km')"
| Km_connector: "get_computed_blocks_for_connector cdiv env q km = Some (Inr (found, q', km')) \<Longrightarrow>
    km_step cdiv env (outs, km) (outs, km')"
| Km_allocate: "slots_fit cdiv q num_new num_new_computed new_computed num_external km \<Longrightarrow>
    allocate_slots cdiv env q num_new num_new_computed new_computed lookahead num_external delay nenc
      must_fit reserved has_scheduled km = Inr (new, q', km') \<Longrightarrow>
    km_step cdiv env (outs, km) (outs, km')"
| Km_free: "km_free r km = Inr km' \<Longrightarrow> km_step cdiv env (outs, km) (outs, km')"
| Km_remove: "km_remove_skipped_blocks cdiv r processed prompt km = Inr km' \<Longrightarrow>
    km_step cdiv env (outs, km) (outs, km')"
| Km_pop: "km_pop_blocks_for_free r km = (bs, km') \<Longrightarrow>
    km_step cdiv env (outs, km) (\<lambda>b. outs b + count_list bs b, km')"
| Km_evict: "\<forall>i \<in> set ids. 0 \<le> i \<and> i < num_gpu_blocks (km_pool km) \<Longrightarrow>
    km_evict_blocks env ids km = Inr km' \<Longrightarrow> km_step cdiv env (outs, km) (outs, km')"
| Km_reset: "km_reset_prefix_cache km = (ok, km') \<Longrightarrow> km_step cdiv env (outs, km) (outs, km')"
| Km_common_prefix: "km_common_prefix_blocks r km = (ns, km') \<Longrightarrow> km_step cdiv env (outs, km) (outs, km')"
| Km_events: "km_take_events km = (es, km') \<Longrightarrow> km_step cdiv env (outs, km) (outs, km')"
| Km_cache: "km_cache_blocks cdiv env rq n km = Inr (rq', km') \<Longrightarrow> km_step cdiv env (outs, km) (outs, km')"
| Km_take_ids: "km_take_new_block_ids km = (ids, km') \<Longrightarrow> km_step cdiv env (outs, km) (outs, km')"
| Km_zeroing: "get_zeroing_block_ids_in_range cdiv r start end_token km = (ids, km') \<Longrightarrow>
    km_step cdiv env (outs, km) (outs, km')"
| Km_record_zeroing: "record_blocks_for_zeroing r start km = Inr km' \<Longrightarrow> km_step cdiv env (outs, km) (outs, km')"
| Km_copies: "take_kv_cache_block_copies km = (cs, ids, km') \<Longrightarrow>
    km_step cdiv env (outs, km) (\<lambda>b. outs b + count_list ids b, km')"
| Km_offloads: "take_partial_tail_offloads km = Inr (offs, km') \<Longrightarrow> km_step cdiv env (outs, km) (outs, km')"
| Km_new_step: "km_step cdiv env (outs, km) (outs, km_new_step_starts km)"
| Km_release: "\<forall>b \<in> set bs. b = 0 \<or> pool_block (km_pool km) b \<and> count_list bs b \<le> outs b \<Longrightarrow>
    free_blocks bs (km_pool km) = Inr p' \<Longrightarrow>
    km_step cdiv env (outs, km) (\<lambda>b. outs b - count_list bs b, km\<lparr>km_pool := p'\<rparr>)"

inductive_cases km_stepE: "km_step cdiv env (outs, km) (outs', km')"

lemma km_release_kept:
  assumes good: "km_good outs km" and env: "env_ok env"
    and bs: "\<forall>b \<in> set bs. b = 0 \<or> pool_block (km_pool km) b \<and> count_list bs b \<le> outs b"
    and run: "free_blocks bs (km_pool km) = Inr p'"
  shows "km_kept (\<lambda>b. outs b - count_list bs b) km (km\<lparr>km_pool := p'\<rparr>)"
proof -
  have g: "all_good (km_others outs km) (single_type_managers (km_coordinator km)) (km_pool km)"
    "co_offloads_ok (km_coordinator km) (km_pool km)" using good by (simp_all add: km_good_def)
  have "\<forall>b \<in> set bs. b = 0 \<or> pool_block (km_pool km) b \<and> count_list bs b \<le> km_others outs km b"
    using bs by (fastforce simp: km_others_def)
  note step = Co_release [OF this run, of cdiv env "km_coordinator km"]
  have size: "num_gpu_blocks p' = num_gpu_blocks (km_pool km)" by (rule free_blocks_size [OF run])
  let ?outs = "\<lambda>b. outs b - count_list bs b"
  have eq: "km_others outs km b - count_list bs b = km_others ?outs km b" if "pool_block (km_pool km) b" for b
  proof -
    have "count_list bs b \<le> outs b" using bs that by (cases "b \<in> set bs") (auto simp: pool_block_def)
    then show ?thesis by (simp add: km_others_def)
  qed
  have "pool_block p' b = pool_block (km_pool km) b" for b by (simp add: pool_block_def size)
  then have "all_good (km_others ?outs km) (single_type_managers (km_coordinator km)) p'"
    using co_step_good [OF step env g(1)] eq by (simp add: all_good_def)
  moreover have "co_offloads_ok (km_coordinator km) p'" using co_step_offloads [OF step env g(1,2)] .
  ultimately show ?thesis using good size
    by (simp add: km_kept_def km_good_def km_others_def [abs_def] pins_in_pool_def)
qed

lemma km_step_kept:
  assumes "km_step cdiv env (outs, km) (outs', km')" and env: "env_ok env" and good: "km_good outs km"
  shows "km_kept outs' km km'"
  using assms(1)
proof (elim km_stepE, goal_cases)
  case 1
  then show ?case using get_computed_kept [OF good] by blast
next
  case 2
  then show ?case using connector_kept [OF good] by blast
next
  case 3
  then show ?case using allocate_slots_kept [OF good env] by blast
next
  case 4
  then show ?case using km_free_kept [OF good env] by blast
next
  case (5 r processed prompt)
  then obtain c p where c: "co_remove_skipped_blocks cdiv r processed prompt (km_coordinator km) (km_pool km) = Inr (c, p)"
    "km' = km\<lparr>km_coordinator := c, km_pool := p\<rparr>" by (auto simp: km_remove_skipped_blocks_def lift_co_eq)
  show ?case using km_co_step [OF good env Co_remove [OF c(1)]] 5(1) c(2) by simp
next
  case 6
  then show ?case using km_pop_kept [OF good env] by simp
next
  case 7
  then show ?case using km_evict_kept [OF good env] by simp
next
  case 8
  then show ?case using km_reset_kept [OF good] by simp
next
  case (9 r ns)
  obtain c where c: "co_get_num_common_prefix_blocks r (km_coordinator km) (km_pool km) = (ns, c)"
    "km' = km\<lparr>km_coordinator := c, km_pool := km_pool km\<rparr>"
    using 9(2) by (auto simp: km_common_prefix_blocks_def split: prod.splits)
  show ?case using km_co_step [OF good env Co_common_prefix [OF c(1), of cdiv env]] 9(1) c(2) by simp
next
  case (10 es)
  have inv: "cache_inv (km_pool km)" using good by (auto simp: km_good_def all_good_def pool_ok_def pool_inv_def)
  obtain es p where e: "take_events (km_pool km) = (es, p)" by (rule prod.exhaust)
  then have "km' = km\<lparr>km_pool := p\<rparr>" using 10(2) by (simp add: km_take_events_def)
  then show ?case using 10(1) km_pool_same_blocks [OF good] take_events_keeps [OF e inv] by simp
next
  case (11 rq n rq')
  show ?case
  proof (cases "km_enable_caching km")
    case True
    then obtain c p where c: "co_cache_blocks cdiv env rq n (km_coordinator km) (km_pool km) = Inr (rq', c, p)"
      "km' = km\<lparr>km_coordinator := c, km_pool := p\<rparr>" using 11(2) by (auto simp: km_cache_blocks_def bind_res_eq_Inr)
    show ?thesis using km_co_step [OF good env Co_cache [OF c(1)]] 11(1) c(2) by simp
  qed (use 11 km_kept_refl [OF good] in \<open>simp add: km_cache_blocks_def\<close>)
next
  case 12
  then show ?case using km_take_ids_kept [OF good] by simp
next
  case 13
  then show ?case using km_zeroing_kept [OF good] by simp
next
  case 14
  then show ?case using km_record_zeroing_kept [OF good] by simp
next
  case 15
  then show ?case using take_copies_kept [OF good env] by simp
next
  case 16
  then show ?case using take_offloads_kept [OF good env] by simp
next
  case 17
  have "km_new_step_starts km = km\<lparr>km_coordinator := co_new_step_starts (km_coordinator km), km_pool := km_pool km\<rparr>"
    by (simp add: km_new_step_starts_def)
  then show ?case using 17 km_co_step [OF good env Co_new_step [of cdiv env]] by simp
next
  case 18
  then show ?case using km_release_kept [OF good env] by simp
qed

lemma km_steps_kept:
  assumes "(km_step cdiv env)\<^sup>*\<^sup>* s s'" and "env_ok env" and "km_good (fst s) (snd s)"
  shows "km_kept (fst s') (snd s) (snd s')"
  using assms(1)
proof (induction rule: rtranclp_induct)
  case base
  then show ?case using km_kept_refl [OF assms(3)] .
next
  case (step s' s'')
  have "km_step cdiv env (fst s', snd s') (fst s'', snd s'')" using step.hyps(2) by simp
  from km_kept_trans [OF step.IH km_step_kept [OF this assms(2) km_kept_good [OF step.IH]]] show ?case .
qed

lemma new_kv_manager_good:
  assumes "new_kv_manager cdiv fl meta cfg in_flight caching exempt a reserve age watermark = Inr km"
    and nn: "\<forall>g \<in> set (kc_groups cfg). 0 \<le> sp_num_speculative_blocks (g_spec g)"
  shows "km_good (\<lambda>_. 0) km"
proof -
  let ?a = "a\<lparr>a_max_in_flight := (case in_flight of None \<Rightarrow> a_max_model_len a | Some n \<Rightarrow> n)\<rparr>"
  obtain c p where c: "get_kv_cache_coordinator cdiv cfg caching exempt ?a = Inr (c, p)"
    and km: "km_coordinator km = c" "km_pool km = p" "partial_tail_pins km = []"
    using assms(1) by (auto simp: new_kv_manager_def bind_res_eq_Inr split: if_splits)
  from coordinator_fresh [OF c nn] have f: "\<forall>m \<in> set (single_type_managers c). fresh_manager m"
    "pool_init (kc_num_blocks cfg) caching (a_hash_block_size a) (a_events a) = Inr p" by simp_all
  have "km_others (\<lambda>_. 0) km = (\<lambda>_. 0)" by (simp add: km_others_def [abs_def] km table_refs_def)
  then show ?thesis
    using fresh_managers_good [OF f] f(1)
    by (simp add: km_good_def km pins_in_pool_def dict_get_def co_offloads_ok_def offloads_in_pool_def fresh_manager_def)
qed

text \<open>
  C25. No block is leaked or handed out twice, whatever the scheduler does with the manager: after
  any sequence of its calls -- lookups, allocations with their refusals, frees, evictions, resets,
  copies, offloads -- the references of every block of the pool are just those of the tables and
  pending copies of all groups, of the pinned tails and of the blocks that the scheduler still
  holds; the free blocks are those that none of them mentions; and a block that a request is told
  it owns is the null block or in use.
\<close>

theorem kv_manager_accounts_balance:
  assumes "new_kv_manager cdiv fl meta cfg in_flight caching exempt a reserve age watermark = Inr km"
    and "env_ok env" and "\<forall>g \<in> set (kc_groups cfg). 0 \<le> sp_num_speculative_blocks (g_spec g)"
    and "(km_step cdiv env)\<^sup>*\<^sup>* (\<lambda>_. 0, km) (outs, km')"
  shows "(\<forall>b. pool_block (km_pool km) b \<longrightarrow> ref_cnt (blk (km_pool km') b)
        = int (held_all (single_type_managers (km_coordinator km')) b)
          + int (table_refs (partial_tail_pins km') b) + int (outs b))
    \<and> get_num_free_blocks (km_pool km') = int (card {b. pool_block (km_pool km) b
        \<and> held_all (single_type_managers (km_coordinator km')) b = 0
        \<and> table_refs (partial_tail_pins km') b = 0 \<and> outs b = 0})
    \<and> (\<forall>bs \<in> set (km_get_block_ids r km'). \<forall>b \<in> set bs.
        b = 0 \<or> pool_block (km_pool km) b \<and> 0 < ref_cnt (blk (km_pool km') b))"
proof -
  let ?ms = "single_type_managers (km_coordinator km')"
  have kept: "km_kept outs km km'" using km_steps_kept [OF assms(4,2)] new_kv_manager_good [OF assms(1,3)] by simp
  then have g: "all_good (km_others outs km') ?ms (km_pool km')"
    and size: "num_gpu_blocks (km_pool km') = num_gpu_blocks (km_pool km)" by (simp_all add: km_kept_def km_good_def)
  have pb: "pool_block (km_pool km') = pool_block (km_pool km)" by (simp add: pool_block_def [abs_def] size)
  have ok: "pool_ok (km_pool km')" using g by (simp add: all_good_def)
  have refs: "block_refs (km_pool km') b = int (held_all ?ms b) + int (table_refs (partial_tail_pins km') b) + int (outs b)"
    if "pool_block (km_pool km) b" for b using g that by (simp add: all_good_def pb km_others_def)
  have owned: "b = 0 \<or> pool_block (km_pool km) b \<and> 0 < block_refs (km_pool km') b"
    if m: "m \<in> set ?ms" and b: "b \<in> set (blocks_of m r)" for m b
  proof -
    have "b = 0 \<or> pool_block (km_pool km) b"
      using g m b by (auto simp: all_good_def manager_ok_def tables_in_pool_def pb)
    moreover have "0 < held m b"
      using table_refs_pos [of b "req_to_blocks m" r] b by (simp add: held_def blocks_of_def)
    then have "0 < held_all ?ms b" using held_all_member [OF m, of b] by simp
    ultimately show ?thesis using refs by auto
  qed
  have "{b. pool_block (km_pool km) b \<and> held_all ?ms b = 0 \<and> table_refs (partial_tail_pins km') b = 0 \<and> outs b = 0}
      = {b. pool_block (km_pool km') b \<and> block_refs (km_pool km') b = 0}"
    using refs by (auto simp: pb)
  moreover have "\<forall>bs \<in> set (km_get_block_ids r km'). \<forall>b \<in> set bs.
      b = 0 \<or> pool_block (km_pool km) b \<and> 0 < block_refs (km_pool km') b"
    using owned by (auto simp: km_get_block_ids_def km_get_blocks_def create_kv_cache_blocks_def kv_tuple_def get_blocks_def)
  ultimately show ?thesis using refs num_free_card [OF ok] by simp
qed

definition sample_sched_request :: sched_request where
  "sample_sched_request = \<lparr>sr_request = sample_request [7, 8, 9, 4] [[1], [2]] [], sr_num_computed = 0,
     sr_num_in_flight = 0, sr_waiting_or_preempted = True, sr_skip_reading_prefix_cache = False,
     sr_full_report = False\<rparr>"

definition sample_km :: kv_manager where
  "sample_km = (case new_kv_manager sample_cdiv (\<lambda>x. x) (\<lambda>_. (''full'', None)) sample_config None True False
     sample_args 2 1 0 of Inr km \<Rightarrow> km)"

lemma sample_km_run:
  "new_kv_manager sample_cdiv (\<lambda>x. x) (\<lambda>_. (''full'', None)) sample_config None True False sample_args 2 1 0 = Inr sample_km"
proof -
  have "case new_kv_manager sample_cdiv (\<lambda>x. x) (\<lambda>_. (''full'', None)) sample_config None True False sample_args 2 1 0
    of Inr _ \<Rightarrow> True | Inl _ \<Rightarrow> False" by code_simp
  then show ?thesis by (auto simp: sample_km_def split: sum.splits)
qed

lemma sample_config_nonneg: "\<forall>g \<in> set (kc_groups sample_config). 0 \<le> sp_num_speculative_blocks (g_spec g)"
  by code_simp

abbreviation sample_slots :: "sched_request \<Rightarrow> kv_manager \<Rightarrow> (kv_blocks option \<times> sched_request \<times> kv_manager) res" where
  "sample_slots q km \<equiv> allocate_slots sample_cdiv sample_env q 4 0 None 0 0 False 0 True 0 False km"

definition sizes_fit :: "sched_request \<Rightarrow> kv_manager \<Rightarrow> bool" where
  "sizes_fit q km \<longleftrightarrow> list_all (\<lambda>m. 0 \<le> sample_cdiv (min (sr_num_computed q) (km_max_model_len km) + 4) (block_size m))
     (single_type_managers (km_coordinator km))"

lemma sizes_fit_slots: "sizes_fit q km \<Longrightarrow> slots_fit sample_cdiv q 4 0 None 0 km"
  by (simp add: sizes_fit_def slots_fit_def list_all_iff kv_tuple_def hits_in_pool_def)

definition answers ::
  "bool \<Rightarrow> (kv_blocks option \<Rightarrow> sched_request \<Rightarrow> kv_manager \<Rightarrow> bool)
     \<Rightarrow> (kv_blocks option \<times> sched_request \<times> kv_manager) res \<Rightarrow> bool" where
  "answers admitted P r = (case r of Inl _ \<Rightarrow> False | Inr (new, q, km) \<Rightarrow> (new \<noteq> None) = admitted \<and> P new q km)"

lemma answersE:
  assumes "answers admitted P r"
  obtains new q km where "r = Inr (new, q, km)" "(new \<noteq> None) = admitted" "P new q km"
  using assms by (auto simp: answers_def split: sum.splits prod.splits)

lemma sample_slots_run:
  obtains q1 km1 q2 km2 where "sample_slots sample_sched_request sample_km = Inr (None, q1, km1)"
    "sample_slots q1 km1 = Inr (Some (KvBlocks [[1, 2], [3, 4]]), q2, km2)"
    "slots_fit sample_cdiv sample_sched_request 4 0 None 0 sample_km" "slots_fit sample_cdiv q1 4 0 None 0 km1"
    "request_id (sr_request q1) = ''r''" "reserve_blocked km1 = [(''r'', 1)]" "reserve_blocked km2 = []"
proof -
  have fit: "slots_fit sample_cdiv sample_sched_request 4 0 None 0 sample_km"
    by (rule sizes_fit_slots) code_simp
  have "answers False (\<lambda>_ q km. sizes_fit q km \<and> request_id (sr_request q) = ''r'' \<and> reserve_blocked km = [(''r'', 1)] \<and>
      answers True (\<lambda>new _ km2. new = Some (KvBlocks [[1, 2], [3, 4]]) \<and> reserve_blocked km2 = []) (sample_slots q km))
      (sample_slots sample_sched_request sample_km)"
    by code_simp
  then obtain q1 km1 q2 km2 where "sample_slots sample_sched_request sample_km = Inr (None, q1, km1)"
    "sizes_fit q1 km1" "request_id (sr_request q1) = ''r''" "reserve_blocked km1 = [(''r'', 1)]"
    "sample_slots q1 km1 = Inr (Some (KvBlocks [[1, 2], [3, 4]]), q2, km2)" "reserve_blocked km2 = []"
    by (elim answersE conjE) simp
  then show thesis using that sizes_fit_slots fit by blast
qed

theorem kv_manager_accounts_balance_witness:
  "\<exists>q1 km1 q2 km2. sample_slots sample_sched_request sample_km = Inr (None, q1, km1)
    \<and> sample_slots q1 km1 = Inr (Some (KvBlocks [[1, 2], [3, 4]]), q2, km2)
    \<and> ref_cnt (blk (km_pool km2) 3) = int (held_all (single_type_managers (km_coordinator km2)) 3)
        + int (table_refs (partial_tail_pins km2) 3)"
proof -
  obtain q1 km1 q2 km2 where run: "sample_slots sample_sched_request sample_km = Inr (None, q1, km1)"
    "sample_slots q1 km1 = Inr (Some (KvBlocks [[1, 2], [3, 4]]), q2, km2)"
    and fit: "slots_fit sample_cdiv sample_sched_request 4 0 None 0 sample_km" "slots_fit sample_cdiv q1 4 0 None 0 km1"
    by (rule sample_slots_run)
  let ?step = "km_step sample_cdiv sample_env"
  have "?step (\<lambda>_. 0, sample_km) (\<lambda>_. 0, km1)" by (rule Km_allocate [OF fit(1) run(1)])
  moreover have "?step (\<lambda>_. 0, km1) (\<lambda>_. 0, km2)" by (rule Km_allocate [OF fit(2) run(2)])
  ultimately have "?step\<^sup>*\<^sup>* (\<lambda>_. 0, sample_km) (\<lambda>_. 0, km2)" by auto
  from kv_manager_accounts_balance [OF sample_km_run sample_env_ok sample_config_nonneg this]
  have refs: "\<forall>b. pool_block (km_pool sample_km) b \<longrightarrow> ref_cnt (blk (km_pool km2) b)
    = int (held_all (single_type_managers (km_coordinator km2)) b) + int (table_refs (partial_tail_pins km2) b)" by simp
  have "pool_block (km_pool sample_km) 3" by code_simp
  then show ?thesis using refs run by blast
qed

end
