(* ===== verification/KvReserve.thy ===== *)
theory KvReserve
  imports KvAccounts
begin

text \<open>
  The reserve of the KV cache manager and its escape: a refusal that only the reserve causes is
  counted, the count never passes the age, and at the age the reserve no longer applies.
\<close>

section \<open>The count of refusals\<close>

text \<open>What no call but \<open>allocate_slots\<close> and \<open>free\<close> touches\<close>

definition kv_ledger :: "kv_manager \<Rightarrow> (int \<times> bool \<times> int \<times> int \<times> kv_config) \<times> (string, int) pydict" where
  "kv_ledger km = (kv_constants km, reserve_blocked km)"

named_theorems ledger_kept "calls that leave the constants and the counts of refusals"

lemma ledger_updates [ledger_kept]:
  "kv_ledger (km\<lparr>km_coordinator := c\<rparr>) = kv_ledger km"
  "kv_ledger (km\<lparr>km_pool := p\<rparr>) = kv_ledger km"
  "kv_ledger (km\<lparr>partial_tail_pins := d\<rparr>) = kv_ledger km"
  "kv_ledger (km\<lparr>reserve_aged_logged := l\<rparr>) = kv_ledger km"
  by (simp_all add: kv_ledger_def kv_constants_def)

lemma km_count_ledger [ledger_kept]:
  "km_count cdiv r n nc nenc tot nl nm cap km = Inr (k, km') \<Longrightarrow> kv_ledger km' = kv_ledger km"
  by (auto simp: km_count_def bind_res_eq_Inr ledger_kept)

lemma lift_co_ledger [ledger_kept]: "lift_co km r = Inr km' \<Longrightarrow> kv_ledger km' = kv_ledger km"
  by (auto simp: lift_co_eq ledger_kept)

lemma required_blocks_ledger [ledger_kept]:
  "required_blocks cdiv q nc nenc capped tot nl need ntok_main wm reserve km = Inr (n, km') \<Longrightarrow>
   kv_ledger km' = kv_ledger km"
  by (auto simp: required_blocks_def Let_def bind_res_eq_Inr dest!: km_count_ledger split: if_splits)

lemma place_request_ledger [ledger_kept]:
  assumes "place_request cdiv env q nc nl ne need ntok_main nenc to_cache km = Inr (new, q', km')"
  shows "kv_ledger km' = kv_ledger km"
proof -
  have hit: "kv_ledger km1 = kv_ledger km" if "(if P then lift_co km r else Inr km) = Inr km1" for P r km1
    using that by (auto dest: lift_co_ledger split: if_splits)
  show ?thesis
    using assms by (auto simp: place_request_def Let_def bind_res_eq_Inr ledger_kept dest!: hit split: option.splits)
qed

lemma get_computed_ledger [ledger_kept]:
  "get_computed_blocks cdiv env q km = Some (Inr (x, q', km')) \<Longrightarrow> kv_ledger km' = kv_ledger km"
  by (auto simp: get_computed_blocks_def bind_res_eq_Inr ledger_kept split: if_splits option.splits)

lemma pin_offloads_ledger:
  assumes "fold_res pin_offload es s = Inr s'"
  shows "kv_ledger (snd s') = kv_ledger (snd s)"
  using assms
  by (rule fold_res_invariant)
    (auto simp: pin_offload_def Let_def bind_res_eq_Inr ledger_kept split: prod.splits)

lemma ledger_step:
  assumes "km_step cdiv env (outs, km) (outs', km')"
  shows "kv_ledger km' = kv_ledger km
    \<or> (\<exists>r. km_free r km = Inr km' \<and> kv_constants km' = kv_constants km
         \<and> reserve_blocked km' = AList.delete r (reserve_blocked km))
    \<or> (\<exists>q n nc b la ne de nenc mf rs hs new q'.
         allocate_slots cdiv env q n nc b la ne de nenc mf rs hs km = Inr (new, q', km'))"
  using assms
proof (elim km_stepE, goal_cases)
  case (2 q found q')
  then have "km' = km \<or> (\<exists>y. get_computed_blocks cdiv env q km = Some (Inr (y, q', km')))"
    by (auto simp: get_computed_blocks_for_connector_def Let_def bind_res_eq_Inr split: if_splits sum.splits)
  then show ?case by (auto dest: get_computed_ledger)
next
  case 3
  then show ?case by blast
next
  case (4 r)
  then have "kv_constants km' = kv_constants km \<and> reserve_blocked km' = AList.delete r (reserve_blocked km)"
    by (auto simp: km_free_def Let_def bind_res_eq_Inr lift_co_eq kv_constants_def)
  then show ?case using 4 by blast
next
  case 16
  then show ?case
    by (auto simp: take_partial_tail_offloads_def Let_def ledger_kept dest!: pin_offloads_ledger)
qed (auto simp: ledger_kept km_remove_skipped_blocks_def km_pop_blocks_for_free_def Let_def km_evict_blocks_def
    km_reset_prefix_cache_def km_common_prefix_blocks_def km_take_events_def km_cache_blocks_def
    km_take_new_block_ids_def get_zeroing_block_ids_in_range_def record_blocks_for_zeroing_def
    take_kv_cache_block_copies_def km_new_step_starts_def bind_res_eq_Inr dest: get_computed_ledger lift_co_ledger
    split: prod.splits if_splits)

text \<open>The ways in which \<open>allocate_slots\<close> answers\<close>

lemma allocate_slotsE:
  assumes run: "allocate_slots cdiv env q num_new num_new_computed new_computed lookahead num_external delay nenc
      must_fit reserved has_scheduled km = Inr (new, q', km')"
  obtains n km1 where "kv_ledger km1 = kv_ledger km" "new = None"
      "admit (request_id (sr_request q)) n (state_reserve km (request_id (sr_request q)))
         (get_num_free_blocks (km_pool km1)) km1 = (False, km')"
  | km1 computed num_local where "kv_ledger km1 = kv_ledger km"
      "schedule_slots cdiv env q num_new computed lookahead num_local num_external delay nenc
         (applied_watermark km q has_scheduled) (state_reserve km (request_id (sr_request q)))
         (is_first_allocation (request_id (sr_request q)) (km_coordinator km)) reserved km1 = Inr (new, q', km')"
proof -
  let ?r = "request_id (sr_request q)"
  define computed where "computed = (case new_computed of None \<Rightarrow> EmptyBlocks | Some b \<Rightarrow> b)"
  define num_local where "num_local = sr_num_computed q + num_new_computed"
  define km0 where "km0 = (if reserve_aged_out km ?r
    then km\<lparr>reserve_aged_logged := insert ?r (reserve_aged_logged km)\<rparr> else km)"
  have 0: "kv_ledger km0 = kv_ledger km" by (simp add: km0_def ledger_kept)
  note run' = run [unfolded allocate_slots_def Let_def, folded computed_def num_local_def km0_def]
  obtain fits km1 where gate: "(if must_fit then full_sequence_gate cdiv q (kv_tuple (num_groups km) computed) nenc
        (min (num_local + num_external) (km_max_model_len km)) num_local (applied_watermark km q has_scheduled)
        (state_reserve km ?r) km0 else Inr (True, km0)) = Inr (fits, km1)"
    and rest: "(if \<not> fits then Inr (None, q, km1) else schedule_slots cdiv env q num_new computed lookahead num_local
        num_external delay nenc (applied_watermark km q has_scheduled) (state_reserve km ?r)
        (is_first_allocation ?r (km_coordinator km)) reserved km1) = Inr (new, q', km')"
    using run' by (auto simp: bind_res_eq_Inr split: if_split_asm)
  have "fits \<and> kv_ledger km1 = kv_ledger km \<or> (\<exists>n k. kv_ledger k = kv_ledger km
      \<and> admit ?r n (state_reserve km ?r) (get_num_free_blocks (km_pool k)) k = (fits, km1))"
  proof (cases must_fit)
    case True
    then obtain n k where "km_count cdiv ?r (min (num_tokens (sr_request q)) (km_max_model_len km0))
        (kv_tuple (num_groups km) computed) nenc (min (num_local + num_external) (km_max_model_len km)) num_local
        (min (num_tokens (sr_request q)) (km_max_model_len km0)) True km0 = Inr (n, k)"
      "admit ?r (n + applied_watermark km q has_scheduled + state_reserve km ?r) (state_reserve km ?r)
        (get_num_free_blocks (km_pool k)) k = (fits, km1)"
      using gate by (auto simp: full_sequence_gate_def Let_def bind_res_eq_Inr)
    then show ?thesis using km_count_ledger 0 by metis
  qed (use gate 0 in simp)
  then show thesis
  proof (elim disjE exE conjE)
    assume "fits" "kv_ledger km1 = kv_ledger km"
    then show thesis using that(2) [of km1] rest by simp
  next
    fix n k assume k: "kv_ledger k = kv_ledger km"
      "admit ?r n (state_reserve km ?r) (get_num_free_blocks (km_pool k)) k = (fits, km1)"
    show thesis
    proof (cases fits)
      case True
      then have "km1 = k" using k(2) by (auto simp: admit_def split: if_splits)
      then show thesis using that(2) [of km1] rest k(1) True by simp
    next
      case False
      then show thesis using that(1) [of k n] rest k by simp
    qed
  qed
qed

lemma admit_counts:
  assumes "admit r n reserve available km = (ok, km')"
  shows "kv_constants km' = kv_constants km
    \<and> (reserve_blocked km' = reserve_blocked km
       \<or> \<not> ok \<and> reserve \<noteq> 0 \<and> reserve_blocked km' = AList.update r (blocked_attempts km r + 1) (reserve_blocked km))"
  using assms by (auto simp: admit_def note_blocked_def kv_constants_def split: if_splits)

lemma ledger_same:
  "kv_ledger km' = kv_ledger km \<Longrightarrow> kv_constants km' = kv_constants km \<and> reserve_blocked km' = reserve_blocked km"
  by (simp add: kv_ledger_def)

lemma blocked_attempts_cong: "reserve_blocked km' = reserve_blocked km \<Longrightarrow> blocked_attempts km' = blocked_attempts km"
  by (simp add: blocked_attempts_def [abs_def])

lemma schedule_slots_counts:
  assumes "schedule_slots cdiv env q num_new computed lookahead num_local num_external delay nenc
      wm reserve first reserved km = Inr (new, q', km')"
  shows "kv_constants km' = kv_constants km
    \<and> (reserve_blocked km' = reserve_blocked km
       \<or> new \<noteq> None \<and> reserve_blocked km' = AList.delete (request_id (sr_request q)) (reserve_blocked km)
       \<or> new = None \<and> reserve \<noteq> 0 \<and> reserve_blocked km' = AList.update (request_id (sr_request q))
            (blocked_attempts km (request_id (sr_request q)) + 1) (reserve_blocked km))"
  using assms
proof (rule schedule_slotsE, goal_cases)
  case (1 c p required km3 ok km4)
  have "kv_ledger km3 = kv_ledger km" using required_blocks_ledger [OF 1(2)] by (simp add: ledger_kept)
  note 3 = ledger_same [OF this]
  note 4 = admit_counts [OF 1(3)]
  show ?case
  proof (cases ok)
    case True
    then obtain new5 to_cache where "new = Some new5" and place: "place_request cdiv env q computed num_local num_external
        (min (min (num_local + num_external) (km_max_model_len km) + num_new + lookahead) (km_max_model_len km))
        (min (num_local + num_external) (km_max_model_len km) + num_new) nenc to_cache
        (if first then km4\<lparr>reserve_blocked := AList.delete (request_id (sr_request q)) (reserve_blocked km4)\<rparr>
         else km4) = Inr (new5, q', km')" using 1(5) by blast
    from ledger_same [OF place_request_ledger [OF place]] show ?thesis
      using 3 4 True \<open>new = Some new5\<close> by (simp add: kv_constants_def)
  next
    case False
    then show ?thesis using 1(4) 3 4 blocked_attempts_cong [of km3 km] by auto
  qed
qed

lemma allocate_slots_counts:
  assumes "allocate_slots cdiv env q num_new num_new_computed new_computed lookahead num_external delay nenc
      must_fit reserved has_scheduled km = Inr (new, q', km')"
  defines "r \<equiv> request_id (sr_request q)"
  shows "kv_constants km' = kv_constants km
    \<and> (reserve_blocked km' = reserve_blocked km
       \<or> new \<noteq> None \<and> reserve_blocked km' = AList.delete r (reserve_blocked km)
       \<or> new = None \<and> state_reserve km r \<noteq> 0
         \<and> reserve_blocked km' = AList.update r (blocked_attempts km r + 1) (reserve_blocked km))"
  using assms(1)
proof (cases rule: allocate_slotsE)
  case (1 n km1)
  show ?thesis using ledger_same [OF 1(1)] admit_counts [OF 1(3)] 1(2) blocked_attempts_cong [of km1 km] by (auto simp: r_def)
next
  case (2 km1 computed num_local)
  show ?thesis using ledger_same [OF 2(1)] schedule_slots_counts [OF 2(2)] blocked_attempts_cong [of km1 km] by (auto simp: r_def)
qed

definition counts_within_age :: "kv_manager \<Rightarrow> bool" where
  "counts_within_age km \<longleftrightarrow> (\<forall>r. 0 \<le> blocked_attempts km r
     \<and> (mamba_reserve_age km \<noteq> 0 \<longrightarrow> blocked_attempts km r \<le> mamba_reserve_age km)) \<and> 0 \<le> mamba_reserve_age km"

lemma allocate_slots_within_age:
  assumes "allocate_slots cdiv env q num_new num_new_computed new_computed lookahead num_external delay nenc
      must_fit reserved has_scheduled km = Inr (new, q', km')" and "counts_within_age km"
  shows "counts_within_age km'"
proof -
  let ?r = "request_id (sr_request q)"
  note counts = allocate_slots_counts [OF assms(1)]
  have age: "mamba_reserve_age km' = mamba_reserve_age km" using counts by (simp add: kv_constants_def)
  have "state_reserve km ?r \<noteq> 0 \<Longrightarrow> mamba_reserve_age km \<noteq> 0 \<Longrightarrow> blocked_attempts km ?r < mamba_reserve_age km"
    by (auto simp: state_reserve_def reserve_aged_out_def split: if_splits)
  then show ?thesis
    using counts assms(2) age by (auto simp: counts_within_age_def blocked_attempts_def dict_get_update dict_get_delete)
qed

lemma steps_within_age:
  assumes "(km_step cdiv env)\<^sup>*\<^sup>* s s'" and "counts_within_age (snd s)"
  shows "counts_within_age (snd s') \<and> kv_constants (snd s') = kv_constants (snd s)"
  using assms(1)
proof (induction rule: rtranclp_induct)
  case base
  then show ?case using assms(2) by simp
next
  case (step s1 s2)
  have "km_step cdiv env (fst s1, snd s1) (fst s2, snd s2)" using step.hyps(2) by simp
  from ledger_step [OF this] show ?case
  proof (elim disjE exE conjE)
    assume "kv_ledger (snd s2) = kv_ledger (snd s1)"
    from ledger_same [OF this] show ?thesis
      using step.IH by (auto simp: counts_within_age_def blocked_attempts_def kv_constants_def)
  next
    fix r assume "km_free r (snd s1) = Inr (snd s2)" "kv_constants (snd s2) = kv_constants (snd s1)"
      "reserve_blocked (snd s2) = AList.delete r (reserve_blocked (snd s1))"
    then show ?thesis
      using step.IH by (auto simp: counts_within_age_def blocked_attempts_def kv_constants_def dict_get_delete)
  next
    fix q n nc b la ne de nenc mf rs hs new q'
    assume a: "allocate_slots cdiv env q n nc b la ne de nenc mf rs hs (snd s1) = Inr (new, q', snd s2)"
    show ?thesis using allocate_slots_within_age [OF a] allocate_slots_counts [OF a] step.IH by simp
  qed
qed

section \<open>The manager without its reserve\<close>

definition without_reserve :: "kv_manager \<Rightarrow> kv_manager" where
  "without_reserve km = km\<lparr>mamba_state_reserve := 0, reserve_aged_logged := {}\<rparr>"

definition on_state :: "(kv_manager \<Rightarrow> kv_manager) \<Rightarrow> ('a \<times> 'b \<times> kv_manager) res \<Rightarrow> ('a \<times> 'b \<times> kv_manager) res" where
  "on_state f r = bind_res r (\<lambda>(x, y, km). Inr (x, y, f km))"

lemma without_reserve_fields [simp]:
  "km_coordinator (without_reserve km) = km_coordinator km" "km_pool (without_reserve km) = km_pool km"
  "km_max_model_len (without_reserve km) = km_max_model_len km" "num_groups (without_reserve km) = num_groups km"
  "km_enable_caching (without_reserve km) = km_enable_caching km"
  "reserve_blocked (without_reserve km) = reserve_blocked km"
  "without_reserve km\<lparr>km_coordinator := c\<rparr> = without_reserve (km\<lparr>km_coordinator := c\<rparr>)"
  "without_reserve km\<lparr>km_pool := p\<rparr> = without_reserve (km\<lparr>km_pool := p\<rparr>)"
  "without_reserve km\<lparr>reserve_blocked := d\<rparr> = without_reserve (km\<lparr>reserve_blocked := d\<rparr>)"
  "without_reserve (km\<lparr>reserve_aged_logged := l\<rparr>) = without_reserve km"
  "state_reserve (without_reserve km) r = 0" "\<not> reserve_aged_out (without_reserve km) r"
  "applied_watermark (without_reserve km) q hs = applied_watermark km q hs"
  by (simp_all add: without_reserve_def num_groups_def state_reserve_def reserve_aged_out_def applied_watermark_def)

lemma bind_res_case: "bind_res r f = (case r of Inl e \<Rightarrow> Inl e | Inr x \<Rightarrow> f x)"
  by (cases r) simp_all

lemma km_count_without:
  "km_count cdiv r n nc nenc tot nl nm cap (without_reserve km)
     = bind_res (km_count cdiv r n nc nenc tot nl nm cap km) (\<lambda>(k, km1). Inr (k, without_reserve km1))"
  by (simp add: km_count_def bind_res_case split: sum.splits prod.splits)

lemma lift_co_without: "lift_co (without_reserve km) r = bind_res (lift_co km r) (\<lambda>km1. Inr (without_reserve km1))"
  by (simp add: lift_co_def bind_res_case split: sum.splits prod.splits)

lemma admit_without: "admit r n 0 a (without_reserve km) = map_prod id without_reserve (admit r n 0 a km)"
  by (simp add: admit_def)

lemma full_gate_without:
  "full_sequence_gate cdiv q nc nenc tot nl wm 0 (without_reserve km)
     = bind_res (full_sequence_gate cdiv q nc nenc tot nl wm 0 km) (\<lambda>(ok, km1). Inr (ok, without_reserve km1))"
  by (simp add: full_sequence_gate_def Let_def km_count_without admit_without bind_res_case map_prod_def
      split: sum.splits prod.splits)

lemma required_blocks_without:
  "required_blocks cdiv q nc nenc capped tot nl need nm wm 0 (without_reserve km)
     = bind_res (required_blocks cdiv q nc nenc capped tot nl need nm wm 0 km) (\<lambda>(n, km1). Inr (n, without_reserve km1))"
  by (simp add: required_blocks_def Let_def km_count_without bind_res_case split: sum.splits prod.splits)

lemma place_request_without:
  "place_request cdiv env q nc nl ne need nm nenc to_cache (without_reserve km)
     = on_state without_reserve (place_request cdiv env q nc nl ne need nm nenc to_cache km)"
  by (simp add: place_request_def Let_def lift_co_without on_state_def bind_res_case
      split: sum.splits prod.splits option.splits)

lemma on_state_simps [simp]: "on_state f (Inl e) = Inl e" "on_state f (Inr (x, y, km)) = Inr (x, y, f km)"
  by (simp_all add: on_state_def)

lemma on_state_bind: "on_state f (bind_res r g) = bind_res r (\<lambda>x. on_state f (g x))"
  by (cases r) (simp_all add: on_state_def)

lemma bind_res_assoc: "bind_res (bind_res r f) g = bind_res r (\<lambda>x. bind_res (f x) g)"
  by (cases r) simp_all

lemma bind_on_state:
  "bind_res (on_state f r) (\<lambda>(b, q, km). Inr (g b, q, km))
     = on_state f (bind_res r (\<lambda>(b, q, km). Inr (g b, q, km)))"
  by (cases r) (auto simp: on_state_def)

lemma schedule_slots_without:
  "schedule_slots cdiv env q num_new computed lookahead num_local num_external delay nenc wm 0 first reserved
       (without_reserve km)
     = on_state without_reserve
         (schedule_slots cdiv env q num_new computed lookahead num_local num_external delay nenc wm 0 first reserved km)"
proof -
  have first: "(if P then without_reserve k else without_reserve k') = without_reserve (if P then k else k')" for P k k'
    by simp
  define cont where "cont required km3 =
    (case admit (request_id (sr_request q)) required 0 (get_num_free_blocks (km_pool km3) - reserved) km3 of (ok, km4) \<Rightarrow>
       if \<not> ok then Inr (None, q, km4)
       else bind_res (place_request cdiv env q computed num_local num_external
              (min (min (num_local + num_external) (km_max_model_len km) + num_new + lookahead) (km_max_model_len km))
              (min (num_local + num_external) (km_max_model_len km) + num_new) nenc
              (if \<not> km_enable_caching km \<or> delay then None
               else Some (min (min (num_local + num_external) (km_max_model_len km) + num_new) (num_tokens (sr_request q))))
              (if first then km4\<lparr>reserve_blocked := AList.delete (request_id (sr_request q)) (reserve_blocked km4)\<rparr>
               else km4)) (\<lambda>(new, q5, km5). Inr (Some new, q5, km5)))" for required and km3 :: kv_manager
  have cont: "cont n (without_reserve km3) = on_state without_reserve (cont n km3)" for n km3
  proof (cases "fst (admit (request_id (sr_request q)) n 0 (get_num_free_blocks (km_pool km3) - reserved) km3)")
    case True
    then show ?thesis
      by (simp only: cont_def case_prod_beta admit_without fst_map_prod snd_map_prod id_apply first
          without_reserve_fields place_request_without bind_on_state not_True_eq_False if_False)
  qed (simp add: cont_def case_prod_beta admit_without)
  define skip where "skip = co_remove_skipped_blocks cdiv (request_id (sr_request q))
    (max 0 (min (num_local + num_external) (km_max_model_len km) - sr_num_in_flight q))
    (Some (num_prompt_tokens (sr_request q))) (km_coordinator km) (km_pool km)"
  define count where "count = required_blocks cdiv q (kv_tuple (num_groups km) computed) nenc
    (min (num_local + num_external) (km_max_model_len km)) (num_local + num_external) num_local
    (min (min (num_local + num_external) (km_max_model_len km) + num_new + lookahead) (km_max_model_len km))
    (min (num_local + num_external) (km_max_model_len km) + num_new) wm 0"
  have eq: "schedule_slots cdiv env q num_new computed lookahead num_local num_external delay nenc wm 0 first reserved k
      = bind_res (lift_co k skip) (\<lambda>km2. bind_res (count km2) (\<lambda>(n, km3). cont n km3))"
    if "k = km \<or> k = without_reserve km" for k
  proof -
    have "km_max_model_len k = km_max_model_len km" "num_groups k = num_groups km" "km_coordinator k = km_coordinator km"
      "km_pool k = km_pool km" "km_enable_caching k = km_enable_caching km" using that by auto
    then show ?thesis by (simp only: schedule_slots_def Let_def cont_def skip_def count_def)
  qed
  show ?thesis
    unfolding eq [OF disjI1 [OF refl]] eq [OF disjI2 [OF refl]] lift_co_without
    by (cases skip) (auto simp: lift_co_def count_def required_blocks_without on_state_bind bind_res_assoc
        case_prod_beta cont)
qed

lemma allocate_slots_without:
  assumes none: "state_reserve km (request_id (sr_request q)) = 0"
  shows "allocate_slots cdiv env q num_new num_new_computed new_computed lookahead num_external delay nenc
      must_fit reserved has_scheduled (without_reserve km)
    = on_state without_reserve (allocate_slots cdiv env q num_new num_new_computed new_computed lookahead num_external
        delay nenc must_fit reserved has_scheduled km)"
proof -
  let ?r = "request_id (sr_request q)"
  define computed where "computed = (case new_computed of None \<Rightarrow> EmptyBlocks | Some b \<Rightarrow> b)"
  define num_local where "num_local = sr_num_computed q + num_new_computed"
  define km0 where "km0 = (if reserve_aged_out km ?r
    then km\<lparr>reserve_aged_logged := insert ?r (reserve_aged_logged km)\<rparr> else km)"
  define gate where "gate k = (if must_fit then full_sequence_gate cdiv q (kv_tuple (num_groups km) computed) nenc
    (min (num_local + num_external) (km_max_model_len km)) num_local (applied_watermark km q has_scheduled) 0 k
    else Inr (True, k))" for k
  have km0: "without_reserve km = without_reserve km0" by (simp add: km0_def)
  have g: "gate (without_reserve km) = bind_res (gate km0) (\<lambda>(ok, k). Inr (ok, without_reserve k))"
    unfolding km0 by (simp add: gate_def full_gate_without)
  show ?thesis
    unfolding allocate_slots_def Let_def computed_def [symmetric] num_local_def [symmetric] km0_def [symmetric] none
      without_reserve_fields if_False gate_def [symmetric]
    by (cases "gate km0") (auto simp: g schedule_slots_without)
qed

lemma new_kv_manager_counts:
  assumes "new_kv_manager cdiv fl meta cfg in_flight caching exempt a reserve age watermark = Inr km"
  shows "counts_within_age km \<and> mamba_reserve_age km = max 0 age"
  using assms
  by (auto simp: new_kv_manager_def bind_res_eq_Inr counts_within_age_def blocked_attempts_def dict_get_def split: if_splits)

section \<open>Refusals that only the reserve causes\<close>

text \<open>
  Blocked solely by the reserve: the blocks asked for are free, but not with the reserve on top.
  What is asked for is the count for the whole sequence, at the gate of a call that must fit, and
  afterwards the larger of the count for this step and the one for the whole sequence, in what
  the other requests leave.
\<close>

definition short_by_reserve :: "int \<Rightarrow> int \<Rightarrow> int \<Rightarrow> bool" where
  "short_by_reserve demand reserve free \<longleftrightarrow> demand \<le> free \<and> free < demand + reserve"

definition refused_for_reserve ::
  "(int \<Rightarrow> int \<Rightarrow> int) \<Rightarrow> sched_request \<Rightarrow> int \<Rightarrow> int \<Rightarrow> kv_blocks option \<Rightarrow> int \<Rightarrow> int \<Rightarrow> int
     \<Rightarrow> bool \<Rightarrow> int \<Rightarrow> bool \<Rightarrow> kv_manager \<Rightarrow> bool" where
  "refused_for_reserve cdiv q num_new num_new_computed new_computed lookahead num_external nenc
       must_fit reserved has_scheduled km \<longleftrightarrow>
     (let r = request_id (sr_request q);
          computed = kv_tuple (num_groups km) (case new_computed of None \<Rightarrow> EmptyBlocks | Some b \<Rightarrow> b);
          num_local = sr_num_computed q + num_new_computed;
          total = min (num_local + num_external) (km_max_model_len km);
          need = min (total + num_new + lookahead) (km_max_model_len km);
          full = min (num_tokens (sr_request q)) (km_max_model_len km);
          wm = applied_watermark km q has_scheduled; reserve = state_reserve km r;
          whole = km_count cdiv r full computed nenc total num_local full True
      in reserve \<noteq> 0 \<and>
         (must_fit \<and> (\<exists>n k. whole km = Inr (n, k)
            \<and> short_by_reserve (n + wm) reserve (get_num_free_blocks (km_pool k)))
          \<or> (\<exists>k k2 n k3 honest k4.
               (if must_fit then \<exists>n0. whole km = Inr (n0, k) \<and> n0 + wm + reserve \<le> get_num_free_blocks (km_pool k)
                else k = km)
               \<and> lift_co k (co_remove_skipped_blocks cdiv r (max 0 (total - sr_num_in_flight q))
                    (Some (num_prompt_tokens (sr_request q))) (km_coordinator k) (km_pool k)) = Inr k2
               \<and> km_count cdiv r need computed nenc (num_local + num_external) num_local (total + num_new) False k2
                    = Inr (n, k3)
               \<and> whole k3 = Inr (honest, k4)
               \<and> short_by_reserve (max n honest + wm) reserve (get_num_free_blocks (km_pool k4) - reserved))))"

lemma refusal_is_counted:
  assumes "refused_for_reserve cdiv q num_new num_new_computed new_computed lookahead num_external nenc
      must_fit reserved has_scheduled km"
    and "allocate_slots cdiv env q num_new num_new_computed new_computed lookahead num_external delay nenc
      must_fit reserved has_scheduled km = Inr (new, q', km')"
  defines "r \<equiv> request_id (sr_request q)"
  shows "new = None \<and> kv_constants km' = kv_constants km
    \<and> reserve_blocked km' = AList.update r (blocked_attempts km r + 1) (reserve_blocked km)"
proof -
  let ?computed = "kv_tuple (num_groups km) (case new_computed of None \<Rightarrow> EmptyBlocks | Some b \<Rightarrow> b)"
  define num_local where "num_local = sr_num_computed q + num_new_computed"
  define total where "total = min (num_local + num_external) (km_max_model_len km)"
  define need where "need = min (total + num_new + lookahead) (km_max_model_len km)"
  define full where "full = min (num_tokens (sr_request q)) (km_max_model_len km)"
  define wm where "wm = applied_watermark km q has_scheduled"
  define reserve where "reserve = state_reserve km r"
  define whole where "whole = km_count cdiv r full ?computed nenc total num_local full True"
  note refused = assms(1) [unfolded refused_for_reserve_def Let_def, folded r_def num_local_def, folded total_def full_def,
    folded need_def wm_def reserve_def whole_def]
  have aged: "\<not> reserve_aged_out km r" using refused by (auto simp: reserve_def state_reserve_def split: if_splits)
  have count: "km_max_model_len k = km_max_model_len km \<and> num_groups k = num_groups km
      \<and> kv_constants k = kv_constants km \<and> reserve_blocked k = reserve_blocked km" if "whole km = Inr (n, k)" for n k
    using that ledger_same [OF km_count_ledger [OF that [unfolded whole_def]]]
    by (auto simp: whole_def km_count_def bind_res_eq_Inr num_groups_def)
  have gate: "full_sequence_gate cdiv q ?computed nenc total num_local wm reserve km =
      Inr (admit r (n + wm + reserve) reserve (get_num_free_blocks (km_pool k)) k)" if "whole km = Inr (n, k)" for n k
    using that by (simp add: full_sequence_gate_def Let_def r_def [symmetric] full_def [symmetric] whole_def)
  note run = assms(2) [unfolded allocate_slots_def Let_def, folded r_def num_local_def, folded total_def wm_def reserve_def]
  have counted: "new = None \<and> kv_constants km' = kv_constants km
      \<and> reserve_blocked km' = AList.update r (blocked_attempts km r + 1) (reserve_blocked km)"
    if "new = None" "km' = note_blocked r k" "kv_constants k = kv_constants km" "reserve_blocked k = reserve_blocked km" for k
    using that blocked_attempts_cong [OF that(4)] by (simp add: note_blocked_def kv_constants_def)
  have short: "admit r (n + reserve) reserve free k = (False, note_blocked r k)" if "short_by_reserve n reserve free" for n free k
    using that refused by (simp add: admit_def short_by_reserve_def)
  from refused show ?thesis
  proof (elim conjE disjE exE)
    fix n k assume must_fit and k: "whole km = Inr (n, k)" "short_by_reserve (n + wm) reserve (get_num_free_blocks (km_pool k))"
    then have "new = None" "km' = note_blocked r k"
      using run aged gate [OF k(1)] short [OF k(2), of k] by (auto split: if_splits)
    then show ?thesis using counted count [OF k(1)] by blast
  next
    fix k k2 n k3 honest k4
    assume fits: "if must_fit then \<exists>n0. whole km = Inr (n0, k) \<and> n0 + wm + reserve \<le> get_num_free_blocks (km_pool k) else k = km"
      and skip: "lift_co k (co_remove_skipped_blocks cdiv r (max 0 (total - sr_num_in_flight q))
        (Some (num_prompt_tokens (sr_request q))) (km_coordinator k) (km_pool k)) = Inr k2"
      and n: "km_count cdiv r need ?computed nenc (num_local + num_external) num_local (total + num_new) False k2 = Inr (n, k3)"
      and honest: "whole k3 = Inr (honest, k4)"
      and less: "short_by_reserve (max n honest + wm) reserve (get_num_free_blocks (km_pool k4) - reserved)"
    have k: "km_max_model_len k = km_max_model_len km \<and> num_groups k = num_groups km
        \<and> kv_constants k = kv_constants km \<and> reserve_blocked k = reserve_blocked km"
      using fits count by (cases must_fit) auto
    have k2: "km_max_model_len k2 = km_max_model_len km" using skip k by (auto simp: lift_co_eq)
    have req: "required_blocks cdiv q ?computed nenc total (num_local + num_external) num_local need (total + num_new)
        wm reserve k2 = Inr (max n honest + wm + reserve, k4)"
      using refused n honest
      by (simp add: required_blocks_def Let_def r_def [symmetric] k2 full_def [symmetric] whole_def)
    have "schedule_slots cdiv env q num_new (case new_computed of None \<Rightarrow> EmptyBlocks | Some b \<Rightarrow> b) lookahead num_local
        num_external delay nenc wm reserve first reserved k = Inr (None, q, note_blocked r k4)" for first
      using k skip req short [OF less, of k4]
      by (simp add: schedule_slots_def Let_def r_def [symmetric] total_def [symmetric] need_def [symmetric])
    then have "new = None" "km' = note_blocked r k4"
      using run aged fits gate by (auto simp: admit_def split: if_splits)
    moreover have "kv_ledger k4 = kv_ledger k"
      using km_count_ledger [OF n] km_count_ledger [OF honest [unfolded whole_def]] lift_co_ledger [OF skip] by simp
    ultimately show ?thesis using counted [of k4] ledger_same [of k4 k] k by simp
  qed
qed


text \<open>
  The calls of the scheduler, with the number of refusals of request \<open>r\<close> for the reserve alone in
  the last calls: a count starts at any call, goes up at such a refusal, and goes on over all other
  calls but an admission of \<open>r\<close> or the freeing of \<open>r\<close>.
\<close>

definition settles :: "(int \<Rightarrow> int \<Rightarrow> int) \<Rightarrow> pool_env \<Rightarrow> string \<Rightarrow> kv_manager \<Rightarrow> kv_manager \<Rightarrow> bool" where
  "settles cdiv env r km km' \<longleftrightarrow> km_free r km = Inr km'
     \<or> (\<exists>q num_new num_new_computed new_computed lookahead num_external delay nenc must_fit reserved has_scheduled new q'.
          request_id (sr_request q) = r \<and> allocate_slots cdiv env q num_new num_new_computed new_computed lookahead
            num_external delay nenc must_fit reserved has_scheduled km = Inr (Some new, q', km'))"

inductive reserve_refusals ::
  "(int \<Rightarrow> int \<Rightarrow> int) \<Rightarrow> pool_env \<Rightarrow> kv_manager \<Rightarrow> string \<Rightarrow> (nat \<Rightarrow> nat) \<times> kv_manager \<Rightarrow> nat \<Rightarrow> bool"
  for cdiv env km0 r where
  Start: "reserve_refusals cdiv env km0 r (outs, km0) 0"
| Begin: "reserve_refusals cdiv env km0 r s n \<Longrightarrow> km_step cdiv env s s' \<Longrightarrow> reserve_refusals cdiv env km0 r s' 0"
| Refuse: "reserve_refusals cdiv env km0 r (outs, km) n \<Longrightarrow> request_id (sr_request q) = r \<Longrightarrow>
    refused_for_reserve cdiv q num_new num_new_computed new_computed lookahead num_external nenc
      must_fit reserved has_scheduled km \<Longrightarrow>
    slots_fit cdiv q num_new num_new_computed new_computed num_external km \<Longrightarrow>
    allocate_slots cdiv env q num_new num_new_computed new_computed lookahead num_external delay nenc
      must_fit reserved has_scheduled km = Inr (new, q', km') \<Longrightarrow>
    reserve_refusals cdiv env km0 r (outs, km') (Suc n)"
| Pass: "reserve_refusals cdiv env km0 r s n \<Longrightarrow> km_step cdiv env s s' \<Longrightarrow> \<not> settles cdiv env r (snd s) (snd s') \<Longrightarrow>
    reserve_refusals cdiv env km0 r s' n"

lemma unsettled_count:
  assumes "km_step cdiv env s s'" and "\<not> settles cdiv env r (snd s) (snd s')"
  shows "blocked_attempts (snd s) r \<le> blocked_attempts (snd s') r"
proof -
  have "km_step cdiv env (fst s, snd s) (fst s', snd s')" using assms(1) by simp
  from ledger_step [OF this] show ?thesis
  proof (elim disjE exE conjE)
    assume "kv_ledger (snd s') = kv_ledger (snd s)"
    then have "reserve_blocked (snd s') = reserve_blocked (snd s)" using ledger_same by blast
    then show ?thesis by (simp add: blocked_attempts_def)
  next
    fix r2 assume "km_free r2 (snd s) = Inr (snd s')" and del: "reserve_blocked (snd s') = AList.delete r2 (reserve_blocked (snd s))"
    then have "r2 \<noteq> r" using assms(2) by (auto simp: settles_def)
    then show ?thesis unfolding blocked_attempts_def del dict_get_delete by simp
  next
    fix q n nc b la ne de nenc mf rs hs new q'
    assume a: "allocate_slots cdiv env q n nc b la ne de nenc mf rs hs (snd s) = Inr (new, q', snd s')"
    then have "request_id (sr_request q) \<noteq> r" if "new \<noteq> None" using assms(2) that unfolding settles_def by blast
    then show ?thesis
      using allocate_slots_counts [OF a] by (auto simp: blocked_attempts_def dict_get_delete dict_get_update)
  qed
qed

lemma step_within_age:
  assumes "km_step cdiv env s s'" and "counts_within_age (snd s)"
  shows "counts_within_age (snd s') \<and> kv_constants (snd s') = kv_constants (snd s)"
  by (rule steps_within_age [OF _ assms(2)]) (rule r_into_rtranclp, rule assms(1))

lemma refusals_are_counted:
  assumes "reserve_refusals cdiv env km0 r s n" and "counts_within_age km0"
  shows "counts_within_age (snd s) \<and> kv_constants (snd s) = kv_constants km0 \<and> int n \<le> blocked_attempts (snd s) r"
  using assms(1)
proof induction
  case Start
  then show ?case using assms(2) by (simp add: counts_within_age_def)
next
  case (Begin s n s')
  then show ?case
    using step_within_age [OF Begin.hyps(2)] by (simp add: counts_within_age_def)
next
  case (Refuse outs km n q num_new num_new_computed new_computed lookahead num_external nenc must_fit reserved has_scheduled
      delay new q' km')
  note counted = refusal_is_counted [OF Refuse.hyps(3,5)]
  note step = Km_allocate [OF Refuse.hyps(4,5), of outs]
  show ?case
    using step_within_age [OF step] Refuse.IH counted Refuse.hyps(2)
    by (simp add: blocked_attempts_def dict_get_update)
next
  case (Pass s n s')
  then show ?case
    using step_within_age [OF Pass.hyps(2)] unsettled_count [OF Pass.hyps(2,3)] by simp
qed

text \<open>
  C26. The reserve that protects cached states cannot starve a request, when its age is positive.
  Over any calls of the scheduler, however those for other requests are interleaved, a request is
  refused on account of the reserve alone (the blocks asked for, for the whole sequence or for the
  step, are free, but not with the reserve on top) at most as often as the age before it is
  admitted or freed; and once it has been refused that often, \<open>allocate_slots\<close> answers, and leaves
  the pool and all tables, just as a manager without a reserve would.
\<close>

theorem reserve_cannot_starve:
  assumes "new_kv_manager cdiv fl meta cfg in_flight caching exempt a reserve age watermark = Inr km" and "0 < age"
    and "reserve_refusals cdiv env km (request_id (sr_request q)) (outs', km') n"
  shows "int n \<le> age
    \<and> (int n = age \<longrightarrow>
         on_state without_reserve (allocate_slots cdiv env q num_new num_new_computed new_computed lookahead num_external
             delay nenc must_fit reserved has_scheduled km')
         = allocate_slots cdiv env q num_new num_new_computed new_computed lookahead num_external
             delay nenc must_fit reserved has_scheduled (without_reserve km'))"
proof -
  let ?r = "request_id (sr_request q)"
  note new = new_kv_manager_counts [OF assms(1)]
  have s: "counts_within_age km'" "kv_constants km' = kv_constants km" "int n \<le> blocked_attempts km' ?r"
    using refusals_are_counted [OF assms(3)] new by simp_all
  have age: "mamba_reserve_age km' = age" using s(2) new assms(2) by (simp add: kv_constants_def)
  have bound: "blocked_attempts km' ?r \<le> age" using s(1) age assms(2) by (simp add: counts_within_age_def)
  have "state_reserve km' ?r = 0" if "int n = age"
    using that s(3) age assms(2) by (simp add: state_reserve_def reserve_aged_out_def)
  then show ?thesis using allocate_slots_without s(3) bound by auto
qed

lemma sample_refused:
  "refused_for_reserve sample_cdiv sample_sched_request 4 0 None 0 0 0 True 0 False sample_km"
proof -
  have "case km_count sample_cdiv ''r'' 4 (kv_tuple 2 EmptyBlocks) 0 0 0 4 True sample_km of
      Inr (n, k) \<Rightarrow> short_by_reserve (n + 0) 2 (get_num_free_blocks (km_pool k)) | Inl _ \<Rightarrow> False"
    by code_simp
  then obtain n k where "km_count sample_cdiv ''r'' 4 (kv_tuple 2 EmptyBlocks) 0 0 0 4 True sample_km = Inr (n, k)"
    "short_by_reserve (n + 0) 2 (get_num_free_blocks (km_pool k))"
    by (auto split: sum.splits prod.splits)
  moreover have "request_id (sr_request sample_sched_request) = ''r''" "num_groups sample_km = 2"
    "sr_num_computed sample_sched_request = 0" "km_max_model_len sample_km = 100"
    "num_tokens (sr_request sample_sched_request) = 4" "applied_watermark sample_km sample_sched_request False = 0"
    "state_reserve sample_km ''r'' = 2" by code_simp+
  ultimately show ?thesis by (simp add: refused_for_reserve_def)
qed

text \<open>
  A request whose whole sequence does not fit, in a call that need not fit: the reserve makes
  \<open>allocate_slots\<close> ask for the whole sequence, and such refusals are not counted.  With an age of 1
  the request is refused again and again and its count stays 0, although without a reserve it
  is admitted.
\<close>

definition long_sched_request :: sched_request where
  "long_sched_request = sample_sched_request\<lparr>sr_request := sample_request [7, 8, 9, 4, 5, 6, 1, 2, 3, 0] [[1], [2], [3], [4], [5]] []\<rparr>"

abbreviation long_slots :: "sched_request \<Rightarrow> kv_manager \<Rightarrow> (kv_blocks option \<times> sched_request \<times> kv_manager) res" where
  "long_slots q km \<equiv> allocate_slots sample_cdiv sample_env q 2 0 None 0 0 False 0 False 0 False km"

lemma honest_refusals_never_age:
  "mamba_reserve_age sample_km = 1
   \<and> (\<exists>q1 km1 q2 km2. long_slots long_sched_request sample_km = Inr (None, q1, km1) \<and> reserve_blocked km1 = []
        \<and> long_slots q1 km1 = Inr (None, q2, km2) \<and> reserve_blocked km2 = [])
   \<and> (\<exists>new q1 km1. long_slots long_sched_request (without_reserve sample_km) = Inr (Some new, q1, km1))"
proof -
  have "answers False (\<lambda>_ q km. reserve_blocked km = [] \<and> answers False (\<lambda>_ _ km. reserve_blocked km = []) (long_slots q km))
      (long_slots long_sched_request sample_km)"
    by code_simp
  then obtain q1 km1 q2 km2 where "long_slots long_sched_request sample_km = Inr (None, q1, km1)" "reserve_blocked km1 = []"
    "long_slots q1 km1 = Inr (None, q2, km2)" "reserve_blocked km2 = []"
    by (elim answersE conjE) simp
  moreover have "answers True (\<lambda>_ _ _. True) (long_slots long_sched_request (without_reserve sample_km))"
    by code_simp
  then have "\<exists>new q1 km1. long_slots long_sched_request (without_reserve sample_km) = Inr (Some new, q1, km1)"
    by (elim answersE) auto
  moreover have "mamba_reserve_age sample_km = 1" by code_simp
  ultimately show ?thesis by blast
qed

theorem reserve_cannot_starve_witness:
  "\<exists>q1 km1 q2 km2. sample_slots sample_sched_request sample_km = Inr (None, q1, km1)
    \<and> sample_slots q1 (without_reserve km1) = Inr (Some (KvBlocks [[1, 2], [3, 4]]), q2, without_reserve km2)"
proof -
  obtain q1 km1 q2 km2 where run: "sample_slots sample_sched_request sample_km = Inr (None, q1, km1)"
    "sample_slots q1 km1 = Inr (Some (KvBlocks [[1, 2], [3, 4]]), q2, km2)"
    and fit: "slots_fit sample_cdiv sample_sched_request 4 0 None 0 sample_km"
    and q1: "request_id (sr_request q1) = ''r''"
    by (rule sample_slots_run)
  have r: "request_id (sr_request sample_sched_request) = request_id (sr_request q1)"
    by (simp add: q1) code_simp
  have "reserve_refusals sample_cdiv sample_env sample_km (request_id (sr_request q1)) (\<lambda>_. 0, km1) (Suc 0)"
    by (rule Refuse [OF Start r sample_refused fit run(1)])
  from reserve_cannot_starve [OF sample_km_run _ this]
  have "on_state without_reserve (sample_slots q1 km1) = sample_slots q1 (without_reserve km1)" by simp
  then have "sample_slots q1 (without_reserve km1) = Inr (Some (KvBlocks [[1, 2], [3, 4]]), q2, without_reserve km2)"
    using run(2) by simp
  then show ?thesis using run(1) by blast
qed

end
