(* ===== verification/GlobalDp.thy ===== *)
theory GlobalDp
  imports Prelude Complex_Main "HOL-Library.Product_Lexorder" "HOL-Library.List_Lexorder" "HOL-Library.Char_ord"
begin

text \<open>
  The allocator of the quantisation pipeline, \<open>src/src/quant_pipeline/allocation/global_dp.py\<close>:
  an exact multiple-choice knapsack that picks one quantised candidate per unit within a budget
  of bytes, and its variant with a fixed cost per layer.

  Damages are Python floats.  A finite double is a rational; \<open>fl\<close> rounds an exact sum to a double
  or to an infinity, and all that is used of it is that it is monotone.
\<close>

section \<open>Floats\<close>

datatype py_float = NegInf | Fin rat | PosInf

fun less_eq_float :: "py_float \<Rightarrow> py_float \<Rightarrow> bool" where
  "less_eq_float NegInf y = True"
| "less_eq_float x PosInf = True"
| "less_eq_float (Fin a) (Fin b) = (a \<le> b)"
| "less_eq_float x y = False"

instantiation py_float :: linorder
begin

definition less_eq_py_float :: "py_float \<Rightarrow> py_float \<Rightarrow> bool" where
  "x \<le> y \<longleftrightarrow> less_eq_float x y"

definition less_py_float :: "py_float \<Rightarrow> py_float \<Rightarrow> bool" where
  "x < y \<longleftrightarrow> less_eq_float x y \<and> \<not> less_eq_float y x"

instance
proof
  fix x y z :: py_float
  show "x \<le> x" by (cases x) (simp_all add: less_eq_py_float_def)
  show "x \<le> y \<Longrightarrow> y \<le> z \<Longrightarrow> x \<le> z" by (cases x; cases y; cases z) (simp_all add: less_eq_py_float_def)
  show "x \<le> y \<Longrightarrow> y \<le> x \<Longrightarrow> x = y" by (cases x; cases y) (simp_all add: less_eq_py_float_def)
  show "x \<le> y \<or> y \<le> x" by (cases x; cases y) (auto simp: less_eq_py_float_def)
  show "(x < y) = (x \<le> y \<and> \<not> y \<le> x)" by (simp add: less_py_float_def less_eq_py_float_def)
qed

end

lemma float_order [simp]:
  "NegInf \<le> x" "x \<le> PosInf" "Fin a \<le> Fin b \<longleftrightarrow> a \<le> b" "Fin a < Fin b \<longleftrightarrow> a < b" "Fin a < PosInf"
  "NegInf < PosInf" "\<not> PosInf < x" "\<not> x < NegInf"
  by (cases x; auto simp: less_eq_py_float_def less_py_float_def)+

text \<open>A float plus a finite one\<close>

fun float_add :: "(rat \<Rightarrow> py_float) \<Rightarrow> py_float \<Rightarrow> rat \<Rightarrow> py_float" where
  "float_add fl (Fin a) b = fl (a + b)"
| "float_add fl x b = x"

lemma less_PosInf: "x < PosInf \<longleftrightarrow> x \<noteq> PosInf"
  by (cases x) (simp_all add: less_py_float_def)

lemma float_add_PosInf: "float_add fl d x < PosInf \<Longrightarrow> d < PosInf"
  by (cases d) simp_all

section \<open>Candidates and allocations\<close>

text \<open>A damage that is no number, or none that \<open>isfinite\<close> accepts, is \<open>None\<close>.\<close>

record candidate =
  cand_unit :: string
  cand_choice :: string
  cand_bytes :: int
  cand_damage :: "rat option"

record allocation =
  al_choices :: "candidate list"
  al_bytes :: int
  al_damage :: py_float

record accounted_allocation =
  aa_choices :: "candidate list"
  aa_variable_bytes :: int
  aa_fixed_bytes :: int
  aa_bytes :: int
  aa_damage :: py_float

abbreviation damage_of :: "candidate \<Rightarrow> rat" where
  "damage_of c \<equiv> the (cand_damage c)"

fun keep_improving :: "py_float \<Rightarrow> candidate list \<Rightarrow> candidate list" where
  "keep_improving best [] = []"
| "keep_improving best (c # cs) =
     (if Fin (damage_of c) < best then c # keep_improving (Fin (damage_of c)) cs else keep_improving best cs)"

definition pareto_frontier :: "candidate list \<Rightarrow> candidate list" where
  "pareto_frontier cs = keep_improving PosInf (sort_key (\<lambda>c. (cand_bytes c, damage_of c, cand_choice c)) cs)"

section \<open>The allocator\<close>

type_synonym dp_states = "(int, py_float \<times> candidate list) pydict"

definition valid_candidate :: "candidate \<Rightarrow> bool" where
  "valid_candidate c \<longleftrightarrow> cand_unit c \<noteq> [] \<and> cand_choice c \<noteq> [] \<and> \<not> cand_bytes c < 0 \<and> cand_damage c \<noteq> None"

definition group_candidates :: "candidate list \<Rightarrow> (string, candidate list) pydict" where
  "group_candidates cs =
     fold (\<lambda>c g. AList.update (cand_unit c) (dict_get g (cand_unit c) [] @ [c]) g) cs []"

text \<open>One choice for one state\<close>

definition extend_state ::
  "(rat \<Rightarrow> py_float) \<Rightarrow> int \<Rightarrow> int \<Rightarrow> int \<times> py_float \<times> candidate list \<Rightarrow> candidate \<Rightarrow> dp_states \<Rightarrow> dp_states" where
  "extend_state fl quantum budget s c new_states =
     (let (used, damage, selected) = s;
          new_used = used + cand_bytes c div quantum
      in if new_used > budget then new_states
         else (let new_damage = float_add fl damage (damage_of c)
               in case map_of new_states new_used of
                    None \<Rightarrow> AList.update new_used (new_damage, selected @ [c]) new_states
                  | Some previous \<Rightarrow>
                      if new_damage < fst previous then AList.update new_used (new_damage, selected @ [c]) new_states
                      else new_states))"

definition extend_states ::
  "(rat \<Rightarrow> py_float) \<Rightarrow> int \<Rightarrow> int \<Rightarrow> candidate list \<Rightarrow> dp_states \<Rightarrow> dp_states" where
  "extend_states fl quantum budget choices states =
     fold (\<lambda>s. fold (extend_state fl quantum budget s) choices) states []"

text \<open>The states in the order of their cost, those that improve on all cheaper ones\<close>

fun keep_cheaper :: "py_float \<Rightarrow> dp_states \<Rightarrow> dp_states" where
  "keep_cheaper best [] = []"
| "keep_cheaper best ((used, damage, selected) # ss) =
     (if damage < best then (used, damage, selected) # keep_cheaper damage ss else keep_cheaper best ss)"

definition prune_states :: "dp_states \<Rightarrow> dp_states" where
  "prune_states new_states = keep_cheaper PosInf (sort_key fst new_states)"

definition allocate_unit ::
  "(rat \<Rightarrow> py_float) \<Rightarrow> int \<Rightarrow> int \<Rightarrow> candidate list \<Rightarrow> dp_states \<Rightarrow> dp_states res" where
  "allocate_unit fl quantum budget members states =
     (let new_states = extend_states fl quantum budget (pareto_frontier members) states
      in if new_states = [] then Inl ValueError else Inr (prune_states new_states))"

text \<open>\<open>min(states.items(), key=...)\<close>\<close>

definition best_state :: "dp_states \<Rightarrow> (int \<times> py_float \<times> candidate list) res" where
  "best_state states =
     (case sort_key (\<lambda>(used, damage, _). (damage, used)) states of [] \<Rightarrow> Inl ValueError | s # _ \<Rightarrow> Inr s)"

definition allocate_bytes :: "(rat \<Rightarrow> py_float) \<Rightarrow> candidate list \<Rightarrow> int \<Rightarrow> int \<Rightarrow> allocation res" where
  "allocate_bytes fl cs byte_budget quantum =
     (if byte_budget < 0 \<or> quantum < 1 then Inl ValueError
      else if \<exists>c \<in> set cs. \<not> valid_candidate c then Inl ValueError
      else (let grouped = group_candidates cs
            in if grouped = [] then Inr \<lparr>al_choices = [], al_bytes = 0, al_damage = Fin 0\<rparr>
               else if byte_budget mod quantum \<noteq> 0 \<or> (\<exists>c \<in> set cs. cand_bytes c mod quantum \<noteq> 0) then Inl ValueError
               else bind_res (fold_res (\<lambda>u. allocate_unit fl quantum (byte_budget div quantum) (dict_get grouped u []))
                                (sort (map fst grouped)) [(0, Fin 0, [])]) (\<lambda>states.
                    bind_res (best_state states) (\<lambda>(_, damage, selected).
                      Inr \<lparr>al_choices = selected, al_bytes = sum_list (map cand_bytes selected),
                           al_damage = damage\<rparr>))))"

definition allocate_with_fixed_layer_cost ::
  "(rat \<Rightarrow> py_float) \<Rightarrow> candidate list \<Rightarrow> int \<Rightarrow> int \<Rightarrow> int \<Rightarrow> accounted_allocation res" where
  "allocate_with_fixed_layer_cost fl cs byte_budget fixed quantum =
     (if fixed < 0 then Inl ValueError
      else if fixed > byte_budget then Inl ValueError
      else bind_res (allocate_bytes fl cs (byte_budget - fixed) quantum) (\<lambda>r.
             (let total_bytes = al_bytes r + fixed
              in if total_bytes > byte_budget then Inl RuntimeError
                 else Inr \<lparr>aa_choices = al_choices r, aa_variable_bytes = al_bytes r, aa_fixed_bytes = fixed,
                        aa_bytes = total_bytes, aa_damage = al_damage r\<rparr>)))"

section \<open>Selections\<close>

text \<open>One candidate for each of the units, in their order\<close>

definition selects :: "candidate list \<Rightarrow> string list \<Rightarrow> candidate list \<Rightarrow> bool" where
  "selects cs us sel \<longleftrightarrow> list_all2 (\<lambda>u c. c \<in> set cs \<and> cand_unit c = u) us sel"

definition selected_bytes :: "candidate list \<Rightarrow> int" where
  "selected_bytes sel = sum_list (map cand_bytes sel)"

definition selected_damage :: "(rat \<Rightarrow> py_float) \<Rightarrow> candidate list \<Rightarrow> py_float" where
  "selected_damage fl sel = foldl (\<lambda>d c. float_add fl d (damage_of c)) (Fin 0) sel"

lemma selects_snoc: "selects cs us sel \<Longrightarrow> c \<in> set cs \<Longrightarrow> selects cs (us @ [cand_unit c]) (sel @ [c])"
  by (simp add: selects_def list_all2_appendI)

lemma selects_snocE:
  assumes "selects cs (us @ [u]) sel"
  obtains sel' c where "sel = sel' @ [c]" "selects cs us sel'" "c \<in> set cs" "cand_unit c = u"
  using assms by (auto simp: selects_def list_all2_append1 list_all2_Cons1)

lemma selected_snoc [simp]:
  "selected_bytes (sel @ [c]) = selected_bytes sel + cand_bytes c"
  "selected_damage fl (sel @ [c]) = float_add fl (selected_damage fl sel) (damage_of c)"
  "selected_bytes [] = 0" "selected_damage fl [] = Fin 0"
  by (simp_all add: selected_bytes_def selected_damage_def)

lemma selects_nonneg: "selects cs us sel \<Longrightarrow> \<forall>c \<in> set cs. valid_candidate c \<Longrightarrow> 0 \<le> selected_bytes sel"
  unfolding selects_def selected_bytes_def
  by (induction rule: list_all2_induct) (fastforce simp: valid_candidate_def)+

lemma float_add_mono:
  assumes "mono fl" and "d \<le> e" and "a \<le> b"
  shows "float_add fl d a \<le> float_add fl e b"
proof (cases d; cases e)
  fix x y assume "d = Fin x" "e = Fin y"
  then show ?thesis using assms by (simp add: monoD [OF assms(1)])
qed (use assms(2) in \<open>auto simp: less_eq_py_float_def [of PosInf] less_eq_py_float_def [of "Fin _" NegInf]\<close>)

section \<open>The Pareto frontier\<close>

lemma keep_improving_subset: "set (keep_improving best cs) \<subseteq> set cs"
  by (induction best cs rule: keep_improving.induct) auto

lemma keep_improving_covers:
  assumes "sorted (map f cs)" and "c \<in> set cs" and "Fin (damage_of c) < best"
  shows "\<exists>c' \<in> set (keep_improving best cs). f c' \<le> f c \<and> damage_of c' \<le> damage_of c"
  using assms
proof (induction best cs rule: keep_improving.induct)
  case (2 best c' cs)
  show ?case
  proof (cases "Fin (damage_of c') < best")
    case True
    have le: "f c' \<le> f c" using 2(3,4) by auto
    show ?thesis
    proof (cases "damage_of c' \<le> damage_of c")
      case False
      then have "c \<in> set cs" "Fin (damage_of c) < Fin (damage_of c')" using 2(4) by auto
      then show ?thesis using 2(1) [OF True] 2(3) True by auto
    qed (use True le in auto)
  next
    case False
    then have "c \<in> set cs" using 2(4,5) by auto
    then show ?thesis using 2(2) [OF False] 2(3,5) False by simp
  qed
qed simp

lemma pareto_frontier_covers:
  assumes "c \<in> set cs"
  shows "\<exists>c' \<in> set (pareto_frontier cs). cand_bytes c' \<le> cand_bytes c \<and> damage_of c' \<le> damage_of c"
proof -
  let ?key = "\<lambda>c. (cand_bytes c, damage_of c, cand_choice c)"
  have "sorted (map ?key (sort_key ?key cs))" by simp
  from keep_improving_covers [OF this, of c PosInf] assms obtain c' where
    "c' \<in> set (pareto_frontier cs)" "?key c' \<le> ?key c" "damage_of c' \<le> damage_of c"
    by (auto simp: pareto_frontier_def)
  then show ?thesis by (intro bexI [of _ c']) (auto simp: less_eq_prod_def)
qed

lemma pareto_frontier_subset: "set (pareto_frontier cs) \<subseteq> set cs"
  using keep_improving_subset [of PosInf "sort_key (\<lambda>c. (cand_bytes c, damage_of c, cand_choice c)) cs"]
  by (simp add: pareto_frontier_def)

section \<open>One unit\<close>

text \<open>The states after some units are selections of them, and none is better than all states\<close>

definition states_sound ::
  "(rat \<Rightarrow> py_float) \<Rightarrow> int \<Rightarrow> int \<Rightarrow> candidate list \<Rightarrow> string list \<Rightarrow> dp_states \<Rightarrow> bool" where
  "states_sound fl quantum budget cs us states \<longleftrightarrow> (\<forall>(used, damage, sel) \<in> set states.
     selects cs us sel \<and> selected_bytes sel = used * quantum \<and> used \<le> budget \<and> damage = selected_damage fl sel)"

definition states_cover ::
  "(rat \<Rightarrow> py_float) \<Rightarrow> int \<Rightarrow> int \<Rightarrow> candidate list \<Rightarrow> string list \<Rightarrow> dp_states \<Rightarrow> bool" where
  "states_cover fl quantum budget cs us states \<longleftrightarrow> (\<forall>sel. selects cs us sel \<longrightarrow> selected_bytes sel \<le> budget * quantum
     \<longrightarrow> selected_damage fl sel < PosInf \<longrightarrow> (\<exists>(used, damage, _) \<in> set states.
       used * quantum \<le> selected_bytes sel \<and> damage \<le> selected_damage fl sel))"

text \<open>What the table of new states offers for a cost\<close>

definition offers :: "dp_states \<Rightarrow> int \<Rightarrow> py_float \<Rightarrow> bool" where
  "offers states used damage \<longleftrightarrow> (\<exists>d sel. map_of states used = Some (d, sel) \<and> d \<le> damage)"

lemma extend_state_offers:
  "offers ns used d \<Longrightarrow> offers (extend_state fl quantum budget s c ns) used d"
  by (auto simp: extend_state_def offers_def Let_def map_of_update split: prod.splits option.splits
      intro: order_trans)

lemma extend_state_offered:
  assumes "used + cand_bytes c div quantum \<le> budget"
  shows "offers (extend_state fl quantum budget (used, d, sel) c ns) (used + cand_bytes c div quantum)
    (float_add fl d (damage_of c))"
  using assms by (auto simp: extend_state_def offers_def Let_def map_of_update split: option.splits)

lemma fold_keeps: "(\<And>x s. P s \<Longrightarrow> P (f x s)) \<Longrightarrow> P s \<Longrightarrow> P (fold f xs s)"
  by (induction xs arbitrary: s) auto

lemma fold_reaches: "x \<in> set xs \<Longrightarrow> (\<And>s. P (f x s)) \<Longrightarrow> (\<And>y s. P s \<Longrightarrow> P (f y s)) \<Longrightarrow> P (fold f xs s)"
proof (induction xs arbitrary: s)
  case (Cons y ys)
  then show ?case by (cases "x = y") (auto intro: fold_keeps)
qed simp

lemma extend_states_offers:
  assumes "(used, d, sel) \<in> set states" and "c \<in> set choices" and "used + cand_bytes c div quantum \<le> budget"
  shows "offers (extend_states fl quantum budget choices states) (used + cand_bytes c div quantum)
    (float_add fl d (damage_of c))"
  unfolding extend_states_def
proof (rule fold_reaches [OF assms(1)])
  show "offers (fold (extend_state fl quantum budget (used, d, sel)) choices ns) (used + cand_bytes c div quantum)
    (float_add fl d (damage_of c))" for ns
    by (rule fold_reaches [OF assms(2)]) (use assms(3) extend_state_offered extend_state_offers in blast)+
  show "offers (fold (extend_state fl quantum budget s) choices ns) u e" if "offers ns u e" for s ns u e
    using that by (rule fold_keeps [rotated]) (rule extend_state_offers)
qed

lemma in_update: "x \<in> set (AList.update k v al) \<Longrightarrow> x = (k, v) \<or> x \<in> set al"
  by (induction al) (auto split: if_splits)

lemma extend_states_sound:
  assumes sound: "states_sound fl quantum budget cs us states" and q: "0 < quantum"
    and choices: "\<forall>c \<in> set choices. c \<in> set cs \<and> cand_unit c = u \<and> cand_bytes c mod quantum = 0"
  shows "states_sound fl quantum budget cs (us @ [u]) (extend_states fl quantum budget choices states)"
proof -
  let ?P = "states_sound fl quantum budget cs (us @ [u])"
  have one: "?P (extend_state fl quantum budget s c ns)" if "?P ns" "s \<in> set states" "c \<in> set choices" for s c ns
  proof -
    obtain used d sel where s: "s = (used, d, sel)" by (cases s)
    have c: "c \<in> set cs" "cand_unit c = u" "cand_bytes c mod quantum = 0" using choices that(3) by auto
    have old: "selects cs us sel" "selected_bytes sel = used * quantum" "d = selected_damage fl sel"
      using sound that(2) by (auto simp: s states_sound_def)
    have "selects cs (us @ [u]) (sel @ [c])" using selects_snoc [OF old(1) c(1)] c(2) by simp
    moreover have "selected_bytes (sel @ [c]) = (used + cand_bytes c div quantum) * quantum"
      using c(3) old(2) by (simp add: algebra_simps) (metis add.commute add_0 mult_div_mod_eq)
    ultimately show ?thesis
      using that(1) old(3)
      by (fastforce simp: extend_state_def s Let_def states_sound_def dest!: in_update split: option.splits)
  qed
  have "?P (fold (\<lambda>s. fold (extend_state fl quantum budget s) choices) ss ns)" if "?P ns" "set ss \<subseteq> set states" for ss ns
    using that
  proof (induction ss arbitrary: ns)
    case (Cons s ss)
    have "?P (fold (extend_state fl quantum budget s) xs ns)" if "set xs \<subseteq> set choices" "?P ns" for xs ns
      using that Cons.prems(2) one by (induction xs arbitrary: ns) auto
    then show ?case using Cons by simp
  qed simp
  from this [of "[]" states] show ?thesis by (simp add: extend_states_def states_sound_def)
qed

lemma keep_cheaper_subset: "set (keep_cheaper best ss) \<subseteq> set ss"
  by (induction best ss rule: keep_cheaper.induct) auto

lemma keep_cheaper_covers:
  assumes "sorted (map fst ss)" and "(used, d, sel) \<in> set ss" and "d < best"
  shows "\<exists>(used', d', _) \<in> set (keep_cheaper best ss). used' \<le> used \<and> d' \<le> d"
  using assms
proof (induction best ss rule: keep_cheaper.induct)
  case (2 best u e s ss)
  show ?case
  proof (cases "e < best")
    case True
    show ?thesis
    proof (cases "e \<le> d")
      case False
      then have "(used, d, sel) \<in> set ss" "d < e" using 2(4) by auto
      then show ?thesis using 2(1) [OF True] 2(3) True by fastforce
    qed (use 2(3,4) True in auto)
  next
    case False
    then have "(used, d, sel) \<in> set ss" using 2(4,5) by auto
    then show ?thesis using 2(2) [OF False] 2(3,5) False by simp
  qed
qed simp

lemma prune_states_sound:
  "states_sound fl quantum budget cs us ns \<Longrightarrow> states_sound fl quantum budget cs us (prune_states ns)"
  using keep_cheaper_subset [of PosInf "sort_key fst ns"] by (fastforce simp: states_sound_def prune_states_def)

lemma prune_states_covers:
  assumes "(used, d, sel) \<in> set ns" and "d < PosInf"
  shows "\<exists>(used', d', _) \<in> set (prune_states ns). used' \<le> used \<and> d' \<le> d"
  unfolding prune_states_def by (rule keep_cheaper_covers) (use assms in auto)

lemma allocate_unit_covers:
  assumes fl: "mono fl" and q: "0 < quantum" and valid: "\<forall>c \<in> set cs. valid_candidate c"
    and cover: "states_cover fl quantum budget cs us states"
    and sound: "states_sound fl quantum budget cs us states"
    and members: "\<forall>c. c \<in> set ms \<longleftrightarrow> c \<in> set cs \<and> cand_unit c = u"
    and div: "\<forall>c \<in> set cs. cand_bytes c mod quantum = 0"
  defines "ns \<equiv> extend_states fl quantum budget (pareto_frontier ms) states"
  shows "states_cover fl quantum budget cs (us @ [u]) (if ns = [] then [] else prune_states ns)"
  unfolding states_cover_def
proof (intro allI impI)
  fix sel assume sel: "selects cs (us @ [u]) sel" "selected_bytes sel \<le> budget * quantum" "selected_damage fl sel < PosInf"
  from sel(1) obtain sel' c where s: "sel = sel' @ [c]" "selects cs us sel'" "c \<in> set cs" "cand_unit c = u"
    by (rule selects_snocE)
  have "0 \<le> cand_bytes c" using valid s(3) by (auto simp: valid_candidate_def)
  then have "selected_bytes sel' \<le> budget * quantum" using sel(2) by (simp add: s(1))
  moreover have "selected_damage fl sel' < PosInf" using sel(3) float_add_PosInf by (simp add: s(1))
  ultimately obtain used d t where st: "(used, d, t) \<in> set states" "used * quantum \<le> selected_bytes sel'"
    "d \<le> selected_damage fl sel'" using cover s(2) by (fastforce simp: states_cover_def)
  obtain c' where c': "c' \<in> set (pareto_frontier ms)" "cand_bytes c' \<le> cand_bytes c" "damage_of c' \<le> damage_of c"
    using pareto_frontier_covers [of c ms] members s(3,4) by blast
  have "c' \<in> set cs" using c'(1) members pareto_frontier_subset by blast
  then have exact: "cand_bytes c' div quantum * quantum = cand_bytes c'" using div by (simp add: mult.commute minus_mod_eq_mult_div [symmetric])
  let ?used = "used + cand_bytes c' div quantum"
  have less: "?used * quantum \<le> selected_bytes sel"
    using st(2) c'(2) by (simp add: s(1) distrib_right exact)
  then have "?used * quantum \<le> budget * quantum" using sel(2) by simp
  then have "?used \<le> budget" using q by simp
  from extend_states_offers [OF st(1) c'(1) this, of fl] obtain e t' where
    e: "(?used, e, t') \<in> set ns" "e \<le> float_add fl d (damage_of c')"
    by (auto simp: offers_def ns_def dest: map_of_SomeD)
  have "float_add fl d (damage_of c') \<le> selected_damage fl sel"
    using float_add_mono [OF fl st(3) c'(3)] by (simp add: s(1))
  then have le: "e \<le> selected_damage fl sel" using e(2) by simp
  then have "e < PosInf" using sel(3) by simp
  from prune_states_covers [OF e(1) this] obtain u' d' t'' where
    p: "(u', d', t'') \<in> set (prune_states ns)" "u' \<le> ?used" "d' \<le> e" by auto
  have "u' * quantum \<le> selected_bytes sel"
    using p(2) less q by (meson dual_order.trans mult_right_mono order_less_imp_le)
  moreover have "ns \<noteq> []" using e(1) by auto
  ultimately show "\<exists>(used, damage, _) \<in> set (if ns = [] then [] else prune_states ns).
      used * quantum \<le> selected_bytes sel \<and> damage \<le> selected_damage fl sel"
    using p(1,3) le by (intro bexI [of _ "(u', d', t'')"]) auto
qed

section \<open>All units\<close>

lemma states_cover_Nil_append: "states_cover fl quantum budget cs us [] \<Longrightarrow> \<forall>c \<in> set cs. valid_candidate c \<Longrightarrow>
  states_cover fl quantum budget cs (us @ vs) []"
proof (induction vs rule: rev_induct)
  case (snoc v vs)
  show ?case unfolding states_cover_def
  proof (intro allI impI)
    fix sel assume sel: "selects cs (us @ vs @ [v]) sel" "selected_bytes sel \<le> budget * quantum"
      "selected_damage fl sel < PosInf"
    then have "selects cs ((us @ vs) @ [v]) sel" by simp
    then obtain sel' c where s: "sel = sel' @ [c]" "selects cs (us @ vs) sel'" "c \<in> set cs" by (rule selects_snocE)
    have "0 \<le> cand_bytes c" using snoc.prems(2) s(3) by (auto simp: valid_candidate_def)
    then have "selected_bytes sel' \<le> budget * quantum" using sel(2) by (simp add: s(1))
    moreover have "selected_damage fl sel' < PosInf" using sel(3) float_add_PosInf by (simp add: s(1))
    ultimately show "\<exists>(used, damage, _) \<in> set []. used * quantum \<le> selected_bytes sel \<and> damage \<le> selected_damage fl sel"
      using snoc.IH [OF snoc.prems] s(2) by (auto simp: states_cover_def)
  qed
qed simp

lemma allocate_units:
  assumes fl: "mono fl" and q: "0 < quantum" and valid: "\<forall>c \<in> set cs. valid_candidate c"
    and div: "\<forall>c \<in> set cs. cand_bytes c mod quantum = 0"
    and members: "\<forall>u \<in> set vs. \<forall>c. c \<in> set (members u) \<longleftrightarrow> c \<in> set cs \<and> cand_unit c = u"
    and "states_sound fl quantum budget cs us states" and "states_cover fl quantum budget cs us states"
  shows "case fold_res (\<lambda>u. allocate_unit fl quantum budget (members u)) vs states of
      Inl e \<Rightarrow> e = ValueError \<and> states_cover fl quantum budget cs (us @ vs) []
    | Inr states' \<Rightarrow> states_sound fl quantum budget cs (us @ vs) states'
        \<and> states_cover fl quantum budget cs (us @ vs) states'"
  using assms(5-7)
proof (induction vs arbitrary: us states)
  case (Cons u vs)
  let ?ns = "extend_states fl quantum budget (pareto_frontier (members u)) states"
  have ms: "\<forall>c. c \<in> set (members u) \<longleftrightarrow> c \<in> set cs \<and> cand_unit c = u" using Cons.prems(1) by simp
  note cover = allocate_unit_covers [OF fl q valid Cons.prems(3,2) ms div]
  show ?case
  proof (cases "?ns = []")
    case True
    then have "states_cover fl quantum budget cs (us @ [u]) []" using cover by simp
    from states_cover_Nil_append [OF this valid, of vs] show ?thesis
      using True by (simp add: allocate_unit_def Let_def)
  next
    case False
    have "\<forall>c \<in> set (pareto_frontier (members u)). c \<in> set cs \<and> cand_unit c = u \<and> cand_bytes c mod quantum = 0"
      using pareto_frontier_subset [of "members u"] ms div by blast
    from prune_states_sound [OF extend_states_sound [OF Cons.prems(2) q this]]
    have sound: "states_sound fl quantum budget cs (us @ [u]) (prune_states ?ns)" .
    have "\<forall>u \<in> set vs. \<forall>c. c \<in> set (members u) \<longleftrightarrow> c \<in> set cs \<and> cand_unit c = u" using Cons.prems(1) by simp
    from Cons.IH [OF this sound, unfolded append_assoc append_Cons append_Nil] cover False show ?thesis by (simp add: allocate_unit_def Let_def)
  qed
qed simp

lemma best_state_minimal:
  assumes "best_state states = Inr (used, d, sel)"
  shows "(used, d, sel) \<in> set states \<and> (\<forall>(used', d', _) \<in> set states. d \<le> d')"
proof -
  let ?key = "\<lambda>(used, damage, _). (damage, used)"
  obtain ss where ss: "sort_key ?key states = (used, d, sel) # ss"
    using assms by (auto simp: best_state_def split: list.splits)
  have mem: "x \<in> set states \<longleftrightarrow> x = (used, d, sel) \<or> x \<in> set ss" for x
    using arg_cong [OF ss, of set] by auto
  have "sorted (map ?key ((used, d, sel) # ss))" using sorted_sort_key [of ?key states] by (simp only: ss)
  then have "\<forall>x \<in> set ss. ?key (used, d, sel) \<le> ?key x" by simp
  then have "\<forall>(used', d', _) \<in> set ss. d \<le> d'" by (fastforce simp: less_eq_prod_def)
  then show ?thesis using mem by auto
qed

lemma best_state_error: "best_state states = Inl e \<Longrightarrow> e = ValueError \<and> states = []"
  by (auto simp: best_state_def split: list.splits dest: arg_cong [of _ _ set])

lemma group_candidates_get:
  "dict_get (group_candidates cs) u [] = filter (\<lambda>c. cand_unit c = u) cs
   \<and> set (map fst (group_candidates cs)) = cand_unit ` set cs \<and> distinct (map fst (group_candidates cs))"
proof (induction cs rule: rev_induct)
  case (snoc c cs)
  then show ?case by (auto simp: group_candidates_def dict_get_update update_keys distinct_update dom_update)
qed (simp add: group_candidates_def dict_get_def)

text \<open>What the caller wants: the least damage of all selections within the budget\<close>

definition optimal_choice :: "(rat \<Rightarrow> py_float) \<Rightarrow> candidate list \<Rightarrow> int \<Rightarrow> allocation \<Rightarrow> bool" where
  "optimal_choice fl cs byte_budget a \<longleftrightarrow> (let us = sort (remdups (map cand_unit cs)) in
     selects cs us (al_choices a) \<and> al_bytes a = selected_bytes (al_choices a) \<and> al_bytes a \<le> byte_budget
     \<and> al_damage a = selected_damage fl (al_choices a)
     \<and> (\<forall>sel. selects cs us sel \<longrightarrow> selected_bytes sel \<le> byte_budget \<longrightarrow> al_damage a \<le> selected_damage fl sel))"

lemma grouped_units: "sort (map fst (group_candidates cs)) = sort (remdups (map cand_unit cs))"
proof -
  have "distinct (map fst (group_candidates cs))" "set (map fst (group_candidates cs)) = set (remdups (map cand_unit cs))"
    using group_candidates_get [of cs] by auto
  then show ?thesis by (intro sorted_distinct_set_unique) simp_all
qed

lemma allocate_bytes_optimal:
  assumes fl: "mono fl" and run: "allocate_bytes fl cs byte_budget quantum = r"
    and args: "0 \<le> byte_budget" "1 \<le> quantum" "\<forall>c \<in> set cs. valid_candidate c"
    and div: "byte_budget mod quantum = 0" "\<forall>c \<in> set cs. cand_bytes c mod quantum = 0"
  shows "case r of Inr a \<Rightarrow> optimal_choice fl cs byte_budget a
    | Inl e \<Rightarrow> e = ValueError \<and> \<not> (\<exists>sel. selects cs (sort (remdups (map cand_unit cs))) sel
        \<and> selected_bytes sel \<le> byte_budget \<and> selected_damage fl sel < PosInf)"
proof (cases "cs = []")
  case True
  then have "r = Inr \<lparr>al_choices = [], al_bytes = 0, al_damage = Fin 0\<rparr>"
    using run args by (simp add: allocate_bytes_def group_candidates_def)
  then show ?thesis using True args(1) by (simp add: optimal_choice_def selects_def)
next
  case False
  let ?us = "sort (remdups (map cand_unit cs))" and ?budget = "byte_budget div quantum"
  let ?members = "\<lambda>u. dict_get (group_candidates cs) u []"
  have grouped: "group_candidates cs \<noteq> []" using group_candidates_get [of cs] False by force
  have budget: "?budget * quantum = byte_budget" using div(1) by (simp add: mult.commute minus_mod_eq_mult_div [symmetric])
  have members: "\<forall>u \<in> set ?us. \<forall>c. c \<in> set (?members u) \<longleftrightarrow> c \<in> set cs \<and> cand_unit c = u"
    using group_candidates_get [of cs] by auto
  have q: "0 < quantum" using args(2) by simp
  have "0 \<le> ?budget" using args by (simp add: pos_imp_zdiv_nonneg_iff)
  then have start: "states_sound fl quantum ?budget cs [] [(0, Fin 0, [])]" "states_cover fl quantum ?budget cs [] [(0, Fin 0, [])]"
    by (simp_all add: states_sound_def states_cover_def selects_def)
  note all = allocate_units [OF fl q args(3) div(2) members start, unfolded append_Nil]
  have r: "r = bind_res (fold_res (\<lambda>u. allocate_unit fl quantum ?budget (?members u)) ?us [(0, Fin 0, [])]) (\<lambda>states.
      bind_res (best_state states) (\<lambda>(_, damage, selected). Inr \<lparr>al_choices = selected,
        al_bytes = sum_list (map cand_bytes selected), al_damage = damage\<rparr>))"
    using run args grouped div by (auto simp: allocate_bytes_def grouped_units)
  have none: "\<not> (\<exists>sel. selects cs ?us sel \<and> selected_bytes sel \<le> byte_budget \<and> selected_damage fl sel < PosInf)"
    if "states_cover fl quantum ?budget cs ?us []" using that by (auto simp: states_cover_def budget)
  show ?thesis
  proof (cases "fold_res (\<lambda>u. allocate_unit fl quantum ?budget (?members u)) ?us [(0, Fin 0, [])]")
    case (Inl e)
    then show ?thesis using all none r by simp
  next
    case (Inr states)
    then have s: "states_sound fl quantum ?budget cs ?us states" "states_cover fl quantum ?budget cs ?us states"
      using all by simp_all
    show ?thesis
    proof (cases "best_state states")
      case (Inl e)
      from best_state_error [OF this] have e: "e = ValueError" "states = []" by simp_all
      have "r = Inl ValueError" using r Inr Inl e(1) by simp
      then show ?thesis using none s(2) e(2) by simp
    next
      case best: (Inr b)
      obtain used d sel where b: "b = (used, d, sel)" by (cases b)
      note min = best_state_minimal [OF best [unfolded b]]
      have "selects cs ?us sel" "selected_bytes sel = used * quantum" "used \<le> ?budget" "d = selected_damage fl sel"
        using s(1) min by (auto simp: states_sound_def)
      moreover then have "selected_bytes sel \<le> byte_budget" using q budget by (metis mult_right_mono order_less_imp_le)
      moreover have "d \<le> selected_damage fl sel'" if "selects cs ?us sel'" "selected_bytes sel' \<le> byte_budget" for sel'
      proof (cases "selected_damage fl sel' < PosInf")
        case True
        then have "\<exists>(used, damage, _) \<in> set states. used * quantum \<le> selected_bytes sel' \<and> damage \<le> selected_damage fl sel'"
          using s(2) that by (simp add: states_cover_def budget)
        then obtain u' d' t where "(u', d', t) \<in> set states" "d' \<le> selected_damage fl sel'" by auto
        then show ?thesis using min by fastforce
      next
        case False
        then show ?thesis by (simp add: less_PosInf)
      qed
      moreover have "r = Inr \<lparr>al_choices = sel, al_bytes = selected_bytes sel, al_damage = d\<rparr>"
        using r Inr best b by (simp add: selected_bytes_def)
      ultimately show ?thesis by (simp add: optimal_choice_def Let_def)
    qed
  qed
qed

text \<open>
  C27. The allocator is exact: for valid candidates and exactly divisible costs it returns one
  candidate for every unit, within the budget, and no choice of one candidate per unit within the
  budget has a smaller predicted damage, where damages are summed in floating point in the order
  of the units.  It raises \<open>ValueError\<close> only when every choice within the budget overflows to
  infinity or there is none.  Of floating-point addition only its monotonicity is used.
\<close>

theorem global_allocation_optimal:
  assumes "mono fl" and "0 \<le> byte_budget" and "1 \<le> quantum" and "\<forall>c \<in> set cs. valid_candidate c"
    and "byte_budget mod quantum = 0" and "\<forall>c \<in> set cs. cand_bytes c mod quantum = 0"
  shows "case allocate_bytes fl cs byte_budget quantum of
      Inr a \<Rightarrow> optimal_choice fl cs byte_budget a
    | Inl e \<Rightarrow> e = ValueError \<and> \<not> (\<exists>sel. selects cs (sort (remdups (map cand_unit cs))) sel
        \<and> selected_bytes sel \<le> byte_budget \<and> selected_damage fl sel < PosInf)"
  by (rule allocate_bytes_optimal [OF assms(1) refl assms(2-6)])

definition sample_candidates :: "candidate list" where
  "sample_candidates =
     [\<lparr>cand_unit = ''b'', cand_choice = ''k4'', cand_bytes = 4, cand_damage = Some 1\<rparr>,
      \<lparr>cand_unit = ''a'', cand_choice = ''k2'', cand_bytes = 2, cand_damage = Some 5\<rparr>,
      \<lparr>cand_unit = ''a'', cand_choice = ''k4'', cand_bytes = 4, cand_damage = Some 2\<rparr>,
      \<lparr>cand_unit = ''b'', cand_choice = ''k2'', cand_bytes = 2, cand_damage = Some 3\<rparr>]"

lemma sample_candidates_valid:
  "\<forall>c \<in> set sample_candidates. valid_candidate c" "\<forall>c \<in> set sample_candidates. cand_bytes c mod 2 = 0"
  by (simp_all add: sample_candidates_def valid_candidate_def)

theorem global_allocation_optimal_witness:
  "\<exists>a. allocate_bytes Fin sample_candidates 6 2 = Inr a \<and> al_damage a = Fin 5
    \<and> optimal_choice Fin sample_candidates 6 a"
proof -
  have "case allocate_bytes Fin sample_candidates 6 2 of Inr a \<Rightarrow> al_damage a = Fin 5 | Inl _ \<Rightarrow> False" by code_simp
  then obtain a where a: "allocate_bytes Fin sample_candidates 6 2 = Inr a" "al_damage a = Fin 5"
    by (auto split: sum.splits)
  have "mono Fin" by (simp add: mono_def)
  from global_allocation_optimal [OF this _ _ sample_candidates_valid(1) _ sample_candidates_valid(2), of 6]
  show ?thesis using a by simp
qed

lemma allocate_bytes_error: "allocate_bytes fl cs byte_budget quantum = Inl e \<Longrightarrow> e = ValueError"
proof -
  have "e = ValueError" if "fold_res (\<lambda>u. allocate_unit fl q budget (members u)) us states = Inl e" for members us states q budget
    using that by (induction us arbitrary: states) (auto simp: allocate_unit_def Let_def split: if_splits)
  then show "allocate_bytes fl cs byte_budget quantum = Inl e \<Longrightarrow> e = ValueError"
    by (auto simp: allocate_bytes_def Let_def bind_res_eq_Inl dest: best_state_error split: if_splits)
qed

lemma allocate_units_sound:
  assumes "fold_res (\<lambda>u. allocate_unit fl quantum budget (members u)) vs states = Inr states'"
    and "states_sound fl quantum budget cs us states" and q: "0 < quantum"
    and "\<forall>u \<in> set vs. \<forall>c \<in> set (members u). c \<in> set cs \<and> cand_unit c = u \<and> cand_bytes c mod quantum = 0"
  shows "states_sound fl quantum budget cs (us @ vs) states'"
  using assms(1,2,4)
proof (induction vs arbitrary: us states)
  case (Cons u vs)
  have ms: "\<forall>c \<in> set (pareto_frontier (members u)). c \<in> set cs \<and> cand_unit c = u \<and> cand_bytes c mod quantum = 0"
    using Cons.prems(3) pareto_frontier_subset [of "members u"] by auto
  note sound = prune_states_sound [OF extend_states_sound [OF Cons.prems(2) q ms]]
  obtain s1 where s1: "allocate_unit fl quantum budget (members u) states = Inr s1"
    "fold_res (\<lambda>u. allocate_unit fl quantum budget (members u)) vs s1 = Inr states'"
    using Cons.prems(1) by (auto simp: bind_res_eq_Inr)
  from s1(1) have "s1 = prune_states (extend_states fl quantum budget (pareto_frontier (members u)) states)"
    by (auto simp: allocate_unit_def Let_def split: if_splits)
  then have "fold_res (\<lambda>u. allocate_unit fl quantum budget (members u)) vs
      (prune_states (extend_states fl quantum budget (pareto_frontier (members u)) states)) = Inr states'"
    using s1(2) by simp
  from Cons.IH [OF this sound] Cons.prems(3) show ?case by simp
qed simp

lemma allocate_bytes_sound:
  assumes "allocate_bytes fl cs byte_budget quantum = Inr a"
  shows "selects cs (sort (remdups (map cand_unit cs))) (al_choices a)
    \<and> al_bytes a = selected_bytes (al_choices a) \<and> al_bytes a \<le> byte_budget"
proof (cases "cs = []")
  case True
  then show ?thesis using assms
    by (auto simp: allocate_bytes_def group_candidates_def selects_def split: if_splits)
next
  case False
  let ?us = "sort (remdups (map cand_unit cs))" and ?budget = "byte_budget div quantum"
  let ?members = "\<lambda>u. dict_get (group_candidates cs) u []"
  have grouped: "group_candidates cs \<noteq> []" using group_candidates_get [of cs] False by force
  obtain states used d where args: "0 \<le> byte_budget" "1 \<le> quantum" "byte_budget mod quantum = 0"
      "\<forall>c \<in> set cs. cand_bytes c mod quantum = 0"
    and s: "fold_res (\<lambda>u. allocate_unit fl quantum ?budget (?members u)) ?us [(0, Fin 0, [])] = Inr states"
      "best_state states = Inr (used, d, al_choices a)" "al_bytes a = selected_bytes (al_choices a)"
    using assms grouped
    by (auto simp: allocate_bytes_def Let_def grouped_units bind_res_eq_Inr selected_bytes_def not_less split: if_splits)
  have "0 \<le> ?budget" using args by (simp add: pos_imp_zdiv_nonneg_iff)
  then have "states_sound fl quantum ?budget cs [] [(0, Fin 0, [])]" by (simp add: states_sound_def selects_def)
  from allocate_units_sound [OF s(1) this] have "states_sound fl quantum ?budget cs ?us states"
    using group_candidates_get [of cs] args by simp
  then have "selects cs ?us (al_choices a)" "selected_bytes (al_choices a) = used * quantum" "used \<le> ?budget"
    using best_state_minimal [OF s(2)] by (auto simp: states_sound_def)
  moreover have "?budget * quantum = byte_budget" using args(3) by (simp add: mult.commute minus_mod_eq_mult_div [symmetric])
  ultimately show ?thesis using s(3) args(2) by (metis mult_right_mono order_trans zero_le_one)
qed

text \<open>
  The allocator with a fixed cost per layer, whatever its arguments: the only error is
  \<open>ValueError\<close>, so that the check that would raise \<open>RuntimeError\<close> never fires; and an answer accounts
  for every byte, the fixed ones and those of the choices, and stays within the budget.
\<close>

theorem accounted_allocation_within_budget:
  "case allocate_with_fixed_layer_cost fl cs byte_budget fixed quantum of
     Inl e \<Rightarrow> e = ValueError
   | Inr a \<Rightarrow> aa_fixed_bytes a = fixed \<and> 0 \<le> fixed \<and> aa_variable_bytes a = selected_bytes (aa_choices a)
       \<and> aa_bytes a = aa_variable_bytes a + fixed \<and> aa_bytes a \<le> byte_budget
       \<and> selects cs (sort (remdups (map cand_unit cs))) (aa_choices a)"
proof (cases "allocate_with_fixed_layer_cost fl cs byte_budget fixed quantum")
  case (Inl e)
  then show ?thesis
    using allocate_bytes_sound [of fl cs "byte_budget - fixed" quantum]
    by (auto simp: allocate_with_fixed_layer_cost_def bind_res_eq_Inl Let_def dest: allocate_bytes_error split: if_splits)
next
  case (Inr a)
  then show ?thesis
    using allocate_bytes_sound [of fl cs "byte_budget - fixed" quantum]
    by (auto simp: allocate_with_fixed_layer_cost_def bind_res_eq_Inr Let_def split: if_splits)
qed

end
