(* ===== verification/UniformCodec.thy ===== *)
theory UniformCodec
  imports Prelude Complex_Main "HOL-Library.Word"
begin

text \<open>
  The uniform codec of the quantisation pipeline, \<open>src/src/quant_pipeline/codecs/uniform.py\<close>:
  codes of a fixed width are packed into bytes, least significant bit first, and an array is
  quantised in groups that share a scale.

  Bytes are \<open>8 word\<close>, the other integers are Python's.  The arithmetic of numpy on floats is a
  parameter: division, product, rounding to the nearest integer and to \<open>float32\<close>.
\<close>

unbundle bit_operations_syntax

section \<open>Packing\<close>

type_synonym uint8 = "8 word"

text \<open>\<open>output[i] |= x & 0xFF\<close>\<close>

definition or_byte :: "nat \<Rightarrow> nat \<Rightarrow> uint8 list \<Rightarrow> uint8 list res" where
  "or_byte i x out =
     (if i < length out then Inr (out[i := out ! i OR word_of_nat (x AND 0xFF)]) else Inl IndexError)"

definition pack_value :: "nat \<Rightarrow> nat \<Rightarrow> nat \<times> uint8 list \<Rightarrow> (nat \<times> uint8 list) res" where
  "pack_value bits v s =
     (let (bit_position, out) = s;
          byte = drop_bit 3 bit_position;
          shift = bit_position AND 7;
          w = push_bit shift v
      in bind_res (or_byte byte (w AND 0xFF) out) (\<lambda>out1.
         bind_res (if shift + bits > 8 then or_byte (byte + 1) (drop_bit 8 w AND 0xFF) out1 else Inr out1) (\<lambda>out2.
           Inr (bit_position + bits, out2))))"

definition pack_unsigned :: "nat list \<Rightarrow> int \<Rightarrow> uint8 list res" where
  "pack_unsigned vs bits =
     (if bits < 1 \<or> bits > 8 \<or> (\<exists>v \<in> set vs. v \<ge> push_bit (nat bits) 1) then Inl ValueError
      else bind_res (fold_res (pack_value (nat bits)) vs
                       (0, replicate ((length vs * nat bits + 7) div 8) 0)) (\<lambda>(_, out). Inr out))"

definition unpack_value :: "uint8 list \<Rightarrow> nat \<Rightarrow> nat \<Rightarrow> nat res" where
  "unpack_value packed bits bit_position =
     (let byte = drop_bit 3 bit_position; shift = bit_position AND 7
      in if \<not> byte < length packed then Inl IndexError
         else bind_res
           (if shift + bits > 8 then
              (if \<not> byte + 1 < length packed then Inl IndexError
               else Inr (unat (packed ! byte) OR push_bit 8 (unat (packed ! (byte + 1)))))
            else Inr (unat (packed ! byte))) (\<lambda>w.
              (let x = drop_bit shift w AND (push_bit bits 1 - 1)
               in if x > 255 then Inl OverflowError else Inr x)))"

definition unpack_unsigned :: "uint8 list \<Rightarrow> nat \<Rightarrow> int \<Rightarrow> nat list res" where
  "unpack_unsigned packed count bits =
     (if bits < 0 then Inl ValueError
      else map_res (\<lambda>i. unpack_value packed (nat bits) (i * nat bits)) [0..<count])"

section \<open>Quantisation\<close>

record quantized_array =
  qa_packed :: "uint8 list"
  qa_scales :: "rat list"
  qa_shape :: "nat list"
  qa_bits :: int
  qa_group_size :: int
  qa_count :: nat

definition stored_bytes :: "quantized_array \<Rightarrow> nat" where
  "stored_bytes q = length (qa_packed q) + 4 * length (qa_scales q)"

text \<open>The arithmetic of numpy\<close>

record float_ops =
  f_div :: "rat \<Rightarrow> rat \<Rightarrow> rat"
  f_mul :: "rat \<Rightarrow> rat \<Rightarrow> rat"
  f_rint :: "rat \<Rightarrow> int"
  f_32 :: "rat \<Rightarrow> rat"

text \<open>The blocks that \<open>flat[start : start + group_size]\<close> runs through\<close>

function chunks :: "nat \<Rightarrow> 'a list \<Rightarrow> 'a list list" where
  "chunks n xs = (if n = 0 \<or> xs = [] then [] else take n xs # chunks n (drop n xs))"
  by pat_completeness auto
termination by (relation "measure (\<lambda>(n, xs). length xs)") auto

declare chunks.simps [simp del]

definition quant_max :: "int \<Rightarrow> int" where
  "quant_max bits = push_bit (nat (bits - 1)) 1 - 1"

definition group_scale :: "float_ops \<Rightarrow> int \<Rightarrow> rat list \<Rightarrow> rat" where
  "group_scale f qmax block =
     (if \<exists>x \<in> set block. x \<noteq> 0 then f_div f (Max (abs ` set block)) (of_int qmax) else 1)"

definition code_of :: "float_ops \<Rightarrow> int \<Rightarrow> rat \<Rightarrow> rat \<Rightarrow> int" where
  "code_of f qmax scale x = max (- qmax) (min qmax (f_rint f (f_div f x scale)))"

definition quantize :: "float_ops \<Rightarrow> nat list \<times> rat list \<Rightarrow> int \<Rightarrow> int \<Rightarrow> quantized_array res" where
  "quantize f array bits group_size =
     (if bits < 2 \<or> bits > 8 \<or> group_size < 1 then Inl ValueError
      else (let (shape, flat) = array; qmax = quant_max bits; blocks = chunks (nat group_size) flat;
                codes = concat (map (\<lambda>block. map (\<lambda>x. nat (code_of f qmax (group_scale f qmax block) x + qmax)) block) blocks)
            in bind_res (pack_unsigned codes bits) (\<lambda>packed.
                 Inr \<lparr>qa_packed = packed, qa_scales = map (\<lambda>block. f_32 f (group_scale f qmax block)) blocks,
                      qa_shape = shape, qa_bits = bits, qa_group_size = group_size, qa_count = length flat\<rparr>)))"

definition dequantize_group :: "float_ops \<Rightarrow> int \<Rightarrow> rat list \<Rightarrow> nat \<times> nat list \<Rightarrow> rat list res" where
  "dequantize_group f qmax scales gb =
     (let (g, block) = gb
      in if g < length scales then Inr (map (\<lambda>c. f_mul f (of_int (int c - qmax)) (scales ! g)) block)
         else Inl IndexError)"

definition dequantize :: "float_ops \<Rightarrow> quantized_array \<Rightarrow> (nat list \<times> rat list) res" where
  "dequantize f q =
     (let qmax = quant_max (qa_bits q)
      in bind_res (unpack_unsigned (qa_packed q) (qa_count q) (qa_bits q)) (\<lambda>codes.
         bind_res (map_res (dequantize_group f qmax (qa_scales q)) (enumerate 0 (chunks (nat (qa_group_size q)) codes)))
           (\<lambda>blocks. Inr (qa_shape q, concat blocks))))"

section \<open>The bits of the packed bytes\<close>

definition bit_at :: "uint8 list \<Rightarrow> nat \<Rightarrow> bool" where
  "bit_at bs i \<longleftrightarrow> bit (bs ! (i div 8)) (i mod 8)"

lemma and_255: "bit ((x :: nat) AND 0xFF) i \<longleftrightarrow> i < 8 \<and> bit x i"
proof -
  have "x AND 0xFF = take_bit 8 x" using take_bit_eq_mask [of 8 x] by (simp add: mask_eq_exp_minus_1)
  then show ?thesis by (simp add: bit_take_bit_iff)
qed

lemma byte_bits: "bit (word_of_nat (x AND 0xFF) :: uint8) m \<longleftrightarrow> m < 8 \<and> bit x m"
proof -
  have "bit (word_of_nat (x AND 0xFF) :: uint8) m \<longleftrightarrow> m < 8 \<and> bit (x AND 0xFF) m"
    by (simp only: bit_of_nat_iff) simp
  then show ?thesis by (auto simp only: and_255)
qed

lemma or_byte_bits:
  assumes "k < length out"
  shows "\<exists>out'. or_byte k x out = Inr out' \<and> length out' = length out
    \<and> (\<forall>i < 8 * length out. bit_at out' i \<longleftrightarrow> bit_at out i \<or> i div 8 = k \<and> bit x (i mod 8))"
proof -
  have "bit_at (out[k := out ! k OR word_of_nat (x AND 0xFF)]) i \<longleftrightarrow> bit_at out i \<or> i div 8 = k \<and> bit x (i mod 8)"
    if "i < 8 * length out" for i
    using assms that
    by (auto simp: bit_at_def nth_list_update bit_or_iff byte_bits less_mult_imp_div_less simp del: of_nat_and_eq)
  then show ?thesis using assms by (simp add: or_byte_def)
qed

lemma bit_position_split: "drop_bit 3 (n :: nat) = n div 8" "(n :: nat) AND 7 = n mod 8"
proof -
  show "drop_bit 3 n = n div 8" by (simp add: drop_bit_eq_div)
  show "n AND 7 = n mod 8" using take_bit_eq_mask [of 3 n] by (simp add: mask_eq_exp_minus_1 take_bit_eq_mod)
qed

lemma bit_less: "v < 2 ^ b \<Longrightarrow> bit (v :: nat) i \<Longrightarrow> i < b"
proof (rule ccontr)
  assume v: "v < 2 ^ b" "bit v i" and "\<not> i < b"
  then have "(2 :: nat) ^ b \<le> 2 ^ i" by simp
  then have "v < 2 ^ i" using v(1) by linarith
  then show False using v(2) by (simp add: bit_iff_odd)
qed

lemma pack_value_bits:
  assumes b: "1 \<le> b" "b \<le> 8" and v: "v < 2 ^ b" and fits: "pos + b \<le> 8 * length out"
  shows "\<exists>out'. pack_value b v (pos, out) = Inr (pos + b, out') \<and> length out' = length out
    \<and> (\<forall>i < 8 * length out. bit_at out' i \<longleftrightarrow> bit_at out i \<or> pos \<le> i \<and> bit v (i - pos))"
proof -
  define byte shift where "byte = pos div 8" and "shift = pos mod 8"
  have pos: "pos = 8 * byte + shift" "shift < 8" by (simp_all add: byte_def shift_def)
  let ?w = "push_bit shift v"
  have in_range: "byte < length out" using fits pos b by linarith
  obtain out1 where 1: "or_byte byte (?w AND 0xFF) out = Inr out1" "length out1 = length out"
    "\<forall>i < 8 * length out. bit_at out1 i \<longleftrightarrow> bit_at out i \<or> i div 8 = byte \<and> bit (?w AND 0xFF) (i mod 8)"
    using or_byte_bits [OF in_range] by metis
  have new: "(i div 8 = byte \<and> bit ?w (i mod 8)) \<or> (i div 8 = byte + 1 \<and> shift + b > 8 \<and> bit ?w (i mod 8 + 8))
      \<longleftrightarrow> pos \<le> i \<and> bit v (i - pos)" for i
  proof -
    have i: "i = 8 * (i div 8) + i mod 8" "i mod 8 < 8" by simp_all
    have w: "bit ?w m \<longleftrightarrow> shift \<le> m \<and> bit v (m - shift)" for m by (simp add: bit_simps)
    have small: "bit v j \<Longrightarrow> j < b" for j using bit_less [OF v] .
    consider "i div 8 = byte" | "i div 8 = byte + 1" | "i div 8 < byte" | "i div 8 > byte + 1" by linarith
    then show ?thesis
    proof cases
      case 1
      then have "i - pos = i mod 8 - shift" "pos \<le> i \<longleftrightarrow> shift \<le> i mod 8" using i pos by linarith+
      then show ?thesis using 1 w by auto
    next
      case 2
      then have "i - pos = i mod 8 + 8 - shift" "pos \<le> i" "shift \<le> i mod 8 + 8" using i pos by linarith+
      moreover have "bit v (i mod 8 + 8 - shift) \<Longrightarrow> shift + b > 8" using small [of "i mod 8 + 8 - shift"] pos(2) by linarith
      ultimately show ?thesis using 2 w by auto
    next
      case 3
      then have "i < pos" using i pos by linarith
      then show ?thesis using 3 by auto
    next
      case 4
      then have "i - pos \<ge> b" using i pos b by linarith
      then show ?thesis using 4 small [of "i - pos"] by auto
    qed
  qed
  obtain out2 where 2: "(if shift + b > 8 then or_byte (byte + 1) (drop_bit 8 ?w AND 0xFF) out1 else Inr out1) = Inr out2"
    "length out2 = length out" "\<forall>i < 8 * length out. bit_at out2 i \<longleftrightarrow> bit_at out1 i
      \<or> (i div 8 = byte + 1 \<and> shift + b > 8 \<and> bit ?w (i mod 8 + 8))"
  proof (cases "shift + b > 8")
    case True
    then have "byte + 1 < length out1" using fits pos 1(2) by linarith
    from or_byte_bits [OF this, of "drop_bit 8 ?w AND 0xFF"] obtain out2 where
      "or_byte (byte + 1) (drop_bit 8 ?w AND 0xFF) out1 = Inr out2" "length out2 = length out1"
      "\<forall>i < 8 * length out1. bit_at out2 i \<longleftrightarrow> bit_at out1 i \<or> i div 8 = byte + 1 \<and> bit (drop_bit 8 ?w AND 0xFF) (i mod 8)"
      by blast
    then show ?thesis using True 1(2) that [of out2] by (auto simp: and_255 bit_drop_bit_eq add.commute)
  qed (use 1 that [of out1] in auto)
  have "pack_value b v (pos, out) = Inr (pos + b, out2)"
    using 1(1) 2(1) by (simp only: pack_value_def bit_position_split Let_def prod.case byte_def [symmetric]
      shift_def [symmetric] bind_res.simps)
  moreover have "\<forall>i < 8 * length out. bit_at out2 i \<longleftrightarrow> bit_at out i \<or> pos \<le> i \<and> bit v (i - pos)"
    using 1(3) 2(3) new by (auto simp: and_255)
  ultimately show ?thesis using 2(2) by blast
qed

text \<open>After some values, just their bits are set.\<close>

lemma pack_values_bits:
  assumes b: "1 \<le> b" "b \<le> 8" and "\<forall>v \<in> set vs. v < 2 ^ b" and "pos + length vs * b \<le> 8 * length out"
  shows "\<exists>out'. fold_res (pack_value b) vs (pos, out) = Inr (pos + length vs * b, out') \<and> length out' = length out
    \<and> (\<forall>i < 8 * length out. bit_at out' i \<longleftrightarrow> bit_at out i
        \<or> (\<exists>k < length vs. pos + k * b \<le> i \<and> bit (vs ! k) (i - (pos + k * b))))"
  using assms(3,4)
proof (induction vs arbitrary: pos out)
  case Nil
  then show ?case by simp
next
  case (Cons v vs)
  have v: "v < 2 ^ b" "pos + b \<le> 8 * length out" using Cons.prems by simp_all
  obtain out1 where 1: "pack_value b v (pos, out) = Inr (pos + b, out1)" "length out1 = length out"
    "\<forall>i < 8 * length out. bit_at out1 i \<longleftrightarrow> bit_at out i \<or> pos \<le> i \<and> bit v (i - pos)"
    using pack_value_bits [OF b v] by blast
  have "\<forall>v \<in> set vs. v < 2 ^ b" "pos + b + length vs * b \<le> 8 * length out1" using Cons.prems 1(2) by simp_all
  from Cons.IH [OF this] obtain out2 where 2: "fold_res (pack_value b) vs (pos + b, out1) = Inr (pos + b + length vs * b, out2)"
    "length out2 = length out1" "\<forall>i < 8 * length out1. bit_at out2 i \<longleftrightarrow> bit_at out1 i
      \<or> (\<exists>k < length vs. pos + b + k * b \<le> i \<and> bit (vs ! k) (i - (pos + b + k * b)))" by blast
  have shift: "(\<exists>k < length (v # vs). pos + k * b \<le> i \<and> bit ((v # vs) ! k) (i - (pos + k * b)))
      \<longleftrightarrow> pos \<le> i \<and> bit v (i - pos) \<or> (\<exists>k < length vs. pos + b + k * b \<le> i \<and> bit (vs ! k) (i - (pos + b + k * b)))" for i
    by (simp only: length_Cons Ex_less_Suc2) (simp add: add.assoc)
  show ?case
    using 1 2 by (simp only: fold_res.simps bind_res.simps shift) (simp add: algebra_simps)
qed

section \<open>Unpacking\<close>

lemma byte_bit: "bit (unat (w :: uint8)) i \<longleftrightarrow> i < 8 \<and> bit w i"
  using bit_imp_le_length [of w i] by (auto simp: bit_unsigned_iff)

lemma and_low_mask: "(x :: nat) AND (push_bit b 1 - 1) = take_bit b x"
  by (simp add: take_bit_eq_mask mask_eq_exp_minus_1 push_bit_eq_mult)

lemma unpack_value_bits:
  assumes b: "1 \<le> b" "b \<le> 8" and fits: "pos + b \<le> 8 * length packed"
  shows "\<exists>x. unpack_value packed b pos = Inr x \<and> (\<forall>j. bit x j \<longleftrightarrow> j < b \<and> bit_at packed (pos + j))"
proof -
  define byte shift where "byte = pos div 8" and "shift = pos mod 8"
  have pos: "pos = 8 * byte + shift" "shift < 8" by (simp_all add: byte_def shift_def)
  have in_range: "byte < length packed" using fits pos b by linarith
  have next_range: "shift + b > 8 \<Longrightarrow> byte + 1 < length packed" using fits pos by linarith
  define w where "w = (if shift + b > 8 then unat (packed ! byte) OR push_bit 8 (unat (packed ! (byte + 1)))
    else unat (packed ! byte))"
  have w: "bit w (shift + j) \<longleftrightarrow> bit_at packed (pos + j)" if "j < b" for j
  proof (cases "shift + j < 8")
    case True
    then have "(pos + j) div 8 = byte" "(pos + j) mod 8 = shift + j" using pos by (simp_all add: add.assoc)
    then show ?thesis using True by (simp add: w_def bit_at_def bit_or_iff byte_bit bit_push_bit_iff)
  next
    case False
    then obtain m where m: "shift + j = 8 + m" using le_Suc_ex [of 8 "shift + j"] by auto
    have "m < 8" using m pos(2) b that by linarith
    moreover have "pos + j = 8 * (byte + 1) + m" using m pos by simp
    moreover have "(8 * (byte + 1) + m) div 8 = byte + 1" "(8 * (byte + 1) + m) mod 8 = m" if "m < 8"
      using that by (simp_all only: div_mult_self4 mod_mult_self4 div_less mod_less)
    ultimately have "(pos + j) div 8 = byte + 1" "(pos + j) mod 8 = m" by (simp_all only:)
    moreover have "shift + b > 8" using False that by linarith
    ultimately show ?thesis using m \<open>m < 8\<close> by (simp add: w_def bit_at_def bit_or_iff byte_bit bit_push_bit_iff)
  qed
  let ?x = "take_bit b (drop_bit shift w)"
  have "?x < 2 ^ b" by simp
  also have "(2 :: nat) ^ b \<le> 2 ^ 8" using b by (intro power_increasing) simp_all
  finally have "\<not> ?x > 255" by simp
  moreover have "(if shift + b > 8 then (if \<not> byte + 1 < length packed then Inl IndexError
      else Inr (unat (packed ! byte) OR push_bit 8 (unat (packed ! (byte + 1)))))
      else Inr (unat (packed ! byte))) = Inr w" using next_range by (simp add: w_def)
  ultimately have "unpack_value packed b pos = Inr ?x"
    using in_range
    by (simp only: unpack_value_def bit_position_split Let_def byte_def [symmetric] shift_def [symmetric]
        bind_res.simps and_low_mask) simp
  moreover have "bit ?x j \<longleftrightarrow> j < b \<and> bit_at packed (pos + j)" for j
    using w [of j] by (auto simp: bit_take_bit_iff bit_drop_bit_eq)
  ultimately show ?thesis by blast
qed

lemma unpack_packed_value:
  assumes b: "1 \<le> b" "b \<le> 8" and vs: "\<forall>v \<in> set vs. v < 2 ^ b" and k: "k < length vs"
    and len: "length vs * b \<le> 8 * length out"
    and bits: "\<forall>i < 8 * length out. bit_at out i \<longleftrightarrow> (\<exists>k < length vs. k * b \<le> i \<and> bit (vs ! k) (i - k * b))"
  shows "unpack_value out b (k * b) = Inr (vs ! k)"
proof -
  have "(k + 1) * b \<le> length vs * b" using k by (intro mult_right_mono) simp_all
  then have fits: "k * b + b \<le> 8 * length out" using len by simp
  obtain x where x: "unpack_value out b (k * b) = Inr x" "\<forall>j. bit x j \<longleftrightarrow> j < b \<and> bit_at out (k * b + j)"
    using unpack_value_bits [OF b fits] by blast
  have small: "bit (vs ! m) j \<Longrightarrow> j < b" if "m < length vs" for m j using vs that bit_less by (metis nth_mem)
  have "bit x j \<longleftrightarrow> bit (vs ! k) j" for j
  proof (cases "j < b")
    case True
    then have "k * b + j < 8 * length out" using fits by linarith
    then have "bit_at out (k * b + j) \<longleftrightarrow> (\<exists>m < length vs. m * b \<le> k * b + j \<and> bit (vs ! m) (k * b + j - m * b))"
      using bits by blast
    also have "\<dots> \<longleftrightarrow> bit (vs ! k) j"
    proof
      assume "\<exists>m < length vs. m * b \<le> k * b + j \<and> bit (vs ! m) (k * b + j - m * b)"
      then obtain m where m: "m < length vs" "m * b \<le> k * b + j" "bit (vs ! m) (k * b + j - m * b)" by blast
      have near: "k * b + j < m * b + b" using small [OF m(1,3)] m(2) by linarith
      have "\<not> m < k"
      proof
        assume "m < k"
        then have "(m + 1) * b \<le> k * b" by (intro mult_right_mono) simp_all
        then show False using near by simp
      qed
      moreover have "\<not> k < m"
      proof
        assume "k < m"
        then have "(k + 1) * b \<le> m * b" by (intro mult_right_mono) simp_all
        then show False using m(2) True by simp
      qed
      ultimately show "bit (vs ! k) j" using m(3) by simp
    qed (use k in auto)
    finally show ?thesis using x(2) True by simp
  next
    case False
    then show ?thesis using x(2) small [OF k] by blast
  qed
  then have "x = vs ! k" by (simp add: bit_eq_iff)
  then show ?thesis using x(1) by simp
qed

lemma map_res_Inr_all: "(\<And>x. x \<in> set xs \<Longrightarrow> f x = Inr (g x)) \<Longrightarrow> map_res f xs = Inr (map g xs)"
  by (induction xs) simp_all

lemma bit_at_zero: "i < 8 * n \<Longrightarrow> \<not> bit_at (replicate n 0) i"
  by (simp add: bit_at_def less_mult_imp_div_less)

lemma pack_unpack:
  assumes "1 \<le> bits" "bits \<le> 8" and vs: "\<forall>v \<in> set vs. v < 2 ^ nat bits"
  shows "\<exists>out. pack_unsigned vs bits = Inr out \<and> length out = (length vs * nat bits + 7) div 8
    \<and> unpack_unsigned out (length vs) bits = Inr vs"
proof -
  let ?b = "nat bits" and ?n = "(length vs * nat bits + 7) div 8"
  have b: "1 \<le> ?b" "?b \<le> 8" using assms(1,2) by simp_all
  have room: "length vs * ?b \<le> 8 * ?n" by linarith
  then have "0 + length vs * ?b \<le> 8 * length (replicate ?n (0 :: uint8))" by simp
  from pack_values_bits [OF b vs this] obtain out where
    o: "fold_res (pack_value ?b) vs (0, replicate ?n 0) = Inr (length vs * ?b, out)" "length out = ?n"
    "\<forall>i < 8 * ?n. bit_at out i \<longleftrightarrow> bit_at (replicate ?n 0) i \<or> (\<exists>k < length vs. k * ?b \<le> i \<and> bit (vs ! k) (i - k * ?b))"
    by auto
  have "\<not> (\<exists>v \<in> set vs. v \<ge> push_bit ?b 1)" using vs by (auto simp: push_bit_eq_mult not_le)
  then have pack: "pack_unsigned vs bits = Inr out" using o(1) assms(1,2) by (simp add: pack_unsigned_def)
  have bits: "\<forall>i < 8 * length out. bit_at out i \<longleftrightarrow> (\<exists>k < length vs. k * ?b \<le> i \<and> bit (vs ! k) (i - k * ?b))"
    using o(2,3) bit_at_zero by simp
  have "map_res (\<lambda>i. unpack_value out ?b (i * ?b)) [0..<length vs] = Inr (map (\<lambda>i. vs ! i) [0..<length vs])"
    by (rule map_res_Inr_all) (use unpack_packed_value [OF b vs _ _ bits] room o(2) in auto)
  then have "unpack_unsigned out (length vs) bits = Inr vs"
    using assms(1) by (simp add: unpack_unsigned_def map_nth)
  then show ?thesis using pack o(2) by blast
qed

text \<open>
  C28. Packing is lossless: values that fit 1 to 8 bits are packed into just as many bytes as
  their bits need, and unpacking gives them back, also where a value straddles two bytes; other
  widths and values that do not fit raise \<open>ValueError\<close>.
\<close>

theorem pack_unpack_roundtrip:
  "if 1 \<le> bits \<and> bits \<le> 8 \<and> (\<forall>v \<in> set vs. v < 2 ^ nat bits)
   then (case pack_unsigned vs bits of Inl _ \<Rightarrow> False
      | Inr out \<Rightarrow> length out = (length vs * nat bits + 7) div 8 \<and> unpack_unsigned out (length vs) bits = Inr vs)
   else pack_unsigned vs bits = Inl ValueError"
proof (cases "1 \<le> bits \<and> bits \<le> 8 \<and> (\<forall>v \<in> set vs. v < 2 ^ nat bits)")
  case True
  then show ?thesis using pack_unpack [of bits vs] by auto
next
  case False
  then show ?thesis by (auto simp: pack_unsigned_def push_bit_eq_mult not_less)
qed

lemma pack_unpack_roundtrip_witness:
  "case pack_unsigned [5, 2, 7, 1] 3 of Inl _ \<Rightarrow> False
   | Inr out \<Rightarrow> length out = 2 \<and> unpack_unsigned out 4 3 = Inr [5, 2, 7, 1]"
  using pack_unpack_roundtrip [of 3 "[5, 2, 7, 1]"] by (simp add: One_nat_def [symmetric] split: sum.splits del: One_nat_def)

section \<open>Quantised arrays\<close>

lemma chunks_Nil [simp]: "chunks n [] = []"
  by (simp add: chunks.simps)

lemma chunks_step: "0 < n \<Longrightarrow> xs \<noteq> [] \<Longrightarrow> chunks n xs = take n xs # chunks n (drop n xs)"
  by (simp add: chunks.simps [of n xs])

lemma concat_chunks: "0 < n \<Longrightarrow> concat (chunks n xs) = xs"
proof (induction n xs rule: chunks.induct)
  case (1 n xs)
  then show ?case by (cases "xs = []") (simp_all add: chunks_step)
qed

lemma chunks_map_blocks:
  assumes "0 < n" and "\<And>block. length (g block) = length block"
  shows "chunks n (concat (map g (chunks n xs))) = map g (chunks n xs)"
  using assms(1)
proof (induction n xs rule: chunks.induct)
  case (1 n xs)
  show ?case
  proof (cases "xs = []")
    case False
    let ?rest = "concat (map g (chunks n (drop n xs)))"
    have len: "length (g (take n xs)) = min n (length xs)" using assms(2) by (simp add: min.commute)
    have "take n (g (take n xs) @ ?rest) = g (take n xs) \<and> drop n (g (take n xs) @ ?rest) = ?rest"
      using len by (cases "length xs \<le> n") (simp_all add: min_def)
    moreover have "g (take n xs) \<noteq> []" using len 1(2) False by (metis length_0_conv min_0R min_def not_gr_zero)
    then have "g (take n xs) @ ?rest \<noteq> []" by simp
    ultimately show ?thesis using 1 False by (simp add: chunks_step)
  qed simp
qed

lemma code_of_range: "0 \<le> qmax \<Longrightarrow> - qmax \<le> code_of f qmax s x \<and> code_of f qmax s x \<le> qmax"
  by (simp add: code_of_def)

lemma quant_max_bounds:
  assumes "2 \<le> bits" and "bits \<le> 8"
  shows "0 < quant_max bits" and "2 * quant_max bits < 2 ^ nat bits"
proof -
  have q: "quant_max bits = 2 ^ nat (bits - 1) - 1" by (simp add: quant_max_def push_bit_eq_mult)
  have n: "nat bits = Suc (nat (bits - 1))" using assms by simp
  show "2 * quant_max bits < 2 ^ nat bits" by (simp add: q n)
  have "(2 :: int) ^ 1 \<le> 2 ^ nat (bits - 1)" using assms by (intro power_increasing) simp_all
  then show "0 < quant_max bits" by (simp add: q)
qed

text \<open>What an element is restored to\<close>

definition restored :: "float_ops \<Rightarrow> int \<Rightarrow> rat list \<Rightarrow> rat list" where
  "restored f qmax block = map (\<lambda>x. f_mul f (of_int (code_of f qmax (group_scale f qmax block) x))
     (f_32 f (group_scale f qmax block))) block"

text \<open>
  Dequantising a quantised array gives back its shape and, for every element, the product of
  its code and the stored scale of its group, where the code is the quotient by the scale, rounded
  and clipped to the symmetric range of the width: nothing is lost in packing, in the order of the
  elements or at the last, shorter group.  Nothing is assumed of the arithmetic of numpy.
\<close>

theorem dequantize_quantize:
  "if 2 \<le> bits \<and> bits \<le> 8 \<and> 1 \<le> group_size
   then (case quantize f (shape, flat) bits group_size of Inl _ \<Rightarrow> False
      | Inr q \<Rightarrow> dequantize f q = Inr (shape, concat (map (restored f (quant_max bits)) (chunks (nat group_size) flat)))
          \<and> length (concat (map (restored f (quant_max bits)) (chunks (nat group_size) flat))) = length flat
          \<and> length (qa_packed q) = (length flat * nat bits + 7) div 8)
   else quantize f (shape, flat) bits group_size = Inl ValueError"
proof (cases "2 \<le> bits \<and> bits \<le> 8 \<and> 1 \<le> group_size")
  case False
  then show ?thesis by (auto simp: quantize_def)
next
  case True
  let ?qmax = "quant_max bits" and ?n = "nat group_size"
  let ?blocks = "chunks ?n flat"
  define g where "g block = map (\<lambda>x. nat (code_of f ?qmax (group_scale f ?qmax block) x + ?qmax)) block" for block
  have n: "0 < ?n" and q: "0 < ?qmax" "2 * ?qmax < 2 ^ nat bits" using True quant_max_bounds [of bits] by simp_all
  have len: "length (concat (map h ?blocks)) = length flat" if "\<And>block. length (h block) = length block" for h :: "rat list \<Rightarrow> 'x list"
    using concat_chunks [OF n, of flat] that by (metis (no_types, lifting) length_concat map_cong map_map comp_apply)
  have g: "length (g block) = length block" for block by (simp add: g_def)
  have "v < 2 ^ nat bits" if v: "v \<in> set (concat (map g ?blocks))" for v
  proof -
    obtain s x where "v = nat (code_of f ?qmax s x + ?qmax)" using v by (auto simp: g_def)
    then have "int v < 2 ^ nat bits" using code_of_range [of ?qmax f s x] q by simp
    then show ?thesis by (simp add: of_nat_less_iff [symmetric] del: of_nat_less_iff)
  qed
  then obtain out where o: "pack_unsigned (concat (map g ?blocks)) bits = Inr out"
    "length out = (length flat * nat bits + 7) div 8"
    "unpack_unsigned out (length flat) bits = Inr (concat (map g ?blocks))"
    using pack_unpack [of bits "concat (map g ?blocks)"] True len [OF g] by auto
  define qa where "qa = \<lparr>qa_packed = out, qa_scales = map (\<lambda>block. f_32 f (group_scale f ?qmax block)) ?blocks,
    qa_shape = shape, qa_bits = bits, qa_group_size = group_size, qa_count = length flat\<rparr>"
  have quant: "quantize f (shape, flat) bits group_size = Inr qa"
    using True o(1) by (simp add: quantize_def g_def [abs_def] Let_def qa_def)
  have "map_res (dequantize_group f ?qmax (qa_scales qa)) (enumerate 0 (map g ?blocks))
      = Inr (map (\<lambda>(i, _). restored f ?qmax (?blocks ! i)) (enumerate 0 (map g ?blocks)))"
  proof (rule map_res_Inr_all)
    fix e assume "e \<in> set (enumerate 0 (map g ?blocks))"
    then have "fst e < length ?blocks" "snd e = g (?blocks ! fst e)" by (auto simp: in_set_enumerate_eq)
    then obtain i where i: "e = (i, g (?blocks ! i))" "i < length ?blocks" by (metis prod.collapse)
    have "rat_of_nat (nat (code_of f ?qmax s x + ?qmax)) - of_int ?qmax = of_int (code_of f ?qmax s x)" for s x
      using code_of_range [of ?qmax f s x] q(1) by (simp add: of_nat_nat)
    then show "dequantize_group f ?qmax (qa_scales qa) e = Inr ((\<lambda>(i, _). restored f ?qmax (?blocks ! i)) e)"
      using i by (simp add: dequantize_group_def qa_def restored_def g_def)
  qed
  also have "map (\<lambda>(i, _). restored f ?qmax (?blocks ! i)) (enumerate 0 (map g ?blocks)) = map (restored f ?qmax) ?blocks"
    by (rule nth_equalityI) (simp_all add: nth_enumerate_eq)
  finally have "dequantize f qa = Inr (shape, concat (map (restored f ?qmax) ?blocks))"
    using o(3) chunks_map_blocks [OF n g, of flat] by (simp add: dequantize_def qa_def)
  then show ?thesis using True quant o(2) len [of "restored f ?qmax"] by (simp add: restored_def qa_def)
qed

end
