(* ===== verification/MlaCapacity.thy ===== *)
theory MlaCapacity
  imports Prelude Complex_Main
begin

text \<open>
  The capacity planner of the quantisation pipeline, \<open>src/src/quant_pipeline/capacity/mla.py\<close>:
  how many tokens of KV cache fit beside the weights on every device, and whether a target fits.

  Python divides two integers to a double before \<open>ceil\<close>, and the budget multiplies by a float:
  \<open>fl\<close> is the rounding to a double.  The attributes are integers, so that the type checks of the
  source leave the checks of their range; \<open>gib\<close>, a conversion for callers, is left out.
\<close>

section \<open>Layouts\<close>

record kv_layout =
  ly_cache_layers :: int
  ly_record_bytes :: int
  ly_dcp_size :: int
  ly_block_tokens :: int

record kv_component =
  kc_name :: string
  kc_cache_layers :: int
  kc_record_bytes :: int
  kc_shard_size :: int
  kc_block_tokens :: int

record composite_layout =
  cl_components :: "kv_component list"
  cl_deployment_ranks :: int

datatype layout = SingleLayout kv_layout | CompositeLayout composite_layout

text \<open>\<open>math.ceil(a / b)\<close>\<close>

definition ceil_div :: "(rat \<Rightarrow> rat) \<Rightarrow> int \<Rightarrow> int \<Rightarrow> int" where
  "ceil_div fl a b = \<lceil>fl (of_int a / of_int b)\<rceil>"

definition kv_layout_valid :: "kv_layout \<Rightarrow> bool" where
  "kv_layout_valid l \<longleftrightarrow> ly_cache_layers l \<ge> 1 \<and> ly_record_bytes l \<ge> 1 \<and> ly_dcp_size l \<ge> 1 \<and> ly_block_tokens l \<ge> 1"

definition local_blocks :: "(rat \<Rightarrow> rat) \<Rightarrow> kv_layout \<Rightarrow> int \<Rightarrow> int res" where
  "local_blocks fl l global_tokens =
     (if \<not> kv_layout_valid l \<or> global_tokens < 0 then Inl ValueError
      else Inr (ceil_div fl (ceil_div fl global_tokens (ly_block_tokens l)) (ly_dcp_size l)))"

definition single_bytes_per_rank :: "(rat \<Rightarrow> rat) \<Rightarrow> kv_layout \<Rightarrow> int \<Rightarrow> int res" where
  "single_bytes_per_rank fl l global_tokens =
     bind_res (local_blocks fl l global_tokens) (\<lambda>n.
       Inr (n * ly_block_tokens l * ly_cache_layers l * ly_record_bytes l))"

definition single_tokens_from_bytes :: "kv_layout \<Rightarrow> int \<Rightarrow> int res" where
  "single_tokens_from_bytes l rank_bytes =
     (if \<not> kv_layout_valid l \<or> rank_bytes < 0 then Inl ValueError
      else Inr (rank_bytes div (ly_block_tokens l * ly_cache_layers l * ly_record_bytes l)
                * ly_dcp_size l * ly_block_tokens l))"

definition component_valid :: "kv_component \<Rightarrow> bool" where
  "component_valid c \<longleftrightarrow> kc_name c \<noteq> [] \<and> kc_cache_layers c \<ge> 1 \<and> kc_record_bytes c \<ge> 1 \<and> kc_shard_size c \<ge> 1
     \<and> kc_block_tokens c \<ge> 1"

definition component_bytes :: "(rat \<Rightarrow> rat) \<Rightarrow> int \<Rightarrow> kv_component \<Rightarrow> int" where
  "component_bytes fl global_tokens c =
     ceil_div fl (ceil_div fl global_tokens (kc_block_tokens c)) (kc_shard_size c)
       * kc_block_tokens c * kc_cache_layers c * kc_record_bytes c"

definition composite_valid :: "composite_layout \<Rightarrow> bool" where
  "composite_valid l \<longleftrightarrow> cl_deployment_ranks l \<ge> 1 \<and> cl_components l \<noteq> []
     \<and> (\<forall>c \<in> set (cl_components l). component_valid c \<and> cl_deployment_ranks l mod kc_shard_size c = 0)
     \<and> distinct (map kc_name (cl_components l))"

definition composite_bytes :: "(rat \<Rightarrow> rat) \<Rightarrow> composite_layout \<Rightarrow> int \<Rightarrow> int" where
  "composite_bytes fl l global_tokens = sum_list (map (component_bytes fl global_tokens) (cl_components l))"

definition composite_bytes_per_rank :: "(rat \<Rightarrow> rat) \<Rightarrow> composite_layout \<Rightarrow> int \<Rightarrow> int res" where
  "composite_bytes_per_rank fl l global_tokens =
     (if \<not> composite_valid l \<or> global_tokens < 0 then Inl ValueError else Inr (composite_bytes fl l global_tokens))"

section \<open>The search for the largest number of tokens\<close>

text \<open>\<open>while self.bytes_per_rank(high) <= rank_bytes: high *= 2\<close>, which may not end\<close>

partial_function (option) double_until :: "(int \<Rightarrow> int) \<Rightarrow> int \<Rightarrow> int \<Rightarrow> int option" where
  "double_until bytes rank_bytes high =
     (if bytes high \<le> rank_bytes then double_until bytes rank_bytes (high * 2) else Some high)"

declare double_until.simps [code]

function bisect :: "(int \<Rightarrow> int) \<Rightarrow> int \<Rightarrow> int \<Rightarrow> int \<Rightarrow> int" where
  "bisect bytes rank_bytes low high =
     (if low + 1 < high then
        (let middle = (low + high) div 2
         in if bytes middle \<le> rank_bytes then bisect bytes rank_bytes middle high
            else bisect bytes rank_bytes low middle)
      else low)"
  by pat_completeness auto
termination
  by (relation "measure (\<lambda>(bytes, rank_bytes, low, high). nat (high - low))") auto

declare bisect.simps [simp del]

definition token_quantum :: "composite_layout \<Rightarrow> int" where
  "token_quantum l = fold (\<lambda>c. lcm (kc_block_tokens c * kc_shard_size c)) (cl_components l) 1"

definition composite_tokens_from_bytes :: "(rat \<Rightarrow> rat) \<Rightarrow> composite_layout \<Rightarrow> int \<Rightarrow> int res option" where
  "composite_tokens_from_bytes fl l rank_bytes =
     (if \<not> composite_valid l \<or> rank_bytes < 0 then Some (Inl ValueError)
      else map_option (\<lambda>high.
             Inr (bisect (composite_bytes fl l) rank_bytes 0 high div token_quantum l * token_quantum l))
           (double_until (composite_bytes fl l) rank_bytes 1))"

section \<open>Budgets and plans\<close>

record device_budget =
  db_device :: int
  db_total_hbm :: int
  db_startup_free :: int
  db_utilization :: rat
  db_weight :: int
  db_non_weight_non_kv :: int
  db_safety_margin :: int

definition budget_valid :: "device_budget \<Rightarrow> bool" where
  "budget_valid d \<longleftrightarrow> db_device d \<ge> 0 \<and> db_total_hbm d \<ge> 0 \<and> db_startup_free d \<ge> 0 \<and> db_weight d \<ge> 0
     \<and> db_non_weight_non_kv d \<ge> 0 \<and> db_safety_margin d \<ge> 0 \<and> 0 < db_utilization d \<and> db_utilization d \<le> 1"

definition usable_bytes :: "(rat \<Rightarrow> rat) \<Rightarrow> device_budget \<Rightarrow> int" where
  "usable_bytes fl d = min \<lfloor>fl (fl (of_int (db_total_hbm d)) * db_utilization d)\<rfloor> (db_startup_free d)"

definition kv_available_bytes :: "(rat \<Rightarrow> rat) \<Rightarrow> device_budget \<Rightarrow> int" where
  "kv_available_bytes fl d =
     max 0 (usable_bytes fl d - db_weight d - db_non_weight_non_kv d - db_safety_margin d)"

record capacity_plan =
  cp_layout :: layout
  cp_devices :: "device_budget list"
  cp_target_tokens :: int
  cp_limiting_device :: int
  cp_projected_tokens :: int
  cp_target_bytes :: int
  cp_required_additional :: "int list"
  cp_maximum_weight :: "int list"
  cp_feasible :: bool

definition layout_valid :: "layout \<Rightarrow> bool" where
  "layout_valid l = (case l of SingleLayout s \<Rightarrow> kv_layout_valid s | CompositeLayout c \<Rightarrow> composite_valid c)"

definition layout_ranks :: "layout \<Rightarrow> int" where
  "layout_ranks l = (case l of SingleLayout s \<Rightarrow> ly_dcp_size s | CompositeLayout c \<Rightarrow> cl_deployment_ranks c)"

definition bytes_per_rank :: "(rat \<Rightarrow> rat) \<Rightarrow> layout \<Rightarrow> int \<Rightarrow> int res" where
  "bytes_per_rank fl l n =
     (case l of SingleLayout s \<Rightarrow> single_bytes_per_rank fl s n | CompositeLayout c \<Rightarrow> composite_bytes_per_rank fl c n)"

definition tokens_from_bytes :: "(rat \<Rightarrow> rat) \<Rightarrow> layout \<Rightarrow> int \<Rightarrow> int res option" where
  "tokens_from_bytes fl l n =
     (case l of SingleLayout s \<Rightarrow> Some (single_tokens_from_bytes s n)
      | CompositeLayout c \<Rightarrow> composite_tokens_from_bytes fl c n)"

text \<open>The capacities of the devices, in their order\<close>

fun capacities :: "(rat \<Rightarrow> rat) \<Rightarrow> layout \<Rightarrow> device_budget list \<Rightarrow> int list res option" where
  "capacities fl l [] = Some (Inr [])"
| "capacities fl l (d # ds) =
     (case tokens_from_bytes fl l (kv_available_bytes fl d) of
        None \<Rightarrow> None
      | Some (Inl e) \<Rightarrow> Some (Inl e)
      | Some (Inr n) \<Rightarrow> map_option (\<lambda>r. bind_res r (\<lambda>ns. Inr (n # ns))) (capacities fl l ds))"

text \<open>The first index of the smallest capacity\<close>

definition limiting_index :: "int list \<Rightarrow> nat" where
  "limiting_index ns = fst (hd (sort_key snd (enumerate 0 ns)))"

definition make_plan ::
  "(rat \<Rightarrow> rat) \<Rightarrow> layout \<Rightarrow> device_budget list \<Rightarrow> int list \<Rightarrow> int \<Rightarrow> int \<Rightarrow> capacity_plan" where
  "make_plan fl l ds ns target_tokens target_kv =
     (let i = limiting_index ns; shortfalls = map (\<lambda>d. max 0 (target_kv - kv_available_bytes fl d)) ds
      in \<lparr>cp_layout = l, cp_devices = ds, cp_target_tokens = target_tokens, cp_limiting_device = db_device (ds ! i), cp_projected_tokens = ns ! i, cp_target_bytes = target_kv,
          cp_required_additional = shortfalls,
          cp_maximum_weight = map (\<lambda>d. max 0 (usable_bytes fl d - db_non_weight_non_kv d - db_safety_margin d
            - target_kv)) ds,
          cp_feasible = (\<forall>s \<in> set shortfalls. s = 0)\<rparr>)"

definition build_capacity_plan ::
  "(rat \<Rightarrow> rat) \<Rightarrow> layout \<Rightarrow> device_budget list \<Rightarrow> int \<Rightarrow> capacity_plan res option" where
  "build_capacity_plan fl l ds target_tokens =
     (if \<not> layout_valid l \<or> ds = [] \<or> int (length ds) \<noteq> layout_ranks l \<or> target_tokens < 1
         \<or> sort (map db_device ds) \<noteq> map int [0..<length ds] \<or> (\<exists>d \<in> set ds. \<not> budget_valid d)
      then Some (Inl ValueError)
      else map_option (\<lambda>r. bind_res r (\<lambda>ns.
             bind_res (bytes_per_rank fl l target_tokens) (\<lambda>target_kv. Inr (make_plan fl l ds ns target_tokens target_kv))))
           (capacities fl l ds))"

section \<open>Monotonicity\<close>

text \<open>What is used of the rounding: it is monotone and loses less than half of a positive number.\<close>

definition rounds_well :: "(rat \<Rightarrow> rat) \<Rightarrow> bool" where
  "rounds_well fl \<longleftrightarrow> mono fl \<and> fl 0 = 0 \<and> (\<forall>x \<ge> 0. x / 2 \<le> fl x)"

lemma ceil_div_mono: "rounds_well fl \<Longrightarrow> 1 \<le> b \<Longrightarrow> x \<le> y \<Longrightarrow> ceil_div fl x b \<le> ceil_div fl y b"
  unfolding ceil_div_def by (intro ceiling_mono monoD [of fl]) (auto simp: rounds_well_def divide_right_mono)

lemma ceil_div_nonneg: "rounds_well fl \<Longrightarrow> 1 \<le> b \<Longrightarrow> 0 \<le> x \<Longrightarrow> 0 \<le> ceil_div fl x b"
  using ceil_div_mono [of fl b 0 x] by (simp add: ceil_div_def rounds_well_def)

lemma ceil_div_lower:
  assumes "rounds_well fl" and "1 \<le> b" and "0 \<le> x"
  shows "x \<le> ceil_div fl x b * (2 * b)"
proof -
  have "\<forall>y \<ge> 0. y / 2 \<le> fl y" using assms(1) by (simp add: rounds_well_def)
  then have "of_int x / of_int b / 2 \<le> fl (of_int x / of_int b)" using assms(2,3) by (simp only: divide_nonneg_nonneg of_int_0_le_iff)
  also have "\<dots> \<le> of_int (ceil_div fl x b)" by (simp add: ceil_div_def)
  finally have "rat_of_int x \<le> of_int (ceil_div fl x b * (2 * b))" using assms(2) by (simp add: field_simps)
  then show ?thesis by (simp only: of_int_le_iff)
qed

lemma component_bytes_mono:
  assumes "rounds_well fl" and "component_valid c" and "x \<le> y"
  shows "component_bytes fl x c \<le> component_bytes fl y c"
  unfolding component_bytes_def using assms
  by (intro mult_right_mono ceil_div_mono) (simp_all add: component_valid_def)

lemma component_bytes_nonneg:
  assumes "rounds_well fl" and "component_valid c" and "0 \<le> x"
  shows "0 \<le> component_bytes fl x c"
  unfolding component_bytes_def using assms
  by (intro mult_nonneg_nonneg ceil_div_nonneg) (simp_all add: component_valid_def)

lemma component_bytes_lower:
  assumes fl: "rounds_well fl" and c: "component_valid c" and x: "0 \<le> x"
  shows "x \<le> component_bytes fl x c * (4 * kc_shard_size c * kc_block_tokens c)"
proof -
  let ?b = "kc_block_tokens c" and ?s = "kc_shard_size c"
  let ?n = "ceil_div fl (ceil_div fl x ?b) ?s"
  have pos: "1 \<le> ?b" "1 \<le> ?s" "1 \<le> kc_cache_layers c" "1 \<le> kc_record_bytes c" using c by (simp_all add: component_valid_def)
  have n: "0 \<le> ceil_div fl x ?b" "0 \<le> ?n" using fl pos x by (simp_all add: ceil_div_nonneg)
  have "x \<le> ceil_div fl x ?b * (2 * ?b)" by (rule ceil_div_lower [OF fl pos(1) x])
  also have "\<dots> \<le> (?n * (2 * ?s)) * (2 * ?b)"
    using ceil_div_lower [OF fl pos(2) n(1)] pos by (intro mult_right_mono) simp_all
  also have "\<dots> = ?n * (4 * ?s * ?b)" by (simp add: algebra_simps)
  also have "\<dots> \<le> component_bytes fl x c * (4 * ?s * ?b)"
  proof (intro mult_right_mono)
    have "1 \<le> ?b * kc_cache_layers c * kc_record_bytes c"
      using pos by (simp add: int_one_le_iff_zero_less)
    from mult_left_mono [OF this n(2)] show "?n \<le> component_bytes fl x c"
      by (simp add: component_bytes_def mult.assoc)
  qed (use pos in simp)
  finally show ?thesis .
qed

lemma composite_bytes_mono:
  assumes "rounds_well fl" and "composite_valid l" and "x \<le> y"
  shows "composite_bytes fl l x \<le> composite_bytes fl l y"
  unfolding composite_bytes_def using assms
  by (intro sum_list_mono component_bytes_mono) (simp_all add: composite_valid_def)

lemma composite_bytes_unbounded:
  assumes fl: "rounds_well fl" and l: "composite_valid l"
  shows "\<exists>N. \<forall>x \<ge> N. rank_bytes < composite_bytes fl l x"
proof -
  obtain c cs where cs: "cl_components l = c # cs" using l by (cases "cl_components l") (auto simp: composite_valid_def)
  have c: "component_valid c" "\<forall>c \<in> set cs. component_valid c" using l by (simp_all add: composite_valid_def cs)
  let ?k = "4 * kc_shard_size c * kc_block_tokens c"
  have k: "0 < ?k" using c(1) by (simp add: component_valid_def)
  have "rank_bytes < composite_bytes fl l x" if "(max 0 rank_bytes + 1) * ?k \<le> x" for x
  proof -
    have "0 < (max 0 rank_bytes + 1) * ?k" using k by simp
    then have x: "0 \<le> x" using that by linarith
    have "(max 0 rank_bytes + 1) * ?k \<le> component_bytes fl x c * ?k"
      using component_bytes_lower [OF fl c(1) x] that by linarith
    then have "max 0 rank_bytes + 1 \<le> component_bytes fl x c" using k by (simp only: mult_le_cancel_right)
    moreover have "0 \<le> sum_list (map (component_bytes fl x) cs)"
      using component_bytes_nonneg [OF fl _ x] c(2) by (intro sum_list_nonneg) auto
    ultimately show ?thesis by (simp add: composite_bytes_def cs)
  qed
  then show ?thesis by blast
qed

section \<open>The search\<close>

lemma double_until_ends:
  assumes "\<forall>x \<ge> N. rank_bytes < bytes x" and "1 \<le> high"
  shows "\<exists>h. double_until bytes rank_bytes high = Some h \<and> rank_bytes < bytes h \<and> high \<le> h"
  using assms(2)
proof (induction "nat (N - high)" arbitrary: high rule: less_induct)
  case less
  show ?case
  proof (cases "bytes high \<le> rank_bytes")
    case True
    then have "high < N" using assms(1) by (meson leD linorder_not_le)
    then have "nat (N - high * 2) < nat (N - high)" using less.prems by simp
    from less.hyps [OF this] less.prems True show ?thesis by (auto simp: double_until.simps [of bytes rank_bytes high])
  next
    case False
    then show ?thesis by (simp add: double_until.simps [of bytes rank_bytes high])
  qed
qed

lemma bisect_boundary:
  assumes "bytes low \<le> rank_bytes" and "rank_bytes < bytes high" and "low < high"
  shows "bytes (bisect bytes rank_bytes low high) \<le> rank_bytes
    \<and> rank_bytes < bytes (bisect bytes rank_bytes low high + 1) \<and> low \<le> bisect bytes rank_bytes low high"
  using assms
proof (induction bytes rank_bytes low high rule: bisect.induct)
  case (1 bytes rank_bytes low high)
  let ?m = "(low + high) div 2"
  show ?case
  proof (cases "low + 1 < high")
    case True
    then have m: "low < ?m" "?m < high" by auto
    show ?thesis
    proof (cases "bytes ?m \<le> rank_bytes")
      case le: True
      have "bisect bytes rank_bytes low high = bisect bytes rank_bytes ?m high"
        using True le by (subst bisect.simps) (simp add: Let_def)
      then show ?thesis using 1(1) [OF True refl le le 1(4) m(2)] m(1) by simp
    next
      case False
      have "bisect bytes rank_bytes low high = bisect bytes rank_bytes low ?m"
        using True False by (subst bisect.simps) (simp add: Let_def)
      then show ?thesis using 1(2) [OF True refl False 1(3) _ m(1)] False by simp
    qed
  next
    case False
    then have "high = low + 1" using 1(5) by simp
    moreover have "bisect bytes rank_bytes low high = low" using False by (subst bisect.simps) simp
    ultimately show ?thesis using 1(3,4) by simp
  qed
qed

lemma token_quantum_pos:
  assumes "composite_valid l"
  shows "0 < token_quantum l"
proof -
  have "0 < fold (\<lambda>c. lcm (kc_block_tokens c * kc_shard_size c)) cs (n :: int)"
    if "\<forall>c \<in> set cs. component_valid c" "0 < n" for cs n
    using that by (induction cs arbitrary: n) (auto simp: component_valid_def lcm_pos_int)
  then show ?thesis using assms by (simp add: token_quantum_def composite_valid_def)
qed

lemma round_down_multiple:
  assumes "0 < (q :: int)" and "m mod q = 0" and "m \<le> n"
  shows "m \<le> n div q * q"
proof -
  have "m = m div q * q" using assms(2) by auto
  also have "\<dots> \<le> n div q * q" using assms by (intro mult_right_mono zdiv_mono1) simp_all
  finally show ?thesis .
qed

lemma composite_capacity:
  assumes fl: "rounds_well fl" and l: "composite_valid l" and R: "0 \<le> rank_bytes"
  shows "\<exists>n. composite_tokens_from_bytes fl l rank_bytes = Some (Inr n) \<and> 0 \<le> n \<and> n mod token_quantum l = 0
    \<and> composite_bytes fl l n \<le> rank_bytes
    \<and> (\<forall>m. m mod token_quantum l = 0 \<longrightarrow> composite_bytes fl l m \<le> rank_bytes \<longrightarrow> m \<le> n)"
proof -
  let ?bytes = "composite_bytes fl l" and ?q = "token_quantum l"
  have q: "0 < ?q" by (rule token_quantum_pos [OF l])
  obtain N where "\<forall>x \<ge> N. rank_bytes < ?bytes x" using composite_bytes_unbounded [OF fl l] by blast
  from double_until_ends [OF this, of 1] obtain h where
    h: "double_until ?bytes rank_bytes 1 = Some h" "rank_bytes < ?bytes h" "1 \<le> h" by auto
  have "component_bytes fl 0 = (\<lambda>_. 0)" using fl by (simp add: component_bytes_def [abs_def] ceil_div_def rounds_well_def)
  then have zero: "?bytes 0 \<le> rank_bytes" using R by (simp add: composite_bytes_def)
  let ?low = "bisect ?bytes rank_bytes 0 h"
  have low: "?bytes ?low \<le> rank_bytes" "rank_bytes < ?bytes (?low + 1)" "0 \<le> ?low"
    using bisect_boundary [where bytes = ?bytes and low = 0 and high = h, OF zero h(2)] h(3) by simp_all
  let ?n = "?low div ?q * ?q"
  have n: "?n \<le> ?low" using pos_mod_sign [OF q, of ?low] div_mult_mod_eq [of ?low ?q] by linarith
  have n0: "0 \<le> ?n" using q low(3) by (simp add: pos_imp_zdiv_nonneg_iff)
  have "?bytes ?n \<le> rank_bytes" using composite_bytes_mono [OF fl l n] low(1) by simp
  moreover have "m \<le> ?n" if "m mod ?q = 0" "?bytes m \<le> rank_bytes" for m
  proof (rule round_down_multiple [OF q that(1)])
    show "m \<le> ?low" using composite_bytes_mono [OF fl l, of "?low + 1" m] low(2) that(2) by linarith
  qed
  ultimately show ?thesis using h(1) l R n0 by (simp add: composite_tokens_from_bytes_def)
qed

section \<open>Plans\<close>

lemma capacities_all:
  assumes "capacities fl l ds = Some (Inr ns)"
  shows "list_all2 (\<lambda>d n. tokens_from_bytes fl l (kv_available_bytes fl d) = Some (Inr n)) ds ns"
  using assms
proof (induction ds arbitrary: ns)
  case (Cons d ds)
  then show ?case by (auto simp: bind_res_eq_Inr split: option.splits sum.splits)
qed simp

lemma capacities_total:
  assumes "\<forall>d \<in> set ds. \<exists>n. tokens_from_bytes fl l (kv_available_bytes fl d) = Some (Inr n)"
  shows "\<exists>ns. capacities fl l ds = Some (Inr ns)"
  using assms by (induction ds) auto

lemma limiting_index_least:
  assumes "ns \<noteq> []"
  shows "limiting_index ns < length ns \<and> (\<forall>n \<in> set ns. ns ! limiting_index ns \<le> n)"
proof -
  obtain e es where e: "sort_key snd (enumerate 0 ns) = e # es"
    using assms by (cases "sort_key snd (enumerate 0 ns)") (auto dest: arg_cong [of _ _ length])
  have "set (e # es) = set (enumerate 0 ns)" using arg_cong [OF e, of set] by simp
  then have mem: "e \<in> set (enumerate 0 ns)" "\<forall>x \<in> set (enumerate 0 ns). x = e \<or> x \<in> set es" by auto
  have "sorted (map snd (e # es))" using sorted_sort_key [of snd "enumerate 0 ns"] by (simp only: e)
  then have least: "snd e \<le> snd x" if "x \<in> set (enumerate 0 ns)" for x using mem(2) that by auto
  have idx: "limiting_index ns = fst e" by (simp add: limiting_index_def e)
  have "fst e < length ns" "ns ! fst e = snd e" using mem(1) by (auto simp: in_set_enumerate_eq)
  moreover have "snd e \<le> n" if "n \<in> set ns" for n
  proof -
    obtain i where "i < length ns" "n = ns ! i" using \<open>n \<in> set ns\<close> by (auto simp: in_set_conv_nth)
    then have "(i, n) \<in> set (enumerate 0 ns)" by (simp add: in_set_enumerate_eq)
    from least [OF this] show ?thesis by simp
  qed
  ultimately show ?thesis by (simp add: idx)
qed

text \<open>
  C29. The search for the capacity of a layout of several components ends and is exact: it returns
  the largest multiple of the common block quantum of which the cache fits into the bytes of a
  rank.  Of the rounding of divisions only its monotonicity and that it loses less than half of a
  positive number are used.
\<close>

theorem composite_capacity_is_maximal:
  assumes "rounds_well fl" and "composite_valid l" and "0 \<le> rank_bytes"
  shows "\<exists>n. composite_tokens_from_bytes fl l rank_bytes = Some (Inr n) \<and> 0 \<le> n \<and> n mod token_quantum l = 0
    \<and> composite_bytes_per_rank fl l n = Inr (composite_bytes fl l n) \<and> composite_bytes fl l n \<le> rank_bytes
    \<and> (\<forall>m. m mod token_quantum l = 0 \<longrightarrow> composite_bytes fl l m \<le> rank_bytes \<longrightarrow> m \<le> n)"
proof -
  obtain n where "composite_tokens_from_bytes fl l rank_bytes = Some (Inr n)" "0 \<le> n" "n mod token_quantum l = 0"
    "composite_bytes fl l n \<le> rank_bytes"
    "\<forall>m. m mod token_quantum l = 0 \<longrightarrow> composite_bytes fl l m \<le> rank_bytes \<longrightarrow> m \<le> n"
    using composite_capacity [OF assms] by (elim exE conjE) (rule that)
  then show ?thesis using assms(2) by (intro exI [of _ n]) (simp add: composite_bytes_per_rank_def)
qed

definition sample_composite :: composite_layout where
  "sample_composite = \<lparr>cl_components =
     [\<lparr>kc_name = ''target'', kc_cache_layers = 3, kc_record_bytes = 5, kc_shard_size = 2, kc_block_tokens = 4\<rparr>,
      \<lparr>kc_name = ''draft'', kc_cache_layers = 1, kc_record_bytes = 2, kc_shard_size = 1, kc_block_tokens = 4\<rparr>],
     cl_deployment_ranks = 2\<rparr>"

lemma sample_composite_facts: "composite_valid sample_composite" "rounds_well (\<lambda>x. x)"
  by (simp_all add: sample_composite_def composite_valid_def component_valid_def rounds_well_def mono_def)

theorem composite_capacity_is_maximal_witness:
  "composite_tokens_from_bytes (\<lambda>x. x) sample_composite 200 = Some (Inr 16)
    \<and> composite_bytes (\<lambda>x. x) sample_composite 16 \<le> 200
    \<and> 200 < composite_bytes (\<lambda>x. x) sample_composite 24"
proof -
  have q: "token_quantum sample_composite = 8" by code_simp
  have n: "composite_tokens_from_bytes (\<lambda>x. x) sample_composite 200 = Some (Inr 16)" by code_simp
  from composite_capacity_is_maximal [OF sample_composite_facts(2,1), of 200] show ?thesis
    unfolding q n by (auto dest!: spec [of _ 24])
qed

text \<open>The number of tokens of a layout of one kind is whole blocks on every rank, and takes back no more.\<close>

lemma exact_ceil_div:
  assumes "1 \<le> b" and "fl (of_int k) = of_int k"
  shows "ceil_div fl (k * b) b = k"
  using assms by (simp add: ceil_div_def)

lemma single_bytes_exact:
  assumes valid: "kv_layout_valid l" and n: "n = k * ly_dcp_size l * ly_block_tokens l" and "0 \<le> k"
    and exact: "\<forall>i. 0 \<le> i \<longrightarrow> i \<le> n \<longrightarrow> fl (of_int i) = of_int i"
  shows "single_bytes_per_rank fl l n = Inr (k * (ly_block_tokens l * ly_cache_layers l * ly_record_bytes l))"
proof -
  have pos: "1 \<le> ly_dcp_size l" "1 \<le> ly_block_tokens l" using valid by (simp_all add: kv_layout_valid_def)
  have le: "0 \<le> k * ly_dcp_size l" "k \<le> k * ly_dcp_size l" "k * ly_dcp_size l \<le> n"
    using \<open>0 \<le> k\<close> pos mult_left_mono [of 1 "ly_dcp_size l" k] mult_left_mono [of 1 "ly_block_tokens l" "k * ly_dcp_size l"]
    by (simp_all add: n)
  have "ceil_div fl n (ly_block_tokens l) = k * ly_dcp_size l"
    unfolding n by (rule exact_ceil_div [OF pos(2)]) (use exact le in blast)
  moreover have "ceil_div fl (k * ly_dcp_size l) (ly_dcp_size l) = k"
    by (rule exact_ceil_div [OF pos(1)]) (use exact le \<open>0 \<le> k\<close> in force)
  ultimately show ?thesis
    using valid le by (simp add: single_bytes_per_rank_def local_blocks_def mult.assoc)
qed

lemma single_tokens_fit:
  assumes "single_tokens_from_bytes l a = Inr n" and "single_tokens_from_bytes l b = Inr m" and "n \<le> m"
    and exact: "\<forall>i. 0 \<le> i \<longrightarrow> i \<le> n \<longrightarrow> fl (of_int i) = of_int i"
  shows "\<exists>used. single_bytes_per_rank fl l n = Inr used \<and> used \<le> b"
proof -
  let ?one = "ly_block_tokens l * ly_cache_layers l * ly_record_bytes l"
  have valid: "kv_layout_valid l" and ab: "0 \<le> a" "0 \<le> b"
    and n: "n = a div ?one * ly_dcp_size l * ly_block_tokens l"
    and m: "m = b div ?one * ly_dcp_size l * ly_block_tokens l"
    using assms(1,2) by (auto simp: single_tokens_from_bytes_def split: if_splits)
  have pos: "0 < ly_dcp_size l * ly_block_tokens l" "0 < ?one"
    using valid by (simp_all add: kv_layout_valid_def)
  have "a div ?one * (ly_dcp_size l * ly_block_tokens l) \<le> b div ?one * (ly_dcp_size l * ly_block_tokens l)"
    using assms(3) by (simp only: n m mult.assoc)
  then have "a div ?one \<le> b div ?one" using pos(1) by (simp only: mult_le_cancel_right_pos)
  then have "a div ?one * ?one \<le> b div ?one * ?one" using pos(2) by (simp only: mult_le_cancel_right_pos)
  also have "\<dots> \<le> b" using pos(2) by (metis div_mult_mod_eq le_add_same_cancel1 pos_mod_sign)
  finally have "a div ?one * ?one \<le> b" .
  moreover have "0 \<le> a div ?one" using ab(1) pos(2) by (simp only: pos_imp_zdiv_nonneg_iff)
  ultimately show ?thesis using single_bytes_exact [OF valid n _ exact] by blast
qed

text \<open>What the projected tokens of a plan use, where the rounding does not get in the way\<close>

definition tokens_exact :: "(rat \<Rightarrow> rat) \<Rightarrow> layout \<Rightarrow> int \<Rightarrow> bool" where
  "tokens_exact fl l n \<longleftrightarrow>
     (case l of CompositeLayout c \<Rightarrow> True | SingleLayout s \<Rightarrow> (\<forall>i. 0 \<le> i \<longrightarrow> i \<le> n \<longrightarrow> fl (of_int i) = of_int i))"

lemma layout_capacity_total:
  assumes "rounds_well fl" and "layout_valid l" and "0 \<le> a"
  shows "\<exists>n. tokens_from_bytes fl l a = Some (Inr n)"
proof (cases l)
  case (SingleLayout s)
  then show ?thesis using assms by (simp add: tokens_from_bytes_def layout_valid_def single_tokens_from_bytes_def)
next
  case (CompositeLayout c)
  then show ?thesis using assms composite_capacity [of fl c a] by (auto simp: tokens_from_bytes_def layout_valid_def)
qed

lemma layout_tokens_fit:
  assumes "rounds_well fl" and "layout_valid l" and "0 \<le> a" "0 \<le> b"
    and "tokens_from_bytes fl l a = Some (Inr n)" and "tokens_from_bytes fl l b = Some (Inr m)" and "n \<le> m"
    and "tokens_exact fl l n"
  shows "\<exists>used. bytes_per_rank fl l n = Inr used \<and> used \<le> b"
proof (cases l)
  case (SingleLayout s)
  then show ?thesis
    using single_tokens_fit [of s a n b m fl] assms
    by (simp add: tokens_from_bytes_def bytes_per_rank_def tokens_exact_def)
next
  case (CompositeLayout c)
  then have valid: "composite_valid c" using assms(2) by (simp add: layout_valid_def)
  have m: "composite_bytes fl c m \<le> b"
    using composite_capacity [OF assms(1) valid assms(4)] assms(6) CompositeLayout by (auto simp: tokens_from_bytes_def)
  have "0 \<le> n" using composite_capacity [OF assms(1) valid assms(3)] assms(5) CompositeLayout by (auto simp: tokens_from_bytes_def)
  then show ?thesis
    using order_trans [OF composite_bytes_mono [OF assms(1) valid assms(7)] m] valid CompositeLayout
    by (simp add: bytes_per_rank_def composite_bytes_per_rank_def)
qed

lemma layout_bytes_total: "layout_valid l \<Longrightarrow> 0 \<le> n \<Longrightarrow> \<exists>used. bytes_per_rank fl l n = Inr used"
  by (cases l) (simp_all add: bytes_per_rank_def layout_valid_def single_bytes_per_rank_def local_blocks_def
      composite_bytes_per_rank_def)

text \<open>
  C30. A plan says what it promises, for both kinds of layout: building it ends, with \<open>ValueError\<close>
  or with a plan; it is feasible just when the cache of the target, as counted, fits on every
  device; the limiting device has the least capacity; and the cache of the projected tokens fits
  on every device: for a layout of several components always, for one of a single kind when the
  division is exact for the numbers up to the projected tokens, as it is for doubles up to
  \<open>2 ^ 53\<close> (beyond, \<open>projected_tokens_may_not_fit\<close> below).
\<close>

theorem capacity_plan_is_safe:
  assumes "rounds_well fl"
  shows "\<exists>r. build_capacity_plan fl l ds target_tokens = Some r \<and> (case r of
      Inl e \<Rightarrow> e = ValueError
    | Inr plan \<Rightarrow> (\<exists>need. bytes_per_rank fl l target_tokens = Inr need
          \<and> (cp_feasible plan \<longleftrightarrow> (\<forall>d \<in> set ds. need \<le> kv_available_bytes fl d)))
        \<and> (\<exists>d \<in> set ds. db_device d = cp_limiting_device plan
            \<and> tokens_from_bytes fl l (kv_available_bytes fl d) = Some (Inr (cp_projected_tokens plan)))
        \<and> (\<forall>d \<in> set ds. \<exists>n. tokens_from_bytes fl l (kv_available_bytes fl d) = Some (Inr n) \<and> cp_projected_tokens plan \<le> n)
        \<and> (tokens_exact fl l (cp_projected_tokens plan) \<longrightarrow>
            (\<exists>used. bytes_per_rank fl l (cp_projected_tokens plan) = Inr used
              \<and> (\<forall>d \<in> set ds. used \<le> kv_available_bytes fl d))))"
proof (cases "build_capacity_plan fl l ds target_tokens = Some (Inl ValueError)")
  case True
  then show ?thesis by simp
next
  case False
  then have valid: "layout_valid l" "ds \<noteq> []" "1 \<le> target_tokens"
    and run: "build_capacity_plan fl l ds target_tokens
      = map_option (\<lambda>r. bind_res r (\<lambda>ns. bind_res (bytes_per_rank fl l target_tokens)
          (\<lambda>target_kv. Inr (make_plan fl l ds ns target_tokens target_kv)))) (capacities fl l ds)"
    by (auto simp: build_capacity_plan_def split: if_splits)
  have avail: "0 \<le> kv_available_bytes fl d" for d by (simp add: kv_available_bytes_def)
  have "\<forall>d \<in> set ds. \<exists>n. tokens_from_bytes fl l (kv_available_bytes fl d) = Some (Inr n)"
    using layout_capacity_total [OF assms valid(1) avail] by blast
  from capacities_total [OF this] obtain ns where ns: "capacities fl l ds = Some (Inr ns)" by blast
  obtain need where need: "bytes_per_rank fl l target_tokens = Inr need"
    using layout_bytes_total [OF valid(1)] valid(3) by fastforce
  define plan where "plan = make_plan fl l ds ns target_tokens need"
  have built: "build_capacity_plan fl l ds target_tokens = Some (Inr plan)"
    using run ns need by (simp add: plan_def)
  note each = capacities_all [OF ns]
  let ?i = "limiting_index ns"
  have len: "length ns = length ds" using each by (simp add: list_all2_lengthD)
  then have "ns \<noteq> []" using valid(2) by auto
  note i = limiting_index_least [OF this]
  have fields: "cp_projected_tokens plan = ns ! ?i" "cp_limiting_device plan = db_device (ds ! ?i)"
    by (simp_all add: plan_def make_plan_def Let_def)
  have limiting: "tokens_from_bytes fl l (kv_available_bytes fl (ds ! ?i)) = Some (Inr (ns ! ?i))" "ds ! ?i \<in> set ds"
    using each i len by (simp_all add: list_all2_conv_all_nth)
  have least: "\<exists>n. tokens_from_bytes fl l (kv_available_bytes fl d) = Some (Inr n) \<and> ns ! ?i \<le> n" if "d \<in> set ds" for d
  proof -
    obtain j where "j < length ds" "d = ds ! j" using \<open>d \<in> set ds\<close> by (metis in_set_conv_nth)
    then show ?thesis using each i len by (auto simp: list_all2_conv_all_nth)
  qed
  have fits: "\<exists>used. bytes_per_rank fl l (ns ! ?i) = Inr used \<and> (\<forall>d \<in> set ds. used \<le> kv_available_bytes fl d)"
    if exact: "tokens_exact fl l (ns ! ?i)"
  proof -
    have "\<exists>used. bytes_per_rank fl l (ns ! ?i) = Inr used \<and> used \<le> kv_available_bytes fl d" if "d \<in> set ds" for d
      using least [OF that] layout_tokens_fit [OF assms valid(1) avail avail limiting(1) _ _ exact] by blast
    moreover obtain used where "bytes_per_rank fl l (ns ! ?i) = Inr used"
      using calculation [OF limiting(2)] by blast
    ultimately show ?thesis by fastforce
  qed
  have "cp_feasible plan \<longleftrightarrow> (\<forall>d \<in> set ds. need \<le> kv_available_bytes fl d)"
  proof -
    have "max 0 x = 0 \<longleftrightarrow> x \<le> 0" for x :: int by linarith
    then show ?thesis by (simp add: plan_def make_plan_def Let_def)
  qed
  then show ?thesis
    unfolding built using need limiting least fits
    by (intro exI [of _ "Inr plan"]) (simp only: fields sum.case, blast)
qed

text \<open>
  For a layout of one kind the projection can be too large where a double is not exact: of
  \<open>2 ^ 53 + 3\<close> bytes, one for each token, all are projected as tokens, whose cache is then counted
  as \<open>2 ^ 53 + 4\<close> bytes.  The two premises are the rounding of doubles, to even in a tie.
\<close>

lemma projected_tokens_may_not_fit:
  fixes bytes :: int
  assumes "bytes = 2 ^ 53 + 3" and "fl (of_int bytes) = of_int (bytes + 1)" and "fl (of_int (bytes + 1)) = of_int (bytes + 1)"
  defines "l \<equiv> \<lparr>ly_cache_layers = 1, ly_record_bytes = 1, ly_dcp_size = 1, ly_block_tokens = 1\<rparr>"
  shows "single_tokens_from_bytes l bytes = Inr bytes \<and> single_bytes_per_rank fl l bytes = Inr (bytes + 1)"
proof -
  have "0 \<le> bytes" by (simp add: assms(1))
  moreover have "ceil_div fl bytes 1 = bytes + 1" "ceil_div fl (bytes + 1) 1 = bytes + 1"
    unfolding ceil_div_def using assms(2,3) by (simp_all only: of_int_1 div_by_1 ceiling_of_int)
  ultimately show ?thesis
    by (simp add: single_tokens_from_bytes_def single_bytes_per_rank_def local_blocks_def kv_layout_valid_def l_def)
qed

definition sample_device :: "int \<Rightarrow> device_budget" where
  "sample_device i = \<lparr>db_device = i, db_total_hbm = 1000, db_startup_free = 900, db_utilization = 1 / 2, db_weight = 200,
     db_non_weight_non_kv = 50, db_safety_margin = 10 * i\<rparr>"

theorem capacity_plan_is_safe_witness:
  "\<exists>plan. build_capacity_plan (\<lambda>x. x) (CompositeLayout sample_composite) [sample_device 0, sample_device 1] 16
      = Some (Inr plan) \<and> cp_feasible plan \<and> cp_limiting_device plan = 0
    \<and> composite_bytes (\<lambda>x. x) sample_composite (cp_projected_tokens plan) \<le> kv_available_bytes (\<lambda>x. x) (sample_device 1)"
proof -
  let ?run = "build_capacity_plan (\<lambda>x. x) (CompositeLayout sample_composite) [sample_device 0, sample_device 1] 16"
  have "case ?run of Some (Inr plan) \<Rightarrow> cp_feasible plan \<and> cp_limiting_device plan = 0 | _ \<Rightarrow> False" by code_simp
  then obtain plan where p: "?run = Some (Inr plan)" "cp_feasible plan" "cp_limiting_device plan = 0"
    by (auto split: option.splits sum.splits)
  have "tokens_exact (\<lambda>x. x) (CompositeLayout sample_composite) n" for n by (simp add: tokens_exact_def)
  with capacity_plan_is_safe [OF sample_composite_facts(2), of "CompositeLayout sample_composite"
      "[sample_device 0, sample_device 1]" 16]
  have "composite_bytes (\<lambda>x. x) sample_composite (cp_projected_tokens plan) \<le> kv_available_bytes (\<lambda>x. x) (sample_device 1)"
    unfolding p(1) by (auto simp: bytes_per_rank_def composite_bytes_per_rank_def split: if_splits)
  then show ?thesis using p by blast
qed

end
