(* ===== verification/Permutations.thy ===== *)
theory Permutations
  imports GlobalDp "HOL-Library.Multiset"
begin

text \<open>
  The permutation policies of the quantisation pipeline,
  \<open>src/src/quant_pipeline/normalization/prior_search.py\<close>: orders of the columns of an expert by the
  diagonal of its Hessian.  An entry of the diagonal that \<open>isfinite\<close> rejects is \<open>None\<close>; \<open>fl\<close> is the
  rounding of a floating-point sum.  The functions on tensors and the scales, which are numerics of
  torch and \<open>math\<close>, are left out.
\<close>

section \<open>Orders of indices\<close>

definition validate_permutation :: "int list \<Rightarrow> int option \<Rightarrow> int list res" where
  "validate_permutation perm n =
     (let expected = (case n of None \<Rightarrow> int (length perm) | Some m \<Rightarrow> m)
      in if expected < 1 \<or> int (length perm) \<noteq> expected \<or> sort perm \<noteq> map int [0..<nat expected]
         then Inl ValueError else Inr perm)"

definition identity_permutation :: "int \<Rightarrow> int list res" where
  "identity_permutation n = (if n < 1 then Inl ValueError else Inr (map int [0..<nat n]))"

definition ldlq_visit_old_indices :: "int list \<Rightarrow> int list res" where
  "ldlq_visit_old_indices perm = bind_res (validate_permutation perm None) (\<lambda>p. Inr (rev p))"

definition assert_ldlq_visit_descending :: "int list \<Rightarrow> rat list \<Rightarrow> unit res" where
  "assert_ldlq_visit_descending perm values =
     bind_res (ldlq_visit_old_indices perm) (\<lambda>visit.
       if length visit \<noteq> length values then Inl ValueError
       else (let energies = map (\<lambda>i. values ! nat i) visit
             in if \<exists>(a, b) \<in> set (zip energies (tl energies)). a < b then Inl ValueError else Inr ()))"

text \<open>\<open>sorted(range(n), key=lambda index: (-values[index], index))\<close>\<close>

definition ranked :: "rat list \<Rightarrow> int list" where
  "ranked values = sort_key (\<lambda>i. (- (values ! nat i), i)) (map int [0..<length values])"

definition finite_values :: "rat option list \<Rightarrow> rat list option" where
  "finite_values diagonal = (if None \<in> set diagonal then None else Some (map the diagonal))"

definition descending_diag_permutation :: "rat option list \<Rightarrow> int list res" where
  "descending_diag_permutation diagonal =
     (case finite_values diagonal of
        None \<Rightarrow> Inl ValueError
      | Some values \<Rightarrow>
          if values = [] then Inl ValueError
          else (let stored = rev (ranked values)
                in bind_res (assert_ldlq_visit_descending stored values) (\<lambda>_. Inr stored)))"

definition stored_descending_diag_permutation :: "rat option list \<Rightarrow> int list res" where
  "stored_descending_diag_permutation diagonal =
     (case finite_values diagonal of
        None \<Rightarrow> Inl ValueError
      | Some values \<Rightarrow> if values = [] then Inl ValueError else Inr (ranked values))"

section \<open>Balanced energy\<close>

text \<open>The bucket with room that has the least total, the first of these\<close>

definition pick_bucket :: "nat \<Rightarrow> int list list \<Rightarrow> py_float list \<Rightarrow> nat res" where
  "pick_bucket block buckets totals =
     (let eligible = filter (\<lambda>b. length (buckets ! b) < block) [0..<length buckets]
      in if eligible = [] then Inl ValueError else Inr (arg_min_list (\<lambda>b. (totals ! b, b)) eligible))"

definition place_index ::
  "(rat \<Rightarrow> py_float) \<Rightarrow> rat list \<Rightarrow> nat \<Rightarrow> int \<Rightarrow> int list list \<times> py_float list \<Rightarrow> (int list list \<times> py_float list) res" where
  "place_index fl values block i s =
     (let (buckets, totals) = s
      in bind_res (pick_bucket block buckets totals) (\<lambda>b.
           Inr (buckets[b := buckets ! b @ [i]], totals[b := float_add fl (totals ! b) (values ! nat i)])))"

definition order_bucket :: "rat list \<Rightarrow> bool \<Rightarrow> nat \<times> int list \<Rightarrow> int list" where
  "order_bucket values serpentine bi =
     (let (bucket, indices) = bi; ordered = sort_key (\<lambda>i. (- (values ! nat i), i)) indices
      in if serpentine \<and> bucket mod 2 \<noteq> 0 then rev ordered else ordered)"

definition energy_balanced_permutation ::
  "(rat \<Rightarrow> py_float) \<Rightarrow> rat option list \<Rightarrow> int \<Rightarrow> bool \<Rightarrow> int list res" where
  "energy_balanced_permutation fl diagonal block serpentine =
     (case finite_values diagonal of
        None \<Rightarrow> Inl ValueError
      | Some values \<Rightarrow>
          if values = [] \<or> block < 1 \<or> int (length values) mod block \<noteq> 0 \<or> (\<exists>v \<in> set values. v < 0)
          then Inl ValueError
          else (let nblocks = length values div nat block
                in bind_res (fold_res (place_index fl values (nat block)) (ranked values)
                       (replicate nblocks [], replicate nblocks (Fin 0))) (\<lambda>(buckets, _).
                     validate_permutation (concat (map (order_bucket values serpentine) (enumerate 0 buckets)))
                       (Some (int (length values))))))"

definition policy_permutations :: "(rat \<Rightarrow> py_float) \<Rightarrow> rat option list \<Rightarrow> int \<Rightarrow> (string \<times> int list) list res" where
  "policy_permutations fl diagonal block =
     (if diagonal = [] \<or> (\<exists>v \<in> set diagonal. case v of None \<Rightarrow> True | Some x \<Rightarrow> x < 0) then Inl ValueError
      else bind_res (identity_permutation (int (length diagonal))) (\<lambda>p1.
           bind_res (descending_diag_permutation diagonal) (\<lambda>p2.
           bind_res (stored_descending_diag_permutation diagonal) (\<lambda>p3.
           bind_res (energy_balanced_permutation fl diagonal block True) (\<lambda>p4.
           bind_res (energy_balanced_permutation fl diagonal block False) (\<lambda>p5.
             Inr [(''identity'', p1), (''ldlq_visit_descending_diag'', p2), (''stored_descending_diag'', p3),
                  (''energy_balanced'', p4), (''energy_balanced_contiguous'', p5)]))))))"

definition inverse_permutation :: "int list \<Rightarrow> int list res" where
  "inverse_permutation permutation =
     bind_res (validate_permutation permutation None) (\<lambda>perm.
       Inr (fold (\<lambda>(new, old) inv. inv[nat old := int new]) (enumerate 0 perm) (replicate (length perm) 0)))"

section \<open>Every policy is a permutation\<close>

definition is_permutation :: "nat \<Rightarrow> int list \<Rightarrow> bool" where
  "is_permutation n perm \<longleftrightarrow> mset perm = mset (map int [0..<n])"

lemma validate_permutation_iff:
  "0 < n \<Longrightarrow> validate_permutation perm (Some (int n)) = (if is_permutation n perm then Inr perm else Inl ValueError)"
proof -
  assume n: "0 < n"
  have sorted: "sorted (map int [0..<n])" by (simp add: sorted_wrt_map sorted_iff_nth_mono)
  have "is_permutation n perm \<longleftrightarrow> sort perm = map int [0..<n]"
  proof
    assume "is_permutation n perm"
    then show "sort perm = map int [0..<n]"
      using sorted by (intro properties_for_sort) (simp_all add: is_permutation_def)
  next
    assume "sort perm = map int [0..<n]"
    then have "mset (sort perm) = mset (map int [0..<n])" by simp
    then show "is_permutation n perm" by (simp add: is_permutation_def)
  qed
  moreover have "is_permutation n perm \<Longrightarrow> length perm = n"
    using mset_eq_length [of perm "map int [0..<n]"] by (simp add: is_permutation_def)
  ultimately show ?thesis using n by (auto simp: validate_permutation_def)
qed

lemma validate_None: "validate_permutation perm None = validate_permutation perm (Some (int (length perm)))"
  by (simp add: validate_permutation_def)

lemma ranked_permutation: "is_permutation (length values) (ranked values)"
  by (simp add: is_permutation_def ranked_def)

lemma length_ranked [simp]: "length (ranked values) = length values"
  by (simp add: ranked_def)

lemma ranked_descending: "sorted_wrt (\<lambda>i j. values ! nat i \<ge> values ! nat j) (ranked values)"
proof -
  have "sorted (map (\<lambda>i. (- (values ! nat i), i)) (ranked values))" by (simp add: ranked_def)
  then have "sorted_wrt (\<lambda>i j. (- (values ! nat i), i) \<le> (- (values ! nat j), j)) (ranked values)"
    by (simp add: sorted_map)
  then show ?thesis by (rule sorted_wrt_mono_rel [rotated 1]) (auto simp: less_eq_prod_def)
qed

lemma adjacent_sorted:
  assumes "sorted_wrt (\<lambda>a b. (b :: rat) \<le> a) xs"
  shows "\<not> (\<exists>(a, b) \<in> set (zip xs (tl xs)). a < b)"
proof -
  have "b \<le> a" if "(a, b) \<in> set (zip xs (tl xs))" for a b
  proof -
    have "\<exists>i. i < length xs \<and> i < length (tl xs) \<and> a = xs ! i \<and> b = tl xs ! i"
      using that unfolding in_set_zip fst_conv snd_conv by blast
    then show ?thesis using assms by (auto simp: sorted_wrt_iff_nth_less nth_tl)
  qed
  then show ?thesis by fastforce
qed

lemma descending_diag_ok:
  assumes "values \<noteq> []" and "finite_values diagonal = Some values"
  shows "descending_diag_permutation diagonal = Inr (rev (ranked values))"
proof -
  have n: "0 < length values" using assms(1) by simp
  have "is_permutation (length values) (rev (ranked values))"
    using ranked_permutation [of "values"] by (simp add: is_permutation_def)
  then have "ldlq_visit_old_indices (rev (ranked values)) = Inr (ranked values)"
    using n by (simp add: ldlq_visit_old_indices_def validate_None validate_permutation_iff)
  moreover have "sorted_wrt (\<lambda>a b. b \<le> a) (map (\<lambda>i. values ! nat i) (ranked values))"
    using ranked_descending [of "values"] by (simp add: sorted_wrt_map)
  ultimately have "assert_ldlq_visit_descending (rev (ranked values)) values = Inr ()"
    using adjacent_sorted by (simp add: assert_ldlq_visit_descending_def Let_def)
  then show ?thesis using assms by (simp add: descending_diag_permutation_def)
qed

section \<open>The buckets fill up evenly\<close>

definition buckets_ok :: "nat \<Rightarrow> nat \<Rightarrow> int list \<Rightarrow> int list list \<times> py_float list \<Rightarrow> bool" where
  "buckets_ok nblocks block placed s \<longleftrightarrow>
     length (fst s) = nblocks \<and> length (snd s) = nblocks \<and> (\<forall>b \<in> set (fst s). length b \<le> block) \<and>
     mset (concat (fst s)) = mset placed"

lemma sum_list_lengths_less:
  "\<lbrakk>\<forall>b \<in> set xss. length b \<le> k; length (concat xss) < length xss * k\<rbrakk> \<Longrightarrow> \<exists>i < length xss. length (xss ! i) < k"
proof (rule ccontr)
  assume le: "\<forall>b \<in> set xss. length b \<le> k" and less: "length (concat xss) < length xss * k"
    and "\<not> (\<exists>i < length xss. length (xss ! i) < k)"
  then have "\<forall>b \<in> set xss. length b = k" by (metis in_set_conv_nth le_neq_implies_less)
  then have "length (concat xss) = length xss * k" by (induction xss) simp_all
  with less show False by simp
qed

lemma all_full:
  "\<lbrakk>\<forall>b \<in> set xss. length b \<le> k; length (concat xss) = length xss * k\<rbrakk> \<Longrightarrow> \<forall>b \<in> set xss. length b = k"
proof (induction xss)
  case Nil
  then show ?case by simp
next
  case (Cons x xss)
  have "length (concat xss) \<le> length xss * k"
    using Cons.prems(1) by (induction xss) (auto intro: add_mono)
  with Cons.prems have "length x = k" "length (concat xss) = length xss * k" by auto
  with Cons show ?case by simp
qed

lemma pick_bucket_ok:
  assumes "\<exists>i < length buckets. length (buckets ! i) < block"
  obtains b where "pick_bucket block buckets totals = Inr b" "b < length buckets" "length (buckets ! b) < block"
proof -
  let ?eligible = "filter (\<lambda>b. length (buckets ! b) < block) [0..<length buckets]"
  have ne: "?eligible \<noteq> []" using assms by (auto simp: filter_empty_conv)
  then have "arg_min_list (\<lambda>b. (totals ! b, b)) ?eligible \<in> set ?eligible" by (rule arg_min_list_in)
  with ne that show ?thesis by (auto simp: pick_bucket_def Let_def)
qed

lemma mset_concat_update:
  "b < length xss \<Longrightarrow> mset (concat (xss[b := xss ! b @ [i]])) = add_mset i (mset (concat xss))"
proof (induction xss arbitrary: b)
  case Nil
  then show ?case by simp
next
  case (Cons x xss)
  then show ?case by (cases b) simp_all
qed

lemma place_index_ok:
  assumes "buckets_ok nblocks block placed s" and "length placed < nblocks * block"
  obtains t where "place_index fl values block i s = Inr t" "buckets_ok nblocks block (placed @ [i]) t"
proof -
  obtain buckets totals where s: "s = (buckets, totals)" by fastforce
  have "length (concat buckets) = length placed"
    using assms(1) mset_eq_length [of "concat buckets" placed] by (simp add: buckets_ok_def s del: length_concat)
  with assms have "\<exists>i < length buckets. length (buckets ! i) < block"
    by (intro sum_list_lengths_less) (simp_all add: buckets_ok_def s del: length_concat)
  then obtain b where b: "pick_bucket block buckets totals = Inr b" "b < length buckets" "length (buckets ! b) < block"
    by (rule pick_bucket_ok)
  show ?thesis
  proof (rule \<open>\<And>t. place_index fl values block i s = Inr t \<Longrightarrow> buckets_ok nblocks block (placed @ [i]) t \<Longrightarrow> thesis\<close>)
    let ?t = "(buckets[b := buckets ! b @ [i]], totals[b := float_add fl (totals ! b) (values ! nat i)])"
    show "place_index fl values block i s = Inr ?t" using b by (simp add: place_index_def s)
    have "length x \<le> block" if "x \<in> set (buckets[b := buckets ! b @ [i]])" for x
      using set_update_subset_insert [of buckets b "buckets ! b @ [i]"] that b assms(1)
      by (auto simp: buckets_ok_def s)
    then show "buckets_ok nblocks block (placed @ [i]) ?t"
      using assms(1) b by (simp add: buckets_ok_def s mset_concat_update)
  qed
qed

lemma place_all_ok:
  assumes "buckets_ok nblocks block placed s" and "length placed + length xs \<le> nblocks * block"
  shows "\<exists>t. fold_res (place_index fl values block) xs s = Inr t \<and> buckets_ok nblocks block (placed @ xs) t"
  using assms
proof (induction xs arbitrary: placed s)
  case Nil
  then show ?case by simp
next
  case (Cons x xs)
  obtain t where t: "place_index fl values block x s = Inr t" "buckets_ok nblocks block (placed @ [x]) t"
    using place_index_ok [OF Cons.prems(1), of fl "values" x] Cons.prems(2) by auto
  with Cons.IH [OF t(2)] Cons.prems(2) show ?case by simp
qed

lemma length_order_bucket [simp]: "length (order_bucket values serpentine bi) = length (snd bi)"
  by (simp add: order_bucket_def case_prod_unfold Let_def)

lemma mset_order_bucket [simp]: "mset (order_bucket values serpentine bi) = mset (snd bi)"
  by (simp add: order_bucket_def case_prod_unfold Let_def)

lemma order_bucket_sorted:
  "sorted_wrt (\<lambda>i j. if serpentine \<and> odd (fst bi) then values ! nat i \<le> values ! nat j else values ! nat j \<le> values ! nat i)
     (order_bucket values serpentine bi)"
proof -
  let ?xs = "sort_key (\<lambda>i. (- (values ! nat i), i)) (snd bi)"
  have "sorted (map (\<lambda>i. (- (values ! nat i), i)) ?xs)" by simp
  then have "sorted_wrt (\<lambda>i j. (- (values ! nat i), i) \<le> (- (values ! nat j), j)) ?xs"
    by (simp only: sorted_map)
  then have "sorted_wrt (\<lambda>i j. values ! nat j \<le> values ! nat i) ?xs"
    by (rule sorted_wrt_mono_rel [rotated 1]) (auto simp: less_eq_prod_def)
  then show ?thesis
    by (cases "serpentine \<and> odd (fst bi)")
      (auto simp: order_bucket_def case_prod_unfold Let_def sorted_wrt_rev mod_2_eq_odd)
qed

lemma mset_concat_cong:
  "(\<And>x. x \<in> set xs \<Longrightarrow> mset (f x) = mset (g x)) \<Longrightarrow> mset (concat (map f xs)) = mset (concat (map g xs))"
  by (induction xs) simp_all

lemma nth_block_concat:
  "\<lbrakk>\<forall>x \<in> set xss. length x = k; b < length xss\<rbrakk> \<Longrightarrow> take k (drop (b * k) (concat xss)) = xss ! b"
proof (induction xss arbitrary: b)
  case Nil
  then show ?case by simp
next
  case (Cons x xss)
  then show ?case by (cases b) (simp_all add: algebra_simps)
qed

lemma energy_balanced_ok:
  assumes "finite_values diagonal = Some values" "values \<noteq> []" "\<forall>v \<in> set values. 0 \<le> v"
    and "0 < block" "length values mod block = 0"
  obtains buckets where
    "energy_balanced_permutation fl diagonal (int block) serpentine
       = Inr (concat (map (order_bucket values serpentine) (enumerate 0 buckets)))"
    "length buckets = length values div block" "\<forall>b \<in> set buckets. length b = block"
    "is_permutation (length values) (concat (map (order_bucket values serpentine) (enumerate 0 buckets)))"
proof -
  let ?n = "length values div block"
  have n: "?n * block = length values" using assms(5) by (metis div_mult_mod_eq add_0_right)
  have "buckets_ok ?n block [] (replicate ?n [], replicate ?n (Fin 0))"
    by (auto simp: buckets_ok_def)
  from place_all_ok [OF this, of "ranked values" fl "values"] n obtain buckets totals where
    run: "fold_res (place_index fl values block) (ranked values) (replicate ?n [], replicate ?n (Fin 0)) = Inr (buckets, totals)"
    and ok: "buckets_ok ?n block (ranked values) (buckets, totals)" by auto
  let ?perm = "concat (map (order_bucket values serpentine) (enumerate 0 buckets))"
  have "mset ?perm = mset (concat (map snd (enumerate 0 buckets)))" by (rule mset_concat_cong) simp
  with ok ranked_permutation [of "values"] have perm: "is_permutation (length values) ?perm"
    by (simp add: is_permutation_def buckets_ok_def del: mset_concat)
  have len: "length buckets = ?n" using ok by (simp add: buckets_ok_def)
  have "length (concat buckets) = length (ranked values)"
    using ok mset_eq_length [of "concat buckets" "ranked values"] by (simp add: buckets_ok_def del: length_concat)
  then have full: "\<forall>b \<in> set buckets. length b = block"
    using ok n by (intro all_full) (simp_all add: buckets_ok_def del: length_concat)
  have "int (length values) mod int block = 0" using assms(5) by (metis of_nat_0 of_nat_mod)
  then have "energy_balanced_permutation fl diagonal (int block) serpentine = Inr ?perm"
    using assms run perm by (auto simp: energy_balanced_permutation_def Let_def validate_permutation_iff not_le)
  then show ?thesis using len full perm that by blast
qed

definition bucket_sorted :: "bool \<Rightarrow> nat \<Rightarrow> rat list \<Rightarrow> nat \<Rightarrow> int list \<Rightarrow> bool" where
  "bucket_sorted serpentine block values b perm \<longleftrightarrow>
     sorted_wrt (\<lambda>i j. if serpentine \<and> odd b then values ! nat i \<le> values ! nat j else values ! nat j \<le> values ! nat i)
       (take block (drop (b * block) perm))"

lemma energy_balanced_sorted:
  assumes "finite_values diagonal = Some values" "values \<noteq> []" "\<forall>v \<in> set values. 0 \<le> v"
    and "0 < block" "length values mod block = 0"
  shows "\<exists>perm. energy_balanced_permutation fl diagonal (int block) serpentine = Inr perm \<and>
     is_permutation (length values) perm \<and> (\<forall>b < length values div block. bucket_sorted serpentine block values b perm)"
proof -
  obtain buckets where
    run: "energy_balanced_permutation fl diagonal (int block) serpentine
       = Inr (concat (map (order_bucket values serpentine) (enumerate 0 buckets)))"
    and len: "length buckets = length values div block" and full: "\<forall>b \<in> set buckets. length b = block"
    and perm: "is_permutation (length values) (concat (map (order_bucket values serpentine) (enumerate 0 buckets)))"
    by (rule energy_balanced_ok [OF assms])
  have full: "\<forall>x \<in> set (map (order_bucket values serpentine) (enumerate 0 buckets)). length x = block"
    using full by (auto simp: in_set_enumerate_eq)
  have "bucket_sorted serpentine block values b (concat (map (order_bucket values serpentine) (enumerate 0 buckets)))"
    if "b < length values div block" for b
  proof -
    have "take block (drop (b * block) (concat (map (order_bucket values serpentine) (enumerate 0 buckets))))
            = order_bucket values serpentine (b, buckets ! b)"
      using nth_block_concat [OF full, of b] that len by (simp add: nth_enumerate_eq)
    then show ?thesis using order_bucket_sorted [of serpentine "(b, buckets ! b)" "values"]
      by (simp add: bucket_sorted_def)
  qed
  with run perm show ?thesis by blast
qed

section \<open>The inverse\<close>

lemma fold_update_length [simp]:
  "length (fold (\<lambda>(new, old) inv. inv[nat old := int new]) xs acc) = length acc"
  by (induction xs arbitrary: acc) (simp_all add: case_prod_unfold)

lemma fold_update_other:
  "j \<notin> (\<lambda>(new, old). nat old) ` set xs
   \<Longrightarrow> fold (\<lambda>(new, old) inv. inv[nat old := int new]) xs acc ! j = acc ! j"
  by (induction xs arbitrary: acc) (auto simp: case_prod_unfold)

lemma fold_update_nth:
  assumes "distinct (map nat perm)" "\<forall>x \<in> set perm. nat x < length acc" "k < length perm"
  shows "fold (\<lambda>(new, old) inv. inv[nat old := int new]) (enumerate m perm) acc ! nat (perm ! k) = int (m + k)"
  using assms
proof (induction perm arbitrary: m acc k)
  case Nil
  then show ?case by simp
next
  case (Cons x perm)
  show ?case
  proof (cases k)
    case 0
    have "nat ` set perm = (\<lambda>(new, old). nat old) ` set (enumerate (Suc m) perm)"
      using map_snd_enumerate [of "Suc m" perm]
      by (metis (no_types, lifting) ext case_prod_unfold image_image set_map)
    with Cons.prems(1) have "nat x \<notin> (\<lambda>(new, old). nat old) ` set (enumerate (Suc m) perm)" by simp
    with Cons.prems 0 show ?thesis by (simp add: fold_update_other)
  next
    case (Suc j)
    with Cons show ?thesis by simp
  qed
qed

lemma covering_is_permutation:
  assumes "int ` {0..<n} \<subseteq> set xs" "length xs = n"
  shows "is_permutation n xs"
proof -
  have "n = card (int ` {0..<n})" by (simp add: card_image)
  then have "card (set xs) = n"
    using assms card_mono [OF finite_set assms(1)] card_length [of xs] by simp
  then have dist: "distinct xs" using assms(2) by (simp add: card_distinct)
  have "int ` {0..<n} = set xs"
    using assms \<open>card (set xs) = n\<close> \<open>n = card (int ` {0..<n})\<close> by (intro card_subset_eq) simp_all
  then show ?thesis using dist
    by (simp add: is_permutation_def set_eq_iff_mset_eq_distinct [symmetric] distinct_map del: mset_map mset_upt)
qed

lemma inverse_permutation_ok:
  assumes "is_permutation n perm" "0 < n"
  shows "\<exists>inv. inverse_permutation perm = Inr inv \<and> is_permutation n inv \<and>
     (\<forall>k < n. inv ! nat (perm ! k) = int k \<and> perm ! nat (inv ! k) = int k)"
proof -
  let ?inv = "fold (\<lambda>(new, old) inv. inv[nat old := int new]) (enumerate 0 perm) (replicate (length perm) 0)"
  have len: "length perm = n"
    using assms(1) mset_eq_length [of perm "map int [0..<n]"] by (simp add: is_permutation_def)
  have set_perm: "set perm = int ` {0..<n}"
    using assms(1) mset_eq_setD [of perm "map int [0..<n]"] by (simp add: is_permutation_def)
  have "mset (map nat perm) = mset (map nat (map int [0..<n]))"
    using assms(1) unfolding is_permutation_def mset_map [of nat] by simp
  then have nats: "mset (map nat perm) = mset [0..<n]" by (simp add: comp_def)
  then have dist: "distinct (map nat perm)" using mset_eq_imp_distinct_iff [OF nats] by simp
  have inv: "?inv ! nat (perm ! k) = int k" if "k < n" for k
    using fold_update_nth [OF dist, of "replicate (length perm) 0" k 0] set_perm that len by auto
  have hit: "\<exists>i < n. perm ! i = int k" if "k < n" for k
  proof -
    have "int k \<in> set perm" using set_perm that by auto
    then show ?thesis using len by (auto simp: in_set_conv_nth)
  qed
  have onto: "perm ! nat (?inv ! k) = int k" if "k < n" for k
  proof -
    obtain i where "i < n" "perm ! i = int k" using hit \<open>k < n\<close> by blast
    with inv [of i] show ?thesis by simp
  qed
  have "set ?inv \<supseteq> int ` {0..<n}"
  proof
    fix x assume "x \<in> int ` {0..<n}"
    then obtain k where k: "x = int k" "k < n" by auto
    have "nat (perm ! k) < n" using set_perm k(2) len nth_mem [of k perm] by auto
    then show "x \<in> set ?inv" using inv [OF k(2)] k(1) len by (auto simp: in_set_conv_nth)
  qed
  moreover have "length ?inv = n" using len by simp
  ultimately have "is_permutation n ?inv" by (rule covering_is_permutation)
  moreover have "inverse_permutation perm = Inr ?inv"
    using assms len by (simp add: inverse_permutation_def validate_None validate_permutation_iff)
  ultimately show ?thesis using inv onto by blast
qed

section \<open>The policies\<close>

lemma identity_is_permutation: "is_permutation n (map int [0..<n])"
  by (simp add: is_permutation_def)

lemma finite_values_Some [simp]: "finite_values (map Some values) = Some values"
  by (simp add: finite_values_def comp_def)

lemma stored_descending_ok:
  "\<lbrakk>values \<noteq> []; finite_values diagonal = Some values\<rbrakk>
   \<Longrightarrow> stored_descending_diag_permutation diagonal = Inr (ranked values)"
  by (simp add: stored_descending_diag_permutation_def)

text \<open>
  C31. For a non-empty diagonal of finite, non-negative energies whose length is a multiple of the block,
  the five permutation policies succeed: no check of the module (the order of the LDLQ visit, the
  validation of the result) fires.  Every policy gives a permutation of the columns, and the inverse the
  module computes undoes it in both directions.  The first descending policy is visited by LDLQ, from
  the last stored column to the first, by falling energy, the second stores by falling energy; the
  balanced policies give each block exactly \<open>block\<close> columns by falling energy, the odd blocks by rising
  energy when they are serpentine.  The rounding \<open>fl\<close> of the running totals is arbitrary.
\<close>

theorem policies_are_permutations:
  assumes "values \<noteq> []" and "\<forall>v \<in> set values. 0 \<le> v" and "0 < block" and "length values mod block = 0"
  shows "\<exists>p1 p2 p3 p4 p5.
     policy_permutations fl (map Some values) (int block)
       = Inr [(''identity'', p1), (''ldlq_visit_descending_diag'', p2), (''stored_descending_diag'', p3),
              (''energy_balanced'', p4), (''energy_balanced_contiguous'', p5)] \<and>
     (\<forall>p \<in> {p1, p2, p3, p4, p5}. is_permutation (length values) p \<and>
        (\<exists>inv. inverse_permutation p = Inr inv \<and>
           (\<forall>k < length values. inv ! nat (p ! k) = int k \<and> p ! nat (inv ! k) = int k))) \<and>
     p1 = map int [0..<length values] \<and>
     sorted_wrt (\<lambda>i j. values ! nat j \<le> values ! nat i) (rev p2) \<and>
     sorted_wrt (\<lambda>i j. values ! nat j \<le> values ! nat i) p3 \<and>
     (\<forall>b < length values div block. bucket_sorted True block values b p4 \<and> bucket_sorted False block values b p5)"
proof -
  let ?n = "length values" and ?d = "map Some values"
  have n: "0 < ?n" using assms(1) by simp
  obtain p4 where p4: "energy_balanced_permutation fl ?d (int block) True = Inr p4" "is_permutation ?n p4"
      "\<forall>b < ?n div block. bucket_sorted True block values b p4"
    using energy_balanced_sorted [OF finite_values_Some assms, of fl True] by blast
  obtain p5 where p5: "energy_balanced_permutation fl ?d (int block) False = Inr p5" "is_permutation ?n p5"
      "\<forall>b < ?n div block. bucket_sorted False block values b p5"
    using energy_balanced_sorted [OF finite_values_Some assms, of fl False] by blast
  have "identity_permutation (int ?n) = Inr (map int [0..<?n])" using n by (simp add: identity_permutation_def)
  moreover have "\<not> (?d = [] \<or> (\<exists>v \<in> set ?d. case v of None \<Rightarrow> True | Some x \<Rightarrow> x < 0))"
    using assms(1,2) by (auto simp: not_less)
  ultimately have run: "policy_permutations fl ?d (int block)
      = Inr [(''identity'', map int [0..<?n]), (''ldlq_visit_descending_diag'', rev (ranked values)),
             (''stored_descending_diag'', ranked values), (''energy_balanced'', p4), (''energy_balanced_contiguous'', p5)]"
    using p4(1) p5(1) descending_diag_ok [OF assms(1) finite_values_Some]
      stored_descending_ok [OF assms(1) finite_values_Some]
    by (simp only: policy_permutations_def if_False bind_res.simps length_map)
  have perms: "\<forall>p \<in> {map int [0..<?n], rev (ranked values), ranked values, p4, p5}. is_permutation ?n p"
    using p4(2) p5(2) ranked_permutation [of "values"] by (simp add: is_permutation_def)
  then have inverses: "\<forall>p \<in> {map int [0..<?n], rev (ranked values), ranked values, p4, p5}. is_permutation ?n p \<and>
      (\<exists>inv. inverse_permutation p = Inr inv \<and> (\<forall>k < ?n. inv ! nat (p ! k) = int k \<and> p ! nat (inv ! k) = int k))"
    using inverse_permutation_ok [OF _ n] by blast
  show ?thesis
    by (rule exI [of _ "map int [0..<?n]"], rule exI [of _ "rev (ranked values)"], rule exI [of _ "ranked values"],
        rule exI [of _ p4], rule exI [of _ p5])
      (use run inverses p4(3) p5(3) ranked_descending [of "values"] in \<open>unfold rev_rev_ident, intro conjI, simp_all\<close>)
qed

lemma policies_are_permutations_witness:
  "\<exists>p1 p2 p3 p4 p5.
     policy_permutations Fin (map Some [3, 1, 2, 5]) (int 2)
       = Inr [(''identity'', p1), (''ldlq_visit_descending_diag'', p2), (''stored_descending_diag'', p3),
              (''energy_balanced'', p4), (''energy_balanced_contiguous'', p5)] \<and>
     (\<forall>p \<in> {p1, p2, p3, p4, p5}. is_permutation (length [3, 1, 2, 5 :: rat]) p \<and>
        (\<exists>inv. inverse_permutation p = Inr inv \<and>
           (\<forall>k < length [3, 1, 2, 5 :: rat]. inv ! nat (p ! k) = int k \<and> p ! nat (inv ! k) = int k))) \<and>
     p1 = map int [0..<length [3, 1, 2, 5 :: rat]] \<and>
     sorted_wrt (\<lambda>i j. [3, 1, 2, 5 :: rat] ! nat j \<le> [3, 1, 2, 5] ! nat i) (rev p2) \<and>
     sorted_wrt (\<lambda>i j. [3, 1, 2, 5 :: rat] ! nat j \<le> [3, 1, 2, 5] ! nat i) p3 \<and>
     (\<forall>b < length [3, 1, 2, 5 :: rat] div 2.
        bucket_sorted True 2 [3, 1, 2, 5] b p4 \<and> bucket_sorted False 2 [3, 1, 2, 5] b p5)"
  by (rule policies_are_permutations) simp_all

end
