(* ===== verification/KvLayout.thy ===== *)
theory KvLayout
  imports SpecKinds Complex_Main "HOL-Library.Multiset"
begin

text \<open>
  Where the KV cache of every layer lies in memory: the layouts of
  \<open>upstream-g4/vllm/v1/kv_cache_layout.py\<close>, the pages and strides of
  \<open>upstream-g1/vllm/v1/kv_cache_interface.py\<close>, and the placement of the groups in one allocation,
  \<open>get_kv_cache_config_from_groups\<close> of \<open>upstream-g1/vllm/v1/core/kv_cache_utils.py\<close>.

  Byte counts are Python integers.  A specification holds what the placement reads of it:
  \<open>pg_other\<close> stands for its remaining fields, which only \<open>==\<close> compares.  \<open>round_up\<close> is a function of
  \<open>vllm.utils.math_utils\<close>, which is outside the repository, and a parameter.
\<close>

section \<open>Layouts\<close>

datatype memory_layout = LBHNC | LBNHC | LHBNC | BLHNC | BLNHC | BHLNC

abbreviation (input) dim_L :: nat where "dim_L \<equiv> 0"
abbreviation (input) dim_B :: nat where "dim_B \<equiv> 1"

fun stride_order :: "memory_layout \<Rightarrow> nat list" where
  "stride_order LBHNC = [0, 1, 2, 3, 4]"
| "stride_order LBNHC = [0, 1, 3, 2, 4]"
| "stride_order LHBNC = [0, 2, 1, 3, 4]"
| "stride_order BLHNC = [1, 0, 2, 3, 4]"
| "stride_order BLNHC = [1, 0, 3, 2, 4]"
| "stride_order BHLNC = [1, 2, 0, 3, 4]"

definition is_layer_compact :: "memory_layout \<Rightarrow> bool" where
  "is_layer_compact lay \<longleftrightarrow> stride_order lay ! dim_L = 0"

definition is_block_compact :: "memory_layout \<Rightarrow> bool" where
  "is_block_compact lay \<longleftrightarrow> set (take 2 (stride_order lay)) = {dim_L, dim_B}"

definition is_block_outermost :: "memory_layout \<Rightarrow> bool" where
  "is_block_outermost lay \<longleftrightarrow> stride_order lay ! 0 = dim_B"

section \<open>Pages\<close>

record page_spec =
  pg_kind :: spec_kind
  pg_block_size :: int
  pg_num_heads :: int
  pg_tokens_per_state :: rat
  pg_state_bytes :: int
  pg_page_size_padded :: "int option"
  pg_page_tail :: int
  pg_model_version :: "string option"
  pg_other :: "int list"

definition get_num_kernel_states :: "page_spec \<Rightarrow> int \<Rightarrow> int" where
  "get_num_kernel_states spec kernel_block_size =
     (if pg_tokens_per_state spec > 0 then \<lfloor>of_int kernel_block_size / pg_tokens_per_state spec\<rfloor> else 1)"

abbreviation num_states :: "page_spec \<Rightarrow> int" where
  "num_states spec \<equiv> get_num_kernel_states spec (pg_block_size spec)"

text \<open>\<open>isinstance(spec, MLAAttentionSpec)\<close>\<close>

definition is_mla :: "page_spec \<Rightarrow> bool" where
  "is_mla spec \<longleftrightarrow> pg_kind spec = MLAAttentionSpec \<or> pg_kind spec = HiddenStateCacheSpec"

definition unpadded_page_size_bytes :: "page_spec \<Rightarrow> int" where
  "unpadded_page_size_bytes spec =
     (if pg_kind spec = MambaSpec then pg_state_bytes spec
      else pg_num_heads spec * num_states spec * pg_state_bytes spec)"

definition page_size_bytes :: "page_spec \<Rightarrow> int res" where
  "page_size_bytes spec =
     bind_res
       (case pg_page_size_padded spec of
          Some padded \<Rightarrow> if padded \<ge> unpadded_page_size_bytes spec then Inr padded else Inl AssertionError
        | None \<Rightarrow> Inr (unpadded_page_size_bytes spec))
       (\<lambda>page. Inr (if is_mla spec then page + pg_block_size spec * pg_page_tail spec else page))"

definition compute_layer_kv_cache_shape_bytes :: "page_spec \<Rightarrow> int \<Rightarrow> int option \<Rightarrow> int list res" where
  "compute_layer_kv_cache_shape_bytes spec num_blocks kernel_block_size =
     (let bs = (case kernel_block_size of Some k \<Rightarrow> k | None \<Rightarrow> pg_block_size spec)
      in bind_res (py_mod (pg_block_size spec) bs) (\<lambda>m.
           if m \<noteq> 0 then Inl AssertionError
           else Inr [num_blocks * (pg_block_size spec div bs), pg_num_heads spec, get_num_kernel_states spec bs,
                     pg_state_bytes spec]))"

text \<open>\<open>order.index(dim)\<close>\<close>

definition position_of :: "nat \<Rightarrow> nat list \<Rightarrow> nat" where
  "position_of d order = length (takeWhile (\<lambda>e. e \<noteq> d) order)"

text \<open>One dimension, from the innermost outwards\<close>

definition place_dim ::
  "int list \<Rightarrow> int option list \<Rightarrow> int option \<Rightarrow> nat \<Rightarrow> nat \<times> nat \<Rightarrow> int list \<times> int \<Rightarrow> (int list \<times> int) res" where
  "place_dim shape fixed padded page_grid_end pd s =
     (let (physical_idx, dim) = pd; (strides, current_stride) = s
      in bind_res
           (case padded of
              Some p \<Rightarrow>
                if physical_idx + 1 = page_grid_end then
                  bind_res (py_mod (max current_stride p) p) (\<lambda>m.
                    if m \<noteq> 0 then Inl AssertionError else Inr (max current_stride p))
                else Inr current_stride
            | None \<Rightarrow> Inr current_stride) (\<lambda>current.
         (let stride = (case fixed ! dim of Some f \<Rightarrow> if f \<noteq> 0 then f else current | None \<Rightarrow> current)
          in Inr (strides[dim := stride], stride * shape ! dim))))"

definition compute_layout_strides ::
  "page_spec \<Rightarrow> int \<Rightarrow> int \<Rightarrow> memory_layout \<Rightarrow> int option \<Rightarrow> int option list \<Rightarrow> int list res" where
  "compute_layout_strides spec num_blocks num_layers lay kernel_block_size fixed =
     (if length fixed \<noteq> 5 \<or> (\<exists>f \<in> set fixed. case f of None \<Rightarrow> False | Some x \<Rightarrow> \<not> x > 0) then Inl AssertionError
      else bind_res (compute_layer_kv_cache_shape_bytes spec num_blocks kernel_block_size) (\<lambda>layer_shape.
        (let shape = num_layers # layer_shape; order = stride_order lay;
             page_grid_end = max (position_of dim_L order) (position_of dim_B order) + 1
         in bind_res (if pg_page_tail spec \<noteq> 0 then bind_res (page_size_bytes spec) (\<lambda>p. Inr (Some p))
                      else Inr (pg_page_size_padded spec)) (\<lambda>padded.
            if padded \<noteq> None \<and> \<not> (kernel_block_size = None \<or> kernel_block_size = Some (pg_block_size spec))
            then Inl AssertionError
            else if padded \<noteq> None
              \<and> prod_list (map (\<lambda>d. shape ! d) (take page_grid_end order)) \<noteq> num_layers * num_blocks
            then Inl AssertionError
            else bind_res (fold_res (place_dim shape fixed padded page_grid_end) (rev (enumerate 0 order))
                             (replicate 5 0, 1)) (\<lambda>(strides, _). Inr strides)))))"

section \<open>The placement of the groups\<close>

datatype group_spec = LayerSpec page_spec | UniformSpecs "(string \<times> page_spec) list"

record layer_group =
  gr_layer_names :: "string list"
  gr_spec :: group_spec

record kv_tensor =
  tn_size :: int
  tn_layers :: "string list"
  tn_layer_stride :: int
  tn_block_stride :: int
  tn_offset :: int

record layout_config =
  cf_num_blocks :: int
  cf_tensors :: "kv_tensor list"
  cf_groups :: "layer_group list"

record layout_env =
  le_layout :: memory_layout
  le_num_blocks_override :: "int option"
  le_split_target_block_size :: bool

definition get_per_layer_spec :: "layer_group \<Rightarrow> string \<Rightarrow> page_spec res" where
  "get_per_layer_spec g name =
     (case gr_spec g of
        LayerSpec s \<Rightarrow> Inr s
      | UniformSpecs d \<Rightarrow> (case map_of d name of Some s \<Rightarrow> Inr s | None \<Rightarrow> Inl KeyError))"

text \<open>The page sizes of the layers of a group, in their order\<close>

definition group_page_sizes :: "layer_group \<Rightarrow> int list res" where
  "group_page_sizes g = map_res (\<lambda>name. bind_res (get_per_layer_spec g name) page_size_bytes) (gr_layer_names g)"

definition contains_glm5_next_mla :: "page_spec list \<Rightarrow> bool" where
  "contains_glm5_next_mla specs \<longleftrightarrow> (\<exists>s \<in> set specs. is_mla s \<and> pg_model_version s = Some ''glm5_next'')"

definition get_kv_cache_bytes_per_block :: "(int \<Rightarrow> int \<Rightarrow> int) \<Rightarrow> bool \<Rightarrow> layer_group list \<Rightarrow> int res" where
  "get_kv_cache_bytes_per_block round_up split_target groups =
     bind_res (map_res group_page_sizes groups) (\<lambda>pages.
       if pages = [] then Inl ValueError
       else (let bytes_per_block = Max (set (map sum_list pages))
             in if \<not> bytes_per_block > 0 then Inl AssertionError
                else bind_res (map_res (\<lambda>g. map_res (get_per_layer_spec g) (gr_layer_names g)) groups) (\<lambda>specs.
                       Inr (if split_target \<and> contains_glm5_next_mla (concat specs)
                            then round_up bytes_per_block (64 * 132) else bytes_per_block))))"

definition validate_kv_cache_layout :: "memory_layout \<Rightarrow> layer_group list \<Rightarrow> unit res" where
  "validate_kv_cache_layout lay groups =
     bind_res (map_res group_page_sizes groups) (\<lambda>pages.
       if card (set (concat pages)) = 1 then Inr ()
       else if \<not> is_block_compact lay \<or> (length groups > 1 \<and> is_layer_compact lay) then Inl ValueError
       else Inr ())"

definition layers_by_spec :: "layer_group \<Rightarrow> (page_spec, string list) pydict" where
  "layers_by_spec g =
     (case gr_spec g of
        UniformSpecs d \<Rightarrow> fold (\<lambda>(name, s) acc. AList.update s (dict_get acc s [] @ [name]) acc) d []
      | LayerSpec s \<Rightarrow> if gr_layer_names g \<noteq> [] then [(s, gr_layer_names g)] else [])"

definition is_parasitic :: "page_spec \<Rightarrow> bool" where
  "is_parasitic spec \<longleftrightarrow> pg_kind spec = MambaSpec \<or> pg_kind spec = KpoolTailSpec"

definition find_host :: "int \<Rightarrow> int \<Rightarrow> kv_tensor list \<Rightarrow> kv_tensor option" where
  "find_host num_blocks page tensors =
     find (\<lambda>t. tn_block_stride t = page \<and> tn_layer_stride t = num_blocks * page) tensors"

text \<open>The strides and the offset of one bucket\<close>

definition bucket_placement ::
  "memory_layout \<Rightarrow> int \<Rightarrow> int option \<Rightarrow> bool \<Rightarrow> kv_tensor list \<Rightarrow> int \<Rightarrow> page_spec \<Rightarrow> string list
     \<Rightarrow> (int \<times> int \<times> int) res" where
  "bucket_placement lay num_blocks interleaved per_bucket tensors byte_offset spec names =
     bind_res (page_size_bytes spec) (\<lambda>page.
       (case (if is_parasitic spec then find_host num_blocks page tensors else None) of
          Some host \<Rightarrow>
            if length names > length (tn_layers host) then Inl ValueError
            else Inr (tn_layer_stride host, tn_block_stride host, tn_offset host)
        | None \<Rightarrow>
            if per_bucket then Inr (num_blocks * page, page, byte_offset * num_blocks)
            else bind_res (compute_layout_strides spec num_blocks (int (length names)) lay None
                             [None, interleaved, None, None, None]) (\<lambda>strides.
                   bind_res (py_floordiv (byte_offset * max (strides ! 0) page) page) (\<lambda>offset.
                     Inr (strides ! 0, strides ! 1, offset)))))"

definition place_bucket ::
  "memory_layout \<Rightarrow> int \<Rightarrow> int option \<Rightarrow> int \<Rightarrow> bool \<Rightarrow> page_spec \<times> string list \<Rightarrow> kv_tensor list \<times> int
     \<Rightarrow> (kv_tensor list \<times> int) res" where
  "place_bucket lay num_blocks interleaved total_size per_bucket bucket s =
     (let (spec, names) = bucket; (tensors, byte_offset) = s
      in bind_res (bucket_placement lay num_blocks interleaved per_bucket tensors byte_offset spec names)
           (\<lambda>(layer_stride, block_stride, offset).
         bind_res (page_size_bytes spec) (\<lambda>page.
           Inr (tensors @ [\<lparr>tn_size = total_size, tn_layers = names, tn_layer_stride = layer_stride,
                            tn_block_stride = block_stride, tn_offset = offset\<rparr>],
                byte_offset + int (length names) * page))))"

definition place_group ::
  "memory_layout \<Rightarrow> int \<Rightarrow> int option \<Rightarrow> int \<Rightarrow> layer_group \<Rightarrow> kv_tensor list \<Rightarrow> kv_tensor list res" where
  "place_group lay num_blocks interleaved total_size g tensors =
     (let buckets = layers_by_spec g
      in bind_res (if is_block_outermost lay then map_res (\<lambda>(spec, _). page_size_bytes spec) buckets else Inr [])
           (\<lambda>pages.
         bind_res (fold_res (place_bucket lay num_blocks interleaved total_size (card (set pages) > 1)) buckets
                     (tensors, 0)) (\<lambda>(tensors', _). Inr tensors')))"

definition may_override_num_blocks :: "layout_env \<Rightarrow> int \<Rightarrow> int" where
  "may_override_num_blocks env num_blocks =
     (case le_num_blocks_override env of Some n \<Rightarrow> n | None \<Rightarrow> num_blocks)"

definition get_kv_cache_config_from_groups ::
  "(int \<Rightarrow> int \<Rightarrow> int) \<Rightarrow> layout_env \<Rightarrow> layer_group list \<Rightarrow> int \<Rightarrow> layout_config res" where
  "get_kv_cache_config_from_groups round_up env groups available_memory =
     (if groups = [] then Inr \<lparr>cf_num_blocks = 1, cf_tensors = [], cf_groups = groups\<rparr>
      else (let lay = le_layout env
            in bind_res (validate_kv_cache_layout lay groups) (\<lambda>_.
               bind_res (get_kv_cache_bytes_per_block round_up (le_split_target_block_size env) groups)
                 (\<lambda>bytes_per_block.
               (let interleaved = (if is_block_outermost lay then Some bytes_per_block else None);
                    num_blocks = may_override_num_blocks env (available_memory div bytes_per_block)
                in bind_res (fold_res (place_group lay num_blocks interleaved (bytes_per_block * num_blocks)) groups [])
                     (\<lambda>tensors.
                       Inr \<lparr>cf_num_blocks = num_blocks, cf_tensors = tensors, cf_groups = groups\<rparr>))))))"

section \<open>Strides of pages that lie in one piece\<close>

definition spec_ok :: "page_spec \<Rightarrow> int \<Rightarrow> bool" where
  "spec_ok spec page \<longleftrightarrow> page_size_bytes spec = Inr page \<and> 1 \<le> pg_block_size spec \<and> 1 \<le> pg_num_heads spec
     \<and> 1 \<le> num_states spec \<and> 1 \<le> pg_state_bytes spec \<and> 0 \<le> pg_page_tail spec
     \<and> (pg_kind spec = MambaSpec \<longrightarrow> pg_num_heads spec = 1 \<and> pg_tokens_per_state spec \<le> 0)
     \<and> (\<not> is_mla spec \<longrightarrow> pg_page_tail spec = 0)"

lemma unpadded_product:
  "spec_ok spec page \<Longrightarrow> unpadded_page_size_bytes spec = pg_num_heads spec * num_states spec * pg_state_bytes spec"
  by (auto simp: spec_ok_def unpadded_page_size_bytes_def get_num_kernel_states_def)

lemma unpadded_pos: "spec_ok spec page \<Longrightarrow> 1 \<le> unpadded_page_size_bytes spec"
  using mult_mono [of 1 "pg_num_heads spec" 1 "num_states spec"] mult_mono [of 1 _ 1 "pg_state_bytes spec"]
  by (fastforce simp: unpadded_product spec_ok_def)

lemma page_ge:
  assumes "spec_ok spec page"
  shows "unpadded_page_size_bytes spec \<le> page" and "1 \<le> page"
proof -
  let ?base = "case pg_page_size_padded spec of Some padded \<Rightarrow> padded | None \<Rightarrow> unpadded_page_size_bytes spec"
  have base: "unpadded_page_size_bytes spec \<le> ?base"
      "page = (if is_mla spec then ?base + pg_block_size spec * pg_page_tail spec else ?base)"
    using assms by (auto simp: spec_ok_def page_size_bytes_def split: option.splits if_splits)
  moreover have "0 \<le> pg_block_size spec * pg_page_tail spec" using assms by (simp add: spec_ok_def)
  ultimately show "unpadded_page_size_bytes spec \<le> page"
    by (cases "is_mla spec"; simp only: if_True if_False; linarith)
  then show "1 \<le> page" using unpadded_pos [OF assms] by simp
qed

text \<open>The size that pads a page, and the size of the page\<close>

definition padding_of :: "page_spec \<Rightarrow> int \<Rightarrow> int option" where
  "padding_of spec page = (if pg_page_tail spec \<noteq> 0 then Some page else pg_page_size_padded spec)"

lemma padding_of_page:
  assumes "spec_ok spec page"
  shows "padding_of spec page = Some page \<or> (padding_of spec page = None \<and> page = unpadded_page_size_bytes spec)"
  using assms by (auto simp: spec_ok_def padding_of_def page_size_bytes_def split: option.splits if_splits)

lemma page_stride:
  assumes "spec_ok spec page"
  shows "(case padding_of spec page of Some p \<Rightarrow> max (unpadded_page_size_bytes spec) p
     | None \<Rightarrow> unpadded_page_size_bytes spec) = page"
  using padding_of_page [OF assms] page_ge(1) [OF assms] by auto

lemma layer_shape:
  "spec_ok spec page \<Longrightarrow> compute_layer_kv_cache_shape_bytes spec num_blocks None
     = Inr [num_blocks, pg_num_heads spec, num_states spec, pg_state_bytes spec]"
  by (simp add: compute_layer_kv_cache_shape_bytes_def spec_ok_def py_mod_def Let_def)

text \<open>The loop over the dimensions, for a page of \<open>page\<close> bytes\<close>

lemma place_dims_layer_outermost:
  fixes C H N page :: int
  assumes "lay = LBHNC \<or> lay = LBNHC" and "0 < page" and "C * N * H \<le> page"
    and "padded = Some page \<or> (padded = None \<and> C * N * H = page)"
  shows "\<exists>rest s. fold_res (place_dim [L, nb, H, N, C] [None, None, None, None, None] padded 2)
     (rev (enumerate 0 (stride_order lay))) (replicate 5 0, 1) = Inr ((page * nb) # page # rest, s)"
proof -
  have comm: "C * H * N = C * N * H" by simp
  have "max (C * N * H) page = page" using assms(3) by simp
  then show ?thesis using assms(1,2,4)
    by (elim disjE conjE) (simp_all add: place_dim_def py_mod_def numeral_eq_Suc comm Let_def)
qed

lemma place_dims_block_outermost:
  fixes C H N page :: int
  assumes "lay = BLHNC \<or> lay = BLNHC" and "0 < page" and "C * N * H \<le> page" and "0 < bpb"
    and "padded = Some page \<or> (padded = None \<and> C * N * H = page)"
  shows "\<exists>rest s. fold_res (place_dim [L, nb, H, N, C] [None, Some bpb, None, None, None] padded 2)
     (rev (enumerate 0 (stride_order lay))) (replicate 5 0, 1) = Inr (page # bpb # rest, s)"
proof -
  have comm: "C * H * N = C * N * H" by simp
  have "max (C * N * H) page = page" using assms(3) by simp
  then show ?thesis using assms(1,2,4,5)
    by (elim disjE conjE) (simp_all add: place_dim_def py_mod_def numeral_eq_Suc comm Let_def)
qed

lemma strides_of_pages:
  assumes "spec_ok spec page" and "is_block_compact lay"
    and "interleaved = (if is_block_outermost lay then Some bpb else None)" and "0 < bpb"
  shows "\<exists>rest. compute_layout_strides spec num_blocks num_layers lay None [None, interleaved, None, None, None]
     = Inr ((if is_block_outermost lay then [page, bpb] else [page * num_blocks, page]) @ rest)"
proof -
  let ?C = "pg_state_bytes spec" and ?H = "pg_num_heads spec" and ?N = "num_states spec"
  have page: "0 < page" "?C * ?N * ?H \<le> page"
      "padding_of spec page = Some page \<or> (padding_of spec page = None \<and> ?C * ?N * ?H = page)"
  proof -
    have swap: "c * n * h = h * n * c" for c n h :: int by simp
    have "?C * ?N * ?H = unpadded_page_size_bytes spec"
      unfolding unpadded_product [OF assms(1)] by (rule swap)
    then show "0 < page" "?C * ?N * ?H \<le> page"
      "padding_of spec page = Some page \<or> (padding_of spec page = None \<and> ?C * ?N * ?H = page)"
      using page_ge [OF assms(1)] padding_of_page [OF assms(1)] by auto
  qed
  have lay: "lay = LBHNC \<or> lay = LBNHC \<or> lay = BLHNC \<or> lay = BLNHC"
    using assms(2) by (cases lay) (simp_all add: is_block_compact_def doubleton_eq_iff)
  have padded: "(if pg_page_tail spec \<noteq> 0 then bind_res (page_size_bytes spec) (\<lambda>p. Inr (Some p))
      else Inr (pg_page_size_padded spec)) = Inr (padding_of spec page)"
    using assms(1) by (simp add: padding_of_def spec_ok_def)
  have "\<exists>rest s. fold_res (place_dim [num_layers, num_blocks, ?H, ?N, ?C] [None, interleaved, None, None, None]
      (padding_of spec page) 2) (rev (enumerate 0 (stride_order lay))) (replicate 5 0, 1)
      = Inr ((if is_block_outermost lay then [page, bpb] else [page * num_blocks, page]) @ rest, s)"
  proof (cases "is_block_outermost lay")
    case True
    with lay have "lay = BLHNC \<or> lay = BLNHC" by (auto simp: is_block_outermost_def)
    from place_dims_block_outermost [OF this page(1,2) assms(4) page(3)] True assms(3) show ?thesis by simp
  next
    case False
    with lay have "lay = LBHNC \<or> lay = LBNHC" by (auto simp: is_block_outermost_def)
    from place_dims_layer_outermost [OF this page] False assms(3) show ?thesis by simp
  qed
  then obtain rest s where run: "fold_res (place_dim [num_layers, num_blocks, ?H, ?N, ?C]
      [None, interleaved, None, None, None] (padding_of spec page) 2) (rev (enumerate 0 (stride_order lay)))
      (replicate 5 0, 1) = Inr ((if is_block_outermost lay then [page, bpb] else [page * num_blocks, page]) @ rest, s)"
    by blast
  have ends: "max (position_of dim_L (stride_order lay)) (position_of dim_B (stride_order lay)) + 1 = 2"
    and grid: "prod_list (map (\<lambda>d. [num_layers, num_blocks, ?H, ?N, ?C] ! d) (take 2 (stride_order lay)))
      = num_layers * num_blocks"
    using lay by (auto simp: position_of_def numeral_2_eq_2)
  have "\<not> (\<exists>f \<in> set [None, interleaved, None, None, None]. case f of None \<Rightarrow> False | Some x \<Rightarrow> \<not> x > 0)"
    using assms(3,4) by simp
  then show ?thesis
    unfolding compute_layout_strides_def layer_shape [OF assms(1)] bind_res.simps Let_def ends padded grid run
    by simp
qed

section \<open>Pages that do not overlap\<close>

text \<open>The bytes of the page of layer \<open>l\<close> and block \<open>b\<close> of a tensor\<close>

definition page_range :: "int \<Rightarrow> kv_tensor \<Rightarrow> nat \<Rightarrow> nat \<Rightarrow> int set" where
  "page_range page t l b =
     (let start = tn_offset t + int l * tn_layer_stride t + int b * tn_block_stride t in {start..<start + page})"

definition page_of :: "page_spec \<Rightarrow> int" where
  "page_of s = (case page_size_bytes s of Inr p \<Rightarrow> p | Inl _ \<Rightarrow> 0)"

text \<open>The number of its group and the size of its pages, for each tensor in their order\<close>

definition tensor_pages :: "layer_group list \<Rightarrow> (nat \<times> int) list" where
  "tensor_pages groups =
     concat (map (\<lambda>(i, g). map (\<lambda>(s, _). (i, page_of s)) (layers_by_spec g)) (enumerate 0 groups))"

text \<open>
  A placement is sound when every page lies in the allocation, pages of different blocks do not
  overlap, whichever groups own the blocks, and the layers of one group do not overlap in a block.
\<close>

definition placement_sound :: "layout_config \<Rightarrow> bool" where
  "placement_sound cfg \<longleftrightarrow>
     (let ps = tensor_pages (cf_groups cfg); ts = cf_tensors cfg; nb = nat (cf_num_blocks cfg)
      in length ps = length ts \<and>
         (\<forall>x < length ts. \<forall>l < length (tn_layers (ts ! x)). \<forall>b < nb.
            page_range (snd (ps ! x)) (ts ! x) l b \<subseteq> {0..<tn_size (ts ! x)}) \<and>
         (\<forall>x < length ts. \<forall>y < length ts. \<forall>l < length (tn_layers (ts ! x)). \<forall>k < length (tn_layers (ts ! y)).
            \<forall>b < nb. \<forall>c < nb. b \<noteq> c \<or> (fst (ps ! x) = fst (ps ! y) \<and> (x \<noteq> y \<or> l \<noteq> k)) \<longrightarrow>
            page_range (snd (ps ! x)) (ts ! x) l b \<inter> page_range (snd (ps ! y)) (ts ! y) k c = {}))"

record bucket =
  bk_group :: nat
  bk_start :: int
  bk_page :: int
  bk_layers :: "string list"

text \<open>The bytes of a bucket in one block, from its start\<close>

abbreviation bk_end :: "bucket \<Rightarrow> int" where
  "bk_end e \<equiv> bk_start e + int (length (bk_layers e)) * bk_page e"

definition interleaved_tensor :: "int \<Rightarrow> int \<Rightarrow> bucket \<Rightarrow> kv_tensor" where
  "interleaved_tensor total_size bpb e =
     \<lparr>tn_size = total_size, tn_layers = bk_layers e, tn_layer_stride = bk_page e, tn_block_stride = bpb,
      tn_offset = bk_start e\<rparr>"

definition contiguous_tensor :: "int \<Rightarrow> int \<Rightarrow> bucket \<Rightarrow> kv_tensor" where
  "contiguous_tensor total_size nb e =
     \<lparr>tn_size = total_size, tn_layers = bk_layers e, tn_layer_stride = nb * bk_page e, tn_block_stride = bk_page e,
      tn_offset = bk_start e * nb\<rparr>"

definition bucket_ok :: "int \<Rightarrow> bucket \<Rightarrow> bool" where
  "bucket_ok bpb e \<longleftrightarrow> 0 \<le> bk_start e \<and> 1 \<le> bk_page e \<and> bk_end e \<le> bpb"

lemma layer_in_bucket:
  assumes "bucket_ok bpb e" and "l < length (bk_layers e)"
  shows "bk_start e + int l * bk_page e + bk_page e \<le> bk_end e" and "0 \<le> int l * bk_page e"
proof -
  have "(int l + 1) * bk_page e \<le> int (length (bk_layers e)) * bk_page e"
    using assms by (intro mult_right_mono) (simp_all add: bucket_ok_def)
  then show "bk_start e + int l * bk_page e + bk_page e \<le> bk_end e" by (simp add: algebra_simps)
  show "0 \<le> int l * bk_page e" using assms by (simp add: bucket_ok_def)
qed

lemma blocks_apart:
  fixes b c s :: int
  assumes "0 \<le> x" "x + p \<le> s" "0 \<le> y" "y + q \<le> s" "b \<noteq> c"
  shows "{b * s + x..<b * s + x + p} \<inter> {c * s + y..<c * s + y + q} = {}"
proof (cases "b < c")
  case True
  have "0 < s \<or> p \<le> 0" using assms by linarith
  then show ?thesis
  proof
    assume "0 < s"
    then have "(b + 1) * s \<le> c * s" using True by (intro mult_right_mono) simp_all
    then have "b * s + s \<le> c * s" by (simp add: algebra_simps)
    then show ?thesis using assms by auto
  qed auto
next
  case False
  have "0 < s \<or> q \<le> 0" using assms by linarith
  then show ?thesis
  proof
    assume "0 < s"
    then have "(c + 1) * s \<le> b * s" using False assms(5) by (intro mult_right_mono) simp_all
    then have "c * s + s \<le> b * s" by (simp add: algebra_simps)
    then show ?thesis using assms by auto
  qed auto
qed

definition ends_before :: "bucket \<Rightarrow> bucket \<Rightarrow> bool" where
  "ends_before e f \<longleftrightarrow> bk_end e \<le> bk_start f"

lemma layers_apart:
  assumes "bucket_ok bpb e" "bucket_ok bpb f" "l < length (bk_layers e)" "k < length (bk_layers f)"
    and "ends_before e f \<or> ends_before f e \<or> (e = f \<and> l \<noteq> k)"
  shows "bk_start e + int l * bk_page e + bk_page e \<le> bk_start f + int k * bk_page f
    \<or> bk_start f + int k * bk_page f + bk_page f \<le> bk_start e + int l * bk_page e"
proof -
  note e = layer_in_bucket [OF assms(1,3)] and f = layer_in_bucket [OF assms(2,4)]
  have step: "int l * bk_page e + bk_page e \<le> int k * bk_page e" if "l < k" for l k
  proof -
    have "(int l + 1) * bk_page e \<le> int k * bk_page e"
      using that assms(1) by (intro mult_right_mono) (simp_all add: bucket_ok_def)
    then show ?thesis by (simp add: algebra_simps)
  qed
  from assms(5) consider "ends_before e f" | "ends_before f e" | "e = f" "l < k" | "e = f" "k < l" by linarith
  then show ?thesis
  proof cases
    case 1 then show ?thesis unfolding ends_before_def using e f by linarith
  next
    case 2 then show ?thesis unfolding ends_before_def using e f by linarith
  next
    case 3 then show ?thesis using step [of l k] by simp
  next
    case 4 then show ?thesis using step [of k l] by simp
  qed
qed

lemma interleaved_disjoint:
  assumes "bucket_ok bpb e" "bucket_ok bpb f" "l < length (bk_layers e)" "k < length (bk_layers f)"
    and "b \<noteq> c \<or> ends_before e f \<or> ends_before f e \<or> (e = f \<and> l \<noteq> k)"
  shows "page_range (bk_page e) (interleaved_tensor n bpb e) l b \<inter> page_range (bk_page f) (interleaved_tensor n bpb f) k c = {}"
proof -
  let ?x = "bk_start e + int l * bk_page e" and ?y = "bk_start f + int k * bk_page f"
  have ranges: "page_range (bk_page e) (interleaved_tensor n bpb e) l b = {int b * bpb + ?x..<int b * bpb + ?x + bk_page e}"
    "page_range (bk_page f) (interleaved_tensor n bpb f) k c = {int c * bpb + ?y..<int c * bpb + ?y + bk_page f}"
    by (simp_all add: page_range_def interleaved_tensor_def Let_def algebra_simps)
  have x: "0 \<le> ?x" "?x + bk_page e \<le> bpb" and y: "0 \<le> ?y" "?y + bk_page f \<le> bpb"
    using layer_in_bucket [OF assms(1,3)] layer_in_bucket [OF assms(2,4)] assms(1,2)
    unfolding bucket_ok_def by linarith+
  show ?thesis
  proof (cases "b = c")
    case True
    with layers_apart [OF assms(1-4)] assms(5) show ?thesis unfolding ranges by auto
  next
    case False
    then have "int b \<noteq> int c" by simp
    then show ?thesis unfolding ranges by (rule blocks_apart [OF x y])
  qed
qed

lemma interleaved_inside:
  assumes "bucket_ok bpb e" "l < length (bk_layers e)" "b < nat nb" "0 \<le> bpb"
  shows "page_range (bk_page e) (interleaved_tensor (bpb * nb) bpb e) l b \<subseteq> {0..<bpb * nb}"
proof -
  let ?x = "bk_start e + int l * bk_page e"
  have x: "0 \<le> ?x" "?x + bk_page e \<le> bpb"
    using layer_in_bucket [OF assms(1,2)] assms(1) unfolding bucket_ok_def by linarith+
  have "(int b + 1) * bpb \<le> nb * bpb" using assms(3,4) by (intro mult_right_mono) simp_all
  then have "int b * bpb + bpb \<le> bpb * nb" by (simp add: algebra_simps)
  moreover have "0 \<le> int b * bpb" using assms(4) by simp
  moreover have "page_range (bk_page e) (interleaved_tensor (bpb * nb) bpb e) l b
      = {int b * bpb + ?x..<int b * bpb + ?x + bk_page e}"
    by (simp add: page_range_def interleaved_tensor_def Let_def algebra_simps)
  ultimately show ?thesis using x by auto
qed

text \<open>Two buckets that lie apart, or one on the page grid of the other\<close>

definition aligned :: "bucket \<Rightarrow> bucket \<Rightarrow> bool" where
  "aligned e f \<longleftrightarrow> bk_page e = bk_page f \<and> bk_page e dvd bk_start f - bk_start e"

lemma contiguous_range:
  "page_range (bk_page e) (contiguous_tensor n nb e) l b
     = {bk_start e * nb + (int l * nb + int b) * bk_page e
        ..<bk_start e * nb + (int l * nb + int b) * bk_page e + bk_page e}"
  by (simp add: page_range_def contiguous_tensor_def Let_def algebra_simps)

lemma contiguous_within:
  assumes "bucket_ok bpb e" "l < length (bk_layers e)" "b < nat nb"
  shows "0 \<le> (int l * nb + int b) * bk_page e"
    and "bk_start e * nb + (int l * nb + int b) * bk_page e + bk_page e \<le> bk_end e * nb"
proof -
  have nb: "0 \<le> nb" "int b + 1 \<le> nb" using assms(3) by simp_all
  have "(int l + 1) * nb \<le> int (length (bk_layers e)) * nb" using assms(2) nb by (intro mult_right_mono) simp_all
  then have "int l * nb + int b + 1 \<le> int (length (bk_layers e)) * nb" using nb by (simp add: algebra_simps)
  then have "(int l * nb + int b + 1) * bk_page e \<le> int (length (bk_layers e)) * nb * bk_page e"
    using assms(1) by (intro mult_right_mono) (simp_all add: bucket_ok_def)
  then show "bk_start e * nb + (int l * nb + int b) * bk_page e + bk_page e \<le> bk_end e * nb"
    by (simp add: algebra_simps)
  show "0 \<le> (int l * nb + int b) * bk_page e" using assms(1) nb by (simp add: bucket_ok_def)
qed

lemma grid_apart:
  fixes p u v :: int
  assumes "1 \<le> p" "u \<noteq> v"
  shows "{s + u * p..<s + u * p + p} \<inter> {s + v * p..<s + v * p + p} = {}"
proof -
  have "u * p + p \<le> v * p" if "u < v" for u v
    using mult_right_mono [of "u + 1" v p] that assms(1) by (simp add: algebra_simps)
  with assms(2) show ?thesis by (cases u v rule: linorder_cases) fastforce+
qed

lemma contiguous_disjoint:
  assumes "bucket_ok bpb e" "bucket_ok bpb f" "l < length (bk_layers e)" "k < length (bk_layers f)"
    and "b < nat nb" "c < nat nb"
    and "(b \<noteq> c \<and> aligned e f) \<or> ends_before e f \<or> ends_before f e \<or> (e = f \<and> (b \<noteq> c \<or> l \<noteq> k))"
  shows "page_range (bk_page e) (contiguous_tensor n nb e) l b \<inter> page_range (bk_page f) (contiguous_tensor n nb f) k c = {}"
proof -
  note e = contiguous_within [OF assms(1,3,5)] and f = contiguous_within [OF assms(2,4,6)]
  have nb: "int b < nb" "int c < nb" using assms(5,6) by simp_all
  have before: "?thesis" if "bk_end e \<le> bk_start f"
  proof -
    have "bk_end e * nb \<le> bk_start f * nb" using that nb by (intro mult_right_mono) simp_all
    then show ?thesis unfolding contiguous_range using e f by auto
  qed
  have after: "?thesis" if "bk_end f \<le> bk_start e"
  proof -
    have "bk_end f * nb \<le> bk_start e * nb" using that nb by (intro mult_right_mono) simp_all
    then show ?thesis unfolding contiguous_range using e f by auto
  qed
  have units: "u * nb + int b \<noteq> v * nb + int c" if "b \<noteq> c \<or> u \<noteq> v" for u v
  proof
    assume eq: "u * nb + int b = v * nb + int c"
    then have "(u * nb + int b) mod nb = (v * nb + int c) mod nb" by simp
    with nb have "int b = int c" by (simp add: mod_mult_self3)
    with eq that nb show False by simp
  qed
  have same: "?thesis" if "aligned e f" "b \<noteq> c"
  proof -
    have pages: "bk_page e = bk_page f" using that(1) by (simp add: aligned_def)
    have "bk_page e dvd bk_start f - bk_start e" using that(1) unfolding aligned_def by blast
    then obtain q where diff: "bk_start f - bk_start e = bk_page e * q" by (elim dvdE)
    have q: "bk_page e = bk_page f" "bk_start f = bk_start e + q * bk_page e"
      using pages diff by (simp_all add: mult.commute)
    have start: "bk_start f * nb + (int k * nb + int c) * bk_page f
        = bk_start e * nb + ((q + int k) * nb + int c) * bk_page e"
      by (simp add: q algebra_simps)
    have neq: "int l * nb + int b \<noteq> (q + int k) * nb + int c" using units that(2) by blast
    have "1 \<le> bk_page e" using assms(1) by (simp add: bucket_ok_def)
    then show ?thesis
      unfolding contiguous_range start unfolding q(1) [symmetric] by (rule grid_apart [OF _ neq])
  qed
  have own: "?thesis" if "e = f" "b \<noteq> c \<or> l \<noteq> k"
  proof -
    have "int l * nb + int b \<noteq> int k * nb + int c" using units that(2) by auto
    moreover have "1 \<le> bk_page e" using assms(1) by (simp add: bucket_ok_def)
    ultimately show ?thesis unfolding contiguous_range unfolding \<open>e = f\<close> [symmetric] by (intro grid_apart)
  qed
  from assms(7) before after same own show ?thesis unfolding ends_before_def by blast
qed

lemma contiguous_inside:
  assumes "bucket_ok bpb e" "l < length (bk_layers e)" "b < nat nb"
  shows "page_range (bk_page e) (contiguous_tensor (bpb * nb) nb e) l b \<subseteq> {0..<bpb * nb}"
proof -
  have "bk_end e * nb \<le> bpb * nb" "0 \<le> bk_start e * nb"
    using assms by (auto simp: bucket_ok_def intro!: mult_right_mono)
  with contiguous_within [OF assms] show ?thesis unfolding contiguous_range by auto
qed

text \<open>Both kinds of placement are sound when the buckets of each group follow one another.\<close>

definition groups_in_order :: "bucket list \<Rightarrow> bool" where
  "groups_in_order es \<longleftrightarrow> sorted_wrt (\<lambda>e f. bk_group e = bk_group f \<longrightarrow> ends_before e f) es"

lemma groups_in_orderD:
  assumes "groups_in_order es" "x < length es" "y < length es" "x \<noteq> y" "bk_group (es ! x) = bk_group (es ! y)"
  shows "ends_before (es ! x) (es ! y) \<or> ends_before (es ! y) (es ! x)"
  using assms unfolding groups_in_order_def sorted_wrt_iff_nth_less by (metis linorder_neqE_nat)

lemma interleaved_sound:
  assumes "cf_tensors cfg = map (interleaved_tensor (bpb * cf_num_blocks cfg) bpb) es"
    and "tensor_pages (cf_groups cfg) = map (\<lambda>e. (bk_group e, bk_page e)) es"
    and "\<forall>e \<in> set es. bucket_ok bpb e" and "groups_in_order es" and "0 \<le> bpb"
  shows "placement_sound cfg"
proof -
  have ok: "bucket_ok bpb (es ! x)" if "x < length es" for x using assms(3) that by simp
  show ?thesis
    unfolding placement_sound_def Let_def assms(1,2)
  proof (intro conjI allI impI, goal_cases)
    case 1 then show ?case by simp
  next
    case (2 x l b)
    then show ?case using interleaved_inside [OF ok _ _ assms(5)] by (simp add: interleaved_tensor_def)
  next
    case (3 x y l k b c)
    then have x: "x < length es" "y < length es" "l < length (bk_layers (es ! x))" "k < length (bk_layers (es ! y))"
      by (simp_all add: interleaved_tensor_def)
    have "b \<noteq> c \<or> ends_before (es ! x) (es ! y) \<or> ends_before (es ! y) (es ! x) \<or> (es ! x = es ! y \<and> l \<noteq> k)"
      using 3(7) groups_in_orderD [OF assms(4) x(1,2)] x(1,2) by auto
    from interleaved_disjoint [OF ok [OF x(1)] ok [OF x(2)] x(3,4) this] show ?case using x by simp
  qed
qed

lemma contiguous_sound:
  assumes "cf_tensors cfg = map (contiguous_tensor (bpb * cf_num_blocks cfg) (cf_num_blocks cfg)) es"
    and "tensor_pages (cf_groups cfg) = map (\<lambda>e. (bk_group e, bk_page e)) es"
    and "\<forall>e \<in> set es. bucket_ok bpb e" and "groups_in_order es"
    and "\<forall>e \<in> set es. \<forall>f \<in> set es. e = f \<or> aligned e f \<or> ends_before e f \<or> ends_before f e"
  shows "placement_sound cfg"
proof -
  have ok: "bucket_ok bpb (es ! x)" if "x < length es" for x using assms(3) that by simp
  show ?thesis
    unfolding placement_sound_def Let_def assms(1,2)
  proof (intro conjI allI impI, goal_cases)
    case 1 then show ?case by simp
  next
    case (2 x l b)
    then show ?case using contiguous_inside [OF ok] by (simp add: contiguous_tensor_def)
  next
    case (3 x y l k b c)
    then have x: "x < length es" "y < length es" "l < length (bk_layers (es ! x))" "k < length (bk_layers (es ! y))"
      "b < nat (cf_num_blocks cfg)" "c < nat (cf_num_blocks cfg)"
      by (simp_all add: contiguous_tensor_def)
    have "(b \<noteq> c \<and> aligned (es ! x) (es ! y)) \<or> ends_before (es ! x) (es ! y) \<or> ends_before (es ! y) (es ! x)
        \<or> (es ! x = es ! y \<and> (b \<noteq> c \<or> l \<noteq> k))"
    proof (cases "x = y")
      case True
      then show ?thesis using 3(7) by auto
    next
      case False
      have "es ! x = es ! y \<or> aligned (es ! x) (es ! y) \<or> ends_before (es ! x) (es ! y) \<or> ends_before (es ! y) (es ! x)"
        using assms(5) x(1,2) by simp
      moreover have "b \<noteq> c \<or> bk_group (es ! x) = bk_group (es ! y)" using 3(7) x(1,2) by simp
      ultimately show ?thesis using groups_in_orderD [OF assms(4) x(1,2) False] by blast
    qed
    from contiguous_disjoint [OF ok [OF x(1)] ok [OF x(2)] x(3-6) this] show ?case using x by simp
  qed
qed

section \<open>The buckets of a group\<close>

definition group_ok :: "layer_group \<Rightarrow> bool" where
  "group_ok g \<longleftrightarrow> gr_layer_names g \<noteq> [] \<and>
     (case gr_spec g of
        LayerSpec s \<Rightarrow> spec_ok s (page_of s)
      | UniformSpecs d \<Rightarrow> distinct (map fst d) \<and> gr_layer_names g = map fst d \<and> (\<forall>s \<in> set (map snd d). spec_ok s (page_of s)))"

definition bucket_bytes :: "(page_spec \<times> string list) list \<Rightarrow> int" where
  "bucket_bytes bs = sum_list (map (\<lambda>(s, ns). int (length ns) * page_of s) bs)"

fun group_buckets :: "nat \<Rightarrow> int \<Rightarrow> (page_spec \<times> string list) list \<Rightarrow> bucket list" where
  "group_buckets i start [] = []"
| "group_buckets i start ((s, ns) # bs) =
     \<lparr>bk_group = i, bk_start = start, bk_page = page_of s, bk_layers = ns\<rparr>
       # group_buckets i (start + int (length ns) * page_of s) bs"

lemma page_of_ok: "spec_ok s p \<Longrightarrow> page_of s = p" "spec_ok s p \<Longrightarrow> page_size_bytes s = Inr p"
  by (simp_all add: spec_ok_def page_of_def)

lemma page_of_pos: "spec_ok s (page_of s) \<Longrightarrow> 1 \<le> page_of s"
  by (rule page_ge)

lemma bucket_bytes_Cons [simp]: "bucket_bytes ((s, ns) # bs) = int (length ns) * page_of s + bucket_bytes bs"
  by (simp add: bucket_bytes_def)

lemma bucket_bytes_Nil [simp]: "bucket_bytes [] = 0"
  by (simp add: bucket_bytes_def)

lemma bucket_bytes_update:
  "distinct (map fst acc) \<Longrightarrow>
   bucket_bytes (AList.update s (dict_get acc s [] @ [n]) acc) = bucket_bytes acc + page_of s"
  by (induction acc) (auto simp: dict_get_def algebra_simps)

abbreviation collect_layers ::
  "(string \<times> page_spec) list \<Rightarrow> (page_spec, string list) pydict \<Rightarrow> (page_spec, string list) pydict" where
  "collect_layers d acc0 \<equiv> fold (\<lambda>(name, s) acc. AList.update s (dict_get acc s [] @ [name]) acc) d acc0"

lemma collect_specs:
  assumes "distinct (map fst acc)" and "\<forall>b \<in> set acc. snd b \<noteq> []"
  shows "distinct (map fst (collect_layers d acc))
    \<and> fst ` set (collect_layers d acc) = fst ` set acc \<union> set (map snd d)
    \<and> bucket_bytes (collect_layers d acc) = bucket_bytes acc + sum_list (map (page_of \<circ> snd) d)
    \<and> (\<forall>b \<in> set (collect_layers d acc). snd b \<noteq> [])"
  using assms
proof (induction d arbitrary: acc)
  case Nil
  then show ?case by simp
next
  case (Cons x d)
  obtain n s where x: "x = (n, s)" by fastforce
  let ?acc = "AList.update s (dict_get acc s [] @ [n]) acc"
  have acc: "distinct (map fst ?acc)" using Cons.prems(1) by (rule distinct_update)
  have keys: "fst ` set ?acc = insert s (fst ` set acc)" by (auto simp: dom_update)
  have names: "\<forall>b \<in> set ?acc. snd b \<noteq> []"
  proof
    fix b assume "b \<in> set ?acc"
    moreover have "b \<in> set (AList.update s v acc) \<Longrightarrow> b \<in> set acc \<or> snd b = v" for v
      by (induction acc) (auto split: if_splits)
    ultimately have "b \<in> set acc \<or> snd b = dict_get acc s [] @ [n]" by blast
    then show "snd b \<noteq> []" using Cons.prems(2) by auto
  qed
  show ?case using Cons.IH [OF acc names] keys bucket_bytes_update [OF Cons.prems(1), of s n]
    by (simp add: x)
qed

lemma group_facts:
  assumes "group_ok g"
  shows "\<forall>(s, ns) \<in> set (layers_by_spec g). spec_ok s (page_of s) \<and> ns \<noteq> []"
    and "\<exists>ps. group_page_sizes g = Inr ps \<and> sum_list ps = bucket_bytes (layers_by_spec g)
           \<and> set ps = page_of ` fst ` set (layers_by_spec g)"
    and "layers_by_spec g \<noteq> []"
proof -
  have "(\<forall>(s, ns) \<in> set (layers_by_spec g). spec_ok s (page_of s) \<and> ns \<noteq> []) \<and> layers_by_spec g \<noteq> [] \<and>
    (\<exists>ps. group_page_sizes g = Inr ps \<and> sum_list ps = bucket_bytes (layers_by_spec g)
           \<and> set ps = page_of ` fst ` set (layers_by_spec g))"
  proof (cases "gr_spec g")
    case (LayerSpec s)
    have ok: "gr_layer_names g \<noteq> []" "spec_ok s (page_of s)" using assms by (simp_all add: group_ok_def LayerSpec)
    have pages: "map_res (\<lambda>name. bind_res (get_per_layer_spec g name) page_size_bytes) names
        = Inr (replicate (length names) (page_of s))" for names
      by (induction names) (simp_all add: LayerSpec get_per_layer_spec_def page_of_ok(2) [OF ok(2)])
    have buckets: "layers_by_spec g = [(s, gr_layer_names g)]" using ok(1) by (simp add: LayerSpec layers_by_spec_def)
    have "group_page_sizes g = Inr (replicate (length (gr_layer_names g)) (page_of s))"
      unfolding group_page_sizes_def by (rule pages)
    moreover have "sum_list (replicate (length (gr_layer_names g)) (page_of s)) = bucket_bytes (layers_by_spec g)"
      by (simp add: buckets sum_list_replicate)
    moreover have "set (replicate (length (gr_layer_names g)) (page_of s)) = page_of ` fst ` set (layers_by_spec g)"
      using ok(1) by (simp add: buckets)
    ultimately have "\<exists>ps. group_page_sizes g = Inr ps \<and> sum_list ps = bucket_bytes (layers_by_spec g)
           \<and> set ps = page_of ` fst ` set (layers_by_spec g)" by blast
    then show ?thesis using ok by (simp add: buckets)
  next
    case (UniformSpecs d)
    from assms have d: "distinct (map fst d)" "gr_layer_names g = map fst d" "d \<noteq> []"
        "\<forall>s \<in> set (map snd d). spec_ok s (page_of s)"
      by (auto simp: group_ok_def UniformSpecs)
    have "map_res (\<lambda>name. bind_res (get_per_layer_spec g name) page_size_bytes) (map fst e) = Inr (map (page_of \<circ> snd) e)"
      if "set e \<subseteq> set d" for e
      using that
    proof (induction e)
      case (Cons x e)
      have "map_of d (fst x) = Some (snd x)" using Cons.prems d(1) by (intro map_of_is_SomeI) auto
      moreover have "spec_ok (snd x) (page_of (snd x))" using Cons.prems d(4) by auto
      ultimately show ?case using Cons by (simp add: get_per_layer_spec_def UniformSpecs page_of_ok(2))
    qed simp
    then have pages: "group_page_sizes g = Inr (map (page_of \<circ> snd) d)"
      by (simp add: group_page_sizes_def d(2))
    note collect = collect_specs [of "[]" d, simplified]
    have buckets: "layers_by_spec g = collect_layers d []"
      by (simp add: layers_by_spec_def UniformSpecs)
    have keys: "fst ` set (layers_by_spec g) = set (map snd d)" using collect by (simp add: buckets)
    then have "layers_by_spec g \<noteq> []" using d(3) by auto
    moreover have "spec_ok s (page_of s) \<and> ns \<noteq> []" if "(s, ns) \<in> set (layers_by_spec g)" for s ns
    proof -
      have "s \<in> set (map snd d)" using that unfolding keys [symmetric] by (metis fst_conv image_eqI)
      moreover have "ns \<noteq> []" using collect that by (auto simp: buckets)
      ultimately show ?thesis using d(4) by blast
    qed
    ultimately show ?thesis using pages collect keys by (auto simp: buckets comp_def image_image)
  qed
  then show "\<forall>(s, ns) \<in> set (layers_by_spec g). spec_ok s (page_of s) \<and> ns \<noteq> []"
    "\<exists>ps. group_page_sizes g = Inr ps \<and> sum_list ps = bucket_bytes (layers_by_spec g)
           \<and> set ps = page_of ` fst ` set (layers_by_spec g)"
    "layers_by_spec g \<noteq> []" by blast+
qed

lemma bytes_per_block_bounds:
  assumes "get_kv_cache_bytes_per_block ru split_target groups = Inr bpb" and "\<forall>g \<in> set groups. group_ok g"
    and "\<forall>x m. 0 < m \<longrightarrow> x \<le> ru x m"
  shows "0 < bpb" and "g \<in> set groups \<Longrightarrow> bucket_bytes (layers_by_spec g) \<le> bpb"
proof -
  obtain pages where pages: "map_res group_page_sizes groups = Inr pages" and ne: "pages \<noteq> []"
    and pos: "0 < Max (set (map sum_list pages))"
    and bpb: "bpb = Max (set (map sum_list pages)) \<or> bpb = ru (Max (set (map sum_list pages))) (64 * 132)"
    using assms(1) by (auto simp: get_kv_cache_bytes_per_block_def res_simps Let_def split: if_splits)
  have "Max (set (map sum_list pages)) \<le> ru (Max (set (map sum_list pages))) (64 * 132)"
    by (rule assms(3) [rule_format]) simp
  with bpb have le: "Max (set (map sum_list pages)) \<le> bpb" by linarith
  show "0 < bpb" using pos le by simp
  have sizes: "map_res f xs = Inr ys \<Longrightarrow> x \<in> set xs \<Longrightarrow> \<exists>y \<in> set ys. f x = Inr y" for f xs ys x
    by (induction xs arbitrary: ys) (auto simp: res_simps)
  assume g: "g \<in> set groups"
  obtain ps where ps: "ps \<in> set pages" "group_page_sizes g = Inr ps"
    using sizes [OF pages g] by blast
  obtain qs where "group_page_sizes g = Inr qs" "sum_list qs = bucket_bytes (layers_by_spec g)"
    using group_facts(2) [of g] assms(2) g by blast
  with ps have "bucket_bytes (layers_by_spec g) = sum_list ps" by simp
  also have "\<dots> \<le> Max (set (map sum_list pages))" using ps(1) by (intro Max_ge) auto
  finally show "bucket_bytes (layers_by_spec g) \<le> bpb" using le by simp
qed

lemma group_buckets_facts:
  assumes "\<forall>(s, ns) \<in> set bs. spec_ok s (page_of s)" and "e \<in> set (group_buckets i start bs)"
  shows "bk_group e = i \<and> start \<le> bk_start e \<and> 1 \<le> bk_page e \<and> bk_end e \<le> start + bucket_bytes bs"
  using assms
proof (induction bs arbitrary: start)
  case Nil
  then show ?case by simp
next
  case (Cons b bs)
  obtain s ns where b: "b = (s, ns)" by fastforce
  have page: "1 \<le> page_of s" using Cons.prems by (auto simp: b intro: page_of_pos)
  then have step: "0 \<le> int (length ns) * page_of s" by simp
  have rest: "0 \<le> bucket_bytes bs"
    unfolding bucket_bytes_def
    using Cons.prems(1) page_of_pos by (intro sum_list_nonneg) fastforce
  consider "e = \<lparr>bk_group = i, bk_start = start, bk_page = page_of s, bk_layers = ns\<rparr>"
    | "e \<in> set (group_buckets i (start + int (length ns) * page_of s) bs)"
    using Cons.prems by (auto simp: b)
  then show ?case
  proof cases
    case 1
    then show ?thesis using page rest by (simp add: b)
  next
    case 2
    have "\<forall>(s, ns) \<in> set bs. spec_ok s (page_of s)" using Cons.prems(1) by simp
    from Cons.IH [OF this 2] step show ?thesis by (simp add: b)
  qed
qed

lemma group_buckets_in_order:
  "\<forall>(s, ns) \<in> set bs. spec_ok s (page_of s) \<Longrightarrow> sorted_wrt ends_before (group_buckets i start bs)"
proof (induction bs arbitrary: start)
  case Nil
  then show ?case by simp
next
  case (Cons b bs)
  obtain s ns where b: "b = (s, ns)" by fastforce
  have ok: "\<forall>(s, ns) \<in> set bs. spec_ok s (page_of s)" using Cons.prems by simp
  show ?case using Cons.IH [OF ok] group_buckets_facts [OF ok] by (simp add: b ends_before_def)
qed

text \<open>The buckets of all groups, numbered from \<open>n\<close>\<close>

definition all_buckets :: "nat \<Rightarrow> layer_group list \<Rightarrow> bucket list" where
  "all_buckets n groups = concat (map (\<lambda>(i, g). group_buckets i 0 (layers_by_spec g)) (enumerate n groups))"

lemma all_buckets_simps [simp]:
  "all_buckets n [] = []" "all_buckets n (g # gs) = group_buckets n 0 (layers_by_spec g) @ all_buckets (Suc n) gs"
  by (simp_all add: all_buckets_def)

lemma all_bucketsE:
  assumes "e \<in> set (all_buckets n groups)"
  obtains i g where "g \<in> set groups" "n \<le> i" "e \<in> set (group_buckets i 0 (layers_by_spec g))"
proof -
  obtain a where a: "n \<le> a" "a < length groups + n" "e \<in> set (group_buckets a 0 (layers_by_spec (groups ! (a - n))))"
    using assms unfolding all_buckets_def by (auto simp: in_set_enumerate_eq)
  then have "groups ! (a - n) \<in> set groups" by simp
  with a that show ?thesis by blast
qed

lemma all_buckets_in_order:
  "\<forall>g \<in> set groups. group_ok g \<Longrightarrow> groups_in_order (all_buckets n groups)"
proof (induction groups arbitrary: n)
  case Nil
  then show ?case by (simp add: groups_in_order_def)
next
  case (Cons g gs)
  have ok: "\<forall>(s, ns) \<in> set (layers_by_spec h). spec_ok s (page_of s)" if "h \<in> set (g # gs)" for h
    using group_facts(1) [of h] Cons.prems that by fastforce
  have "sorted_wrt (\<lambda>e f. bk_group e = bk_group f \<longrightarrow> ends_before e f) (group_buckets n 0 (layers_by_spec g))"
    using group_buckets_in_order [OF ok [of g]] by (rule sorted_wrt_mono_rel [rotated 1]) simp_all
  moreover have "bk_group e \<noteq> bk_group f"
    if "e \<in> set (group_buckets n 0 (layers_by_spec g))" "f \<in> set (all_buckets (Suc n) gs)" for e f
  proof -
    obtain i h where h: "h \<in> set gs" "Suc n \<le> i" "f \<in> set (group_buckets i 0 (layers_by_spec h))"
      using \<open>f \<in> set (all_buckets (Suc n) gs)\<close> by (rule all_bucketsE)
    have "bk_group e = n" using group_buckets_facts [OF ok [of g] that(1)] by simp
    moreover have "bk_group f = i" using group_buckets_facts [OF ok [of h] h(3)] h(1) by simp
    ultimately show ?thesis using h(2) by simp
  qed
  ultimately show ?case
    using Cons.IH [of "Suc n"] Cons.prems by (auto simp: groups_in_order_def sorted_wrt_append)
qed

lemma tensor_pages_buckets: "tensor_pages groups = map (\<lambda>e. (bk_group e, bk_page e)) (all_buckets 0 groups)"
proof -
  have group: "map (\<lambda>(s, _). (i, page_of s)) bs = map (\<lambda>e. (bk_group e, bk_page e)) (group_buckets i start bs)"
    for i start bs by (induction bs arbitrary: start) auto
  have "concat (map (\<lambda>(i, g). map (\<lambda>(s, _). (i, page_of s)) (layers_by_spec g)) (enumerate n groups))
      = map (\<lambda>e. (bk_group e, bk_page e)) (all_buckets n groups)" for n
    by (induction groups arbitrary: n) (simp_all add: group [of _ _ 0])
  then show ?thesis by (simp add: tensor_pages_def)
qed

lemma all_buckets_ok:
  assumes "\<forall>g \<in> set groups. group_ok g" and "\<And>g. g \<in> set groups \<Longrightarrow> bucket_bytes (layers_by_spec g) \<le> bpb"
    and "e \<in> set (all_buckets n groups)"
  shows "bucket_ok bpb e"
proof -
  obtain i g where g: "g \<in> set groups" "e \<in> set (group_buckets i 0 (layers_by_spec g))"
    using assms(3) by (rule all_bucketsE)
  have "\<forall>(s, ns) \<in> set (layers_by_spec g). spec_ok s (page_of s)"
    using group_facts(1) [of g] assms(1) g(1) by fastforce
  from group_buckets_facts [OF this g(2)] assms(2) [OF g(1)] show ?thesis by (simp add: bucket_ok_def)
qed

section \<open>What the code places\<close>

definition plain_tensor :: "memory_layout \<Rightarrow> int \<Rightarrow> int \<Rightarrow> int \<Rightarrow> bucket \<Rightarrow> kv_tensor" where
  "plain_tensor lay total_size bpb nb =
     (if is_block_outermost lay then interleaved_tensor total_size bpb else contiguous_tensor total_size nb)"

abbreviation interleaving :: "memory_layout \<Rightarrow> int \<Rightarrow> int option" where
  "interleaving lay bpb \<equiv> (if is_block_outermost lay then Some bpb else None)"

lemma place_bucket_plain:
  assumes s: "spec_ok s (page_of s)" and lay: "is_block_compact lay" and pos: "0 < bpb" "0 < nb"
    and host: "\<not> is_parasitic s \<or> find_host nb (page_of s) ts = None"
  shows "place_bucket lay nb (interleaving lay bpb) n False (s, ns) (ts, start)
     = Inr (ts @ [plain_tensor lay n bpb nb \<lparr>bk_group = i, bk_start = start, bk_page = page_of s, bk_layers = ns\<rparr>],
            start + int (length ns) * page_of s)"
proof -
  let ?page = "page_of s"
  have page: "page_size_bytes s = Inr ?page" "1 \<le> ?page" using page_of_ok(2) [OF s] page_of_pos [OF s] by simp_all
  have no_host: "(if is_parasitic s then find_host nb ?page ts else None) = None" using host by auto
  obtain rest where strides: "compute_layout_strides s nb (int (length ns)) lay None
      [None, interleaving lay bpb, None, None, None]
      = Inr ((if is_block_outermost lay then [?page, bpb] else [?page * nb, ?page]) @ rest)"
    using strides_of_pages [OF s lay refl pos(1)] by blast
  have "?page * 1 \<le> ?page * nb" using page(2) pos(2) by (intro mult_left_mono) simp_all
  then have max: "max (?page * nb) ?page = nb * ?page" by (simp add: mult.commute max_def)
  have "start * (nb * ?page) div ?page = start * nb" using page(2) by (simp add: mult.assoc [symmetric])
  with max have div: "start * max (?page * nb) ?page div ?page = start * nb" by simp
  have "bucket_placement lay nb (interleaving lay bpb) False ts start s ns
      = Inr (if is_block_outermost lay then (?page, bpb, start) else (nb * ?page, ?page, start * nb))"
    unfolding bucket_placement_def page(1) no_host bind_res.simps option.case strides
    using page(2) div by (simp add: py_floordiv_def mult.commute)
  then show ?thesis
    by (simp add: place_bucket_def page(1) plain_tensor_def interleaved_tensor_def contiguous_tensor_def)
qed

lemma place_bucket_own_region:
  assumes s: "spec_ok s (page_of s)" and host: "\<not> is_parasitic s"
  shows "place_bucket lay nb il n True (s, ns) (ts, start)
     = Inr (ts @ [contiguous_tensor n nb \<lparr>bk_group = i, bk_start = start, bk_page = page_of s, bk_layers = ns\<rparr>],
            start + int (length ns) * page_of s)"
  using page_of_ok(2) [OF s] host
  by (simp add: place_bucket_def bucket_placement_def contiguous_tensor_def)

lemma place_buckets:
  assumes "\<And>s ns ts start. (s, ns) \<in> set bs \<Longrightarrow> place_bucket lay nb il n per (s, ns) (ts, start)
     = Inr (ts @ [mk \<lparr>bk_group = i, bk_start = start, bk_page = page_of s, bk_layers = ns\<rparr>],
            start + int (length ns) * page_of s)"
  shows "fold_res (place_bucket lay nb il n per) bs (ts, start)
     = Inr (ts @ map mk (group_buckets i start bs), start + bucket_bytes bs)"
  using assms
proof (induction bs arbitrary: ts start)
  case Nil
  then show ?case by simp
next
  case (Cons b bs)
  obtain s ns where "b = (s, ns)" by fastforce
  with Cons show ?case by simp
qed

lemma bucket_pages:
  "\<forall>(s, ns) \<in> set bs. spec_ok s (page_of s) \<Longrightarrow>
   map_res (\<lambda>(spec, _). page_size_bytes spec) bs = Inr (map (page_of \<circ> fst) bs)"
  by (induction bs) (auto simp: page_of_ok(2))

text \<open>A group whose pages have one size\<close>

definition uniform_group :: "layer_group \<Rightarrow> bool" where
  "uniform_group g \<longleftrightarrow> card (page_of ` fst ` set (layers_by_spec g)) = 1"

text \<open>A group with a bucket that may share the storage of another group has no other bucket.\<close>

definition simple_sharing :: "layer_group \<Rightarrow> bool" where
  "simple_sharing g \<longleftrightarrow> (\<exists>b \<in> set (layers_by_spec g). is_parasitic (fst b)) \<longrightarrow> length (layers_by_spec g) = 1"

lemma place_uniform_group:
  assumes g: "group_ok g" "uniform_group g" "simple_sharing g"
    and lay: "is_block_compact lay" and pos: "0 < bpb" "0 < nb"
    and hosts: "\<And>s ns host. (s, ns) \<in> set (layers_by_spec g) \<Longrightarrow> is_parasitic s \<Longrightarrow> find_host nb (page_of s) ts = Some host
       \<Longrightarrow> \<not> is_block_outermost lay \<and> tn_offset host = 0"
    and run: "place_group lay nb (interleaving lay bpb) n g ts = Inr ts'"
  shows "ts' = ts @ map (plain_tensor lay n bpb nb) (group_buckets i 0 (layers_by_spec g))"
proof -
  let ?bs = "layers_by_spec g"
  have ok: "\<forall>(s, ns) \<in> set ?bs. spec_ok s (page_of s)" using group_facts(1) [OF g(1)] by fastforce
  have one: "card (set (map (page_of \<circ> fst) ?bs)) = 1" using g(2) by (simp add: uniform_group_def image_comp)
  have per: "bind_res (if is_block_outermost lay then map_res (\<lambda>(spec, _). page_size_bytes spec) ?bs else Inr [])
      (\<lambda>pages. F (card (set pages) > 1)) = F False" for F :: "bool \<Rightarrow> kv_tensor list res"
    using one by (simp add: bucket_pages [OF ok])
  have "place_group lay nb (interleaving lay bpb) n g ts
      = bind_res (fold_res (place_bucket lay nb (interleaving lay bpb) n False) ?bs (ts, 0)) (\<lambda>(ts, _). Inr ts)"
    unfolding place_group_def Let_def by (rule per)
  with run obtain total where fold: "fold_res (place_bucket lay nb (interleaving lay bpb) n False) ?bs (ts, 0) = Inr (ts', total)"
    by (auto simp: res_simps)
  show ?thesis
  proof (cases "\<exists>b \<in> set ?bs. is_parasitic (fst b)")
    case False
    have "place_bucket lay nb (interleaving lay bpb) n False (s, ns) (ts, start)
       = Inr (ts @ [plain_tensor lay n bpb nb \<lparr>bk_group = i, bk_start = start, bk_page = page_of s, bk_layers = ns\<rparr>],
            start + int (length ns) * page_of s)" if "(s, ns) \<in> set ?bs" for s ns ts start
      using that ok False by (intro place_bucket_plain [OF _ lay pos]) auto
    from place_buckets [OF this] fold show ?thesis by simp
  next
    case True
    then obtain s ns where b: "?bs = [(s, ns)]" and p: "is_parasitic s"
      using g(3) by (auto simp: simple_sharing_def length_Suc_conv)
    have s: "spec_ok s (page_of s)" using ok b by simp
    show ?thesis
    proof (cases "find_host nb (page_of s) ts")
      case None
      from place_bucket_plain [OF s lay pos, of ts n ns 0 i] None fold show ?thesis by (simp add: b)
    next
      case (Some host)
      then have host: "tn_block_stride host = page_of s" "tn_layer_stride host = nb * page_of s"
        by (auto simp: find_host_def find_Some_iff)
      have "\<not> is_block_outermost lay" "tn_offset host = 0" using hosts [of s ns host] b p Some by simp_all
      with fold Some host p show ?thesis
        by (simp add: b place_bucket_def bucket_placement_def page_of_ok(2) [OF s] plain_tensor_def
            contiguous_tensor_def split: if_splits)
    qed
  qed
qed

lemma group_buckets_source:
  "e \<in> set (group_buckets i start bs) \<Longrightarrow> \<exists>(s, ns) \<in> set bs. bk_page e = page_of s \<and> bk_layers e = ns"
proof (induction bs arbitrary: start)
  case Nil
  then show ?case by simp
next
  case (Cons b bs)
  then show ?case by (cases b) fastforce
qed

definition host_candidates :: "memory_layout \<Rightarrow> int \<Rightarrow> int \<Rightarrow> bucket list \<Rightarrow> bool" where
  "host_candidates lay bpb page es \<longleftrightarrow>
     (\<forall>e \<in> set es. 1 \<le> bk_page e \<and> bk_page e \<le> bpb) \<and>
     (\<not> is_block_outermost lay \<longrightarrow> (\<forall>e \<in> set es. bk_page e = page) \<and> (es \<noteq> [] \<longrightarrow> bk_start (hd es) = 0))"

lemma group_host_candidates:
  assumes "group_ok g" and "bucket_bytes (layers_by_spec g) \<le> bpb"
    and "\<not> is_block_outermost lay \<Longrightarrow> \<forall>(s, ns) \<in> set (layers_by_spec g). page_of s = page"
  shows "host_candidates lay bpb page (group_buckets i 0 (layers_by_spec g))"
proof -
  let ?bs = "layers_by_spec g"
  have ok: "\<forall>(s, ns) \<in> set ?bs. spec_ok s (page_of s)" using group_facts(1) [OF assms(1)] by fastforce
  have "1 \<le> bk_page e \<and> bk_page e \<le> bpb" if e: "e \<in> set (group_buckets i 0 ?bs)" for e
  proof -
    note facts = group_buckets_facts [OF ok e]
    obtain s ns where "(s, ns) \<in> set ?bs" "bk_layers e = ns" using group_buckets_source [OF e] by blast
    then have "1 \<le> int (length (bk_layers e))" using group_facts(1) [OF assms(1)] by (cases ns) auto
    then have "1 * bk_page e \<le> int (length (bk_layers e)) * bk_page e" using facts by (intro mult_right_mono) simp_all
    then have "bk_page e \<le> bpb" using facts assms(2) by linarith
    then show ?thesis using facts by simp
  qed
  moreover have "bk_page e = page" if "\<not> is_block_outermost lay" "e \<in> set (group_buckets i 0 ?bs)" for e
    using assms(3) [OF that(1)] group_buckets_source [OF that(2)] by fastforce
  moreover have "bs \<noteq> [] \<Longrightarrow> bk_start (hd (group_buckets i 0 bs)) = 0" for bs
    by (cases bs) auto
  moreover have "?bs \<noteq> []" using group_facts(3) [OF assms(1)] .
  ultimately show ?thesis by (simp add: host_candidates_def)
qed

lemma host_candidates_append:
  "\<lbrakk>host_candidates lay bpb page es; host_candidates lay bpb page fs\<rbrakk> \<Longrightarrow> host_candidates lay bpb page (es @ fs)"
  by (auto simp: host_candidates_def hd_append)

lemma plain_host:
  assumes "host_candidates lay bpb page es" and "2 \<le> nb" and "0 < bpb"
    and "find_host nb q (map (plain_tensor lay n bpb nb) es) = Some host"
    and "\<not> is_block_outermost lay \<Longrightarrow> q = page"
  shows "\<not> is_block_outermost lay \<and> tn_offset host = 0"
proof -
  have host: "tn_block_stride host = q" "tn_layer_stride host = nb * q"
    "host \<in> set (map (plain_tensor lay n bpb nb) es)"
    using assms(4) by (auto simp: find_host_def find_Some_iff)
  show ?thesis
  proof (cases "is_block_outermost lay")
    case True
    obtain e where e: "e \<in> set es" "host = plain_tensor lay n bpb nb e" using host(3) by auto
    then have "q = bpb" "bk_page e = nb * q" using host True by (simp_all add: plain_tensor_def interleaved_tensor_def)
    moreover have "2 * bpb \<le> nb * bpb" using assms(2,3) by (intro mult_right_mono) simp_all
    moreover have "bk_page e \<le> bpb" using assms(1) e(1) by (simp add: host_candidates_def)
    ultimately show ?thesis using assms(3) by simp
  next
    case False
    obtain e fs where es: "es = e # fs" using host(3) by (cases es) auto
    have "bk_page e = q" "bk_start e = 0" using assms(1,5) False by (simp_all add: host_candidates_def es)
    then have "host = plain_tensor lay n bpb nb e"
      using assms(4) False by (simp add: es find_host_def plain_tensor_def contiguous_tensor_def)
    with \<open>bk_start e = 0\<close> False show ?thesis by (simp add: plain_tensor_def contiguous_tensor_def)
  qed
qed

lemma place_uniform_groups:
  assumes "\<forall>g \<in> set groups. group_ok g \<and> uniform_group g \<and> simple_sharing g \<and> bucket_bytes (layers_by_spec g) \<le> bpb"
    and "is_block_compact lay" and "0 < bpb" and "2 \<le> nb"
    and "\<not> is_block_outermost lay \<Longrightarrow> \<forall>g \<in> set groups. \<forall>(s, ns) \<in> set (layers_by_spec g). page_of s = page"
    and "host_candidates lay bpb page es"
    and "fold_res (place_group lay nb (interleaving lay bpb) n) groups (map (plain_tensor lay n bpb nb) es) = Inr ts'"
  shows "ts' = map (plain_tensor lay n bpb nb) (es @ all_buckets i groups)"
  using assms(1,5-7)
proof (induction groups arbitrary: es i)
  case Nil
  then show ?case by simp
next
  case (Cons g groups)
  let ?ts = "map (plain_tensor lay n bpb nb) es"
  have g: "group_ok g" "uniform_group g" "simple_sharing g" "bucket_bytes (layers_by_spec g) \<le> bpb"
    using Cons.prems(1) by simp_all
  obtain ts1 where ts1: "place_group lay nb (interleaving lay bpb) n g ?ts = Inr ts1"
    and rest: "fold_res (place_group lay nb (interleaving lay bpb) n) groups ts1 = Inr ts'"
    using Cons.prems(4) by (auto simp: res_simps)
  have nb: "0 < nb" using assms(4) by simp
  have "ts1 = ?ts @ map (plain_tensor lay n bpb nb) (group_buckets i 0 (layers_by_spec g))"
  proof (rule place_uniform_group [OF g(1-3) assms(2,3) nb _ ts1])
    fix s ns host
    assume s: "(s, ns) \<in> set (layers_by_spec g)" and host: "find_host nb (page_of s) ?ts = Some host"
    have "\<not> is_block_outermost lay \<Longrightarrow> page_of s = page" using Cons.prems(2) s by fastforce
    from plain_host [OF Cons.prems(3) assms(4,3) host this]
    show "\<not> is_block_outermost lay \<and> tn_offset host = 0" .
  qed
  then have ts1_eq: "ts1 = map (plain_tensor lay n bpb nb) (es @ group_buckets i 0 (layers_by_spec g))" by simp
  have pages: "\<not> is_block_outermost lay \<Longrightarrow> \<forall>(s, ns) \<in> set (layers_by_spec g). page_of s = page"
    using Cons.prems(2) by simp
  have "ts' = map (plain_tensor lay n bpb nb) ((es @ group_buckets i 0 (layers_by_spec g)) @ all_buckets (Suc i) groups)"
  proof (rule Cons.IH)
    show "host_candidates lay bpb page (es @ group_buckets i 0 (layers_by_spec g))"
      by (rule host_candidates_append [OF Cons.prems(3) group_host_candidates [OF g(1,4) pages]])
  qed (use Cons.prems rest ts1_eq in auto)
  then show ?case by simp
qed

lemma one_page_size:
  assumes "validate_kv_cache_layout lay groups = Inr u" and "\<forall>g \<in> set groups. group_ok g \<and> uniform_group g"
    and "is_block_compact lay" and "\<not> is_block_outermost lay"
  shows "\<exists>page. \<forall>g \<in> set groups. \<forall>(s, ns) \<in> set (layers_by_spec g). page_of s = page"
proof -
  have compact: "is_layer_compact lay"
    using assms(3,4) by (cases lay) (simp_all add: is_block_compact_def is_block_outermost_def is_layer_compact_def doubleton_eq_iff)
  obtain pages where pages: "map_res group_page_sizes groups = Inr pages"
    and one: "card (set (concat pages)) = 1 \<or> length groups \<le> 1"
    using assms(1) compact by (auto simp: validate_kv_cache_layout_def res_simps split: if_splits)
  have sizes: "\<lbrakk>map_res group_page_sizes gs = Inr ps; \<forall>g \<in> set gs. group_ok g\<rbrakk>
      \<Longrightarrow> set (concat ps) = (\<Union>g \<in> set gs. page_of ` fst ` set (layers_by_spec g))" for gs ps
  proof (induction gs arbitrary: ps)
    case Nil
    then show ?case by simp
  next
    case (Cons g gs)
    from Cons.prems(1) obtain q qs where q: "group_page_sizes g = Inr q" "map_res group_page_sizes gs = Inr qs" "ps = q # qs"
      by (auto simp: res_simps)
    moreover have "set q = page_of ` fst ` set (layers_by_spec g)"
      using group_facts(2) [of g] Cons.prems(2) q(1) by auto
    ultimately show ?case using Cons.IH [OF q(2)] Cons.prems(2) by simp
  qed
  have all: "set (concat pages) = (\<Union>g \<in> set groups. page_of ` fst ` set (layers_by_spec g))"
    using sizes [OF pages] assms(2) by blast
  have "\<exists>page. (\<Union>g \<in> set groups. page_of ` fst ` set (layers_by_spec g)) \<subseteq> {page}"
    using one
  proof
    assume "card (set (concat pages)) = 1"
    then show ?thesis unfolding all by (auto simp: card_1_singleton_iff)
  next
    assume "length groups \<le> 1"
    then consider "groups = []" | g where "groups = [g]" by (cases groups) auto
    then show ?thesis
    proof cases
      case 2
      with assms(2) show ?thesis by (auto simp: uniform_group_def card_1_singleton_iff)
    qed simp
  qed
  then show ?thesis by fastforce
qed

lemma bucket_grid:
  "\<lbrakk>\<forall>(s, ns) \<in> set bs. page_of s = page; e \<in> set (group_buckets i start bs); page dvd start\<rbrakk>
   \<Longrightarrow> page dvd bk_start e \<and> bk_page e = page"
proof (induction bs arbitrary: start)
  case Nil
  then show ?case by simp
next
  case (Cons b bs)
  obtain s ns where b: "b = (s, ns)" by fastforce
  have page: "page_of s = page" using Cons.prems(1) by (simp add: b)
  from Cons.prems(2) consider "e = \<lparr>bk_group = i, bk_start = start, bk_page = page_of s, bk_layers = ns\<rparr>"
    | "e \<in> set (group_buckets i (start + int (length ns) * page_of s) bs)" by (auto simp: b)
  then show ?case
  proof cases
    case 1
    with page Cons.prems(3) show ?thesis by simp
  next
    case 2
    then show ?thesis using Cons.IH [of "start + int (length ns) * page_of s"] Cons.prems page by simp
  qed
qed

lemma config_tensors:
  assumes "get_kv_cache_config_from_groups ru env groups mem = Inr cfg" and "groups \<noteq> []"
  obtains bpb u where "validate_kv_cache_layout (le_layout env) groups = Inr u"
    "get_kv_cache_bytes_per_block ru (le_split_target_block_size env) groups = Inr bpb"
    "cf_num_blocks cfg = may_override_num_blocks env (mem div bpb)" "cf_groups cfg = groups"
    "fold_res (place_group (le_layout env) (cf_num_blocks cfg) (interleaving (le_layout env) bpb)
       (bpb * cf_num_blocks cfg)) groups [] = Inr (cf_tensors cfg)"
  using assms by (auto simp: get_kv_cache_config_from_groups_def Let_def res_simps)

text \<open>
  C32. The placement of the KV cache is sound for groups of uniform pages: in any layout whose pages lie
  in one piece, when a configuration of at least two blocks is returned, every page of every layer lies
  in the allocation; pages of different blocks never overlap, whichever groups own them; and the layers
  of a group never overlap in a block.  Groups may have different page sizes if the block is the
  outermost dimension.  Without an override the allocation fits into the available memory.  The groups
  are well-formed, and a group with recurrent-state or tail layers has one specification.
\<close>

theorem uniform_placement_sound:
  assumes "\<forall>g \<in> set groups. group_ok g \<and> uniform_group g \<and> simple_sharing g"
    and "is_block_compact (le_layout env)" and "\<forall>x m. 0 < m \<longrightarrow> x \<le> ru x m"
    and "get_kv_cache_config_from_groups ru env groups mem = Inr cfg" and "2 \<le> cf_num_blocks cfg"
  shows "placement_sound cfg \<and>
    (le_num_blocks_override env = None \<longrightarrow> (\<forall>t \<in> set (cf_tensors cfg). tn_size t \<le> mem))"
proof -
  let ?lay = "le_layout env" and ?nb = "cf_num_blocks cfg"
  have "groups \<noteq> []" using assms(4,5) by (auto simp: get_kv_cache_config_from_groups_def)
  then obtain bpb u where valid: "validate_kv_cache_layout ?lay groups = Inr u"
    and bytes: "get_kv_cache_bytes_per_block ru (le_split_target_block_size env) groups = Inr bpb"
    and nb: "?nb = may_override_num_blocks env (mem div bpb)" and groups: "cf_groups cfg = groups"
    and run: "fold_res (place_group ?lay ?nb (interleaving ?lay bpb) (bpb * ?nb)) groups [] = Inr (cf_tensors cfg)"
    using config_tensors [OF assms(4)] by blast
  have ok: "\<forall>g \<in> set groups. group_ok g" "\<forall>g \<in> set groups. group_ok g \<and> uniform_group g" using assms(1) by blast+
  note bounds = bytes_per_block_bounds [OF bytes ok(1) assms(3)]
  obtain page where page: "\<not> is_block_outermost ?lay \<Longrightarrow> \<forall>g \<in> set groups. \<forall>(s, ns) \<in> set (layers_by_spec g). page_of s = page"
    using one_page_size [OF valid ok(2) assms(2)] by blast
  have "cf_tensors cfg = map (plain_tensor ?lay (bpb * ?nb) bpb ?nb) ([] @ all_buckets 0 groups)"
    by (rule place_uniform_groups [OF _ assms(2) bounds(1) assms(5) page])
      (use assms(1) bounds(2) run in \<open>auto simp: host_candidates_def\<close>)
  then have tensors: "cf_tensors cfg = map (plain_tensor ?lay (bpb * ?nb) bpb ?nb) (all_buckets 0 groups)" by simp
  have pages: "tensor_pages (cf_groups cfg) = map (\<lambda>e. (bk_group e, bk_page e)) (all_buckets 0 groups)"
    by (simp add: groups tensor_pages_buckets)
  have buckets: "\<forall>e \<in> set (all_buckets 0 groups). bucket_ok bpb e"
    using all_buckets_ok [OF ok(1) bounds(2)] by blast
  note order = all_buckets_in_order [OF ok(1), of 0]
  have "placement_sound cfg"
  proof (cases "is_block_outermost ?lay")
    case True
    then show ?thesis
      using interleaved_sound [OF _ pages buckets order] tensors bounds(1) by (simp add: plain_tensor_def)
  next
    case False
    have "aligned e f" if "e \<in> set (all_buckets 0 groups)" "f \<in> set (all_buckets 0 groups)" for e f
    proof -
      have "page dvd bk_start x \<and> bk_page x = page" if "x \<in> set (all_buckets 0 groups)" for x
        using that bucket_grid page [OF False] by (blast elim: all_bucketsE)
      with that show ?thesis by (auto simp: aligned_def)
    qed
    then show ?thesis
      using contiguous_sound [OF _ pages buckets order] tensors False by (simp add: plain_tensor_def)
  qed
  moreover have "tn_size t \<le> mem" if "le_num_blocks_override env = None" "t \<in> set (cf_tensors cfg)" for t
  proof -
    have "tn_size t = bpb * (mem div bpb)"
      using that nb tensors
      by (auto simp: plain_tensor_def interleaved_tensor_def contiguous_tensor_def may_override_num_blocks_def)
    also have "\<dots> \<le> mem" using bounds(1) by (simp add: mult_div_mod_eq [symmetric] minus_mod_eq_mult_div [symmetric])
    finally show ?thesis .
  qed
  ultimately show ?thesis by blast
qed

section \<open>Groups that share the storage of another\<close>

definition hosted :: "bucket list \<Rightarrow> bucket \<Rightarrow> bool" where
  "hosted as e \<longleftrightarrow> (\<exists>a \<in> set as. bk_start e = bk_start a \<and> bk_page e = bk_page a
     \<and> length (bk_layers e) \<le> length (bk_layers a))"

text \<open>A group of one bucket that shares the storage of a bucket of \<open>att\<close> with pages of its size\<close>

definition shares_with :: "layer_group \<Rightarrow> layer_group \<Rightarrow> bool" where
  "shares_with att g \<longleftrightarrow> (\<exists>s ns. layers_by_spec g = [(s, ns)] \<and> is_parasitic s
     \<and> page_of s \<in> page_of ` fst ` set (layers_by_spec att))"

lemma place_hosted_group:
  assumes "group_ok g" and "layers_by_spec g = [(s, ns)]" and "is_parasitic s"
    and "\<forall>e \<in> set es. hosted as e" and "\<exists>e \<in> set es. bk_page e = page_of s"
    and "place_group lay nb il n g (map (contiguous_tensor n nb) es) = Inr ts'"
  shows "\<exists>h. ts' = map (contiguous_tensor n nb) (es @ [h]) \<and> bk_group h = i \<and> bk_page h = page_of s \<and> hosted as h"
proof -
  let ?ts = "map (contiguous_tensor n nb) es"
  have s: "spec_ok s (page_of s)" using group_facts(1) [OF assms(1)] assms(2) by simp
  have "find_host nb (page_of s) ?ts \<noteq> None"
    using assms(5) by (auto simp: find_host_def find_None_iff contiguous_tensor_def)
  then obtain host where find: "find_host nb (page_of s) ?ts = Some host" by blast
  then have "host \<in> set ?ts" and stride: "tn_block_stride host = page_of s"
    by (auto simp: find_host_def find_Some_iff)
  then obtain e where e: "e \<in> set es" "host = contiguous_tensor n nb e" by auto
  have page: "bk_page e = page_of s" using stride e(2) by (simp add: contiguous_tensor_def)
  let ?h = "\<lparr>bk_group = i, bk_start = bk_start e, bk_page = page_of s, bk_layers = ns\<rparr>"
  have "ts' = ?ts @ [contiguous_tensor n nb ?h] \<and> length ns \<le> length (bk_layers e)"
    using assms(6) find assms(3) page
    by (simp add: place_group_def assms(2) place_bucket_def bucket_placement_def page_of_ok(2) [OF s] e(2) Let_def
        contiguous_tensor_def split: if_splits)
  moreover have "hosted as e" using assms(4) e(1) by blast
  ultimately show ?thesis using page by (intro exI [of _ ?h]) (auto simp: hosted_def intro: le_trans)
qed

lemma place_hosted_groups:
  assumes "\<forall>g \<in> set rest. group_ok g \<and> shares_with att g" and "\<forall>e \<in> set es. hosted as e"
    and "page_of ` fst ` set (layers_by_spec att) \<subseteq> bk_page ` set es"
    and "fold_res (place_group lay nb il n) rest (map (contiguous_tensor n nb) es) = Inr ts'"
  shows "\<exists>hs. ts' = map (contiguous_tensor n nb) (es @ hs)
     \<and> concat (map (\<lambda>(i, g). map (\<lambda>(s, _). (i, page_of s)) (layers_by_spec g)) (enumerate i rest))
         = map (\<lambda>e. (bk_group e, bk_page e)) hs
     \<and> (\<forall>e \<in> set hs. hosted as e \<and> i \<le> bk_group e) \<and> sorted_wrt (\<lambda>e f. bk_group e < bk_group f) hs"
  using assms
proof (induction rest arbitrary: es i)
  case Nil
  then show ?case by simp
next
  case (Cons g rest)
  obtain ts1 where ts1: "place_group lay nb il n g (map (contiguous_tensor n nb) es) = Inr ts1"
    and run: "fold_res (place_group lay nb il n) rest ts1 = Inr ts'"
    using Cons.prems(4) by (auto simp: res_simps)
  obtain s ns where g: "layers_by_spec g = [(s, ns)]" "is_parasitic s" "page_of s \<in> page_of ` fst ` set (layers_by_spec att)"
    using Cons.prems(1) by (auto simp: shares_with_def)
  have "page_of s \<in> bk_page ` set es" using g(3) Cons.prems(3) by blast
  then have "\<exists>e \<in> set es. bk_page e = page_of s" by force
  from place_hosted_group [OF _ g(1,2) Cons.prems(2) this ts1, of i] Cons.prems(1)
  obtain h where h: "ts1 = map (contiguous_tensor n nb) (es @ [h])" "bk_group h = i" "bk_page h = page_of s" "hosted as h"
    by auto
  have "\<exists>hs. ts' = map (contiguous_tensor n nb) ((es @ [h]) @ hs)
     \<and> concat (map (\<lambda>(i, g). map (\<lambda>(s, _). (i, page_of s)) (layers_by_spec g)) (enumerate (Suc i) rest))
         = map (\<lambda>e. (bk_group e, bk_page e)) hs
     \<and> (\<forall>e \<in> set hs. hosted as e \<and> Suc i \<le> bk_group e) \<and> sorted_wrt (\<lambda>e f. bk_group e < bk_group f) hs"
    by (rule Cons.IH) (use Cons.prems run h in auto)
  then obtain hs where hs: "ts' = map (contiguous_tensor n nb) ((es @ [h]) @ hs)"
     "concat (map (\<lambda>(i, g). map (\<lambda>(s, _). (i, page_of s)) (layers_by_spec g)) (enumerate (Suc i) rest))
         = map (\<lambda>e. (bk_group e, bk_page e)) hs"
     "\<forall>e \<in> set hs. hosted as e \<and> Suc i \<le> bk_group e" "sorted_wrt (\<lambda>e f. bk_group e < bk_group f) hs"
    by blast
  show ?case
    by (rule exI [of _ "h # hs"]) (use hs h g in auto)
qed

text \<open>
  C33. The placement of a hybrid model whose first group mixes page sizes is sound: when the block is
  the outermost dimension, the buckets of the first group get regions of their own, every further group
  of recurrent-state or tail layers shares the region of a bucket with pages of its size, and, whenever
  a configuration is returned, every page lies in the allocation, pages of different blocks never
  overlap, whichever groups own them, and the layers of a group never overlap in a block.
\<close>

theorem hosted_placement_sound:
  assumes "\<forall>g \<in> set (att # rest). group_ok g" and "\<not> uniform_group att"
    and "\<forall>b \<in> set (layers_by_spec att). \<not> is_parasitic (fst b)" and "\<forall>g \<in> set rest. shares_with att g"
    and "is_block_compact (le_layout env)" and "is_block_outermost (le_layout env)"
    and "\<forall>x m. 0 < m \<longrightarrow> x \<le> ru x m"
    and "get_kv_cache_config_from_groups ru env (att # rest) mem = Inr cfg"
  shows "placement_sound cfg"
proof -
  let ?lay = "le_layout env" and ?nb = "cf_num_blocks cfg" and ?bs = "layers_by_spec att"
  obtain bpb u where bytes: "get_kv_cache_bytes_per_block ru (le_split_target_block_size env) (att # rest) = Inr bpb"
    and groups: "cf_groups cfg = att # rest"
    and run: "fold_res (place_group ?lay ?nb (interleaving ?lay bpb) (bpb * ?nb)) (att # rest) [] = Inr (cf_tensors cfg)"
    using config_tensors [OF assms(8)] by blast
  note bounds = bytes_per_block_bounds [OF bytes assms(1,7)]
  let ?ct = "contiguous_tensor (bpb * ?nb) ?nb" and ?as = "group_buckets 0 0 ?bs"
  have att: "group_ok att" using assms(1) by simp
  have ok: "\<forall>(s, ns) \<in> set ?bs. spec_ok s (page_of s)" using group_facts(1) [OF att] by fastforce
  have images: "set (map (page_of \<circ> fst) ?bs) = page_of ` fst ` set ?bs" by (simp add: image_comp)
  have "card (page_of ` fst ` set ?bs) \<noteq> 0" using group_facts(3) [OF att] by simp
  moreover have "card (page_of ` fst ` set ?bs) \<noteq> 1" using assms(2) by (simp add: uniform_group_def)
  ultimately have many: "card (set (map (page_of \<circ> fst) ?bs)) > 1" unfolding images by linarith
  have "fold_res (place_bucket ?lay ?nb (interleaving ?lay bpb) (bpb * ?nb) True) ?bs ([], 0)
      = Inr ([] @ map ?ct ?as, 0 + bucket_bytes ?bs)"
    by (rule place_buckets, rule place_bucket_own_region) (use ok assms(3) in auto)
  then have "place_group ?lay ?nb (interleaving ?lay bpb) (bpb * ?nb) att [] = Inr (map ?ct ?as)"
    using many assms(6) by (simp add: place_group_def bucket_pages [OF ok] del: set_map)
  with run have rest: "fold_res (place_group ?lay ?nb (interleaving ?lay bpb) (bpb * ?nb)) rest (map ?ct ?as) = Inr (cf_tensors cfg)"
    by simp
  have own: "\<forall>e \<in> set ?as. hosted ?as e" by (auto simp: hosted_def)
  have covers: "page_of ` fst ` set bs \<subseteq> bk_page ` set (group_buckets 0 o' bs)" for o' bs
    by (induction bs arbitrary: o') fastforce+
  obtain hs where tensors: "cf_tensors cfg = map ?ct (?as @ hs)"
    and pages: "concat (map (\<lambda>(i, g). map (\<lambda>(s, _). (i, page_of s)) (layers_by_spec g)) (enumerate 1 rest))
        = map (\<lambda>e. (bk_group e, bk_page e)) hs"
    and hs: "\<forall>e \<in> set hs. hosted ?as e \<and> 1 \<le> bk_group e" "sorted_wrt (\<lambda>e f. bk_group e < bk_group f) hs"
    using place_hosted_groups [OF _ own covers rest, of 1] assms(1,4) by auto
  have "tensor_pages [att] = map (\<lambda>e. (bk_group e, bk_page e)) ?as" by (simp add: tensor_pages_buckets)
  then have all_pages: "tensor_pages (cf_groups cfg) = map (\<lambda>e. (bk_group e, bk_page e)) (?as @ hs)"
    using pages by (simp add: groups tensor_pages_def)
  have as_ok: "bucket_ok bpb a" if "a \<in> set ?as" for a
    using group_buckets_facts [OF ok that] bounds(2) [of att] by (simp add: bucket_ok_def)
  have all_hosted: "hosted ?as e" if "e \<in> set (?as @ hs)" for e using that own hs(1) by auto
  have end_le: "bk_end e \<le> bk_end a"
    if "a \<in> set ?as" "bk_start e = bk_start a" "bk_page e = bk_page a" "length (bk_layers e) \<le> length (bk_layers a)" for e a
    using as_ok [OF that(1)] that(2-4) by (auto simp: bucket_ok_def intro!: mult_right_mono)
  have buckets: "\<forall>e \<in> set (?as @ hs). bucket_ok bpb e"
  proof
    fix e assume "e \<in> set (?as @ hs)"
    from all_hosted [OF this] obtain a where a: "a \<in> set ?as" "bk_start e = bk_start a" "bk_page e = bk_page a"
        "length (bk_layers e) \<le> length (bk_layers a)" by (auto simp: hosted_def)
    from end_le [OF this] as_ok [OF a(1)] have "bk_end e \<le> bpb" unfolding bucket_ok_def by linarith
    with as_ok [OF a(1)] a(2,3) show "bucket_ok bpb e" by (simp add: bucket_ok_def)
  qed
  have order_as: "sorted_wrt ends_before ?as" by (rule group_buckets_in_order [OF ok])
  have "groups_in_order (?as @ hs)"
    unfolding groups_in_order_def sorted_wrt_append
  proof (intro conjI ballI impI)
    show "sorted_wrt (\<lambda>e f. bk_group e = bk_group f \<longrightarrow> ends_before e f) ?as"
      using order_as by (rule sorted_wrt_mono_rel [rotated 1]) simp
    show "sorted_wrt (\<lambda>e f. bk_group e = bk_group f \<longrightarrow> ends_before e f) hs"
      using hs(2) by (rule sorted_wrt_mono_rel [rotated 1]) simp
    fix e f assume "e \<in> set ?as" "f \<in> set hs" "bk_group e = bk_group f"
    then show "ends_before e f" using group_buckets_facts [OF ok] hs(1) by fastforce
  qed
  moreover have "e = f \<or> aligned e f \<or> ends_before e f \<or> ends_before f e"
    if ef: "e \<in> set (?as @ hs)" "f \<in> set (?as @ hs)" for e f
  proof -
    obtain a where a: "a \<in> set ?as" "bk_start e = bk_start a" "bk_page e = bk_page a"
        "length (bk_layers e) \<le> length (bk_layers a)" using all_hosted [OF ef(1)] by (auto simp: hosted_def)
    obtain c where c: "c \<in> set ?as" "bk_start f = bk_start c" "bk_page f = bk_page c"
        "length (bk_layers f) \<le> length (bk_layers c)" using all_hosted [OF ef(2)] by (auto simp: hosted_def)
    have "a = c \<or> ends_before a c \<or> ends_before c a"
      using order_as a(1) c(1) by (metis in_set_conv_nth linorder_neqE_nat sorted_wrt_nth_less)
    then show ?thesis using end_le [OF a] end_le [OF c] a(2,3) c(2,3) by (auto simp: aligned_def ends_before_def)
  qed
  ultimately show ?thesis using contiguous_sound [OF tensors all_pages buckets] by blast
qed

section \<open>Examples\<close>

definition sample_page_spec :: "spec_kind \<Rightarrow> rat \<Rightarrow> int \<Rightarrow> int option \<Rightarrow> page_spec" where
  "sample_page_spec kind tokens_per_state state_bytes padded =
     \<lparr>pg_kind = kind, pg_block_size = 4, pg_num_heads = 1, pg_tokens_per_state = tokens_per_state,
      pg_state_bytes = state_bytes, pg_page_size_padded = padded, pg_page_tail = 0, pg_model_version = None,
      pg_other = []\<rparr>"

definition sample_attention :: layer_group where
  "sample_attention =
     \<lparr>gr_layer_names = [''m0'', ''m1'', ''i0''],
      gr_spec = UniformSpecs [(''m0'', sample_page_spec MLAAttentionSpec 1 4 None), (''m1'', sample_page_spec MLAAttentionSpec 1 4 None),
        (''i0'', sample_page_spec MLAAttentionSpec 4 4 None)]\<rparr>"

definition sample_mamba :: layer_group where
  "sample_mamba = \<lparr>gr_layer_names = [''s0'', ''s1''], gr_spec = LayerSpec (sample_page_spec MambaSpec (- 1) 10 (Some 16))\<rparr>"

definition sample_draft :: layer_group where
  "sample_draft = \<lparr>gr_layer_names = [''d0''], gr_spec = LayerSpec (sample_page_spec SlidingWindowSpec 1 2 None)\<rparr>"

definition sample_layout_env :: "memory_layout \<Rightarrow> layout_env" where
  "sample_layout_env lay = \<lparr>le_layout = lay, le_num_blocks_override = None, le_split_target_block_size = False\<rparr>"

lemma sample_pages:
  "page_size_bytes (sample_page_spec MLAAttentionSpec 1 4 None) = Inr 16"
  "page_size_bytes (sample_page_spec MLAAttentionSpec 4 4 None) = Inr 4"
  "page_size_bytes (sample_page_spec MambaSpec (- 1) 10 (Some 16)) = Inr 16"
  "page_size_bytes (sample_page_spec SlidingWindowSpec 1 2 None) = Inr 8"
  by (simp_all add: page_size_bytes_def sample_page_spec_def unpadded_page_size_bytes_def get_num_kernel_states_def is_mla_def)

lemma sample_page_of:
  "page_of (sample_page_spec MLAAttentionSpec 1 4 None) = 16" "page_of (sample_page_spec MLAAttentionSpec 4 4 None) = 4"
  "page_of (sample_page_spec MambaSpec (- 1) 10 (Some 16)) = 16" "page_of (sample_page_spec SlidingWindowSpec 1 2 None) = 8"
  by (simp_all add: page_of_def sample_pages)

lemma sample_page_spec_ok:
  "spec_ok (sample_page_spec MLAAttentionSpec 1 4 None) 16" "spec_ok (sample_page_spec MLAAttentionSpec 4 4 None) 4"
  "spec_ok (sample_page_spec MambaSpec (- 1) 10 (Some 16)) 16" "spec_ok (sample_page_spec SlidingWindowSpec 1 2 None) 8"
  by (simp_all add: spec_ok_def sample_pages) (simp_all add: sample_page_spec_def get_num_kernel_states_def is_mla_def)

lemma sample_layout_groups_ok: "group_ok sample_attention" "group_ok sample_mamba" "group_ok sample_draft"
  by (simp_all add: group_ok_def sample_attention_def sample_mamba_def sample_draft_def sample_page_of sample_page_spec_ok)

lemma sample_page_spec_neq: "sample_page_spec k t b p = sample_page_spec k' t' b' p' \<longleftrightarrow> k = k' \<and> t = t' \<and> b = b' \<and> p = p'"
  by (auto simp: sample_page_spec_def)

lemma sample_buckets:
  "layers_by_spec sample_attention
     = [(sample_page_spec MLAAttentionSpec 1 4 None, [''m0'', ''m1'']), (sample_page_spec MLAAttentionSpec 4 4 None, [''i0''])]"
  "layers_by_spec sample_mamba = [(sample_page_spec MambaSpec (- 1) 10 (Some 16), [''s0'', ''s1''])]"
  "layers_by_spec sample_draft = [(sample_page_spec SlidingWindowSpec 1 2 None, [''d0''])]"
  by (simp_all add: layers_by_spec_def sample_attention_def sample_mamba_def sample_draft_def dict_get_def sample_page_spec_neq)

lemma sample_parasitic:
  "is_parasitic (sample_page_spec k t b p) \<longleftrightarrow> k = MambaSpec \<or> k = KpoolTailSpec"
  by (simp add: is_parasitic_def sample_page_spec_def)

lemma sample_page_sizes:
  "group_page_sizes sample_attention = Inr [16, 16, 4]" "group_page_sizes sample_mamba = Inr [16, 16]"
  "group_page_sizes sample_draft = Inr [8]"
  by (simp_all add: group_page_sizes_def get_per_layer_spec_def sample_attention_def sample_mamba_def sample_draft_def sample_pages)

lemma sample_bytes_per_block:
  "get_kv_cache_bytes_per_block ru False [sample_attention, sample_mamba] = Inr 36"
  "get_kv_cache_bytes_per_block ru False [sample_attention, sample_mamba, sample_draft] = Inr 36"
  "get_kv_cache_bytes_per_block ru False [sample_mamba, sample_draft] = Inr 32"
  "get_kv_cache_bytes_per_block ru False [sample_draft, sample_mamba] = Inr 32"
  by (simp_all add: get_kv_cache_bytes_per_block_def sample_page_sizes get_per_layer_spec_def
      sample_attention_def [THEN arg_cong, of gr_spec] sample_attention_def [THEN arg_cong, of gr_layer_names]
      sample_mamba_def [THEN arg_cong, of gr_spec] sample_mamba_def [THEN arg_cong, of gr_layer_names]
      sample_draft_def [THEN arg_cong, of gr_spec] sample_draft_def [THEN arg_cong, of gr_layer_names])

lemma sample_draft_strides:
  "compute_layout_strides (sample_page_spec SlidingWindowSpec 1 2 None) 4 1 BLHNC None [None, Some 36, None, None, None]
     = Inr [8, 36, 8, 2, 1]"
  by (simp add: compute_layout_strides_def compute_layer_kv_cache_shape_bytes_def sample_page_spec_def get_num_kernel_states_def
      py_mod_def Let_def position_of_def place_dim_def numeral_eq_Suc)

lemma block_compact_layouts:
  "is_block_compact BLHNC" "is_block_compact BLNHC" "is_block_compact LBHNC" "is_block_compact LBNHC"
  by (simp_all add: is_block_compact_def insert_commute)

lemma sample_layout_config:
  "get_kv_cache_config_from_groups (\<lambda>x m. x) (sample_layout_env BLHNC) [sample_attention, sample_mamba] 144
     = Inr \<lparr>cf_num_blocks = 4,
            cf_tensors = [\<lparr>tn_size = 144, tn_layers = [''m0'', ''m1''], tn_layer_stride = 64, tn_block_stride = 16, tn_offset = 0\<rparr>,
              \<lparr>tn_size = 144, tn_layers = [''i0''], tn_layer_stride = 16, tn_block_stride = 4, tn_offset = 128\<rparr>,
              \<lparr>tn_size = 144, tn_layers = [''s0'', ''s1''], tn_layer_stride = 64, tn_block_stride = 16, tn_offset = 0\<rparr>],
            cf_groups = [sample_attention, sample_mamba]\<rparr>"
  by (simp add: get_kv_cache_config_from_groups_def sample_layout_env_def validate_kv_cache_layout_def sample_page_sizes
      block_compact_layouts is_layer_compact_def is_block_outermost_def sample_bytes_per_block may_override_num_blocks_def
      place_group_def sample_buckets sample_pages place_bucket_def bucket_placement_def sample_parasitic find_host_def Let_def
      sample_page_spec_neq)

lemma sample_overlap_config:
  "get_kv_cache_config_from_groups (\<lambda>x m. x) (sample_layout_env BLHNC) [sample_attention, sample_mamba, sample_draft] 144
     = Inr \<lparr>cf_num_blocks = 4,
            cf_tensors = [\<lparr>tn_size = 144, tn_layers = [''m0'', ''m1''], tn_layer_stride = 64, tn_block_stride = 16, tn_offset = 0\<rparr>,
              \<lparr>tn_size = 144, tn_layers = [''i0''], tn_layer_stride = 16, tn_block_stride = 4, tn_offset = 128\<rparr>,
              \<lparr>tn_size = 144, tn_layers = [''s0'', ''s1''], tn_layer_stride = 64, tn_block_stride = 16, tn_offset = 0\<rparr>,
              \<lparr>tn_size = 144, tn_layers = [''d0''], tn_layer_stride = 8, tn_block_stride = 36, tn_offset = 0\<rparr>],
            cf_groups = [sample_attention, sample_mamba, sample_draft]\<rparr>"
  by (simp add: get_kv_cache_config_from_groups_def sample_layout_env_def validate_kv_cache_layout_def sample_page_sizes
      block_compact_layouts is_layer_compact_def is_block_outermost_def sample_bytes_per_block may_override_num_blocks_def
      place_group_def sample_buckets sample_pages place_bucket_def bucket_placement_def sample_parasitic find_host_def Let_def
      sample_page_spec_neq sample_draft_strides py_floordiv_def)

lemma uniform_placement_sound_witness:
  "\<exists>cfg. get_kv_cache_config_from_groups (\<lambda>x m. x) (sample_layout_env BLHNC) [sample_draft, sample_mamba] 144 = Inr cfg
     \<and> placement_sound cfg"
proof -
  let ?groups = "[sample_draft, sample_mamba]"
  have draft: "compute_layout_strides (sample_page_spec SlidingWindowSpec 1 2 None) 4 1 BLHNC None [None, Some 32, None, None, None]
     = Inr [8, 32, 8, 2, 1]"
    by (simp add: compute_layout_strides_def compute_layer_kv_cache_shape_bytes_def sample_page_spec_def get_num_kernel_states_def
        py_mod_def Let_def position_of_def place_dim_def numeral_eq_Suc)
  have mamba: "compute_layout_strides (sample_page_spec MambaSpec (- 1) 10 (Some 16)) 4 2 BLHNC None [None, Some 32, None, None, None]
     = Inr [16, 32, 10, 10, 1]"
    by (simp add: compute_layout_strides_def compute_layer_kv_cache_shape_bytes_def sample_page_spec_def get_num_kernel_states_def
        py_mod_def Let_def position_of_def place_dim_def numeral_eq_Suc)
  have "\<exists>cfg. get_kv_cache_config_from_groups (\<lambda>x m. x) (sample_layout_env BLHNC) ?groups 144 = Inr cfg \<and> cf_num_blocks cfg = 4"
    by (simp add: get_kv_cache_config_from_groups_def sample_layout_env_def validate_kv_cache_layout_def sample_page_sizes
        block_compact_layouts is_layer_compact_def is_block_outermost_def sample_bytes_per_block may_override_num_blocks_def
        place_group_def sample_buckets sample_pages place_bucket_def bucket_placement_def sample_parasitic find_host_def Let_def
        sample_page_spec_neq draft mamba py_floordiv_def)
  then obtain cfg where cfg: "get_kv_cache_config_from_groups (\<lambda>x m. x) (sample_layout_env BLHNC) ?groups 144 = Inr cfg"
      "cf_num_blocks cfg = 4" by blast
  have "\<forall>g \<in> set ?groups. group_ok g \<and> uniform_group g \<and> simple_sharing g"
    by (simp add: sample_layout_groups_ok uniform_group_def simple_sharing_def sample_buckets)
  from uniform_placement_sound [OF this _ _ cfg(1)] cfg show ?thesis
    by (simp add: sample_layout_env_def block_compact_layouts)
qed

lemma hosted_placement_sound_witness:
  "\<exists>cfg. get_kv_cache_config_from_groups (\<lambda>x m. x) (sample_layout_env BLHNC) [sample_attention, sample_mamba] 144 = Inr cfg
     \<and> placement_sound cfg"
proof -
  have facts: "\<forall>g \<in> set (sample_attention # [sample_mamba]). group_ok g" "\<not> uniform_group sample_attention"
    "\<forall>b \<in> set (layers_by_spec sample_attention). \<not> is_parasitic (fst b)"
    "\<forall>g \<in> set [sample_mamba]. shares_with sample_attention g"
    by (simp_all add: sample_layout_groups_ok uniform_group_def sample_buckets sample_page_of sample_parasitic shares_with_def)
  from hosted_placement_sound [OF this _ _ _ sample_layout_config] sample_layout_config show ?thesis
    by (simp add: sample_layout_env_def block_compact_layouts is_block_outermost_def)
qed

text \<open>
  A group of one page size that neither holds recurrent states nor tails, such as a draft model's beside
  the groups of GLM-5.3, is interleaved over regions that another group owns block by block: block 1 of
  the draft layer overlaps block 2 of the first attention layer.
\<close>

lemma draft_group_overlaps:
  "case get_kv_cache_config_from_groups (\<lambda>x m. x) (sample_layout_env BLHNC) [sample_attention, sample_mamba, sample_draft] 144 of
     Inl _ \<Rightarrow> False
   | Inr cfg \<Rightarrow> 36 \<in> page_range 16 (cf_tensors cfg ! 0) 0 2 \<and> 36 \<in> page_range 8 (cf_tensors cfg ! 3) 0 1
       \<and> \<not> placement_sound cfg"
proof -
  let ?cfg = "\<lparr>cf_num_blocks = 4,
            cf_tensors = [\<lparr>tn_size = 144, tn_layers = [''m0'', ''m1''], tn_layer_stride = 64, tn_block_stride = 16, tn_offset = 0\<rparr>,
              \<lparr>tn_size = 144, tn_layers = [''i0''], tn_layer_stride = 16, tn_block_stride = 4, tn_offset = 128\<rparr>,
              \<lparr>tn_size = 144, tn_layers = [''s0'', ''s1''], tn_layer_stride = 64, tn_block_stride = 16, tn_offset = 0\<rparr>,
              \<lparr>tn_size = 144, tn_layers = [''d0''], tn_layer_stride = 8, tn_block_stride = 36, tn_offset = 0\<rparr>],
            cf_groups = [sample_attention, sample_mamba, sample_draft]\<rparr>"
  have pages: "tensor_pages [sample_attention, sample_mamba, sample_draft] = [(0, 16), (0, 4), (1, 16), (2, 8)]"
    by (simp add: tensor_pages_def sample_buckets sample_page_of)
  have range: "36 \<in> page_range 16 (cf_tensors ?cfg ! 0) 0 2" "36 \<in> page_range 8 (cf_tensors ?cfg ! 3) 0 1"
    by (simp_all add: page_range_def)
  have "\<not> placement_sound ?cfg"
  proof
    assume "placement_sound ?cfg"
    then have "page_range 16 (cf_tensors ?cfg ! 0) 0 2 \<inter> page_range 8 (cf_tensors ?cfg ! 3) 0 1 = {}"
      by (simp only: placement_sound_def Let_def) (elim conjE, drule spec [of _ 0], simp add: pages, drule spec [of _ 3], simp)
    with range show False by blast
  qed
  then show ?thesis unfolding sample_overlap_config sum.case using range by (intro conjI)
qed

text \<open>
  When the layer is the outermost dimension, a group of recurrent-state layers is refused if it has more
  layers than the first group, although its own placement would be sound.
\<close>

lemma larger_mamba_group_refused:
  "get_kv_cache_config_from_groups (\<lambda>x m. x) (sample_layout_env LBHNC)
     [\<lparr>gr_layer_names = [''m0''], gr_spec = LayerSpec (sample_page_spec MLAAttentionSpec 1 4 None)\<rparr>, sample_mamba] 128
   = Inl ValueError"
proof -
  have "compute_layout_strides (sample_page_spec MLAAttentionSpec 1 4 None) 4 1 LBHNC None [None, None, None, None, None]
     = Inr [64, 16, 16, 4, 1]"
    by (simp add: compute_layout_strides_def compute_layer_kv_cache_shape_bytes_def sample_page_spec_def get_num_kernel_states_def
        py_mod_def Let_def position_of_def place_dim_def numeral_eq_Suc)
  then show ?thesis
    by (simp add: get_kv_cache_config_from_groups_def sample_layout_env_def validate_kv_cache_layout_def group_page_sizes_def
        get_per_layer_spec_def sample_mamba_def is_block_outermost_def get_kv_cache_bytes_per_block_def
        may_override_num_blocks_def place_group_def layers_by_spec_def sample_pages place_bucket_def bucket_placement_def
        sample_parasitic find_host_def Let_def py_floordiv_def)
qed

text \<open>
  In a layout with the heads outside the blocks a page does not lie in one piece, and one page size is
  not enough: two groups of pages of 16 bytes, with two heads of 2 bytes a state and with one head of 4,
  pass the check and start at the same byte with blocks 8 and 16 bytes apart.  The first state of block 1
  of the one layer and the third state of block 0 of the other are the same byte.
\<close>

definition two_head_spec :: page_spec where
  "two_head_spec = sample_page_spec SlidingWindowSpec 1 2 None\<lparr>pg_num_heads := 2\<rparr>"

definition one_head_spec :: page_spec where
  "one_head_spec = sample_page_spec SlidingWindowSpec 1 4 None"

definition head_groups :: "layer_group list" where
  "head_groups = [\<lparr>gr_layer_names = [''a''], gr_spec = LayerSpec two_head_spec\<rparr>,
     \<lparr>gr_layer_names = [''b''], gr_spec = LayerSpec one_head_spec\<rparr>]"

lemma head_outer_pages_alias:
  "validate_kv_cache_layout LHBNC head_groups = Inr ()"
  "get_kv_cache_config_from_groups (\<lambda>x m. x) (sample_layout_env LHBNC) head_groups 64
     = Inr \<lparr>cf_num_blocks = 4,
            cf_tensors = [\<lparr>tn_size = 64, tn_layers = [''a''], tn_layer_stride = 64, tn_block_stride = 8, tn_offset = 0\<rparr>,
              \<lparr>tn_size = 64, tn_layers = [''b''], tn_layer_stride = 64, tn_block_stride = 16, tn_offset = 0\<rparr>],
            cf_groups = head_groups\<rparr>"
  "compute_layout_strides two_head_spec 4 1 LHBNC None (replicate 5 None) = Inr [64, 8, 32, 2, 1]"
  "compute_layout_strides one_head_spec 4 1 LHBNC None (replicate 5 None) = Inr [64, 16, 64, 4, 1]"
  "1 * 8 + 0 * 2 = (0 * 16 + 2 * 4 :: int)"
proof -
  have pages: "page_size_bytes two_head_spec = Inr 16" "page_size_bytes one_head_spec = Inr 16"
    by (simp_all add: page_size_bytes_def two_head_spec_def one_head_spec_def sample_page_spec_def
        unpadded_page_size_bytes_def get_num_kernel_states_def is_mla_def)
  then show valid: "validate_kv_cache_layout LHBNC head_groups = Inr ()"
    by (simp add: validate_kv_cache_layout_def head_groups_def group_page_sizes_def get_per_layer_spec_def)
  show two: "compute_layout_strides two_head_spec 4 1 LHBNC None (replicate 5 None) = Inr [64, 8, 32, 2, 1]"
    by (simp add: compute_layout_strides_def compute_layer_kv_cache_shape_bytes_def two_head_spec_def sample_page_spec_def
        get_num_kernel_states_def py_mod_def Let_def position_of_def place_dim_def numeral_eq_Suc)
  show one: "compute_layout_strides one_head_spec 4 1 LHBNC None (replicate 5 None) = Inr [64, 16, 64, 4, 1]"
    by (simp add: compute_layout_strides_def compute_layer_kv_cache_shape_bytes_def one_head_spec_def sample_page_spec_def
        get_num_kernel_states_def py_mod_def Let_def position_of_def place_dim_def numeral_eq_Suc)
  have bytes: "get_kv_cache_bytes_per_block ru False head_groups = Inr 16" for ru
    by (simp add: get_kv_cache_bytes_per_block_def head_groups_def group_page_sizes_def get_per_layer_spec_def pages)
  have plain: "\<not> is_parasitic two_head_spec" "\<not> is_parasitic one_head_spec"
    by (simp_all add: is_parasitic_def two_head_spec_def one_head_spec_def sample_page_spec_def)
  have five: "[None, None, None, None, None] = replicate 5 (None :: int option)" by (simp add: numeral_eq_Suc)
  have buckets: "layers_by_spec (hd head_groups) = [(two_head_spec, [''a''])]"
    "layers_by_spec (hd (tl head_groups)) = [(one_head_spec, [''b''])]"
    by (simp_all add: layers_by_spec_def head_groups_def)
  have run: "place_group LHBNC 4 None 64 (hd head_groups) [] =
      Inr [\<lparr>tn_size = 64, tn_layers = [''a''], tn_layer_stride = 64, tn_block_stride = 8, tn_offset = 0\<rparr>]"
    "place_group LHBNC 4 None 64 (hd (tl head_groups)) ts =
      Inr (ts @ [\<lparr>tn_size = 64, tn_layers = [''b''], tn_layer_stride = 64, tn_block_stride = 16, tn_offset = 0\<rparr>])" for ts
    by (simp_all add: place_group_def buckets place_bucket_def bucket_placement_def pages plain five two one
        py_floordiv_def is_block_outermost_def Let_def)
  have split: "head_groups = [hd head_groups, hd (tl head_groups)]" "head_groups \<noteq> []" by (simp_all add: head_groups_def)
  have fold: "fold_res (place_group LHBNC 4 None 64) head_groups [] =
      Inr [\<lparr>tn_size = 64, tn_layers = [''a''], tn_layer_stride = 64, tn_block_stride = 8, tn_offset = 0\<rparr>,
        \<lparr>tn_size = 64, tn_layers = [''b''], tn_layer_stride = 64, tn_block_stride = 16, tn_offset = 0\<rparr>]"
    by (subst split(1)) (simp add: run)
  show "get_kv_cache_config_from_groups (\<lambda>x m. x) (sample_layout_env LHBNC) head_groups 64
     = Inr \<lparr>cf_num_blocks = 4,
            cf_tensors = [\<lparr>tn_size = 64, tn_layers = [''a''], tn_layer_stride = 64, tn_block_stride = 8, tn_offset = 0\<rparr>,
              \<lparr>tn_size = 64, tn_layers = [''b''], tn_layer_stride = 64, tn_block_stride = 16, tn_offset = 0\<rparr>],
            cf_groups = head_groups\<rparr>"
    by (simp add: get_kv_cache_config_from_groups_def sample_layout_env_def valid bytes split(2) fold
        may_override_num_blocks_def is_block_outermost_def)
qed simp

end
