(* ===== verification/KvSizing.thy ===== *)
theory KvSizing
  imports KvLayout
begin

text \<open>
  How large the KV cache of a model is: the block sizes the scheduler works with, the memory of a
  request, the longest request that fits, and the unification of page sizes, all of
  \<open>upstream-g1/vllm/v1/core/kv_cache_utils.py\<close> on the specifications of
  \<open>upstream-g1/vllm/v1/kv_cache_interface.py\<close>.

  A layer is seen twice: \<open>kv_spec\<close> is what the managers read of its specification, \<open>page_spec\<close> what the
  layout reads.  \<open>cdiv\<close> and \<open>round_up\<close> are functions of \<open>vllm.utils.math_utils\<close>, outside the
  repository, and parameters.
\<close>

section \<open>Block sizes of the scheduler\<close>

record block_size_env =
  be_cache_block_size :: int
  be_dcp_world_size :: int
  be_enable_prefix_caching :: bool
  be_connector :: bool
  be_prefix_match_unit :: "int option"

text \<open>The specification of a scheduler's group is that of a layer, never the uniform wrapper.\<close>

definition group_block_size :: "int \<Rightarrow> kv_spec \<Rightarrow> int" where
  "group_block_size dcp spec =
     (if sp_kind spec \<noteq> MambaSpec \<and> \<not> sp_dcp_replicated spec then sp_block_size spec * dcp else sp_block_size spec)"

definition hashing_sizes :: "int \<Rightarrow> kv_spec list \<Rightarrow> int list" where
  "hashing_sizes dcp specs =
     (let participating = map (group_block_size dcp) (filter participates_in_prefix_caching specs)
      in if participating \<noteq> [] then participating else map (group_block_size dcp) specs)"

definition resolve_kv_cache_block_sizes :: "block_size_env \<Rightarrow> kv_spec list \<Rightarrow> (int \<times> int) res" where
  "resolve_kv_cache_block_sizes env specs =
     (let dcp = be_dcp_world_size env
      in if length specs \<le> 1 then
           (let replicated = (length specs = 1 \<and> sp_dcp_replicated (specs ! 0));
                bs = be_cache_block_size env * (if replicated then 1 else dcp)
            in Inr (bs, bs))
         else
           (let group_block_sizes = map (group_block_size dcp) specs;
                scheduler_block_size = fold lcm group_block_sizes 1
            in if \<not> (be_enable_prefix_caching env \<or> be_connector env) then
                 Inr (scheduler_block_size, scheduler_block_size)
               else if \<exists>s \<in> set specs. sp_kind s = MambaSpec \<and> sp_mamba_cache_mode s \<noteq> ''align'' then
                 Inr (scheduler_block_size, scheduler_block_size)
               else
                 (let sizes = hashing_sizes dcp specs;
                      hash_block_size = (case be_prefix_match_unit env of Some u \<Rightarrow> u | None \<Rightarrow> fold gcd sizes 0)
                  in bind_res (map_res (\<lambda>bs. py_mod bs hash_block_size) sizes) (\<lambda>ms.
                       if \<exists>m \<in> set ms. m \<noteq> 0 then Inl ValueError
                       else Inr (scheduler_block_size, hash_block_size)))))"

section \<open>The memory of a request\<close>

record layer_cache =
  lc_spec :: kv_spec
  lc_page :: page_spec

record sizing_env =
  sz_max_model_len :: int
  sz_dcp_world_size :: int
  sz_max_in_flight_tokens :: int
  sz_mamba_cache_mode :: string
  sz_max_num_encoder_input_tokens :: int

definition full_attention_blocks :: "(int \<Rightarrow> int \<Rightarrow> int) \<Rightarrow> sizing_env \<Rightarrow> kv_spec \<Rightarrow> int" where
  "full_attention_blocks cdiv env spec =
     (let dcp = sz_dcp_world_size env;
          len = (if dcp > 1 \<and> \<not> sp_dcp_replicated spec then cdiv (sz_max_model_len env) dcp else sz_max_model_len env)
      in cdiv len (sp_block_size spec))"

definition mamba_blocks :: "(int \<Rightarrow> int \<Rightarrow> int) \<Rightarrow> sizing_env \<Rightarrow> kv_spec \<Rightarrow> int" where
  "mamba_blocks cdiv env spec =
     (if sz_mamba_cache_mode env = ''all'' then
        cdiv (sz_max_model_len env) (sp_block_size spec) + sp_num_speculative_blocks spec
      else if sz_mamba_cache_mode env = ''align'' then
        2 + sp_num_speculative_blocks spec + sp_num_prefill_checkpoint_blocks spec
      else 1 + sp_num_speculative_blocks spec)"

text \<open>\<open>spec.max_memory_usage_bytes(vllm_config)\<close> of a layer\<close>

definition layer_memory_bytes :: "(int \<Rightarrow> int \<Rightarrow> int) \<Rightarrow> sizing_env \<Rightarrow> layer_cache \<Rightarrow> int res" where
  "layer_memory_bytes cdiv env layer =
     (let spec = lc_spec layer; page = page_size_bytes (lc_page layer);
          admission = max_admission_blocks_per_request cdiv spec (sz_max_in_flight_tokens env) (sz_max_model_len env)
      in if is_full_attention (sp_kind spec) then
           bind_res page (\<lambda>p. Inr (full_attention_blocks cdiv env spec * p))
         else if is_sliding_window (sp_kind spec) then
           (if \<not> (sz_dcp_world_size env = 1 \<or> sp_dcp_replicated spec) then Inl AssertionError
            else bind_res page (\<lambda>p. Inr (the admission * p)))
         else (case sp_kind spec of
             ChunkedLocalAttentionSpec \<Rightarrow> bind_res page (\<lambda>p. Inr (the admission * p))
           | MambaSpec \<Rightarrow> bind_res page (\<lambda>p. Inr (mamba_blocks cdiv env spec * p))
           | EncoderOnlyAttentionSpec \<Rightarrow> Inr 0
           | CrossAttentionSpec \<Rightarrow>
               bind_res page (\<lambda>p. Inr (cdiv (sz_max_num_encoder_input_tokens env) (sp_block_size spec) * p))
           | _ \<Rightarrow> Inl NotImplementedError))"

definition max_memory_usage_bytes :: "(int \<Rightarrow> int \<Rightarrow> int) \<Rightarrow> sizing_env \<Rightarrow> layer_cache list \<Rightarrow> int res" where
  "max_memory_usage_bytes cdiv env layers = bind_res (map_res (layer_memory_bytes cdiv env) layers) (\<lambda>ms. Inr (sum_list ms))"

section \<open>The longest request that fits\<close>

definition fits_in_memory :: "(int \<Rightarrow> int \<Rightarrow> int) \<Rightarrow> sizing_env \<Rightarrow> layer_cache list \<Rightarrow> int \<Rightarrow> int \<Rightarrow> bool res" where
  "fits_in_memory cdiv env layers available model_len =
     bind_res (max_memory_usage_bytes cdiv (env\<lparr>sz_max_model_len := model_len\<rparr>) layers) (\<lambda>needed. Inr (needed \<le> available))"

function search_model_len :: "(int \<Rightarrow> bool res) \<Rightarrow> int \<Rightarrow> int \<Rightarrow> int \<Rightarrow> int res" where
  "search_model_len fits left right result =
     (if left \<le> right then
        (let mid = (left + right) div 2
         in case fits mid of
              Inl e \<Rightarrow> Inl e
            | Inr ok \<Rightarrow> if ok then search_model_len fits (mid + 1) right mid
                       else search_model_len fits left (mid - 1) result)
      else Inr result)"
  by pat_completeness auto
termination
  by (relation "measure (\<lambda>(fits, left, right, result). nat (right - left + 1))") auto

declare search_model_len.simps [simp del]

definition estimate_max_model_len :: "(int \<Rightarrow> int \<Rightarrow> int) \<Rightarrow> sizing_env \<Rightarrow> layer_cache list \<Rightarrow> int \<Rightarrow> int res" where
  "estimate_max_model_len cdiv env layers available =
     (let fits = fits_in_memory cdiv env layers available
      in bind_res (fits 1) (\<lambda>ok. if \<not> ok then Inr 0 else search_model_len fits 1 (sz_max_model_len env) 1))"

text \<open>\<open>_check_enough_kv_cache_memory\<close>: both failures are a \<open>ValueError\<close>, the second after an estimate.\<close>

definition check_enough_kv_cache_memory :: "(int \<Rightarrow> int \<Rightarrow> int) \<Rightarrow> sizing_env \<Rightarrow> layer_cache list \<Rightarrow> int \<Rightarrow> unit res" where
  "check_enough_kv_cache_memory cdiv env layers available =
     (if available \<le> 0 then Inl ValueError
      else bind_res (max_memory_usage_bytes cdiv env layers) (\<lambda>needed.
             if needed > available then
               bind_res (estimate_max_model_len cdiv env layers available) (\<lambda>_. Inl ValueError)
             else Inr ()))"

section \<open>One page size\<close>

text \<open>
  \<open>dataclasses.replace\<close> constructs the specification anew: \<open>__post_init__\<close> pads the page of the two MLA
  classes to the alignment, if there is one.
\<close>

definition apply_alignment_padding :: "(int \<Rightarrow> int \<Rightarrow> int) \<Rightarrow> int option \<Rightarrow> page_spec \<Rightarrow> page_spec" where
  "apply_alignment_padding round_up alignment spec =
     (case alignment of
        None \<Rightarrow> spec
      | Some a \<Rightarrow>
          if is_mla spec \<or> pg_kind spec = SlidingWindowMLASpec then
            (let actual = unpadded_page_size_bytes spec; padded = round_up actual a
             in if padded \<noteq> actual then spec\<lparr>pg_page_size_padded := Some padded\<rparr> else spec)
          else spec)"

definition unify_layer ::
  "(int \<Rightarrow> int \<Rightarrow> int) \<Rightarrow> (page_spec \<Rightarrow> int option) \<Rightarrow> (page_spec \<Rightarrow> bool) \<Rightarrow> int \<Rightarrow> page_spec \<Rightarrow> page_spec res" where
  "unify_layer round_up alignment by_stride max_page spec =
     bind_res (page_size_bytes spec) (\<lambda>page.
       if page = max_page then Inr spec
       else bind_res
         (if pg_kind spec = MambaSpec then Inr (spec\<lparr>pg_page_size_padded := Some max_page\<rparr>)
          else bind_res (py_mod max_page page) (\<lambda>m.
            if m = 0 then
              Inr (apply_alignment_padding round_up (alignment spec)
                     (spec\<lparr>pg_block_size := pg_block_size spec * (max_page div page)\<rparr>))
            else if \<not> is_mla spec \<or> by_stride spec then
              Inr (apply_alignment_padding round_up (alignment spec) (spec\<lparr>pg_page_size_padded := Some max_page\<rparr>))
            else Inl NotImplementedError))
         (\<lambda>new_spec. bind_res (page_size_bytes new_spec) (\<lambda>new_page.
            if new_page = max_page then Inr new_spec else Inl AssertionError)))"

definition unify_kv_cache_spec_page_size ::
  "(int \<Rightarrow> int \<Rightarrow> int) \<Rightarrow> (page_spec \<Rightarrow> int option) \<Rightarrow> (page_spec \<Rightarrow> bool) \<Rightarrow> (string \<times> page_spec) list
     \<Rightarrow> (string \<times> page_spec) list res" where
  "unify_kv_cache_spec_page_size round_up alignment by_stride specs =
     bind_res (map_res (\<lambda>(_, s). page_size_bytes s) specs) (\<lambda>pages.
       if card (set pages) \<le> 1 then Inr specs
       else map_res (\<lambda>(name, s). bind_res (unify_layer round_up alignment by_stride (Max (set pages)) s)
                       (\<lambda>s'. Inr (name, s'))) specs)"

section \<open>Splitting layers into groups of the same size\<close>

text \<open>\<open>layers[i::num_groups]\<close>\<close>

definition every_nth :: "nat \<Rightarrow> nat \<Rightarrow> 'a list \<Rightarrow> 'a list" where
  "every_nth step i xs = map (\<lambda>j. xs ! (i + j * step)) [0..<(length xs - i + step - 1) div step]"

text \<open>The number of layers of a group, for the buckets of layers whose specifications merge\<close>

definition choose_group_size :: "string list list \<Rightarrow> int" where
  "choose_group_size buckets =
     (let min_num_layers = Min (set (map (int \<circ> length) buckets)); max_num_layers = Max (set (map (int \<circ> length) buckets))
      in if of_int max_num_layers < of_int min_num_layers * (3 / 2 :: rat) then max_num_layers else min_num_layers)"

definition split_layers :: "(int \<Rightarrow> int \<Rightarrow> int) \<Rightarrow> string list list \<Rightarrow> string list list" where
  "split_layers cdiv buckets =
     concat (map (\<lambda>layers. let num_groups = nat (cdiv (int (length layers)) (choose_group_size buckets))
                           in map (\<lambda>i. every_nth num_groups i layers) [0..<num_groups]) buckets)"

section \<open>Chunks with little padding\<close>

text \<open>The padding when every value is rounded up to a multiple of \<open>d\<close>\<close>

definition pad_of :: "int list \<Rightarrow> int \<Rightarrow> int" where
  "pad_of vs d = sum_list (map (\<lambda>x. (d - x mod d) mod d) vs)"

definition better_chunk :: "int list \<Rightarrow> int \<Rightarrow> int \<times> int option \<Rightarrow> int \<times> int option" where
  "better_chunk vs d s =
     (let (best_d, best_pad) = s; pad = pad_of vs d
      in case best_pad of
           None \<Rightarrow> (d, Some pad)
         | Some p \<Rightarrow> if pad < p \<or> (pad = p \<and> d > best_d) then (d, Some pad) else (best_d, best_pad))"

definition approximate_gcd :: "int list \<Rightarrow> int option \<Rightarrow> int res" where
  "approximate_gcd vs lower_bound =
     (if vs = [] then Inl ValueError
      else if \<exists>x \<in> set vs. x \<le> 0 then Inl ValueError
      else (let min_d = max 1 (case lower_bound of Some b \<Rightarrow> b | None \<Rightarrow> 1); max_d = Max (set vs)
            in if min_d > max_d then Inr min_d
               else Inr (fst (fold (better_chunk vs) [min_d..max_d] (min_d, None)))))"

definition largest_divisor_at_most :: "int \<Rightarrow> int \<Rightarrow> int" where
  "largest_divisor_at_most v limit =
     (case find (\<lambda>c. v mod c = 0) (rev [1..min v limit]) of Some c \<Rightarrow> c | None \<Rightarrow> 1)"

section \<open>The block sizes fit together\<close>

lemma fold_lcm: "\<forall>x \<in> set xs. x dvd fold lcm xs (a :: int)" "a dvd fold lcm xs a"
  by (induction xs arbitrary: a) (auto intro: dvd_trans)

lemma fold_lcm_least: "\<lbrakk>\<forall>x \<in> set xs. x dvd (m :: int); a dvd m\<rbrakk> \<Longrightarrow> fold lcm xs a dvd m"
  by (induction xs arbitrary: a) auto

lemma fold_lcm_pos: "\<lbrakk>\<forall>x \<in> set xs. (x :: int) > 0; a > 0\<rbrakk> \<Longrightarrow> fold lcm xs a > 0"
  by (induction xs arbitrary: a) (auto simp: lcm_pos_int)

lemma fold_gcd: "\<forall>x \<in> set xs. fold gcd xs (a :: int) dvd x" "fold gcd xs a dvd a"
proof (induction xs arbitrary: a)
  case (Cons x xs)
  { case 1 show ?case using Cons(1,2) [of "gcd x a"] by (auto intro: dvd_trans) }
  { case 2 show ?case using Cons(2) [of "gcd x a"] by (auto intro: dvd_trans) }
qed simp_all

lemma fold_gcd_greatest: "\<lbrakk>\<forall>x \<in> set xs. (d :: int) dvd x; d dvd a\<rbrakk> \<Longrightarrow> d dvd fold gcd xs a"
  by (induction xs arbitrary: a) auto

lemma fold_gcd_pos: "\<lbrakk>\<exists>x \<in> set xs. (x :: int) > 0\<rbrakk> \<Longrightarrow> fold gcd xs a > 0"
proof (induction xs arbitrary: a)
  case (Cons x xs)
  have "gcd y b > 0 \<Longrightarrow> fold gcd ys (gcd y b) > (0 :: int)" for y b ys
    by (induction ys arbitrary: y b) (auto simp: gcd_pos_int)
  with Cons show ?case by (cases "x > 0") (auto simp: gcd_pos_int)
qed simp

text \<open>
  C34. The block sizes of a hybrid model fit together: with positive block sizes and match unit, the
  scheduler's size is the least common multiple of the sizes of the groups, scaled by the number of
  context-parallel ranks where the groups are sharded.  When block hashes are used and every recurrent
  group is aligned, the hash size is the match unit, or without one the greatest common divisor of the
  groups that share prefixes, divides the size of each of these and the scheduler's size; otherwise it is
  the scheduler's size.  The only error is a match unit that does not divide all of them.
\<close>

theorem block_sizes_fit_together:
  assumes "2 \<le> length specs" and "\<forall>s \<in> set specs. 0 < group_block_size (be_dcp_world_size env) s"
    and "\<forall>u. be_prefix_match_unit env = Some u \<longrightarrow> 0 < u"
  shows "let sizes = map (group_block_size (be_dcp_world_size env)) specs;
             hashing = (be_enable_prefix_caching env \<or> be_connector env)
               \<and> \<not> (\<exists>s \<in> set specs. sp_kind s = MambaSpec \<and> sp_mamba_cache_mode s \<noteq> ''align'');
             shared = hashing_sizes (be_dcp_world_size env) specs
         in case resolve_kv_cache_block_sizes env specs of
              Inl e \<Rightarrow> e = ValueError \<and> hashing
                \<and> (\<exists>u. be_prefix_match_unit env = Some u \<and> (\<exists>b \<in> set shared. \<not> u dvd b))
            | Inr (s, h) \<Rightarrow> 0 < s \<and> (\<forall>b \<in> set sizes. b dvd s) \<and> (\<forall>m. (\<forall>b \<in> set sizes. b dvd m) \<longrightarrow> s dvd m)
                \<and> 0 < h \<and> h dvd s
                \<and> (if hashing then (\<forall>b \<in> set shared. h dvd b)
                     \<and> (case be_prefix_match_unit env of Some u \<Rightarrow> h = u
                        | None \<Rightarrow> \<forall>d. (\<forall>b \<in> set shared. d dvd b) \<longrightarrow> d dvd h)
                   else h = s)"
proof -
  let ?dcp = "be_dcp_world_size env"
  define sizes where "sizes = map (group_block_size ?dcp) specs"
  define shared where "shared = hashing_sizes ?dcp specs"
  define s where "s = fold lcm sizes 1"
  define h where "h = (case be_prefix_match_unit env of Some u \<Rightarrow> u | None \<Rightarrow> fold gcd shared 0)"
  define hashing where "hashing \<longleftrightarrow> (be_enable_prefix_caching env \<or> be_connector env)
    \<and> \<not> (\<exists>s \<in> set specs. sp_kind s = MambaSpec \<and> sp_mamba_cache_mode s \<noteq> ''align'')"
  have sub: "set shared \<subseteq> set sizes" and ne: "shared \<noteq> []"
    using assms(1) by (auto simp: shared_def sizes_def hashing_sizes_def Let_def)
  have pos: "\<forall>b \<in> set sizes. 0 < b" using assms(2) by (simp add: sizes_def)
  have s: "0 < s" "\<forall>b \<in> set sizes. b dvd s" "\<forall>m. (\<forall>b \<in> set sizes. b dvd m) \<longrightarrow> s dvd m"
    using fold_lcm_pos [OF pos, of 1] fold_lcm(1) [of sizes 1] fold_lcm_least [of sizes _ 1] by (simp_all add: s_def)
  have "\<exists>b \<in> set shared. 0 < b" using ne sub pos by (cases shared) auto
  then have h: "0 < h" using assms(3) fold_gcd_pos by (auto simp: h_def split: option.splits)
  have run: "resolve_kv_cache_block_sizes env specs =
    (if \<not> hashing then Inr (s, s)
     else if \<exists>b \<in> set shared. \<not> h dvd b then Inl ValueError else Inr (s, h))"
  proof -
    have "map_res (\<lambda>bs. py_mod bs h) shared = Inr (map (\<lambda>b. b mod h) shared)"
      using h by (intro map_res_Inr) (simp add: py_mod_def)
    then show ?thesis
      using assms(1) unfolding resolve_kv_cache_block_sizes_def Let_def sizes_def [symmetric] shared_def [symmetric]
        s_def [symmetric] h_def [symmetric] hashing_def
      by (auto simp: dvd_eq_mod_eq_0)
  qed
  have unit: "be_prefix_match_unit env = Some u \<Longrightarrow> h = u" for u by (simp add: h_def)
  have greatest: "be_prefix_match_unit env = None \<Longrightarrow> (\<forall>b \<in> set shared. h dvd b) \<and> (\<forall>d. (\<forall>b \<in> set shared. d dvd b) \<longrightarrow> d dvd h)"
    using fold_gcd(1) [of shared 0] fold_gcd_greatest [of shared _ 0] by (simp add: h_def)
  have divides: "h dvd s" if "\<forall>b \<in> set shared. h dvd b"
    using that ne sub s(2) by (cases shared) (auto intro: dvd_trans)
  have result: "case resolve_kv_cache_block_sizes env specs of
      Inl e \<Rightarrow> e = ValueError \<and> hashing
        \<and> (\<exists>u. be_prefix_match_unit env = Some u \<and> (\<exists>b \<in> set shared. \<not> u dvd b))
    | Inr (s, h) \<Rightarrow> 0 < s \<and> (\<forall>b \<in> set sizes. b dvd s) \<and> (\<forall>m. (\<forall>b \<in> set sizes. b dvd m) \<longrightarrow> s dvd m)
        \<and> 0 < h \<and> h dvd s
        \<and> (if hashing then (\<forall>b \<in> set shared. h dvd b)
             \<and> (case be_prefix_match_unit env of Some u \<Rightarrow> h = u
                | None \<Rightarrow> \<forall>d. (\<forall>b \<in> set shared. d dvd b) \<longrightarrow> d dvd h)
           else h = s)"
  proof (cases "hashing \<and> (\<exists>b \<in> set shared. \<not> h dvd b)")
    case True
    then have "\<exists>u. be_prefix_match_unit env = Some u" using greatest by (cases "be_prefix_match_unit env") auto
    with True unit show ?thesis by (auto simp: run)
  next
    case False
    then show ?thesis
    proof (cases hashing)
      case True
      with False have all: "\<forall>b \<in> set shared. h dvd b" by blast
      with True s h divides greatest unit show ?thesis by (auto simp: run split: option.splits)
    next
      case nh: False
      with s show ?thesis by (simp add: run)
    qed
  qed
  then show ?thesis unfolding Let_def sizes_def shared_def hashing_def .
qed

section \<open>The longest request is found\<close>

definition layer_ok :: "sizing_env \<Rightarrow> layer_cache \<Rightarrow> bool" where
  "layer_ok env layer \<longleftrightarrow>
     (case page_size_bytes (lc_page layer) of Inl _ \<Rightarrow> False | Inr p \<Rightarrow> 0 \<le> p)
     \<and> 1 \<le> sp_block_size (lc_spec layer) \<and> sp_kind (lc_spec layer) \<noteq> UniformTypeKVCacheSpecs
     \<and> (is_sliding_window (sp_kind (lc_spec layer)) \<longrightarrow> sz_dcp_world_size env = 1 \<or> sp_dcp_replicated (lc_spec layer))"

lemma layer_memory_mono:
  assumes "layer_ok env layer" and "cdiv_law cdiv" and "1 \<le> sz_dcp_world_size env"
  shows "\<exists>f. mono f \<and> (\<forall>m. layer_memory_bytes cdiv (env\<lparr>sz_max_model_len := m\<rparr>) layer = Inr (f m))"
proof -
  let ?spec = "lc_spec layer" and ?env = "\<lambda>m. env\<lparr>sz_max_model_len := m\<rparr>"
  obtain p where p: "page_size_bytes (lc_page layer) = Inr p" "0 \<le> p"
    using assms(1) by (auto simp: layer_ok_def split: sum.splits)
  have bs: "0 < sp_block_size ?spec" and dcp: "0 < sz_dcp_world_size env" using assms(1,3) by (simp_all add: layer_ok_def)
  note mono = cdiv_mono [OF assms(2)]
  have full: "mono (\<lambda>m. full_attention_blocks cdiv (?env m) ?spec * p)"
    unfolding full_attention_blocks_def Let_def
    by (intro monoI mult_right_mono p(2)) (auto intro!: mono bs dcp)
  have mamba: "mono (\<lambda>m. mamba_blocks cdiv (?env m) ?spec * p)"
    unfolding mamba_blocks_def
    by (intro monoI mult_right_mono p(2)) (auto intro!: mono bs)
  have window: "mono (\<lambda>m. window_admission_blocks cdiv ?spec k m * p)" for k
    unfolding window_admission_blocks_def
    by (intro monoI mult_right_mono p(2)) (auto intro!: mono bs)
  have chunk: "mono (\<lambda>m. chunk_admission_blocks cdiv ?spec k m * p)" for k
    unfolding chunk_admission_blocks_def
    by (intro monoI mult_right_mono p(2)) (auto intro!: mono bs)
  have const: "mono (\<lambda>m :: int. c :: int)" for c by (simp add: mono_def)
  show ?thesis
    using assms(1) full mamba window chunk const
    by (cases "sp_kind ?spec")
      (auto simp: layer_memory_bytes_def p(1) layer_ok_def max_admission_blocks_per_request_def)
qed

lemma memory_mono:
  assumes "\<forall>l \<in> set layers. layer_ok env l" and "cdiv_law cdiv" and "1 \<le> sz_dcp_world_size env"
  shows "\<exists>f. mono f \<and> (\<forall>m. max_memory_usage_bytes cdiv (env\<lparr>sz_max_model_len := m\<rparr>) layers = Inr (f m))"
proof -
  have "\<exists>f. mono f \<and> (\<forall>m. bind_res (map_res (layer_memory_bytes cdiv (env\<lparr>sz_max_model_len := m\<rparr>)) layers)
      (\<lambda>ms. Inr (sum_list ms)) = Inr (f m))"
    using assms(1)
  proof (induction layers)
    case Nil
    show ?case by (rule exI [of _ "\<lambda>m. 0"]) (simp add: mono_def)
  next
    case (Cons l layers)
    from Cons obtain f where f: "mono f" "\<forall>m. bind_res (map_res (layer_memory_bytes cdiv (env\<lparr>sz_max_model_len := m\<rparr>)) layers)
        (\<lambda>ms. Inr (sum_list ms)) = Inr (f m)" by auto
    obtain g where g: "mono g" "\<forall>m. layer_memory_bytes cdiv (env\<lparr>sz_max_model_len := m\<rparr>) l = Inr (g m)"
      using layer_memory_mono [of env l, OF _ assms(2,3)] Cons.prems by auto
    have "bind_res (map_res (layer_memory_bytes cdiv (env\<lparr>sz_max_model_len := m\<rparr>)) (l # layers))
        (\<lambda>ms. Inr (sum_list ms)) = Inr (g m + f m)" for m
    proof -
      obtain ms where "map_res (layer_memory_bytes cdiv (env\<lparr>sz_max_model_len := m\<rparr>)) layers = Inr ms" "sum_list ms = f m"
        using f(2) by (auto simp: res_simps)
      with g(2) show ?thesis by simp
    qed
    moreover have "mono (\<lambda>m. g m + f m)" using f(1) g(1) by (auto simp: mono_def intro: add_mono)
    ultimately show ?case by blast
  qed
  then show ?thesis by (simp add: max_memory_usage_bytes_def)
qed

lemma search_model_len_correct:
  assumes "\<And>n. fits n = Inr (ok n)" and "\<And>x y. x \<le> y \<Longrightarrow> ok y \<Longrightarrow> ok x"
    and "ok result" "left - 1 \<le> result" "result \<le> len"
    and "\<And>n. right < n \<Longrightarrow> n \<le> len \<Longrightarrow> \<not> ok n" and "left \<le> right + 1" and "right \<le> len"
  shows "\<exists>n. search_model_len fits left right result = Inr n \<and> left - 1 \<le> n \<and> n \<le> len \<and> ok n
    \<and> (\<forall>m. n < m \<longrightarrow> m \<le> len \<longrightarrow> \<not> ok m)"
  using assms(3-8)
proof (induction "nat (right - left + 1)" arbitrary: left right result rule: less_induct)
  case less
  show ?case
  proof (cases "left \<le> right")
    case False
    with less.prems show ?thesis by (subst search_model_len.simps) auto
  next
    case True
    let ?mid = "(left + right) div 2"
    have mid: "left \<le> ?mid" "?mid \<le> right" using True by auto
    show ?thesis
    proof (cases "ok ?mid")
      case yes: True
      have "\<exists>n. search_model_len fits (?mid + 1) right ?mid = Inr n \<and> ?mid + 1 - 1 \<le> n \<and> n \<le> len \<and> ok n
          \<and> (\<forall>m. n < m \<longrightarrow> m \<le> len \<longrightarrow> \<not> ok m)"
        by (rule less.hyps) (use mid yes less.prems in auto)
      then show ?thesis using mid True yes by (subst search_model_len.simps) (auto simp: assms(1) Let_def)
    next
      case no: False
      have above: "\<not> ok n" if "?mid - 1 < n" "n \<le> len" for n
        using assms(2) [of ?mid n] no that by auto
      have "\<exists>n. search_model_len fits left (?mid - 1) result = Inr n \<and> left - 1 \<le> n \<and> n \<le> len \<and> ok n
          \<and> (\<forall>m. n < m \<longrightarrow> m \<le> len \<longrightarrow> \<not> ok m)"
        by (rule less.hyps) (use mid above less.prems in auto)
      then show ?thesis using mid True no by (subst search_model_len.simps) (auto simp: assms(1) Let_def)
    qed
  qed
qed

text \<open>
  C35. The estimate of the longest request is exact: for layers of any kind with valid pages, it ends with
  the largest length up to the model's whose KV cache fits into the available memory, or 0 when not even
  one token fits.  That more tokens need more memory is proved of every kind of layer, not assumed.
\<close>

theorem estimated_length_is_maximal:
  assumes "\<forall>l \<in> set layers. layer_ok env l" and "cdiv_law cdiv" and "1 \<le> sz_dcp_world_size env"
    and "1 \<le> sz_max_model_len env"
  shows "\<exists>n used. estimate_max_model_len cdiv env layers available = Inr n \<and> 0 \<le> n \<and> n \<le> sz_max_model_len env
    \<and> (\<forall>m. max_memory_usage_bytes cdiv (env\<lparr>sz_max_model_len := m\<rparr>) layers = Inr (used m))
    \<and> (0 < n \<longrightarrow> used n \<le> available) \<and> (\<forall>m. n < m \<longrightarrow> m \<le> sz_max_model_len env \<longrightarrow> available < used m)"
proof -
  obtain used where used: "mono used" "\<And>m. max_memory_usage_bytes cdiv (env\<lparr>sz_max_model_len := m\<rparr>) layers = Inr (used m)"
    using memory_mono [OF assms(1-3)] by blast
  let ?fits = "fits_in_memory cdiv env layers available"
  have fits: "?fits m = Inr (used m \<le> available)" for m by (simp add: fits_in_memory_def used(2))
  have down: "x \<le> y \<Longrightarrow> used y \<le> available \<Longrightarrow> used x \<le> available" for x y
    using used(1) by (auto simp: mono_def intro: order_trans)
  show ?thesis
  proof (cases "used 1 \<le> available")
    case False
    have "available < used m" if "0 < m" for m
    proof -
      have "1 \<le> m" using that by simp
      with False down [OF this] show ?thesis by linarith
    qed
    moreover have "estimate_max_model_len cdiv env layers available = Inr 0"
      using False by (simp add: estimate_max_model_len_def fits)
    ultimately show ?thesis using assms(4) used(2) by (intro exI [of _ 0] exI [of _ used]) simp
  next
    case True
    have "\<exists>n. search_model_len ?fits 1 (sz_max_model_len env) 1 = Inr n \<and> 1 - 1 \<le> n \<and> n \<le> sz_max_model_len env
        \<and> used n \<le> available \<and> (\<forall>m. n < m \<longrightarrow> m \<le> sz_max_model_len env \<longrightarrow> \<not> used m \<le> available)"
      by (rule search_model_len_correct) (use True assms(4) down fits in auto)
    then obtain n where n: "search_model_len ?fits 1 (sz_max_model_len env) 1 = Inr n" "0 \<le> n" "n \<le> sz_max_model_len env"
      "used n \<le> available" "\<forall>m. n < m \<longrightarrow> m \<le> sz_max_model_len env \<longrightarrow> \<not> used m \<le> available" by auto
    have "estimate_max_model_len cdiv env layers available = Inr n"
      using True n(1) by (simp add: estimate_max_model_len_def fits)
    with n used(2) show ?thesis by (intro exI [of _ n] exI [of _ used]) (simp add: not_le)
  qed
qed

section \<open>Layers are split evenly\<close>

lemma every_nth_indices:
  assumes "i < k"
  shows "map (\<lambda>j. i + j * k) [0..<(n - i + k - 1) div k] = filter (\<lambda>j. j mod k = i) [0..<n]"
proof (rule sorted_distinct_set_unique)
  let ?xs = "map (\<lambda>j. i + j * k) [0..<(n - i + k - 1) div k]"
  show "sorted ?xs" by (auto simp: sorted_iff_nth_mono)
  show "distinct ?xs" using assms by (auto simp: distinct_map inj_on_def)
  show "sorted (filter (\<lambda>j. j mod k = i) [0..<n])" by (rule sorted_wrt_filter) simp
  show "distinct (filter (\<lambda>j. j mod k = i) [0..<n])" by simp
  have "j < (n - i + k - 1) div k \<longleftrightarrow> i + j * k < n" for j
  proof -
    have "j < (n - i + k - 1) div k \<longleftrightarrow> Suc j * k \<le> n - i + k - 1"
      using assms by (simp only: Suc_le_eq [symmetric] less_eq_div_iff_mult_less_eq)
    also have "\<dots> \<longleftrightarrow> i + j * k < n" using assms by (cases "i \<le> n") auto
    finally show ?thesis .
  qed
  note index = this
  show "set ?xs = set (filter (\<lambda>j. j mod k = i) [0..<n])"
  proof (intro equalityI subsetI)
    fix x assume "x \<in> set ?xs"
    then have "\<exists>j. x = i + j * k \<and> j < (n - i + k - 1) div k" by auto
    then obtain j where j: "x = i + j * k" "j < (n - i + k - 1) div k" by (elim exE conjE)
    from j(2) have "i + j * k < n" unfolding index .
    with assms j(1) show "x \<in> set (filter (\<lambda>j. j mod k = i) [0..<n])" by simp
  next
    fix x assume "x \<in> set (filter (\<lambda>j. j mod k = i) [0..<n])"
    then have x: "x < n" "x = i + (x div k) * k" using mod_mult_div_eq [of x k] by (auto simp: mult.commute)
    then have "i + (x div k) * k < n" by simp
    then have "x div k < (n - i + k - 1) div k" unfolding index .
    then have "i + (x div k) * k \<in> set ?xs" unfolding set_map by (intro imageI) simp
    with x(2) show "x \<in> set ?xs" by simp
  qed
qed

lemma every_nth_filter:
  "i < k \<Longrightarrow> every_nth k i xs = map ((!) xs) (filter (\<lambda>j. j mod k = i) [0..<length xs])"
  unfolding every_nth_indices [symmetric] by (simp add: every_nth_def comp_def)

lemma every_nth_partition:
  assumes "0 < k"
  shows "mset (concat (map (\<lambda>i. every_nth k i xs) [0..<k])) = mset xs"
proof -
  have "mset (concat (map (\<lambda>i. filter (\<lambda>j. j mod k = i) js) [0..<m])) = mset (filter (\<lambda>j. j mod k < m) js)" for js m
  proof (induction m)
    case (Suc m)
    have "mset (filter (\<lambda>j. j mod k < Suc m) js) = mset (filter (\<lambda>j. j mod k < m) js) + mset (filter (\<lambda>j. j mod k = m) js)"
      by (induction js) auto
    with Suc show ?case by simp
  qed simp
  then have "mset (concat (map (\<lambda>i. filter (\<lambda>j. j mod k = i) [0..<length xs]) [0..<k])) = mset [0..<length xs]"
    using assms by simp
  note indices = this
  have "map (\<lambda>i. every_nth k i xs) [0..<k]
      = map (map ((!) xs)) (map (\<lambda>i. filter (\<lambda>j. j mod k = i) [0..<length xs]) [0..<k])"
    by (simp add: every_nth_filter)
  then have "mset (concat (map (\<lambda>i. every_nth k i xs) [0..<k]))
      = image_mset ((!) xs) (mset (concat (map (\<lambda>i. filter (\<lambda>j. j mod k = i) [0..<length xs]) [0..<k])))"
    by (simp only: map_concat [symmetric] mset_map)
  also have "\<dots> = mset (map ((!) xs) [0..<length xs])" by (simp only: indices mset_map)
  finally show ?thesis by (simp only: map_nth)
qed

lemma length_every_nth [simp]: "length (every_nth k i xs) = (length xs - i + k - 1) div k"
  by (simp add: every_nth_def)

lemma set_every_nth: "i < k \<Longrightarrow> set (every_nth k i xs) \<subseteq> set xs"
  by (auto simp: every_nth_filter)

lemma group_count:
  assumes "cdiv_law cdiv" and "0 < n" and "0 < size'"
  defines "k \<equiv> nat (cdiv (int n) (int size'))"
  shows "0 < k" and "k \<le> n" and "n \<le> k * size'" and "(k - 1) * size' < n"
proof -
  define c where "c = cdiv (int n) (int size')"
  have c: "c = - ((- int n) div int size')" using assms(1,3) by (simp add: c_def cdiv_law_def)
  have "(- int n) div int size' * int size' \<le> - int n"
    using assms(3) by (simp add: minus_mod_eq_div_mult [symmetric])
  then have upper: "int n \<le> c * int size'" by (simp add: c)
  have "- int n < ((- int n) div int size' + 1) * int size'"
    using assms(3) by (simp add: distrib_right minus_mod_eq_div_mult [symmetric])
  then have lower: "(c - 1) * int size' < int n" by (simp add: c algebra_simps)
  have pos: "0 < c"
  proof (rule ccontr)
    assume "\<not> 0 < c"
    then have "c * int size' \<le> 0" by (simp add: mult_nonpos_nonneg)
    with upper assms(2) show False by simp
  qed
  then have k: "int k = c" by (simp add: k_def c_def)
  show "0 < k" using pos k by simp
  have "(c - 1) * 1 \<le> (c - 1) * int size'" using pos assms(3) by (intro mult_left_mono) simp_all
  with lower k show "k \<le> n" by simp
  from upper have "int n \<le> int (k * size')" by (simp add: k)
  then show "n \<le> k * size'" by (simp only: of_nat_le_iff)
  from lower have "int ((k - 1) * size') < int n" using pos k by (simp add: of_nat_diff)
  then show "(k - 1) * size' < n" by (simp only: of_nat_less_iff)
qed

lemma group_size_bounds:
  assumes "buckets \<noteq> []" and "\<forall>b \<in> set buckets. b \<noteq> []"
  shows "0 < choose_group_size buckets"
    and "\<exists>b \<in> set buckets. choose_group_size buckets = int (length b)"
proof -
  let ?ns = "set (map (int \<circ> length) buckets)"
  have "Min ?ns \<in> ?ns" "Max ?ns \<in> ?ns" using assms(1) by (intro Min_in Max_in; simp)+
  then show "\<exists>b \<in> set buckets. choose_group_size buckets = int (length b)"
    by (auto simp: choose_group_size_def Let_def)
  then show "0 < choose_group_size buckets" using assms(2) by auto
qed

text \<open>
  C37. The layers of a hybrid model are split evenly: for buckets of layers that may share a group, the
  groups together hold every layer just as often as the buckets do; every group holds layers of one
  bucket only, at least one and at most as many as the group size, which is the size of one of the
  buckets; and no bucket is split into more groups than that size makes necessary.
\<close>

theorem layers_split_evenly:
  assumes "cdiv_law cdiv" and "buckets \<noteq> []" and "\<forall>b \<in> set buckets. b \<noteq> []"
  shows "mset (concat (split_layers cdiv buckets)) = mset (concat buckets)
    \<and> (\<forall>g \<in> set (split_layers cdiv buckets). g \<noteq> [] \<and> int (length g) \<le> choose_group_size buckets
         \<and> (\<exists>b \<in> set buckets. set g \<subseteq> set b))
    \<and> (\<exists>b \<in> set buckets. choose_group_size buckets = int (length b))
    \<and> (\<exists>counts. length (split_layers cdiv buckets) = sum_list (map counts buckets)
         \<and> (\<forall>b \<in> set buckets. (counts b - 1) * nat (choose_group_size buckets) < length b))"
proof (intro conjI)
  let ?gs = "nat (choose_group_size buckets)"
  let ?k = "\<lambda>b. nat (cdiv (int (length b)) (choose_group_size buckets))"
  have gs: "0 < ?gs" "choose_group_size buckets = int ?gs" using group_size_bounds(1) [OF assms(2,3)] by simp_all
  have k: "0 < ?k b" "?k b \<le> length b" "length b \<le> ?k b * ?gs" "(?k b - 1) * ?gs < length b" if "b \<in> set buckets" for b
    using group_count [OF assms(1) _ gs(1), of "length b"] that assms(3) gs by auto
  have split: "split_layers cdiv bs = concat (map (\<lambda>b. map (\<lambda>i. every_nth (?k b) i b) [0..<?k b]) bs)"
    if "bs = buckets" for bs using that by (simp add: split_layers_def Let_def)
  have "mset (concat (concat (map (\<lambda>b. map (\<lambda>i. every_nth (?k b) i b) [0..<?k b]) bs))) = mset (concat bs)"
    if "set bs \<subseteq> set buckets" for bs
    using that
  proof (induction bs)
    case (Cons b bs)
    then have "0 < ?k b" using k(1) [of b] by simp
    from every_nth_partition [OF this, of b] Cons show ?case by simp
  qed simp
  then show "mset (concat (split_layers cdiv buckets)) = mset (concat buckets)" by (simp add: split)
  show "\<forall>g \<in> set (split_layers cdiv buckets). g \<noteq> [] \<and> int (length g) \<le> choose_group_size buckets
         \<and> (\<exists>b \<in> set buckets. set g \<subseteq> set b)"
  proof
    fix g assume "g \<in> set (split_layers cdiv buckets)"
    then obtain b i where b: "b \<in> set buckets" "i < ?k b" "g = every_nth (?k b) i b" by (auto simp: split)
    note kb = k [OF b(1)]
    have len: "length g = (length b - i + ?k b - 1) div ?k b" by (simp add: b(3))
    have "1 * ?k b \<le> length b - i + ?k b - 1" using b(2) kb(2) by simp
    then have "1 \<le> length g" unfolding len using kb(1) by (simp only: less_eq_div_iff_mult_less_eq)
    moreover have "length g < ?gs + 1"
    proof -
      have "length b - i + ?k b - 1 < (?gs + 1) * ?k b"
        using kb(1,3) by (simp add: algebra_simps)
      then show ?thesis unfolding len using kb(1) by (simp only: div_less_iff_less_mult)
    qed
    ultimately have "g \<noteq> []" "int (length g) \<le> int ?gs" by (auto simp del: length_every_nth)
    moreover have "set g \<subseteq> set b" using set_every_nth [OF b(2), of b] by (simp add: b(3))
    ultimately show "g \<noteq> [] \<and> int (length g) \<le> choose_group_size buckets \<and> (\<exists>b \<in> set buckets. set g \<subseteq> set b)"
      using b(1) gs(2) by metis
  qed
  show "\<exists>b \<in> set buckets. choose_group_size buckets = int (length b)" by (rule group_size_bounds(2) [OF assms(2,3)])
  show "\<exists>counts. length (split_layers cdiv buckets) = sum_list (map counts buckets)
         \<and> (\<forall>b \<in> set buckets. (counts b - 1) * ?gs < length b)"
    using k(4) by (intro exI [of _ ?k]) (auto simp: split length_concat comp_def)
qed

section \<open>Pages are unified\<close>

lemma unify_layer_page:
  "unify_layer ru alignment by_stride max_page s = Inr s' \<Longrightarrow> page_size_bytes s' = Inr max_page"
  by (auto simp: unify_layer_def res_simps split: if_splits)

lemma alignment_block_size [simp]: "pg_block_size (apply_alignment_padding ru a s) = pg_block_size s"
  by (auto simp: apply_alignment_padding_def Let_def split: option.splits)

lemma unify_layer_block_size:
  "unify_layer ru alignment by_stride max_page s = Inr s' \<Longrightarrow> pg_block_size s dvd pg_block_size s'"
  by (auto simp: unify_layer_def res_simps Let_def split: if_splits)

lemma unify_layer_error:
  assumes "unify_layer ru alignment by_stride max_page s = Inl e" and "page_size_bytes s = Inr page" and "0 < page"
  shows "e = AssertionError \<or> e = NotImplementedError"
proof -
  have error: "e = AssertionError" if "page_size_bytes x = Inl e" for x
    using that by (auto simp: page_size_bytes_def res_simps split: option.splits if_splits)
  show ?thesis using assms(1) error assms(2,3)
    by (auto simp: unify_layer_def res_simps py_mod_def split: if_splits)
qed

text \<open>A layer whose page scales with its block, or can be padded\<close>

definition unifiable :: "(page_spec \<Rightarrow> int option) \<Rightarrow> int \<Rightarrow> page_spec \<Rightarrow> bool" where
  "unifiable alignment max_page s \<longleftrightarrow>
     (\<exists>page. page_size_bytes s = Inr page \<and> 0 < page \<and> page \<le> max_page
        \<and> (pg_kind s = MambaSpec \<or> (pg_page_size_padded s = None \<and> pg_tokens_per_state s = 1 \<and> alignment s = None
              \<and> (\<not> is_mla s \<or> page dvd max_page))))"

lemma unify_layer_ok:
  assumes "unifiable alignment max_page s"
  shows "\<exists>s'. unify_layer ru alignment by_stride max_page s = Inr s'"
proof -
  obtain page where page: "page_size_bytes s = Inr page" "0 < page" "page \<le> max_page"
    and kind: "pg_kind s = MambaSpec \<or> (pg_page_size_padded s = None \<and> pg_tokens_per_state s = 1 \<and> alignment s = None
              \<and> (\<not> is_mla s \<or> page dvd max_page))"
    using assms by (auto simp: unifiable_def)
  have pad: "page_size_bytes (s\<lparr>pg_page_size_padded := Some max_page\<rparr>) = Inr max_page" if "\<not> is_mla s"
  proof -
    have "unpadded_page_size_bytes s \<le> page"
      using page(1) that by (auto simp: page_size_bytes_def split: option.splits if_splits)
    moreover have "unpadded_page_size_bytes (s\<lparr>pg_page_size_padded := Some max_page\<rparr>) = unpadded_page_size_bytes s"
      by (simp add: unpadded_page_size_bytes_def get_num_kernel_states_def)
    moreover have "\<not> is_mla (s\<lparr>pg_page_size_padded := Some max_page\<rparr>)" using that by (simp add: is_mla_def)
    ultimately show ?thesis using page(3) by (simp add: page_size_bytes_def)
  qed
  show ?thesis
  proof (cases "pg_kind s = MambaSpec")
    case True
    then have "\<not> is_mla s" by (simp add: is_mla_def)
    with True page(1) pad show ?thesis by (simp add: unify_layer_def)
  next
    case False
    with kind have attention: "pg_page_size_padded s = None" "pg_tokens_per_state s = 1" "alignment s = None"
        "\<not> is_mla s \<or> page dvd max_page" by auto
    show ?thesis
    proof (cases "page dvd max_page")
      case True
      then obtain r where r: "max_page = page * r" by (elim dvdE)
      have div: "max_page div page = r" using page(2) r by simp
      let ?s = "s\<lparr>pg_block_size := pg_block_size s * r\<rparr>"
      have "is_mla ?s \<longleftrightarrow> is_mla s" by (simp add: is_mla_def)
      moreover have "unpadded_page_size_bytes ?s = unpadded_page_size_bytes s * r"
        using attention(2) False by (simp add: unpadded_page_size_bytes_def get_num_kernel_states_def del: of_int_mult)
      ultimately have "page_size_bytes ?s = Inr (page * r)"
        using page(1) attention(1) by (auto simp: page_size_bytes_def algebra_simps split: if_splits)
      then show ?thesis
        using page(1,2) True False attention r div
        by (simp add: unify_layer_def py_mod_def apply_alignment_padding_def dvd_eq_mod_eq_0)
    next
      case no: False
      with attention(4) have "\<not> is_mla s" by blast
      with no page pad attention(3) False show ?thesis
        by (simp add: unify_layer_def py_mod_def apply_alignment_padding_def dvd_eq_mod_eq_0)
    qed
  qed
qed

lemma map_res_cases:
  "case map_res f xs of Inl e \<Rightarrow> \<exists>x \<in> set xs. f x = Inl e | Inr ys \<Rightarrow> list_all2 (\<lambda>x y. f x = Inr y) xs ys"
  by (induction xs) (auto split: sum.splits simp: res_simps)

text \<open>
  C36. Unifying page sizes does what it promises: for layers with positive pages, the result has the same
  layers in the same order, all of them with the page size of the largest, and block sizes that are
  multiples of the old ones.  It fails only with \<open>NotImplementedError\<close>, for a page that neither divides
  the largest nor can be padded, or with the \<open>AssertionError\<close> of its own check; and it does not fail when
  every layer holds recurrent states or has an unpadded page of one state per token that, for MLA,
  divides the largest.
\<close>

theorem page_sizes_unified:
  assumes "\<forall>(n, s) \<in> set specs. \<exists>page. page_size_bytes s = Inr page \<and> 0 < page"
  shows "let max_page = Max ((page_of \<circ> snd) ` set specs)
    in case unify_kv_cache_spec_page_size ru alignment by_stride specs of
         Inl e \<Rightarrow> (e = AssertionError \<or> e = NotImplementedError)
           \<and> \<not> (\<forall>(n, s) \<in> set specs. unifiable alignment max_page s)
       | Inr specs' \<Rightarrow> list_all2 (\<lambda>(n, s) (n', s'). n' = n \<and> page_size_bytes s' = Inr max_page
           \<and> pg_block_size s dvd pg_block_size s') specs specs'"
proof -
  let ?max = "Max ((page_of \<circ> snd) ` set specs)"
  have page: "page_size_bytes s = Inr (page_of s) \<and> 0 < page_of s" if "(n, s) \<in> set specs" for n s
    using assms that by (fastforce simp: page_of_def)
  have pages: "map_res (\<lambda>(_, s). page_size_bytes s) specs = Inr (map (page_of \<circ> snd) specs)"
    using page by (intro map_res_Inr) auto
  let ?f = "\<lambda>(n, s). bind_res (unify_layer ru alignment by_stride ?max s) (\<lambda>s'. Inr (n, s'))"
  have run: "unify_kv_cache_spec_page_size ru alignment by_stride specs =
      (if card ((page_of \<circ> snd) ` set specs) \<le> 1 then Inr specs else map_res ?f specs)"
    by (simp add: unify_kv_cache_spec_page_size_def pages)
  show ?thesis
    unfolding Let_def
  proof (cases "card ((page_of \<circ> snd) ` set specs) \<le> 1")
    case True
    have "page_of s = ?max" if "(n, s) \<in> set specs" for n s
    proof -
      have "page_of s \<in> (page_of \<circ> snd) ` set specs" using that by force
      moreover have "?max \<in> (page_of \<circ> snd) ` set specs" using that by (intro Max_in) auto
      moreover have "\<forall>a \<in> (page_of \<circ> snd) ` set specs. \<forall>b \<in> (page_of \<circ> snd) ` set specs. a = b"
        using True by (simp only: One_nat_def card_le_Suc0_iff_eq finite_imageI finite_set)
      ultimately show ?thesis by blast
    qed
    then have "list_all2 (\<lambda>(n, s) (n', s'). n' = n \<and> page_size_bytes s' = Inr ?max
           \<and> pg_block_size s dvd pg_block_size s') specs specs"
      using page by (auto simp: list_all2_same)
    then show "case unify_kv_cache_spec_page_size ru alignment by_stride specs of
         Inl e \<Rightarrow> (e = AssertionError \<or> e = NotImplementedError)
           \<and> \<not> (\<forall>(n, s) \<in> set specs. unifiable alignment ?max s)
       | Inr specs' \<Rightarrow> list_all2 (\<lambda>(n, s) (n', s'). n' = n \<and> page_size_bytes s' = Inr ?max
           \<and> pg_block_size s dvd pg_block_size s') specs specs'"
      using True by (simp add: run)
  next
    case False
    show "case unify_kv_cache_spec_page_size ru alignment by_stride specs of
         Inl e \<Rightarrow> (e = AssertionError \<or> e = NotImplementedError)
           \<and> \<not> (\<forall>(n, s) \<in> set specs. unifiable alignment ?max s)
       | Inr specs' \<Rightarrow> list_all2 (\<lambda>(n, s) (n', s'). n' = n \<and> page_size_bytes s' = Inr ?max
           \<and> pg_block_size s dvd pg_block_size s') specs specs'"
    proof (cases "map_res ?f specs")
      case (Inl e)
      with map_res_cases [of specs ?f] obtain n s where s: "(n, s) \<in> set specs" "unify_layer ru alignment by_stride ?max s = Inl e"
        by (auto simp: res_simps)
      then have "\<not> unifiable alignment ?max s" using unify_layer_ok [of alignment ?max s ru by_stride] by auto
      moreover have "e = AssertionError \<or> e = NotImplementedError"
        using unify_layer_error [OF s(2)] page [OF s(1)] by blast
      ultimately show ?thesis using s(1) False Inl by (auto simp: run)
    next
      case (Inr specs')
      with map_res_cases [of specs ?f] have "list_all2 (\<lambda>x y. ?f x = Inr y) specs specs'" by simp
      then have "list_all2 (\<lambda>(n, s) (n', s'). n' = n \<and> page_size_bytes s' = Inr ?max
           \<and> pg_block_size s dvd pg_block_size s') specs specs'"
      proof (rule list_all2_mono)
        fix x y assume xy: "?f x = Inr y"
        obtain n s where x: "x = (n, s)" by fastforce
        from xy obtain s' where s': "unify_layer ru alignment by_stride ?max s = Inr s'" "y = (n, s')"
          by (auto simp: x res_simps)
        show "(\<lambda>(n, s) (n', s'). n' = n \<and> page_size_bytes s' = Inr ?max \<and> pg_block_size s dvd pg_block_size s') x y"
          using unify_layer_page [OF s'(1)] unify_layer_block_size [OF s'(1)] by (simp add: x s'(2))
      qed
      then show ?thesis using False Inr by (simp add: run)
    qed
  qed
qed

section \<open>The best chunk\<close>

definition as_good :: "int list \<Rightarrow> int \<Rightarrow> int \<Rightarrow> bool" where
  "as_good vs d x \<longleftrightarrow> pad_of vs d < pad_of vs x \<or> (pad_of vs d = pad_of vs x \<and> x \<le> d)"

lemma fold_better_chunk:
  "\<exists>d \<in> insert b (set xs). fold (better_chunk vs) xs (b, Some (pad_of vs b)) = (d, Some (pad_of vs d))
     \<and> (\<forall>x \<in> insert b (set xs). as_good vs d x)"
proof (induction xs arbitrary: b)
  case Nil
  then show ?case by (simp add: as_good_def)
next
  case (Cons y xs)
  let ?c = "if pad_of vs y < pad_of vs b \<or> (pad_of vs y = pad_of vs b \<and> y > b) then y else b"
  have step: "better_chunk vs y (b, Some (pad_of vs b)) = (?c, Some (pad_of vs ?c))"
    by (simp add: better_chunk_def Let_def)
  obtain d where d: "d \<in> insert ?c (set xs)" "fold (better_chunk vs) xs (?c, Some (pad_of vs ?c)) = (d, Some (pad_of vs d))"
    "\<forall>x \<in> insert ?c (set xs). as_good vs d x" using Cons.IH [of ?c] by blast
  have "as_good vs d b \<and> as_good vs d y" using d(3) by (auto simp: as_good_def split: if_splits)
  then show ?case using d step by (intro bexI [of _ d]) (auto split: if_splits)
qed

lemma nth_rev_upto:
  assumes "j < nat m"
  shows "rev [1..m] ! j = m - int j"
proof -
  have k: "int (nat m - Suc j) = m - 1 - int j" using assms by (simp add: of_nat_diff Suc_le_eq)
  then have "[1..m] ! (nat m - Suc j) = 1 + int (nat m - Suc j)" by (intro nth_upto) simp
  then show ?thesis using assms k by (simp add: rev_nth)
qed

lemma largest_divisor:
  assumes "0 < v" "0 < limit"
  shows "largest_divisor_at_most v limit dvd v" "0 < largest_divisor_at_most v limit" "largest_divisor_at_most v limit \<le> limit"
    and "c dvd v \<Longrightarrow> 0 < c \<Longrightarrow> c \<le> limit \<Longrightarrow> c \<le> largest_divisor_at_most v limit"
proof -
  have one: "1 \<in> set (rev [1..min v limit])" using assms by simp
  then obtain d where d: "find (\<lambda>c. v mod c = 0) (rev [1..min v limit]) = Some d"
    by (cases "find (\<lambda>c. v mod c = 0) (rev [1..min v limit])") (auto simp: find_None_iff)
  then obtain i where i: "i < length (rev [1..min v limit])" "d = rev [1..min v limit] ! i" "v mod d = 0"
    "\<forall>j < i. v mod (rev [1..min v limit] ! j) \<noteq> 0" by (auto simp: find_Some_iff)
  have result: "largest_divisor_at_most v limit = d" by (simp add: largest_divisor_at_most_def d)
  have "d \<in> set (rev [1..min v limit])" using i(1,2) nth_mem by blast
  then show "largest_divisor_at_most v limit dvd v" "0 < largest_divisor_at_most v limit"
    "largest_divisor_at_most v limit \<le> limit" using i(3) by (auto simp: result dvd_eq_mod_eq_0)
  assume c: "c dvd v" "0 < c" "c \<le> limit"
  note nth = nth_rev_upto [of _ "min v limit"]
  show "c \<le> largest_divisor_at_most v limit"
  proof (rule ccontr)
    assume "\<not> ?thesis"
    then have "d < c" by (simp add: result)
    have "c \<le> v" using c(1) assms(1) by (rule zdvd_imp_le)
    with c(3) have le: "c \<le> min v limit" by simp
    have i_nat: "i < nat (min v limit)" using i(1) by simp
    let ?j = "nat (min v limit - c)"
    have "0 \<le> min v limit - c" "min v limit - c < min v limit" using c(2) le by linarith+
    then have j: "?j < nat (min v limit)" by (simp only: nat_less_eq_zless)
    have "rev [1..min v limit] ! ?j = c" using nth [OF j] le by simp
    moreover have "?j < i"
    proof -
      have "min v limit - c < int i" using nth [OF i_nat] i(2) \<open>d < c\<close> by linarith
      then show ?thesis using \<open>0 \<le> min v limit - c\<close> by (simp only: nat_less_iff)
    qed
    ultimately show False using i(4) c(1) by (auto simp: dvd_eq_mod_eq_0)
  qed
qed

text \<open>
  The chunk of layers for models that mix page sizes is the best: for positive counts the search
  returns, of all chunks from the lower bound to the largest count, the one that pads least, and the
  largest of these; when the lower bound exceeds every count it is the lower bound.
\<close>

theorem approximate_gcd_optimal:
  assumes "vs \<noteq> []" and "\<forall>x \<in> set vs. 0 < x"
  shows "let min_d = max 1 (case lower_bound of Some b \<Rightarrow> b | None \<Rightarrow> 1)
    in \<exists>d. approximate_gcd vs lower_bound = Inr d \<and> min_d \<le> d
      \<and> (if min_d \<le> Max (set vs) then d \<le> Max (set vs) \<and> (\<forall>x. min_d \<le> x \<and> x \<le> Max (set vs) \<longrightarrow> as_good vs d x)
         else d = min_d)"
proof -
  define min_d where "min_d = max 1 (case lower_bound of Some b \<Rightarrow> b | None \<Rightarrow> 1)"
  define max_d where "max_d = Max (set vs)"
  have run: "approximate_gcd vs lower_bound = Inr (if min_d > max_d then min_d
      else fst (fold (better_chunk vs) [min_d..max_d] (min_d, None)))"
    using assms by (auto simp: approximate_gcd_def min_d_def max_d_def Let_def not_le)
  have "\<exists>d. approximate_gcd vs lower_bound = Inr d \<and> min_d \<le> d
      \<and> (if min_d \<le> max_d then d \<le> max_d \<and> (\<forall>x. min_d \<le> x \<and> x \<le> max_d \<longrightarrow> as_good vs d x) else d = min_d)"
  proof (cases "min_d \<le> max_d")
    case True
    have "fold (better_chunk vs) [min_d..max_d] (min_d, None)
        = fold (better_chunk vs) [min_d + 1..max_d] (min_d, Some (pad_of vs min_d))"
      using True by (subst upto.simps) (simp add: better_chunk_def Let_def)
    with fold_better_chunk [of min_d "[min_d + 1..max_d]" vs] obtain d where
      d: "d \<in> insert min_d (set [min_d + 1..max_d])" "fold (better_chunk vs) [min_d..max_d] (min_d, None) = (d, Some (pad_of vs d))"
        "\<forall>x \<in> insert min_d (set [min_d + 1..max_d]). as_good vs d x" by auto
    have "as_good vs d x" if "min_d \<le> x" "x \<le> max_d" for x
    proof -
      have "x \<in> insert min_d (set [min_d + 1..max_d])" using that by auto
      with d(3) show ?thesis by blast
    qed
    with d(1,2) True show ?thesis by (auto simp: run)
  next
    case False
    then show ?thesis by (simp add: run)
  qed
  then show ?thesis by (simp only: Let_def min_d_def max_d_def)
qed

section \<open>Examples\<close>

definition sample_kv :: "spec_kind \<Rightarrow> int \<Rightarrow> kv_spec" where
  "sample_kv kind bs = \<lparr>sp_kind = kind, sp_block_size = bs, sp_dcp_replicated = False, sp_sliding_window = 8,
     sp_extra_retained_tokens = 0, sp_attention_chunk_size = 8, sp_rswa_window = 0, sp_mamba_cache_mode = ''align'',
     sp_num_speculative_blocks = 0, sp_num_prefill_checkpoint_blocks = 0, sp_precision = 0, sp_layout = []\<rparr>"

lemma block_sizes_fit_together_witness:
  "resolve_kv_cache_block_sizes \<lparr>be_cache_block_size = 4, be_dcp_world_size = 2, be_enable_prefix_caching = True,
       be_connector = False, be_prefix_match_unit = None\<rparr> [sample_kv FullAttentionSpec 4, sample_kv MambaSpec 12] = Inr (24, 4)
   \<and> (4 :: int) dvd 24"
proof -
  let ?env = "\<lparr>be_cache_block_size = 4, be_dcp_world_size = 2, be_enable_prefix_caching = True,
       be_connector = False, be_prefix_match_unit = None\<rparr>"
  let ?specs = "[sample_kv FullAttentionSpec 4, sample_kv MambaSpec 12]"
  have run: "resolve_kv_cache_block_sizes ?env ?specs = Inr (24, 4)" by code_simp
  have "2 \<le> length ?specs" "\<forall>s \<in> set ?specs. 0 < group_block_size (be_dcp_world_size ?env) s"
    "\<forall>u. be_prefix_match_unit ?env = Some u \<longrightarrow> 0 < u"
    by (simp_all add: sample_kv_def group_block_size_def)
  from block_sizes_fit_together [OF this] show ?thesis unfolding run by (auto simp: Let_def)
qed

lemma cdiv_example: "cdiv_law (\<lambda>a b. - ((- a) div b))"
  by (simp add: cdiv_law_def)

lemma estimated_length_is_maximal_witness:
  "\<exists>n used. estimate_max_model_len (\<lambda>a b. - ((- a) div b)) \<lparr>sz_max_model_len = 100, sz_dcp_world_size = 1,
       sz_max_in_flight_tokens = 4, sz_mamba_cache_mode = ''align'', sz_max_num_encoder_input_tokens = 0\<rparr>
     [\<lparr>lc_spec = sample_kv FullAttentionSpec 4, lc_page = sample_page_spec FullAttentionSpec 1 4 None\<rparr>] 100 = Inr n
     \<and> n \<le> 100 \<and> (0 < n \<longrightarrow> used n \<le> (100 :: int))"
proof -
  let ?env = "\<lparr>sz_max_model_len = 100, sz_dcp_world_size = 1, sz_max_in_flight_tokens = 4,
       sz_mamba_cache_mode = ''align'', sz_max_num_encoder_input_tokens = 0\<rparr>"
  let ?layers = "[\<lparr>lc_spec = sample_kv FullAttentionSpec 4, lc_page = sample_page_spec FullAttentionSpec 1 4 None\<rparr>]"
  have ok: "\<forall>l \<in> set ?layers. layer_ok ?env l"
    by (simp add: layer_ok_def sample_kv_def sample_page_spec_def page_size_bytes_def unpadded_page_size_bytes_def
        get_num_kernel_states_def is_mla_def)
  have "1 \<le> sz_dcp_world_size ?env" "1 \<le> sz_max_model_len ?env" by simp_all
  from estimated_length_is_maximal [OF ok cdiv_example this, of 100] show ?thesis by auto
qed

lemma layers_split_evenly_witness:
  "mset (concat (split_layers (\<lambda>a b. - ((- a) div b)) [[''a'', ''b''], [''c'', ''d'', ''e'', ''f'', ''g'']]))
     = mset [''a'', ''b'', ''c'', ''d'', ''e'', ''f'', ''g'']
   \<and> split_layers (\<lambda>a b. - ((- a) div b)) [[''a'', ''b''], [''c'', ''d'', ''e'', ''f'', ''g'']]
     = [[''a'', ''b''], [''c'', ''f''], [''d'', ''g''], [''e'']]"
proof -
  let ?buckets = "[[''a'', ''b''], [''c'', ''d'', ''e'', ''f'', ''g'']]"
  have "?buckets \<noteq> []" "\<forall>b \<in> set ?buckets. b \<noteq> []" by simp_all
  from layers_split_evenly [OF cdiv_example this]
  have "mset (concat (split_layers (\<lambda>a b. - ((- a) div b)) ?buckets)) = mset (concat ?buckets)" by blast
  moreover have "split_layers (\<lambda>a b. - ((- a) div b)) ?buckets = [[''a'', ''b''], [''c'', ''f''], [''d'', ''g''], [''e'']]"
    by code_simp
  ultimately show ?thesis by simp
qed

lemma approximate_gcd_optimal_witness:
  "approximate_gcd [11, 21] (Some 11) = Inr 11 \<and> as_good [11, 21] 11 21"
proof -
  have run: "approximate_gcd [11, 21] (Some 11) = Inr 11" by code_simp
  have "[11, 21] \<noteq> ([] :: int list)" "\<forall>x \<in> set [11, 21 :: int]. 0 < x" by simp_all
  from approximate_gcd_optimal [OF this, of "Some 11"] show ?thesis by (simp add: run)
qed

lemma page_sizes_unified_witness:
  "\<exists>specs'. unify_kv_cache_spec_page_size (\<lambda>x m. x) (\<lambda>_. None) (\<lambda>_. False)
       [(''m'', sample_page_spec MLAAttentionSpec 1 4 None), (''d'', sample_page_spec SlidingWindowSpec 1 2 None)] = Inr specs'
     \<and> (\<forall>x \<in> set specs'. page_size_bytes (snd x) = Inr 16)"
proof -
  let ?specs = "[(''m'', sample_page_spec MLAAttentionSpec 1 4 None), (''d'', sample_page_spec SlidingWindowSpec 1 2 None)]"
  have pages: "\<forall>(n, s) \<in> set ?specs. \<exists>page. page_size_bytes s = Inr page \<and> 0 < page" by (simp add: sample_pages)
  have max: "Max ((page_of \<circ> snd) ` set ?specs) = 16" by (simp add: sample_page_of)
  have "\<forall>(n, s) \<in> set ?specs. unifiable (\<lambda>_. None) 16 s"
    by (simp add: unifiable_def sample_pages) (simp add: sample_page_spec_def)
  with page_sizes_unified [OF pages, where ru = "\<lambda>x m. x" and alignment = "\<lambda>_. None" and by_stride = "\<lambda>_. False"]
  obtain specs' where s: "unify_kv_cache_spec_page_size (\<lambda>x m. x) (\<lambda>_. None) (\<lambda>_. False) ?specs = Inr specs'"
    and all: "list_all2 (\<lambda>(n, s) (n', s'). n' = n \<and> page_size_bytes s' = Inr 16 \<and> pg_block_size s dvd pg_block_size s') ?specs specs'"
    unfolding Let_def max by (auto split: sum.splits)
  from all have "\<forall>x \<in> set specs'. page_size_bytes (snd x) = Inr 16" by (auto simp: list_all2_Cons1)
  with s show ?thesis by blast
qed

text \<open>
  A padded page that divides the largest page is not padded further: its block grows while the padding
  stays, and the check of the function fails.
\<close>

lemma padded_divisor_fails:
  "unify_kv_cache_spec_page_size (\<lambda>x m. x) (\<lambda>_. None) (\<lambda>_. False)
     [(''m'', sample_page_spec MLAAttentionSpec 1 4 None), (''d'', sample_page_spec SlidingWindowSpec 1 1 (Some 8))] = Inl AssertionError"
proof -
  have pages: "page_size_bytes (sample_page_spec SlidingWindowSpec 1 1 (Some 8)) = Inr 8"
    by (simp add: sample_page_spec_def page_size_bytes_def unpadded_page_size_bytes_def get_num_kernel_states_def is_mla_def)
  have grown: "page_size_bytes ((sample_page_spec SlidingWindowSpec 1 1 (Some 8))\<lparr>pg_block_size := 8\<rparr>) = Inr 8"
    by (simp add: sample_page_spec_def page_size_bytes_def unpadded_page_size_bytes_def get_num_kernel_states_def is_mla_def)
  have fields: "pg_kind (sample_page_spec SlidingWindowSpec 1 1 (Some 8)) = SlidingWindowSpec"
    "pg_block_size (sample_page_spec SlidingWindowSpec 1 1 (Some 8)) = 4" by (simp_all add: sample_page_spec_def)
  show ?thesis
    by (simp add: unify_kv_cache_spec_page_size_def unify_layer_def sample_pages pages grown fields py_mod_def
        apply_alignment_padding_def)
qed

end
