(* ===== verification/LayerAllocation.thy ===== *)
theory LayerAllocation
  imports Prelude Complex_Main
begin

text \<open>
  How the bits of a layer are chosen by the round-7 and round-10 encoders, \<open>reproducibility/r10/r7_encoder\<close>:
  the geometry of \<open>constants.py\<close>, decimals, the checks of a probe (\<open>build_curves\<close>) and the exact dynamic
  programme with its back-pointers in \<open>allocation.py\<close> and \<open>r10_allocation.py\<close>.

  A layer has 768 tensors of 3, 4 or 5 bits; 384 upgrades of one bit bring the average to exactly 3.5.
  A Python \<open>Decimal\<close> that is finite is a signed coefficient and an exponent; exponents are unbounded here,
  where Python stops near one million digits.
\<close>

section \<open>Geometry\<close>

abbreviation num_experts :: int where "num_experts \<equiv> 256"
abbreviation floor_bits :: int where "floor_bits \<equiv> 3"
abbreviation upgrade_units :: nat where "upgrade_units \<equiv> 384"
abbreviation target_bit_units :: int where "target_bit_units \<equiv> 2688"
abbreviation tensors_per_layer :: nat where "tensors_per_layer \<equiv> 768"

definition projections :: "string list" where
  "projections = [''gate_proj'', ''up_proj'', ''down_proj'']"

definition allowed_bits :: "int list" where
  "allowed_bits = [3, 4, 5]"

record tensor_id =
  ti_layer :: int
  ti_expert :: int
  ti_projection :: string

definition new_tensor_id :: "int \<Rightarrow> int \<Rightarrow> string \<Rightarrow> tensor_id res" where
  "new_tensor_id layer expert projection =
     (if \<not> (3 \<le> layer \<and> layer \<le> 77) then Inl ValueError
      else if \<not> (0 \<le> expert \<and> expert < num_experts) then Inl ValueError
      else if projection \<notin> set projections then Inl ValueError
      else Inr \<lparr>ti_layer = layer, ti_expert = expert, ti_projection = projection\<rparr>)"

definition all_layer_tensor_ids :: "int \<Rightarrow> tensor_id list res" where
  "all_layer_tensor_ids layer =
     map_res (\<lambda>(expert, projection). new_tensor_id layer expert projection)
       (concat (map (\<lambda>expert. map (\<lambda>projection. (expert, projection)) projections) [0..255]))"

text \<open>\<open>f"L{layer:02d}/E{expert:03d}/{projection}"\<close>\<close>

fun digits :: "nat \<Rightarrow> string" where
  "digits n = (if n < 10 then [char_of (48 + n)] else digits (n div 10) @ [char_of (48 + n mod 10)])"

declare digits.simps [simp del]

definition zero_padded :: "nat \<Rightarrow> nat \<Rightarrow> string" where
  "zero_padded width n = replicate (width - length (digits n)) (CHR ''0'') @ digits n"

definition tensor_key :: "tensor_id \<Rightarrow> string" where
  "tensor_key t = ''L'' @ zero_padded 2 (nat (ti_layer t)) @ ''/E'' @ zero_padded 3 (nat (ti_expert t)) @ ''/'' @ ti_projection t"

section \<open>Decimals\<close>

datatype decimal = Dec (coefficient: int) (exponent: int)

definition dec_value :: "decimal \<Rightarrow> rat" where
  "dec_value d = (if exponent d \<ge> 0 then of_int (coefficient d * 10 ^ nat (exponent d))
     else of_int (coefficient d) / of_int (10 ^ nat (- exponent d)))"

text \<open>\<open>n / d\<close> rounded to the nearest integer, ties to even\<close>

definition round_half_even :: "int \<Rightarrow> int \<Rightarrow> int" where
  "round_half_even n d =
     (let q = n div d; r = n mod d in if 2 * r < d \<or> (2 * r = d \<and> even q) then q else q + 1)"

text \<open>Rounding to the precision of the context, \<open>context.prec = 50\<close>\<close>

definition dec_fix :: "decimal \<Rightarrow> decimal" where
  "dec_fix d =
     (let k = length (digits (nat \<bar>coefficient d\<bar>)) - 50
      in if k = 0 then d else Dec (round_half_even (coefficient d) (10 ^ k)) (exponent d + int k))"

definition dec_sub :: "decimal \<Rightarrow> decimal \<Rightarrow> decimal" where
  "dec_sub a b =
     (let e = min (exponent a) (exponent b)
      in dec_fix (Dec (coefficient a * 10 ^ nat (exponent a - e) - coefficient b * 10 ^ nat (exponent b - e)) e))"

definition dec_mul :: "decimal \<Rightarrow> decimal \<Rightarrow> decimal" where
  "dec_mul a b = dec_fix (Dec (coefficient a * coefficient b) (exponent a + exponent b))"

text \<open>\<open>int(d.to_integral_value(rounding=ROUND_HALF_EVEN))\<close>\<close>

definition dec_to_integral :: "decimal \<Rightarrow> int" where
  "dec_to_integral d =
     (if exponent d \<ge> 0 then coefficient d * 10 ^ nat (exponent d)
      else round_half_even (coefficient d) (10 ^ nat (- exponent d)))"

text \<open>
  \<open>Decimal(text)\<close> for a finite number: surrounding white space and all underscores are ignored; what is
  not a finite number ends in \<open>ValueError\<close> in \<open>_decimal\<close>, whether Python refuses it or reads an infinity
  or a NaN.
\<close>

definition is_space :: "char \<Rightarrow> bool" where
  "is_space c \<longleftrightarrow> (let n = (of_char c :: nat) in (9 \<le> n \<and> n \<le> 13) \<or> (28 \<le> n \<and> n \<le> 32) \<or> n = 133 \<or> n = 160)"

definition is_digit :: "char \<Rightarrow> bool" where
  "is_digit c \<longleftrightarrow> 48 \<le> (of_char c :: nat) \<and> (of_char c :: nat) \<le> 57"

definition digits_value :: "string \<Rightarrow> nat" where
  "digits_value s = foldl (\<lambda>n c. 10 * n + (of_char c - 48)) 0 s"

definition parse_sign :: "string \<Rightarrow> int \<times> string" where
  "parse_sign s = (case s of [] \<Rightarrow> (1, []) | c # r \<Rightarrow>
     if c = CHR ''-'' then (- 1, r) else if c = CHR ''+'' then (1, r) else (1, s))"

definition parse_exponent :: "string \<Rightarrow> int option" where
  "parse_exponent s = (case s of [] \<Rightarrow> Some 0 | c # r \<Rightarrow>
     if c = CHR ''e'' \<or> c = CHR ''E'' then
       (let (sign, ds) = parse_sign r
        in if ds \<noteq> [] \<and> list_all is_digit ds then Some (sign * int (digits_value ds)) else None)
     else None)"

definition decimal_of_string :: "string \<Rightarrow> decimal res" where
  "decimal_of_string text =
     (let stripped = rev (dropWhile is_space (rev (dropWhile is_space text)));
          (sign, s) = parse_sign (filter (\<lambda>c. c \<noteq> CHR ''_'') stripped);
          whole = takeWhile is_digit s;
          rest = dropWhile is_digit s;
          (fraction, tail) = (if rest \<noteq> [] \<and> hd rest = CHR ''.''
                              then (takeWhile is_digit (tl rest), dropWhile is_digit (tl rest)) else ([], rest))
      in if whole = [] \<and> fraction = [] then Inl ValueError
         else case parse_exponent tail of
                None \<Rightarrow> Inl ValueError
              | Some e \<Rightarrow> Inr (Dec (sign * int (digits_value (whole @ fraction))) (e - int (length fraction))))"

section \<open>The probe of a layer\<close>

record candidate_loss =
  cl_tensor_id :: tensor_id
  cl_bits :: int
  cl_loss :: string
  cl_mass :: string
  cl_roundtrip_sha256 :: string
  cl_gate_up_roundtrip_sha256 :: "string option"

record sensitivity_curve =
  sc_tensor_id :: tensor_id
  sc_mass :: decimal
  sc_loss_by_bits :: "int \<Rightarrow> decimal"
  sc_evidence_hash_by_bits :: "int \<Rightarrow> string"

type_synonym probe_groups = "(string, (int, candidate_loss) pydict) pydict"

definition add_candidate :: "int \<Rightarrow> candidate_loss \<Rightarrow> probe_groups \<Rightarrow> probe_groups res" where
  "add_candidate layer c grouped =
     (let key = tensor_key (cl_tensor_id c); by_bits = dict_get grouped key []
      in if ti_layer (cl_tensor_id c) \<noteq> layer then Inl ValueError
         else if cl_bits c \<notin> set allowed_bits then Inl ValueError
         else if map_of by_bits (cl_bits c) \<noteq> None then Inl ValueError
         else Inr (AList.update key (AList.update (cl_bits c) c by_bits) grouped))"

definition build_curve :: "probe_groups \<Rightarrow> decimal list \<Rightarrow> tensor_id \<Rightarrow> sensitivity_curve res" where
  "build_curve grouped masses t =
     (case map_of grouped (tensor_key t) of
        None \<Rightarrow> Inl ValueError
      | Some by_bits \<Rightarrow>
          if set (map fst by_bits) \<noteq> set allowed_bits then Inl ValueError
          else (let cand = (\<lambda>bits. the (map_of by_bits bits))
            in bind_res (map_res (\<lambda>bits. decimal_of_string (cl_loss (cand bits))) allowed_bits) (\<lambda>losses.
               if \<exists>l \<in> set losses. dec_value l < 0 then Inl ValueError
               else bind_res (map_res (\<lambda>bits. decimal_of_string (cl_mass (cand bits))) allowed_bits) (\<lambda>declared.
                 (let mass = masses ! nat (ti_expert t)
                  in if \<exists>d \<in> set declared. dec_value d \<noteq> dec_value mass then Inl ValueError
                     else if \<exists>bits \<in> set allowed_bits. cl_roundtrip_sha256 (cand bits) = [] then Inl ValueError
                     else if ti_projection t = ''down_proj''
                       \<and> (\<exists>bits \<in> set allowed_bits. case cl_gate_up_roundtrip_sha256 (cand bits) of None \<Rightarrow> True | Some h \<Rightarrow> h = [])
                     then Inl ValueError
                     else Inr \<lparr>sc_tensor_id = t, sc_mass = mass,
                                sc_loss_by_bits = (\<lambda>bits. losses ! nat (bits - floor_bits)),
                                sc_evidence_hash_by_bits = (\<lambda>bits. cl_roundtrip_sha256 (cand bits))\<rparr>)))))"

text \<open>The masses are given as the texts that \<open>format\<close> or \<open>str\<close> makes of them.\<close>

definition build_curves :: "int \<Rightarrow> candidate_loss list \<Rightarrow> string list \<Rightarrow> sensitivity_curve list res" where
  "build_curves layer candidates mass_by_expert =
     bind_res (map_res decimal_of_string mass_by_expert) (\<lambda>masses.
       if int (length masses) \<noteq> num_experts \<or> (\<exists>m \<in> set masses. dec_value m < 0) then Inl ValueError
       else bind_res (fold_res (add_candidate layer) candidates []) (\<lambda>grouped.
         bind_res (all_layer_tensor_ids layer) (\<lambda>ids.
           bind_res (map_res (build_curve grouped masses) ids) (\<lambda>curves.
             if length grouped \<noteq> tensors_per_layer then Inl ValueError else Inr curves))))"

definition gain :: "sensitivity_curve \<Rightarrow> int \<Rightarrow> decimal" where
  "gain curve bits = dec_mul (sc_mass curve) (dec_sub (sc_loss_by_bits curve floor_bits) (sc_loss_by_bits curve bits))"

definition gain_integer :: "sensitivity_curve \<Rightarrow> int \<Rightarrow> int" where
  "gain_integer curve bits = dec_to_integral (dec_mul (gain curve bits) (Dec (10 ^ 15) 0))"

section \<open>The dynamic programme\<close>

text \<open>The scores of the next row, and where they came from\<close>

type_synonym dp_row = "int option list \<times> int list \<times> int list"

definition relax :: "nat \<Rightarrow> (int \<Rightarrow> int) \<Rightarrow> nat \<Rightarrow> int \<Rightarrow> int \<Rightarrow> dp_row \<Rightarrow> dp_row" where
  "relax budget score prior_cost prior_score bits row =
     (let (next_scores, costs, choices) = row;
          new_cost = prior_cost + nat (bits - floor_bits);
          candidate_score = prior_score + score bits;
          better = (next_scores[new_cost := Some candidate_score], costs[new_cost := int prior_cost], choices[new_cost := bits])
      in if new_cost > budget then row
         else case next_scores ! new_cost of
                None \<Rightarrow> better
              | Some incumbent \<Rightarrow> if candidate_score > incumbent then better else row)"

definition next_row :: "nat \<Rightarrow> (int \<Rightarrow> int) \<Rightarrow> int list \<Rightarrow> int option list \<Rightarrow> dp_row" where
  "next_row budget score choices scores =
     fold (\<lambda>(prior_cost, prior_score). case prior_score of
             None \<Rightarrow> id
           | Some s \<Rightarrow> fold (relax budget score prior_cost s) choices)
       (enumerate 0 scores)
       (replicate (budget + 1) None, replicate (budget + 1) (- 1), replicate (budget + 1) 0)"

text \<open>The walk along the back-pointers, from the last tensor to the first\<close>

fun walk_back :: "(int list \<times> int list) list \<Rightarrow> int \<Rightarrow> int list \<Rightarrow> (int list \<times> int) res" where
  "walk_back [] cost selected_reversed = Inr (selected_reversed, cost)"
| "walk_back ((costs, choices) # parents) cost selected_reversed =
     (let bits = choices ! nat cost; prior = costs ! nat cost
      in if bits \<notin> set allowed_bits \<or> prior < 0 then Inl AssertionError
         else walk_back parents prior (selected_reversed @ [bits]))"

definition start_scores :: "nat \<Rightarrow> int option list" where
  "start_scores budget = (replicate (budget + 1) None)[0 := Some 0]"

section \<open>The exact allocation\<close>

record layer_allocation =
  la_layer :: int
  la_bits :: "(string, int) pydict"
  la_masses :: "decimal list"
  la_score_integer :: int
  la_score_scale :: int
  la_upgrade_units :: int
  la_fixed_point_iteration :: int
  la_probe_sha256 :: string

definition audit_allocation :: "(string, int) pydict \<Rightarrow> unit res" where
  "audit_allocation bits_by_tensor =
     (let bits = map snd bits_by_tensor
      in if length bits_by_tensor \<noteq> tensors_per_layer then Inl ValueError
         else if \<exists>b \<in> set bits. b \<notin> set allowed_bits then Inl ValueError
         else if Min (set bits) < floor_bits then Inl AssertionError
         else if sum_list bits \<noteq> target_bit_units then Inl ValueError
         else if sum_list (map (\<lambda>b. b - floor_bits) bits) \<noteq> int upgrade_units then Inl AssertionError
         else Inr ())"

definition curves_by_id :: "sensitivity_curve list \<Rightarrow> (tensor_id, sensitivity_curve) pydict" where
  "curves_by_id curves = fold (\<lambda>c. AList.update (sc_tensor_id c) c) curves []"

definition bits_by_key :: "sensitivity_curve list \<Rightarrow> int list \<Rightarrow> (string, int) pydict" where
  "bits_by_key ordered selected =
     fold (\<lambda>(c, b). AList.update (tensor_key (sc_tensor_id c)) b) (zip ordered selected) []"

text \<open>\<open>ordered[::3]\<close>\<close>

definition every_third :: "'a list \<Rightarrow> 'a list" where
  "every_third xs = map (\<lambda>i. xs ! (3 * i)) [0..<(length xs + 2) div 3]"

definition selected_allocation ::
  "int \<Rightarrow> sensitivity_curve list \<Rightarrow> int list \<Rightarrow> int \<Rightarrow> int \<Rightarrow> string \<Rightarrow> layer_allocation res" where
  "selected_allocation layer ordered selected score iteration probe_sha256 =
     (let bits = bits_by_key ordered selected
      in bind_res (audit_allocation bits) (\<lambda>_.
           Inr \<lparr>la_layer = layer, la_bits = bits, la_masses = map sc_mass (every_third ordered), la_score_integer = score,
                la_score_scale = 10 ^ 15, la_upgrade_units = int upgrade_units,
                la_fixed_point_iteration = iteration, la_probe_sha256 = probe_sha256\<rparr>))"

definition exact_step ::
  "nat \<Rightarrow> sensitivity_curve \<Rightarrow> int option list \<times> (int list \<times> int list) list \<Rightarrow> (int option list \<times> (int list \<times> int list) list) res" where
  "exact_step n curve s =
     (let (scores, parents) = s;
          (next_scores, costs, choices) = next_row upgrade_units (gain_integer curve) allowed_bits scores
      in if next_scores ! upgrade_units = None \<and> length parents = n - 1 then Inl AssertionError
         else Inr (next_scores, parents @ [(costs, choices)]))"

definition solve_exact_allocation ::
  "int \<Rightarrow> sensitivity_curve list \<Rightarrow> int \<Rightarrow> string \<Rightarrow> layer_allocation res" where
  "solve_exact_allocation layer curves iteration probe_sha256 =
     bind_res (all_layer_tensor_ids layer) (\<lambda>expected.
       (let by_id = curves_by_id curves
        in if length by_id \<noteq> length expected \<or> set (map fst by_id) \<noteq> set expected then Inl ValueError
           else (let ordered = map (\<lambda>t. the (map_of by_id t)) expected
             in bind_res (fold_res (exact_step (length ordered)) ordered (start_scores upgrade_units, [])) (\<lambda>(scores, parents).
                  case scores ! upgrade_units of
                    None \<Rightarrow> Inl AssertionError
                  | Some final_score \<Rightarrow>
                      bind_res (walk_back (rev parents) (int upgrade_units) []) (\<lambda>(selected_reversed, cost).
                        if cost \<noteq> 0 then Inl AssertionError
                        else selected_allocation layer ordered (rev selected_reversed) final_score iteration probe_sha256)))))"

section \<open>The sequential allocation\<close>

definition sequential_score :: "sensitivity_curve \<Rightarrow> int \<Rightarrow> int" where
  "sequential_score curve bits =
     (let v = dec_mul (sc_mass curve) (dec_sub (sc_loss_by_bits curve floor_bits) (sc_loss_by_bits curve bits))
      in dec_to_integral (dec_mul v (Dec (10 ^ 15) 0)))"

definition sequential_choices :: "sensitivity_curve \<Rightarrow> int list" where
  "sequential_choices curve =
     (let four_helps = dec_value (sc_loss_by_bits curve 4) < dec_value (sc_loss_by_bits curve 3);
          five_helps_after_four = dec_value (sc_loss_by_bits curve 5) < dec_value (sc_loss_by_bits curve 4)
      in [3] @ (if four_helps then [4] @ (if five_helps_after_four then [5] else []) else []))"

definition sequential_step ::
  "sensitivity_curve \<Rightarrow> int option list \<times> (int list \<times> int list) list \<Rightarrow> int option list \<times> (int list \<times> int list) list" where
  "sequential_step curve s =
     (let (scores, parents) = s;
          (next_scores, costs, bits_at) = next_row upgrade_units (sequential_score curve) (sequential_choices curve) scores
      in (next_scores, parents @ [(costs, bits_at)]))"

definition solve_sequential_allocation :: "int \<Rightarrow> sensitivity_curve list \<Rightarrow> string \<Rightarrow> layer_allocation res" where
  "solve_sequential_allocation layer curves probe_sha256 =
     bind_res (all_layer_tensor_ids layer) (\<lambda>expected.
       (let by_id = curves_by_id curves
        in if set (map fst by_id) \<noteq> set expected then Inl ValueError
           else (let ordered = map (\<lambda>t. the (map_of by_id t)) expected;
                     (scores, parents) = fold sequential_step ordered (start_scores upgrade_units, [])
             in case scores ! upgrade_units of
                  None \<Rightarrow> Inl RuntimeError
                | Some final_score \<Rightarrow>
                    bind_res (walk_back (rev parents) (int upgrade_units) []) (\<lambda>(selected_reversed, cost).
                      if cost \<noteq> 0 then Inl AssertionError
                      else selected_allocation layer ordered (rev selected_reversed) final_score 0 probe_sha256))))"


section \<open>What a row holds\<close>

text \<open>The best of several scored alternatives, the first one in case of a tie\<close>

definition best_step :: "int \<times> 'a \<Rightarrow> (int \<times> 'a) option \<Rightarrow> (int \<times> 'a) option" where
  "best_step x acc = (case acc of None \<Rightarrow> Some x | Some y \<Rightarrow> if fst x > fst y then Some x else acc)"

definition first_best :: "(int \<times> 'a) list \<Rightarrow> (int \<times> 'a) option" where
  "first_best xs = fold best_step xs None"

lemma best_step_simps [simp]:
  "best_step x None = Some x" "best_step x (Some y) = (if fst x > fst y then Some x else Some y)"
  by (simp_all add: best_step_def)

lemma fold_best_step:
  "fold best_step xs (Some y) = (if \<exists>x \<in> set xs. fst x > fst y then first_best xs else Some y)"
proof (induction xs arbitrary: y)
  case (Cons x xs)
  have start: "first_best (x # xs) = (if \<exists>z \<in> set xs. fst z > fst x then first_best xs else Some x)"
    using Cons.IH [of x] by (simp add: first_best_def)
  show ?case
  proof (cases "fst x > fst y")
    case True
    then show ?thesis by (simp add: first_best_def)
  next
    case False
    then have "\<exists>z \<in> set xs. fst z > fst x" if "\<exists>z \<in> set xs. fst z > fst y" using that by force
    with False start Cons.IH [of y] show ?thesis by auto
  qed
qed simp

lemma first_best_Cons:
  "first_best (x # xs) = (if \<exists>z \<in> set xs. fst z > fst x then first_best xs else Some x)"
  using fold_best_step [of xs x] by (simp add: first_best_def)

lemma first_best_Nil [simp]: "first_best [] = None"
  by (simp add: first_best_def)

lemma first_best_None_iff [simp]: "first_best xs = None \<longleftrightarrow> xs = []"
  by (induction xs) (auto simp: first_best_Cons)

lemma first_best_Some:
  assumes "first_best xs = Some y"
  shows "\<exists>pre post. xs = pre @ y # post \<and> (\<forall>x \<in> set pre. fst x < fst y) \<and> (\<forall>x \<in> set post. fst x \<le> fst y)"
  using assms
proof (induction xs)
  case (Cons x xs)
  show ?case
  proof (cases "\<exists>z \<in> set xs. fst z > fst x")
    case True
    with Cons.prems have "first_best xs = Some y" by (simp add: first_best_Cons)
    with Cons.IH obtain pre post where xs: "xs = pre @ y # post" "\<forall>x \<in> set pre. fst x < fst y" "\<forall>x \<in> set post. fst x \<le> fst y"
      by blast
    have "fst x < fst y"
    proof -
      obtain z where "z \<in> set xs" "fst x < fst z" using True by blast
      moreover have "fst z \<le> fst y" using xs \<open>z \<in> set xs\<close> by fastforce
      ultimately show ?thesis by simp
    qed
    with xs show ?thesis by (intro exI [of _ "x # pre"] exI [of _ post]) simp
  next
    case False
    with Cons.prems have "y = x" by (simp add: first_best_Cons)
    with False show ?thesis by (intro exI [of _ "[]"] exI [of _ xs]) fastforce
  qed
qed simp

text \<open>The ways to reach a cost with one more tensor, in the order in which the loops find them\<close>

definition arrivals :: "int list \<Rightarrow> (int \<Rightarrow> int) \<Rightarrow> (nat \<Rightarrow> int option) \<Rightarrow> nat \<Rightarrow> (int \<times> nat \<times> int) list" where
  "arrivals ch sc scores c =
     concat (map (\<lambda>k. case scores k of None \<Rightarrow> []
        | Some s \<Rightarrow> map (\<lambda>b. (s + sc b, k, b)) (filter (\<lambda>b. k + nat (b - floor_bits) = c) ch)) [0..<Suc c])"

definition row_ok :: "nat \<Rightarrow> dp_row \<Rightarrow> bool" where
  "row_ok budget row \<longleftrightarrow> (case row of (ns, cs, bs) \<Rightarrow> length ns = budget + 1 \<and> length cs = budget + 1 \<and> length bs = budget + 1)"

definition cell_is :: "dp_row \<Rightarrow> nat \<Rightarrow> (int \<times> nat \<times> int) option \<Rightarrow> bool" where
  "cell_is row c acc \<longleftrightarrow> (case row of (ns, cs, bs) \<Rightarrow>
     case acc of None \<Rightarrow> ns ! c = None | Some (v, k, b) \<Rightarrow> ns ! c = Some v \<and> cs ! c = int k \<and> bs ! c = b)"

lemma relax_cell:
  assumes "row_ok budget row" and "c \<le> budget" and "cell_is row c acc"
  shows "row_ok budget (relax budget sc k s b row)"
    and "cell_is (relax budget sc k s b row) c
      (fold best_step (if k + nat (b - floor_bits) = c then [(s + sc b, k, b)] else []) acc)"
  using assms
  by (cases row; auto simp: row_ok_def relax_def cell_is_def best_step_def Let_def split: option.splits)+

lemma relax_choices:
  assumes "row_ok budget row" and "c \<le> budget" and "cell_is row c acc"
  shows "row_ok budget (fold (relax budget sc k s) ch row)
    \<and> cell_is (fold (relax budget sc k s) ch row) c
      (fold best_step (map (\<lambda>b. (s + sc b, k, b)) (filter (\<lambda>b. k + nat (b - floor_bits) = c) ch)) acc)"
  using assms
proof (induction ch arbitrary: row acc)
  case (Cons b ch)
  note step = relax_cell [OF Cons.prems, of sc k s b]
  from Cons.IH [OF step(1) Cons.prems(2) step(2)] show ?case by (auto split: if_splits)
qed simp

lemma relax_rows:
  assumes "row_ok budget row" and "c \<le> budget" and "cell_is row c acc"
  shows "row_ok budget (fold (\<lambda>(k, s). case s of None \<Rightarrow> id | Some s \<Rightarrow> fold (relax budget sc k s) ch) ps row)
    \<and> cell_is (fold (\<lambda>(k, s). case s of None \<Rightarrow> id | Some s \<Rightarrow> fold (relax budget sc k s) ch) ps row) c
      (fold best_step (concat (map (\<lambda>(k, s). case s of None \<Rightarrow> []
         | Some s \<Rightarrow> map (\<lambda>b. (s + sc b, k, b)) (filter (\<lambda>b. k + nat (b - floor_bits) = c) ch)) ps)) acc)"
  using assms
proof (induction ps arbitrary: row acc)
  case (Cons p ps)
  obtain k s where p: "p = (k, s)" by (cases p)
  show ?case
  proof (cases s)
    case None
    with p Cons.IH [OF Cons.prems] show ?thesis by simp
  next
    case (Some s')
    note step = relax_choices [OF Cons.prems, of sc k s' ch]
    from Cons.IH [OF conjunct1 [OF step] Cons.prems(2) conjunct2 [OF step]] p Some show ?thesis by simp
  qed
qed simp

lemma concat_map_empty: "(\<And>x. x \<in> set xs \<Longrightarrow> f x = []) \<Longrightarrow> concat (map f xs) = []"
  by (induction xs) simp_all

lemma next_row_cell:
  assumes "length scores = budget + 1" and "c \<le> budget"
  shows "row_ok budget (next_row budget sc ch scores)
    \<and> cell_is (next_row budget sc ch scores) c (first_best (arrivals ch sc ((!) scores) c))"
proof -
  let ?g = "\<lambda>k. case scores ! k of None \<Rightarrow> []
     | Some s \<Rightarrow> map (\<lambda>b. (s + sc b, k, b)) (filter (\<lambda>b. k + nat (b - floor_bits) = c) ch)"
  let ?f = "\<lambda>(k, s). case s of None \<Rightarrow> []
     | Some s \<Rightarrow> map (\<lambda>b. (s + sc b, k, b)) (filter (\<lambda>b. k + nat (b - floor_bits) = c) ch)"
  let ?init = "(replicate (budget + 1) None, replicate (budget + 1) (- 1), replicate (budget + 1) 0) :: dp_row"
  have init: "row_ok budget ?init" "cell_is ?init c None"
    using assms(2) by (simp_all add: row_ok_def cell_is_def del: replicate_Suc)
  have "enumerate 0 scores = map (\<lambda>k. (k, scores ! k)) [0..<budget + 1]"
    using assms(1) by (intro nth_equalityI) (simp_all add: nth_enumerate_eq del: upt_Suc)
  then have "concat (map ?f (enumerate 0 scores)) = concat (map ?g [0..<budget + 1])" by (simp add: comp_def del: upt_Suc)
  also have "[0..<budget + 1] = [0..<Suc c] @ [Suc c..<budget + 1]"
    using assms(2) upt_add_eq_append [of 0 "Suc c" "budget - c"] by (simp del: upt_Suc)
  also have "concat (map ?g ([0..<Suc c] @ [Suc c..<budget + 1])) = concat (map ?g [0..<Suc c])"
    by (simp del: upt_Suc) (auto split: option.splits)
  finally have "concat (map ?f (enumerate 0 scores)) = arrivals ch sc ((!) scores) c" by (simp add: arrivals_def)
  with relax_rows [OF init(1) assms(2) init(2), of sc ch "enumerate 0 scores"] show ?thesis
    by (simp add: next_row_def first_best_def)
qed

section \<open>The best allocation for every cost\<close>

text \<open>
  The bits of the tensors so far, the last one first, that the programme keeps for a cost, with their
  score
\<close>

type_synonym dp_item = "int list \<times> (int \<Rightarrow> int)"

fun champion :: "dp_item list \<Rightarrow> nat \<Rightarrow> (int \<times> int list) option" where
  "champion [] c = (if c = 0 then Some (0, []) else None)"
| "champion ((ch, sc) # items) c =
     (case first_best (arrivals ch sc (\<lambda>k. map_option fst (champion items k)) c) of
        None \<Rightarrow> None
      | Some (v, k, b) \<Rightarrow> Some (v, b # snd (the (champion items k))))"

definition dp_ok :: "nat \<Rightarrow> dp_item list \<Rightarrow> int option list \<times> (int list \<times> int list) list \<Rightarrow> bool" where
  "dp_ok budget items s \<longleftrightarrow> (case s of (scores, parents) \<Rightarrow>
     length scores = budget + 1 \<and> length parents = length items
     \<and> (\<forall>c \<le> budget. scores ! c = map_option fst (champion items c))
     \<and> (\<forall>c \<le> budget. \<forall>v bs sel. champion items c = Some (v, bs) \<longrightarrow> walk_back (rev parents) (int c) sel = Inr (sel @ bs, 0)))"

lemma dp_ok_start: "dp_ok budget [] (start_scores budget, [])"
  by (auto simp: dp_ok_def start_scores_def nth_Cons' split: if_splits)

lemma arrivals_mem:
  "(v, k, b) \<in> set (arrivals ch sc scores c) \<longleftrightarrow>
     k \<le> c \<and> b \<in> set ch \<and> k + nat (b - floor_bits) = c \<and> (\<exists>s. scores k = Some s \<and> v = s + sc b)"
proof -
  have one: "(v, k, b) \<in> set (case scores j of None \<Rightarrow> []
        | Some s \<Rightarrow> map (\<lambda>b. (s + sc b, j, b)) (filter (\<lambda>b. j + nat (b - floor_bits) = c) ch))
      \<longleftrightarrow> j = k \<and> b \<in> set ch \<and> k + nat (b - floor_bits) = c \<and> (\<exists>s. scores k = Some s \<and> v = s + sc b)" for j
    by (cases "scores j") auto
  have "(v, k, b) \<in> set (arrivals ch sc scores c) \<longleftrightarrow> (\<exists>j \<in> {0..<Suc c}. (v, k, b) \<in> set (case scores j of None \<Rightarrow> []
        | Some s \<Rightarrow> map (\<lambda>b. (s + sc b, j, b)) (filter (\<lambda>b. j + nat (b - floor_bits) = c) ch)))"
    unfolding arrivals_def set_concat by (simp del: upt_Suc)
  also have "\<dots> \<longleftrightarrow> k < Suc c \<and> b \<in> set ch \<and> k + nat (b - floor_bits) = c \<and> (\<exists>s. scores k = Some s \<and> v = s + sc b)"
    unfolding one by auto
  finally show ?thesis by (simp add: less_Suc_eq_le)
qed

lemma arrivals_cong:
  "(\<And>k. k \<le> c \<Longrightarrow> f k = g k) \<Longrightarrow> arrivals ch sc f c = arrivals ch sc g c"
  unfolding arrivals_def by (intro arg_cong [where f = concat] map_cong refl) (simp add: less_Suc_eq_le del: upt_Suc)

lemma dp_ok_step:
  assumes "dp_ok budget items (scores, parents)" and "set ch \<subseteq> set allowed_bits"
    and "next_row budget sc ch scores = (ns, cs, bs)"
  shows "dp_ok budget ((ch, sc) # items) (ns, parents @ [(cs, bs)])"
proof -
  let ?arr = "arrivals ch sc (\<lambda>k. map_option fst (champion items k))"
  have len: "length scores = budget + 1" "length parents = length items"
    and sc: "\<And>c. c \<le> budget \<Longrightarrow> scores ! c = map_option fst (champion items c)"
    and walk: "\<And>c v bs sel. \<lbrakk>c \<le> budget; champion items c = Some (v, bs)\<rbrakk>
      \<Longrightarrow> walk_back (rev parents) (int c) sel = Inr (sel @ bs, 0)"
    using assms(1) by (auto simp: dp_ok_def)
  have row: "row_ok budget (ns, cs, bs)" "cell_is (ns, cs, bs) c (first_best (?arr c))" if "c \<le> budget" for c
  proof -
    have "arrivals ch sc ((!) scores) c = ?arr c" using sc that by (intro arrivals_cong) simp
    with next_row_cell [OF len(1) that, of sc ch] assms(3)
    show "row_ok budget (ns, cs, bs)" "cell_is (ns, cs, bs) c (first_best (?arr c))" by simp_all
  qed
  have cell: "ns ! c = map_option fst (champion ((ch, sc) # items) c)"
    "\<forall>v xs sel. champion ((ch, sc) # items) c = Some (v, xs)
       \<longrightarrow> walk_back (rev (parents @ [(cs, bs)])) (int c) sel = Inr (sel @ xs, 0)" if c: "c \<le> budget" for c
  proof -
    show "ns ! c = map_option fst (champion ((ch, sc) # items) c)"
      using row(2) [OF c] by (auto simp: cell_is_def split: option.splits)
    show "\<forall>v xs sel. champion ((ch, sc) # items) c = Some (v, xs)
       \<longrightarrow> walk_back (rev (parents @ [(cs, bs)])) (int c) sel = Inr (sel @ xs, 0)"
    proof (intro allI impI)
      fix v xs sel
      assume "champion ((ch, sc) # items) c = Some (v, xs)"
      then obtain k b where first: "first_best (?arr c) = Some (v, k, b)" "xs = b # snd (the (champion items k))"
        by (auto split: option.splits)
      then have "(v, k, b) \<in> set (?arr c)" using first_best_Some by fastforce
      then have k: "k \<le> c" "b \<in> set ch" "k + nat (b - floor_bits) = c" "champion items k \<noteq> None"
        by (auto simp: arrivals_mem)
      then obtain w ws where w: "champion items k = Some (w, ws)" by auto
      have "cs ! c = int k" "bs ! c = b" using row(2) [OF c] first(1) by (auto simp: cell_is_def)
      with walk [OF _ w, of "sel @ [b]"] k c assms(2) w first(2)
      show "walk_back (rev (parents @ [(cs, bs)])) (int c) sel = Inr (sel @ xs, 0)" by auto
    qed
  qed
  have "length ns = budget + 1" using row(1) [of 0] by (simp add: row_ok_def)
  with cell len show ?thesis by (auto simp: dp_ok_def)
qed

text \<open>Which allocations there are, the last tensor first\<close>

definition admissible :: "dp_item list \<Rightarrow> int list \<Rightarrow> bool" where
  "admissible items bs \<longleftrightarrow> list_all2 (\<lambda>(ch, _) b. b \<in> set ch) items bs"

definition upgrades :: "int list \<Rightarrow> nat" where
  "upgrades bs = sum_list (map (\<lambda>b. nat (b - floor_bits)) bs)"

fun total_score :: "dp_item list \<Rightarrow> int list \<Rightarrow> int" where
  "total_score ((_, sc) # items) (b # bs) = total_score items bs + sc b"
| "total_score _ _ = 0"

text \<open>Of two allocations, the one that has fewer bits at the last tensor where they differ\<close>

fun tie_le :: "int list \<Rightarrow> int list \<Rightarrow> bool" where
  "tie_le (b' # bs') (b # bs) \<longleftrightarrow> b' < b \<or> b' = b \<and> tie_le bs' bs"
| "tie_le _ _ \<longleftrightarrow> True"

lemma arrivals_sorted:
  assumes "\<forall>b \<in> set ch. floor_bits \<le> b" and "distinct ch"
  shows "sorted_wrt (\<lambda>x y. snd (snd y) < snd (snd x)) (arrivals ch sc scores c)"
proof -
  have one: "filter (\<lambda>b. k + nat (b - floor_bits) = c) ch
      = (if k \<le> c \<and> floor_bits + int (c - k) \<in> set ch then [floor_bits + int (c - k)] else [])" for k
    using assms
  proof (induction ch)
    case (Cons b ch)
    have "(k + nat (b - floor_bits) = c) \<longleftrightarrow> k \<le> c \<and> b = floor_bits + int (c - k)" using Cons.prems(1) by auto
    with Cons show ?case by (auto split: if_splits)
  qed simp
  have "sorted_wrt (\<lambda>x y. snd (snd y) < snd (snd x)) (concat (map (\<lambda>k. case scores k of None \<Rightarrow> []
        | Some s \<Rightarrow> map (\<lambda>b. (s + sc b, k, b)) (filter (\<lambda>b. k + nat (b - floor_bits) = c) ch)) [0..<n]))
      \<and> (\<forall>x \<in> set (concat (map (\<lambda>k. case scores k of None \<Rightarrow> []
        | Some s \<Rightarrow> map (\<lambda>b. (s + sc b, k, b)) (filter (\<lambda>b. k + nat (b - floor_bits) = c) ch)) [0..<n])).
           floor_bits + int c - int n < snd (snd x))" for n
  proof (induction n)
    case (Suc n)
    then show ?case by (fastforce simp: sorted_wrt_append one split: option.splits if_splits)
  qed simp
  then show ?thesis by (simp add: arrivals_def del: upt_Suc)
qed

lemma admissible_Cons:
  "admissible ((ch, sc) # items) bs \<longleftrightarrow> (\<exists>b bs'. bs = b # bs' \<and> b \<in> set ch \<and> admissible items bs')"
  by (auto simp: admissible_def list_all2_Cons1)

theorem champion_is_optimal:
  assumes "\<forall>(ch, sc) \<in> set items. (\<forall>b \<in> set ch. floor_bits \<le> b) \<and> distinct ch"
  shows "case champion items c of
     None \<Rightarrow> \<forall>bs. admissible items bs \<longrightarrow> upgrades bs \<noteq> c
   | Some (v, bs) \<Rightarrow> admissible items bs \<and> upgrades bs = c \<and> total_score items bs = v
       \<and> (\<forall>bs'. admissible items bs' \<and> upgrades bs' = c \<longrightarrow>
            total_score items bs' \<le> v \<and> (total_score items bs' = v \<longrightarrow> tie_le bs' bs))"
  using assms
proof (induction items arbitrary: c)
  case Nil
  then show ?case by (auto simp: admissible_def upgrades_def)
next
  case (Cons item items)
  obtain ch sc where item: "item = (ch, sc)" by (cases item)
  have ch: "\<forall>b \<in> set ch. floor_bits \<le> b" "distinct ch" using Cons.prems item by auto
  note IH = Cons.IH
  have IH: "case champion items c of
     None \<Rightarrow> \<forall>bs. admissible items bs \<longrightarrow> upgrades bs \<noteq> c
   | Some (v, bs) \<Rightarrow> admissible items bs \<and> upgrades bs = c \<and> total_score items bs = v
       \<and> (\<forall>bs'. admissible items bs' \<and> upgrades bs' = c \<longrightarrow>
            total_score items bs' \<le> v \<and> (total_score items bs' = v \<longrightarrow> tie_le bs' bs))" for c
    using Cons.IH Cons.prems by simp
  let ?arr = "arrivals ch sc (\<lambda>k. map_option fst (champion items k)) c"
  have arrives: "\<exists>w ws. champion items (upgrades bs') = Some (w, ws)
      \<and> (w + sc b', upgrades bs', b') \<in> set ?arr \<and> total_score items bs' \<le> w
      \<and> (total_score items bs' = w \<longrightarrow> tie_le bs' ws)"
    if "admissible items bs'" "b' \<in> set ch" "upgrades (b' # bs') = c" for b' bs'
  proof -
    have "champion items (upgrades bs') \<noteq> None" using IH [of "upgrades bs'"] that(1) by (auto split: option.splits)
    then obtain w ws where w: "champion items (upgrades bs') = Some (w, ws)" by auto
    with IH [of "upgrades bs'"] that show ?thesis by (auto simp: arrivals_mem upgrades_def)
  qed
  show ?case
  proof (cases "first_best ?arr")
    case None
    then have "?arr = []" by simp
    with arrives have "\<forall>bs. admissible (item # items) bs \<longrightarrow> upgrades bs \<noteq> c"
      unfolding item admissible_Cons by fastforce
    with None show ?thesis by (simp add: item)
  next
    case (Some x)
    obtain v k b where x: "x = (v, k, b)" by (cases x) auto
    obtain pre post where split: "?arr = pre @ (v, k, b) # post" "\<forall>y \<in> set pre. fst y < v" "\<forall>y \<in> set post. fst y \<le> v"
      using first_best_Some [OF Some] x by auto
    have "(v, k, b) \<in> set ?arr" using split(1) by simp
    then obtain w ws where k: "b \<in> set ch" "k + nat (b - floor_bits) = c" "champion items k = Some (w, ws)" "v = w + sc b"
      by (auto simp: arrivals_mem)
    have result: "champion (item # items) c = Some (v, b # ws)" using Some x k(3) by (simp add: item)
    have ok: "admissible items ws" "upgrades ws = k" "total_score items ws = w" using IH [of k] k(3) by auto
    have best: "total_score (item # items) bs' \<le> v \<and> (total_score (item # items) bs' = v \<longrightarrow> tie_le bs' (b # ws))"
      if adm: "admissible (item # items) bs'" "upgrades bs' = c" for bs'
    proof -
      obtain b' bs'' where bs': "bs' = b' # bs''" "b' \<in> set ch" "admissible items bs''"
        using adm(1) by (auto simp: item admissible_Cons)
      obtain w' ws' where w': "champion items (upgrades bs'') = Some (w', ws')"
        "(w' + sc b', upgrades bs'', b') \<in> set ?arr" "total_score items bs'' \<le> w'"
        "total_score items bs'' = w' \<longrightarrow> tie_le bs'' ws'"
        using arrives [OF bs'(3,2)] adm(2) bs'(1) by auto
      have le: "w' + sc b' \<le> v" using w'(2) split by fastforce
      have "tie_le bs' (b # ws)" if eq: "total_score items bs'' + sc b' = v"
      proof -
        have same: "w' + sc b' = v" "total_score items bs'' = w'" using eq le w'(3) by auto
        have "(w' + sc b', upgrades bs'', b') \<notin> set pre" using split(2) same(1) by fastforce
        then have "(upgrades bs'', b') = (k, b) \<or> (w' + sc b', upgrades bs'', b') \<in> set post"
          using w'(2) split(1) by auto
        then show ?thesis
        proof
          assume "(upgrades bs'', b') = (k, b)"
          with w' same(2) k(3) bs'(1) show ?thesis by simp
        next
          assume "(w' + sc b', upgrades bs'', b') \<in> set post"
          with arrivals_sorted [OF ch, of sc "\<lambda>k. map_option fst (champion items k)" c] split(1)
          have "b' < b" by (fastforce simp: sorted_wrt_append)
          with bs'(1) show ?thesis by simp
        qed
      qed
      with le w'(3) bs'(1) show ?thesis by (auto simp: item)
    qed
    have "admissible (item # items) (b # ws)" "upgrades (b # ws) = c" "total_score (item # items) (b # ws) = v"
      using ok k by (auto simp: item admissible_Cons upgrades_def)
    with best result show ?thesis by simp
  qed
qed

section \<open>The tensors of a layer\<close>

definition layer_ids :: "int \<Rightarrow> tensor_id list" where
  "layer_ids layer = concat (map (\<lambda>expert. map (\<lambda>projection.
     \<lparr>ti_layer = layer, ti_expert = expert, ti_projection = projection\<rparr>) projections) [0..255])"

lemma all_layer_tensor_ids_iff:
  "all_layer_tensor_ids layer = (if 3 \<le> layer \<and> layer \<le> 77 then Inr (layer_ids layer) else Inl ValueError)"
proof (cases "3 \<le> layer \<and> layer \<le> 77")
  case True
  let ?pairs = "concat (map (\<lambda>expert. map (\<lambda>projection. (expert, projection)) projections) [0..255 :: int])"
  have "map_res (\<lambda>(e, p). new_tensor_id layer e p) ?pairs
      = Inr (map (\<lambda>(e, p). \<lparr>ti_layer = layer, ti_expert = e, ti_projection = p\<rparr>) ?pairs)"
    using True by (intro map_res_Inr) (auto simp: new_tensor_id_def)
  then show ?thesis using True by (simp add: all_layer_tensor_ids_def layer_ids_def map_concat comp_def)
next
  case False
  have "[0..255 :: int] = 0 # [1..255]" by (subst upto.simps) simp
  with False show ?thesis by (auto simp: all_layer_tensor_ids_def projections_def new_tensor_id_def)
qed

lemma length_layer_ids [simp]: "length (layer_ids layer) = tensors_per_layer"
  by (simp add: layer_ids_def length_concat comp_def projections_def sum_list_triv)

lemma layer_ids_mem: "t \<in> set (layer_ids layer) \<longleftrightarrow>
    ti_layer t = layer \<and> 0 \<le> ti_expert t \<and> ti_expert t \<le> 255 \<and> ti_projection t \<in> set projections"
  by (cases t) (auto simp: layer_ids_def)

lemma distinct_layer_ids: "distinct (layer_ids layer)"
proof -
  let ?row = "\<lambda>e. map (\<lambda>p. \<lparr>ti_layer = layer, ti_expert = e, ti_projection = p\<rparr>) projections"
  have "distinct (concat (map ?row es))" if "distinct es" for es
    using that by (induction es) (auto simp: distinct_map inj_on_def projections_def)
  then show ?thesis by (simp add: layer_ids_def)
qed

lemma digits_value_append: "digits_value (s @ [c]) = 10 * digits_value s + (of_char c - 48)"
  by (simp add: digits_value_def)

lemma digits_value_digits: "digits_value (digits n) = n"
proof (induction n rule: digits.induct)
  case (1 n)
  show ?case
  proof (cases "n < 10")
    case True
    then show ?thesis by (subst digits.simps) (simp add: digits_value_def take_bit_nat_eq_self)
  next
    case False
    then have "digits n = digits (n div 10) @ [char_of (48 + n mod 10)]" by (subst digits.simps) simp
    moreover have "of_char (char_of (48 + n mod 10) :: char) = 48 + n mod 10"
      using mod_less_divisor [of 10 n] by (simp add: take_bit_nat_eq_self)
    ultimately show ?thesis using 1 [OF False] by (simp add: digits_value_append)
  qed
qed

lemma digits_value_zero_padded: "digits_value (zero_padded w n) = n"
proof -
  have "digits_value (replicate k (CHR ''0'') @ s) = digits_value s" for k s
    by (induction k) (simp_all add: digits_value_def)
  then show ?thesis by (simp add: zero_padded_def digits_value_digits)
qed

lemma length_digits: "n < 10 ^ k \<Longrightarrow> 0 < k \<Longrightarrow> length (digits n) \<le> k"
proof (induction n arbitrary: k rule: digits.induct)
  case (1 n)
  show ?case
  proof (cases "n < 10")
    case True
    with 1 show ?thesis by (subst digits.simps) simp
  next
    case False
    with 1(2,3) have "n div 10 < 10 ^ (k - 1)" "0 < k - 1"
      by (cases k; simp add: div_less_iff_less_mult mult.commute; cases "k - 1"; simp)+
    with 1(1) [OF False, of "k - 1"] False show ?thesis by (subst digits.simps) simp
  qed
qed

lemma length_zero_padded: "n < 10 ^ w \<Longrightarrow> 0 < w \<Longrightarrow> length (zero_padded w n) = w"
  using length_digits [of n w] by (simp add: zero_padded_def)

lemma tensor_key_inj: "inj_on tensor_key (set (layer_ids layer))"
proof (rule inj_onI)
  fix s t :: tensor_id
  assume mem: "s \<in> set (layer_ids layer)" "t \<in> set (layer_ids layer)" and key: "tensor_key s = tensor_key t"
  let ?p = "\<lambda>t. zero_padded 3 (nat (ti_expert t))"
  have same: "ti_layer s = ti_layer t" "0 \<le> ti_expert s" "0 \<le> ti_expert t" using mem by (auto simp: layer_ids_mem)
  have "length (?p s) = length (?p t)" using mem by (subst (1 2) length_zero_padded) (auto simp: layer_ids_mem)
  moreover have "?p s @ ''/'' @ ti_projection s = ?p t @ ''/'' @ ti_projection t"
    using key same(1) by (simp add: tensor_key_def)
  ultimately have "?p s = ?p t" "ti_projection s = ti_projection t" by simp_all
  moreover from this(1) have "nat (ti_expert s) = nat (ti_expert t)" by (metis digits_value_zero_padded)
  ultimately show "s = t" using same by (cases s; cases t) simp
qed

section \<open>The curves in the order of the layer\<close>

definition covers_layer :: "int \<Rightarrow> sensitivity_curve list \<Rightarrow> bool" where
  "covers_layer layer curves \<longleftrightarrow> 3 \<le> layer \<and> layer \<le> 77 \<and> set (map sc_tensor_id curves) = set (layer_ids layer)"

definition ordered_curves :: "int \<Rightarrow> sensitivity_curve list \<Rightarrow> sensitivity_curve list" where
  "ordered_curves layer curves = map (\<lambda>t. the (map_of (curves_by_id curves) t)) (layer_ids layer)"

lemma curves_by_id_keys:
  "dict_wf (curves_by_id curves)" "set (map fst (curves_by_id curves)) = set (map sc_tensor_id curves)"
proof -
  have "dict_wf (fold (\<lambda>c. AList.update (sc_tensor_id c) c) cs d)
      \<and> set (map fst (fold (\<lambda>c. AList.update (sc_tensor_id c) c) cs d)) = set (map fst d) \<union> set (map sc_tensor_id cs)"
    if "dict_wf d" for cs d
    using that by (induction cs arbitrary: d) (simp_all add: dom_update)
  from this [of "[]" curves] show "dict_wf (curves_by_id curves)"
    "set (map fst (curves_by_id curves)) = set (map sc_tensor_id curves)"
    by (simp_all add: curves_by_id_def)
qed

lemma mem_update: "x \<in> set (AList.update k v d) \<Longrightarrow> x = (k, v) \<or> x \<in> set d"
  by (induction d) (auto split: if_splits)

lemma curves_by_id_get:
  assumes "map_of (curves_by_id curves) t = Some c"
  shows "sc_tensor_id c = t"
proof -
  have "x \<in> set (fold (\<lambda>c. AList.update (sc_tensor_id c) c) cs d) \<Longrightarrow> x \<in> set d \<or> (\<exists>c. x = (sc_tensor_id c, c))" for x cs d
    by (induction cs arbitrary: d) (auto dest: mem_update)
  from this [of "(t, c)" curves "[]"] show ?thesis using map_of_SomeD [OF assms] by (auto simp: curves_by_id_def)
qed

lemma ordered_curves_ids:
  assumes "covers_layer layer curves"
  shows "map sc_tensor_id (ordered_curves layer curves) = layer_ids layer"
proof -
  have "sc_tensor_id (the (map_of (curves_by_id curves) t)) = t" if "t \<in> set (layer_ids layer)" for t
  proof -
    have "t \<in> set (map fst (curves_by_id curves))" using assms that curves_by_id_keys(2) [of curves] by (simp add: covers_layer_def)
    then obtain c where "map_of (curves_by_id curves) t = Some c" by (metis (no_types) list.set_map map_of_eq_None_iff option.exhaust)
    then show ?thesis using curves_by_id_get by simp
  qed
  then show ?thesis by (simp add: ordered_curves_def comp_def map_idI)
qed

lemma length_ordered_curves [simp]: "length (ordered_curves layer curves) = tensors_per_layer"
  by (simp add: ordered_curves_def)

lemma update_absent: "k \<notin> fst ` set d \<Longrightarrow> AList.update k v d = d @ [(k, v)]"
  by (induction d) auto

lemma bits_by_key_zip:
  assumes "distinct (map (tensor_key \<circ> sc_tensor_id) ordered)" and "length bs = length ordered"
  shows "bits_by_key ordered bs = zip (map (tensor_key \<circ> sc_tensor_id) ordered) bs"
proof -
  have "fold (\<lambda>(c, b). AList.update (tensor_key (sc_tensor_id c)) b) (zip cs bs) d
      = d @ zip (map (tensor_key \<circ> sc_tensor_id) cs) bs"
    if "distinct (map fst d @ map (tensor_key \<circ> sc_tensor_id) cs)" "length bs = length cs" for cs bs d
    using that
  proof (induction cs arbitrary: bs d)
    case (Cons c cs)
    obtain b bs' where bs: "bs = b # bs'" using Cons.prems(2) by (cases bs) auto
    have new: "AList.update (tensor_key (sc_tensor_id c)) b d = d @ [(tensor_key (sc_tensor_id c), b)]"
      using Cons.prems(1) by (intro update_absent) auto
    from Cons.IH [of "d @ [(tensor_key (sc_tensor_id c), b)]" bs'] Cons.prems show ?case by (simp add: bs new)
  qed simp
  from this [of "[]" ordered bs] assms show ?thesis by (simp add: bits_by_key_def)
qed

section \<open>Both allocations are exact and optimal\<close>

text \<open>Bits for the tensors of a layer that use the budget exactly, and their score\<close>

definition fits_budget :: "(sensitivity_curve \<Rightarrow> int list) \<Rightarrow> sensitivity_curve list \<Rightarrow> int list \<Rightarrow> bool" where
  "fits_budget ch ordered bs \<longleftrightarrow> list_all2 (\<lambda>c b. b \<in> set (ch c)) ordered bs \<and> sum_list bs = target_bit_units"

definition score_of :: "(sensitivity_curve \<Rightarrow> int \<Rightarrow> int) \<Rightarrow> sensitivity_curve list \<Rightarrow> int list \<Rightarrow> int" where
  "score_of sc ordered bs = sum_list (map2 sc ordered bs)"

text \<open>At the last tensor where they differ, \<open>bs'\<close> has fewer bits than \<open>bs\<close>.\<close>

definition fewer_bits_later :: "int list \<Rightarrow> int list \<Rightarrow> bool" where
  "fewer_bits_later bs' bs \<longleftrightarrow> (\<exists>i < length bs. bs' ! i < bs ! i \<and> (\<forall>j. i < j \<and> j < length bs \<longrightarrow> bs' ! j = bs ! j))"

definition optimal_allocation ::
  "(sensitivity_curve \<Rightarrow> int list) \<Rightarrow> (sensitivity_curve \<Rightarrow> int \<Rightarrow> int) \<Rightarrow> sensitivity_curve list \<Rightarrow> layer_allocation \<Rightarrow> bool" where
  "optimal_allocation ch sc ordered alloc \<longleftrightarrow>
     (let bs = map snd (la_bits alloc)
      in map fst (la_bits alloc) = map (tensor_key \<circ> sc_tensor_id) ordered \<and> fits_budget ch ordered bs
         \<and> la_score_integer alloc = score_of sc ordered bs
         \<and> (\<forall>bs'. fits_budget ch ordered bs' \<longrightarrow> score_of sc ordered bs' \<le> la_score_integer alloc
              \<and> (score_of sc ordered bs' = la_score_integer alloc \<and> bs' \<noteq> bs \<longrightarrow> fewer_bits_later bs' bs)))"

definition items_of :: "(sensitivity_curve \<Rightarrow> int list) \<Rightarrow> (sensitivity_curve \<Rightarrow> int \<Rightarrow> int) \<Rightarrow> sensitivity_curve list \<Rightarrow> dp_item list" where
  "items_of ch sc ordered = rev (map (\<lambda>c. (ch c, sc c)) ordered)"

lemma total_score_append:
  "length items = length bs \<Longrightarrow> total_score (items @ [(ch, sc)]) (bs @ [b]) = total_score items bs + sc b"
  by (induction items bs rule: list_induct2) auto

lemma total_score_rev: "length ordered = length bs \<Longrightarrow> total_score (items_of ch sc ordered) (rev bs) = score_of sc ordered bs"
  by (induction ordered bs rule: list_induct2) (simp_all add: items_of_def score_of_def total_score_append)

lemma admissible_rev: "admissible (items_of ch sc ordered) (rev bs) \<longleftrightarrow> list_all2 (\<lambda>c b. b \<in> set (ch c)) ordered bs"
proof -
  have "admissible (items_of ch sc ordered) (rev bs) \<longleftrightarrow> list_all2 (\<lambda>(ch, _) b. b \<in> set ch) (map (\<lambda>c. (ch c, sc c)) ordered) bs"
    unfolding admissible_def items_of_def by (rule list_all2_rev)
  then show ?thesis by (simp add: list_all2_map1)
qed

lemma upgrades_sum: "\<forall>b \<in> set bs. floor_bits \<le> b \<Longrightarrow> int (upgrades bs) = sum_list bs - floor_bits * int (length bs)"
  by (induction bs) (simp_all add: upgrades_def)

lemma upgrades_rev [simp]: "upgrades (rev bs) = upgrades bs"
  by (simp add: upgrades_def rev_map [symmetric] sum_list_rev)

lemma tie_le_first_difference:
  "length xs = length ys \<Longrightarrow> tie_le xs ys \<Longrightarrow> xs = ys \<or> (\<exists>i < length ys. xs ! i < ys ! i \<and> (\<forall>j < i. xs ! j = ys ! j))"
proof (induction xs ys rule: list_induct2)
  case (Cons x xs y ys)
  then consider "x < y" | "x = y" "xs = ys" | i where "x = y" "i < length ys" "xs ! i < ys ! i" "\<forall>j < i. xs ! j = ys ! j"
    by auto
  then show ?case
  proof cases
    case 3
    then have "Suc i < length (y # ys) \<and> (x # xs) ! Suc i < (y # ys) ! Suc i \<and> (\<forall>j < Suc i. (x # xs) ! j = (y # ys) ! j)"
      by (auto simp: nth_Cons split: nat.splits)
    then show ?thesis by blast
  qed auto
qed simp

lemma tie_le_rev:
  assumes "length bs' = length bs" and "tie_le (rev bs') (rev bs)" and "bs' \<noteq> bs"
  shows "fewer_bits_later bs' bs"
proof -
  obtain i where i: "i < length bs" "rev bs' ! i < rev bs ! i" "\<forall>j < i. rev bs' ! j = rev bs ! j"
    using tie_le_first_difference [OF _ assms(2)] assms(1,3) by auto
  let ?i = "length bs - Suc i"
  have "bs' ! j = bs ! j" if "?i < j" "j < length bs" for j
  proof -
    have "length bs - Suc j < i" "j = length bs - Suc (length bs - Suc j)" using that i(1) by auto
    with i(3) assms(1) that show ?thesis by (metis Suc_less_eq diff_less_Suc less_imp_diff_less order.strict_trans i(1) rev_nth)
  qed
  moreover have "bs' ! ?i < bs ! ?i" "?i < length bs" using i assms(1) by (simp_all add: rev_nth)
  ultimately show ?thesis unfolding fewer_bits_later_def by blast
qed

lemma audit_passes:
  assumes "length d = tensors_per_layer" and "\<forall>b \<in> set (map snd d). b \<in> set allowed_bits" and "sum_list (map snd d) = target_bit_units"
  shows "audit_allocation d = Inr ()"
proof -
  have ne: "map snd d \<noteq> []" using assms(1) by auto
  then have "Min (set (map snd d)) \<in> set (map snd d)" by (intro Min_in) (simp_all del: set_map)
  with assms(2) have "floor_bits \<le> Min (set (map snd d))" by (auto simp: allowed_bits_def)
  moreover have "sum_list (map (\<lambda>b. b - floor_bits) (map snd d)) = sum_list (map snd d) - floor_bits * int (length d)"
    by (induction d) simp_all
  ultimately show ?thesis using assms by (simp add: audit_allocation_def Let_def not_less)
qed

text \<open>What both programmes do after their last row\<close>

lemma allocation_from_rows:
  assumes cover: "covers_layer layer curves" and "ordered = ordered_curves layer curves"
    and ch: "\<And>c. set (ch c) \<subseteq> set allowed_bits \<and> distinct (ch c)"
    and dp: "dp_ok upgrade_units (items_of ch sc ordered) (scores, parents)"
    and score: "scores ! upgrade_units = Some score"
  shows "\<exists>bs alloc. walk_back (rev parents) (int upgrade_units) [] = Inr (rev bs, 0)
    \<and> selected_allocation layer ordered bs score iteration probe = Inr alloc \<and> optimal_allocation ch sc ordered alloc"
proof -
  have sub: "\<forall>b \<in> set (ch c). floor_bits \<le> b" for c using ch [of c] by (auto simp: allowed_bits_def)
  have items: "\<forall>(c, s) \<in> set (items_of ch sc ordered). (\<forall>b \<in> set c. floor_bits \<le> b) \<and> distinct c"
    using ch sub by (auto simp: items_of_def)
  obtain v rs where champ: "champion (items_of ch sc ordered) upgrade_units = Some (v, rs)" and v: "v = score"
    using dp score by (fastforce simp: dp_ok_def)
  define bs where "bs = rev rs"
  have walk: "walk_back (rev parents) (int upgrade_units) [] = Inr (rev bs, 0)"
    using dp champ by (auto simp: dp_ok_def bs_def)
  have len: "length ordered = tensors_per_layer" using assms(2) by simp
  have champ_ok: "admissible (items_of ch sc ordered) (rev bs)" "upgrades bs = upgrade_units"
    "total_score (items_of ch sc ordered) (rev bs) = score"
    and best: "\<And>bs'. \<lbrakk>admissible (items_of ch sc ordered) (rev bs'); upgrades bs' = upgrade_units\<rbrakk> \<Longrightarrow>
      total_score (items_of ch sc ordered) (rev bs') \<le> score
      \<and> (total_score (items_of ch sc ordered) (rev bs') = score \<longrightarrow> tie_le (rev bs') (rev bs))"
    using champion_is_optimal [OF items, of upgrade_units] upgrades_rev [of rs] v by (auto simp: champ bs_def)
  have adm: "list_all2 (\<lambda>c b. b \<in> set (ch c)) ordered bs" using champ_ok(1) by (simp add: admissible_rev)
  then have lb: "length bs = tensors_per_layer" using len by (simp add: list_all2_lengthD [symmetric])
  have in_allowed: "\<forall>b \<in> set bs'. b \<in> set allowed_bits" if "list_all2 (\<lambda>c b. b \<in> set (ch c)) ordered bs'" for bs'
    using that ch by (fastforce simp: list_all2_conv_all_nth in_set_conv_nth)
  have budget: "sum_list bs' = target_bit_units \<longleftrightarrow> upgrades bs' = upgrade_units"
    if "list_all2 (\<lambda>c b. b \<in> set (ch c)) ordered bs'" for bs'
  proof -
    have "length bs' = tensors_per_layer" using that len by (simp add: list_all2_lengthD [symmetric])
    moreover have "\<forall>b \<in> set bs'. floor_bits \<le> b" using in_allowed [OF that] by (auto simp: allowed_bits_def)
    ultimately show ?thesis using upgrades_sum [of bs'] by auto
  qed
  have keys: "distinct (map (tensor_key \<circ> sc_tensor_id) ordered)"
  proof -
    have "map (tensor_key \<circ> sc_tensor_id) ordered = map tensor_key (layer_ids layer)"
      using ordered_curves_ids [OF cover] assms(2) by (metis map_map)
    with tensor_key_inj distinct_layer_ids show ?thesis by (simp add: distinct_map)
  qed
  have zip: "bits_by_key ordered bs = zip (map (tensor_key \<circ> sc_tensor_id) ordered) bs"
    using bits_by_key_zip [OF keys] lb len by simp
  have cols: "map fst (bits_by_key ordered bs) = map (tensor_key \<circ> sc_tensor_id) ordered" "map snd (bits_by_key ordered bs) = bs"
    using lb len by (simp_all add: zip)
  have fits: "fits_budget ch ordered bs" using adm budget [OF adm] champ_ok(2) by (simp add: fits_budget_def)
  have audit: "audit_allocation (bits_by_key ordered bs) = Inr ()"
    using in_allowed [OF adm] fits lb len cols(2) by (intro audit_passes) (simp_all add: zip fits_budget_def)
  obtain alloc where alloc: "selected_allocation layer ordered bs score iteration probe = Inr alloc"
    "la_bits alloc = bits_by_key ordered bs" "la_score_integer alloc = score"
    using audit by (simp add: selected_allocation_def)
  have optimal: "score_of sc ordered bs' \<le> score \<and> (score_of sc ordered bs' = score \<and> bs' \<noteq> bs \<longrightarrow> fewer_bits_later bs' bs)"
    if "fits_budget ch ordered bs'" for bs'
  proof -
    have adm': "list_all2 (\<lambda>c b. b \<in> set (ch c)) ordered bs'" and "sum_list bs' = target_bit_units"
      using that by (simp_all add: fits_budget_def)
    then have "upgrades bs' = upgrade_units" using budget by simp
    moreover have "length bs' = length bs" using adm' lb len by (simp add: list_all2_lengthD [symmetric])
    ultimately show ?thesis using best [of bs'] adm' tie_le_rev [of bs' bs] lb len
      by (auto simp: admissible_rev total_score_rev)
  qed
  have "score_of sc ordered bs = score" using champ_ok(3) lb len by (simp add: total_score_rev)
  with fits optimal alloc cols have "optimal_allocation ch sc ordered alloc" by (simp add: optimal_allocation_def)
  with walk alloc(1) show ?thesis by blast
qed

lemma reachable_cost:
  assumes "\<forall>(ch, sc) \<in> set items. ch = allowed_bits" and "c \<le> 2 * length items"
  shows "champion items c \<noteq> None"
proof -
  have "\<exists>bs. admissible items bs \<and> upgrades bs = c" using assms
  proof (induction items arbitrary: c)
    case (Cons item items)
    obtain ch sc where item: "item = (ch, sc)" by (cases item)
    have "c - min 2 c \<le> 2 * length items" using Cons.prems(2) by auto
    with Cons obtain bs where bs: "admissible items bs" "upgrades bs = c - min 2 c" by auto
    have "ch = allowed_bits" using Cons.prems(1) item by simp
    then have "floor_bits + int (min 2 c) \<in> set ch" by (cases "c = 0"; cases "c = 1") (auto simp: allowed_bits_def)
    moreover have "upgrades ((floor_bits + int (min 2 c)) # bs) = c" using bs(2) by (simp add: upgrades_def)
    ultimately show ?case using bs(1) item by (metis admissible_Cons)
  qed (auto simp: admissible_def upgrades_def)
  moreover have "\<forall>(ch, sc) \<in> set items. (\<forall>b \<in> set ch. floor_bits \<le> b) \<and> distinct ch"
    using assms(1) by (fastforce simp: allowed_bits_def)
  ultimately show ?thesis using champion_is_optimal [of items c] by (auto split: option.splits)
qed

lemma items_of_snoc: "items_of ch sc (cs @ [c]) = (ch c, sc c) # items_of ch sc cs"
  by (simp add: items_of_def)

lemma exact_rows:
  assumes "length cs \<le> n" and "upgrade_units \<le> 2 * n"
  shows "\<exists>s. fold_res (exact_step n) cs (start_scores upgrade_units, []) = Inr s
    \<and> dp_ok upgrade_units (items_of (\<lambda>_. allowed_bits) gain_integer cs) s"
  using assms(1)
proof (induction cs rule: rev_induct)
  case Nil
  then show ?case using dp_ok_start by (simp add: items_of_def)
next
  case (snoc c cs)
  then obtain scores parents where run: "fold_res (exact_step n) cs (start_scores upgrade_units, []) = Inr (scores, parents)"
    and ok: "dp_ok upgrade_units (items_of (\<lambda>_. allowed_bits) gain_integer cs) (scores, parents)" by auto
  obtain ns costs choices where row: "next_row upgrade_units (gain_integer c) allowed_bits scores = (ns, costs, choices)"
    by (cases "next_row upgrade_units (gain_integer c) allowed_bits scores") auto
  have next_ok: "dp_ok upgrade_units (items_of (\<lambda>_. allowed_bits) gain_integer (cs @ [c])) (ns, parents @ [(costs, choices)])"
    using dp_ok_step [OF ok _ row] by (simp add: items_of_snoc)
  have "ns ! upgrade_units \<noteq> None" if "length parents = n - 1"
  proof -
    have "length parents = length cs" using ok by (simp add: dp_ok_def items_of_def)
    with that snoc.prems have "n = length (cs @ [c])" by auto
    then have "champion (items_of (\<lambda>_. allowed_bits) gain_integer (cs @ [c])) upgrade_units \<noteq> None"
      using assms(2) by (intro reachable_cost) (auto simp: items_of_def)
    with next_ok show ?thesis by (auto simp: dp_ok_def)
  qed
  then have "exact_step n c (scores, parents) = Inr (ns, parents @ [(costs, choices)])" by (auto simp: exact_step_def row)
  with run next_ok show ?case by (simp add: fold_res_append)
qed

lemma sequential_choices_allowed: "set (sequential_choices c) \<subseteq> set allowed_bits \<and> distinct (sequential_choices c)"
  by (auto simp: sequential_choices_def allowed_bits_def Let_def)

lemma sequential_rows:
  "dp_ok upgrade_units (items_of sequential_choices sequential_score cs) (fold sequential_step cs (start_scores upgrade_units, []))"
proof (induction cs rule: rev_induct)
  case Nil
  show ?case using dp_ok_start by (simp add: items_of_def)
next
  case (snoc c cs)
  obtain scores parents where s: "fold sequential_step cs (start_scores upgrade_units, []) = (scores, parents)" by fastforce
  obtain ns costs choices where row: "next_row upgrade_units (sequential_score c) (sequential_choices c) scores = (ns, costs, choices)"
    by (cases "next_row upgrade_units (sequential_score c) (sequential_choices c) scores") auto
  have "dp_ok upgrade_units (items_of sequential_choices sequential_score (cs @ [c])) (ns, parents @ [(costs, choices)])"
    using dp_ok_step [OF _ _ row] snoc s sequential_choices_allowed [of c] by (simp add: items_of_snoc)
  moreover have "sequential_step c (scores, parents) = (ns, parents @ [(costs, choices)])" by (simp add: sequential_step_def row)
  ultimately show ?case using s by simp
qed

lemma covers_layer_curves:
  assumes "3 \<le> layer \<and> layer \<le> 77"
  shows "covers_layer layer curves \<longleftrightarrow> set (map fst (curves_by_id curves)) = set (layer_ids layer)"
    and "covers_layer layer curves \<Longrightarrow> length (curves_by_id curves) = tensors_per_layer"
proof -
  show "covers_layer layer curves \<longleftrightarrow> set (map fst (curves_by_id curves)) = set (layer_ids layer)"
    using assms curves_by_id_keys(2) [of curves] by (simp only: covers_layer_def simp_thms)
  moreover have "distinct (map fst (curves_by_id curves))" using curves_by_id_keys(1) by (simp add: dict_wf_def)
  ultimately show "covers_layer layer curves \<Longrightarrow> length (curves_by_id curves) = tensors_per_layer"
    using distinct_card [of "map fst (curves_by_id curves)"] distinct_card [OF distinct_layer_ids, of layer]
    by (simp del: set_map)
qed

lemma exact_allocation:
  "case solve_exact_allocation layer curves iteration probe of
     Inl e \<Rightarrow> e = ValueError \<and> \<not> covers_layer layer curves
   | Inr alloc \<Rightarrow> covers_layer layer curves
       \<and> optimal_allocation (\<lambda>_. allowed_bits) gain_integer (ordered_curves layer curves) alloc"
proof (cases "covers_layer layer curves")
  case False
  then show ?thesis
    using covers_layer_curves(1) [of layer curves] by (simp add: solve_exact_allocation_def all_layer_tensor_ids_iff Let_def del: set_map)
next
  case True
  let ?ordered = "ordered_curves layer curves"
  have layer: "3 \<le> layer \<and> layer \<le> 77" using True by (simp add: covers_layer_def)
  obtain scores parents where run: "fold_res (exact_step tensors_per_layer) ?ordered (start_scores upgrade_units, []) = Inr (scores, parents)"
    and ok: "dp_ok upgrade_units (items_of (\<lambda>_. allowed_bits) gain_integer ?ordered) (scores, parents)"
    using exact_rows [of ?ordered tensors_per_layer] by auto
  have "champion (items_of (\<lambda>_. allowed_bits) gain_integer ?ordered) upgrade_units \<noteq> None"
    by (intro reachable_cost) (auto simp: items_of_def)
  then obtain score where score: "scores ! upgrade_units = Some score" using ok by (auto simp: dp_ok_def)
  obtain bs alloc where "walk_back (rev parents) (int upgrade_units) [] = Inr (rev bs, 0)"
    "selected_allocation layer ?ordered bs score iteration probe = Inr alloc"
    "optimal_allocation (\<lambda>_. allowed_bits) gain_integer ?ordered alloc"
    using allocation_from_rows [OF True refl _ ok score, of iteration probe] by (auto simp: allowed_bits_def)
  with True layer covers_layer_curves [OF layer, of curves] run score show ?thesis
    by (simp add: solve_exact_allocation_def all_layer_tensor_ids_iff Let_def ordered_curves_def [symmetric] del: set_map)
qed

text \<open>
  C38. The exact allocation does what it promises: it raises only \<open>ValueError\<close>, and just when the curves are
  not those of the layer's tensors; otherwise no check on the way fails, the bits are 3, 4 or 5 for every
  tensor and sum to 3.5 per tensor, no other such choice has a higher score, and among those of the same
  score it is the one with more bits at the last tensor where they differ.
\<close>

theorem exact_allocation_optimal:
  "case solve_exact_allocation layer curves iteration probe of
     Inl e \<Rightarrow> e = ValueError \<and> \<not> covers_layer layer curves
   | Inr alloc \<Rightarrow> covers_layer layer curves
       \<and> optimal_allocation (\<lambda>_. allowed_bits) gain_integer (ordered_curves layer curves) alloc"
  by (rule exact_allocation)

lemma sequential_allocation:
  "case solve_sequential_allocation layer curves probe of
     Inl e \<Rightarrow> (e = ValueError \<and> \<not> covers_layer layer curves)
       \<or> (e = RuntimeError \<and> covers_layer layer curves
          \<and> (\<nexists>bs. fits_budget sequential_choices (ordered_curves layer curves) bs))
   | Inr alloc \<Rightarrow> covers_layer layer curves
       \<and> optimal_allocation sequential_choices sequential_score (ordered_curves layer curves) alloc"
proof (cases "covers_layer layer curves")
  case False
  then show ?thesis
    using covers_layer_curves(1) [of layer curves] by (simp add: solve_sequential_allocation_def all_layer_tensor_ids_iff Let_def del: set_map)
next
  case True
  let ?ordered = "ordered_curves layer curves"
  have layer: "3 \<le> layer \<and> layer \<le> 77" using True by (simp add: covers_layer_def)
  obtain scores parents where run: "fold sequential_step ?ordered (start_scores upgrade_units, []) = (scores, parents)" by fastforce
  then have ok: "dp_ok upgrade_units (items_of sequential_choices sequential_score ?ordered) (scores, parents)"
    using sequential_rows [of ?ordered] by simp
  note solve = solve_sequential_allocation_def all_layer_tensor_ids_iff Let_def ordered_curves_def [symmetric]
  show ?thesis
  proof (cases "scores ! upgrade_units")
    case None
    have "fits_budget sequential_choices ?ordered bs \<Longrightarrow> False" for bs
    proof -
      assume fits: "fits_budget sequential_choices ?ordered bs"
      have low: "\<forall>b \<in> set bs. floor_bits \<le> b"
        using fits sequential_choices_allowed by (fastforce simp: fits_budget_def list_all2_conv_all_nth in_set_conv_nth allowed_bits_def)
      have "length bs = tensors_per_layer" using fits list_all2_lengthD [of _ ?ordered bs] by (fastforce simp: fits_budget_def)
      then have "upgrades (rev bs) = upgrade_units" using upgrades_sum [OF low] fits by (simp add: fits_budget_def)
      moreover have "admissible (items_of sequential_choices sequential_score ?ordered) (rev bs)"
        using fits by (simp add: fits_budget_def admissible_rev)
      moreover have "champion (items_of sequential_choices sequential_score ?ordered) upgrade_units = None"
        using ok None by (auto simp: dp_ok_def)
      moreover have "\<forall>(ch, sc) \<in> set (items_of sequential_choices sequential_score ?ordered). (\<forall>b \<in> set ch. floor_bits \<le> b) \<and> distinct ch"
        using sequential_choices_allowed by (fastforce simp: items_of_def allowed_bits_def)
      ultimately show False using champion_is_optimal [of "items_of sequential_choices sequential_score ?ordered" upgrade_units] by auto
    qed
    with True layer covers_layer_curves [OF layer, of curves] run None show ?thesis by (auto simp add: solve simp del: set_map)
  next
    case (Some score)
    obtain bs alloc where "walk_back (rev parents) (int upgrade_units) [] = Inr (rev bs, 0)"
      "selected_allocation layer ?ordered bs score 0 probe = Inr alloc"
      "optimal_allocation sequential_choices sequential_score ?ordered alloc"
      using allocation_from_rows [OF True refl sequential_choices_allowed ok Some, of 0 probe] by auto
    with True layer covers_layer_curves [OF layer, of curves] run Some show ?thesis by (simp add: solve del: set_map)
  qed
qed

text \<open>The bits up to which every further bit lowers the measured loss\<close>

definition justified_bits :: "sensitivity_curve \<Rightarrow> int list" where
  "justified_bits c = filter (\<lambda>b. \<forall>j \<in> {4..b}. dec_value (sc_loss_by_bits c j) < dec_value (sc_loss_by_bits c (j - 1))) allowed_bits"

lemma sequential_choices_justified: "sequential_choices = justified_bits"
proof
  fix c
  have "{4..4 :: int} = {4}" "{4..5 :: int} = {4, 5}" by auto
  then show "sequential_choices c = justified_bits c"
    by (simp add: sequential_choices_def justified_bits_def allowed_bits_def Let_def)
qed

text \<open>
  C39. The sequential allocation does what it promises: it raises \<open>ValueError\<close> just when the curves are not
  those of the layer's tensors, and \<open>RuntimeError\<close> just when no choice meets the budget that gives 4 bits
  only to a tensor whose loss is then lower and 5 bits only if the loss is lower still; otherwise it
  returns such a choice, with the highest score and the same rule for ties.
\<close>

theorem sequential_allocation_optimal:
  "case solve_sequential_allocation layer curves probe of
     Inl e \<Rightarrow> (e = ValueError \<and> \<not> covers_layer layer curves)
       \<or> (e = RuntimeError \<and> covers_layer layer curves
          \<and> (\<nexists>bs. fits_budget justified_bits (ordered_curves layer curves) bs))
   | Inr alloc \<Rightarrow> covers_layer layer curves
       \<and> optimal_allocation justified_bits sequential_score (ordered_curves layer curves) alloc"
  using sequential_allocation [of layer curves probe] by (simp only: sequential_choices_justified)

section \<open>A probe that is accepted can be allocated\<close>

text \<open>A curve that comes from the candidates and masses of a probe\<close>

definition curve_from :: "candidate_loss list \<Rightarrow> string list \<Rightarrow> sensitivity_curve \<Rightarrow> bool" where
  "curve_from candidates mass_by_expert c \<longleftrightarrow>
     decimal_of_string (mass_by_expert ! nat (ti_expert (sc_tensor_id c))) = Inr (sc_mass c) \<and> 0 \<le> dec_value (sc_mass c)
     \<and> (\<forall>b \<in> set allowed_bits. 0 \<le> dec_value (sc_loss_by_bits c b)
          \<and> (\<exists>cand \<in> set candidates. tensor_key (cl_tensor_id cand) = tensor_key (sc_tensor_id c) \<and> cl_bits cand = b
               \<and> decimal_of_string (cl_loss cand) = Inr (sc_loss_by_bits c b)
               \<and> cl_roundtrip_sha256 cand = sc_evidence_hash_by_bits c b \<and> sc_evidence_hash_by_bits c b \<noteq> []))"

definition grouped_from :: "candidate_loss list \<Rightarrow> probe_groups \<Rightarrow> bool" where
  "grouped_from candidates grouped \<longleftrightarrow> (\<forall>key by_bits b cand. map_of grouped key = Some by_bits \<longrightarrow> map_of by_bits b = Some cand
     \<longrightarrow> cand \<in> set candidates \<and> tensor_key (cl_tensor_id cand) = key \<and> cl_bits cand = b)"

lemma decimal_error: "decimal_of_string s = Inl e \<Longrightarrow> e = ValueError"
  by (auto simp: decimal_of_string_def Let_def split: prod.splits option.splits if_splits)

lemma map_res_error: "map_res f xs = Inl e \<Longrightarrow> \<exists>x \<in> set xs. f x = Inl e"
  by (induction xs) (auto simp: res_simps)

lemma map_res_nth: "map_res f xs = Inr ys \<Longrightarrow> length ys = length xs \<and> (\<forall>i < length xs. f (xs ! i) = Inr (ys ! i))"
  by (induction xs arbitrary: ys) (auto simp: res_simps nth_Cons split: nat.splits)

lemma add_candidate_error: "add_candidate layer c grouped = Inl e \<Longrightarrow> e = ValueError"
  by (auto simp: add_candidate_def Let_def split: if_splits)

lemma fold_res_error: "fold_res f xs s = Inl e \<Longrightarrow> \<exists>x \<in> set xs. \<exists>t. f x t = Inl e"
proof (induction xs arbitrary: s)
  case (Cons x xs)
  then show ?case by (cases "f x s") auto
qed simp

lemma add_candidates_from:
  assumes "fold_res (add_candidate layer) candidates [] = Inr grouped"
  shows "grouped_from candidates grouped"
proof (rule fold_res_invariant [OF assms])
  show "grouped_from candidates []" by (simp add: grouped_from_def)
next
  fix c grouped grouped'
  assume c: "c \<in> set candidates" and origin: "grouped_from candidates grouped" and step: "add_candidate layer c grouped = Inr grouped'"
  let ?key = "tensor_key (cl_tensor_id c)"
  have new: "grouped' = AList.update ?key (AList.update (cl_bits c) c (dict_get grouped ?key [])) grouped"
    using step by (auto simp: add_candidate_def Let_def split: if_splits)
  show "grouped_from candidates grouped'"
    unfolding grouped_from_def
  proof (intro allI impI)
    fix key by_bits b cand
    assume get: "map_of grouped' key = Some by_bits" "map_of by_bits b = Some cand"
    show "cand \<in> set candidates \<and> tensor_key (cl_tensor_id cand) = key \<and> cl_bits cand = b"
    proof (cases "key = ?key \<and> b = cl_bits c")
      case True
      with get c show ?thesis by (auto simp: new map_of_update)
    next
      case False
      then obtain bb where "map_of grouped key = Some bb" "map_of bb b = Some cand"
        using get by (cases "map_of grouped ?key") (auto simp: new map_of_update dict_get_def split: if_splits)
      with origin show ?thesis unfolding grouped_from_def by blast
    qed
  qed
qed

lemma build_curve_error: "build_curve grouped masses t = Inl e \<Longrightarrow> e = ValueError"
  by (auto simp: build_curve_def Let_def res_simps dest!: map_res_error decimal_error split: option.splits if_splits)

lemma build_curve_from:
  assumes "build_curve grouped masses t = Inr c" and origin: "grouped_from candidates grouped"
    and masses: "map_res decimal_of_string mass_by_expert = Inr masses" "\<forall>m \<in> set masses. 0 \<le> dec_value m"
    and "nat (ti_expert t) < length masses"
  shows "sc_tensor_id c = t \<and> curve_from candidates mass_by_expert c"
proof -
  from assms(1) obtain by_bits losses where
    group: "map_of grouped (tensor_key t) = Some by_bits" "set (map fst by_bits) = set allowed_bits"
    and losses: "map_res (\<lambda>b. decimal_of_string (cl_loss (the (map_of by_bits b)))) allowed_bits = Inr losses"
    "\<forall>l \<in> set losses. \<not> dec_value l < 0"
    and hashes: "\<forall>b \<in> set allowed_bits. cl_roundtrip_sha256 (the (map_of by_bits b)) \<noteq> []"
    and c: "c = \<lparr>sc_tensor_id = t, sc_mass = masses ! nat (ti_expert t), sc_loss_by_bits = (\<lambda>b. losses ! nat (b - floor_bits)),
                 sc_evidence_hash_by_bits = (\<lambda>b. cl_roundtrip_sha256 (the (map_of by_bits b)))\<rparr>"
    by (auto simp: build_curve_def Let_def res_simps split: option.splits if_splits)
  have mass: "decimal_of_string (mass_by_expert ! nat (ti_expert t)) = Inr (masses ! nat (ti_expert t))"
    "0 \<le> dec_value (masses ! nat (ti_expert t))"
    using map_res_nth [OF masses(1)] masses(2) assms(5) by auto
  have found: "\<exists>cand \<in> set candidates. tensor_key (cl_tensor_id cand) = tensor_key t \<and> cl_bits cand = b
      \<and> decimal_of_string (cl_loss cand) = Inr (losses ! nat (b - floor_bits)) \<and> cl_roundtrip_sha256 cand = cl_roundtrip_sha256 (the (map_of by_bits b))"
    and low: "0 \<le> dec_value (losses ! nat (b - floor_bits))" if b: "b \<in> set allowed_bits" for b
  proof -
    have i: "nat (b - floor_bits) < length allowed_bits" "allowed_bits ! nat (b - floor_bits) = b"
      using b by (auto simp: allowed_bits_def)
    have parsed: "decimal_of_string (cl_loss (the (map_of by_bits b))) = Inr (losses ! nat (b - floor_bits))" "length losses = length allowed_bits"
      using map_res_nth [OF losses(1)] i by metis+
    show "0 \<le> dec_value (losses ! nat (b - floor_bits))" using losses(2) parsed(2) i(1) by (simp add: not_less)
    obtain cand where cand: "map_of by_bits b = Some cand"
      using b group(2) by (metis list.set_map map_of_eq_None_iff option.exhaust)
    with origin group(1) have "cand \<in> set candidates \<and> tensor_key (cl_tensor_id cand) = tensor_key t \<and> cl_bits cand = b"
      unfolding grouped_from_def by blast
    with parsed(1) cand show "\<exists>cand \<in> set candidates. tensor_key (cl_tensor_id cand) = tensor_key t \<and> cl_bits cand = b
      \<and> decimal_of_string (cl_loss cand) = Inr (losses ! nat (b - floor_bits)) \<and> cl_roundtrip_sha256 cand = cl_roundtrip_sha256 (the (map_of by_bits b))"
      by auto
  qed
  show ?thesis using mass found low hashes by (fastforce simp: c curve_from_def)
qed

lemma build_curves_from:
  "case build_curves layer candidates mass_by_expert of
     Inl e \<Rightarrow> e = ValueError
   | Inr curves \<Rightarrow> covers_layer layer curves \<and> map sc_tensor_id curves = layer_ids layer
       \<and> list_all (curve_from candidates mass_by_expert) curves"
proof (cases "build_curves layer candidates mass_by_expert")
  case (Inl e)
  then have "e = ValueError"
    by (auto simp: build_curves_def res_simps all_layer_tensor_ids_iff split: if_splits
        dest!: map_res_error fold_res_error decimal_error add_candidate_error build_curve_error)
  with Inl show ?thesis by simp
next
  case (Inr curves)
  then obtain masses grouped where masses: "map_res decimal_of_string mass_by_expert = Inr masses"
    "int (length masses) = num_experts" "\<forall>m \<in> set masses. 0 \<le> dec_value m"
    and grouped: "fold_res (add_candidate layer) candidates [] = Inr grouped"
    and layer: "3 \<le> layer \<and> layer \<le> 77" and curves: "map_res (build_curve grouped masses) (layer_ids layer) = Inr curves"
    by (auto simp: build_curves_def res_simps all_layer_tensor_ids_iff not_less split: if_splits)
  note nth = map_res_nth [OF curves]
  have each: "sc_tensor_id (curves ! i) = layer_ids layer ! i \<and> curve_from candidates mass_by_expert (curves ! i)"
    if "i < length (layer_ids layer)" for i
  proof -
    have "layer_ids layer ! i \<in> set (layer_ids layer)" using that by (rule nth_mem)
    then have "nat (ti_expert (layer_ids layer ! i)) < length masses" using masses(2) by (simp add: layer_ids_mem) linarith
    with build_curve_from [OF _ add_candidates_from [OF grouped] masses(1,3)] nth that show ?thesis by blast
  qed
  have ids: "map sc_tensor_id curves = layer_ids layer" using nth each by (intro nth_equalityI) auto
  moreover have "list_all (curve_from candidates mass_by_expert) curves" using nth each by (simp add: list_all_length)
  moreover have "covers_layer layer curves" using layer ids by (simp add: covers_layer_def del: set_map)
  ultimately show ?thesis by (simp add: Inr)
qed

lemma ordered_curves_same:
  assumes "map sc_tensor_id curves = layer_ids layer"
  shows "ordered_curves layer curves = curves"
proof -
  have "fold (\<lambda>c. AList.update (sc_tensor_id c) c) cs d = d @ map (\<lambda>c. (sc_tensor_id c, c)) cs"
    if "distinct (map fst d @ map sc_tensor_id cs)" for cs d
    using that
  proof (induction cs arbitrary: d)
    case (Cons c cs)
    have "AList.update (sc_tensor_id c) c d = d @ [(sc_tensor_id c, c)]" using Cons.prems by (intro update_absent) auto
    with Cons.IH [of "d @ [(sc_tensor_id c, c)]"] Cons.prems show ?case by simp
  qed simp
  from this [of "[]" curves] assms distinct_layer_ids [of layer]
  have by_id: "curves_by_id curves = map (\<lambda>c. (sc_tensor_id c, c)) curves" by (simp add: curves_by_id_def)
  have "map_of (map (\<lambda>c. (sc_tensor_id c, c)) curves) (sc_tensor_id c) = Some c" if "c \<in> set curves" for c
    using that assms distinct_layer_ids [of layer] by (intro map_of_is_SomeI) (simp_all add: comp_def)
  then have "map (\<lambda>t. the (map_of (curves_by_id curves) t)) (map sc_tensor_id curves) = curves"
    by (simp add: by_id map_idI)
  then show ?thesis by (simp add: ordered_curves_def assms)
qed

text \<open>
  C40. A probe is either refused with \<open>ValueError\<close> or can be allocated: the curves made from it belong to the
  tensors of the layer, in their order; each has the mass of its expert and, for 3, 4 and 5 bits, the
  non-negative loss and the evidence of a candidate of that tensor; and the exact allocation of these
  curves returns an optimal choice that passes its audit.
\<close>

theorem accepted_probe_is_allocated:
  "case build_curves layer candidates mass_by_expert of
     Inl e \<Rightarrow> e = ValueError
   | Inr curves \<Rightarrow> map sc_tensor_id curves = layer_ids layer \<and> list_all (curve_from candidates mass_by_expert) curves
       \<and> (\<exists>alloc. solve_exact_allocation layer curves iteration probe = Inr alloc
            \<and> optimal_allocation (\<lambda>_. allowed_bits) gain_integer curves alloc
            \<and> audit_allocation (la_bits alloc) = Inr ())"
proof (cases "build_curves layer candidates mass_by_expert")
  case (Inl e)
  with build_curves_from [of layer candidates mass_by_expert] show ?thesis by simp
next
  case (Inr curves)
  with build_curves_from [of layer candidates mass_by_expert]
  have curves: "covers_layer layer curves" "map sc_tensor_id curves = layer_ids layer"
    "list_all (curve_from candidates mass_by_expert) curves" by simp_all
  with exact_allocation [of layer curves iteration probe] ordered_curves_same [OF curves(2)]
  obtain alloc where alloc: "solve_exact_allocation layer curves iteration probe = Inr alloc"
    "optimal_allocation (\<lambda>_. allowed_bits) gain_integer curves alloc"
    by (auto split: sum.splits)
  have "audit_allocation (la_bits alloc) = Inr ()"
    using alloc(1) by (auto simp: solve_exact_allocation_def selected_allocation_def Let_def res_simps split: if_splits option.splits)
  with curves(2,3) alloc Inr show ?thesis by auto
qed

section \<open>Ties\<close>

text \<open>
  The comments say that the lower choice of bits wins a tie.  The loop over the earlier costs runs
  upwards, so that for one cost the higher choice comes first: of two tensors with the same gain, the
  second one gets the only upgrade.
\<close>

lemma higher_bits_win_ties:
  "let (scores, _) = next_row 1 (\<lambda>bits. bits) allowed_bits (start_scores 1);
       (scores', costs, choices) = next_row 1 (\<lambda>bits. bits) allowed_bits scores
   in scores' ! 1 = Some 7 \<and> choices ! 1 = 4 \<and> costs ! 1 = 0"
  by code_simp

lemma exact_allocation_optimal_witness:
  "\<exists>alloc. solve_exact_allocation 3 (map (\<lambda>t. \<lparr>sc_tensor_id = t, sc_mass = Dec 1 0, sc_loss_by_bits = (\<lambda>b. Dec (5 - b) (- 1)),
      sc_evidence_hash_by_bits = (\<lambda>b. ''00'')\<rparr>) (layer_ids 3)) 0 ''ff'' = Inr alloc
    \<and> sum_list (map snd (la_bits alloc)) = 2688"
proof -
  let ?curves = "map (\<lambda>t. \<lparr>sc_tensor_id = t, sc_mass = Dec 1 0, sc_loss_by_bits = (\<lambda>b. Dec (5 - b) (- 1)),
      sc_evidence_hash_by_bits = (\<lambda>b. ''00'')\<rparr>) (layer_ids 3)"
  have "covers_layer 3 ?curves" by (simp add: covers_layer_def comp_def)
  with exact_allocation_optimal [of 3 ?curves 0 "''ff''"] show ?thesis
    by (auto simp: optimal_allocation_def fits_budget_def Let_def split: sum.splits)
qed
end
