(* ===== verification/Spec2Isabelle.thy ===== *)
theory Spec2Isabelle
  imports FreeQueue BlockHash HashMap BlockPool CacheHit SingleType KvReserve GlobalDp UniformCodec MlaCapacity Permutations KvSizing LayerAllocation
begin

text \<open>
  A verification library for the KV cache core and the quantisation pipeline of the repository, all of it
  written in Python.  File names below are relative to \<open>src/\<close>; \<open>g1\<close> abbreviates
  \<open>upstream-core-port/upstream-g1/vllm/v1\<close>, and likewise \<open>g2\<close> and \<open>g4\<close>.

  \<^bold>\<open>The KV cache.\<close>  An inference server keeps the keys and values of earlier tokens in blocks of a fixed
  number of tokens.  From the bottom up:

    \<^item> \<open>FreeQueue\<close>: \<open>FreeKVCacheBlockQueue\<close> of \<open>g1/core/kv_cache_utils.py\<close>, the linked list of free blocks.  Its
      state is the two maps of links and the count; the list it stands for is read off by walking it, and
      every operation refines the operation on lists (locale \<open>free_list\<close>, interpreted on the code's model).
    \<^item> \<open>BlockHash\<close>: keys, extra keys and the chained hashes of \<open>kv_cache_utils.py\<close>, and the coarser view of them.
      \<open>hashed\<close> holds of the requests whose hashes the hasher computed, call by call, as tokens arrived; for them
      equal hashes mean equal prefixes, seen directly or through the view.  The condition that a later call
      finds all multi-modal inputs but the last ended is needed: the hasher looks at no other there.
    \<^item> \<open>HashMap\<close>: \<open>BlockHashToBlockMap\<close> of \<open>g1/core/block_pool.py\<close>; locale \<open>block_index\<close>: per key, the blocks
      that are held.
    \<^item> \<open>BlockPool\<close>: \<open>BlockPool\<close> of \<open>block_pool.py\<close>.  Its step relation has one rule per public operation; in every
      reachable pool the free list, the reference counts and the prefix cache agree.
    \<^item> \<open>SpecKinds\<close>: the specifications of \<open>g1/kv_cache_interface.py\<close> as far as managers read them.
    \<^item> \<open>CacheHit\<close>: \<open>find_longest_cache_hit\<close> and \<open>reachable_block_mask\<close> of the managers in
      \<open>g1/core/single_type_kv_cache_manager.py\<close>, with the attention type as a case distinction.
      Soundness and maximality of the hits are stated over the pool, with what EAGLE costs in maximality.
    \<^item> \<open>SingleType\<close>, \<open>ManagerStatics\<close>: the managers themselves.  A manager and the pool are threaded through each
      call; what a manager asks of the pool is the locale \<open>block_allocator\<close>, interpreted on \<open>BlockPool\<close>.  The
      accounts say that the reference counts of the pool are those of the block tables and pending copies
      after any sequence of calls.  Admission, allocation and the return of unread blocks are stated for all
      managers but mamba in align mode, whose admission count can be too small; \<open>still_read\<close> says, apart from
      the code, which tokens each attention type still reads.
    \<^item> \<open>Coordinator\<close>, \<open>HybridLookup\<close>: \<open>g1/core/kv_cache_coordinator.py\<close>: one manager per group, and the lookup that
      reconciles the hits of groups of different types.
    \<^item> \<open>KvManager\<close>, \<open>KvAccounts\<close>, \<open>KvReserve\<close>: \<open>g1/core/kv_cache_manager.py\<close>: lookups, admission, allocation,
      release, pinned tail blocks and the reserve for recurrent state.  \<open>reserve_refusals\<close> counts the refusals of a
      request that only the reserve causes; they never exceed the age, after which the reserve is without
      effect.  Refusals for want of the blocks of the whole sequence are others, and the code never ages them.
    \<^item> \<open>KvLayout\<close>: \<open>g4/kv_cache_layout.py\<close>, pages and strides of \<open>kv_cache_interface.py\<close>, and
      \<open>get_kv_cache_config_from_groups\<close>: where the pages of every layer lie in one allocation, and when pages of
      different block ids do not overlap: in layouts whose pages lie in one piece (in others a lemma shows two
      groups that share bytes).
    \<^item> \<open>KvSizing\<close>: block sizes of the scheduler, the memory of a request and the longest one that fits,
      unification of page sizes and splitting of layers, all of \<open>kv_cache_utils.py\<close>.

  \<^bold>\<open>The quantisation pipeline.\<close>

    \<^item> \<open>GlobalDp\<close>: \<open>src/quant_pipeline/allocation/global_dp.py\<close>, choice of one candidate per unit within a budget
      of bytes.
    \<^item> \<open>UniformCodec\<close>: \<open>src/quant_pipeline/codecs/uniform.py\<close>, bit packing on bytes and quantisation in groups.
    \<^item> \<open>MlaCapacity\<close>: \<open>src/quant_pipeline/capacity/mla.py\<close>, how many tokens fit on a set of devices,
      with exact projections for composite layouts and, while doubles are exact, for layouts of one kind.
    \<^item> \<open>Permutations\<close>: the permutation policies of \<open>src/quant_pipeline/normalization/prior_search.py\<close>.
    \<^item> \<open>LayerAllocation\<close>: \<open>reproducibility/r10/r7_encoder/allocation.py\<close> and \<open>r10_allocation.py\<close>, the exact bit
      allocation of a layer.
\<close>

text \<open>
  \<^bold>\<open>Conventions.\<close>  \<open>Prelude\<close> holds them: a Python exception is the left of a sum (\<open>py_err + 'a\<close>), \<open>bind_res\<close>
  sequences fallible operations, \<open>fold_res\<close> is a loop whose body may raise, a dictionary is an association
  list in insertion order.  Python integers are \<open>int\<close>; bytes are \<open>8 word\<close>.  An object that the code mutates in
  several places is passed and returned.  The collections \<open>res_simps\<close>, \<open>dict_simps\<close>, \<open>shape_simps\<close>,
  \<open>static_kept\<close> and \<open>ledger_kept\<close> carry the routine steps of the proofs.

  \<^bold>\<open>Parameters.\<close>  What lies outside the repository is an argument of the definitions that use it.
  \<open>cdiv\<close> and \<open>round_up\<close> come from \<open>vllm.utils.math_utils\<close>: theorems assume \<open>cdiv_law\<close> (division rounded up), and
  that \<open>round_up\<close> does not decrease its argument.  Hash functions are arbitrary; where a theorem needs it,
  it assumes that they do not collide on the inputs at hand.  \<open>pool_env\<close> says how a Python set is iterated and
  how events present hashes; \<open>env_ok\<close> asks only that the iteration visits each element once.  The rounding
  of floats is a function; theorems assume that it is monotone and, for the capacity planner, what
  \<open>rounds_well\<close> says of the rounding of quotients.  Being total it does not raise \<open>OverflowError\<close> for integers beyond
  the range of doubles and does not underflow; likewise sums of integers and floats are exact before the
  rounding, and decimal exponents are unbounded.

  \<^bold>\<open>Loops.\<close>  Loops over data are structural.  The walk of the free list, the hashing loop, the loop of the
  hybrid lookup and the doubling search are \<open>partial_function (option)\<close>, with theorems that they return; the
  binary searches have a measure, the length of the interval.  No fuel is used anywhere.

  \<^bold>\<open>Properties.\<close>  They fall into five kinds: invariants over every sequence of calls (pool, manager,
  coordinator, cache manager); the outcome of each operation, errors included; equivalence with a
  specification (longest hit, reachable mask, list, map); safety of memory placement, admission and
  budgets; and optimality or maximality of what a search returns.  Small lemmas beside them record where
  the code departs from its comments or fails.

  \<^bold>\<open>Not modelled.\<close>  The scheduler (\<open>g1/core/sched\<close>), which drives the cache manager together with a model
  runner; the choice between strategies for grouping layers and the projection to pipeline workers in
  \<open>kv_cache_utils.py\<close>; metrics and logging.  The workers, attention backends, GPU kernels and models of
  \<open>upstream-g2\<close> to \<open>upstream-g4\<close>, \<open>r7\<close> and \<open>r7-b12x\<close> are tensor programs over torch, triton and CUDA, whose
  semantics is outside the repository.  The engine core and the chat protocol are processes, sockets and
  data classes of other packages.  Of the quantisation pipeline and the encoders, what reads and writes
  checkpoints, receipts and ledgers (files, JSON, SHA-256), runs models, or computes with torch tensors
  (calibration, rotations, trellis search, LDL factorisation, scoring) is left out, as are scripts.
\<close>

end
